(* ===== verification/Trex_Prelude.thy ===== *)
theory Trex_Prelude
  imports Main "HOL-Library.Word" "HOL-Library.Code_Target_Nat"
begin

text \<open>
  Shared vocabulary of the development: the machine integers of the C and C++ sources as
  \<open>'n word\<close>, errors as the left side of a sum with a bind for sequencing, byte memories as
  lists of octets with bounds-checked typed access, and the generic lemmas the component
  theories rely on.

  The build targets are little-endian (the sources convert with the \<open>odp_be_to_cpu\<close>
  functions), so a typed load reads the least significant octet first.
\<close>

unbundle bit_operations_syntax

named_theorems mem_simps \<open>facts about bounds-checked memory access\<close>
named_theorems bindE_simps \<open>facts about the error bind\<close>

type_synonym u8 = "8 word"
type_synonym u16 = "16 word"
type_synonym u32 = "32 word"
type_synonym u64 = "64 word"
type_synonym mem = "u8 list"

section \<open>Errors as values\<close>

definition bindE :: "'e + 'a \<Rightarrow> ('a \<Rightarrow> 'e + 'b) \<Rightarrow> 'e + 'b" where
  "bindE r f = (case r of Inl e \<Rightarrow> Inl e | Inr x \<Rightarrow> f x)"

definition assertE :: "'e \<Rightarrow> bool \<Rightarrow> 'e + unit" where
  "assertE e b = (if b then Inr () else Inl e)"

definition liftE :: "'e \<Rightarrow> 'a option \<Rightarrow> 'e + 'a" where
  "liftE e r = (case r of None \<Rightarrow> Inl e | Some x \<Rightarrow> Inr x)"

primrec foldE :: "('s \<Rightarrow> 'a \<Rightarrow> 'e + 's) \<Rightarrow> 's \<Rightarrow> 'a list \<Rightarrow> 'e + 's" where
  "foldE f s [] = Inr s"
| "foldE f s (x # xs) = bindE (f s x) (\<lambda>s'. foldE f s' xs)"

lemma bindE_Inr [simp]: "bindE (Inr x) f = f x"
  by (simp add: bindE_def)

lemma bindE_Inl [simp]: "bindE (Inl e) f = Inl e"
  by (simp add: bindE_def)

lemma bindE_eq_Inr [bindE_simps]:
  "bindE r f = Inr y \<longleftrightarrow> (\<exists>x. r = Inr x \<and> f x = Inr y)"
  by (cases r) auto

lemma bindE_eq_Inl [bindE_simps]:
  "bindE r f = Inl e \<longleftrightarrow> r = Inl e \<or> (\<exists>x. r = Inr x \<and> f x = Inl e)"
  by (cases r) auto

lemma bindE_assoc: "bindE (bindE r f) g = bindE r (\<lambda>x. bindE (f x) g)"
  by (cases r) auto

lemma bindE_cong [fundef_cong]:
  assumes "r = r'" and "\<And>x. r' = Inr x \<Longrightarrow> f x = g x"
  shows "bindE r f = bindE r' g"
  using assms by (cases r') auto

lemma assertE_eq_Inr [bindE_simps]: "assertE e b = Inr u \<longleftrightarrow> b"
  by (simp add: assertE_def)

lemma assertE_eq_Inl [bindE_simps]: "assertE e b = Inl e' \<longleftrightarrow> \<not> b \<and> e' = e"
  by (auto simp: assertE_def)

lemma assertE_True [simp]: "b \<Longrightarrow> assertE e b = Inr ()"
  by (simp add: assertE_def)

lemma liftE_eq_Inr [bindE_simps]: "liftE e r = Inr x \<longleftrightarrow> r = Some x"
  by (simp add: liftE_def split: option.splits)

lemma liftE_eq_Inl [bindE_simps]: "liftE e r = Inl e' \<longleftrightarrow> r = None \<and> e' = e"
  by (auto simp: liftE_def split: option.splits)

lemma liftE_Some [simp]: "liftE e (Some x) = Inr x"
  by (simp add: liftE_def)

lemma bindE_right [simp]: "bindE m Inr = m"
  by (cases m) (simp_all add: bindE_def)

lemma foldE_append:
  "foldE f s (xs @ ys) = bindE (foldE f s xs) (\<lambda>s'. foldE f s' ys)"
  by (induction xs arbitrary: s) (auto simp: bindE_assoc)

lemma foldE_invariant:
  assumes "foldE f s xs = Inr t" and "P s"
    and "\<And>s x s'. x \<in> set xs \<Longrightarrow> P s \<Longrightarrow> f s x = Inr s' \<Longrightarrow> P s'"
  shows "P t"
  using assms
proof (induction xs arbitrary: s)
  case Nil
  then show ?case by simp
next
  case (Cons x xs)
  from Cons.prems(1) obtain s' where s': "f s x = Inr s'" and rest: "foldE f s' xs = Inr t"
    by (auto simp: bindE_simps)
  have "P s'"
    using Cons.prems(3) [of x s s'] Cons.prems(2) s' by simp
  then show ?case
    using Cons.IH [OF rest] Cons.prems(3) by (metis list.set_intros(2))
qed

text \<open>An invariant that speaks of the elements already consumed.\<close>

lemma foldE_prefix_in:
  assumes "foldE f s xs = Inr t" and "P [] s"
    and "\<And>don x s s'. x \<in> set xs \<Longrightarrow> P don s \<Longrightarrow> f s x = Inr s' \<Longrightarrow> P (don @ [x]) s'"
  shows "P xs t"
proof -
  have "P (don @ ys) t" if "foldE f s ys = Inr t" "P don s" "set ys \<subseteq> set xs" for don ys
    using that
  proof (induction ys arbitrary: s don)
    case (Cons y ys)
    from Cons.prems(1) obtain s' where s': "f s y = Inr s'" and rest: "foldE f s' ys = Inr t"
      by (auto simp: bindE_simps)
    have "P (don @ [y]) s'" using assms(3) [OF _ Cons.prems(2) s'] Cons.prems(3) by simp
    then show ?case using Cons.IH [OF rest, of "don @ [y]"] Cons.prems(3) by simp
  qed simp
  from this [OF assms(1,2)] show ?thesis by simp
qed


section \<open>Modular arithmetic\<close>

lemma nat_mod_add_cancel:
  fixes a b c k :: nat
  assumes "(a + c) mod k = (b + c) mod k"
  shows "a mod k = b mod k"
proof -
  have "(int a + int c) mod int k = (int b + int c) mod int k"
    using assms by (metis of_nat_add of_nat_mod)
  then have "(int a + int c - int c) mod int k = (int b + int c - int c) mod int k"
    by (rule mod_diff_cong) simp
  then have "int (a mod k) = int (b mod k)" by (simp add: of_nat_mod)
  then show ?thesis by simp
qed

section \<open>Little-endian codecs\<close>

primrec le_word :: "mem \<Rightarrow> 'a::len word" where
  "le_word [] = 0"
| "le_word (b # bs) = ucast b OR push_bit 8 (le_word bs)"

primrec le_bytes :: "nat \<Rightarrow> 'a::len word \<Rightarrow> mem" where
  "le_bytes 0 w = []"
| "le_bytes (Suc n) w = ucast w # le_bytes n (drop_bit 8 w)"

definition nbytes :: "'a::len word itself \<Rightarrow> nat" where
  "nbytes _ = LENGTH('a) div 8"

text \<open>Byte reversal, what \<open>odp_be_to_cpu_16/32/64\<close> do on a little-endian target.\<close>

definition bswap :: "'a::len word \<Rightarrow> 'a word" where
  "bswap w = le_word (rev (le_bytes (LENGTH('a) div 8) w))"

lemma length_le_bytes [simp]: "length (le_bytes n w) = n"
  by (induction n arbitrary: w) auto

lemma bit_le_word:
  "bit (le_word bs :: 'a::len word) n \<longleftrightarrow>
     n < LENGTH('a) \<and> n div 8 < length bs \<and> bit (bs ! (n div 8)) (n mod 8)"
proof (induction bs arbitrary: n)
  case Nil
  then show ?case by simp
next
  case (Cons b bs)
  show ?case
  proof (cases "n < 8")
    case True
    then show ?thesis
      by (auto simp: bit_or_iff bit_push_bit_iff bit_ucast_iff)
  next
    case False
    then obtain m where m: "n = 8 + m" by (metis le_add_diff_inverse not_less)
    have "\<not> bit b n" using False bit_imp_le_length [of b n] by auto
    then show ?thesis
      using False Cons.IH [of m]
      by (auto simp: m bit_or_iff bit_push_bit_iff bit_ucast_iff div_add_self1)
  qed
qed

lemma nth_le_bytes: "i < n \<Longrightarrow> le_bytes n w ! i = ucast (drop_bit (8 * i) w)"
proof (induction n arbitrary: i w)
  case 0
  then show ?case by simp
next
  case (Suc n)
  then show ?case by (cases i) (auto simp: drop_bit_drop_bit add.commute)
qed

lemma le_word_le_bytes: "le_word (le_bytes n w) = take_bit (8 * n) (w :: 'a::len word)"
proof (rule bit_word_eqI)
  fix k
  assume "k < LENGTH('a)"
  have "8 * (k div 8) + k mod 8 = k" by simp
  then show "bit (le_word (le_bytes n w) :: 'a word) k \<longleftrightarrow> bit (take_bit (8 * n) w) k"
    using \<open>k < LENGTH('a)\<close>
    by (auto simp: bit_le_word nth_le_bytes bit_ucast_iff bit_drop_bit_eq bit_take_bit_iff)
qed

lemma le_bytes_le_word:
  assumes "8 * length bs \<le> LENGTH('a)"
  shows "le_bytes (length bs) (le_word bs :: 'a::len word) = bs"
proof (rule nth_equalityI)
  fix i
  assume i: "i < length (le_bytes (length bs) (le_word bs :: 'a word))"
  show "le_bytes (length bs) (le_word bs :: 'a word) ! i = bs ! i"
  proof (rule bit_word_eqI)
    fix k :: nat
    assume k: "k < LENGTH(8)"
    from i have "i < length bs" by simp
    then have "8 * i + k < LENGTH('a)" using assms k by simp
    then show "bit (le_bytes (length bs) (le_word bs :: 'a word) ! i) k \<longleftrightarrow> bit (bs ! i) k"
      using \<open>i < length bs\<close> k
      by (simp add: nth_le_bytes bit_ucast_iff bit_drop_bit_eq bit_le_word)
  qed
qed simp

lemma bswap_bswap:
  assumes "8 dvd LENGTH('a)"
  shows "bswap (bswap (w :: 'a::len word)) = w"
proof -
  define n where "n = LENGTH('a) div 8"
  have n: "8 * n = LENGTH('a)" using assms by (simp add: n_def)
  have "le_bytes n (le_word (rev (le_bytes n w)) :: 'a word) = rev (le_bytes n w)"
    using le_bytes_le_word [of "rev (le_bytes n w)", where 'a = 'a] n by simp
  then have "bswap (bswap w) = le_word (le_bytes n w)"
    by (simp add: bswap_def flip: n_def)
  then show ?thesis
    by (simp add: le_word_le_bytes n)
qed

lemma unat_less: "unat (w :: 'a::len word) < 2 ^ LENGTH('a)"
  by (rule unsigned_less)

lemma unat_u8_less [simp]: "unat (w :: u8) < 256"
  using unat_less [of w] by simp

lemma unat_u16_less [simp]: "unat (w :: u16) < 65536"
  using unat_less [of w] by simp

lemma unat_inc:
  assumes "(x :: 'a::len word) < y"
  shows "unat (x + 1) = unat x + 1"
proof -
  have "unat x + 1 < 2 ^ LENGTH('a)"
    using assms unat_less [of y] unfolding word_less_nat_alt by linarith
  then show ?thesis by (simp add: unat_word_ariths)
qed

lemma unat_ucast_widen:
  "LENGTH('a::len) \<le> LENGTH('b::len) \<Longrightarrow> unat (ucast (w :: 'a word) :: 'b word) = unat w"
  by (simp add: unsigned_ucast_eq take_bit_nat_eq_self_iff)
    (meson less_le_trans one_le_numeral power_increasing unat_less)

lemma le_bytes_1: "le_bytes 1 w = [ucast w]"
  by simp

lemma le_bytes_2: "le_bytes 2 w = [ucast w, ucast (drop_bit 8 w)]"
  by (simp add: numeral_2_eq_2)

lemma le_word_1 [simp]: "le_word [b] = (b :: u8)"
  by simp

section \<open>Bounds-checked memory\<close>

definition mem_rd :: "mem \<Rightarrow> nat \<Rightarrow> 'a::len word option" where
  "mem_rd m i = (if i + LENGTH('a) div 8 \<le> length m
     then Some (le_word (take (LENGTH('a) div 8) (drop i m))) else None)"

definition mem_wr :: "mem \<Rightarrow> nat \<Rightarrow> 'a::len word \<Rightarrow> mem option" where
  "mem_wr m i w = (if i + LENGTH('a) div 8 \<le> length m
     then Some (take i m @ le_bytes (LENGTH('a) div 8) w @ drop (i + LENGTH('a) div 8) m)
     else None)"

lemma mem_rd_None [mem_simps]:
  "(mem_rd m i :: 'a::len word option) = None \<longleftrightarrow> length m < i + LENGTH('a) div 8"
  by (simp add: mem_rd_def not_le)

lemma mem_rd_Some [mem_simps]:
  "i + LENGTH('a) div 8 \<le> length m \<Longrightarrow>
     (mem_rd m i :: 'a::len word option) = Some (le_word (take (LENGTH('a) div 8) (drop i m)))"
  by (simp add: mem_rd_def)

lemma mem_wr_None [mem_simps]:
  "mem_wr m i (w :: 'a::len word) = None \<longleftrightarrow> length m < i + LENGTH('a) div 8"
  by (simp add: mem_wr_def not_le)

lemma mem_wr_length: "mem_wr m i (w :: 'a::len word) = Some m' \<Longrightarrow> length m' = length m"
  by (auto simp: mem_wr_def split: if_splits)

lemma mem_wr_obtain:
  assumes "i + LENGTH('a) div 8 \<le> length m"
  obtains m' where "mem_wr m i (w :: 'a::len word) = Some m'" and "length m' = length m"
  using assms by (simp add: mem_wr_def)

lemma mem_wr_bound:
  "mem_wr m i (w :: 'a::len word) = Some m' \<Longrightarrow> i + LENGTH('a) div 8 \<le> length m"
  by (auto simp: mem_wr_def split: if_splits)

text \<open>A write changes the octets of its window only.\<close>

lemma mem_wr_frame:
  assumes "mem_wr m i (w :: 'a::len word) = Some m'" and "k < i \<or> i + LENGTH('a) div 8 \<le> k"
  shows "m' ! k = m ! k"
proof -
  from assms(1) have le: "i + LENGTH('a) div 8 \<le> length m"
    and m': "m' = take i m @ le_bytes (LENGTH('a) div 8) w @ drop (i + LENGTH('a) div 8) m"
    by (auto simp: mem_wr_def split: if_splits)
  show ?thesis
    using assms(2) le by (auto simp: m' nth_append)
qed

lemma mem_wr_take:
  assumes "mem_wr m i (w :: 'a::len word) = Some m'" and "i + LENGTH('a) div 8 \<le> n"
  shows "drop n m' = drop n m"
proof (rule nth_equalityI)
  show "length (drop n m') = length (drop n m)"
    using mem_wr_length [OF assms(1)] by simp
  fix k
  assume "k < length (drop n m')"
  then show "drop n m' ! k = drop n m ! k"
    using mem_wr_frame [OF assms(1), of "n + k"] mem_wr_length [OF assms(1)] assms(2) by simp
qed

lemma mem_rd_wr_same:
  assumes "8 dvd LENGTH('a)" and "mem_wr m i (w :: 'a::len word) = Some m'"
  shows "mem_rd m' i = Some w"
proof -
  from assms(2) have le: "i + LENGTH('a) div 8 \<le> length m"
    and m': "m' = take i m @ le_bytes (LENGTH('a) div 8) w @ drop (i + LENGTH('a) div 8) m"
    by (auto simp: mem_wr_def split: if_splits)
  have "8 * (LENGTH('a) div 8) = LENGTH('a)" using assms(1) by simp
  then show ?thesis
    using le by (simp add: mem_rd_def m' le_word_le_bytes)
qed

lemma mem_rd_cong:
  assumes "length m' = length m" and "\<And>k. i \<le> k \<Longrightarrow> k < i + LENGTH('a) div 8 \<Longrightarrow> m' ! k = m ! k"
  shows "(mem_rd m' i :: 'a::len word option) = mem_rd m i"
proof -
  have "take (LENGTH('a) div 8) (drop i m') = take (LENGTH('a) div 8) (drop i m)"
    if "i + LENGTH('a) div 8 \<le> length m"
    using that assms by (intro nth_equalityI) auto
  then show ?thesis
    using assms(1) by (simp add: mem_rd_def)
qed

lemma mem_rd_wr_disjoint:
  fixes w :: "'a::len word"
  assumes "mem_wr m i w = Some m'"
    and "j + LENGTH('b) div 8 \<le> i \<or> i + LENGTH('a) div 8 \<le> j"
  shows "(mem_rd m' j :: 'b::len word option) = mem_rd m j"
proof (rule mem_rd_cong)
  show "length m' = length m" using mem_wr_length [OF assms(1)] .
  fix k
  assume "j \<le> k" and "k < j + LENGTH('b) div 8"
  then show "m' ! k = m ! k"
    using mem_wr_frame [OF assms(1), of k] assms(2) by linarith
qed

lemma le_bytes_ucast:
  assumes "8 * n \<le> LENGTH('b)"
  shows "le_bytes n (ucast (w :: 'a::len word) :: 'b::len word) = le_bytes n w"
proof (rule nth_equalityI)
  fix i assume "i < length (le_bytes n (ucast w :: 'b word))"
  then have i: "i < n" by simp
  show "le_bytes n (ucast w :: 'b word) ! i = le_bytes n w ! i"
    using i assms
    by (intro bit_word_eqI) (auto simp: nth_le_bytes bit_ucast_iff bit_drop_bit_eq)
qed simp

lemma unat_add_bounded:
  assumes "unat (a :: 'a::len word) + unat b \<le> unat (c :: 'a word)"
  shows "unat (a + b) = unat a + unat b"
  by (rule unat_add_lem [THEN iffD1]) (rule le_less_trans [OF assms unsigned_less])

lemma unat_ucast_narrow:
  "unat (x :: 'a::len word) < 2 ^ LENGTH('b) \<Longrightarrow> unat (ucast x :: 'b::len word) = unat x"
  by (simp add: unsigned_ucast_eq take_bit_nat_eq_self)

lemma unat_suc_word:
  assumes "unat (w :: 'a::len word) + 1 < 2 ^ LENGTH('a)"
  shows "unat (w + 1) = unat w + 1"
  using assms by (simp add: unat_word_ariths)

lemma div_mod_Suc:
  assumes "0 < (R :: nat)"
  shows "Suc j mod R = (if j mod R = R - 1 then 0 else j mod R + 1)"
    and "Suc j div R = (if j mod R = R - 1 then j div R + 1 else j div R)"
  using assms by (auto simp: mod_Suc div_Suc mod_eq_0_iff_dvd)

section \<open>Machines that check their events\<close>

text \<open>
  The stateful components are machines with a partial step function: \<open>step e s = None\<close> when an
  \<open>assert\<close> of the handler of event \<open>e\<close> fails.  \<open>allowed\<close> says which events the environment may
  send in a state.
\<close>

inductive reachable ::
  "('s \<Rightarrow> bool) \<Rightarrow> ('e \<Rightarrow> 's \<Rightarrow> bool) \<Rightarrow> ('e \<Rightarrow> 's \<Rightarrow> 's option) \<Rightarrow> 's \<Rightarrow> bool"
  for init allowed step where
  start: "init s \<Longrightarrow> reachable init allowed step s"
| event: "reachable init allowed step s \<Longrightarrow> allowed e s \<Longrightarrow> step e s = Some s' \<Longrightarrow>
    reachable init allowed step s'"

locale checked_machine =
  fixes init :: "'s \<Rightarrow> bool" and allowed :: "'e \<Rightarrow> 's \<Rightarrow> bool" and step :: "'e \<Rightarrow> 's \<Rightarrow> 's option"
    and inv :: "'s \<Rightarrow> bool"
  assumes init_inv: "init s \<Longrightarrow> inv s"
    and step_inv: "inv s \<Longrightarrow> allowed e s \<Longrightarrow> \<exists>s'. step e s = Some s' \<and> inv s'"
begin

lemma reachable_inv: "reachable init allowed step s \<Longrightarrow> inv s"
proof (induction rule: reachable.induct)
  case (event s e s')
  then show ?case using step_inv [of s e] by auto
qed (rule init_inv)

lemma never_fails:
  assumes "reachable init allowed step s" and "allowed e s"
  obtains s' where "step e s = Some s'" and "inv s'" and "reachable init allowed step s'"
proof -
  obtain s' where "step e s = Some s'" "inv s'"
    using step_inv [OF reachable_inv [OF assms(1)] assms(2)] by blast
  then show thesis using that reachable.event [OF assms] by blast
qed

end

end
