(* ===== verification/Inet_Checksum.thy ===== *)
theory Inet_Checksum
  imports Trex_Prelude
begin

text \<open>
  The Internet checksum of \<open>common/Network/Packet/CPktCmn.cpp\<close> and the operations of
  \<open>IPHeader\<close> (\<open>IPHeader.inl\<close>) that maintain it: the full recomputation
  (\<open>updateCheckSum\<close>), the check (\<open>isChecksumOK\<close>) and the incremental updates
  (\<open>pkt_UpdateInetChecksum\<close>, \<open>updateTos\<close>, \<open>updateTotalLength\<close>, \<open>updateIpSrc\<close>, \<open>updateIpDst\<close>).
  A header is a window of a byte memory that starts at an offset; an access outside the
  memory is \<open>None\<close>.  The C accumulators are \<open>int\<close>/\<open>uint32_t\<close> values that stay below
  \<open>2\<^sup>3\<^sup>1\<close> for every 16-bit length (\<open>sum_words_bound\<close>), so they are natural numbers here.

  The lemmas show one's-complement arithmetic modulo 65535, that a recomputed checksum
  always verifies, and that each incremental update keeps a verified header verified.
\<close>

section \<open>The checksum routines of CPktCmn.cpp\<close>

definition PKT_NTOHS :: "u16 \<Rightarrow> u16" where
  "PKT_NTOHS x = bswap x"

definition PKT_NTOHL :: "u32 \<Rightarrow> u32" where
  "PKT_NTOHL x = bswap x"

text \<open>The two loops: the even part of the buffer, then the octet left over.\<close>

fun sum_words :: "mem \<Rightarrow> nat \<Rightarrow> nat \<Rightarrow> nat \<Rightarrow> nat option" where
  "sum_words m data len s =
     (if 1 < len then
        (case mem_rd m data of
           None \<Rightarrow> None
         | Some w \<Rightarrow> sum_words m (data + 2) (len - 2) (s + unat (PKT_NTOHS w)))
      else if len = 1 then
        (case mem_rd m data of
           None \<Rightarrow> None
         | Some w \<Rightarrow> Some (s + unat (PKT_NTOHS w AND 0xff00)))
      else Some s)"

function fold_carry :: "nat \<Rightarrow> nat" where
  "fold_carry s = (if s div 65536 \<noteq> 0 then fold_carry (s mod 65536 + s div 65536) else s)"
  by pat_completeness auto
termination
proof (relation "measure id", goal_cases)
  case 1
  show ?case by simp
next
  case (2 s)
  have "s = 65536 * (s div 65536) + s mod 65536" by simp
  moreover have "0 < s div 65536" using 2 by simp
  ultimately have "s mod 65536 + s div 65536 < s" by linarith
  then show ?case by simp
qed

declare sum_words.simps [simp del]
declare fold_carry.simps [simp del]

definition finish_sum :: "nat \<Rightarrow> u16" where
  "finish_sum s = PKT_NTOHS (NOT (of_nat (fold_carry s)))"

definition pkt_InetChecksum :: "mem \<Rightarrow> nat \<Rightarrow> nat \<Rightarrow> u16 option" where
  "pkt_InetChecksum m data len = map_option finish_sum (sum_words m data len 0)"

text \<open>The two-buffer variant sums the even part of the first buffer only.\<close>

definition pkt_InetChecksum2 :: "mem \<Rightarrow> nat \<Rightarrow> nat \<Rightarrow> mem \<Rightarrow> nat \<Rightarrow> nat \<Rightarrow> u16 option" where
  "pkt_InetChecksum2 m data len m2 data2 len2 =
     (case sum_words m data (len - len mod 2) 0 of
        None \<Rightarrow> None
      | Some s \<Rightarrow> map_option finish_sum (sum_words m2 data2 len2 s))"

definition pkt_UpdateInetChecksum :: "u16 \<Rightarrow> u16 \<Rightarrow> u16 \<Rightarrow> u16" where
  "pkt_UpdateInetChecksum cs old new =
     finish_sum (unat (NOT (PKT_NTOHS cs)) + unat (NOT (PKT_NTOHS old)) + unat (PKT_NTOHS new))"

definition pkt_SubtractInetChecksum :: "u16 \<Rightarrow> u16 \<Rightarrow> u16" where
  "pkt_SubtractInetChecksum cs sub =
     finish_sum (unat (NOT (PKT_NTOHS cs)) + unat (PKT_NTOHS sub))"

definition pkt_AddInetChecksum :: "u16 \<Rightarrow> u16 \<Rightarrow> u16" where
  "pkt_AddInetChecksum cs add =
     finish_sum (unat (NOT (PKT_NTOHS cs)) + unat (PKT_NTOHS (NOT add)))"

section \<open>Header operations of IPHeader.inl\<close>

definition getHeaderLength :: "mem \<Rightarrow> nat \<Rightarrow> u8 option" where
  "getHeaderLength m ip = map_option (\<lambda>b. push_bit 2 (b AND 0x0f)) (mem_rd m ip :: u8 option)"

definition getSize :: "mem \<Rightarrow> nat \<Rightarrow> nat option" where
  "getSize m ip = map_option unat (getHeaderLength m ip)"

definition isChecksumOK :: "mem \<Rightarrow> nat \<Rightarrow> bool option" where
  "isChecksumOK m ip =
     (case getSize m ip of None \<Rightarrow> None
      | Some n \<Rightarrow> map_option (\<lambda>c. c = 0) (pkt_InetChecksum m ip n))"

definition updateCheckSum :: "mem \<Rightarrow> nat \<Rightarrow> mem option" where
  "updateCheckSum m ip =
     (case mem_wr m (ip + 10) (0 :: u16) of None \<Rightarrow> None
      | Some m1 \<Rightarrow>
        (case getSize m1 ip of None \<Rightarrow> None
         | Some n \<Rightarrow>
           (case pkt_InetChecksum m1 ip n of None \<Rightarrow> None
            | Some c \<Rightarrow> mem_wr m1 (ip + 10) c)))"

definition updateTos :: "mem \<Rightarrow> nat \<Rightarrow> u8 \<Rightarrow> mem option" where
  "updateTos m ip newTos =
     (case (mem_rd m ip, mem_wr m (ip + 1) newTos) of
        (Some oldWord, Some m1) \<Rightarrow>
          (case (mem_rd m1 ip, mem_rd m1 (ip + 10)) of
             (Some newWord, Some cs) \<Rightarrow>
               mem_wr m1 (ip + 10) (pkt_UpdateInetChecksum cs oldWord newWord)
           | _ \<Rightarrow> None)
      | _ \<Rightarrow> None)"

definition updateTotalLength :: "mem \<Rightarrow> nat \<Rightarrow> u16 \<Rightarrow> mem option" where
  "updateTotalLength m ip newlen =
     (case (mem_rd m (ip + 2), mem_wr m (ip + 2) (PKT_NTOHS newlen)) of
        (Some oldLen, Some m1) \<Rightarrow>
          (case mem_rd m1 (ip + 10) of
             Some cs \<Rightarrow>
               mem_wr m1 (ip + 10) (pkt_UpdateInetChecksum cs oldLen (PKT_NTOHS newlen))
           | _ \<Rightarrow> None)
      | _ \<Rightarrow> None)"

text \<open>\<open>updateIpSrc\<close> and \<open>updateIpDst\<close> differ in the field they replace (octet 12 or 16).\<close>

definition update_addr :: "nat \<Rightarrow> mem \<Rightarrow> nat \<Rightarrow> u32 \<Rightarrow> mem option" where
  "update_addr fld m ip addr =
     (case (mem_rd m (ip + fld) :: u32 option, mem_rd m (ip + 10)) of
        (Some old, Some cs) \<Rightarrow>
          (let new = PKT_NTOHL addr;
               cs1 = pkt_UpdateInetChecksum cs
                       (ucast (drop_bit 16 (old AND 0xffff0000)))
                       (ucast (drop_bit 16 (new AND 0xffff0000)));
               cs2 = pkt_UpdateInetChecksum cs1
                       (ucast (old AND 0xffff)) (ucast (new AND 0xffff))
           in case mem_wr m (ip + 10) cs2 of
                Some m1 \<Rightarrow> mem_wr m1 (ip + fld) new
              | None \<Rightarrow> None)
      | _ \<Rightarrow> None)"

definition updateIpSrc :: "mem \<Rightarrow> nat \<Rightarrow> u32 \<Rightarrow> mem option" where
  "updateIpSrc m ip addr = update_addr 12 m ip addr"

definition updateIpDst :: "mem \<Rightarrow> nat \<Rightarrow> u32 \<Rightarrow> mem option" where
  "updateIpDst m ip addr = update_addr 16 m ip addr"

definition getDestIp :: "mem \<Rightarrow> nat \<Rightarrow> u32 option" where
  "getDestIp m ip = map_option PKT_NTOHL (mem_rd m (ip + 16))"

definition isMulticast :: "mem \<Rightarrow> nat \<Rightarrow> bool option" where
  "isMulticast m ip = map_option (\<lambda>d. d AND 0xf0 = 0xe0) (getDestIp m ip)"

section \<open>One's-complement arithmetic\<close>

lemma fold_carry_mod: "fold_carry s mod 65535 = s mod 65535"
proof (induction s rule: fold_carry.induct)
  case (1 s)
  show ?case
  proof (cases "s div 65536 = 0")
    case False
    have "s = s div 65536 * 65535 + (s mod 65536 + s div 65536)" by simp
    then have "s mod 65535 = (s mod 65536 + s div 65536) mod 65535"
      by (metis mod_mult_self3)
    with 1 False show ?thesis by (simp add: fold_carry.simps [of s])
  qed (simp add: fold_carry.simps [of s])
qed

lemma fold_carry_less: "fold_carry s < 65536"
  by (induction s rule: fold_carry.induct) (subst fold_carry.simps, auto)

lemma fold_carry_eq_0: "fold_carry s = 0 \<longleftrightarrow> s = 0"
proof (induction s rule: fold_carry.induct)
  case (1 s)
  show ?case
  proof (cases "s div 65536 = 0")
    case False
    with 1 have "fold_carry s = 0 \<longleftrightarrow> s mod 65536 + s div 65536 = 0"
      by (simp add: fold_carry.simps [of s])
    with False show ?thesis by auto
  qed (simp add: fold_carry.simps [of s])
qed

text \<open>A positive multiple of 65535 folds to 65535: the shape of a header that verifies.\<close>

lemma fold_carry_full: "fold_carry s = 65535 \<longleftrightarrow> 0 < s \<and> s mod 65535 = 0"
proof
  assume f: "fold_carry s = 65535"
  then have "s \<noteq> 0" using fold_carry_eq_0 [of s] by auto
  then show "0 < s \<and> s mod 65535 = 0"
    using fold_carry_mod [of s] f by simp
next
  assume *: "0 < s \<and> s mod 65535 = 0"
  then have "fold_carry s mod 65535 = 0" and "fold_carry s \<noteq> 0"
    using fold_carry_mod [of s] fold_carry_eq_0 [of s] by auto
  then obtain k where "fold_carry s = 65535 * k" and "k \<noteq> 0"
    by (metis dvd_def mod_0_imp_dvd mult_0_right)
  then show "fold_carry s = 65535"
    using fold_carry_less [of s] by (cases k) auto
qed

lemma unat_not_u16: "unat (NOT (w :: u16)) = 65535 - unat w"
proof -
  have "NOT w = - 1 - w" by (simp add: not_eq_complement)
  moreover have "unat (- 1 - w) = unat (- 1 :: u16) - unat w"
    by (rule unat_sub) simp
  moreover have "unat (- 1 :: u16) = 65535"
    by (simp add: unsigned_minus_1_eq_mask mask_eq_exp_minus_1)
  ultimately show ?thesis by simp
qed

lemma PKT_NTOHS_PKT_NTOHS [simp]: "PKT_NTOHS (PKT_NTOHS w) = w"
  by (simp add: PKT_NTOHS_def bswap_bswap)

lemma finish_sum_value: "unat (PKT_NTOHS (finish_sum s)) = 65535 - fold_carry s"
  using fold_carry_less [of s]
  by (simp add: finish_sum_def unat_not_u16 unat_of_nat)

lemma PKT_NTOHS_0 [simp]: "PKT_NTOHS 0 = 0"
  by (simp add: PKT_NTOHS_def bswap_def le_bytes_2)

lemma finish_sum_eq_0: "finish_sum s = 0 \<longleftrightarrow> 0 < s \<and> s mod 65535 = 0"
proof -
  have "finish_sum s = 0 \<longleftrightarrow> PKT_NTOHS (finish_sum s) = 0"
    by (metis PKT_NTOHS_0 PKT_NTOHS_PKT_NTOHS)
  also have "\<dots> \<longleftrightarrow> 65535 - fold_carry s = 0"
    by (metis finish_sum_value unat_eq_0)
  also have "\<dots> \<longleftrightarrow> fold_carry s = 65535"
    using fold_carry_less [of s] by auto
  finally show ?thesis by (simp add: fold_carry_full)
qed


section \<open>The sum as a function of the octets\<close>

fun be_sum :: "mem \<Rightarrow> nat" where
  "be_sum [] = 0"
| "be_sum [a] = 256 * unat a"
| "be_sum (a # b # r) = 256 * unat a + unat b + be_sum r"

lemma be_sum_append: "even (length xs) \<Longrightarrow> be_sum (xs @ ys) = be_sum xs + be_sum ys"
  by (induction xs rule: be_sum.induct) auto

lemma be_sum_pos: "xs \<noteq> [] \<Longrightarrow> hd xs \<noteq> 0 \<Longrightarrow> 0 < be_sum xs"
proof (induction xs rule: be_sum.induct)
  case (2 a)
  then show ?case by (simp add: unat_gt_0)
next
  case (3 a b r)
  then have "0 < unat a" by (simp add: unat_gt_0)
  then show ?case by simp
qed simp

lemma PKT_NTOHS_bytes: "PKT_NTOHS (le_word [a, b]) = le_word [b, a]"
proof -
  have "le_bytes (length [a, b]) (le_word [a, b] :: u16) = [a, b]"
    by (rule le_bytes_le_word) simp
  then have "le_bytes 2 (le_word [a, b] :: u16) = [a, b]"
    by (simp only: list.size numeral_2_eq_2 One_nat_def add_0 plus_1_eq_Suc add_Suc_right
        add_0_right)
  then show ?thesis
    by (simp add: PKT_NTOHS_def bswap_def del: le_word.simps)
qed

lemma unat_le_word2: "unat (le_word [b, a] :: u16) = 256 * unat a + unat b"
proof -
  have "ucast b AND push_bit 8 (ucast a) = (0 :: u16)"
    by (rule bit_word_eqI) (auto simp: bit_and_iff bit_push_bit_iff bit_ucast_iff dest: bit_imp_le_length)
  then have "(le_word [b, a] :: u16) = ucast b + push_bit 8 (ucast a)"
    by (simp add: disjunctive_add_eq_or)
  moreover have "unat (push_bit 8 (ucast a) :: u16) = 256 * unat a"
    using unat_u8_less [of a] by (simp add: push_bit_eq_mult unat_word_ariths unat_ucast_widen)
  moreover have "unat (ucast b :: u16) = unat b"
    by (simp add: unat_ucast_widen)
  moreover have "unat b + 256 * unat a < 65536"
    using unat_u8_less [of a] unat_u8_less [of b] by linarith
  ultimately show ?thesis
    by (simp add: unat_word_ariths)
qed

lemma mem_rd_u16:
  assumes "i + 2 \<le> length m"
  shows "(mem_rd m i :: u16 option) = Some (le_word [m ! i, m ! Suc i])"
proof -
  have "take 2 (drop i m) = [m ! i, m ! Suc i]"
    using assms by (simp add: numeral_2_eq_2 take_Suc_conv_app_nth)
  then show ?thesis
    using assms by (simp add: mem_rd_def del: le_word.simps)
qed

lemma value_u16: "unat (PKT_NTOHS (le_word [a, b])) = 256 * unat a + unat b"
  by (simp only: PKT_NTOHS_bytes unat_le_word2)

lemma value_u16_high: "unat (PKT_NTOHS (le_word [a, b]) AND 0xff00) = 256 * unat a"
proof -
  have "(le_word [b, a] :: u16) AND 0xff00 = le_word [0, a]"
  proof (rule bit_word_eqI)
    fix n
    assume "n < LENGTH(16)"
    have "bit (0xff00 :: u16) n \<longleftrightarrow> bit (push_bit 8 (mask 8) :: u16) n"
      by (simp add: mask_eq_exp_minus_1)
    also have "\<dots> \<longleftrightarrow> 8 \<le> n \<and> n < 16"
      using \<open>n < LENGTH(16)\<close> by (simp only: bit_push_bit_iff bit_mask_iff) auto
    finally have "bit (0xff00 :: u16) n \<longleftrightarrow> 8 \<le> n \<and> n < 16" .
    moreover have "\<not> bit b n" if "8 \<le> n" using bit_imp_le_length [of b n] that by auto
    ultimately show "bit ((le_word [b, a] :: u16) AND 0xff00) n = bit (le_word [0, a] :: u16) n"
      by (auto simp: bit_and_iff bit_or_iff bit_push_bit_iff bit_ucast_iff)
  qed
  then show ?thesis
    using unat_le_word2 [of 0 a] by (simp only: PKT_NTOHS_bytes) simp
qed

text \<open>
  The loop computes the sum of the octets taken in pairs.  With an odd length the last
  load also touches the octet after the buffer, so that octet has to exist.
\<close>

lemma sum_words_eq:
  "data + len + len mod 2 \<le> length m \<Longrightarrow>
     sum_words m data len s = Some (s + be_sum (take len (drop data m)))"
proof (induction m data len s rule: sum_words.induct)
  case (1 m data len s)
  consider "len = 0" | "len = 1" | k where "len = Suc (Suc k)"
    by (metis One_nat_def old.nat.exhaust)
  then show ?case
  proof cases
    case 2
    then have "take 1 (drop data m) = [m ! data]"
      using "1.prems" by (simp add: take_Suc_conv_app_nth)
    then show ?thesis
      using 2 "1.prems"
      by (subst sum_words.simps) (simp add: mem_rd_u16 value_u16_high del: le_word.simps)
  next
    case 3
    then have split: "take len (drop data m) = m ! data # m ! Suc data # take k (drop (data + 2) m)"
      using "1.prems" by (simp add: Cons_nth_drop_Suc [symmetric])
    have "sum_words m (data + 2) k (s + unat (PKT_NTOHS (le_word [m ! data, m ! Suc data])))
        = Some (s + unat (PKT_NTOHS (le_word [m ! data, m ! Suc data]))
            + be_sum (take k (drop (data + 2) m)))"
      using "1.IH"(1) [of "le_word [m ! data, m ! Suc data]"] "1.prems" 3
      by (simp add: mem_rd_u16 del: le_word.simps)
    then show ?thesis
      using 3 "1.prems"
      by (subst sum_words.simps, subst split)
        (simp add: mem_rd_u16 value_u16 del: le_word.simps)
  qed (simp add: sum_words.simps)
qed

lemma sum_words_bound:
  assumes "sum_words m data len 0 = Some s" and "len < 65536"
  shows "s < 2 ^ 31"
proof -
  have "sum_words m data len a = Some s \<Longrightarrow> s \<le> a + 65535 * ((len + 1) div 2)" for a s
  proof (induction m data len a rule: sum_words.induct)
    case (1 m data len a)
    have less: "unat (w :: u16) \<le> 65535" for w using unat_u16_less [of w] by linarith
    consider "len = 0" | "len = 1" | k where "len = Suc (Suc k)"
      by (metis One_nat_def old.nat.exhaust)
    then show ?case
    proof cases
      case 2
      then show ?thesis
        using "1.prems" less by (subst (asm) sum_words.simps) (auto split: option.splits)
    next
      case 3
      then obtain w where w: "mem_rd m data = Some w"
        and rest: "sum_words m (data + 2) k (a + unat (PKT_NTOHS w)) = Some s"
        using "1.prems" by (subst (asm) sum_words.simps) (auto split: option.splits)
      have "s \<le> a + unat (PKT_NTOHS w) + 65535 * ((k + 1) div 2)"
        using "1.IH"(1) [of w] w rest 3 by simp
      then show ?thesis using less [of "PKT_NTOHS w"] 3 by simp
    qed (use "1.prems" in \<open>simp add: sum_words.simps\<close>)
  qed
  from this [OF assms(1)] have "s \<le> 65535 * ((len + 1) div 2)" by simp
  also have "\<dots> \<le> 65535 * 32768" using assms(2) by simp
  finally show ?thesis by simp
qed

section \<open>Writing a word of the header\<close>

lemma take_window:
  assumes "k + j \<le> n" and "ip + n \<le> length m"
  shows "take n (drop ip m) =
    take k (drop ip m) @ take j (drop (ip + k) m) @ take (n - k - j) (drop (ip + k + j) m)"
proof -
  have "take n (drop ip m) = take (k + (j + (n - k - j))) (drop ip m)" using assms(1) by simp
  also have "\<dots> = take k (drop ip m) @ take (j + (n - k - j)) (drop (ip + k) m)"
    by (simp only: take_add) (simp add: add.commute)
  also have "take (j + (n - k - j)) (drop (ip + k) m) =
      take j (drop (ip + k) m) @ take (n - k - j) (drop (ip + k + j) m)"
    by (simp only: take_add) (simp add: add.commute add.left_commute)
  finally show ?thesis .
qed

text \<open>
  Replacing a word of a window replaces its contribution to the sum.  \<open>field_sum\<close> is the
  contribution of a raw 16-bit field.
\<close>

lemma be_sum_wr16:
  assumes wr: "mem_wr m (ip + k) (w :: u16) = Some m'" and rd: "mem_rd m (ip + k) = Some old"
    and "even k" "k + 2 \<le> n" "ip + n \<le> length m"
  shows "be_sum (take n (drop ip m')) + unat (PKT_NTOHS old) =
         be_sum (take n (drop ip m)) + unat (PKT_NTOHS w)"
proof -
  let ?A = "take k (drop ip m)" and ?B = "take (n - k - 2) (drop (ip + k + 2) m)"
  let ?x = "ucast w :: u8" and ?y = "ucast (drop_bit 8 w) :: u8"
  from wr have m': "m' = take (ip + k) m @ [?x, ?y] @ drop (ip + k + 2) m"
    by (auto simp: mem_wr_def le_bytes_2 split: if_splits)
  have "take n (drop ip m') = ?A @ [?x, ?y] @ ?B"
    using assms(4,5) by (subst take_window [where k = k and j = 2]) (auto simp: m' drop_take)
  moreover have "take 2 (drop (ip + k) m) = [m ! (ip + k), m ! Suc (ip + k)]"
    using assms(4,5) by (simp add: numeral_2_eq_2 take_Suc_conv_app_nth)
  then have "take n (drop ip m) = ?A @ [m ! (ip + k), m ! Suc (ip + k)] @ ?B"
    using assms(4,5) by (subst take_window [where k = k and j = 2]) auto
  moreover have "even (length ?A)" using assms(3,4,5) by simp
  moreover have "old = le_word [m ! (ip + k), m ! Suc (ip + k)]"
    using rd assms(4,5) by (simp add: mem_rd_u16 del: le_word.simps)
  then have "unat (PKT_NTOHS old) = 256 * unat (m ! (ip + k)) + unat (m ! Suc (ip + k))"
    by (simp only: value_u16)
  moreover have "w = le_word [?x, ?y]"
    using le_word_le_bytes [of 2 w] by (simp add: le_bytes_2 take_bit_word_eq_self)
  then have "unat (PKT_NTOHS w) = 256 * unat ?x + unat ?y"
    by (metis value_u16)
  ultimately show ?thesis
    by (simp add: be_sum_append)
qed

section \<open>A header and its checksum\<close>

definition hdr_sum :: "mem \<Rightarrow> nat \<Rightarrow> nat \<Rightarrow> nat" where
  "hdr_sum m ip n = be_sum (take n (drop ip m))"

lemma getSize_even:
  assumes "getSize m ip = Some n"
  shows "even n"
proof -
  from assms obtain x :: u8 where n: "n = unat (push_bit 2 x)"
    by (auto simp: getSize_def getHeaderLength_def simp del: push_bit_and)
  have "unat (push_bit 2 x) = unat x * 4 mod 256"
    by (simp add: push_bit_eq_mult unat_word_ariths)
  then show ?thesis by (simp add: n dvd_mod)
qed

lemma getSize_le: "getSize m ip = Some n \<Longrightarrow> ip < length m"
  by (auto simp: getSize_def getHeaderLength_def mem_rd_def split: if_splits)

lemma getSize_cong:
  assumes "m' ! ip = m ! ip" and "length m' = length m"
  shows "getSize m' ip = getSize m ip"
proof -
  have "(mem_rd m' ip :: u8 option) = mem_rd m ip"
    using assms by (intro mem_rd_cong) (auto simp: less_Suc_eq)
  then show ?thesis by (simp add: getSize_def getHeaderLength_def)
qed

lemma pkt_InetChecksum_eq:
  "even n \<Longrightarrow> ip + n \<le> length m \<Longrightarrow> pkt_InetChecksum m ip n = Some (finish_sum (hdr_sum m ip n))"
  by (simp add: pkt_InetChecksum_def sum_words_eq hdr_sum_def)

lemma sum_words_None: "0 < len \<Longrightarrow> length m < data + len \<Longrightarrow> sum_words m data len s = None"
proof (induction m data len s rule: sum_words.induct)
  case (1 m data len s)
  show ?case
  proof (cases "1 < len")
    case True
    then show ?thesis
      using 1 by (subst sum_words.simps) (auto simp: mem_rd_def split: option.splits if_splits)
  next
    case False
    then show ?thesis
      using "1.prems" by (subst sum_words.simps) (auto simp: mem_rd_def split: if_splits)
  qed
qed

lemma pkt_InetChecksum_SomeD:
  assumes "pkt_InetChecksum m ip n = Some c" and "ip \<le> length m"
  shows "ip + n \<le> length m"
proof (rule ccontr)
  assume "\<not> ip + n \<le> length m"
  with assms(2) have "sum_words m ip n 0 = None" by (intro sum_words_None) auto
  with assms(1) show False by (simp add: pkt_InetChecksum_def)
qed

lemma isChecksumOK_iff:
  assumes "getSize m ip = Some n" and "ip + n \<le> length m"
  shows "isChecksumOK m ip = Some (0 < hdr_sum m ip n \<and> hdr_sum m ip n mod 65535 = 0)"
  using assms getSize_even [OF assms(1)]
  by (simp add: isChecksumOK_def pkt_InetChecksum_eq finish_sum_eq_0)

lemma isChecksumOK_True:
  "isChecksumOK m ip = Some True \<longleftrightarrow>
     (\<exists>n. getSize m ip = Some n \<and> ip + n \<le> length m \<and>
       0 < hdr_sum m ip n \<and> hdr_sum m ip n mod 65535 = 0)"
proof
  assume "isChecksumOK m ip = Some True"
  then obtain n c where n: "getSize m ip = Some n" "pkt_InetChecksum m ip n = Some c"
    by (auto simp: isChecksumOK_def split: option.splits)
  then have "ip + n \<le> length m"
    using getSize_le [OF n(1)] by (auto dest: pkt_InetChecksum_SomeD)
  with isChecksumOK_iff [OF n(1)] \<open>isChecksumOK m ip = Some True\<close> n
  show "\<exists>n. getSize m ip = Some n \<and> ip + n \<le> length m \<and>
       0 < hdr_sum m ip n \<and> hdr_sum m ip n mod 65535 = 0" by auto
qed (auto simp: isChecksumOK_iff)

text \<open>The shared argument of all incremental updates: a word and the checksum change together.\<close>

lemma ones_complement_update:
  fixes c d f n :: nat
  assumes "c \<le> 65535" "d \<le> 65535" "f \<le> 65535"
    and "f mod 65535 = ((65535 - c) + (65535 - d) + n) mod 65535"
  shows "(65535 - f + n) mod 65535 = (c + d) mod 65535"
proof -
  let ?s = "(65535 - c) + (65535 - d) + n"
  have "int (f mod 65535) = int (?s mod 65535)" by (simp only: assms(4))
  then have "int f mod 65535 = int ?s mod 65535"
    by (simp only: zmod_int of_nat_numeral)
  then have "(65535 - int f + int n) mod 65535 = (65535 - int ?s + int n) mod 65535"
    by (intro mod_add_cong mod_diff_cong refl) assumption
  also have "65535 - int ?s + int n = int c + int d - 65535"
    using assms(1,2) by simp
  also have "(int c + int d - 65535) mod 65535 = (int c + int d) mod 65535"
    by (simp add: mod_diff_right_eq)
  also have "65535 - int f + int n = int (65535 - f + n)"
    using assms(3) by simp
  also have "int c + int d = int (c + d)" by simp
  finally have "int ((65535 - f + n) mod 65535) = int ((c + d) mod 65535)"
    by (simp only: zmod_int of_nat_numeral)
  then show ?thesis by (simp only: of_nat_eq_iff)
qed

lemma UpdateInetChecksum_mod:
  "(unat (PKT_NTOHS (pkt_UpdateInetChecksum cs old new)) + unat (PKT_NTOHS new)) mod 65535 =
   (unat (PKT_NTOHS cs) + unat (PKT_NTOHS old)) mod 65535"
proof -
  let ?c = "unat (PKT_NTOHS cs)" and ?o = "unat (PKT_NTOHS old)" and ?n = "unat (PKT_NTOHS new)"
  let ?s = "(65535 - ?c) + (65535 - ?o) + ?n"
  have new: "unat (PKT_NTOHS (pkt_UpdateInetChecksum cs old new)) = 65535 - fold_carry ?s"
    by (simp add: pkt_UpdateInetChecksum_def finish_sum_value unat_not_u16)
  have "(65535 - fold_carry ?s + ?n) mod 65535 = (?c + ?o) mod 65535"
    by (rule ones_complement_update)
      (use unat_u16_less [of "PKT_NTOHS cs"] unat_u16_less [of "PKT_NTOHS old"]
        fold_carry_less [of ?s] in \<open>simp_all add: fold_carry_mod less_Suc_eq_le [symmetric]\<close>)
  then show ?thesis by (simp only: new)
qed

lemma getSize_pos_byte:
  assumes "getSize m ip = Some n" and "0 < n"
  shows "m ! ip \<noteq> 0"
proof
  assume "m ! ip = 0"
  then have "(mem_rd m ip :: u8 option) = Some 0"
    using getSize_le [OF assms(1)] by (simp add: mem_rd_def take_Suc_conv_app_nth)
  then show False using assms by (simp add: getSize_def getHeaderLength_def)
qed

lemma hdr_sum_pos:
  assumes "getSize m ip = Some n" and "0 < n"
  shows "0 < hdr_sum m ip n"
proof -
  have "hd (take n (drop ip m)) = m ! ip" and "take n (drop ip m) \<noteq> []"
    using getSize_le [OF assms(1)] assms(2) by (auto simp: hd_drop_conv_nth)
  then show ?thesis
    unfolding hdr_sum_def using getSize_pos_byte [OF assms] by (intro be_sum_pos) auto
qed

text \<open>
  One word of the header and the checksum field are rewritten with the incremental update:
  the sum stays the same modulo 65535.
\<close>

lemma hdr_sum_update16:
  assumes f: "mem_rd m (ip + k) = Some (old :: u16)" "mem_wr m (ip + k) new = Some m1"
    and c: "mem_rd m1 (ip + 10) = Some cs"
      "mem_wr m1 (ip + 10) (pkt_UpdateInetChecksum cs old new) = Some m2"
    and "even k" "k + 2 \<le> n" "12 \<le> n" "ip + n \<le> length m"
  shows "hdr_sum m2 ip n mod 65535 = hdr_sum m ip n mod 65535"
proof -
  let ?v = "\<lambda>w. unat (PKT_NTOHS w)"
  have len: "ip + n \<le> length m1" using assms(8) mem_wr_length [OF f(2)] by simp
  have 1: "hdr_sum m1 ip n + ?v old = hdr_sum m ip n + ?v new"
    unfolding hdr_sum_def using be_sum_wr16 [OF f(2,1) assms(5,6,8)] .
  have 2: "hdr_sum m2 ip n + ?v cs = hdr_sum m1 ip n + ?v (pkt_UpdateInetChecksum cs old new)"
    unfolding hdr_sum_def using be_sum_wr16 [OF c(2,1) _ _ len] assms(7) by simp
  have "hdr_sum m2 ip n + (?v cs + ?v old) =
      hdr_sum m ip n + (?v (pkt_UpdateInetChecksum cs old new) + ?v new)"
    using 1 2 by linarith
  then have "(hdr_sum m2 ip n + (?v cs + ?v old)) mod 65535 =
      (hdr_sum m ip n + (?v cs + ?v old)) mod 65535"
    using mod_add_cong [OF refl UpdateInetChecksum_mod] by simp
  then show ?thesis by (rule nat_mod_add_cancel)
qed


section \<open>Address fields as two words\<close>

lemma lo16_eq: "ucast (w AND 0xffff) = (ucast (w :: u32) :: u16)"
proof -
  have "w AND 0xffff = take_bit 16 w" by (simp add: take_bit_eq_mask mask_eq_exp_minus_1)
  then show ?thesis by (simp add: unsigned_take_bit_eq unsigned_ucast_eq take_bit_word_eq_self)
qed

lemma hi16_eq: "ucast (drop_bit 16 (w AND 0xffff0000)) = (ucast (drop_bit 16 (w :: u32)) :: u16)"
proof (rule bit_word_eqI)
  fix n
  assume n: "n < LENGTH(16)"
  have "bit (0xffff0000 :: u32) (n + 16) \<longleftrightarrow> bit (push_bit 16 (mask 16) :: u32) (n + 16)"
    by (simp add: mask_eq_exp_minus_1)
  also have "\<dots>" using n by (simp only: bit_push_bit_iff bit_mask_iff) auto
  finally show "bit (ucast (drop_bit 16 (w AND 0xffff0000)) :: u16) n =
      bit (ucast (drop_bit 16 w) :: u16) n"
    using n by (simp only: bit_ucast_iff bit_drop_bit_eq bit_and_iff o_def) (simp add: add.commute)
qed

lemma le_bytes_u32:
  "le_bytes 4 (w :: u32) = le_bytes 2 (ucast w :: u16) @ le_bytes 2 (ucast (drop_bit 16 w) :: u16)"
proof -
  have 1: "ucast (drop_bit 8 (ucast w :: u16)) = (ucast (drop_bit 8 w) :: u8)"
    and 2: "ucast (ucast w :: u16) = (ucast w :: u8)"
    and 3: "ucast (ucast (drop_bit 16 w) :: u16) = (ucast (drop_bit 16 w) :: u8)"
    and 4: "ucast (drop_bit 8 (ucast (drop_bit 16 w) :: u16)) = (ucast (drop_bit 24 w) :: u8)"
    by (auto intro!: bit_word_eqI simp: bit_ucast_iff bit_drop_bit_eq)
  have "le_bytes 4 w = [ucast w, ucast (drop_bit 8 w), ucast (drop_bit 16 w), ucast (drop_bit 24 w)]"
    by (simp add: numeral_eq_Suc drop_bit_drop_bit)
  then show ?thesis by (simp add: le_bytes_2 1 2 3 4)
qed

lemma mem_wr_u32:
  assumes "mem_wr m i (w :: u32) = Some m'"
  obtains m1 where "mem_wr m i (ucast w :: u16) = Some m1"
    and "mem_wr m1 (i + 2) (ucast (drop_bit 16 w) :: u16) = Some m'"
proof -
  from assms have le: "i + 4 \<le> length m" and m': "m' = take i m @ le_bytes 4 w @ drop (i + 4) m"
    by (auto simp: mem_wr_def split: if_splits)
  let ?m1 = "take i m @ le_bytes 2 (ucast w :: u16) @ drop (i + 2) m"
  have "mem_wr m i (ucast w :: u16) = Some ?m1" using le by (simp add: mem_wr_def)
  moreover have "take (i + 2) ?m1 = take i m @ le_bytes 2 (ucast w :: u16)"
    and "drop (i + 4) ?m1 = drop (i + 4) m" and "length ?m1 = length m"
    using le by (simp_all add: eval_nat_numeral del: le_bytes.simps)
  then have "mem_wr ?m1 (i + 2) (ucast (drop_bit 16 w) :: u16) = Some m'"
    using le by (simp add: mem_wr_def m' le_bytes_u32 del: append_assoc)
  ultimately show thesis by (rule that)
qed

lemma mem_rd_u32:
  assumes "mem_rd m i = Some (w :: u32)"
  shows "mem_rd m i = Some (ucast w :: u16)" and "mem_rd m (i + 2) = Some (ucast (drop_bit 16 w) :: u16)"
proof -
  from assms have le: "i + 4 \<le> length m" and w: "w = le_word (take 4 (drop i m))"
    by (auto simp: mem_rd_def split: if_splits)
  have "length (take 4 (drop i m)) = 4" using le by simp
  then have "take 4 (drop i m) = le_bytes 4 w"
    using le_bytes_le_word [of "take 4 (drop i m)", where 'a = 32] w by simp
  moreover have "take 4 (drop i m) = take 2 (drop i m) @ take 2 (drop (i + 2) m)"
    using take_add [of 2 2 "drop i m"] by (simp add: add.commute)
  ultimately have "take 2 (drop i m) = le_bytes 2 (ucast w :: u16)"
    and "take 2 (drop (i + 2) m) = le_bytes 2 (ucast (drop_bit 16 w) :: u16)"
    using le by (auto simp: le_bytes_u32)
  then show "mem_rd m i = Some (ucast w :: u16)"
    and "mem_rd m (i + 2) = Some (ucast (drop_bit 16 w) :: u16)"
    using le by (simp_all add: mem_rd_def le_word_le_bytes take_bit_word_eq_self)
qed

lemma hdr_sum_update_addr:
  assumes "update_addr fld m ip addr = Some m'" and "even fld" "12 \<le> fld" "fld + 4 \<le> n"
    and "ip + n \<le> length m"
  shows "hdr_sum m' ip n mod 65535 = hdr_sum m ip n mod 65535"
proof -
  let ?v = "\<lambda>w. unat (PKT_NTOHS w)" and ?new = "PKT_NTOHL addr"
  let ?lo = "\<lambda>w :: u32. ucast w :: u16" and ?hi = "\<lambda>w :: u32. ucast (drop_bit 16 w) :: u16"
  from assms(1) obtain old cs m1 where old: "mem_rd m (ip + fld) = Some (old :: u32)"
    and cs: "mem_rd m (ip + 10) = Some cs"
    and w1: "mem_wr m (ip + 10) (pkt_UpdateInetChecksum
        (pkt_UpdateInetChecksum cs (?hi old) (?hi ?new)) (?lo old) (?lo ?new)) = Some m1"
    and w2: "mem_wr m1 (ip + fld) ?new = Some m'"
    by (auto simp: update_addr_def Let_def lo16_eq hi16_eq split: option.splits)
  let ?c1 = "pkt_UpdateInetChecksum cs (?hi old) (?hi ?new)"
  let ?c2 = "pkt_UpdateInetChecksum ?c1 (?lo old) (?lo ?new)"
  from mem_wr_u32 [OF w2] obtain mm where
    a: "mem_wr m1 (ip + fld) (?lo ?new) = Some mm" and b: "mem_wr mm (ip + fld + 2) (?hi ?new) = Some m'" .
  have oldm1: "mem_rd m1 (ip + fld) = Some old"
    using old mem_rd_wr_disjoint [OF w1, of "ip + fld", where 'b = 32] assms(3) by simp
  note halves = mem_rd_u32 [OF oldm1]
  have hi: "mem_rd mm (ip + (fld + 2)) = Some (?hi old)"
    using halves(2) mem_rd_wr_disjoint [OF a, of "ip + fld + 2", where 'b = 16] by (simp add: add.assoc)
  have len: "ip + n \<le> length m1" "ip + n \<le> length mm"
    using assms(5) mem_wr_length [OF w1] mem_wr_length [OF a] by simp_all
  have "hdr_sum m1 ip n + ?v cs = hdr_sum m ip n + ?v ?c2"
    unfolding hdr_sum_def using be_sum_wr16 [OF w1 cs] assms(3-5) by simp
  moreover have "hdr_sum mm ip n + ?v (?lo old) = hdr_sum m1 ip n + ?v (?lo ?new)"
    unfolding hdr_sum_def using be_sum_wr16 [OF a halves(1)] assms(2-4) len by simp
  moreover have "hdr_sum m' ip n + ?v (?hi old) = hdr_sum mm ip n + ?v (?hi ?new)"
    unfolding hdr_sum_def
    using be_sum_wr16 [of mm ip "fld + 2" "?hi ?new" m' "?hi old" n] b hi assms(2-4) len
    by (simp add: add.assoc)
  ultimately have eq: "hdr_sum m' ip n + (?v cs + ?v (?hi old) + ?v (?lo old)) =
      hdr_sum m ip n + (?v ?c2 + ?v (?lo ?new) + ?v (?hi ?new))" by linarith
  have "(?v ?c2 + ?v (?lo ?new) + ?v (?hi ?new)) mod 65535 =
      (?v ?c1 + ?v (?lo old) + ?v (?hi ?new)) mod 65535"
    by (rule mod_add_cong [OF UpdateInetChecksum_mod refl])
  also have "\<dots> = (?v ?c1 + ?v (?hi ?new) + ?v (?lo old)) mod 65535" by (simp add: ac_simps)
  also have "\<dots> = (?v cs + ?v (?hi old) + ?v (?lo old)) mod 65535"
    by (rule mod_add_cong [OF UpdateInetChecksum_mod refl])
  finally have "(hdr_sum m ip n + (?v ?c2 + ?v (?lo ?new) + ?v (?hi ?new))) mod 65535 =
      (hdr_sum m ip n + (?v cs + ?v (?hi old) + ?v (?lo old))) mod 65535"
    by (rule mod_add_cong [OF refl])
  with eq have "(hdr_sum m' ip n + (?v cs + ?v (?hi old) + ?v (?lo old))) mod 65535 =
      (hdr_sum m ip n + (?v cs + ?v (?hi old) + ?v (?lo old))) mod 65535" by simp
  then show ?thesis by (rule nat_mod_add_cancel)
qed

lemma isChecksumOK_step:
  assumes "isChecksumOK m ip = Some True" and "length m' = length m" and "m' ! ip = m ! ip"
    and "getSize m ip = Some n" and "12 \<le> n"
    and "hdr_sum m' ip n mod 65535 = hdr_sum m ip n mod 65535"
  shows "isChecksumOK m' ip = Some True"
proof -
  have sz: "getSize m' ip = Some n" using getSize_cong [OF assms(3,2)] assms(4) by simp
  moreover have "0 < hdr_sum m' ip n" using hdr_sum_pos [OF sz] assms(5) by simp
  ultimately show ?thesis
    using assms by (auto simp: isChecksumOK_True)
qed

lemma isChecksumOK_window:
  "isChecksumOK m ip = Some True \<Longrightarrow> getSize m ip = Some n \<Longrightarrow> ip + n \<le> length m"
  by (auto simp: isChecksumOK_True)

lemma update_addr_defined:
  "update_addr fld m ip addr \<noteq> None \<longleftrightarrow> ip + fld + 4 \<le> length m \<and> ip + 12 \<le> length m"
  by (auto simp: update_addr_def Let_def mem_rd_def mem_wr_def)

lemma update_addr_frame:
  assumes "update_addr fld m ip addr = Some m'" and "0 < fld"
  shows "length m' = length m" and "m' ! ip = m ! ip"
proof -
  from assms(1) obtain c m1 where w1: "mem_wr m (ip + 10) (c :: u16) = Some m1"
    and w2: "mem_wr m1 (ip + fld) (PKT_NTOHL addr) = Some m'"
    by (auto simp: update_addr_def Let_def split: option.splits)
  show "length m' = length m" using mem_wr_length [OF w1] mem_wr_length [OF w2] by simp
  show "m' ! ip = m ! ip"
    using mem_wr_frame [OF w1, of ip] mem_wr_frame [OF w2, of ip] assms(2) by simp
qed

lemma updateTotalLength_ok:
  assumes "updateTotalLength m ip l = Some m'" and "isChecksumOK m ip = Some True"
    and "getSize m ip = Some n" and "20 \<le> n"
  shows "isChecksumOK m' ip = Some True"
proof -
  from assms(1) obtain old m1 cs where r: "mem_rd m (ip + 2) = Some old"
    "mem_wr m (ip + 2) (PKT_NTOHS l) = Some m1" "mem_rd m1 (ip + 10) = Some cs"
    "mem_wr m1 (ip + 10) (pkt_UpdateInetChecksum cs old (PKT_NTOHS l)) = Some m'"
    by (auto simp: updateTotalLength_def split: option.splits)
  have "hdr_sum m' ip n mod 65535 = hdr_sum m ip n mod 65535"
    using hdr_sum_update16 [OF r] isChecksumOK_window [OF assms(2,3)] assms(4) by simp
  moreover have "m' ! ip = m ! ip" and "length m' = length m"
    using mem_wr_frame [OF r(2), of ip] mem_wr_frame [OF r(4), of ip] mem_wr_length [OF r(2)]
      mem_wr_length [OF r(4)] by simp_all
  ultimately show ?thesis
    using isChecksumOK_step [OF assms(2) _ _ assms(3)] assms(4) by simp
qed

lemma mem_wr_u8_as_u16:
  assumes "mem_wr m (ip + 1) (b :: u8) = Some m'" and "mem_rd m' ip = Some (w :: u16)"
  shows "mem_wr m ip w = Some m'"
proof -
  have le: "ip + 2 \<le> length m" using mem_wr_bound [OF assms(1)] by simp
  then have len: "ip + 2 \<le> length m'" using mem_wr_length [OF assms(1)] by simp
  have "w = le_word [m' ! ip, m' ! Suc ip]"
    using assms(2) len by (simp add: mem_rd_u16 del: le_word.simps)
  then have "le_bytes 2 w = [m' ! ip, m' ! Suc ip]"
    using le_bytes_le_word [of "[m' ! ip, m' ! Suc ip]", where 'a = 16]
    by (simp add: numeral_2_eq_2 del: le_word.simps)
  moreover have "take ip m' = take ip m" and "drop (ip + 2) m' = drop (ip + 2) m"
    using assms(1) le by (auto simp: mem_wr_def split: if_splits)
  moreover have "m' = take ip m' @ [m' ! ip, m' ! Suc ip] @ drop (ip + 2) m'"
    using len by (simp add: Cons_nth_drop_Suc)
  ultimately show ?thesis using le by (simp add: mem_wr_def)
qed

lemma updateTos_ok:
  assumes "updateTos m ip t = Some m'" and "isChecksumOK m ip = Some True"
    and "getSize m ip = Some n" and "20 \<le> n"
  shows "isChecksumOK m' ip = Some True"
proof -
  from assms(1) obtain old m1 new cs where r: "mem_rd m ip = Some old"
    "mem_wr m (ip + 1) t = Some m1" "mem_rd m1 ip = Some new" "mem_rd m1 (ip + 10) = Some cs"
    "mem_wr m1 (ip + 10) (pkt_UpdateInetChecksum cs old new) = Some m'"
    by (auto simp: updateTos_def split: option.splits)
  have "mem_wr m (ip + 0) new = Some m1" using mem_wr_u8_as_u16 [OF r(2,3)] by simp
  then have "hdr_sum m' ip n mod 65535 = hdr_sum m ip n mod 65535"
    using hdr_sum_update16 [of m ip 0 old new m1 cs m' n] r isChecksumOK_window [OF assms(2,3)] assms(4)
    by simp
  moreover have "m' ! ip = m ! ip" and "length m' = length m"
    using mem_wr_frame [OF r(2), of ip] mem_wr_frame [OF r(5), of ip] mem_wr_length [OF r(2)]
      mem_wr_length [OF r(5)] by simp_all
  ultimately show ?thesis
    using isChecksumOK_step [OF assms(2) _ _ assms(3)] assms(4) by simp
qed

lemma update_addr_ok:
  assumes "update_addr fld m ip addr = Some m'" and "isChecksumOK m ip = Some True"
    and "getSize m ip = Some n" and "even fld" "12 \<le> fld" "fld + 4 \<le> n"
  shows "isChecksumOK m' ip = Some True"
  using isChecksumOK_step [OF assms(2) update_addr_frame [OF assms(1)] assms(3)]
    hdr_sum_update_addr [OF assms(1,4-6)] isChecksumOK_window [OF assms(2,3)] assms by simp

section \<open>Properties\<close>

text \<open>
  C32.  Recomputing the checksum of an IPv4 header (\<open>IPHeader::updateCheckSum\<close>) makes the
  header verify: \<open>isChecksumOK\<close> is true afterwards, for every header whose length field covers
  the checksum octets.
\<close>

theorem updateCheckSum_verifies:
  assumes "updateCheckSum m ip = Some m'" and "getSize m ip = Some n" and "12 \<le> n"
  shows "isChecksumOK m' ip = Some True"
proof -
  from assms(1) obtain m1 n1 c where
    w0: "mem_wr m (ip + 10) (0 :: u16) = Some m1" and n1: "getSize m1 ip = Some n1"
    and c: "pkt_InetChecksum m1 ip n1 = Some c" and w1: "mem_wr m1 (ip + 10) c = Some m'"
    by (auto simp: updateCheckSum_def split: option.splits)
  have "getSize m1 ip = getSize m ip"
    by (rule getSize_cong) (use mem_wr_frame [OF w0, of ip] mem_wr_length [OF w0] in auto)
  moreover have sz': "getSize m' ip = getSize m1 ip"
    by (rule getSize_cong) (use mem_wr_frame [OF w1, of ip] mem_wr_length [OF w1] in auto)
  ultimately have n: "n1 = n" using n1 assms(2) by simp
  have le: "ip + n \<le> length m1"
    using pkt_InetChecksum_SomeD [OF c] getSize_le [OF n1] n by simp
  have cval: "c = finish_sum (hdr_sum m1 ip n)"
    using c getSize_even [OF assms(2)] le n by (simp add: pkt_InetChecksum_eq)
  have "mem_rd m1 (ip + 10) = Some (0 :: u16)" using mem_rd_wr_same [OF _ w0] by simp
  from be_sum_wr16 [OF w1 this _ _ le]
  have "hdr_sum m' ip n = hdr_sum m1 ip n + (65535 - fold_carry (hdr_sum m1 ip n))"
    using assms(3) by (simp add: hdr_sum_def [symmetric] cval finish_sum_value)
  moreover have "(s + (65535 - fold_carry s)) mod 65535 = 0" for s
    using ones_complement_update [of 65535 65535 "fold_carry s" s] fold_carry_less [of s]
    by (simp add: fold_carry_mod add.commute)
  moreover have "0 < hdr_sum m' ip n"
    using hdr_sum_pos [of m' ip n] sz' n1 n assms(3) by simp
  ultimately show ?thesis
    using sz' n1 n le mem_wr_length [OF w1] by (auto simp: isChecksumOK_True)
qed

definition sample_header :: mem where
  "sample_header = [0x45, 0, 0, 0x81, 0xaf, 0x7e, 0, 0, 0x12, 0x11, 0, 0,
     1, 1, 1, 1, 0x3d, 0xad, 0x72, 0x1b]"

lemmas inet_eval = sample_header_def updateCheckSum_def getSize_def getHeaderLength_def mem_rd_def
  mem_wr_def pkt_InetChecksum_def sum_words.simps fold_carry.simps finish_sum_def PKT_NTOHS_def
  PKT_NTOHL_def bswap_def le_bytes_2 le_bytes_u32 isChecksumOK_def isMulticast_def getDestIp_def

lemma sample_header_sum:
  "updateCheckSum sample_header 0 = Some (sample_header[10 := 0x47, 11 := 0x24])"
  "getSize sample_header 0 = Some 20"
  by (simp_all add: inet_eval)

theorem updateCheckSum_verifies_witness:
  "isChecksumOK (sample_header[10 := 0x47, 11 := 0x24]) 0 = Some True"
  by (rule updateCheckSum_verifies [OF sample_header_sum]) simp

text \<open>
   The incremental updates keep a verified header verified: changing the type of service,
  the total length, the source address or the destination address of a header of at least 20
  octets whose checksum is right leaves it right.
\<close>

lemma incremental_updates_verify:
  assumes "isChecksumOK m ip = Some True" and "getSize m ip = Some n" and "20 \<le> n"
    and "updateTos m ip tos = Some m' \<or> updateTotalLength m ip len = Some m' \<or>
         updateIpSrc m ip addr = Some m' \<or> updateIpDst m ip addr = Some m'"
  shows "isChecksumOK m' ip = Some True"
  using assms(4)
proof (elim disjE)
  assume "updateIpSrc m ip addr = Some m'"
  then show ?thesis
    using assms(1-3) update_addr_ok [of 12] by (simp add: updateIpSrc_def)
next
  assume "updateIpDst m ip addr = Some m'"
  then show ?thesis
    using assms(1-3) update_addr_ok [of 16] by (simp add: updateIpDst_def)
qed (use assms(1-3) updateTos_ok updateTotalLength_ok in blast)+

text \<open>
  \<open>isMulticast\<close> masks the host-order address with \<open>0xf0\<close>, which is the last octet of the
  dotted address: 224.0.0.1 is not recognised and 10.0.0.224 is.
\<close>

lemma isMulticast_wrong_octet:
  "isMulticast (sample_header[16 := 224, 17 := 0, 18 := 0, 19 := 1]) 0 = Some False \<and>
   isMulticast (sample_header[16 := 10, 17 := 0, 18 := 0, 19 := 224]) 0 = Some True"
  by (simp_all add: inet_eval)

end
