(* ===== verification/Stream_Vm_Dp.thy ===== *)
theory Stream_Vm_Dp
  imports Inet_Checksum "HOL-Library.Monad_Syntax"
begin

text \<open>
  The data-path half of the stateless field engine (\<open>stateless/cp/trex_stream_vm.h\<close>): the
  random generator, the packed instruction structures \<open>StreamDPOp...\<close> with the operation each
  performs on the flow-variable memory and on the packet, and the byte-code interpreter
  \<open>StreamDPVmInstructionsRunner::run\<close>.

  The four structures \<open>StreamDPOpFlowVar8/16/32/64\<close> (and \<open>StreamDPOpPktWr8/16/32/64\<close>) differ in
  the width of their fields only, so each family is one record with the width as its type
  parameter.  Every access is bounds checked: what is undefined behaviour in C++ is a value of
  \<open>vm_fault\<close> here.  A \<open>seed_ptr\<close> says what the \<open>per_thread_random\<close> pointer refers to: a variable
  of its own, or the first four octets of the flow variables (the data path passes the flow
  variable block itself).

  The packed layouts satisfy the interface \<open>packed_struct\<close>, and the interpreter is shown to run
  the concatenation of encoded instructions exactly as the instruction list is executed.
\<close>

section \<open>Machine state\<close>

datatype vm_fault =
    BadOpcode            \<comment> \<open>\<open>assert(0)\<close> in the dispatch\<close>
  | ProgramOverrun       \<comment> \<open>an instruction reaches past the end of the program\<close>
  | FlowVarAccess        \<comment> \<open>outside the flow-variable block\<close>
  | PktAccess            \<comment> \<open>a store outside the packet\<close>
  | ChecksumAccess       \<comment> \<open>the checksum loop reads outside the packet\<close>
  | DivByZero

record vm_state =
  flow_var :: mem
  pkt :: mem
  rnd :: u32

datatype seed_ptr = SeedOwn | SeedFlowVar

definition get_seed :: "seed_ptr \<Rightarrow> vm_state \<Rightarrow> vm_fault + u32" where
  "get_seed sp st =
     (case sp of SeedOwn \<Rightarrow> Inr (rnd st)
      | SeedFlowVar \<Rightarrow> liftE FlowVarAccess (mem_rd (flow_var st) 0))"

definition set_seed :: "seed_ptr \<Rightarrow> u32 \<Rightarrow> vm_state \<Rightarrow> vm_fault + vm_state" where
  "set_seed sp g st =
     (case sp of SeedOwn \<Rightarrow> Inr (st\<lparr>rnd := g\<rparr>)
      | SeedFlowVar \<Rightarrow> bindE (liftE FlowVarAccess (mem_wr (flow_var st) 0 g))
          (\<lambda>fv. Inr (st\<lparr>flow_var := fv\<rparr>)))"

section \<open>The random generator\<close>

definition fastrand :: "u32 \<Rightarrow> u32 \<times> u32" where
  "fastrand g_seed = (let g = 214013 * g_seed + 2531011 in (g, drop_bit 16 g AND 0x7FFF))"

definition vm_rand16 :: "seed_ptr \<Rightarrow> vm_state \<Rightarrow> vm_fault + (u32 \<times> vm_state)" where
  "vm_rand16 sp st =
     bindE (get_seed sp st) (\<lambda>g.
     let (g', r) = fastrand g in
     bindE (set_seed sp g' st) (\<lambda>st'. Inr (r, st')))"

text \<open>The operands of the sums are evaluated left to right.\<close>

definition vm_rand32 :: "seed_ptr \<Rightarrow> vm_state \<Rightarrow> vm_fault + (u32 \<times> vm_state)" where
  "vm_rand32 sp st =
     bindE (vm_rand16 sp st) (\<lambda>(a, st1).
     bindE (vm_rand16 sp st1) (\<lambda>(b, st2). Inr (push_bit 16 a + b, st2)))"

definition vm_rand64 :: "seed_ptr \<Rightarrow> vm_state \<Rightarrow> vm_fault + (u64 \<times> vm_state)" where
  "vm_rand64 sp st =
     bindE (vm_rand32 sp st) (\<lambda>(a, st1).
     bindE (vm_rand32 sp st1) (\<lambda>(b, st2). Inr (push_bit 32 (ucast a) + ucast b, st2)))"

section \<open>Flow-variable instructions\<close>

record 'v StreamDPOpFlowVar =
  fv_op :: u8
  fv_flow_offset :: u8
  fv_min_val :: 'v
  fv_max_val :: 'v

definition fv_load :: "u8 \<Rightarrow> vm_state \<Rightarrow> vm_fault + 'v::len word" where
  "fv_load ofs st = liftE FlowVarAccess (mem_rd (flow_var st) (unat ofs))"

definition fv_store :: "u8 \<Rightarrow> 'v::len word \<Rightarrow> vm_state \<Rightarrow> vm_fault + vm_state" where
  "fv_store ofs v st =
     bindE (liftE FlowVarAccess (mem_wr (flow_var st) (unat ofs) v))
       (\<lambda>fv. Inr (st\<lparr>flow_var := fv\<rparr>))"

definition inc_val :: "'v::len word \<Rightarrow> 'v word \<Rightarrow> 'v word \<Rightarrow> 'v word" where
  "inc_val lo hi p = (if p = hi then lo else p + 1)"

definition dec_val :: "'v::len word \<Rightarrow> 'v word \<Rightarrow> 'v word \<Rightarrow> 'v word" where
  "dec_val lo hi p = (if p = lo then hi else p - 1)"

definition run_inc :: "'v::len word StreamDPOpFlowVar \<Rightarrow> vm_state \<Rightarrow> vm_fault + vm_state" where
  "run_inc ins st =
     bindE (fv_load (fv_flow_offset ins) st) (\<lambda>p.
     fv_store (fv_flow_offset ins) (inc_val (fv_min_val ins) (fv_max_val ins) p) st)"

definition run_dec :: "'v::len word StreamDPOpFlowVar \<Rightarrow> vm_state \<Rightarrow> vm_fault + vm_state" where
  "run_dec ins st =
     bindE (fv_load (fv_flow_offset ins) st) (\<lambda>p.
     fv_store (fv_flow_offset ins) (dec_val (fv_min_val ins) (fv_max_val ins) p) st)"

text \<open>
  The divisor \<open>(int)(m_max_val - m_min_val + 1)\<close> after the usual arithmetic conversions: the
  8 and 16 bit fields promote to \<open>int\<close> and the quotient is taken in \<open>uint32_t\<close>; the 64 bit
  difference is cut to 32 bits, then sign-extended to 64.
\<close>

definition rand_mod_small :: "'v::len word \<Rightarrow> 'v word \<Rightarrow> u32" where
  "rand_mod_small lo hi = ucast hi - ucast lo + 1"

definition rand_mod32 :: "u32 \<Rightarrow> u32 \<Rightarrow> u32" where
  "rand_mod32 lo hi = hi - lo + 1"

definition rand_mod64 :: "u64 \<Rightarrow> u64 \<Rightarrow> u64" where
  "rand_mod64 lo hi = scast (ucast (hi - lo + 1) :: u32)"

definition run_rand_small ::
  "seed_ptr \<Rightarrow> 'v::len word StreamDPOpFlowVar \<Rightarrow> vm_state \<Rightarrow> vm_fault + vm_state" where
  "run_rand_small sp ins st =
     bindE (vm_rand16 sp st) (\<lambda>(r, st1).
     let d = rand_mod_small (fv_min_val ins) (fv_max_val ins) in
     bindE (assertE DivByZero (d \<noteq> 0)) (\<lambda>_.
     fv_store (fv_flow_offset ins) (ucast (ucast (fv_min_val ins) + r mod d) :: 'v word) st1))"

definition run_rand32 ::
  "seed_ptr \<Rightarrow> u32 StreamDPOpFlowVar \<Rightarrow> vm_state \<Rightarrow> vm_fault + vm_state" where
  "run_rand32 sp ins st =
     bindE (vm_rand32 sp st) (\<lambda>(r, st1).
     let d = rand_mod32 (fv_min_val ins) (fv_max_val ins) in
     bindE (assertE DivByZero (d \<noteq> 0)) (\<lambda>_.
     fv_store (fv_flow_offset ins) (fv_min_val ins + r mod d) st1))"

definition run_rand64 ::
  "seed_ptr \<Rightarrow> u64 StreamDPOpFlowVar \<Rightarrow> vm_state \<Rightarrow> vm_fault + vm_state" where
  "run_rand64 sp ins st =
     bindE (vm_rand64 sp st) (\<lambda>(r, st1).
     let d = rand_mod64 (fv_min_val ins) (fv_max_val ins) in
     bindE (assertE DivByZero (d \<noteq> 0)) (\<lambda>_.
     fv_store (fv_flow_offset ins) (fv_min_val ins + r mod d) st1))"

section \<open>Packet-write instructions\<close>

record 'v StreamDPOpPktWr =
  pw_op :: u8
  pw_flags :: u8
  pw_offset :: u8
  pw_pkt_offset :: u16
  pw_val_offset :: 'v

definition PKT_WR_IS_BIG :: u8 where
  "PKT_WR_IS_BIG = 1"

definition is_big :: "'v StreamDPOpPktWr \<Rightarrow> bool" where
  "is_big ins \<longleftrightarrow> pw_flags ins AND PKT_WR_IS_BIG = PKT_WR_IS_BIG"

definition pkt_store :: "u16 \<Rightarrow> 'v::len word \<Rightarrow> vm_state \<Rightarrow> vm_fault + vm_state" where
  "pkt_store ofs v st =
     bindE (liftE PktAccess (mem_wr (pkt st) (unat ofs) v)) (\<lambda>p. Inr (st\<lparr>pkt := p\<rparr>))"

definition StreamDPOpPktWr8_wr :: "u8 StreamDPOpPktWr \<Rightarrow> vm_state \<Rightarrow> vm_fault + vm_state" where
  "StreamDPOpPktWr8_wr ins st =
     bindE (fv_load (pw_offset ins) st) (\<lambda>v.
     pkt_store (pw_pkt_offset ins) (v + pw_val_offset ins) st)"

definition StreamDPOpPktWr_wr ::
  "'v::len word StreamDPOpPktWr \<Rightarrow> vm_state \<Rightarrow> vm_fault + vm_state" where
  "StreamDPOpPktWr_wr ins st =
     bindE (fv_load (pw_offset ins) st) (\<lambda>v.
     pkt_store (pw_pkt_offset ins)
       (if is_big ins then bswap (v + pw_val_offset ins) else v + pw_val_offset ins) st)"

record StreamDPOpIpv4Fix =
  if_op :: u8
  if_offset :: u16

definition StreamDPOpIpv4Fix_run :: "StreamDPOpIpv4Fix \<Rightarrow> vm_state \<Rightarrow> vm_fault + vm_state" where
  "StreamDPOpIpv4Fix_run ins st =
     (case updateCheckSum (pkt st) (unat (if_offset ins)) of
        Some p \<Rightarrow> Inr (st\<lparr>pkt := p\<rparr>)
      | None \<Rightarrow> Inl (if unat (if_offset ins) + 12 \<le> length (pkt st)
                     then ChecksumAccess else PktAccess))"

section \<open>Client instructions\<close>

record StreamDPFlowClient =
  cur_ip :: u32
  cur_port :: u16
  cur_flow_id :: u32

record StreamDPOpClientsLimit =
  cl_op :: u8
  cl_flow_offset :: u8
  cl_flags :: u8
  cl_pad :: u8
  cl_min_port :: u16
  cl_max_port :: u16
  cl_min_ip :: u32
  cl_max_ip :: u32
  cl_limit_flows :: u32

record StreamDPOpClientsUnLimit =
  cu_op :: u8
  cu_flow_offset :: u8
  cu_flags :: u8
  cu_pad :: u8
  cu_min_ip :: u32
  cu_max_ip :: u32

definition CLIENT_UNLIMITED_MIN_PORT :: u16 where
  "CLIENT_UNLIMITED_MIN_PORT = 1025"

definition client_limit_step ::
  "StreamDPOpClientsLimit \<Rightarrow> StreamDPFlowClient \<Rightarrow> StreamDPFlowClient" where
  "client_limit_step ins lp0 =
     (let lp1 = lp0\<lparr>cur_ip := cur_ip lp0 + 1\<rparr>;
          lp2 = (if cur_ip lp1 > cl_max_ip ins
                 then let lp = lp1\<lparr>cur_ip := cl_min_ip ins, cur_port := cur_port lp1 + 1\<rparr>
                      in if cur_port lp > cl_max_port ins
                         then lp\<lparr>cur_port := cl_min_port ins\<rparr> else lp
                 else lp1)
      in if cl_limit_flows ins \<noteq> 0
         then let lp3 = lp2\<lparr>cur_flow_id := cur_flow_id lp2 + 1\<rparr>
              in if cur_flow_id lp3 > cl_limit_flows ins
                 then lp3\<lparr>cur_flow_id := 1, cur_ip := cl_min_ip ins, cur_port := cl_min_port ins\<rparr>
                 else lp3
         else lp2)"

definition client_unlimit_step ::
  "StreamDPOpClientsUnLimit \<Rightarrow> StreamDPFlowClient \<Rightarrow> StreamDPFlowClient" where
  "client_unlimit_step ins lp0 =
     (let lp1 = lp0\<lparr>cur_ip := cur_ip lp0 + 1\<rparr>
      in if cur_ip lp1 > cu_max_ip ins
         then let lp = lp1\<lparr>cur_ip := cu_min_ip ins, cur_port := cur_port lp1 + 1\<rparr>
              in if cur_port lp = 0 then lp\<lparr>cur_port := CLIENT_UNLIMITED_MIN_PORT\<rparr> else lp
         else lp1)"

text \<open>The packed \<open>StreamDPFlowClient\<close> inside the flow-variable block: 4 + 2 + 4 octets.\<close>

definition client_load :: "mem \<Rightarrow> nat \<Rightarrow> StreamDPFlowClient option" where
  "client_load fv ofs =
     do { ip \<leftarrow> mem_rd fv ofs; port \<leftarrow> mem_rd fv (ofs + 4); flow \<leftarrow> mem_rd fv (ofs + 6);
          Some \<lparr>cur_ip = ip, cur_port = port, cur_flow_id = flow\<rparr> }"

definition client_store :: "mem \<Rightarrow> nat \<Rightarrow> StreamDPFlowClient \<Rightarrow> mem option" where
  "client_store fv ofs lp =
     do { fv1 \<leftarrow> mem_wr fv ofs (cur_ip lp); fv2 \<leftarrow> mem_wr fv1 (ofs + 4) (cur_port lp);
          mem_wr fv2 (ofs + 6) (cur_flow_id lp) }"

definition client_update ::
  "u8 \<Rightarrow> (StreamDPFlowClient \<Rightarrow> StreamDPFlowClient) \<Rightarrow> vm_state \<Rightarrow> vm_fault + vm_state" where
  "client_update ofs f st =
     bindE (liftE FlowVarAccess (client_load (flow_var st) (unat ofs))) (\<lambda>lp.
     bindE (liftE FlowVarAccess (client_store (flow_var st) (unat ofs) (f lp))) (\<lambda>fv.
     Inr (st\<lparr>flow_var := fv\<rparr>)))"

definition StreamDPOpClientsLimit_run ::
  "StreamDPOpClientsLimit \<Rightarrow> vm_state \<Rightarrow> vm_fault + vm_state" where
  "StreamDPOpClientsLimit_run ins st =
     client_update (cl_flow_offset ins) (client_limit_step ins) st"

definition StreamDPOpClientsUnLimit_run ::
  "StreamDPOpClientsUnLimit \<Rightarrow> vm_state \<Rightarrow> vm_fault + vm_state" where
  "StreamDPOpClientsUnLimit_run ins st =
     client_update (cu_flow_offset ins) (client_unlimit_step ins) st"

section \<open>Instructions\<close>

text \<open>The opcodes (\<open>enum INS_TYPE\<close>), numbered from 7.\<close>

abbreviation (input) ditINC8 :: u8 where "ditINC8 \<equiv> 7"
abbreviation (input) ditINC16 :: u8 where "ditINC16 \<equiv> 8"
abbreviation (input) ditINC32 :: u8 where "ditINC32 \<equiv> 9"
abbreviation (input) ditINC64 :: u8 where "ditINC64 \<equiv> 10"
abbreviation (input) ditDEC8 :: u8 where "ditDEC8 \<equiv> 11"
abbreviation (input) ditDEC16 :: u8 where "ditDEC16 \<equiv> 12"
abbreviation (input) ditDEC32 :: u8 where "ditDEC32 \<equiv> 13"
abbreviation (input) ditDEC64 :: u8 where "ditDEC64 \<equiv> 14"
abbreviation (input) ditRANDOM8 :: u8 where "ditRANDOM8 \<equiv> 15"
abbreviation (input) ditRANDOM16 :: u8 where "ditRANDOM16 \<equiv> 16"
abbreviation (input) ditRANDOM32 :: u8 where "ditRANDOM32 \<equiv> 17"
abbreviation (input) ditRANDOM64 :: u8 where "ditRANDOM64 \<equiv> 18"
abbreviation (input) ditFIX_IPV4_CS :: u8 where "ditFIX_IPV4_CS \<equiv> 19"
abbreviation (input) itPKT_WR8 :: u8 where "itPKT_WR8 \<equiv> 20"
abbreviation (input) itPKT_WR16 :: u8 where "itPKT_WR16 \<equiv> 21"
abbreviation (input) itPKT_WR32 :: u8 where "itPKT_WR32 \<equiv> 22"
abbreviation (input) itPKT_WR64 :: u8 where "itPKT_WR64 \<equiv> 23"
abbreviation (input) itCLIENT_VAR :: u8 where "itCLIENT_VAR \<equiv> 24"
abbreviation (input) itCLIENT_VAR_UNLIMIT :: u8 where "itCLIENT_VAR_UNLIMIT \<equiv> 25"

text \<open>One constructor per member of the union \<open>ua_\<close> of the interpreter.\<close>

datatype dp_instr =
    OpV8 "u8 StreamDPOpFlowVar"
  | OpV16 "u16 StreamDPOpFlowVar"
  | OpV32 "u32 StreamDPOpFlowVar"
  | OpV64 "u64 StreamDPOpFlowVar"
  | OpIpv4Fix StreamDPOpIpv4Fix
  | OpW8 "u8 StreamDPOpPktWr"
  | OpW16 "u16 StreamDPOpPktWr"
  | OpW32 "u32 StreamDPOpPktWr"
  | OpW64 "u64 StreamDPOpPktWr"
  | OpCl StreamDPOpClientsLimit
  | OpClu StreamDPOpClientsUnLimit

subsection \<open>Packed layouts\<close>

definition enc_flow_var :: "'v::len word StreamDPOpFlowVar \<Rightarrow> mem" where
  "enc_flow_var i =
     le_bytes 1 (fv_op i) @ le_bytes 1 (fv_flow_offset i) @
     le_bytes (LENGTH('v) div 8) (fv_min_val i) @ le_bytes (LENGTH('v) div 8) (fv_max_val i)"

definition dec_flow_var :: "mem \<Rightarrow> nat \<Rightarrow> 'v::len word StreamDPOpFlowVar option" where
  "dec_flow_var m p =
     do { a \<leftarrow> mem_rd m p; b \<leftarrow> mem_rd m (p + 1); lo \<leftarrow> mem_rd m (p + 2);
          hi \<leftarrow> mem_rd m (p + (2 + LENGTH('v) div 8));
          Some \<lparr>fv_op = a, fv_flow_offset = b, fv_min_val = lo, fv_max_val = hi\<rparr> }"

definition enc_ipv4_fix :: "StreamDPOpIpv4Fix \<Rightarrow> mem" where
  "enc_ipv4_fix i = le_bytes 1 (if_op i) @ le_bytes 2 (if_offset i)"

definition dec_ipv4_fix :: "mem \<Rightarrow> nat \<Rightarrow> StreamDPOpIpv4Fix option" where
  "dec_ipv4_fix m p =
     do { a \<leftarrow> mem_rd m p; b \<leftarrow> mem_rd m (p + 1); Some \<lparr>if_op = a, if_offset = b\<rparr> }"

text \<open>\<open>StreamDPOpPktWr8\<close> has its value offset before the packet offset, the others after it.\<close>

definition enc_pkt_wr8 :: "u8 StreamDPOpPktWr \<Rightarrow> mem" where
  "enc_pkt_wr8 i =
     le_bytes 1 (pw_op i) @ le_bytes 1 (pw_flags i) @ le_bytes 1 (pw_offset i) @
     le_bytes 1 (pw_val_offset i) @ le_bytes 2 (pw_pkt_offset i)"

definition dec_pkt_wr8 :: "mem \<Rightarrow> nat \<Rightarrow> u8 StreamDPOpPktWr option" where
  "dec_pkt_wr8 m p =
     do { a \<leftarrow> mem_rd m p; b \<leftarrow> mem_rd m (p + 1); c \<leftarrow> mem_rd m (p + 2);
          v \<leftarrow> mem_rd m (p + 3); o' \<leftarrow> mem_rd m (p + 4);
          Some \<lparr>pw_op = a, pw_flags = b, pw_offset = c, pw_pkt_offset = o', pw_val_offset = v\<rparr> }"

definition enc_pkt_wr :: "'v::len word StreamDPOpPktWr \<Rightarrow> mem" where
  "enc_pkt_wr i =
     le_bytes 1 (pw_op i) @ le_bytes 1 (pw_flags i) @ le_bytes 1 (pw_offset i) @
     le_bytes 2 (pw_pkt_offset i) @ le_bytes (LENGTH('v) div 8) (pw_val_offset i)"

definition dec_pkt_wr :: "mem \<Rightarrow> nat \<Rightarrow> 'v::len word StreamDPOpPktWr option" where
  "dec_pkt_wr m p =
     do { a \<leftarrow> mem_rd m p; b \<leftarrow> mem_rd m (p + 1); c \<leftarrow> mem_rd m (p + 2);
          o' \<leftarrow> mem_rd m (p + 3); v \<leftarrow> mem_rd m (p + 5);
          Some \<lparr>pw_op = a, pw_flags = b, pw_offset = c, pw_pkt_offset = o', pw_val_offset = v\<rparr> }"

definition enc_clients_limit :: "StreamDPOpClientsLimit \<Rightarrow> mem" where
  "enc_clients_limit i =
     le_bytes 1 (cl_op i) @ le_bytes 1 (cl_flow_offset i) @ le_bytes 1 (cl_flags i) @
     le_bytes 1 (cl_pad i) @ le_bytes 2 (cl_min_port i) @ le_bytes 2 (cl_max_port i) @
     le_bytes 4 (cl_min_ip i) @ le_bytes 4 (cl_max_ip i) @ le_bytes 4 (cl_limit_flows i)"

definition dec_clients_limit :: "mem \<Rightarrow> nat \<Rightarrow> StreamDPOpClientsLimit option" where
  "dec_clients_limit m p =
     do { a \<leftarrow> mem_rd m p; b \<leftarrow> mem_rd m (p + 1); c \<leftarrow> mem_rd m (p + 2); d \<leftarrow> mem_rd m (p + 3);
          pl \<leftarrow> mem_rd m (p + 4); ph \<leftarrow> mem_rd m (p + 6); il \<leftarrow> mem_rd m (p + 8);
          ih \<leftarrow> mem_rd m (p + 12); fl \<leftarrow> mem_rd m (p + 16);
          Some \<lparr>cl_op = a, cl_flow_offset = b, cl_flags = c, cl_pad = d, cl_min_port = pl,
                cl_max_port = ph, cl_min_ip = il, cl_max_ip = ih, cl_limit_flows = fl\<rparr> }"

definition enc_clients_unlimit :: "StreamDPOpClientsUnLimit \<Rightarrow> mem" where
  "enc_clients_unlimit i =
     le_bytes 1 (cu_op i) @ le_bytes 1 (cu_flow_offset i) @ le_bytes 1 (cu_flags i) @
     le_bytes 1 (cu_pad i) @ le_bytes 4 (cu_min_ip i) @ le_bytes 4 (cu_max_ip i)"

definition dec_clients_unlimit :: "mem \<Rightarrow> nat \<Rightarrow> StreamDPOpClientsUnLimit option" where
  "dec_clients_unlimit m p =
     do { a \<leftarrow> mem_rd m p; b \<leftarrow> mem_rd m (p + 1); c \<leftarrow> mem_rd m (p + 2); d \<leftarrow> mem_rd m (p + 3);
          il \<leftarrow> mem_rd m (p + 4); ih \<leftarrow> mem_rd m (p + 8);
          Some \<lparr>cu_op = a, cu_flow_offset = b, cu_flags = c, cu_pad = d, cu_min_ip = il,
                cu_max_ip = ih\<rparr> }"

subsection \<open>The interpreter\<close>

definition dp_enc :: "dp_instr \<Rightarrow> mem" where
  "dp_enc i = (case i of
       OpV8 x \<Rightarrow> enc_flow_var x | OpV16 x \<Rightarrow> enc_flow_var x
     | OpV32 x \<Rightarrow> enc_flow_var x | OpV64 x \<Rightarrow> enc_flow_var x
     | OpIpv4Fix x \<Rightarrow> enc_ipv4_fix x
     | OpW8 x \<Rightarrow> enc_pkt_wr8 x | OpW16 x \<Rightarrow> enc_pkt_wr x
     | OpW32 x \<Rightarrow> enc_pkt_wr x | OpW64 x \<Rightarrow> enc_pkt_wr x
     | OpCl x \<Rightarrow> enc_clients_limit x | OpClu x \<Rightarrow> enc_clients_unlimit x)"

definition dp_size :: "dp_instr \<Rightarrow> nat" where
  "dp_size i = (case i of
       OpV8 _ \<Rightarrow> 4 | OpV16 _ \<Rightarrow> 6 | OpV32 _ \<Rightarrow> 10 | OpV64 _ \<Rightarrow> 18 | OpIpv4Fix _ \<Rightarrow> 3
     | OpW8 _ \<Rightarrow> 6 | OpW16 _ \<Rightarrow> 7 | OpW32 _ \<Rightarrow> 9 | OpW64 _ \<Rightarrow> 13 | OpCl _ \<Rightarrow> 20 | OpClu _ \<Rightarrow> 12)"

text \<open>The \<open>switch (op_code)\<close>: the opcode selects the structure the program pointer is cast to.\<close>

definition dp_dec :: "mem \<Rightarrow> nat \<Rightarrow> vm_fault + dp_instr" where
  "dp_dec m p =
     bindE (liftE ProgramOverrun (mem_rd m p :: u8 option)) (\<lambda>op_code.
     if op_code = itCLIENT_VAR then
       liftE ProgramOverrun (map_option OpCl (dec_clients_limit m p))
     else if op_code = itCLIENT_VAR_UNLIMIT then
       liftE ProgramOverrun (map_option OpClu (dec_clients_unlimit m p))
     else if op_code \<in> {ditINC8, ditDEC8, ditRANDOM8} then
       liftE ProgramOverrun (map_option OpV8 (dec_flow_var m p))
     else if op_code \<in> {ditINC16, ditDEC16, ditRANDOM16} then
       liftE ProgramOverrun (map_option OpV16 (dec_flow_var m p))
     else if op_code \<in> {ditINC32, ditDEC32, ditRANDOM32} then
       liftE ProgramOverrun (map_option OpV32 (dec_flow_var m p))
     else if op_code \<in> {ditINC64, ditDEC64, ditRANDOM64} then
       liftE ProgramOverrun (map_option OpV64 (dec_flow_var m p))
     else if op_code = ditFIX_IPV4_CS then
       liftE ProgramOverrun (map_option OpIpv4Fix (dec_ipv4_fix m p))
     else if op_code = itPKT_WR8 then
       liftE ProgramOverrun (map_option OpW8 (dec_pkt_wr8 m p))
     else if op_code = itPKT_WR16 then
       liftE ProgramOverrun (map_option OpW16 (dec_pkt_wr m p))
     else if op_code = itPKT_WR32 then
       liftE ProgramOverrun (map_option OpW32 (dec_pkt_wr m p))
     else if op_code = itPKT_WR64 then
       liftE ProgramOverrun (map_option OpW64 (dec_pkt_wr m p))
     else Inl BadOpcode)"

definition dp_exec :: "seed_ptr \<Rightarrow> dp_instr \<Rightarrow> vm_state \<Rightarrow> vm_fault + vm_state" where
  "dp_exec sp i st = (case i of
       OpV8 x \<Rightarrow> (if fv_op x = ditINC8 then run_inc x st
                  else if fv_op x = ditDEC8 then run_dec x st
                  else if fv_op x = ditRANDOM8 then run_rand_small sp x st else Inl BadOpcode)
     | OpV16 x \<Rightarrow> (if fv_op x = ditINC16 then run_inc x st
                  else if fv_op x = ditDEC16 then run_dec x st
                  else if fv_op x = ditRANDOM16 then run_rand_small sp x st else Inl BadOpcode)
     | OpV32 x \<Rightarrow> (if fv_op x = ditINC32 then run_inc x st
                  else if fv_op x = ditDEC32 then run_dec x st
                  else if fv_op x = ditRANDOM32 then run_rand32 sp x st else Inl BadOpcode)
     | OpV64 x \<Rightarrow> (if fv_op x = ditINC64 then run_inc x st
                  else if fv_op x = ditDEC64 then run_dec x st
                  else if fv_op x = ditRANDOM64 then run_rand64 sp x st else Inl BadOpcode)
     | OpIpv4Fix x \<Rightarrow> StreamDPOpIpv4Fix_run x st
     | OpW8 x \<Rightarrow> StreamDPOpPktWr8_wr x st
     | OpW16 x \<Rightarrow> StreamDPOpPktWr_wr x st
     | OpW32 x \<Rightarrow> StreamDPOpPktWr_wr x st
     | OpW64 x \<Rightarrow> StreamDPOpPktWr_wr x st
     | OpCl x \<Rightarrow> StreamDPOpClientsLimit_run x st
     | OpClu x \<Rightarrow> StreamDPOpClientsUnLimit_run x st)"

lemma dp_size_pos [simp]: "0 < dp_size i"
  by (simp add: dp_size_def split: dp_instr.splits)

function runner_run :: "seed_ptr \<Rightarrow> mem \<Rightarrow> nat \<Rightarrow> vm_state \<Rightarrow> vm_fault + vm_state" where
  "runner_run sp program p st =
     (if p < length program then
        bindE (dp_dec program p) (\<lambda>i.
        bindE (dp_exec sp i st) (\<lambda>st'. runner_run sp program (p + dp_size i) st'))
      else Inr st)"
  by pat_completeness auto
termination
  by (relation "measure (\<lambda>(sp, program, p, st). length program - p)")
    (auto intro: diff_less_mono2)

declare runner_run.simps [simp del]

text \<open>The whole program, as the data path starts it.\<close>

definition StreamDPVmInstructionsRunner_run ::
  "seed_ptr \<Rightarrow> mem \<Rightarrow> vm_state \<Rightarrow> vm_fault + vm_state" where
  "StreamDPVmInstructionsRunner_run sp program st = runner_run sp program 0 st"

section \<open>Packed structures as an interface\<close>

text \<open>
  What the interpreter relies on when it casts the program pointer: a structure occupies \<open>sz\<close>
  octets and is read back from wherever those octets stand in the program.
\<close>

locale packed_struct =
  fixes enc :: "'a \<Rightarrow> mem" and dec :: "mem \<Rightarrow> nat \<Rightarrow> 'a option" and sz :: nat
  assumes enc_length: "length (enc x) = sz"
    and dec_enc_at: "dec (pre @ enc x @ post) (length pre) = Some x"
begin

lemma dec_enc: "dec (enc x) 0 = Some x"
  using dec_enc_at [of "[]" x "[]"] by simp

lemma enc_inject: "enc x = enc y \<longleftrightarrow> x = y"
  by (metis dec_enc option.inject)

lemma dec_enc_next:
  "dec (pre @ enc x @ enc y @ post) (length pre + sz) = Some y"
  using dec_enc_at [of "pre @ enc x" y post] by (simp add: enc_length)

end

lemma mem_rd_append [mem_simps]: "mem_rd (pre @ m) (length pre + k) = mem_rd m k"
  by (simp add: mem_rd_def)

lemma mem_rd_append0 [mem_simps]: "mem_rd (pre @ m) (length pre) = mem_rd m 0"
  using mem_rd_append [of pre m 0] by simp

lemma mem_rd_skip [mem_simps]:
  "n \<le> k \<Longrightarrow> mem_rd (le_bytes n w @ m) k = mem_rd m (k - n)"
  using mem_rd_append [of "le_bytes n w" m "k - n"] by simp

lemma mem_rd_here [mem_simps]:
  "8 * n = LENGTH('a) \<Longrightarrow> mem_rd (le_bytes n (w :: 'a::len word) @ m) 0 = Some w"
  by (auto simp: mem_rd_def le_word_le_bytes simp flip: mult.commute)

lemma mem_rd_last [mem_simps]:
  "8 * n = LENGTH('a) \<Longrightarrow> mem_rd (le_bytes n (w :: 'a::len word)) 0 = Some w"
  using mem_rd_here [of n w "[]"] by simp

lemma le_word_le_bytes_full [mem_simps]:
  "8 * n = LENGTH('a) \<Longrightarrow> le_word (le_bytes n w) = (w :: 'a::len word)"
  by (simp add: le_word_le_bytes)

lemma dec_flow_var_at:
  assumes "8 dvd LENGTH('v::len)"
  shows "dec_flow_var (pre @ enc_flow_var x @ post) (length pre) =
    Some (x :: 'v word StreamDPOpFlowVar)"
  using assms by (simp add: dec_flow_var_def enc_flow_var_def mem_simps)

lemma dec_pkt_wr_at:
  assumes "8 dvd LENGTH('v::len)"
  shows "dec_pkt_wr (pre @ enc_pkt_wr x @ post) (length pre) =
    Some (x :: 'v word StreamDPOpPktWr)"
  using assms by (simp add: dec_pkt_wr_def enc_pkt_wr_def mem_simps)

interpretation fv8: packed_struct "enc_flow_var :: u8 StreamDPOpFlowVar \<Rightarrow> mem" dec_flow_var 4
  by unfold_locales (simp add: enc_flow_var_def, rule dec_flow_var_at, simp)

interpretation fv16: packed_struct "enc_flow_var :: u16 StreamDPOpFlowVar \<Rightarrow> mem" dec_flow_var 6
  by unfold_locales (simp add: enc_flow_var_def, rule dec_flow_var_at, simp)

interpretation fv32: packed_struct "enc_flow_var :: u32 StreamDPOpFlowVar \<Rightarrow> mem" dec_flow_var 10
  by unfold_locales (simp add: enc_flow_var_def, rule dec_flow_var_at, simp)

interpretation fv64: packed_struct "enc_flow_var :: u64 StreamDPOpFlowVar \<Rightarrow> mem" dec_flow_var 18
  by unfold_locales (simp add: enc_flow_var_def, rule dec_flow_var_at, simp)

interpretation fix4: packed_struct enc_ipv4_fix dec_ipv4_fix 3
  by unfold_locales (simp_all add: enc_ipv4_fix_def dec_ipv4_fix_def mem_simps)

interpretation wr8: packed_struct enc_pkt_wr8 dec_pkt_wr8 6
  by unfold_locales (simp_all add: enc_pkt_wr8_def dec_pkt_wr8_def mem_simps)

interpretation wr16: packed_struct "enc_pkt_wr :: u16 StreamDPOpPktWr \<Rightarrow> mem" dec_pkt_wr 7
  by unfold_locales (simp add: enc_pkt_wr_def, rule dec_pkt_wr_at, simp)

interpretation wr32: packed_struct "enc_pkt_wr :: u32 StreamDPOpPktWr \<Rightarrow> mem" dec_pkt_wr 9
  by unfold_locales (simp add: enc_pkt_wr_def, rule dec_pkt_wr_at, simp)

interpretation wr64: packed_struct "enc_pkt_wr :: u64 StreamDPOpPktWr \<Rightarrow> mem" dec_pkt_wr 13
  by unfold_locales (simp add: enc_pkt_wr_def, rule dec_pkt_wr_at, simp)

interpretation cl: packed_struct enc_clients_limit dec_clients_limit 20
  by unfold_locales (simp_all add: enc_clients_limit_def dec_clients_limit_def mem_simps)

interpretation clu: packed_struct enc_clients_unlimit dec_clients_unlimit 12
  by unfold_locales (simp_all add: enc_clients_unlimit_def dec_clients_unlimit_def mem_simps)

lemmas struct_sizes = fv8.enc_length fv16.enc_length fv32.enc_length fv64.enc_length
  fix4.enc_length wr8.enc_length wr16.enc_length wr32.enc_length wr64.enc_length
  cl.enc_length clu.enc_length

lemmas struct_decs = fv8.dec_enc_at fv16.dec_enc_at fv32.dec_enc_at fv64.dec_enc_at
  fix4.dec_enc_at wr8.dec_enc_at wr16.dec_enc_at wr32.dec_enc_at wr64.dec_enc_at
  cl.dec_enc_at clu.dec_enc_at

text \<open>The opcode of an instruction, and the instructions whose opcode fits their structure.\<close>

definition dp_opcode :: "dp_instr \<Rightarrow> u8" where
  "dp_opcode i = (case i of
       OpV8 x \<Rightarrow> fv_op x | OpV16 x \<Rightarrow> fv_op x | OpV32 x \<Rightarrow> fv_op x | OpV64 x \<Rightarrow> fv_op x
     | OpIpv4Fix x \<Rightarrow> if_op x | OpW8 x \<Rightarrow> pw_op x | OpW16 x \<Rightarrow> pw_op x | OpW32 x \<Rightarrow> pw_op x
     | OpW64 x \<Rightarrow> pw_op x | OpCl x \<Rightarrow> cl_op x | OpClu x \<Rightarrow> cu_op x)"

definition wf_instr :: "dp_instr \<Rightarrow> bool" where
  "wf_instr i = (case i of
       OpV8 x \<Rightarrow> fv_op x \<in> {ditINC8, ditDEC8, ditRANDOM8}
     | OpV16 x \<Rightarrow> fv_op x \<in> {ditINC16, ditDEC16, ditRANDOM16}
     | OpV32 x \<Rightarrow> fv_op x \<in> {ditINC32, ditDEC32, ditRANDOM32}
     | OpV64 x \<Rightarrow> fv_op x \<in> {ditINC64, ditDEC64, ditRANDOM64}
     | OpIpv4Fix x \<Rightarrow> if_op x = ditFIX_IPV4_CS
     | OpW8 x \<Rightarrow> pw_op x = itPKT_WR8 | OpW16 x \<Rightarrow> pw_op x = itPKT_WR16
     | OpW32 x \<Rightarrow> pw_op x = itPKT_WR32 | OpW64 x \<Rightarrow> pw_op x = itPKT_WR64
     | OpCl x \<Rightarrow> cl_op x = itCLIENT_VAR | OpClu x \<Rightarrow> cu_op x = itCLIENT_VAR_UNLIMIT)"

lemma length_dp_enc [simp]: "length (dp_enc i) = dp_size i"
  by (simp add: dp_enc_def dp_size_def struct_sizes split: dp_instr.splits)

lemma dp_enc_opcode:
  "(mem_rd (pre @ dp_enc i @ post) (length pre) :: u8 option) = Some (dp_opcode i)"
  by (cases i) (simp_all add: dp_enc_def dp_opcode_def enc_flow_var_def enc_ipv4_fix_def
      enc_pkt_wr8_def enc_pkt_wr_def enc_clients_limit_def enc_clients_unlimit_def mem_simps)

lemma dp_dec_enc:
  assumes "wf_instr i"
  shows "dp_dec (pre @ dp_enc i @ post) (length pre) = Inr i"
  unfolding dp_dec_def dp_enc_opcode
  using assms by (cases i) (auto simp: wf_instr_def dp_opcode_def dp_enc_def struct_decs)

text \<open>The interpreter on encoded instructions is the fold of their execution.\<close>

lemma runner_run_enc:
  assumes "list_all wf_instr is"
  shows "runner_run sp (pre @ concat (map dp_enc is)) (length pre) st =
    foldE (\<lambda>s i. dp_exec sp i s) st is"
  using assms
proof (induction "is" arbitrary: pre st)
  case Nil
  then show ?case by (simp add: runner_run.simps)
next
  case (Cons i "is")
  have "runner_run sp (pre @ dp_enc i @ concat (map dp_enc is)) (length pre) st =
      bindE (dp_exec sp i st) (\<lambda>st'.
        runner_run sp ((pre @ dp_enc i) @ concat (map dp_enc is)) (length (pre @ dp_enc i)) st')"
    using Cons.prems dp_size_pos [of i]
    by (subst runner_run.simps) (simp add: dp_dec_enc)
  also have "\<dots> = bindE (dp_exec sp i st) (\<lambda>st'. foldE (\<lambda>s i. dp_exec sp i s) st' is)"
    using Cons.prems by (intro bindE_cong refl) (rule Cons.IH, simp)
  finally show ?case by simp
qed

section \<open>Memory safety of one instruction\<close>

text \<open>
  An instruction fits a flow-variable block of \<open>B\<close> octets and a packet window of \<open>W\<close> octets when
  everything it addresses lies inside them.
\<close>

definition uses_random :: "dp_instr \<Rightarrow> bool" where
  "uses_random i = (case i of
       OpV8 x \<Rightarrow> fv_op x = ditRANDOM8 | OpV16 x \<Rightarrow> fv_op x = ditRANDOM16
     | OpV32 x \<Rightarrow> fv_op x = ditRANDOM32 | OpV64 x \<Rightarrow> fv_op x = ditRANDOM64 | _ \<Rightarrow> False)"

definition instr_fits :: "nat \<Rightarrow> nat \<Rightarrow> dp_instr \<Rightarrow> bool" where
  "instr_fits B W i = ((uses_random i \<longrightarrow> 4 \<le> B) \<and> (case i of
       OpV8 x \<Rightarrow> unat (fv_flow_offset x) + 1 \<le> B
     | OpV16 x \<Rightarrow> unat (fv_flow_offset x) + 2 \<le> B
     | OpV32 x \<Rightarrow> unat (fv_flow_offset x) + 4 \<le> B
     | OpV64 x \<Rightarrow> unat (fv_flow_offset x) + 8 \<le> B
     | OpIpv4Fix x \<Rightarrow> unat (if_offset x) + 12 \<le> W
     | OpW8 x \<Rightarrow> unat (pw_offset x) + 1 \<le> B \<and> unat (pw_pkt_offset x) + 1 \<le> W
     | OpW16 x \<Rightarrow> unat (pw_offset x) + 2 \<le> B \<and> unat (pw_pkt_offset x) + 2 \<le> W
     | OpW32 x \<Rightarrow> unat (pw_offset x) + 4 \<le> B \<and> unat (pw_pkt_offset x) + 4 \<le> W
     | OpW64 x \<Rightarrow> unat (pw_offset x) + 8 \<le> B \<and> unat (pw_pkt_offset x) + 8 \<le> W
     | OpCl x \<Rightarrow> unat (cl_flow_offset x) + 10 \<le> B
     | OpClu x \<Rightarrow> unat (cu_flow_offset x) + 10 \<le> B))"

text \<open>
  The outcome the memory-safety lemmas allow: the two faults that depend on data, or a state
  with blocks of the same size whose packet agrees outside the window.
\<close>

definition safe_from :: "nat \<Rightarrow> vm_state \<Rightarrow> vm_fault + vm_state \<Rightarrow> bool" where
  "safe_from W st r = (case r of
       Inl e \<Rightarrow> e = DivByZero \<or> e = ChecksumAccess
     | Inr st' \<Rightarrow> length (flow_var st') = length (flow_var st) \<and>
         length (pkt st') = length (pkt st) \<and> drop W (pkt st') = drop W (pkt st))"

lemma safe_from_bind:
  assumes "safe_from W st r"
    and "\<And>st'. r = Inr st' \<Longrightarrow> length (flow_var st') = length (flow_var st) \<Longrightarrow>
           length (pkt st') = length (pkt st) \<Longrightarrow> safe_from W st' (f st')"
  shows "safe_from W st (bindE r f)"
  using assms by (auto simp: safe_from_def split: sum.splits)

lemma fv_load_in:
  "unat ofs + LENGTH('v) div 8 \<le> length (flow_var st) \<Longrightarrow>
     \<exists>v. (fv_load ofs st :: vm_fault + 'v::len word) = Inr v"
  by (simp add: fv_load_def mem_rd_Some)

lemma fv_store_in:
  assumes "unat ofs + LENGTH('v) div 8 \<le> length (flow_var st)"
  shows "safe_from W st (fv_store ofs (v :: 'v::len word) st)"
  using assms by (simp add: fv_store_def mem_wr_def safe_from_def)

lemma pkt_store_in:
  assumes "unat ofs + LENGTH('v) div 8 \<le> W" and "W \<le> length (pkt st)"
  shows "safe_from W st (pkt_store ofs (v :: 'v::len word) st)"
proof -
  obtain p where p: "mem_wr (pkt st) (unat ofs) v = Some p"
    using assms by (metis le_trans mem_wr_None not_None_eq not_le)
  then show ?thesis
    using mem_wr_length [OF p] mem_wr_take [OF p assms(1)]
    by (simp add: pkt_store_def safe_from_def)
qed

lemma run_inc_in:
  "unat (fv_flow_offset x) + LENGTH('v) div 8 \<le> length (flow_var st) \<Longrightarrow>
     safe_from W st (run_inc (x :: 'v::len word StreamDPOpFlowVar) st)"
  using fv_load_in [of "fv_flow_offset x" st, where 'v = 'v]
  by (auto simp: run_inc_def fv_store_in)

lemma run_dec_in:
  "unat (fv_flow_offset x) + LENGTH('v) div 8 \<le> length (flow_var st) \<Longrightarrow>
     safe_from W st (run_dec (x :: 'v::len word StreamDPOpFlowVar) st)"
  using fv_load_in [of "fv_flow_offset x" st, where 'v = 'v]
  by (auto simp: run_dec_def fv_store_in)

text \<open>The generator touches the seed only.\<close>

definition same_blocks :: "vm_state \<Rightarrow> vm_state \<Rightarrow> bool" where
  "same_blocks st st' \<longleftrightarrow> length (flow_var st') = length (flow_var st) \<and> pkt st' = pkt st"

lemma vm_rand16_in:
  assumes "4 \<le> length (flow_var st)"
  obtains r st' where "vm_rand16 sp st = Inr (r, st')" and "same_blocks st st'" and "r \<le> 0x7FFF"
proof -
  obtain g where g: "get_seed sp st = Inr g"
    using assms by (cases sp) (auto simp: get_seed_def mem_rd_Some)
  obtain st' where st': "set_seed sp (fst (fastrand g)) st = Inr st'" and "same_blocks st st'"
    using assms by (cases sp) (auto simp: set_seed_def mem_wr_def same_blocks_def)
  moreover have "snd (fastrand g) \<le> 0x7FFF"
    by (simp add: fastrand_def Let_def word_and_le1)
  ultimately show thesis
    using that g by (simp add: vm_rand16_def case_prod_beta Let_def)
qed

lemma vm_rand32_in:
  assumes "4 \<le> length (flow_var st)"
  obtains r st' where "vm_rand32 sp st = Inr (r, st')" and "same_blocks st st'"
proof -
  from vm_rand16_in [OF assms, of sp] obtain a st1
    where 1: "vm_rand16 sp st = Inr (a, st1)" "same_blocks st st1" .
  then have "4 \<le> length (flow_var st1)" using assms by (simp add: same_blocks_def)
  from vm_rand16_in [OF this, of sp] obtain b st2
    where 2: "vm_rand16 sp st1 = Inr (b, st2)" "same_blocks st1 st2" .
  show thesis
    using that [of "push_bit 16 a + b" st2] 1 2 by (simp add: vm_rand32_def same_blocks_def)
qed

lemma vm_rand64_in:
  assumes "4 \<le> length (flow_var st)"
  obtains r st' where "vm_rand64 sp st = Inr (r, st')" and "same_blocks st st'"
proof -
  from vm_rand32_in [OF assms, of sp] obtain a st1
    where 1: "vm_rand32 sp st = Inr (a, st1)" "same_blocks st st1" .
  then have "4 \<le> length (flow_var st1)" using assms by (simp add: same_blocks_def)
  from vm_rand32_in [OF this, of sp] obtain b st2
    where 2: "vm_rand32 sp st1 = Inr (b, st2)" "same_blocks st1 st2" .
  show thesis
    using that [of "push_bit 32 (ucast a) + ucast b" st2] 1 2
    by (simp add: vm_rand64_def same_blocks_def)
qed

lemma safe_from_same_blocks:
  "same_blocks st st1 \<Longrightarrow> safe_from W st1 r \<Longrightarrow> safe_from W st r"
  by (auto simp: same_blocks_def safe_from_def split: sum.splits)

lemma safe_from_assert_store:
  assumes "same_blocks st st1" and "unat ofs + LENGTH('v) div 8 \<le> length (flow_var st)"
  shows "safe_from W st (bindE (assertE DivByZero b) (\<lambda>_. fv_store ofs (v :: 'v::len word) st1))"
proof (cases b)
  case True
  then show ?thesis
    using safe_from_same_blocks [OF assms(1) fv_store_in] assms by (simp add: same_blocks_def)
qed (simp add: assertE_def safe_from_def)

lemma run_rand_small_in:
  assumes "4 \<le> length (flow_var st)"
    and "unat (fv_flow_offset x) + LENGTH('v) div 8 \<le> length (flow_var st)"
  shows "safe_from W st (run_rand_small sp (x :: 'v::len word StreamDPOpFlowVar) st)"
proof -
  from vm_rand16_in [OF assms(1), of sp] obtain r st1
    where "vm_rand16 sp st = Inr (r, st1)" "same_blocks st st1" .
  then show ?thesis
    using safe_from_assert_store [where 'v = 'v] assms(2) by (simp add: run_rand_small_def Let_def)
qed

lemma run_rand32_in:
  assumes "4 \<le> length (flow_var st)" and "unat (fv_flow_offset x) + 4 \<le> length (flow_var st)"
  shows "safe_from W st (run_rand32 sp x st)"
proof -
  from vm_rand32_in [OF assms(1), of sp] obtain r st1
    where "vm_rand32 sp st = Inr (r, st1)" "same_blocks st st1" .
  then show ?thesis
    using safe_from_assert_store [where 'v = 32] assms(2) by (simp add: run_rand32_def Let_def)
qed

lemma run_rand64_in:
  assumes "4 \<le> length (flow_var st)" and "unat (fv_flow_offset x) + 8 \<le> length (flow_var st)"
  shows "safe_from W st (run_rand64 sp x st)"
proof -
  from vm_rand64_in [OF assms(1), of sp] obtain r st1
    where "vm_rand64 sp st = Inr (r, st1)" "same_blocks st st1" .
  then show ?thesis
    using safe_from_assert_store [where 'v = 64] assms(2) by (simp add: run_rand64_def Let_def)
qed

lemma pkt_wr8_in:
  assumes "unat (pw_offset x) + 1 \<le> length (flow_var st)"
    and "unat (pw_pkt_offset x) + 1 \<le> W" and "W \<le> length (pkt st)"
  shows "safe_from W st (StreamDPOpPktWr8_wr x st)"
  using fv_load_in [of "pw_offset x" st, where 'v = 8] pkt_store_in [where 'v = 8] assms
  by (auto simp: StreamDPOpPktWr8_wr_def)

lemma pkt_wr_in:
  assumes "unat (pw_offset x) + LENGTH('v) div 8 \<le> length (flow_var st)"
    and "unat (pw_pkt_offset x) + LENGTH('v) div 8 \<le> W" and "W \<le> length (pkt st)"
  shows "safe_from W st (StreamDPOpPktWr_wr (x :: 'v::len word StreamDPOpPktWr) st)"
  using fv_load_in [of "pw_offset x" st, where 'v = 'v] pkt_store_in [where 'v = 'v] assms
  by (auto simp: StreamDPOpPktWr_wr_def)

lemma updateCheckSum_frame:
  assumes "updateCheckSum m ip = Some m'"
  shows "length m' = length m" and "ip + 12 \<le> W \<Longrightarrow> drop W m' = drop W m"
proof -
  from assms obtain m1 c where w: "mem_wr m (ip + 10) (0 :: u16) = Some m1"
    "mem_wr m1 (ip + 10) (c :: u16) = Some m'"
    by (auto simp: updateCheckSum_def split: option.splits)
  show "length m' = length m" using mem_wr_length [OF w(1)] mem_wr_length [OF w(2)] by simp
  show "drop W m' = drop W m" if "ip + 12 \<le> W"
    using mem_wr_take [OF w(1), of W] mem_wr_take [OF w(2), of W] that by simp
qed

lemma ipv4_fix_in:
  assumes "unat (if_offset x) + 12 \<le> W" and "W \<le> length (pkt st)"
  shows "safe_from W st (StreamDPOpIpv4Fix_run x st)"
  using assms updateCheckSum_frame [of "pkt st" "unat (if_offset x)"]
  by (auto simp: StreamDPOpIpv4Fix_run_def safe_from_def split: option.splits)

lemma client_update_in:
  assumes "unat ofs + 10 \<le> length (flow_var st)"
  shows "safe_from W st (client_update ofs f st)"
proof -
  obtain lp where lp: "client_load (flow_var st) (unat ofs) = Some lp"
    using assms by (simp add: client_load_def mem_rd_def)
  obtain fv1 where 1: "mem_wr (flow_var st) (unat ofs) (cur_ip (f lp)) = Some fv1"
    and len1: "length fv1 = length (flow_var st)"
    by (rule mem_wr_obtain [of "unat ofs" "flow_var st" "cur_ip (f lp)"]) (use assms in simp_all)
  obtain fv2 where 2: "mem_wr fv1 (unat ofs + 4) (cur_port (f lp)) = Some fv2"
    and len2: "length fv2 = length fv1"
    by (rule mem_wr_obtain [of "unat ofs + 4" fv1 "cur_port (f lp)"]) (use assms len1 in simp_all)
  obtain fv3 where 3: "mem_wr fv2 (unat ofs + 6) (cur_flow_id (f lp)) = Some fv3"
    and len3: "length fv3 = length fv2"
    by (rule mem_wr_obtain [of "unat ofs + 6" fv2 "cur_flow_id (f lp)"])
      (use assms len1 len2 in simp_all)
  have "client_store (flow_var st) (unat ofs) (f lp) = Some fv3"
    using 1 2 3 by (simp add: client_store_def)
  then show ?thesis
    using lp len1 len2 len3 by (simp add: client_update_def safe_from_def)
qed

lemma dp_exec_safe:
  assumes "wf_instr i" and "instr_fits (length (flow_var st)) W i" and "W \<le> length (pkt st)"
  shows "safe_from W st (dp_exec sp i st)"
  using assms
  by (cases i)
    (auto simp: dp_exec_def wf_instr_def instr_fits_def uses_random_def
      StreamDPOpClientsLimit_run_def StreamDPOpClientsUnLimit_run_def
      intro: run_inc_in run_dec_in run_rand_small_in run_rand32_in run_rand64_in
        pkt_wr8_in pkt_wr_in ipv4_fix_in client_update_in)

lemma foldE_exec_safe:
  assumes "list_all wf_instr is" and "list_all (instr_fits (length (flow_var st)) W) is"
    and "W \<le> length (pkt st)"
  shows "safe_from W st (foldE (\<lambda>s i. dp_exec sp i s) st is)"
  using assms
proof (induction "is" arbitrary: st)
  case Nil
  then show ?case by (simp add: safe_from_def)
next
  case (Cons i "is")
  have "safe_from W st (dp_exec sp i st)" using Cons.prems by (intro dp_exec_safe) auto
  then show ?case
    using Cons by (auto intro!: safe_from_bind)
qed

end
