(* ===== verification/Stream_Vm_Compile.thy ===== *)
theory Stream_Vm_Compile
  imports Stream_Vm_Dp
begin

text \<open>
  The control-plane half of the field engine: the instruction objects of
  \<open>trex_stream_vm.h\<close> and \<open>StreamVm::compile\<close> of \<open>trex_stream_vm.cpp\<close> with the passes it runs
  (\<open>build_flow_var_table\<close>, \<open>build_bss\<close>, \<open>build_program\<close>), the writable-prefix computation
  \<open>calc_writable_mbuf_size\<close> of \<open>trex_stream.h\<close>, and the object handed to the data path.

  \<open>StreamVm::err\<close> throws; the exception carries the instruction number and the offending value
  and is a value of \<open>vm_err\<close> here.  Instructions are held by value, so a pointer to an
  instruction of the program is its index.  The C library's \<open>rand()\<close>, which seeds the random
  block, is an argument.
\<close>

section \<open>Instruction objects\<close>

datatype flow_var_op_e = FLOW_VAR_OP_INC | FLOW_VAR_OP_DEC | FLOW_VAR_OP_RANDOM

record StreamVmInstructionFixChecksumIpv4 =
  fx_pkt_offset :: u16

record StreamVmInstructionFlowMan =
  fm_var_name :: string
  fm_size_bytes :: u8
  fm_op :: flow_var_op_e
  fm_init_value :: u64
  fm_min_value :: u64
  fm_max_value :: u64

record StreamVmInstructionFlowClient =
  fc_var_name :: string
  fc_client_min :: u32
  fc_client_max :: u32
  fc_port_min :: u16
  fc_port_max :: u16
  fc_limit_num_flows :: u32
  fc_flags :: u16

record StreamVmInstructionWriteToPkt =
  wp_flow_var_name :: string
  wp_pkt_offset :: u16
  wp_add_value :: "32 word"
  wp_is_big_endian :: bool

datatype StreamVmInstruction =
    itFIX_IPV4_CS StreamVmInstructionFixChecksumIpv4
  | itFLOW_MAN StreamVmInstructionFlowMan
  | itPKT_WR StreamVmInstructionWriteToPkt
  | itFLOW_CLIENT StreamVmInstructionFlowClient

text \<open>The value before the first one, because the program runs before the packet is written.\<close>

definition get_bss_init_value :: "StreamVmInstructionFlowMan \<Rightarrow> u64" where
  "get_bss_init_value i = (case fm_op i of
       FLOW_VAR_OP_INC \<Rightarrow>
         (if fm_init_value i = fm_min_value i then fm_max_value i else fm_init_value i - 1)
     | FLOW_VAR_OP_DEC \<Rightarrow>
         (if fm_init_value i = fm_max_value i then fm_min_value i else fm_init_value i + 1)
     | FLOW_VAR_OP_RANDOM \<Rightarrow> fm_init_value i)"

definition fm_get_splitable_range :: "StreamVmInstructionFlowMan \<Rightarrow> u64" where
  "fm_get_splitable_range i = fm_max_value i - fm_min_value i + 1"

definition fc_get_ip_range :: "StreamVmInstructionFlowClient \<Rightarrow> u32" where
  "fc_get_ip_range i = fc_client_max i - fc_client_min i + 1"

definition CLIENT_F_UNLIMITED_FLOWS :: u16 where
  "CLIENT_F_UNLIMITED_FLOWS = 1"

definition is_unlimited_flows :: "StreamVmInstructionFlowClient \<Rightarrow> bool" where
  "is_unlimited_flows i \<longleftrightarrow> fc_flags i AND CLIENT_F_UNLIMITED_FLOWS = CLIENT_F_UNLIMITED_FLOWS"

definition get_flow_var_size :: u16 where
  "get_flow_var_size = 4 + 2 + 4"

section \<open>The program under construction\<close>

datatype vm_err =
    ErrSize nat u8
  | ErrOp nat flow_var_op_e
  | ErrVarExists nat string
  | ErrClientExists nat string
  | ErrTooManyVars u16
  | ErrFixOffset nat u16 u16
  | ErrNoVar nat string
  | ErrPktOffset nat nat u16
  | ErrMaxOffset u16
  | ErrAssert

record VmFlowVarRec =
  vr_offset :: u32
  vr_size_bytes :: u8

record StreamVm =
  vm_is_random_var :: bool
  vm_is_compiled :: bool
  vm_prefix_size :: u16
  vm_pkt_size :: u16
  vm_cur_var_offset :: u16
  vm_max_field_update :: u16
  vm_inst_list :: "StreamVmInstruction list"
  vm_flow_var_offset :: "string \<rightharpoonup> VmFlowVarRec"
  vm_bss :: "mem option"
  vm_instructions :: mem
  vm_split_instr :: "nat option"

definition svMAX_FLOW_VAR :: u16 where "svMAX_FLOW_VAR = 64"

definition svMAX_PACKET_OFFSET_CHANGE :: u16 where "svMAX_PACKET_OFFSET_CHANGE = 512"

definition IPV4_HDR_LEN :: nat where "IPV4_HDR_LEN = 20"

definition StreamVm_new :: StreamVm where
  "StreamVm_new = \<lparr>vm_is_random_var = False, vm_is_compiled = False, vm_prefix_size = 0,
     vm_pkt_size = 0, vm_cur_var_offset = 0, vm_max_field_update = 0, vm_inst_list = [],
     vm_flow_var_offset = Map.empty, vm_bss = None, vm_instructions = [], vm_split_instr = None\<rparr>"

definition add_instruction :: "StreamVm \<Rightarrow> StreamVmInstruction \<Rightarrow> StreamVm" where
  "add_instruction vm inst = vm\<lparr>vm_inst_list := vm_inst_list vm @ [inst]\<rparr>"

definition var_clear_table :: "StreamVm \<Rightarrow> StreamVm" where
  "var_clear_table vm = vm\<lparr>vm_flow_var_offset := Map.empty\<rparr>"

definition var_add :: "StreamVm \<Rightarrow> string \<Rightarrow> VmFlowVarRec \<Rightarrow> StreamVm" where
  "var_add vm name var = vm\<lparr>vm_flow_var_offset := (vm_flow_var_offset vm)(name \<mapsto> var)\<rparr>"

definition var_lookup :: "StreamVm \<Rightarrow> string \<Rightarrow> VmFlowVarRec option" where
  "var_lookup vm name = vm_flow_var_offset vm name"

definition get_var_offset :: "StreamVm \<Rightarrow> string \<Rightarrow> vm_err + u16" where
  "get_var_offset vm name =
     bindE (liftE ErrAssert (var_lookup vm name)) (\<lambda>var. Inr (ucast (vr_offset var)))"

definition sanity_check_valid_size :: "nat \<Rightarrow> StreamVmInstructionFlowMan \<Rightarrow> vm_err + unit" where
  "sanity_check_valid_size ins_id i =
     assertE (ErrSize ins_id (fm_size_bytes i)) (fm_size_bytes i \<in> {1, 2, 4, 8})"

definition sanity_check_valid_opt :: "nat \<Rightarrow> StreamVmInstructionFlowMan \<Rightarrow> vm_err + unit" where
  "sanity_check_valid_opt ins_id i =
     assertE (ErrOp ins_id (fm_op i))
       (fm_op i \<in> {FLOW_VAR_OP_INC, FLOW_VAR_OP_DEC, FLOW_VAR_OP_RANDOM})"

definition sanity_check :: "nat \<Rightarrow> StreamVmInstructionFlowMan \<Rightarrow> vm_err + unit" where
  "sanity_check ins_id i =
     bindE (sanity_check_valid_size ins_id i) (\<lambda>_. sanity_check_valid_opt ins_id i)"

section \<open>build_flow_var_table\<close>

definition is_random_inst :: "StreamVmInstruction \<Rightarrow> bool" where
  "is_random_inst inst = (case inst of itFLOW_MAN i \<Rightarrow> fm_op i = FLOW_VAR_OP_RANDOM | _ \<Rightarrow> False)"

definition random_var_name :: string where
  "random_var_name = ''___random___''"

text \<open>The first scan and the four octets reserved for the seed.\<close>

definition table_start :: "StreamVm \<Rightarrow> StreamVm" where
  "table_start vm =
     (let vm1 = (var_clear_table vm)\<lparr>vm_cur_var_offset := 0,
                  vm_is_random_var := list_ex is_random_inst (vm_inst_list vm)\<rparr>
      in if vm_is_random_var vm1
         then (var_add vm1 random_var_name \<lparr>vr_offset = ucast (vm_cur_var_offset vm1),
                 vr_size_bytes = 4\<rparr>)\<lparr>vm_cur_var_offset := vm_cur_var_offset vm1 + 4\<rparr>
         else vm1)"

definition table_flow_man ::
  "StreamVm \<Rightarrow> nat \<Rightarrow> StreamVmInstructionFlowMan \<Rightarrow> vm_err + StreamVm" where
  "table_flow_man vm ins_id i =
     bindE (sanity_check ins_id i) (\<lambda>_.
     case var_lookup vm (fm_var_name i) of
       Some _ \<Rightarrow> Inl (ErrVarExists ins_id (fm_var_name i))
     | None \<Rightarrow>
         Inr ((var_add vm (fm_var_name i) \<lparr>vr_offset = ucast (vm_cur_var_offset vm),
                 vr_size_bytes = fm_size_bytes i\<rparr>)
              \<lparr>vm_cur_var_offset := vm_cur_var_offset vm + ucast (fm_size_bytes i)\<rparr>))"

definition table_flow_client ::
  "StreamVm \<Rightarrow> nat \<Rightarrow> StreamVmInstructionFlowClient \<Rightarrow> vm_err + StreamVm" where
  "table_flow_client vm ins_id i =
     (let name = fc_var_name i; cur = ucast (vm_cur_var_offset vm) in
      if var_lookup vm (name @ ''.ip'') \<noteq> None \<or> var_lookup vm (name @ ''.port'') \<noteq> None \<or>
         var_lookup vm (name @ ''.flow_limit'') \<noteq> None
      then Inl (ErrClientExists ins_id name)
      else
        let vm1 = var_add vm (name @ ''.ip'') \<lparr>vr_offset = cur, vr_size_bytes = 4\<rparr>;
            vm2 = var_add vm1 (name @ ''.port'') \<lparr>vr_offset = cur + 4, vr_size_bytes = 2\<rparr>;
            vm3 = var_add vm2 (name @ ''.flow_limit'') \<lparr>vr_offset = cur + 6, vr_size_bytes = 4\<rparr>
        in Inr (vm3\<lparr>vm_cur_var_offset := vm_cur_var_offset vm3 + get_flow_var_size\<rparr>))"

definition table_step :: "StreamVm \<times> nat \<Rightarrow> StreamVmInstruction \<Rightarrow> vm_err + (StreamVm \<times> nat)" where
  "table_step = (\<lambda>(vm, ins_id) inst.
     bindE (case inst of
         itFLOW_MAN i \<Rightarrow> table_flow_man vm ins_id i
       | itFLOW_CLIENT i \<Rightarrow> table_flow_client vm ins_id i
       | _ \<Rightarrow> Inr vm) (\<lambda>vm'.
     if vm_cur_var_offset vm' > svMAX_FLOW_VAR
     then Inl (ErrTooManyVars (vm_cur_var_offset vm'))
     else Inr (vm', Suc ins_id)))"

definition build_flow_var_table :: "StreamVm \<Rightarrow> vm_err + StreamVm" where
  "build_flow_var_table vm =
     bindE (foldE table_step (table_start vm, 0) (vm_inst_list vm)) (\<lambda>(vm', _). Inr vm')"

section \<open>build_bss\<close>

text \<open>
  The block is allocated and then written field after field through a moving pointer.  A write
  outside the block would be undefined behaviour and is \<open>ErrAssert\<close>.
\<close>

definition bss_put :: "mem \<times> nat \<Rightarrow> 'a::len word \<Rightarrow> vm_err + (mem \<times> nat)" where
  "bss_put = (\<lambda>(bss, p) w.
     bindE (liftE ErrAssert (mem_wr bss p w)) (\<lambda>bss'. Inr (bss', p + LENGTH('a) div 8)))"

definition bss_flow_man :: "mem \<times> nat \<Rightarrow> StreamVmInstructionFlowMan \<Rightarrow> vm_err + (mem \<times> nat)" where
  "bss_flow_man s i =
     (let v = get_bss_init_value i in
      if fm_size_bytes i = 1 then bss_put s (ucast v :: u8)
      else if fm_size_bytes i = 2 then bss_put s (ucast v :: u16)
      else if fm_size_bytes i = 4 then bss_put s (ucast v :: u32)
      else if fm_size_bytes i = 8 then bss_put s v
      else Inl ErrAssert)"

definition bss_flow_client ::
  "mem \<times> nat \<Rightarrow> StreamVmInstructionFlowClient \<Rightarrow> vm_err + (mem \<times> nat)" where
  "bss_flow_client s i =
     bindE (bss_put s (if fc_client_min i > 0 then fc_client_min i - 1 else fc_client_min i)) (\<lambda>s1.
     bindE (bss_put s1 (if is_unlimited_flows i then CLIENT_UNLIMITED_MIN_PORT
                        else fc_port_min i)) (\<lambda>s2.
     bss_put s2 (0 :: u32)))"

definition bss_step :: "mem \<times> nat \<Rightarrow> StreamVmInstruction \<Rightarrow> vm_err + (mem \<times> nat)" where
  "bss_step s inst = (case inst of
       itFLOW_MAN i \<Rightarrow> bss_flow_man s i
     | itFLOW_CLIENT i \<Rightarrow> bss_flow_client s i
     | _ \<Rightarrow> Inr s)"

definition build_bss :: "u32 \<Rightarrow> StreamVm \<Rightarrow> vm_err + StreamVm" where
  "build_bss rand vm =
     bindE (if vm_is_random_var vm
            then bss_put (replicate (unat (vm_cur_var_offset vm)) 0, 0) rand
            else Inr (replicate (unat (vm_cur_var_offset vm)) 0, 0)) (\<lambda>s.
     bindE (foldE bss_step s (vm_inst_list vm)) (\<lambda>(bss, _).
     Inr (vm\<lparr>vm_bss := Some bss\<rparr>)))"

section \<open>build_program\<close>

definition add_command :: "StreamVm \<Rightarrow> dp_instr \<Rightarrow> StreamVm" where
  "add_command vm cmd = vm\<lparr>vm_instructions := vm_instructions vm @ dp_enc cmd\<rparr>"

definition clean_max_field_cnt :: "StreamVm \<Rightarrow> StreamVm" where
  "clean_max_field_cnt vm = vm\<lparr>vm_max_field_update := 0\<rparr>"

definition add_field_cnt :: "StreamVm \<Rightarrow> u16 \<Rightarrow> StreamVm" where
  "add_field_cnt vm new_cnt =
     (if new_cnt > vm_max_field_update vm then vm\<lparr>vm_max_field_update := new_cnt\<rparr> else vm)"

definition program_fix ::
  "StreamVm \<Rightarrow> nat \<Rightarrow> StreamVmInstructionFixChecksumIpv4 \<Rightarrow> vm_err + StreamVm" where
  "program_fix vm ins_id i =
     (let vm1 = add_field_cnt vm (fx_pkt_offset i + 12) in
      if unat (fx_pkt_offset i) + IPV4_HDR_LEN > unat (vm_pkt_size vm1)
      then Inl (ErrFixOffset ins_id (fx_pkt_offset i) (vm_pkt_size vm1))
      else Inr (add_command vm1
                 (OpIpv4Fix \<lparr>if_op = ditFIX_IPV4_CS, if_offset = fx_pkt_offset i\<rparr>)))"

text \<open>The opcode of a flow variable, by width and operation.\<close>

definition flow_man_opcode :: "flow_var_op_e \<Rightarrow> u8 \<Rightarrow> u8 \<Rightarrow> u8 \<Rightarrow> u8" where
  "flow_man_opcode op inc dec rop = (case op of
       FLOW_VAR_OP_INC \<Rightarrow> inc | FLOW_VAR_OP_DEC \<Rightarrow> dec | FLOW_VAR_OP_RANDOM \<Rightarrow> rop)"

text \<open>The command a flow variable, a packet write and a client turn into.\<close>

definition flow_man_cmd :: "StreamVmInstructionFlowMan \<Rightarrow> u8 \<Rightarrow> dp_instr" where
  "flow_man_cmd i ofs =
     (if fm_size_bytes i = 1 then
        OpV8 \<lparr>fv_op = flow_man_opcode (fm_op i) ditINC8 ditDEC8 ditRANDOM8, fv_flow_offset = ofs,
          fv_min_val = ucast (fm_min_value i), fv_max_val = ucast (fm_max_value i)\<rparr>
      else if fm_size_bytes i = 2 then
        OpV16 \<lparr>fv_op = flow_man_opcode (fm_op i) ditINC16 ditDEC16 ditRANDOM16, fv_flow_offset = ofs,
          fv_min_val = ucast (fm_min_value i), fv_max_val = ucast (fm_max_value i)\<rparr>
      else if fm_size_bytes i = 4 then
        OpV32 \<lparr>fv_op = flow_man_opcode (fm_op i) ditINC32 ditDEC32 ditRANDOM32, fv_flow_offset = ofs,
          fv_min_val = ucast (fm_min_value i), fv_max_val = ucast (fm_max_value i)\<rparr>
      else
        OpV64 \<lparr>fv_op = flow_man_opcode (fm_op i) ditINC64 ditDEC64 ditRANDOM64, fv_flow_offset = ofs,
          fv_min_val = fm_min_value i, fv_max_val = fm_max_value i\<rparr>)"

definition program_flow_man :: "StreamVm \<Rightarrow> StreamVmInstructionFlowMan \<Rightarrow> vm_err + StreamVm" where
  "program_flow_man vm i =
     (if fm_size_bytes i \<notin> {1, 2, 4, 8} then Inr vm else
      bindE (get_var_offset vm (fm_var_name i)) (\<lambda>ofs.
      Inr (add_command vm (flow_man_cmd i (ucast ofs)))))"

definition pkt_wr_cmd :: "StreamVmInstructionWriteToPkt \<Rightarrow> u8 \<Rightarrow> u8 \<Rightarrow> dp_instr" where
  "pkt_wr_cmd i sz ofs =
     (let flags = (if wp_is_big_endian i then PKT_WR_IS_BIG else 0) in
      if sz = 1 then
        OpW8 \<lparr>pw_op = itPKT_WR8, pw_flags = flags, pw_offset = ofs,
          pw_pkt_offset = wp_pkt_offset i, pw_val_offset = ucast (wp_add_value i)\<rparr>
      else if sz = 2 then
        OpW16 \<lparr>pw_op = itPKT_WR16, pw_flags = flags, pw_offset = ofs,
          pw_pkt_offset = wp_pkt_offset i, pw_val_offset = ucast (wp_add_value i)\<rparr>
      else if sz = 4 then
        OpW32 \<lparr>pw_op = itPKT_WR32, pw_flags = flags, pw_offset = ofs,
          pw_pkt_offset = wp_pkt_offset i, pw_val_offset = wp_add_value i\<rparr>
      else
        OpW64 \<lparr>pw_op = itPKT_WR64, pw_flags = flags, pw_offset = ofs,
          pw_pkt_offset = wp_pkt_offset i, pw_val_offset = scast (wp_add_value i)\<rparr>)"

definition program_pkt_wr ::
  "StreamVm \<Rightarrow> nat \<Rightarrow> StreamVmInstructionWriteToPkt \<Rightarrow> vm_err + StreamVm" where
  "program_pkt_wr vm ins_id i =
     bindE (liftE (ErrNoVar ins_id (wp_flow_var_name i)) (var_lookup vm (wp_flow_var_name i))) (\<lambda>var.
     let fin = unat (wp_pkt_offset i) + unat (vr_size_bytes var) in
     if fin > unat (vm_pkt_size vm) then Inl (ErrPktOffset ins_id fin (vm_pkt_size vm))
     else
       let vm1 = add_field_cnt vm (wp_pkt_offset i + ucast (vr_size_bytes var)) in
       bindE (get_var_offset vm1 (wp_flow_var_name i)) (\<lambda>ofs.
       if vr_size_bytes var \<notin> {1, 2, 4, 8} then Inr vm1
       else Inr (add_command vm1 (pkt_wr_cmd i (vr_size_bytes var) (ucast ofs)))))"

definition client_cmd :: "StreamVmInstructionFlowClient \<Rightarrow> u8 \<Rightarrow> dp_instr" where
  "client_cmd i ofs =
     (if is_unlimited_flows i then
        OpClu \<lparr>cu_op = itCLIENT_VAR_UNLIMIT, cu_flow_offset = ofs,
          cu_flags = 0, cu_pad = 0, cu_min_ip = fc_client_min i, cu_max_ip = fc_client_max i\<rparr>
      else
        OpCl \<lparr>cl_op = itCLIENT_VAR, cl_flow_offset = ofs,
          cl_flags = 0, cl_pad = 0, cl_min_port = fc_port_min i, cl_max_port = fc_port_max i,
          cl_min_ip = fc_client_min i, cl_max_ip = fc_client_max i,
          cl_limit_flows = fc_limit_num_flows i\<rparr>)"

definition program_flow_client ::
  "StreamVm \<Rightarrow> StreamVmInstructionFlowClient \<Rightarrow> vm_err + StreamVm" where
  "program_flow_client vm i =
     bindE (get_var_offset vm (fc_var_name i @ ''.ip'')) (\<lambda>ofs.
     Inr (add_command vm (client_cmd i (ucast ofs))))"

definition program_step :: "StreamVm \<times> nat \<Rightarrow> StreamVmInstruction \<Rightarrow> vm_err + (StreamVm \<times> nat)" where
  "program_step = (\<lambda>(vm, ins_id) inst.
     bindE (case inst of
         itFIX_IPV4_CS i \<Rightarrow> program_fix vm ins_id i
       | itFLOW_MAN i \<Rightarrow> program_flow_man vm i
       | itPKT_WR i \<Rightarrow> program_pkt_wr vm ins_id i
       | itFLOW_CLIENT i \<Rightarrow> program_flow_client vm i) (\<lambda>vm'.
     Inr (vm', Suc ins_id)))"

definition build_program :: "StreamVm \<Rightarrow> vm_err + StreamVm" where
  "build_program vm =
     bindE (foldE program_step (clean_max_field_cnt (vm\<lparr>vm_instructions := []\<rparr>), 0)
              (vm_inst_list vm)) (\<lambda>(vm', _). Inr vm')"

section \<open>compile and the data-path object\<close>

definition calc_writable_mbuf_size :: "u16 \<Rightarrow> u16 \<Rightarrow> u16" where
  "calc_writable_mbuf_size max_offset_writable pkt_size =
     (if pkt_size \<le> 64 then pkt_size
      else if pkt_size \<le> 128 then pkt_size
      else let non_writable = pkt_size - (max_offset_writable - 1)
           in if non_writable < 64 then pkt_size else max_offset_writable - 1)"

definition is_vm_empty :: "StreamVm \<Rightarrow> bool" where
  "is_vm_empty vm \<longleftrightarrow> length (vm_inst_list vm) = 0"

definition compile :: "u32 \<Rightarrow> StreamVm \<Rightarrow> u16 \<Rightarrow> vm_err + StreamVm" where
  "compile rand vm pkt_len =
     (if is_vm_empty vm then Inr vm
      else
        bindE (build_flow_var_table (vm\<lparr>vm_pkt_size := pkt_len\<rparr>)) (\<lambda>vm1.
        bindE (build_bss rand vm1) (\<lambda>vm2.
        bindE (build_program vm2) (\<lambda>vm3.
        if vm_max_field_update vm3 > svMAX_PACKET_OFFSET_CHANGE
        then Inl (ErrMaxOffset (vm_max_field_update vm3))
        else Inr (vm3\<lparr>vm_prefix_size :=
                        calc_writable_mbuf_size (vm_max_field_update vm3) (vm_pkt_size vm3),
                      vm_is_compiled := True\<rparr>)))))"

record StreamVmDp =
  dp_bss :: "mem option"
  dp_bss_size :: u16
  dp_program :: "mem option"
  dp_program_size :: u16
  dp_max_pkt_offset_change :: u16
  dp_prefix_size :: u16

text \<open>
  The constructor copies the block and the program; a non-null pointer with a zero size fails
  its \<open>assert\<close>.  \<open>malloc(0)\<close> of the C library returns a non-null pointer, so a compiled program
  always has a block, possibly an empty one.
\<close>

definition StreamVmDp_new :: "mem option \<Rightarrow> u16 \<Rightarrow> mem option \<Rightarrow> u16 \<Rightarrow> u16 \<Rightarrow> u16 \<Rightarrow> vm_err + StreamVmDp" where
  "StreamVmDp_new bss bss_size prog prog_size max_pkt_offset prefix_size =
     bindE (assertE ErrAssert (bss \<noteq> None \<longrightarrow> bss_size \<noteq> 0)) (\<lambda>_.
     bindE (assertE ErrAssert (prog \<noteq> None \<longrightarrow> prog_size \<noteq> 0)) (\<lambda>_.
     Inr \<lparr>dp_bss = map_option (take (unat bss_size)) bss,
          dp_bss_size = (if bss = None then 0 else bss_size),
          dp_program = map_option (take (unat prog_size)) prog,
          dp_program_size = (if prog = None then 0 else prog_size),
          dp_max_pkt_offset_change = max_pkt_offset, dp_prefix_size = prefix_size\<rparr>))"

definition generate_dp_object :: "StreamVm \<Rightarrow> vm_err + StreamVmDp option" where
  "generate_dp_object vm =
     (if \<not> vm_is_compiled vm then Inr None
      else bindE (StreamVmDp_new (vm_bss vm) (vm_cur_var_offset vm) (Some (vm_instructions vm))
                    (of_nat (length (vm_instructions vm))) (vm_max_field_update vm)
                    (vm_prefix_size vm)) (\<lambda>dp. Inr (Some dp)))"

section \<open>The flow-variable table\<close>

definition var_fits :: "nat \<Rightarrow> VmFlowVarRec \<Rightarrow> bool" where
  "var_fits cur r \<longleftrightarrow> unat (vr_offset r) + unat (vr_size_bytes r) \<le> cur \<and>
     vr_size_bytes r \<in> {1, 2, 4, 8}"

definition var_disjoint :: "VmFlowVarRec \<Rightarrow> VmFlowVarRec \<Rightarrow> bool" where
  "var_disjoint r s \<longleftrightarrow> unat (vr_offset r) + unat (vr_size_bytes r) \<le> unat (vr_offset s) \<or>
     unat (vr_offset s) + unat (vr_size_bytes s) \<le> unat (vr_offset r)"

definition table_wf :: "StreamVm \<Rightarrow> bool" where
  "table_wf vm \<longleftrightarrow> unat (vm_cur_var_offset vm) \<le> 64 \<and>
     (\<forall>n r. vm_flow_var_offset vm n = Some r \<longrightarrow> var_fits (unat (vm_cur_var_offset vm)) r) \<and>
     (\<forall>n m r s. vm_flow_var_offset vm n = Some r \<longrightarrow> vm_flow_var_offset vm m = Some s \<longrightarrow>
        n \<noteq> m \<longrightarrow> var_disjoint r s)"

text \<open>Appending a variable at the current offset keeps the table well formed.\<close>

lemma table_wf_add:
  assumes wf: "table_wf vm" and fresh: "vm_flow_var_offset vm n = None"
    and r: "unat (vr_offset r) = unat (vm_cur_var_offset vm)" "vr_size_bytes r \<in> {1, 2, 4, 8}"
    and cur: "unat cur' = unat (vm_cur_var_offset vm) + unat (vr_size_bytes r)" "unat cur' \<le> 64"
  shows "table_wf ((var_add vm n r)\<lparr>vm_cur_var_offset := cur'\<rparr>)"
proof -
  have fits: "var_fits (unat cur') s" if "vm_flow_var_offset vm m = Some s" for m s
    using that wf cur by (fastforce simp: table_wf_def var_fits_def)
  have disj: "var_disjoint s r" "var_disjoint r s" if "vm_flow_var_offset vm m = Some s" for m s
    using that wf r by (fastforce simp: table_wf_def var_fits_def var_disjoint_def)+
  show ?thesis
    unfolding table_wf_def
  proof (intro conjI allI impI)
    fix n' s
    assume "vm_flow_var_offset ((var_add vm n r)\<lparr>vm_cur_var_offset := cur'\<rparr>) n' = Some s"
    then show "var_fits (unat (vm_cur_var_offset ((var_add vm n r)\<lparr>vm_cur_var_offset := cur'\<rparr>))) s"
      using fits r cur by (auto simp: var_add_def var_fits_def split: if_splits)
  next
    fix a b s t
    assume "vm_flow_var_offset ((var_add vm n r)\<lparr>vm_cur_var_offset := cur'\<rparr>) a = Some s"
      and "vm_flow_var_offset ((var_add vm n r)\<lparr>vm_cur_var_offset := cur'\<rparr>) b = Some t"
      and "a \<noteq> b"
    then show "var_disjoint s t"
      using wf disj by (auto simp: var_add_def table_wf_def split: if_splits)
  qed (use cur in simp)
qed

text \<open>What the table records about the instructions scanned so far.\<close>

definition var_of_inst :: "StreamVm \<Rightarrow> StreamVmInstruction \<Rightarrow> bool" where
  "var_of_inst vm inst = (case inst of
       itFLOW_MAN i \<Rightarrow> fm_size_bytes i \<in> {1, 2, 4, 8} \<and>
         (\<exists>r. vm_flow_var_offset vm (fm_var_name i) = Some r \<and> vr_size_bytes r = fm_size_bytes i)
     | itFLOW_CLIENT i \<Rightarrow> (\<exists>r s t.
         vm_flow_var_offset vm (fc_var_name i @ ''.ip'') = Some r \<and> vr_size_bytes r = 4 \<and>
         vm_flow_var_offset vm (fc_var_name i @ ''.port'') = Some s \<and> vr_size_bytes s = 2 \<and>
         unat (vr_offset s) = unat (vr_offset r) + 4 \<and>
         vm_flow_var_offset vm (fc_var_name i @ ''.flow_limit'') = Some t \<and> vr_size_bytes t = 4 \<and>
         unat (vr_offset t) = unat (vr_offset r) + 6)
     | _ \<Rightarrow> True)"

definition table_inv :: "StreamVm \<Rightarrow> StreamVmInstruction list \<Rightarrow> bool" where
  "table_inv vm don \<longleftrightarrow> table_wf vm \<and> list_all (var_of_inst vm) don \<and>
     (vm_is_random_var vm \<longrightarrow>
       vm_flow_var_offset vm random_var_name = Some \<lparr>vr_offset = 0, vr_size_bytes = 4\<rparr>)"

lemma var_of_inst_mono:
  assumes "vm_flow_var_offset vm \<subseteq>\<^sub>m vm_flow_var_offset vm'" and "var_of_inst vm inst"
  shows "var_of_inst vm' inst"
proof (cases inst)
  case (itFLOW_CLIENT i)
  with assms(2) obtain r s t where
    "vm_flow_var_offset vm (fc_var_name i @ ''.ip'') = Some r" "vr_size_bytes r = 4"
    "vm_flow_var_offset vm (fc_var_name i @ ''.port'') = Some s" "vr_size_bytes s = 2"
    "unat (vr_offset s) = unat (vr_offset r) + 4"
    "vm_flow_var_offset vm (fc_var_name i @ ''.flow_limit'') = Some t" "vr_size_bytes t = 4"
    "unat (vr_offset t) = unat (vr_offset r) + 6"
    by (auto simp: var_of_inst_def)
  with assms(1) itFLOW_CLIENT show ?thesis
    by (auto simp: var_of_inst_def map_le_def dom_def)
qed (use assms in \<open>auto simp: var_of_inst_def map_le_def dom_def\<close>)

text \<open>Fields the table pass leaves alone.\<close>

definition same_source :: "StreamVm \<Rightarrow> StreamVm \<Rightarrow> bool" where
  "same_source vm vm' \<longleftrightarrow> vm_inst_list vm' = vm_inst_list vm \<and> vm_pkt_size vm' = vm_pkt_size vm \<and>
     vm_is_random_var vm' = vm_is_random_var vm \<and> vm_split_instr vm' = vm_split_instr vm"

lemma small_size:
  "s \<in> {1, 2, 4, 8} \<Longrightarrow> unat (s :: u8) \<in> {1, 2, 4, 8}"
  by auto

lemma cur_add:
  assumes "unat (c :: u16) \<le> 64" and "unat d \<le> 64"
  shows "unat (c + d) = unat c + unat d"
  by (rule unat_add_lem [THEN iffD1]) (use assms in simp)

lemma table_flow_man_keeps:
  assumes inv: "table_inv vm don" and ok: "table_flow_man vm n i = Inr vm'"
    and le: "vm_cur_var_offset vm' \<le> 64"
  shows "table_inv vm' (don @ [itFLOW_MAN i])" and "same_source vm vm'"
proof -
  from ok have size: "fm_size_bytes i \<in> {1, 2, 4, 8}"
    and fresh: "vm_flow_var_offset vm (fm_var_name i) = None"
    and vm': "vm' = (var_add vm (fm_var_name i) \<lparr>vr_offset = ucast (vm_cur_var_offset vm),
                 vr_size_bytes = fm_size_bytes i\<rparr>)
              \<lparr>vm_cur_var_offset := vm_cur_var_offset vm + ucast (fm_size_bytes i)\<rparr>"
    by (auto simp: table_flow_man_def sanity_check_def sanity_check_valid_size_def assertE_def
        bindE_simps var_lookup_def split: if_splits option.splits)
  have wf: "table_wf vm" and cur: "unat (vm_cur_var_offset vm) \<le> 64"
    using inv by (auto simp: table_inv_def table_wf_def)
  have sum: "unat (vm_cur_var_offset vm + ucast (fm_size_bytes i))
      = unat (vm_cur_var_offset vm) + unat (fm_size_bytes i)"
    using cur_add [OF cur, of "ucast (fm_size_bytes i)"] small_size [OF size]
    by (auto simp: unat_ucast_widen)
  have "table_wf vm'"
    unfolding vm'
    by (rule table_wf_add [OF wf fresh])
      (use size sum le vm' in \<open>auto simp: unat_ucast_widen word_le_nat_alt\<close>)
  moreover have mono: "vm_flow_var_offset vm \<subseteq>\<^sub>m vm_flow_var_offset vm'"
    using fresh by (auto simp: vm' var_add_def map_le_def)
  moreover have "var_of_inst vm' (itFLOW_MAN i)"
    using size by (simp add: var_of_inst_def vm' var_add_def)
  ultimately show "table_inv vm' (don @ [itFLOW_MAN i])"
    using inv var_of_inst_mono [OF mono]
    by (auto simp: table_inv_def list_all_iff vm' var_add_def map_le_def fresh split: if_splits)
  show "same_source vm vm'" by (simp add: same_source_def vm' var_add_def)
qed


lemma table_flow_client_keeps:
  assumes inv: "table_inv vm don" and ok: "table_flow_client vm n i = Inr vm'"
    and le: "vm_cur_var_offset vm' \<le> 64"
  shows "table_inv vm' (don @ [itFLOW_CLIENT i])" and "same_source vm vm'"
proof -
  let ?n = "fc_var_name i" and ?c = "vm_cur_var_offset vm"
  let ?r = "\<lparr>vr_offset = ucast ?c, vr_size_bytes = 4\<rparr> :: VmFlowVarRec"
  let ?s = "\<lparr>vr_offset = ucast ?c + 4, vr_size_bytes = 2\<rparr> :: VmFlowVarRec"
  let ?t = "\<lparr>vr_offset = ucast ?c + 6, vr_size_bytes = 4\<rparr> :: VmFlowVarRec"
  from ok have fresh: "vm_flow_var_offset vm (?n @ ''.ip'') = None"
      "vm_flow_var_offset vm (?n @ ''.port'') = None"
      "vm_flow_var_offset vm (?n @ ''.flow_limit'') = None"
    and vm': "vm' = (var_add (var_add (var_add vm (?n @ ''.ip'') ?r) (?n @ ''.port'') ?s)
                (?n @ ''.flow_limit'') ?t)\<lparr>vm_cur_var_offset := ?c + 10\<rparr>"
    by (auto simp: table_flow_client_def Let_def var_lookup_def var_add_def get_flow_var_size_def
        split: if_splits)
  have wf: "table_wf vm" and cur: "unat ?c \<le> 64"
    using inv by (auto simp: table_inv_def table_wf_def)
  have sum: "unat (?c + 4) = unat ?c + 4" "unat (?c + 6) = unat ?c + 6"
      "unat (?c + 10) = unat ?c + 10"
    using cur_add [OF cur, of 4] cur_add [OF cur, of 6] cur_add [OF cur, of 10] by auto
  have ofs: "unat (ucast ?c + 4 :: u32) = unat ?c + 4" "unat (ucast ?c + 6 :: u32) = unat ?c + 6"
    using cur by (auto simp: unat_word_ariths unat_ucast_widen)
  have le10: "unat ?c + 10 \<le> 64" using le sum(3) by (simp add: vm' word_le_nat_alt)
  let ?v1 = "(var_add vm (?n @ ''.ip'') ?r)\<lparr>vm_cur_var_offset := ?c + 4\<rparr>"
  let ?v2 = "(var_add ?v1 (?n @ ''.port'') ?s)\<lparr>vm_cur_var_offset := ?c + 6\<rparr>"
  have "table_wf ?v1"
    by (rule table_wf_add [OF wf fresh(1)]) (use sum le10 in \<open>simp_all add: unat_ucast_widen\<close>)
  then have "table_wf ?v2"
    by (rule table_wf_add) (use sum le10 ofs fresh in \<open>simp_all add: var_add_def\<close>)
  then have "table_wf ((var_add ?v2 (?n @ ''.flow_limit'') ?t)\<lparr>vm_cur_var_offset := ?c + 10\<rparr>)"
    by (rule table_wf_add) (use sum le10 ofs fresh in \<open>simp_all add: var_add_def\<close>)
  then have "table_wf vm'" by (simp add: vm' var_add_def)
  moreover have mono: "vm_flow_var_offset vm \<subseteq>\<^sub>m vm_flow_var_offset vm'"
    using fresh by (auto simp: vm' var_add_def map_le_def)
  moreover have "var_of_inst vm' (itFLOW_CLIENT i)"
    using ofs by (simp add: var_of_inst_def vm' var_add_def unat_ucast_widen)
  ultimately show "table_inv vm' (don @ [itFLOW_CLIENT i])"
    using inv var_of_inst_mono [OF mono] map_le_implies_dom_le [OF mono]
    by (auto simp: table_inv_def list_all_iff vm' var_add_def map_le_def fresh split: if_splits)
  show "same_source vm vm'" by (simp add: same_source_def vm' var_add_def)
qed

lemma table_step_keeps:
  assumes inv: "table_inv vm don" and ok: "table_step (vm, n) inst = Inr (vm', n')"
  shows "table_inv vm' (don @ [inst]) \<and> same_source vm vm'"
proof -
  from ok have le: "vm_cur_var_offset vm' \<le> 64"
    by (auto simp: table_step_def bindE_simps svMAX_FLOW_VAR_def split: if_splits)
  show ?thesis
  proof (cases inst)
    case (itFLOW_MAN i)
    then have "table_flow_man vm n i = Inr vm'"
      using ok by (auto simp: table_step_def bindE_simps split: if_splits)
    with itFLOW_MAN le show ?thesis using table_flow_man_keeps [OF inv] by blast
  next
    case (itFLOW_CLIENT i)
    then have "table_flow_client vm n i = Inr vm'"
      using ok by (auto simp: table_step_def bindE_simps split: if_splits)
    with itFLOW_CLIENT le show ?thesis using table_flow_client_keeps [OF inv] by blast
  qed (use assms in \<open>auto simp: table_step_def bindE_simps table_inv_def var_of_inst_def
      same_source_def split: if_splits\<close>)
qed

lemma table_start_inv:
  "table_inv (table_start vm) []" "vm_inst_list (table_start vm) = vm_inst_list vm"
  "vm_pkt_size (table_start vm) = vm_pkt_size vm"
  "vm_is_random_var (table_start vm) \<longleftrightarrow> list_ex is_random_inst (vm_inst_list vm)"
  "vm_split_instr (table_start vm) = vm_split_instr vm"
  by (auto simp: table_start_def table_inv_def table_wf_def Let_def var_clear_table_def var_add_def
      var_fits_def split: if_splits)

section \<open>The flow-variable block\<close>

text \<open>The octets an instruction owns in the flow-variable block, with their initial contents.\<close>

definition inst_bytes :: "StreamVmInstruction \<Rightarrow> mem" where
  "inst_bytes inst = (case inst of
       itFLOW_MAN i \<Rightarrow> le_bytes (unat (fm_size_bytes i)) (get_bss_init_value i)
     | itFLOW_CLIENT i \<Rightarrow>
         le_bytes 4 (if fc_client_min i > 0 then fc_client_min i - 1 else fc_client_min i) @
         le_bytes 2 (if is_unlimited_flows i then CLIENT_UNLIMITED_MIN_PORT else fc_port_min i) @
         le_bytes 4 (0 :: u32)
     | _ \<Rightarrow> [])"

definition block_bytes :: "StreamVmInstruction list \<Rightarrow> mem" where
  "block_bytes is = concat (map inst_bytes is)"

definition valid_size :: "StreamVmInstruction \<Rightarrow> bool" where
  "valid_size inst = (case inst of itFLOW_MAN i \<Rightarrow> fm_size_bytes i \<in> {1, 2, 4, 8} | _ \<Rightarrow> True)"

lemma bss_put_at:
  assumes "p = length bs" and "LENGTH('a) div 8 \<le> k"
  shows "bss_put (bs @ replicate k 0, p) (w :: 'a::len word) =
    Inr ((bs @ le_bytes (LENGTH('a) div 8) w) @ replicate (k - LENGTH('a) div 8) 0,
      p + LENGTH('a) div 8)"
  using assms by (simp add: bss_put_def mem_wr_def liftE_def)

lemma bss_step_at:
  assumes "valid_size inst" and "length (inst_bytes inst) \<le> k"
  shows "bss_step (bs @ replicate k 0, length bs) inst =
    Inr ((bs @ inst_bytes inst) @ replicate (k - length (inst_bytes inst)) 0,
      length (bs @ inst_bytes inst))"
proof (cases inst)
  case (itFLOW_MAN i)
  then have "fm_size_bytes i \<in> {1, 2, 4, 8}" using assms(1) by (simp add: valid_size_def)
  then show ?thesis
    using itFLOW_MAN assms(2)
    by (auto simp: bss_step_def bss_flow_man_def inst_bytes_def bss_put_at le_bytes_ucast)
next
  case (itFLOW_CLIENT i)
  let ?a = "le_bytes 4 (if fc_client_min i > 0 then fc_client_min i - 1 else fc_client_min i)"
  let ?p = "if is_unlimited_flows i then CLIENT_UNLIMITED_MIN_PORT else fc_port_min i"
  have k: "10 \<le> k" using assms(2) itFLOW_CLIENT by (simp add: inst_bytes_def)
  have 2: "bss_put ((bs @ ?a) @ replicate (k - 4) 0, length bs + 4) ?p =
      Inr (((bs @ ?a) @ le_bytes 2 ?p) @ replicate (k - 4 - 2) 0, length bs + 4 + 2)"
    using bss_put_at [of "length bs + 4" "bs @ ?a" "k - 4" ?p] k by simp
  have 3: "bss_put (((bs @ ?a) @ le_bytes 2 ?p) @ replicate (k - 4 - 2) 0, length bs + 4 + 2) (0 :: u32)
     = Inr ((((bs @ ?a) @ le_bytes 2 ?p) @ le_bytes 4 (0 :: u32)) @ replicate (k - 4 - 2 - 4) 0,
         length bs + 4 + 2 + 4)"
    using bss_put_at [of "length bs + 4 + 2" "(bs @ ?a) @ le_bytes 2 ?p" "k - 4 - 2" "0 :: u32"] k
    by simp
  show ?thesis
    using bss_put_at [of "length bs" bs k "if fc_client_min i > 0 then fc_client_min i - 1
        else fc_client_min i"] 2 3 k itFLOW_CLIENT
    by (simp add: bss_step_def bss_flow_client_def inst_bytes_def del: append_assoc)
qed (simp_all add: bss_step_def inst_bytes_def)

lemma bss_fold:
  assumes "list_all valid_size is" and "length (block_bytes is) \<le> k"
  shows "foldE bss_step (bs @ replicate k 0, length bs) is =
    Inr ((bs @ block_bytes is) @ replicate (k - length (block_bytes is)) 0,
      length (bs @ block_bytes is))"
  using assms
proof (induction "is" arbitrary: bs k)
  case (Cons i "is")
  have "bss_step (bs @ replicate k 0, length bs) i =
    Inr ((bs @ inst_bytes i) @ replicate (k - length (inst_bytes i)) 0, length (bs @ inst_bytes i))"
    using Cons.prems by (intro bss_step_at) (auto simp: block_bytes_def)
  then show ?case
    using Cons.IH [of "k - length (inst_bytes i)" "bs @ inst_bytes i"] Cons.prems
    by (simp add: block_bytes_def)
qed (simp add: block_bytes_def)

definition seed_bytes :: "bool \<Rightarrow> u32 \<Rightarrow> mem" where
  "seed_bytes b rand = (if b then le_bytes 4 rand else [])"

lemma build_bss_bytes:
  assumes "list_all valid_size (vm_inst_list vm)"
    and "unat (vm_cur_var_offset vm) =
      length (seed_bytes (vm_is_random_var vm) rand @ block_bytes (vm_inst_list vm))"
  shows "build_bss rand vm =
    Inr (vm\<lparr>vm_bss := Some (seed_bytes (vm_is_random_var vm) rand @ block_bytes (vm_inst_list vm))\<rparr>)"
proof -
  let ?k = "length (block_bytes (vm_inst_list vm))"
  have "(if vm_is_random_var vm
         then bss_put (replicate (unat (vm_cur_var_offset vm)) 0, 0) rand
         else Inr (replicate (unat (vm_cur_var_offset vm)) 0, 0)) =
      Inr (seed_bytes (vm_is_random_var vm) rand @ replicate ?k 0,
        length (seed_bytes (vm_is_random_var vm) rand))"
    using bss_put_at [of 0 "[]" "unat (vm_cur_var_offset vm)" rand] assms(2)
    by (cases "vm_is_random_var vm") (simp_all add: seed_bytes_def)
  then show ?thesis
    using bss_fold [OF assms(1) order.refl] by (simp add: build_bss_def)
qed

text \<open>The table gives every instruction the place of its octets.\<close>

definition var_key :: "StreamVmInstruction \<Rightarrow> string option" where
  "var_key inst = (case inst of
       itFLOW_MAN i \<Rightarrow> Some (fm_var_name i)
     | itFLOW_CLIENT i \<Rightarrow> Some (fc_var_name i @ ''.ip'')
     | _ \<Rightarrow> None)"

definition table_layout :: "StreamVm \<Rightarrow> StreamVmInstruction list \<Rightarrow> bool" where
  "table_layout vm don \<longleftrightarrow>
     unat (vm_cur_var_offset vm) = (if vm_is_random_var vm then 4 else 0) + length (block_bytes don) \<and>
     (\<forall>xs inst ys name. don = xs @ inst # ys \<longrightarrow> var_key inst = Some name \<longrightarrow>
        (\<exists>r. vm_flow_var_offset vm name = Some r \<and> unat (vr_offset r) =
           (if vm_is_random_var vm then 4 else 0) + length (block_bytes xs)))"

lemma table_step_shape:
  assumes cur: "unat (vm_cur_var_offset vm) \<le> 64" and ok: "table_step (vm, n) inst = Inr (vm', n')"
  shows "vm_flow_var_offset vm \<subseteq>\<^sub>m vm_flow_var_offset vm' \<and> valid_size inst \<and>
    unat (vm_cur_var_offset vm') = unat (vm_cur_var_offset vm) + length (inst_bytes inst) \<and>
    (\<forall>name. var_key inst = Some name \<longrightarrow> (\<exists>r. vm_flow_var_offset vm' name = Some r \<and>
      unat (vr_offset r) = unat (vm_cur_var_offset vm)))"
proof (cases inst)
  case (itFLOW_MAN i)
  then have size: "fm_size_bytes i \<in> {1, 2, 4, 8}"
    and fresh: "vm_flow_var_offset vm (fm_var_name i) = None"
    and vm': "vm' = (var_add vm (fm_var_name i) \<lparr>vr_offset = ucast (vm_cur_var_offset vm),
                 vr_size_bytes = fm_size_bytes i\<rparr>)
              \<lparr>vm_cur_var_offset := vm_cur_var_offset vm + ucast (fm_size_bytes i)\<rparr>"
    using ok
    by (auto simp: table_step_def table_flow_man_def sanity_check_def sanity_check_valid_size_def
        assertE_def bindE_simps var_lookup_def split: if_splits option.splits)
  have "unat (vm_cur_var_offset vm + ucast (fm_size_bytes i))
      = unat (vm_cur_var_offset vm) + unat (fm_size_bytes i)"
    using cur_add [OF cur, of "ucast (fm_size_bytes i)"] small_size [OF size]
    by (auto simp: unat_ucast_widen)
  with itFLOW_MAN fresh size show ?thesis
    by (auto simp: vm' var_add_def map_le_def valid_size_def inst_bytes_def var_key_def
        unat_ucast_widen)
next
  case (itFLOW_CLIENT i)
  then show ?thesis
    using ok cur_add [OF cur, of 10]
    by (auto simp: table_step_def table_flow_client_def bindE_simps Let_def var_lookup_def
        var_add_def get_flow_var_size_def map_le_def valid_size_def inst_bytes_def var_key_def
        unat_ucast_widen split: if_splits)
qed (use ok in \<open>auto simp: table_step_def bindE_simps inst_bytes_def var_key_def valid_size_def
       split: if_splits\<close>)

lemma table_layout_step:
  assumes lay: "table_layout vm don" and cur: "unat (vm_cur_var_offset vm) \<le> 64"
    and rnd: "vm_is_random_var vm' = vm_is_random_var vm"
    and ok: "table_step (vm, n) inst = Inr (vm', n')"
  shows "table_layout vm' (don @ [inst])"
  unfolding table_layout_def
proof (intro conjI allI impI)
  show "unat (vm_cur_var_offset vm') =
      (if vm_is_random_var vm' then 4 else 0) + length (block_bytes (don @ [inst]))"
    using lay table_step_shape [OF cur ok] by (simp add: table_layout_def rnd block_bytes_def)
next
  fix xs j ys name
  assume split: "don @ [inst] = xs @ j # ys" and key: "var_key j = Some name"
  show "\<exists>r. vm_flow_var_offset vm' name = Some r \<and>
      unat (vr_offset r) = (if vm_is_random_var vm' then 4 else 0) + length (block_bytes xs)"
  proof (cases "ys = []")
    case True
    then show ?thesis
      using split key lay table_step_shape [OF cur ok] by (auto simp: table_layout_def rnd)
  next
    case False
    then obtain zs where "don = xs @ j # zs"
      using split by (cases ys rule: rev_cases) auto
    then obtain r where "vm_flow_var_offset vm name = Some r" "unat (vr_offset r) =
       (if vm_is_random_var vm then 4 else 0) + length (block_bytes xs)"
      using lay key unfolding table_layout_def by blast
    then show ?thesis
      using table_step_shape [OF cur ok] rnd by (auto simp: map_le_def dom_def)
  qed
qed

lemma table_start_layout: "table_layout (table_start vm) []"
  by (auto simp: table_layout_def table_start_def Let_def var_clear_table_def var_add_def
      block_bytes_def)

lemma build_flow_var_table_inv:
  assumes "build_flow_var_table vm = Inr vm'"
  shows "table_inv vm' (vm_inst_list vm)" and "table_layout vm' (vm_inst_list vm)"
    and "list_all valid_size (vm_inst_list vm)" and "same_source (table_start vm) vm'"
proof -
  from assms obtain n where f: "foldE table_step (table_start vm, 0) (vm_inst_list vm) = Inr (vm', n)"
    by (auto simp: build_flow_var_table_def bindE_simps)
  let ?P = "\<lambda>don s. table_inv (fst s) don \<and> table_layout (fst s) don \<and> list_all valid_size don \<and>
      same_source (table_start vm) (fst s)"
  have "?P (vm_inst_list vm) (vm', n)"
    using f
  proof (rule foldE_prefix_in [where P = ?P])
    show "?P [] (table_start vm, 0)"
      using table_start_inv(1) [of vm] by (simp add: same_source_def table_start_layout)
  next
    fix don inst s s'
    assume P: "?P don s" and "table_step s inst = Inr s'"
    then have step: "table_step (fst s, snd s) inst = Inr (fst s', snd s')" by simp
    have cur: "unat (vm_cur_var_offset (fst s)) \<le> 64"
      using P by (simp add: table_inv_def table_wf_def)
    have keeps: "table_inv (fst s') (don @ [inst]) \<and> same_source (fst s) (fst s')"
      using table_step_keeps [OF _ step] P by blast
    then have "table_layout (fst s') (don @ [inst])"
      using table_layout_step [OF _ cur _ step] P by (simp add: same_source_def)
    with keeps show "?P (don @ [inst]) s'"
      using table_step_shape [OF cur step] P by (simp add: same_source_def)
  qed
  then show "table_inv vm' (vm_inst_list vm)" and "table_layout vm' (vm_inst_list vm)"
    and "list_all valid_size (vm_inst_list vm)" and "same_source (table_start vm) vm'"
    by simp_all
qed


text \<open>The block pass cannot fail after the table pass, and lays the initial values out.\<close>

lemma build_bss_after_table:
  assumes "build_flow_var_table vm = Inr vm'"
  shows "build_bss rand vm' = Inr (vm'\<lparr>vm_bss := Some (seed_bytes (vm_is_random_var vm') rand @
           block_bytes (vm_inst_list vm))\<rparr>)"
proof -
  have list: "vm_inst_list vm' = vm_inst_list vm"
    using build_flow_var_table_inv(4) [OF assms] table_start_inv(2) [of vm]
    by (simp add: same_source_def)
  have "unat (vm_cur_var_offset vm') =
      length (seed_bytes (vm_is_random_var vm') rand @ block_bytes (vm_inst_list vm'))"
    using build_flow_var_table_inv(2) [OF assms]
    by (auto simp: list table_layout_def seed_bytes_def)
  then show ?thesis
    using build_bss_bytes [of vm' rand] build_flow_var_table_inv(3) [OF assms] list by simp
qed

section \<open>The program pass\<close>

lemma instr_fits_mono: "instr_fits B W i \<Longrightarrow> W \<le> W' \<Longrightarrow> instr_fits B W' i"
  by (cases i) (auto simp: instr_fits_def)

definition same_table :: "StreamVm \<Rightarrow> StreamVm \<Rightarrow> bool" where
  "same_table vm vm' \<longleftrightarrow> same_source vm vm' \<and> vm_flow_var_offset vm' = vm_flow_var_offset vm \<and>
     vm_cur_var_offset vm' = vm_cur_var_offset vm \<and> vm_bss vm' = vm_bss vm"

lemma table_inv_transfer:
  assumes "vm_flow_var_offset vm' = vm_flow_var_offset vm"
    and "vm_cur_var_offset vm' = vm_cur_var_offset vm" and "vm_is_random_var vm' = vm_is_random_var vm"
  shows "table_inv vm' don = table_inv vm don"
proof -
  have "var_of_inst vm' = var_of_inst vm" 
    using var_of_inst_mono [of vm vm'] var_of_inst_mono [of vm' vm] assms(1) by auto
  then show ?thesis by (simp add: table_inv_def table_wf_def assms)
qed

lemma table_layout_transfer:
  assumes "vm_flow_var_offset vm' = vm_flow_var_offset vm"
    and "vm_cur_var_offset vm' = vm_cur_var_offset vm" and "vm_is_random_var vm' = vm_is_random_var vm"
  shows "table_layout vm' don = table_layout vm don"
  by (simp add: table_layout_def assms)

text \<open>The command of an instruction, with the places the table gives its variables.\<close>

definition var_place :: "StreamVm \<Rightarrow> string \<Rightarrow> u8 option" where
  "var_place vm name = map_option (\<lambda>r. ucast (ucast (vr_offset r) :: u16)) (vm_flow_var_offset vm name)"

definition cmd_of :: "StreamVm \<Rightarrow> StreamVmInstruction \<Rightarrow> dp_instr \<Rightarrow> bool" where
  "cmd_of vm inst c = (case inst of
       itFIX_IPV4_CS i \<Rightarrow> c = OpIpv4Fix \<lparr>if_op = ditFIX_IPV4_CS, if_offset = fx_pkt_offset i\<rparr>
     | itFLOW_MAN i \<Rightarrow> map_option (flow_man_cmd i) (var_place vm (fm_var_name i)) = Some c
     | itPKT_WR i \<Rightarrow> (\<exists>r. vm_flow_var_offset vm (wp_flow_var_name i) = Some r \<and>
         map_option (pkt_wr_cmd i (vr_size_bytes r)) (var_place vm (wp_flow_var_name i)) = Some c)
     | itFLOW_CLIENT i \<Rightarrow> map_option (client_cmd i) (var_place vm (fc_var_name i @ ''.ip'')) = Some c)"

text \<open>What a pass over one instruction must give: one more command, inside the blocks.\<close>

definition emits :: "StreamVm \<Rightarrow> StreamVm \<Rightarrow> dp_instr \<Rightarrow> bool" where
  "emits vm vm' i \<longleftrightarrow> same_table vm vm' \<and> vm_instructions vm' = vm_instructions vm @ dp_enc i \<and>
     wf_instr i \<and> vm_max_field_update vm \<le> vm_max_field_update vm' \<and>
     instr_fits (unat (vm_cur_var_offset vm)) (unat (vm_max_field_update vm')) i \<and>
     (vm_max_field_update vm \<le> vm_pkt_size vm \<longrightarrow> vm_max_field_update vm' \<le> vm_pkt_size vm)"

lemma offset_narrow:
  assumes "unat (x :: u32) \<le> 64"
  shows "unat (ucast (ucast x :: u16) :: u8) = unat x"
  using assms by (simp add: unat_ucast_narrow)

lemma program_fix_emits:
  assumes "program_fix vm n i = Inr vm'"
  shows "\<exists>c. emits vm vm' c \<and> cmd_of vm (itFIX_IPV4_CS i) c"
proof -
  have fits: "unat (fx_pkt_offset i) + 20 \<le> unat (vm_pkt_size vm)"
    and vm': "vm' = add_command (add_field_cnt vm (fx_pkt_offset i + 12))
                 (OpIpv4Fix \<lparr>if_op = ditFIX_IPV4_CS, if_offset = fx_pkt_offset i\<rparr>)"
    using assms
    by (auto simp: program_fix_def Let_def IPV4_HDR_LEN_def add_field_cnt_def split: if_splits)
  have "unat (fx_pkt_offset i + 12) = unat (fx_pkt_offset i) + 12"
    using unat_add_bounded [of "fx_pkt_offset i" 12 "vm_pkt_size vm"] fits by simp
  then have "emits vm vm' (OpIpv4Fix \<lparr>if_op = ditFIX_IPV4_CS, if_offset = fx_pkt_offset i\<rparr>)"
    using fits
    by (auto simp: vm' emits_def add_command_def add_field_cnt_def same_table_def same_source_def
        wf_instr_def instr_fits_def uses_random_def word_le_nat_alt word_less_nat_alt)
  then show ?thesis by (auto simp: cmd_of_def)
qed


lemma get_var_offset_eq:
  "get_var_offset vm name = Inr ofs \<longleftrightarrow>
     (\<exists>r. vm_flow_var_offset vm name = Some r \<and> ofs = ucast (vr_offset r))"
  by (auto simp: get_var_offset_def bindE_simps var_lookup_def liftE_def split: option.splits)

lemma table_var_fits:
  assumes "table_wf vm" and "vm_flow_var_offset vm name = Some r"
  shows "unat (vr_offset r) + unat (vr_size_bytes r) \<le> unat (vm_cur_var_offset vm)"
    and "unat (ucast (ucast (vr_offset r) :: u16) :: u8) = unat (vr_offset r)"
    and "vr_size_bytes r \<in> {1, 2, 4, 8}"
proof -
  have "unat (vm_cur_var_offset vm) \<le> 64" and f: "var_fits (unat (vm_cur_var_offset vm)) r"
    using assms by (auto simp: table_wf_def)
  then show "unat (vr_offset r) + unat (vr_size_bytes r) \<le> unat (vm_cur_var_offset vm)"
    and "unat (ucast (ucast (vr_offset r) :: u16) :: u8) = unat (vr_offset r)"
    and "vr_size_bytes r \<in> {1, 2, 4, 8}"
    by (auto simp: var_fits_def offset_narrow)
qed

lemma random_block:
  assumes "table_inv vm don" and "vm_is_random_var vm"
  shows "4 \<le> unat (vm_cur_var_offset vm)"
  using assms table_var_fits(1) [of vm random_var_name] by (auto simp: table_inv_def)

lemma program_flow_man_emits:
  assumes inv: "table_inv vm don" and mem: "itFLOW_MAN i \<in> set don"
    and rnd: "fm_op i = FLOW_VAR_OP_RANDOM \<Longrightarrow> vm_is_random_var vm"
    and ok: "program_flow_man vm i = Inr vm'"
  shows "\<exists>c. emits vm vm' c \<and> cmd_of vm (itFLOW_MAN i) c"
proof -
  have "var_of_inst vm (itFLOW_MAN i)" using inv mem by (auto simp: table_inv_def list_all_iff)
  then obtain r where r: "vm_flow_var_offset vm (fm_var_name i) = Some r"
      "vr_size_bytes r = fm_size_bytes i" and size: "fm_size_bytes i \<in> {1, 2, 4, 8}"
    by (auto simp: var_of_inst_def)
  have wf: "table_wf vm" using inv by (simp add: table_inv_def)
  have 4: "fm_op i = FLOW_VAR_OP_RANDOM \<Longrightarrow> 4 \<le> unat (vm_cur_var_offset vm)"
    using random_block [OF inv] rnd by blast
  note fits = table_var_fits [OF wf r(1)]
  have "get_var_offset vm (fm_var_name i) = Inr (ucast (vr_offset r))"
    using r by (simp add: get_var_offset_eq)
  with ok size have "vm' = add_command vm (flow_man_cmd i (ucast (ucast (vr_offset r) :: u16)))"
    by (auto simp: program_flow_man_def)
  moreover have "wf_instr (flow_man_cmd i (ucast (ucast (vr_offset r) :: u16)))"
    using size by (cases "fm_op i") (auto simp: flow_man_cmd_def wf_instr_def flow_man_opcode_def)
  moreover have "instr_fits (unat (vm_cur_var_offset vm)) (unat (vm_max_field_update vm))
      (flow_man_cmd i (ucast (ucast (vr_offset r) :: u16)))"
    using size fits 4 r(2)
    by (cases "fm_op i") (auto simp: flow_man_cmd_def instr_fits_def uses_random_def
        flow_man_opcode_def)
  ultimately show ?thesis
    using r(1) by (simp add: emits_def add_command_def same_table_def same_source_def cmd_of_def
        var_place_def)
qed

lemma program_flow_client_emits:
  assumes inv: "table_inv vm don" and mem: "itFLOW_CLIENT i \<in> set don"
    and ok: "program_flow_client vm i = Inr vm'"
  shows "\<exists>c. emits vm vm' c \<and> cmd_of vm (itFLOW_CLIENT i) c"
proof -
  have "var_of_inst vm (itFLOW_CLIENT i)" using inv mem by (auto simp: table_inv_def list_all_iff)
  then obtain r t where r: "vm_flow_var_offset vm (fc_var_name i @ ''.ip'') = Some r"
      and t: "vm_flow_var_offset vm (fc_var_name i @ ''.flow_limit'') = Some t"
      "unat (vr_offset t) = unat (vr_offset r) + 6" "vr_size_bytes t = 4"
    by (auto simp: var_of_inst_def)
  have wf: "table_wf vm" using inv by (simp add: table_inv_def)
  have "unat (vr_offset r) + 10 \<le> unat (vm_cur_var_offset vm)"
    using table_var_fits(1) [OF wf t(1)] t by simp
  moreover have "get_var_offset vm (fc_var_name i @ ''.ip'') = Inr (ucast (vr_offset r))"
    using r by (simp add: get_var_offset_eq)
  ultimately show ?thesis
    using ok r table_var_fits(2) [OF wf r]
    by (auto simp: program_flow_client_def client_cmd_def wf_instr_def instr_fits_def
        uses_random_def emits_def add_command_def same_table_def same_source_def cmd_of_def
        var_place_def)
qed

lemma program_pkt_wr_emits:
  assumes wf: "table_wf vm" and ok: "program_pkt_wr vm n i = Inr vm'"
  shows "\<exists>c. emits vm vm' c \<and> cmd_of vm (itPKT_WR i) c"
proof -
  from ok obtain r where r: "vm_flow_var_offset vm (wp_flow_var_name i) = Some r"
    and le: "unat (wp_pkt_offset i) + unat (vr_size_bytes r) \<le> unat (vm_pkt_size vm)"
    by (auto simp: program_pkt_wr_def bindE_simps liftE_def var_lookup_def Let_def
        split: option.splits if_splits)
  let ?v = "add_field_cnt vm (wp_pkt_offset i + ucast (vr_size_bytes r))"
  have cnt: "unat (wp_pkt_offset i + ucast (vr_size_bytes r)) =
      unat (wp_pkt_offset i) + unat (vr_size_bytes r)"
    using unat_add_bounded [of "wp_pkt_offset i" "ucast (vr_size_bytes r)" "vm_pkt_size vm"] le
    by (simp add: unat_ucast_widen)
  have v: "same_table vm ?v" "vm_instructions ?v = vm_instructions vm"
    by (auto simp: add_field_cnt_def same_table_def same_source_def)
  have max: "unat (wp_pkt_offset i) + unat (vr_size_bytes r) \<le> unat (vm_max_field_update ?v)"
      "vm_max_field_update vm \<le> vm_max_field_update ?v"
      "vm_max_field_update vm \<le> vm_pkt_size vm \<Longrightarrow> vm_max_field_update ?v \<le> vm_pkt_size vm"
    using le cnt by (auto simp: add_field_cnt_def word_le_nat_alt word_less_nat_alt)
  have ofs: "get_var_offset ?v (wp_flow_var_name i) = Inr (ucast (vr_offset r))"
    using r v(1) by (simp add: get_var_offset_eq same_table_def)
  note fits = table_var_fits [OF wf r]
  let ?c = "pkt_wr_cmd i (vr_size_bytes r) (ucast (ucast (vr_offset r) :: u16))"
  have vm': "vm' = add_command ?v ?c"
    using ok r le ofs fits(3) by (auto simp: program_pkt_wr_def liftE_def var_lookup_def Let_def)
  have c: "wf_instr ?c"
      "instr_fits (unat (vm_cur_var_offset vm)) (unat (vm_max_field_update ?v)) ?c"
    using fits max(1)
    by (auto simp: pkt_wr_cmd_def Let_def wf_instr_def instr_fits_def uses_random_def)
  show ?thesis
    by (intro exI [of _ ?c]) (use v max c r in \<open>auto simp: vm' emits_def add_command_def
        same_table_def same_source_def cmd_of_def var_place_def\<close>)
qed


lemma program_step_emits:
  assumes inv: "table_inv vm don" and mem: "inst \<in> set don"
    and rnd: "vm_is_random_var vm \<longleftrightarrow> list_ex is_random_inst don"
    and ok: "program_step (vm, n) inst = Inr (vm', n')"
  shows "\<exists>c. emits vm vm' c \<and> cmd_of vm inst c"
proof (cases inst)
  case (itFIX_IPV4_CS i)
  then show ?thesis
    using ok program_fix_emits by (auto simp: program_step_def bindE_simps)
next
  case (itFLOW_MAN i)
  then have "is_random_inst inst \<longleftrightarrow> fm_op i = FLOW_VAR_OP_RANDOM"
    by (simp add: is_random_inst_def)
  then have "fm_op i = FLOW_VAR_OP_RANDOM \<Longrightarrow> vm_is_random_var vm"
    using rnd mem by (auto simp: list_ex_iff)
  then show ?thesis
    using ok program_flow_man_emits [OF inv, of i] mem itFLOW_MAN
    by (auto simp: program_step_def bindE_simps)
next
  case (itPKT_WR i)
  then show ?thesis
    using ok program_pkt_wr_emits inv by (auto simp: program_step_def bindE_simps table_inv_def)
next
  case (itFLOW_CLIENT i)
  then show ?thesis
    using ok program_flow_client_emits [OF inv] mem by (auto simp: program_step_def bindE_simps)
qed

definition prog_inv :: "StreamVm \<Rightarrow> StreamVmInstruction list \<Rightarrow> StreamVm \<Rightarrow> bool" where
  "prog_inv vm don vm' \<longleftrightarrow> same_table vm vm' \<and> vm_max_field_update vm' \<le> vm_pkt_size vm' \<and>
     (\<exists>is. vm_instructions vm' = concat (map dp_enc is) \<and> list_all wf_instr is \<and>
       list_all (instr_fits (unat (vm_cur_var_offset vm')) (unat (vm_max_field_update vm'))) is \<and>
       list_all2 (cmd_of vm) don is)"

lemma cmd_of_transfer:
  assumes "vm_flow_var_offset vm' = vm_flow_var_offset vm"
  shows "cmd_of vm' inst c = cmd_of vm inst c"
  by (cases inst) (simp_all add: cmd_of_def var_place_def assms)

lemma prog_inv_emits:
  assumes "prog_inv vm don v" and e: "emits v v' c" and c: "cmd_of v inst c"
  shows "prog_inv vm (don @ [inst]) v'"
proof -
  from assms(1) obtain "is" where s: "vm_instructions v = concat (map dp_enc is)"
    "list_all wf_instr is"
    "list_all (instr_fits (unat (vm_cur_var_offset v)) (unat (vm_max_field_update v))) is"
    "list_all2 (cmd_of vm) don is"
    by (auto simp: prog_inv_def)
  have le: "unat (vm_max_field_update v) \<le> unat (vm_max_field_update v')"
    using e by (simp add: emits_def word_le_nat_alt)
  have "cmd_of vm inst c"
    using c assms(1) cmd_of_transfer [of v vm] by (simp add: prog_inv_def same_table_def)
  then have "vm_instructions v' = concat (map dp_enc (is @ [c]))"
    and "list_all wf_instr (is @ [c])" and "list_all2 (cmd_of vm) (don @ [inst]) (is @ [c])"
    and "list_all (instr_fits (unat (vm_cur_var_offset v')) (unat (vm_max_field_update v'))) (is @ [c])"
    using s e instr_fits_mono [OF _ le]
    by (auto simp: emits_def same_table_def list_all_iff intro: list_all2_appendI)
  then show ?thesis
    using assms(1,2) unfolding prog_inv_def emits_def same_table_def same_source_def by metis
qed

lemma build_program_inv:
  assumes inv: "table_inv vm (vm_inst_list vm)"
    and rnd: "vm_is_random_var vm \<longleftrightarrow> list_ex is_random_inst (vm_inst_list vm)"
    and ok: "build_program vm = Inr vm'"
  shows "prog_inv vm (vm_inst_list vm) vm'"
proof -
  from ok obtain n where f: "foldE program_step
      (clean_max_field_cnt (vm\<lparr>vm_instructions := []\<rparr>), 0) (vm_inst_list vm) = Inr (vm', n)"
    by (auto simp: build_program_def bindE_simps)
  have "prog_inv vm (vm_inst_list vm) (fst (vm', n))"
    using f
  proof (rule foldE_prefix_in)
    show "prog_inv vm [] (fst (clean_max_field_cnt (vm\<lparr>vm_instructions := []\<rparr>), 0))"
      by (auto simp: prog_inv_def clean_max_field_cnt_def same_table_def same_source_def
          intro!: exI [of _ "[]"])
  next
    fix don inst s s'
    assume mem: "inst \<in> set (vm_inst_list vm)" and P: "prog_inv vm don (fst s)"
      and "program_step s inst = Inr s'"
    then have step: "program_step (fst s, snd s) inst = Inr (fst s', snd s')" by simp
    have "table_inv (fst s) (vm_inst_list vm)"
      using inv P table_inv_transfer [of "fst s" vm]
      by (simp add: prog_inv_def same_table_def same_source_def)
    moreover have "vm_is_random_var (fst s) \<longleftrightarrow> list_ex is_random_inst (vm_inst_list vm)"
      using P rnd by (simp add: prog_inv_def same_table_def same_source_def)
    ultimately obtain c where "emits (fst s) (fst s') c" "cmd_of (fst s) inst c"
      using program_step_emits [OF _ mem _ step] by blast
    then show "prog_inv vm (don @ [inst]) (fst s')" by (rule prog_inv_emits [OF P])
  qed
  then show ?thesis by simp
qed

text \<open>What a successful compilation of a non-empty program guarantees.\<close>

lemma compile_program:
  assumes "compile rand vm pkt_len = Inr vm'" and "vm_inst_list vm \<noteq> []"
  obtains "is" where "vm_instructions vm' = concat (map dp_enc is)"
    and "list_all wf_instr is"
    and "list_all (instr_fits (unat (vm_cur_var_offset vm')) (unat (vm_max_field_update vm'))) is"
    and "list_all2 (cmd_of vm') (vm_inst_list vm) is"
    and "table_inv vm' (vm_inst_list vm)" and "table_layout vm' (vm_inst_list vm)"
    and "vm_bss vm' = Some (seed_bytes (vm_is_random_var vm') rand @ block_bytes (vm_inst_list vm))"
    and "vm_max_field_update vm' \<le> pkt_len" and "vm_max_field_update vm' \<le> 512"
    and "vm_is_random_var vm' \<longleftrightarrow> list_ex is_random_inst (vm_inst_list vm)"
    and "vm_inst_list vm' = vm_inst_list vm" and "vm_is_compiled vm'"
    and "vm_split_instr vm' = vm_split_instr vm"
proof -
  let ?vm = "vm\<lparr>vm_pkt_size := pkt_len\<rparr>"
  from assms obtain v1 v2 v3 where 1: "build_flow_var_table ?vm = Inr v1"
    and 2: "build_bss rand v1 = Inr v2" and 3: "build_program v2 = Inr v3"
    and le: "vm_max_field_update v3 \<le> 512"
    and vm': "vm' = v3\<lparr>vm_prefix_size :=
         calc_writable_mbuf_size (vm_max_field_update v3) (vm_pkt_size v3), vm_is_compiled := True\<rparr>"
    by (auto simp: compile_def is_vm_empty_def bindE_simps svMAX_PACKET_OFFSET_CHANGE_def
        split: if_splits)
  note t = build_flow_var_table_inv [OF 1]
  have src: "vm_inst_list v1 = vm_inst_list vm" "vm_pkt_size v1 = pkt_len"
      "vm_is_random_var v1 \<longleftrightarrow> list_ex is_random_inst (vm_inst_list vm)"
      "vm_split_instr v1 = vm_split_instr vm"
    using t(4) table_start_inv(2-5) [of ?vm] by (auto simp: same_source_def)
  have v2: "v2 = v1\<lparr>vm_bss := Some (seed_bytes (vm_is_random_var v1) rand @
      block_bytes (vm_inst_list vm))\<rparr>"
    using build_bss_after_table [OF 1, of rand] 2 by simp
  have p: "prog_inv v2 (vm_inst_list vm) v3"
    using t(1) src table_inv_transfer [of v2 v1] build_program_inv [OF _ _ 3] by (simp add: v2)
  then obtain "is" where "vm_instructions v3 = concat (map dp_enc is)" "list_all wf_instr is"
    "list_all (instr_fits (unat (vm_cur_var_offset v3)) (unat (vm_max_field_update v3))) is"
    "vm_max_field_update v3 \<le> pkt_len" "list_all2 (cmd_of v2) (vm_inst_list vm) is"
    using src by (auto simp: prog_inv_def same_table_def same_source_def v2)
  moreover have "cmd_of vm' = cmd_of v2"
    using p cmd_of_transfer [of vm' v2]
    by (auto simp: fun_eq_iff prog_inv_def same_table_def vm')
  moreover have "table_inv vm' (vm_inst_list vm)" "table_layout vm' (vm_inst_list vm)"
    using p t(1,2) table_inv_transfer [of v1 vm'] table_layout_transfer [of v1 vm']
    by (auto simp: prog_inv_def same_table_def same_source_def vm' v2)
  ultimately show thesis
    using that [of "is"] p src le
    by (simp add: prog_inv_def same_table_def same_source_def vm' v2)
qed

end
