(* ===== verification/Stream_Vm_Semantics.thy ===== *)
theory Stream_Vm_Semantics
  imports Stream_Vm_Compile
begin

text \<open>
  What a compiled field-engine program computes.  The octets a command may change are its
  footprint; the commands of a compiled program have disjoint footprints, so each flow variable
  evolves on its own from packet to packet.  The properties of the field engine stand at the end.
\<close>

section \<open>Octets as numbers\<close>

primrec le_nat :: "mem \<Rightarrow> nat" where
  "le_nat [] = 0"
| "le_nat (b # bs) = unat b + 256 * le_nat bs"

lemma le_nat_less: "le_nat bs < 256 ^ length bs"
proof (induction bs)
  case (Cons b bs)
  have "le_nat (b # bs) < 256 * (le_nat bs + 1)" using unat_u8_less [of b] by simp
  also have "\<dots> \<le> 256 * 256 ^ length bs" using Cons.IH by (intro mult_le_mono2) simp
  finally show ?case by simp
qed simp

lemma le_word_of_nat: "(le_word bs :: 'a::len word) = of_nat (le_nat bs)"
proof (induction bs)
  case (Cons b bs)
  have "(ucast b :: 'a word) AND push_bit 8 (le_word bs) = 0"
    by (rule bit_word_eqI)
      (auto simp: bit_and_iff bit_push_bit_iff bit_ucast_iff dest: bit_imp_le_length)
  then have "(le_word (b # bs) :: 'a word) = ucast b + push_bit 8 (le_word bs)"
    by (simp add: disjunctive_add_eq_or)
  also have "\<dots> = of_nat (unat b) + of_nat (256 * le_nat bs)"
    by (simp add: Cons.IH push_bit_eq_mult)
  finally show ?case by simp
qed simp

lemma unat_le_word:
  assumes "8 * length bs \<le> LENGTH('a)"
  shows "unat (le_word bs :: 'a::len word) = le_nat bs"
proof -
  have "(256 :: nat) ^ length bs = 2 ^ (8 * length bs)" by (simp add: power_mult)
  also have "\<dots> \<le> 2 ^ LENGTH('a)" using assms by (intro power_increasing) auto
  finally have "le_nat bs < 2 ^ LENGTH('a)" using le_nat_less [of bs] by linarith
  then show ?thesis by (simp add: le_word_of_nat unsigned_of_nat take_bit_nat_eq_self)
qed

section \<open>Footprints\<close>

definition agree :: "nat set \<Rightarrow> mem \<Rightarrow> mem \<Rightarrow> bool" where
  "agree S m m' \<longleftrightarrow> length m' = length m \<and> (\<forall>k. k \<notin> S \<longrightarrow> m' ! k = m ! k)"

lemma agree_refl [simp]: "agree S m m"
  by (simp add: agree_def)

lemma agree_trans: "agree S m m' \<Longrightarrow> agree T m' m'' \<Longrightarrow> agree (S \<union> T) m m''"
  by (simp add: agree_def)

lemma agree_mono: "agree S m m' \<Longrightarrow> S \<subseteq> T \<Longrightarrow> agree T m m'"
  by (auto simp: agree_def)

lemma agree_mem_wr:
  "mem_wr m i (w :: 'a::len word) = Some m' \<Longrightarrow> agree {i..<i + LENGTH('a) div 8} m m'"
  using mem_wr_frame [of m i w m'] mem_wr_length [of m i w m'] by (force simp: agree_def)

definition cells :: "nat \<Rightarrow> nat \<Rightarrow> mem \<Rightarrow> mem" where
  "cells ofs n m = take n (drop ofs m)"

lemma agree_cells:
  assumes "agree S m m'" and "S \<inter> {ofs..<ofs + n} = {}"
  shows "cells ofs n m' = cells ofs n m"
proof (rule nth_equalityI)
  show "length (cells ofs n m') = length (cells ofs n m)"
    using assms(1) by (simp add: cells_def agree_def)
  fix k
  assume "k < length (cells ofs n m')"
  then have "k < n" and "ofs + k \<notin> S" using assms(2) by (auto simp: cells_def)
  then show "cells ofs n m' ! k = cells ofs n m ! k"
    using assms(1) \<open>k < length _\<close> by (simp add: cells_def agree_def)
qed

definition footprint :: "seed_ptr \<Rightarrow> dp_instr \<Rightarrow> nat set" where
  "footprint sp i = (if sp = SeedFlowVar \<and> uses_random i then {0..<4} else {}) \<union> (case i of
       OpV8 x \<Rightarrow> {unat (fv_flow_offset x)..<unat (fv_flow_offset x) + 1}
     | OpV16 x \<Rightarrow> {unat (fv_flow_offset x)..<unat (fv_flow_offset x) + 2}
     | OpV32 x \<Rightarrow> {unat (fv_flow_offset x)..<unat (fv_flow_offset x) + 4}
     | OpV64 x \<Rightarrow> {unat (fv_flow_offset x)..<unat (fv_flow_offset x) + 8}
     | OpCl x \<Rightarrow> {unat (cl_flow_offset x)..<unat (cl_flow_offset x) + 10}
     | OpClu x \<Rightarrow> {unat (cu_flow_offset x)..<unat (cu_flow_offset x) + 10}
     | _ \<Rightarrow> {})"

definition seed_cells :: "seed_ptr \<Rightarrow> nat set" where
  "seed_cells sp = (if sp = SeedFlowVar then {0..<4} else {})"

lemma fv_store_agree:
  "fv_store ofs (v :: 'v::len word) st = Inr st' \<Longrightarrow>
     agree {unat ofs..<unat ofs + LENGTH('v) div 8} (flow_var st) (flow_var st')"
  by (auto simp: fv_store_def bindE_simps liftE_def intro: agree_mem_wr split: option.splits)

lemma set_seed_agree:
  "set_seed sp g st = Inr st' \<Longrightarrow> agree (seed_cells sp) (flow_var st) (flow_var st')"
  using agree_mem_wr [of "flow_var st" 0 g]
  by (auto simp: set_seed_def bindE_simps liftE_def seed_cells_def split: option.splits seed_ptr.splits)

lemma vm_rand16_agree:
  "vm_rand16 sp st = Inr (r, st') \<Longrightarrow> agree (seed_cells sp) (flow_var st) (flow_var st')"
  by (auto simp: vm_rand16_def bindE_simps case_prod_beta Let_def intro: set_seed_agree)

lemma vm_rand32_agree:
  "vm_rand32 sp st = Inr (r, st') \<Longrightarrow> agree (seed_cells sp) (flow_var st) (flow_var st')"
  using agree_trans [of "seed_cells sp" _ _ "seed_cells sp"]
  by (fastforce simp: vm_rand32_def bindE_simps dest: vm_rand16_agree)

lemma vm_rand64_agree:
  "vm_rand64 sp st = Inr (r, st') \<Longrightarrow> agree (seed_cells sp) (flow_var st) (flow_var st')"
  using agree_trans [of "seed_cells sp" _ _ "seed_cells sp"]
  by (fastforce simp: vm_rand64_def bindE_simps dest: vm_rand32_agree)

lemma run_rand_small_agree:
  "run_rand_small sp (x :: 'v::len word StreamDPOpFlowVar) st = Inr st' \<Longrightarrow>
     agree (seed_cells sp \<union> {unat (fv_flow_offset x)..<unat (fv_flow_offset x) + LENGTH('v) div 8})
       (flow_var st) (flow_var st')"
  by (auto simp: run_rand_small_def bindE_simps Let_def assertE_def split: if_splits
      intro!: agree_trans [OF vm_rand16_agree fv_store_agree])

lemma run_rand32_agree:
  "run_rand32 sp x st = Inr st' \<Longrightarrow>
     agree (seed_cells sp \<union> {unat (fv_flow_offset x)..<unat (fv_flow_offset x) + 4})
       (flow_var st) (flow_var st')"
  using agree_trans [OF vm_rand32_agree fv_store_agree]
  by (fastforce simp: run_rand32_def bindE_simps Let_def assertE_def split: if_splits)

lemma run_rand64_agree:
  "run_rand64 sp x st = Inr st' \<Longrightarrow>
     agree (seed_cells sp \<union> {unat (fv_flow_offset x)..<unat (fv_flow_offset x) + 8})
       (flow_var st) (flow_var st')"
  using agree_trans [OF vm_rand64_agree fv_store_agree]
  by (fastforce simp: run_rand64_def bindE_simps Let_def assertE_def split: if_splits)

lemma run_count_agree:
  "run_inc (x :: 'v::len word StreamDPOpFlowVar) st = Inr st' \<Longrightarrow>
     agree {unat (fv_flow_offset x)..<unat (fv_flow_offset x) + LENGTH('v) div 8}
       (flow_var st) (flow_var st')"
  "run_dec (x :: 'v::len word StreamDPOpFlowVar) st = Inr st' \<Longrightarrow>
     agree {unat (fv_flow_offset x)..<unat (fv_flow_offset x) + LENGTH('v) div 8}
       (flow_var st) (flow_var st')"
  by (auto simp: run_inc_def run_dec_def bindE_simps intro: fv_store_agree)

lemma client_store_agree:
  assumes "client_store fv ofs lp = Some fv'"
  shows "agree {ofs..<ofs + 10} fv fv'"
proof -
  from assms obtain a b where a: "mem_wr fv ofs (cur_ip lp) = Some a"
    and b: "mem_wr a (ofs + 4) (cur_port lp) = Some b"
    and c: "mem_wr b (ofs + 6) (cur_flow_id lp) = Some fv'"
    by (auto simp: client_store_def split: bind_splits)
  have "agree ({ofs..<ofs + 4} \<union> {ofs + 4..<ofs + 4 + 2} \<union> {ofs + 6..<ofs + 6 + 4}) fv fv'"
    using agree_trans [OF agree_trans [OF agree_mem_wr [OF a] agree_mem_wr [OF b]]
      agree_mem_wr [OF c]] by simp
  then show ?thesis by (rule agree_mono) auto
qed

lemma client_update_agree:
  "client_update ofs f st = Inr st' \<Longrightarrow>
     agree {unat ofs..<unat ofs + 10} (flow_var st) (flow_var st')"
  by (auto simp: client_update_def bindE_simps liftE_def intro: client_store_agree
      split: option.splits)

lemma pkt_ops_keep_vars:
  "StreamDPOpPktWr8_wr a st = Inr st' \<Longrightarrow> flow_var st' = flow_var st"
  "StreamDPOpPktWr_wr (b :: 'v::len word StreamDPOpPktWr) st = Inr st' \<Longrightarrow> flow_var st' = flow_var st"
  "StreamDPOpIpv4Fix_run c st = Inr st' \<Longrightarrow> flow_var st' = flow_var st"
  by (auto simp: StreamDPOpPktWr8_wr_def StreamDPOpPktWr_wr_def StreamDPOpIpv4Fix_run_def
      pkt_store_def bindE_simps liftE_def split: option.splits if_splits)

lemma dp_exec_footprint:
  assumes "wf_instr i" and "dp_exec sp i st = Inr st'"
  shows "agree (footprint sp i) (flow_var st) (flow_var st')"
proof (cases i)
  case (OpV8 x)
  then show ?thesis
    using assms run_rand_small_agree [of sp x st st'] run_count_agree [of x st st']
    by (auto simp: wf_instr_def dp_exec_def footprint_def uses_random_def seed_cells_def
        split: if_splits)
next
  case (OpV16 x)
  then show ?thesis
    using assms run_rand_small_agree [of sp x st st'] run_count_agree [of x st st']
    by (auto simp: wf_instr_def dp_exec_def footprint_def uses_random_def seed_cells_def
        split: if_splits)
next
  case (OpV32 x)
  then show ?thesis
    using assms run_rand32_agree [of sp x st st'] run_count_agree [of x st st']
    by (auto simp: wf_instr_def dp_exec_def footprint_def uses_random_def seed_cells_def
        split: if_splits)
next
  case (OpV64 x)
  then show ?thesis
    using assms run_rand64_agree [of sp x st st'] run_count_agree [of x st st']
    by (auto simp: wf_instr_def dp_exec_def footprint_def uses_random_def seed_cells_def
        split: if_splits)
qed (use assms in \<open>auto simp: dp_exec_def footprint_def uses_random_def
    StreamDPOpClientsLimit_run_def StreamDPOpClientsUnLimit_run_def
    dest: pkt_ops_keep_vars client_update_agree\<close>)

lemma foldE_footprint:
  assumes "list_all wf_instr is" and "foldE (\<lambda>s i. dp_exec sp i s) st is = Inr st'"
  shows "agree (\<Union>i\<in>set is. footprint sp i) (flow_var st) (flow_var st')"
  using assms
proof (induction "is" arbitrary: st)
  case (Cons i "is")
  then obtain s where "dp_exec sp i st = Inr s" "foldE (\<lambda>s i. dp_exec sp i s) s is = Inr st'"
    by (auto simp: bindE_simps)
  with Cons show ?case
    using agree_trans [OF dp_exec_footprint] by (fastforce simp: Un_commute)
qed simp

section \<open>The commands of a compiled program own disjoint cells\<close>

definition base_of :: "StreamVm \<Rightarrow> nat" where
  "base_of vm = (if vm_is_random_var vm then 4 else 0)"

lemma flow_man_cmd_footprint:
  assumes "fm_size_bytes i \<in> {1, 2, 4, 8}"
  shows "footprint sp (flow_man_cmd i ofs) \<subseteq>
    (if fm_op i = FLOW_VAR_OP_RANDOM then {0..<4} else {}) \<union>
    {unat ofs..<unat ofs + unat (fm_size_bytes i)}"
  using assms
  by (cases "fm_op i") (auto simp: footprint_def flow_man_cmd_def uses_random_def
      flow_man_opcode_def)

lemma table_layout_place:
  assumes "table_layout vm insts" and "insts = xs @ inst # ys" and "var_key inst = Some name"
  shows "\<exists>r. vm_flow_var_offset vm name = Some r \<and>
    unat (vr_offset r) = base_of vm + length (block_bytes xs)"
  using assms unfolding table_layout_def base_of_def by blast

lemma cmd_of_footprint:
  assumes inv: "table_inv vm insts" and lay: "table_layout vm insts"
    and rnd: "vm_is_random_var vm \<longleftrightarrow> list_ex is_random_inst insts"
    and split: "insts = xs @ inst # ys" and c: "cmd_of vm inst c"
  shows "footprint sp c \<subseteq> {0..<base_of vm} \<union>
    {base_of vm + length (block_bytes xs)..<base_of vm + length (block_bytes (xs @ [inst]))}"
proof (cases inst)
  case (itFLOW_MAN i)
  have "var_of_inst vm inst" using inv split by (simp add: table_inv_def)
  then have size: "fm_size_bytes i \<in> {1, 2, 4, 8}" using itFLOW_MAN by (simp add: var_of_inst_def)
  obtain r where r: "vm_flow_var_offset vm (fm_var_name i) = Some r"
      "unat (vr_offset r) = base_of vm + length (block_bytes xs)"
    using table_layout_place [OF lay split, of "fm_var_name i"] itFLOW_MAN
    by (auto simp: var_key_def)
  have wf: "table_wf vm" using inv by (simp add: table_inv_def)
  have "c = flow_man_cmd i (ucast (ucast (vr_offset r) :: u16))"
    using c r(1) itFLOW_MAN by (simp add: cmd_of_def var_place_def)
  moreover have "is_random_inst inst \<longleftrightarrow> fm_op i = FLOW_VAR_OP_RANDOM"
    using itFLOW_MAN by (simp add: is_random_inst_def)
  then have "fm_op i = FLOW_VAR_OP_RANDOM \<Longrightarrow> base_of vm = 4"
    using rnd split by (simp add: base_of_def)
  ultimately show ?thesis
    using order_trans [OF flow_man_cmd_footprint [OF size, of sp "ucast (ucast (vr_offset r) :: u16)"]]
      table_var_fits(2) [OF wf r(1)] r(2) itFLOW_MAN
    by (auto simp: block_bytes_def inst_bytes_def add.assoc)
next
  case (itFLOW_CLIENT i)
  obtain r where r: "vm_flow_var_offset vm (fc_var_name i @ ''.ip'') = Some r"
      "unat (vr_offset r) = base_of vm + length (block_bytes xs)"
    using table_layout_place [OF lay split, of "fc_var_name i @ ''.ip''"] itFLOW_CLIENT
    by (auto simp: var_key_def)
  have wf: "table_wf vm" using inv by (simp add: table_inv_def)
  have "c = client_cmd i (ucast (ucast (vr_offset r) :: u16))"
    using c r(1) itFLOW_CLIENT by (simp add: cmd_of_def var_place_def)
  then show ?thesis
    using table_var_fits(2) [OF wf r(1)] r(2) itFLOW_CLIENT
    by (auto simp: footprint_def client_cmd_def uses_random_def block_bytes_def inst_bytes_def)
qed (use c in \<open>auto simp: cmd_of_def footprint_def uses_random_def pkt_wr_cmd_def Let_def
      split: if_splits\<close>)

text \<open>Around a command, the rest of the program leaves its cells alone.\<close>

lemma block_bytes_append [simp]: "block_bytes (xs @ ys) = block_bytes xs @ block_bytes ys"
  by (simp add: block_bytes_def)

lemma list_all2_member:
  assumes "list_all2 P xs ys" and "y \<in> set ys"
  shows "\<exists>x1 x x2. xs = x1 @ x # x2 \<and> P x y"
proof -
  from assms(2) obtain y1 y2 where "ys = y1 @ y # y2" by (auto simp: in_set_conv_decomp)
  with assms(1) show ?thesis by (auto simp: list_all2_append2 list_all2_Cons2)
qed

lemma rest_keeps_cells:
  assumes inv: "table_inv vm insts" and lay: "table_layout vm insts"
    and rnd: "vm_is_random_var vm \<longleftrightarrow> list_ex is_random_inst insts"
    and split: "insts = xs @ inst # ys" and cmds: "list_all2 (cmd_of vm) insts (cs @ c # ds)"
    and len: "length cs = length xs" and d: "d \<in> set cs \<union> set ds"
  shows "footprint sp d \<inter>
    {base_of vm + length (block_bytes xs)..<base_of vm + length (block_bytes (xs @ [inst]))} = {}"
proof -
  have "list_all2 (cmd_of vm) xs cs" and "list_all2 (cmd_of vm) ys ds"
    using cmds len by (auto simp: split list_all2_append)
  with d consider
    (before) x1 j x2 where "xs = x1 @ j # x2" "cmd_of vm j d" |
    (after) y1 j y2 where "ys = y1 @ j # y2" "cmd_of vm j d"
    by (auto dest: list_all2_member)
  then show ?thesis
  proof cases
    case before
    then have "insts = x1 @ j # (x2 @ inst # ys)" using split by simp
    from cmd_of_footprint [OF inv lay rnd this before(2), of sp] before(1)
    show ?thesis by (auto simp: block_bytes_def)
  next
    case after
    then have "insts = (xs @ inst # y1) @ j # y2" using split by simp
    from cmd_of_footprint [OF inv lay rnd this after(2), of sp] after(1)
    show ?thesis by (fastforce simp: block_bytes_def)
  qed
qed

section \<open>A counting variable from packet to packet\<close>

definition next_val :: "StreamVmInstructionFlowMan \<Rightarrow> nat \<Rightarrow> nat" where
  "next_val i v = (case fm_op i of
       FLOW_VAR_OP_INC \<Rightarrow> (if v = unat (fm_max_value i) then unat (fm_min_value i) else v + 1)
     | FLOW_VAR_OP_DEC \<Rightarrow> (if v = unat (fm_min_value i) then unat (fm_max_value i) else v - 1)
     | FLOW_VAR_OP_RANDOM \<Rightarrow> v)"

lemma fv_load_cells:
  assumes "fv_load ofs st = Inr (v :: 'v::len word)" and "8 dvd LENGTH('v)"
  shows "unat v = le_nat (cells (unat ofs) (LENGTH('v) div 8) (flow_var st))"
    and "unat ofs + LENGTH('v) div 8 \<le> length (flow_var st)"
  using assms
  by (auto simp: fv_load_def liftE_def mem_rd_def cells_def unat_le_word split: if_splits)

lemma fv_store_cells:
  assumes "fv_store ofs (v :: 'v::len word) st = Inr st'" and "8 dvd LENGTH('v)"
  shows "le_nat (cells (unat ofs) (LENGTH('v) div 8) (flow_var st')) = unat v"
proof -
  from assms have "mem_wr (flow_var st) (unat ofs) v = Some (flow_var st')"
    by (auto simp: fv_store_def bindE_simps liftE_def split: option.splits)
  from mem_rd_wr_same [OF assms(2) this]
  have "fv_load ofs st' = Inr v" by (simp add: fv_load_def liftE_def)
  then show ?thesis using fv_load_cells(1) assms(2) by metis
qed

lemma run_count_cells:
  fixes x :: "'v::len word StreamDPOpFlowVar"
  assumes "8 dvd LENGTH('v)" and lo: "unat (fv_min_val x) \<le> v" and hi: "v \<le> unat (fv_max_val x)"
    and v: "v = le_nat (cells (unat (fv_flow_offset x)) (LENGTH('v) div 8) (flow_var st))"
  shows "run_inc x st = Inr st' \<Longrightarrow>
      le_nat (cells (unat (fv_flow_offset x)) (LENGTH('v) div 8) (flow_var st')) =
        (if v = unat (fv_max_val x) then unat (fv_min_val x) else v + 1)"
    and "run_dec x st = Inr st' \<Longrightarrow>
      le_nat (cells (unat (fv_flow_offset x)) (LENGTH('v) div 8) (flow_var st')) =
        (if v = unat (fv_min_val x) then unat (fv_max_val x) else v - 1)"
proof -
  have load: "unat w = v" if "fv_load (fv_flow_offset x) st = Inr (w :: 'v word)" for w
    using fv_load_cells(1) [OF that assms(1)] v by simp
  have inc: "unat (inc_val (fv_min_val x) (fv_max_val x) w) =
      (if v = unat (fv_max_val x) then unat (fv_min_val x) else v + 1)" if "unat w = v" for w
    using that hi unat_inc [of w "fv_max_val x"]
    by (auto simp: inc_val_def word_unat_eq_iff word_less_nat_alt)
  have dec: "unat (dec_val (fv_min_val x) (fv_max_val x) w) =
      (if v = unat (fv_min_val x) then unat (fv_max_val x) else v - 1)" if "unat w = v" for w
    using that lo unat_sub [of 1 w]
    by (auto simp: dec_val_def word_unat_eq_iff word_le_nat_alt)
  show "le_nat (cells (unat (fv_flow_offset x)) (LENGTH('v) div 8) (flow_var st')) =
      (if v = unat (fv_max_val x) then unat (fv_min_val x) else v + 1)" if "run_inc x st = Inr st'"
    using that load inc fv_store_cells assms(1) by (fastforce simp: run_inc_def bindE_simps)
  show "le_nat (cells (unat (fv_flow_offset x)) (LENGTH('v) div 8) (flow_var st')) =
      (if v = unat (fv_min_val x) then unat (fv_max_val x) else v - 1)" if "run_dec x st = Inr st'"
    using that load dec fv_store_cells assms(1) by (fastforce simp: run_dec_def bindE_simps)
qed

text \<open>The bounds of a counter, as a user means them: ordered and within the width.\<close>

definition counter_ok :: "StreamVmInstructionFlowMan \<Rightarrow> bool" where
  "counter_ok i \<longleftrightarrow> fm_op i \<noteq> FLOW_VAR_OP_RANDOM \<and> fm_min_value i \<le> fm_init_value i \<and>
     fm_init_value i \<le> fm_max_value i \<and> unat (fm_max_value i) < 2 ^ (8 * unat (fm_size_bytes i))"

definition in_range :: "StreamVmInstructionFlowMan \<Rightarrow> nat \<Rightarrow> bool" where
  "in_range i v \<longleftrightarrow> unat (fm_min_value i) \<le> v \<and> v \<le> unat (fm_max_value i)"

lemma next_val_in_range:
  "counter_ok i \<Longrightarrow> in_range i v \<Longrightarrow> in_range i (next_val i v)"
  by (cases "fm_op i") (auto simp: counter_ok_def in_range_def next_val_def)

lemma flow_man_exec:
  assumes size: "fm_size_bytes i \<in> {1, 2, 4, 8}" and ok: "counter_ok i"
    and v: "in_range i (le_nat (cells (unat ofs) (unat (fm_size_bytes i)) (flow_var st)))"
    and run: "dp_exec sp (flow_man_cmd i ofs) st = Inr st'"
  shows "le_nat (cells (unat ofs) (unat (fm_size_bytes i)) (flow_var st')) =
    next_val i (le_nat (cells (unat ofs) (unat (fm_size_bytes i)) (flow_var st)))"
proof -
  have lim: "unat (fm_max_value i) < 2 ^ (8 * unat (fm_size_bytes i))"
      "unat (fm_min_value i) < 2 ^ (8 * unat (fm_size_bytes i))"
    using ok by (auto simp: counter_ok_def word_le_nat_alt)
  have op: "fm_op i = FLOW_VAR_OP_INC \<or> fm_op i = FLOW_VAR_OP_DEC"
    using ok by (cases "fm_op i") (auto simp: counter_ok_def)
  from size consider "fm_size_bytes i = 1" | "fm_size_bytes i = 2" | "fm_size_bytes i = 4" |
    "fm_size_bytes i = 8" by auto
  then show ?thesis
    using op run v lim
    by cases (auto simp: flow_man_cmd_def flow_man_opcode_def dp_exec_def in_range_def next_val_def
        unat_ucast_narrow dest!: run_count_cells [rotated 4])
qed

text \<open>One run of the program advances the variable once, whatever else the program does.\<close>

definition var_cells :: "StreamVm \<Rightarrow> StreamVmInstruction list \<Rightarrow> StreamVmInstructionFlowMan \<Rightarrow> mem \<Rightarrow> mem" where
  "var_cells vm xs i m = cells (base_of vm + length (block_bytes xs)) (unat (fm_size_bytes i)) m"

lemma program_advances:
  assumes inv: "table_inv vm insts" and lay: "table_layout vm insts"
    and rnd: "vm_is_random_var vm \<longleftrightarrow> list_ex is_random_inst insts"
    and cmds: "list_all2 (cmd_of vm) insts is" and wf: "list_all wf_instr is"
    and split: "insts = xs @ itFLOW_MAN i # ys" and ok: "counter_ok i"
    and v: "in_range i (le_nat (var_cells vm xs i (flow_var st)))"
    and run: "foldE (\<lambda>s i. dp_exec sp i s) st is = Inr st'"
  shows "le_nat (var_cells vm xs i (flow_var st')) = next_val i (le_nat (var_cells vm xs i (flow_var st)))"
proof -
  from cmds obtain cs c ds where "is": "is = cs @ c # ds" and len: "length cs = length xs"
    and c: "cmd_of vm (itFLOW_MAN i) c"
    by (auto simp: split list_all2_append1 list_all2_Cons1)
  from run obtain s1 s2 where r1: "foldE (\<lambda>s i. dp_exec sp i s) st cs = Inr s1"
    and r2: "dp_exec sp c s1 = Inr s2" and r3: "foldE (\<lambda>s i. dp_exec sp i s) s2 ds = Inr st'"
    by (auto simp: "is" foldE_append bindE_simps)
  have "var_of_inst vm (itFLOW_MAN i)" using inv split by (simp add: table_inv_def)
  then have size: "fm_size_bytes i \<in> {1, 2, 4, 8}" by (simp add: var_of_inst_def)
  let ?p = "base_of vm + length (block_bytes xs)" and ?n = "unat (fm_size_bytes i)"
  have mine: "{base_of vm + length (block_bytes xs)..<base_of vm +
      length (block_bytes (xs @ [itFLOW_MAN i]))} = {?p..<?p + ?n}"
    by (simp add: block_bytes_def inst_bytes_def add.assoc)
  have rest: "footprint sp d \<inter> {?p..<?p + ?n} = {}" if "d \<in> set cs \<union> set ds" for d
    using rest_keeps_cells [OF inv lay rnd split cmds [unfolded "is"] len that, of sp]
    by (simp only: mine)
  have 1: "var_cells vm xs i (flow_var s1) = var_cells vm xs i (flow_var st)"
    unfolding var_cells_def
    by (rule agree_cells [OF foldE_footprint [OF _ r1]]) (use wf "is" rest in auto)
  have 3: "var_cells vm xs i (flow_var st') = var_cells vm xs i (flow_var s2)"
    unfolding var_cells_def
    by (rule agree_cells [OF foldE_footprint [OF _ r3]]) (use wf "is" rest in auto)
  obtain r where r: "vm_flow_var_offset vm (fm_var_name i) = Some r" "unat (vr_offset r) = ?p"
    using table_layout_place [OF lay split, of "fm_var_name i"] by (auto simp: var_key_def)
  have "unat (ucast (ucast (vr_offset r) :: u16) :: u8) = ?p"
    using table_var_fits(2) [OF _ r(1)] inv r(2) by (simp add: table_inv_def)
  moreover have "c = flow_man_cmd i (ucast (ucast (vr_offset r) :: u16))"
    using c r(1) by (simp add: cmd_of_def var_place_def)
  ultimately have "le_nat (var_cells vm xs i (flow_var s2)) =
      next_val i (le_nat (var_cells vm xs i (flow_var s1)))"
    using flow_man_exec [OF size ok, of "ucast (ucast (vr_offset r) :: u16)" s1 sp s2] v r2 1
    by (simp add: var_cells_def)
  with 1 3 show ?thesis by simp
qed

text \<open>The value the block starts with is the one before \<open>init_value\<close>.\<close>

lemma le_nat_le_bytes:
  assumes "unat (w :: u64) < 2 ^ (8 * n)" and "n \<le> 8"
  shows "le_nat (le_bytes n w) = unat w"
proof -
  have "le_nat (le_bytes n w) = unat (le_word (le_bytes n w) :: u64)"
    using assms(2) by (subst unat_le_word) auto
  also have "\<dots> = unat w" using assms(1)
    by (simp add: le_word_le_bytes unsigned_take_bit_eq take_bit_nat_eq_self)
  finally show ?thesis .
qed

lemma bss_init_next:
  assumes "counter_ok i"
  shows "in_range i (unat (get_bss_init_value i))"
    and "next_val i (unat (get_bss_init_value i)) = unat (fm_init_value i)"
proof -
  have le: "unat (fm_min_value i) \<le> unat (fm_init_value i)"
      "unat (fm_init_value i) \<le> unat (fm_max_value i)" and op: "fm_op i \<noteq> FLOW_VAR_OP_RANDOM"
    using assms by (auto simp: counter_ok_def word_le_nat_alt)
  have pred: "unat (fm_init_value i - 1) = unat (fm_init_value i) - 1"
    if "fm_init_value i \<noteq> fm_min_value i"
    using that le unat_sub [of 1 "fm_init_value i"]
    by (auto simp: word_unat_eq_iff word_le_nat_alt)
  have succ: "unat (fm_init_value i + 1) = unat (fm_init_value i) + 1"
    if "fm_init_value i \<noteq> fm_max_value i"
    using that le unat_inc [of "fm_init_value i" "fm_max_value i"]
    by (auto simp: word_unat_eq_iff word_less_nat_alt)
  show "in_range i (unat (get_bss_init_value i))"
    using le pred succ op
    by (cases "fm_op i") (auto simp: get_bss_init_value_def in_range_def word_unat_eq_iff)
  show "next_val i (unat (get_bss_init_value i)) = unat (fm_init_value i)"
    using le pred succ op
    by (cases "fm_op i") (auto simp: get_bss_init_value_def next_val_def word_unat_eq_iff)
qed

lemma initial_cells:
  assumes "counter_ok i" and "fm_size_bytes i \<in> {1, 2, 4, 8}"
  shows "le_nat (var_cells vm xs i (seed_bytes (vm_is_random_var vm) rand @
      block_bytes (xs @ itFLOW_MAN i # ys))) = unat (get_bss_init_value i)"
proof -
  have "var_cells vm xs i (seed_bytes (vm_is_random_var vm) rand @ block_bytes (xs @ itFLOW_MAN i # ys))
      = le_bytes (unat (fm_size_bytes i)) (get_bss_init_value i)"
    by (auto simp: var_cells_def cells_def base_of_def seed_bytes_def block_bytes_def inst_bytes_def)
  moreover have "unat (get_bss_init_value i) < 2 ^ (8 * unat (fm_size_bytes i))"
    using bss_init_next(1) [OF assms(1)] assms(1) by (auto simp: in_range_def counter_ok_def)
  ultimately show ?thesis using assms(2) by (auto intro!: le_nat_le_bytes)
qed

text \<open>Many packets.\<close>

definition run_packets :: "seed_ptr \<Rightarrow> mem \<Rightarrow> vm_state \<Rightarrow> mem list \<Rightarrow> vm_fault + vm_state" where
  "run_packets sp program st pkts =
     foldE (\<lambda>s p. StreamDPVmInstructionsRunner_run sp program (s\<lparr>pkt := p\<rparr>)) st pkts"

lemma count_up:
  assumes "lo \<le> v" and "v \<le> hi"
  shows "((\<lambda>v. if v = hi then lo else v + 1) ^^ k) v = (lo + (v - lo + k) mod (hi - lo + 1) :: nat)"
proof (induction k)
  case (Suc k)
  have "lo + (v - lo + k) mod (hi - lo + 1) = hi \<longleftrightarrow> (v - lo + k) mod (hi - lo + 1) = hi - lo"
    using assms by linarith
  then show ?case using Suc by (simp add: mod_Suc)
qed (use assms in simp)

lemma count_down:
  assumes "lo \<le> v" and "v \<le> hi"
  shows "((\<lambda>v. if v = lo then hi else v - 1) ^^ k) v = (hi - (hi - v + k) mod (hi - lo + 1) :: nat)"
proof (induction k)
  case (Suc k)
  have "(hi - v + k) mod (hi - lo + 1) \<le> hi - lo" by (metis Suc_eq_plus1 Suc_le_mono
    mod_less_divisor not_less_eq_eq le_simps(2) zero_less_Suc)
  then have "hi - (hi - v + k) mod (hi - lo + 1) = lo \<longleftrightarrow> (hi - v + k) mod (hi - lo + 1) = hi - lo"
    using assms by linarith
  then show ?case using Suc by (simp add: mod_Suc)
qed (use assms in simp)

lemma run_packets_advances:
  assumes "table_inv vm insts" and "table_layout vm insts"
    and "vm_is_random_var vm \<longleftrightarrow> list_ex is_random_inst insts"
    and "list_all2 (cmd_of vm) insts is" and "list_all wf_instr is"
    and "insts = xs @ itFLOW_MAN i # ys" and ok: "counter_ok i"
    and "in_range i (le_nat (var_cells vm xs i (flow_var st)))"
    and "run_packets sp (concat (map dp_enc is)) st pkts = Inr st'"
  shows "le_nat (var_cells vm xs i (flow_var st')) =
    (next_val i ^^ length pkts) (le_nat (var_cells vm xs i (flow_var st)))"
  using assms(8,9)
proof (induction pkts arbitrary: st)
  case Nil
  then show ?case by (simp add: run_packets_def)
next
  case (Cons p pkts)
  let ?s = "st\<lparr>pkt := p\<rparr>"
  from Cons.prems(2) obtain s where r1: "foldE (\<lambda>s i. dp_exec sp i s) ?s is = Inr s"
    and r2: "run_packets sp (concat (map dp_enc is)) s pkts = Inr st'"
    using runner_run_enc [OF assms(5), of sp "[]"]
    by (auto simp: run_packets_def bindE_simps StreamDPVmInstructionsRunner_run_def)
  have adv: "le_nat (var_cells vm xs i (flow_var s)) =
      next_val i (le_nat (var_cells vm xs i (flow_var st)))"
    using program_advances [OF assms(1-7) _ r1] Cons.prems(1) by simp
  then have "in_range i (le_nat (var_cells vm xs i (flow_var s)))"
    using next_val_in_range [OF ok Cons.prems(1)] by simp
  from Cons.IH [OF this r2] adv show ?case by (simp add: funpow_swap1)
qed

lemma next_val_iterate:
  assumes "counter_ok i"
  shows "(next_val i ^^ k) (unat (fm_init_value i)) =
    (if fm_op i = FLOW_VAR_OP_INC
     then unat (fm_min_value i) + (unat (fm_init_value i) - unat (fm_min_value i) + k) mod
            (unat (fm_max_value i) - unat (fm_min_value i) + 1)
     else unat (fm_max_value i) - (unat (fm_max_value i) - unat (fm_init_value i) + k) mod
            (unat (fm_max_value i) - unat (fm_min_value i) + 1))"
proof -
  have le: "unat (fm_min_value i) \<le> unat (fm_init_value i)"
    "unat (fm_init_value i) \<le> unat (fm_max_value i)"
    using assms by (auto simp: counter_ok_def word_le_nat_alt)
  show ?thesis
    using assms count_up [OF le] count_down [OF le]
    by (cases "fm_op i") (auto simp: counter_ok_def next_val_def [abs_def])
qed

section \<open>Faults\<close>

lemma dp_exec_faults:
  "dp_exec sp i st = Inl DivByZero \<Longrightarrow> uses_random i"
  "dp_exec sp i st = Inl ChecksumAccess \<Longrightarrow> \<exists>x. i = OpIpv4Fix x"
  by (cases i; auto simp: dp_exec_def uses_random_def run_inc_def run_dec_def fv_load_def
      fv_store_def bindE_simps liftE_def StreamDPOpIpv4Fix_run_def StreamDPOpPktWr8_wr_def
      StreamDPOpPktWr_wr_def pkt_store_def StreamDPOpClientsLimit_run_def client_update_def
      StreamDPOpClientsUnLimit_run_def run_rand_small_def vm_rand16_def get_seed_def set_seed_def
      run_rand32_def run_rand64_def vm_rand32_def vm_rand64_def assertE_def Let_def case_prod_beta
      split: option.splits if_splits seed_ptr.splits)+

lemma foldE_exec_no_fault:
  assumes "list_all wf_instr is" and "list_all (instr_fits (length (flow_var st)) W) is"
    and "W \<le> length (pkt st)" and "\<And>i. i \<in> set is \<Longrightarrow> \<not> uses_random i \<and> (\<forall>x. i \<noteq> OpIpv4Fix x)"
  shows "\<exists>st'. foldE (\<lambda>s i. dp_exec sp i s) st is = Inr st'"
  using assms
proof (induction "is" arbitrary: st)
  case (Cons i "is")
  have safe: "safe_from W st (dp_exec sp i st)" using Cons.prems by (intro dp_exec_safe) auto
  then obtain s where s: "dp_exec sp i st = Inr s"
    using Cons.prems(4) [of i] dp_exec_faults [of sp i st]
    by (cases "dp_exec sp i st") (auto simp: safe_from_def)
  with safe have "length (flow_var s) = length (flow_var st)" "length (pkt s) = length (pkt st)"
    by (auto simp: safe_from_def)
  then show ?case using Cons.IH [of s] Cons.prems s by simp
qed simp

lemma run_packets_no_fault:
  assumes wf: "list_all wf_instr is" and fit: "list_all (instr_fits B W) is"
    and pure: "\<And>i. i \<in> set is \<Longrightarrow> \<not> uses_random i \<and> (\<forall>x. i \<noteq> OpIpv4Fix x)"
    and "B = length (flow_var st)" and "\<And>p. p \<in> set pkts \<Longrightarrow> W \<le> length p"
  shows "\<exists>st'. run_packets sp (concat (map dp_enc is)) st pkts = Inr st'"
  using assms(4,5)
proof (induction pkts arbitrary: st)
  case (Cons p pkts)
  obtain s where s: "foldE (\<lambda>s i. dp_exec sp i s) (st\<lparr>pkt := p\<rparr>) is = Inr s"
    using foldE_exec_no_fault [OF wf, of "st\<lparr>pkt := p\<rparr>" W sp] fit pure Cons.prems by auto
  have "safe_from W (st\<lparr>pkt := p\<rparr>) (foldE (\<lambda>s i. dp_exec sp i s) (st\<lparr>pkt := p\<rparr>) is)"
    by (rule foldE_exec_safe [OF wf]) (use fit Cons.prems in auto)
  with s have "length (flow_var s) = length (flow_var st)" by (simp add: safe_from_def)
  then show ?case
    using Cons.IH [of s] Cons.prems s runner_run_enc [OF wf, of sp "[]"]
    by (simp add: run_packets_def StreamDPVmInstructionsRunner_run_def)
qed (simp add: run_packets_def)

lemma cmd_of_pure:
  assumes "cmd_of vm inst c" and "\<not> is_random_inst inst" and "\<forall>x. inst \<noteq> itFIX_IPV4_CS x"
  shows "\<not> uses_random c \<and> (\<forall>x. c \<noteq> OpIpv4Fix x)"
proof (cases inst)
  case (itFLOW_MAN i)
  then have "fm_op i \<noteq> FLOW_VAR_OP_RANDOM" using assms(2) by (simp add: is_random_inst_def)
  then show ?thesis
    using assms(1) itFLOW_MAN
    by (cases "fm_op i") (auto simp: cmd_of_def flow_man_cmd_def uses_random_def
        flow_man_opcode_def split: if_splits)
qed (use assms in \<open>auto simp: cmd_of_def pkt_wr_cmd_def client_cmd_def uses_random_def Let_def
      split: if_splits\<close>)

lemma compiled_block_size:
  assumes "compile rand vm pkt_len = Inr vm'" and "vm_inst_list vm \<noteq> []" and "vm_bss vm' = Some bss"
  shows "unat (vm_cur_var_offset vm') = length bss"
proof -
  obtain "is" where "table_layout vm' (vm_inst_list vm)"
    "vm_bss vm' = Some (seed_bytes (vm_is_random_var vm') rand @ block_bytes (vm_inst_list vm))"
    by (rule compile_program [OF assms(1,2)])
  then show ?thesis using assms(3) by (auto simp: table_layout_def seed_bytes_def)
qed

section \<open>Properties of the field engine\<close>

text \<open>A small program: a 16 bit counter from 3 to 7 starting at 5, written big-endian at octet 26.\<close>

definition demo_counter :: StreamVmInstructionFlowMan where
  "demo_counter = \<lparr>fm_var_name = ''a'', fm_size_bytes = 2, fm_op = FLOW_VAR_OP_INC,
     fm_init_value = 5, fm_min_value = 3, fm_max_value = 7\<rparr>"

definition demo_write :: StreamVmInstructionWriteToPkt where
  "demo_write = \<lparr>wp_flow_var_name = ''a'', wp_pkt_offset = 26, wp_add_value = 0,
     wp_is_big_endian = True\<rparr>"

definition demo_vm :: StreamVm where
  "demo_vm = add_instruction (add_instruction StreamVm_new (itFLOW_MAN demo_counter))
     (itPKT_WR demo_write)"

lemma demo_vm_compiles:
  "case compile 7 demo_vm 64 of Inl _ \<Rightarrow> False
   | Inr vm' \<Rightarrow> vm_bss vm' = Some [4, 0] \<and> vm_max_field_update vm' = 28"
  by code_simp

lemma demo_vm_obtain:
  obtains vm' where "compile 7 demo_vm 64 = Inr vm'" and "vm_bss vm' = Some [4, 0]"
    and "vm_max_field_update vm' = 28"
  using demo_vm_compiles by (cases "compile 7 demo_vm 64") auto

text \<open>
  C27. A compiled program is memory safe: whatever the packet and the state of the variables, the
  interpreter decodes it to the end, touches nothing outside the flow-variable block and writes
  nothing in the packet from \<open>m_max_field_update\<close> on.  The only faults left depend on data: a
  random range whose width is zero in the machine type, and an IP header length that leads the
  checksum out of the packet.
\<close>

theorem compiled_program_in_bounds:
  assumes "compile rand vm pkt_len = Inr vm'" and "vm_inst_list vm \<noteq> []"
    and "length (flow_var st) = unat (vm_cur_var_offset vm')" and "unat pkt_len \<le> length (pkt st)"
  shows "case StreamDPVmInstructionsRunner_run sp (vm_instructions vm') st of
      Inl e \<Rightarrow> e = DivByZero \<or> e = ChecksumAccess
    | Inr st' \<Rightarrow> length (flow_var st') = length (flow_var st) \<and> length (pkt st') = length (pkt st) \<and>
        drop (unat (vm_max_field_update vm')) (pkt st') = drop (unat (vm_max_field_update vm')) (pkt st)"
proof -
  obtain "is" where prog: "vm_instructions vm' = concat (map dp_enc is)" and wf: "list_all wf_instr is"
    and fit: "list_all (instr_fits (unat (vm_cur_var_offset vm')) (unat (vm_max_field_update vm'))) is"
    and le: "vm_max_field_update vm' \<le> pkt_len"
    by (rule compile_program [OF assms(1,2)])
  have "safe_from (unat (vm_max_field_update vm')) st (foldE (\<lambda>s i. dp_exec sp i s) st is)"
    using foldE_exec_safe [OF wf] fit assms(3,4) le by (simp add: word_le_nat_alt)
  then show ?thesis
    using runner_run_enc [OF wf, of sp "[]" st]
    by (simp add: prog safe_from_def StreamDPVmInstructionsRunner_run_def)
qed

theorem compiled_program_in_bounds_witness:
  "\<exists>vm'. compile 7 demo_vm 64 = Inr vm' \<and>
     (case StreamDPVmInstructionsRunner_run SeedOwn (vm_instructions vm')
        \<lparr>flow_var = [4, 0], pkt = replicate 64 0, rnd = 1\<rparr> of
      Inl e \<Rightarrow> e = DivByZero \<or> e = ChecksumAccess
    | Inr st' \<Rightarrow> length (flow_var st') = 2 \<and> length (pkt st') = 64 \<and>
        drop 28 (pkt st') = replicate 36 0)"
proof -
  obtain vm' where vm': "compile 7 demo_vm 64 = Inr vm'" "vm_bss vm' = Some [4, 0]"
    "vm_max_field_update vm' = 28" by (rule demo_vm_obtain)
  have ne: "vm_inst_list demo_vm \<noteq> []" by (simp add: demo_vm_def add_instruction_def)
  have "unat (vm_cur_var_offset vm') = 2"
    using compiled_block_size [OF vm'(1) ne vm'(2)] by simp
  then show ?thesis
    using compiled_program_in_bounds [OF vm'(1) ne, of "\<lparr>flow_var = [4, 0], pkt = replicate 64 0, rnd = 1\<rparr>"
        SeedOwn] vm' by (auto split: sum.splits)
qed

text \<open>
  C30. A compiled program without random variables and checksum fixes runs on every packet of the
  stream: no packet long enough for the stream makes the interpreter fault.
\<close>

theorem compiled_program_runs:
  assumes "compile rand vm pkt_len = Inr vm'" and "vm_inst_list vm \<noteq> []" and "vm_bss vm' = Some bss"
    and pure: "\<And>inst. inst \<in> set (vm_inst_list vm) \<Longrightarrow>
      \<not> is_random_inst inst \<and> (\<forall>x. inst \<noteq> itFIX_IPV4_CS x)"
    and len: "\<And>p. p \<in> set pkts \<Longrightarrow> length p = unat pkt_len"
  shows "\<exists>st'. run_packets sp (vm_instructions vm') \<lparr>flow_var = bss, pkt = [], rnd = s\<rparr> pkts = Inr st'"
proof -
  obtain "is" where prog: "vm_instructions vm' = concat (map dp_enc is)" and wf: "list_all wf_instr is"
    and fit: "list_all (instr_fits (unat (vm_cur_var_offset vm')) (unat (vm_max_field_update vm'))) is"
    and le: "vm_max_field_update vm' \<le> pkt_len" and cmds: "list_all2 (cmd_of vm') (vm_inst_list vm) is"
    by (rule compile_program [OF assms(1,2)])
  have "\<not> uses_random c \<and> (\<forall>x. c \<noteq> OpIpv4Fix x)" if "c \<in> set is" for c
    using list_all2_member [OF cmds that] pure cmd_of_pure by fastforce
  then show ?thesis
    unfolding prog
    by (intro run_packets_no_fault [OF wf fit])
      (use compiled_block_size [OF assms(1-3)] len le in \<open>auto simp: word_le_nat_alt\<close>)
qed

theorem compiled_program_runs_witness:
  "\<exists>vm' st'. compile 7 demo_vm 64 = Inr vm' \<and> run_packets SeedOwn (vm_instructions vm')
     \<lparr>flow_var = [4, 0], pkt = [], rnd = 1\<rparr> [replicate 64 0, replicate 64 1] = Inr st'"
proof -
  obtain vm' where vm': "compile 7 demo_vm 64 = Inr vm'" "vm_bss vm' = Some [4, 0]"
    by (rule demo_vm_obtain)
  have ne: "vm_inst_list demo_vm \<noteq> []" by (simp add: demo_vm_def add_instruction_def)
  have "\<exists>st'. run_packets SeedOwn (vm_instructions vm') \<lparr>flow_var = [4, 0], pkt = [], rnd = 1\<rparr>
      [replicate 64 0, replicate 64 1] = Inr st'"
    by (rule compiled_program_runs [OF vm'(1) ne vm'(2)])
      (auto simp: demo_vm_def add_instruction_def StreamVm_new_def is_random_inst_def
        demo_counter_def)
  then show ?thesis using vm'(1) by blast
qed

text \<open>
  C28. A counter flow variable takes exactly the values the user asked for, whatever the other
  instructions of the program are: after packet number \<open>k\<close> (from 0) an incrementing variable holds
  \<open>min + (init - min + k) mod (max - min + 1)\<close> and a decrementing one
  \<open>max - (max - init + k) mod (max - min + 1)\<close>; in particular the first packet carries \<open>init\<close>.
\<close>

theorem counter_variable_cycles:
  assumes "compile rand vm pkt_len = Inr vm'" and "vm_inst_list vm = xs @ itFLOW_MAN i # ys"
    and ok: "counter_ok i" and "vm_bss vm' = Some bss"
    and run: "run_packets sp (vm_instructions vm') \<lparr>flow_var = bss, pkt = [], rnd = s\<rparr> pkts = Inr st'"
    and ne: "pkts \<noteq> []"
  shows "\<exists>r. var_lookup vm' (fm_var_name i) = Some r \<and>
    le_nat (cells (unat (vr_offset r)) (unat (vr_size_bytes r)) (flow_var st')) =
      (if fm_op i = FLOW_VAR_OP_INC
       then unat (fm_min_value i) +
         (unat (fm_init_value i) - unat (fm_min_value i) + (length pkts - 1)) mod
           (unat (fm_max_value i) - unat (fm_min_value i) + 1)
       else unat (fm_max_value i) -
         (unat (fm_max_value i) - unat (fm_init_value i) + (length pkts - 1)) mod
           (unat (fm_max_value i) - unat (fm_min_value i) + 1))"
proof -
  have "vm_inst_list vm \<noteq> []" using assms(2) by simp
  with assms(1) obtain "is" where prog: "vm_instructions vm' = concat (map dp_enc is)"
    and wf: "list_all wf_instr is" and cmds: "list_all2 (cmd_of vm') (vm_inst_list vm) is"
    and inv: "table_inv vm' (vm_inst_list vm)" and lay: "table_layout vm' (vm_inst_list vm)"
    and b: "vm_bss vm' = Some (seed_bytes (vm_is_random_var vm') rand @ block_bytes (vm_inst_list vm))"
    and rnd: "vm_is_random_var vm' \<longleftrightarrow> list_ex is_random_inst (vm_inst_list vm)"
    by (rule compile_program)
  have "var_of_inst vm' (itFLOW_MAN i)" using inv assms(2) by (simp add: table_inv_def)
  then obtain r where size: "fm_size_bytes i \<in> {1, 2, 4, 8}"
    and r: "vm_flow_var_offset vm' (fm_var_name i) = Some r" "vr_size_bytes r = fm_size_bytes i"
    by (auto simp: var_of_inst_def)
  then have place: "unat (vr_offset r) = base_of vm' + length (block_bytes xs)"
    using table_layout_place [OF lay assms(2), of "fm_var_name i"] by (auto simp: var_key_def)
  have init: "le_nat (var_cells vm' xs i bss) = unat (get_bss_init_value i)"
    using initial_cells [OF ok size, of vm' xs rand ys] b assms(2,4) by simp
  then have "le_nat (var_cells vm' xs i (flow_var st')) =
      (next_val i ^^ length pkts) (unat (get_bss_init_value i))"
    using run_packets_advances [OF inv lay rnd cmds wf assms(2) ok _ run [unfolded prog]]
      bss_init_next(1) [OF ok] by simp
  also have "\<dots> = (next_val i ^^ (length pkts - 1)) (unat (fm_init_value i))"
    using ne bss_init_next(2) [OF ok] by (cases pkts) (simp_all add: funpow_swap1)
  finally show ?thesis
    using r place next_val_iterate [OF ok] by (simp add: var_lookup_def var_cells_def)
qed

theorem counter_variable_cycles_witness:
  "\<exists>vm' st' r. compile 7 demo_vm 64 = Inr vm' \<and> run_packets SeedOwn (vm_instructions vm')
     \<lparr>flow_var = [4, 0], pkt = [], rnd = 1\<rparr> (replicate 4 (replicate 64 0)) = Inr st' \<and>
     var_lookup vm' ''a'' = Some r \<and>
     le_nat (cells (unat (vr_offset r)) (unat (vr_size_bytes r)) (flow_var st')) = 3"
proof -
  obtain vm' where vm': "compile 7 demo_vm 64 = Inr vm'" "vm_bss vm' = Some [4, 0]"
    by (rule demo_vm_obtain)
  have list: "vm_inst_list demo_vm = [] @ itFLOW_MAN demo_counter # [itPKT_WR demo_write]"
    by (simp add: demo_vm_def add_instruction_def StreamVm_new_def)
  obtain "is" where prog: "vm_instructions vm' = concat (map dp_enc is)" "list_all wf_instr is"
    "list_all (instr_fits (unat (vm_cur_var_offset vm')) (unat (vm_max_field_update vm'))) is"
    "list_all2 (cmd_of vm') (vm_inst_list demo_vm) is"
    "vm_max_field_update vm' \<le> 64"
    by (rule compile_program [OF vm'(1)]) (auto simp: list)
  have "\<not> uses_random c \<and> (\<forall>x. c \<noteq> OpIpv4Fix x)" if "c \<in> set is" for c
    using list_all2_member [OF prog(4) that] cmd_of_pure
    by (fastforce simp: list is_random_inst_def demo_counter_def Cons_eq_append_conv)
  then obtain st' where st': "run_packets SeedOwn (vm_instructions vm')
      \<lparr>flow_var = [4, 0], pkt = [], rnd = 1\<rparr> (replicate 4 (replicate 64 0)) = Inr st'"
    using run_packets_no_fault [OF prog(2,3)] compiled_block_size [OF vm'(1) _ vm'(2)] prog(1,5)
    by (fastforce simp: list word_le_nat_alt)
  have "counter_ok demo_counter" by (simp add: counter_ok_def demo_counter_def)
  from counter_variable_cycles [OF vm'(1) list this vm'(2) st'] vm'(1) st'
  show ?thesis by (auto simp: demo_counter_def)
qed

text \<open>What later packet commands leave of an earlier one.\<close>

definition pkt_footprint :: "dp_instr \<Rightarrow> nat set" where
  "pkt_footprint i = (case i of
       OpIpv4Fix x \<Rightarrow> {unat (if_offset x) + 10..<unat (if_offset x) + 12}
     | OpW8 x \<Rightarrow> {unat (pw_pkt_offset x)..<unat (pw_pkt_offset x) + 1}
     | OpW16 x \<Rightarrow> {unat (pw_pkt_offset x)..<unat (pw_pkt_offset x) + 2}
     | OpW32 x \<Rightarrow> {unat (pw_pkt_offset x)..<unat (pw_pkt_offset x) + 4}
     | OpW64 x \<Rightarrow> {unat (pw_pkt_offset x)..<unat (pw_pkt_offset x) + 8}
     | _ \<Rightarrow> {})"

lemma pkt_store_agree:
  "pkt_store ofs (v :: 'v::len word) st = Inr st' \<Longrightarrow>
     agree {unat ofs..<unat ofs + LENGTH('v) div 8} (pkt st) (pkt st')"
  by (auto simp: pkt_store_def bindE_simps liftE_def intro: agree_mem_wr split: option.splits)

lemma updateCheckSum_agree:
  assumes "updateCheckSum m ip = Some m'"
  shows "agree {ip + 10..<ip + 12} m m'"
proof -
  from assms obtain m1 c where "mem_wr m (ip + 10) (0 :: u16) = Some m1"
    "mem_wr m1 (ip + 10) (c :: u16) = Some m'"
    by (auto simp: updateCheckSum_def split: option.splits)
  from agree_trans [OF this [THEN agree_mem_wr]] show ?thesis by (simp add: add.commute)
qed

lemma fv_store_pkt: "fv_store ofs (v :: 'v::len word) st = Inr st' \<Longrightarrow> pkt st' = pkt st"
  by (auto simp: fv_store_def bindE_simps liftE_def split: option.splits)

lemma rand_pkt:
  "vm_rand16 sp st = Inr (r, st') \<Longrightarrow> pkt st' = pkt st"
  "vm_rand32 sp st = Inr (r, st') \<Longrightarrow> pkt st' = pkt st"
  "vm_rand64 sp st = Inr (q, st') \<Longrightarrow> pkt st' = pkt st"
  by (cases sp; auto simp: vm_rand16_def vm_rand32_def vm_rand64_def set_seed_def bindE_simps
      liftE_def case_prod_beta Let_def split: option.splits)+

lemma dp_exec_pkt_footprint:
  assumes "dp_exec sp i st = Inr st'"
  shows "agree (pkt_footprint i) (pkt st) (pkt st')"
proof (cases i)
  case (OpIpv4Fix x)
  then show ?thesis
    using assms updateCheckSum_agree
    by (auto simp: dp_exec_def pkt_footprint_def StreamDPOpIpv4Fix_run_def split: option.splits)
next
  case (OpW8 x)
  then show ?thesis
    using assms by (auto simp: dp_exec_def pkt_footprint_def StreamDPOpPktWr8_wr_def bindE_simps
        dest!: pkt_store_agree)
next
  case (OpW16 x)
  then show ?thesis
    using assms by (auto simp: dp_exec_def pkt_footprint_def StreamDPOpPktWr_wr_def bindE_simps
        dest!: pkt_store_agree)
next
  case (OpW32 x)
  then show ?thesis
    using assms by (auto simp: dp_exec_def pkt_footprint_def StreamDPOpPktWr_wr_def bindE_simps
        dest!: pkt_store_agree)
next
  case (OpW64 x)
  then show ?thesis
    using assms by (auto simp: dp_exec_def pkt_footprint_def StreamDPOpPktWr_wr_def bindE_simps
        dest!: pkt_store_agree)
qed (use assms in \<open>auto simp: dp_exec_def pkt_footprint_def run_inc_def run_dec_def
      run_rand_small_def run_rand32_def run_rand64_def Let_def assertE_def bindE_simps liftE_def
      StreamDPOpClientsLimit_run_def StreamDPOpClientsUnLimit_run_def client_update_def
      split: if_splits option.splits dest!: fv_store_pkt rand_pkt\<close>)

lemma foldE_pkt_footprint:
  assumes "foldE (\<lambda>s i. dp_exec sp i s) st is = Inr st'"
  shows "agree (\<Union>i\<in>set is. pkt_footprint i) (pkt st) (pkt st')"
  using assms
proof (induction "is" arbitrary: st)
  case (Cons i "is")
  then obtain s where "dp_exec sp i st = Inr s" "foldE (\<lambda>s i. dp_exec sp i s) s is = Inr st'"
    by (auto simp: bindE_simps)
  with Cons show ?case
    using agree_trans [OF dp_exec_pkt_footprint] by (fastforce simp: Un_commute)
qed simp

lemma le_bytes_bswap:
  assumes "8 dvd LENGTH('a)"
  shows "le_bytes (LENGTH('a) div 8) (bswap (w :: 'a::len word)) = rev (le_bytes (LENGTH('a) div 8) w)"
  using le_bytes_le_word [of "rev (le_bytes (LENGTH('a) div 8) w)", where 'a = 'a] assms
  by (simp add: bswap_def)

lemma mem_wr_cells:
  assumes "mem_wr m i (w :: 'a::len word) = Some m'"
  shows "cells i (LENGTH('a) div 8) m' = le_bytes (LENGTH('a) div 8) w"
  using assms by (auto simp: mem_wr_def cells_def split: if_splits)

lemma le_nat_le_bytes_full:
  assumes "8 dvd LENGTH('a)"
  shows "le_nat (le_bytes (LENGTH('a) div 8) (w :: 'a::len word)) = unat w"
  using assms unat_le_word [of "le_bytes (LENGTH('a) div 8) w", where 'a = 'a]
  by (simp add: le_word_le_bytes)

lemma pkt_wr_cells:
  fixes x :: "'v::len word StreamDPOpPktWr"
  assumes "8 dvd LENGTH('v)" and "StreamDPOpPktWr_wr x st = Inr st'"
  shows "int (le_nat ((if is_big x then rev else id)
      (cells (unat (pw_pkt_offset x)) (LENGTH('v) div 8) (pkt st')))) =
    uint (of_nat (le_nat (cells (unat (pw_offset x)) (LENGTH('v) div 8) (flow_var st))) + pw_val_offset x)"
proof -
  from assms(2) obtain v where v: "fv_load (pw_offset x) st = Inr (v :: 'v word)"
    and w: "mem_wr (pkt st) (unat (pw_pkt_offset x))
      (if is_big x then bswap (v + pw_val_offset x) else v + pw_val_offset x) = Some (pkt st')"
    by (auto simp: StreamDPOpPktWr_wr_def pkt_store_def bindE_simps liftE_def split: option.splits)
  have "v = of_nat (le_nat (cells (unat (pw_offset x)) (LENGTH('v) div 8) (flow_var st)))"
    by (simp add: fv_load_cells(1) [OF v assms(1), symmetric])
  then show ?thesis
    using mem_wr_cells [OF w] assms(1)
    by (auto simp: le_bytes_bswap le_nat_le_bytes_full rev_swap)
qed

lemma pkt_wr8_cells:
  assumes "StreamDPOpPktWr8_wr x st = Inr st'"
  shows "int (le_nat ((if b then rev else id) (cells (unat (pw_pkt_offset x)) 1 (pkt st')))) =
    uint (of_nat (le_nat (cells (unat (pw_offset x)) 1 (flow_var st))) + pw_val_offset x)"
proof -
  have "StreamDPOpPktWr8_wr x st = StreamDPOpPktWr_wr (x\<lparr>pw_flags := 0\<rparr>) st"
    by (simp add: StreamDPOpPktWr8_wr_def StreamDPOpPktWr_wr_def is_big_def PKT_WR_IS_BIG_def)
  then have "int (le_nat (cells (unat (pw_pkt_offset x)) 1 (pkt st'))) =
      uint (of_nat (le_nat (cells (unat (pw_offset x)) 1 (flow_var st))) + pw_val_offset x)"
    using pkt_wr_cells [of "x\<lparr>pw_flags := 0\<rparr>" st st'] assms
    by (simp add: is_big_def PKT_WR_IS_BIG_def)
  moreover have "rev (cells i 1 m) = cells i 1 m" for i m
    by (cases "drop i m") (simp_all add: cells_def)
  ultimately show ?thesis by simp
qed

lemma ucast_as_scast:
  assumes "LENGTH('v) \<le> 32"
  shows "(ucast (k :: 32 word) :: 'v::len word) = scast k"
proof (rule bit_word_eqI)
  fix n
  assume "n < LENGTH('v)"
  with assms have "min 31 n = n" by simp
  then show "bit (ucast k :: 'v word) n \<longleftrightarrow> bit (scast k :: 'v word) n"
    by (simp add: bit_ucast_iff bit_signed_iff)
qed

lemma uint_of_nat_plus_scast:
  "uint (of_nat n + scast (k :: 32 word) :: 'v::len word) = (int n + sint k) mod 2 ^ LENGTH('v)"
proof -
  have "(of_nat n + scast k :: 'v word) = of_int (int n + sint k)" by simp
  then show ?thesis by (simp only: uint_word_of_int)
qed

lemma pkt_wr_cmd_exec:
  assumes size: "sz \<in> {1, 2, 4, 8}" and run: "dp_exec sp (pkt_wr_cmd w sz ofs) st = Inr st'"
  shows "int (le_nat ((if wp_is_big_endian w then rev else id)
      (cells (unat (wp_pkt_offset w)) (unat sz) (pkt st')))) =
    (int (le_nat (cells (unat ofs) (unat sz) (flow_var st))) + sint (wp_add_value w)) mod
      2 ^ (8 * unat sz)"
    and "flow_var st' = flow_var st"
proof -
  have big: "is_big \<lparr>pw_op = a, pw_flags = if wp_is_big_endian w then PKT_WR_IS_BIG else 0,
      pw_offset = b, pw_pkt_offset = c, pw_val_offset = d\<rparr> \<longleftrightarrow> wp_is_big_endian w"
    for a b c and d :: "'z"
    by (simp add: is_big_def PKT_WR_IS_BIG_def)
  from size consider "sz = 1" | "sz = 2" | "sz = 4" | "sz = 8" by auto
  then show "int (le_nat ((if wp_is_big_endian w then rev else id)
      (cells (unat (wp_pkt_offset w)) (unat sz) (pkt st')))) =
    (int (le_nat (cells (unat ofs) (unat sz) (flow_var st))) + sint (wp_add_value w)) mod
      2 ^ (8 * unat sz)"
  proof cases
    case 1
    then have "StreamDPOpPktWr8_wr \<lparr>pw_op = itPKT_WR8,
        pw_flags = if wp_is_big_endian w then PKT_WR_IS_BIG else 0, pw_offset = ofs,
        pw_pkt_offset = wp_pkt_offset w, pw_val_offset = ucast (wp_add_value w)\<rparr> st = Inr st'"
      using run by (simp add: pkt_wr_cmd_def dp_exec_def Let_def)
    from pkt_wr8_cells [OF this] 1 show ?thesis
      by (simp add: ucast_as_scast uint_of_nat_plus_scast)
  next
    case 2
    then have "StreamDPOpPktWr_wr \<lparr>pw_op = itPKT_WR16,
        pw_flags = if wp_is_big_endian w then PKT_WR_IS_BIG else 0, pw_offset = ofs,
        pw_pkt_offset = wp_pkt_offset w, pw_val_offset = ucast (wp_add_value w) :: u16\<rparr> st = Inr st'"
      using run by (simp add: pkt_wr_cmd_def dp_exec_def Let_def)
    from pkt_wr_cells [OF _ this] 2 show ?thesis
      by (simp add: big ucast_as_scast uint_of_nat_plus_scast)
  next
    case 3
    then have "StreamDPOpPktWr_wr \<lparr>pw_op = itPKT_WR32,
        pw_flags = if wp_is_big_endian w then PKT_WR_IS_BIG else 0, pw_offset = ofs,
        pw_pkt_offset = wp_pkt_offset w, pw_val_offset = ucast (wp_add_value w) :: u32\<rparr> st = Inr st'"
      using run by (simp add: pkt_wr_cmd_def dp_exec_def Let_def)
    from pkt_wr_cells [OF _ this] 3 show ?thesis
      using uint_of_nat_plus_scast [where 'v = 32 and k = "wp_add_value w"] by (simp add: big)
  next
    case 4
    then have "StreamDPOpPktWr_wr \<lparr>pw_op = itPKT_WR64,
        pw_flags = if wp_is_big_endian w then PKT_WR_IS_BIG else 0, pw_offset = ofs,
        pw_pkt_offset = wp_pkt_offset w, pw_val_offset = scast (wp_add_value w) :: u64\<rparr> st
        = Inr st'"
      using run by (simp add: pkt_wr_cmd_def dp_exec_def Let_def)
    from pkt_wr_cells [OF _ this] 4 show ?thesis
      by (simp add: big uint_of_nat_plus_scast)
  qed
  show "flow_var st' = flow_var st"
    using run size by (auto simp: pkt_wr_cmd_def dp_exec_def Let_def dest: pkt_ops_keep_vars)
qed

text \<open>A later instruction that leaves the variables and the field of a packet write alone.\<close>

definition keeps_field :: "StreamVm \<Rightarrow> nat \<Rightarrow> nat \<Rightarrow> StreamVmInstruction \<Rightarrow> bool" where
  "keeps_field vm ofs n inst = (case inst of
       itPKT_WR u \<Rightarrow> (case var_lookup vm (wp_flow_var_name u) of
           Some q \<Rightarrow> ofs + n \<le> unat (wp_pkt_offset u) \<or>
                     unat (wp_pkt_offset u) + unat (vr_size_bytes q) \<le> ofs
         | None \<Rightarrow> False)
     | itFIX_IPV4_CS f \<Rightarrow> ofs + n \<le> unat (fx_pkt_offset f) + 10 \<or> unat (fx_pkt_offset f) + 12 \<le> ofs
     | _ \<Rightarrow> False)"

lemma keeps_field_footprint:
  assumes "table_wf vm" and "cmd_of vm inst c" and "keeps_field vm ofs n inst"
  shows "footprint sp c = {}" and "pkt_footprint c \<inter> {ofs..<ofs + n} = {}"
proof -
  show "footprint sp c = {}"
    using assms by (cases inst) (auto simp: keeps_field_def cmd_of_def footprint_def
        uses_random_def pkt_wr_cmd_def Let_def split: if_splits)
  show "pkt_footprint c \<inter> {ofs..<ofs + n} = {}"
  proof (cases inst)
    case (itPKT_WR u)
    then obtain q where q: "vm_flow_var_offset vm (wp_flow_var_name u) = Some q"
      "ofs + n \<le> unat (wp_pkt_offset u) \<or> unat (wp_pkt_offset u) + unat (vr_size_bytes q) \<le> ofs"
      using assms(3) by (auto simp: keeps_field_def var_lookup_def split: option.splits)
    then have "pkt_footprint c = {unat (wp_pkt_offset u)..<unat (wp_pkt_offset u) +
        unat (vr_size_bytes q)}"
      using assms(2) itPKT_WR table_var_fits(3) [OF assms(1) q(1)]
      by (auto simp: cmd_of_def var_place_def pkt_wr_cmd_def Let_def pkt_footprint_def)
    then show ?thesis using q(2) by auto
  qed (use assms in \<open>auto simp: keeps_field_def cmd_of_def pkt_footprint_def\<close>)
qed

text \<open>
  C29. A packet write puts the current value of its variable, plus the constant of the
  instruction, into the field of the packet, in the byte order asked for and modulo the width of
  the variable; later writes and checksum fixes elsewhere in the packet leave it there.
\<close>

theorem packet_write_value:
  assumes "compile rand vm pkt_len = Inr vm'" and insts: "vm_inst_list vm = xs @ itPKT_WR w # ys"
    and run: "StreamDPVmInstructionsRunner_run sp (vm_instructions vm') st = Inr st'"
    and var: "var_lookup vm' (wp_flow_var_name w) = Some r"
    and later: "list_all (keeps_field vm' (unat (wp_pkt_offset w)) (unat (vr_size_bytes r))) ys"
  shows "int (le_nat ((if wp_is_big_endian w then rev else id)
      (cells (unat (wp_pkt_offset w)) (unat (vr_size_bytes r)) (pkt st')))) =
    (int (le_nat (cells (unat (vr_offset r)) (unat (vr_size_bytes r)) (flow_var st'))) +
      sint (wp_add_value w)) mod 2 ^ (8 * unat (vr_size_bytes r))"
proof -
  have "vm_inst_list vm \<noteq> []" using insts by simp
  with assms(1) obtain "is" where prog: "vm_instructions vm' = concat (map dp_enc is)"
    and wf: "list_all wf_instr is" and cmds: "list_all2 (cmd_of vm') (vm_inst_list vm) is"
    and inv: "table_inv vm' (vm_inst_list vm)"
    by (rule compile_program)
  from cmds obtain cs c ds where "is": "is = cs @ c # ds" and c: "cmd_of vm' (itPKT_WR w) c"
    and ds: "list_all2 (cmd_of vm') ys ds"
    by (auto simp: insts list_all2_append1 list_all2_Cons1)
  from run obtain s1 s2 where r2: "dp_exec sp c s1 = Inr s2"
    and r3: "foldE (\<lambda>s i. dp_exec sp i s) s2 ds = Inr st'"
    using runner_run_enc [OF wf, of sp "[]"]
    by (auto simp: prog "is" StreamDPVmInstructionsRunner_run_def foldE_append bindE_simps)
  have twf: "table_wf vm'" using inv by (simp add: table_inv_def)
  have r: "vm_flow_var_offset vm' (wp_flow_var_name w) = Some r"
    using var by (simp add: var_lookup_def)
  note fits = table_var_fits [OF twf r]
  have "c = pkt_wr_cmd w (vr_size_bytes r) (ucast (ucast (vr_offset r) :: u16))"
    using c r by (auto simp: cmd_of_def var_place_def)
  with r2 have exec: "dp_exec sp (pkt_wr_cmd w (vr_size_bytes r) (ucast (ucast (vr_offset r) :: u16))) s1
      = Inr s2" by simp
  have quiet: "footprint sp d = {}" "pkt_footprint d \<inter> {unat (wp_pkt_offset w)..<
      unat (wp_pkt_offset w) + unat (vr_size_bytes r)} = {}" if mem: "d \<in> set ds" for d
  proof -
    obtain inst where "cmd_of vm' inst d"
      "keeps_field vm' (unat (wp_pkt_offset w)) (unat (vr_size_bytes r)) inst"
      using list_all2_member [OF ds mem] later by auto
    then show "footprint sp d = {}" "pkt_footprint d \<inter> {unat (wp_pkt_offset w)..<
        unat (wp_pkt_offset w) + unat (vr_size_bytes r)} = {}"
      by (rule keeps_field_footprint [OF twf])+
  qed
  have "agree {} (flow_var s2) (flow_var st')"
    using foldE_footprint [OF _ r3] wf quiet(1) "is" by simp
  then have "flow_var st' = flow_var s2" by (auto simp: agree_def intro: nth_equalityI)
  moreover have "cells (unat (wp_pkt_offset w)) (unat (vr_size_bytes r)) (pkt st') =
      cells (unat (wp_pkt_offset w)) (unat (vr_size_bytes r)) (pkt s2)"
    by (rule agree_cells [OF foldE_pkt_footprint [OF r3]]) (use quiet(2) in auto)
  ultimately show ?thesis
    using pkt_wr_cmd_exec [OF fits(3) exec] fits(2) by simp
qed

lemma demo_vm_run:
  "case compile 7 demo_vm 64 of Inl _ \<Rightarrow> False
   | Inr vm' \<Rightarrow> var_lookup vm' ''a'' = Some \<lparr>vr_offset = 0, vr_size_bytes = 2\<rparr> \<and>
       (case StreamDPVmInstructionsRunner_run SeedOwn (vm_instructions vm')
          \<lparr>flow_var = [4, 0], pkt = replicate 64 0, rnd = 1\<rparr> of
        Inl _ \<Rightarrow> False
      | Inr st' \<Rightarrow> flow_var st' = [5, 0] \<and> pkt st' = replicate 27 0 @ 5 # replicate 36 0)"
  by code_simp

theorem packet_write_value_witness:
  "\<exists>vm' st'. compile 7 demo_vm 64 = Inr vm' \<and>
     StreamDPVmInstructionsRunner_run SeedOwn (vm_instructions vm')
       \<lparr>flow_var = [4, 0], pkt = replicate 64 0, rnd = 1\<rparr> = Inr st' \<and>
     int (le_nat (rev (cells 26 2 (pkt st')))) = (int (le_nat (cells 0 2 (flow_var st'))) + 0) mod 2 ^ 16 \<and>
     le_nat (cells 0 2 (flow_var st')) = 5"
proof -
  obtain vm' st' where vm': "compile 7 demo_vm 64 = Inr vm'"
      "var_lookup vm' ''a'' = Some \<lparr>vr_offset = 0, vr_size_bytes = 2\<rparr>"
    and st': "StreamDPVmInstructionsRunner_run SeedOwn (vm_instructions vm')
        \<lparr>flow_var = [4, 0], pkt = replicate 64 0, rnd = 1\<rparr> = Inr st'" "flow_var st' = [5, 0]"
    using demo_vm_run by (auto split: sum.splits)
  have insts: "vm_inst_list demo_vm = [itFLOW_MAN demo_counter] @ itPKT_WR demo_write # []"
    by (simp add: demo_vm_def add_instruction_def StreamVm_new_def)
  show ?thesis
    using packet_write_value [OF vm'(1) insts st'(1), of "\<lparr>vr_offset = 0, vr_size_bytes = 2\<rparr>"] vm' st'
    by (simp add: demo_write_def) (simp add: cells_def)
qed

end
