(* ===== verification/Stream_Vm_Fields.thy ===== *)
theory Stream_Vm_Fields
  imports Stream_Vm_Dp
begin

text \<open>
  The values the data-path instructions produce on their own: the enumeration of client addresses
  and ports by the two client instructions, and the range of the random variables.
\<close>

section \<open>Client enumeration\<close>

text \<open>
  Flow number \<open>j\<close> of a client pool of \<open>R\<close> addresses and \<open>P\<close> ports: the address runs fastest.
\<close>

definition flow_at :: "nat \<Rightarrow> nat \<Rightarrow> nat \<Rightarrow> nat \<Rightarrow> nat \<Rightarrow> StreamDPFlowClient \<Rightarrow> bool" where
  "flow_at ip0 R port0 P j lp \<longleftrightarrow>
     unat (cur_ip lp) = ip0 + j mod R \<and> unat (cur_port lp) = port0 + (j div R) mod P"

text \<open>One advance of address and port, the part the two instructions share.\<close>

lemma flow_at_advance:
  fixes lp :: StreamDPFlowClient
  assumes at: "flow_at (unat lo) (unat hi - unat lo + 1) port0 P j lp"
    and "lo \<le> hi" and hi: "unat hi + 1 < 2 ^ 32" and "0 < P"
    and next_port: "\<And>p. unat p = port0 + (j div (unat hi - unat lo + 1)) mod P \<Longrightarrow>
      unat (wrap (p + 1)) = port0 + (j div (unat hi - unat lo + 1) + 1) mod P"
  shows "cur_ip lp + 1 > hi \<Longrightarrow>
      flow_at (unat lo) (unat hi - unat lo + 1) port0 P (Suc j)
        (lp\<lparr>cur_ip := lo, cur_port := wrap (cur_port lp + 1)\<rparr>)"
    and "\<not> cur_ip lp + 1 > hi \<Longrightarrow>
      flow_at (unat lo) (unat hi - unat lo + 1) port0 P (Suc j) (lp\<lparr>cur_ip := cur_ip lp + 1\<rparr>)"
proof -
  let ?R = "unat hi - unat lo + 1"
  have lt: "j mod ?R < ?R" by simp
  have le: "unat lo \<le> unat hi" using assms(2) by (simp add: word_le_nat_alt)
  have ip: "unat (cur_ip lp) = unat lo + j mod ?R" using at by (simp add: flow_at_def)
  then have "unat (cur_ip lp) \<le> unat hi" using lt le by linarith
  then have suc: "unat (cur_ip lp + 1) = unat lo + j mod ?R + 1"
    using hi ip unat_suc_word [of "cur_ip lp"] by simp
  have gt: "cur_ip lp + 1 > hi \<longleftrightarrow> j mod ?R = ?R - 1"
    unfolding word_less_nat_alt suc using lt le by linarith
  show "flow_at (unat lo) ?R port0 P (Suc j) (lp\<lparr>cur_ip := lo, cur_port := wrap (cur_port lp + 1)\<rparr>)"
    if "cur_ip lp + 1 > hi"
    using that gt next_port at div_mod_Suc [of ?R j] by (simp add: flow_at_def)
  show "flow_at (unat lo) ?R port0 P (Suc j) (lp\<lparr>cur_ip := cur_ip lp + 1\<rparr>)"
    if "\<not> cur_ip lp + 1 > hi"
    using that gt suc at div_mod_Suc [of ?R j] by (simp add: flow_at_def)
qed

lemma port_wrap:
  assumes "unat (p :: u16) = unat lo + q mod (unat hi - unat lo + 1)" and "lo \<le> hi"
    and "unat hi + 1 < 2 ^ 16"
  shows "unat (if p + 1 > hi then lo else p + 1) = unat lo + (q + 1) mod (unat hi - unat lo + 1)"
proof -
  let ?P = "unat hi - unat lo + 1"
  have lt: "q mod ?P < ?P" by simp
  have le: "unat lo \<le> unat hi" using assms(2) by (simp add: word_le_nat_alt)
  have "unat p \<le> unat hi" using assms(1) lt le by linarith
  then have suc: "unat (p + 1) = unat p + 1" using assms(3) by (intro unat_suc_word) simp
  have "p + 1 > hi \<longleftrightarrow> q mod ?P = ?P - 1"
    unfolding word_less_nat_alt suc assms(1) using lt le by linarith
  then show ?thesis using suc assms(1) div_mod_Suc(1) [of ?P q] by auto
qed

lemma port_wrap_unlimited:
  assumes "unat (p :: u16) = 1025 + q mod 64511"
  shows "unat (if p + 1 = 0 then CLIENT_UNLIMITED_MIN_PORT else p + 1) = 1025 + (q + 1) mod 64511"
proof (cases "q mod 64511 = 64510")
  case True
  then have "p = 65535" using assms by (simp add: word_unat_eq_iff)
  then show ?thesis using True by (simp add: CLIENT_UNLIMITED_MIN_PORT_def mod_Suc)
next
  case False
  have "q mod 64511 < 64511" by simp
  then have "unat (p + 1) = unat p + 1"
    using False assms by (intro unat_suc_word) simp
  then show ?thesis using False assms by (auto simp: mod_Suc unat_eq_0)
qed

lemma client_unlimit_step_flow:
  assumes "flow_at (unat (cu_min_ip ins)) (unat (cu_max_ip ins) - unat (cu_min_ip ins) + 1) 1025 64511 j lp"
    and "cu_min_ip ins \<le> cu_max_ip ins" and "unat (cu_max_ip ins) + 1 < 2 ^ 32"
  shows "flow_at (unat (cu_min_ip ins)) (unat (cu_max_ip ins) - unat (cu_min_ip ins) + 1) 1025 64511
    (Suc j) (client_unlimit_step ins lp)"
proof -
  have p: "unat (if p + 1 = 0 then CLIENT_UNLIMITED_MIN_PORT else p + 1) = 1025 +
      (j div (unat (cu_max_ip ins) - unat (cu_min_ip ins) + 1) + 1) mod 64511"
    if "unat p = 1025 + (j div (unat (cu_max_ip ins) - unat (cu_min_ip ins) + 1)) mod 64511" for p
    using port_wrap_unlimited [OF that] .
  note adv = flow_at_advance [OF assms, where
      wrap = "\<lambda>p. if p = 0 then CLIENT_UNLIMITED_MIN_PORT else p", OF _ p]
  show ?thesis
    using adv by (auto simp: client_unlimit_step_def Let_def)
qed

text \<open>The limited instruction restarts after \<open>limit_flows\<close> flows when the limit is not zero.\<close>

definition flow_number :: "nat \<Rightarrow> nat \<Rightarrow> nat" where
  "flow_number limit k = (if limit = 0 then k else k mod limit)"

definition limited_at :: "StreamDPOpClientsLimit \<Rightarrow> nat \<Rightarrow> StreamDPFlowClient \<Rightarrow> bool" where
  "limited_at ins k lp \<longleftrightarrow>
     flow_at (unat (cl_min_ip ins)) (unat (cl_max_ip ins) - unat (cl_min_ip ins) + 1)
       (unat (cl_min_port ins)) (unat (cl_max_port ins) - unat (cl_min_port ins) + 1)
       (flow_number (unat (cl_limit_flows ins)) k) lp \<and>
     (cl_limit_flows ins \<noteq> 0 \<longrightarrow>
       unat (cur_flow_id lp) = flow_number (unat (cl_limit_flows ins)) k + 1)"

text \<open>Pool bounds that do not touch the end of their machine type.\<close>

definition pool_ok :: "StreamDPOpClientsLimit \<Rightarrow> bool" where
  "pool_ok ins \<longleftrightarrow> cl_min_ip ins \<le> cl_max_ip ins \<and> unat (cl_max_ip ins) + 1 < 2 ^ 32 \<and>
     cl_min_port ins \<le> cl_max_port ins \<and> unat (cl_max_port ins) + 1 < 2 ^ 16 \<and>
     unat (cl_limit_flows ins) + 1 < 2 ^ 32"

lemma client_limit_advance:
  assumes "pool_ok ins"
    and "flow_at (unat (cl_min_ip ins)) (unat (cl_max_ip ins) - unat (cl_min_ip ins) + 1)
       (unat (cl_min_port ins)) (unat (cl_max_port ins) - unat (cl_min_port ins) + 1) j lp"
  shows "flow_at (unat (cl_min_ip ins)) (unat (cl_max_ip ins) - unat (cl_min_ip ins) + 1)
       (unat (cl_min_port ins)) (unat (cl_max_port ins) - unat (cl_min_port ins) + 1) (Suc j)
       (client_limit_step (ins\<lparr>cl_limit_flows := 0\<rparr>) lp)"
proof -
  have p: "unat (if p + 1 > cl_max_port ins then cl_min_port ins else p + 1) = unat (cl_min_port ins) +
      (j div (unat (cl_max_ip ins) - unat (cl_min_ip ins) + 1) + 1) mod
        (unat (cl_max_port ins) - unat (cl_min_port ins) + 1)"
    if "unat p = unat (cl_min_port ins) + (j div (unat (cl_max_ip ins) - unat (cl_min_ip ins) + 1)) mod
        (unat (cl_max_port ins) - unat (cl_min_port ins) + 1)" for p
    using port_wrap [OF that] assms(1) by (simp add: pool_ok_def)
  have "cl_min_ip ins \<le> cl_max_ip ins" "unat (cl_max_ip ins) + 1 < 2 ^ 32"
    using assms(1) by (auto simp: pool_ok_def)
  note adv = flow_at_advance [OF assms(2) this, where
      wrap = "\<lambda>p. if p > cl_max_port ins then cl_min_port ins else p", OF _ p]
  show ?thesis
    using adv by (auto simp: client_limit_step_def Let_def)
qed

lemma client_limit_step_cases:
  "client_limit_step ins lp =
     (let lp' = client_limit_step (ins\<lparr>cl_limit_flows := 0\<rparr>) lp in
      if cl_limit_flows ins = 0 then lp'
      else if cur_flow_id lp + 1 > cl_limit_flows ins
      then lp'\<lparr>cur_flow_id := 1, cur_ip := cl_min_ip ins, cur_port := cl_min_port ins\<rparr>
      else lp'\<lparr>cur_flow_id := cur_flow_id lp + 1\<rparr>)"
  by (simp add: client_limit_step_def Let_def)

lemma client_limit_step_flow:
  assumes ok: "pool_ok ins" and at: "limited_at ins k lp"
  shows "limited_at ins (Suc k) (client_limit_step ins lp)"
proof -
  let ?L = "unat (cl_limit_flows ins)" and ?lp = "client_limit_step (ins\<lparr>cl_limit_flows := 0\<rparr>) lp"
  have adv: "flow_at (unat (cl_min_ip ins)) (unat (cl_max_ip ins) - unat (cl_min_ip ins) + 1)
       (unat (cl_min_port ins)) (unat (cl_max_port ins) - unat (cl_min_port ins) + 1)
       (Suc (flow_number ?L k)) ?lp"
    using client_limit_advance [OF ok] at by (simp add: limited_at_def)
  show ?thesis
  proof (cases "cl_limit_flows ins = 0")
    case True
    then show ?thesis
      using adv client_limit_step_cases [of ins lp]
      by (simp add: limited_at_def flow_number_def)
  next
    case False
    then have pos: "0 < ?L" by (simp add: unat_gt_0)
    have id: "unat (cur_flow_id lp) = k mod ?L + 1"
      using at False by (auto simp: limited_at_def flow_number_def unat_eq_0)
    have lt: "k mod ?L < ?L" using pos by simp
    have suc: "unat (cur_flow_id lp + 1) = k mod ?L + 2"
      using unat_suc_word [of "cur_flow_id lp"] id lt ok by (simp add: pool_ok_def)
    have gt: "cur_flow_id lp + 1 > cl_limit_flows ins \<longleftrightarrow> k mod ?L = ?L - 1"
      unfolding word_less_nat_alt suc using lt by linarith
    show ?thesis
    proof (cases "k mod ?L = ?L - 1")
      case True
      then have "flow_number ?L (Suc k) = 0"
        using pos div_mod_Suc(1) [OF pos, of k] by (simp add: flow_number_def)
      then show ?thesis
        using True gt False client_limit_step_cases [of ins lp]
        by (simp add: limited_at_def flow_at_def Let_def)
    next
      case neq: False
      then have "flow_number ?L (Suc k) = Suc (flow_number ?L k)"
        using pos div_mod_Suc(1) [OF pos, of k] by (simp add: flow_number_def)
      then show ?thesis
        using neq gt False adv suc client_limit_step_cases [of ins lp] pos
        by (simp add: limited_at_def flow_at_def Let_def flow_number_def)
    qed
  qed
qed

text \<open>The first packet turns the initial block into flow 0.\<close>

lemma client_limit_first:
  assumes ok: "pool_ok ins" and "0 < cl_min_ip ins" and ip: "cur_ip lp = cl_min_ip ins - 1"
    and "cur_port lp = cl_min_port ins" and "cur_flow_id lp = 0"
  shows "limited_at ins 0 (client_limit_step ins lp)"
proof -
  have "\<not> cl_min_ip ins > cl_max_ip ins" using ok by (simp add: pool_ok_def not_less)
  moreover have "\<not> 1 > cl_limit_flows ins" if "cl_limit_flows ins \<noteq> 0"
    using that by (simp add: word_less_1)
  ultimately show ?thesis
    using assms
    by (auto simp: limited_at_def flow_at_def flow_number_def client_limit_step_def Let_def)
qed

section \<open>Properties\<close>

text \<open>
  The limited client instruction enumerates the flows of its pool: packet number \<open>k\<close> (from 0)
  gets flow \<open>k\<close>, or \<open>k mod limit\<close> when there is a limit, the address counting fastest and
  the port advancing after each round of the addresses; both stay in their ranges.  The start
  state is the one \<open>build_bss\<close> lays out.
\<close>

lemma client_flows_enumerated:
  assumes "pool_ok ins" and "0 < cl_min_ip ins" and "cur_ip lp = cl_min_ip ins - 1"
    and "cur_port lp = cl_min_port ins" and "cur_flow_id lp = 0"
  shows "let R = unat (cl_max_ip ins) - unat (cl_min_ip ins) + 1;
        P = unat (cl_max_port ins) - unat (cl_min_port ins) + 1;
        j = (if cl_limit_flows ins = 0 then k else k mod unat (cl_limit_flows ins)) in
    unat (cur_ip ((client_limit_step ins ^^ Suc k) lp)) = unat (cl_min_ip ins) + j mod R \<and>
    unat (cur_port ((client_limit_step ins ^^ Suc k) lp)) = unat (cl_min_port ins) + (j div R) mod P"
proof -
  have "limited_at ins k ((client_limit_step ins ^^ Suc k) lp)"
  proof (induction k)
    case 0
    then show ?case using client_limit_first [OF assms(1-5)] by simp
  next
    case (Suc k)
    then show ?case using client_limit_step_flow [OF assms(1)] by simp
  qed
  then show ?thesis
    by (auto simp: limited_at_def flow_at_def flow_number_def Let_def unat_eq_0)
qed

definition demo_pool :: StreamDPOpClientsLimit where
  "demo_pool = \<lparr>cl_op = itCLIENT_VAR, cl_flow_offset = 0, cl_flags = 0, cl_pad = 0, cl_min_port = 1025,
     cl_max_port = 1027, cl_min_ip = 0x10000001, cl_max_ip = 0x10000004, cl_limit_flows = 10\<rparr>"

text \<open>
  The unlimited client instruction enumerates all ports above the reserved ones: packet
  number \<open>k\<close> gets address \<open>min + k mod R\<close> and port \<open>1025 + (k div R) mod 64511\<close>, where \<open>R\<close> is the
  number of addresses; port 0 and the ports below 1025 are never produced.
\<close>

lemma client_unlimited_enumerated:
  assumes "cu_min_ip ins \<le> cu_max_ip ins" and "unat (cu_max_ip ins) + 1 < 2 ^ 32"
    and "0 < cu_min_ip ins" and "cur_ip lp = cu_min_ip ins - 1" and "cur_port lp = CLIENT_UNLIMITED_MIN_PORT"
  shows "let R = unat (cu_max_ip ins) - unat (cu_min_ip ins) + 1 in
    unat (cur_ip ((client_unlimit_step ins ^^ Suc k) lp)) = unat (cu_min_ip ins) + k mod R \<and>
    unat (cur_port ((client_unlimit_step ins ^^ Suc k) lp)) = 1025 + (k div R) mod 64511"
proof -
  have "flow_at (unat (cu_min_ip ins)) (unat (cu_max_ip ins) - unat (cu_min_ip ins) + 1) 1025 64511 k ((client_unlimit_step ins ^^ Suc k) lp)"
  proof (induction k)
    case 0
    then show ?case
      using assms(1,4,5) by (simp add: flow_at_def client_unlimit_step_def Let_def
          CLIENT_UNLIMITED_MIN_PORT_def not_less)
  next
    case (Suc k)
    then show ?case
      using client_unlimit_step_flow [OF _ assms(1,2)] by simp
  qed
  then show ?thesis by (simp add: flow_at_def Let_def)
qed

text \<open>
  A pool of client ports that ends at 65535 does not wrap to its first port but to port 0.
\<close>

lemma client_limit_port_overflow:
  "cur_port ((client_limit_step (demo_pool\<lparr>cl_max_ip := 0x10000001, cl_max_port := 65535\<rparr>))
     \<lparr>cur_ip = 0x10000001, cur_port = 65535, cur_flow_id = 1\<rparr>) = 0"
  by (simp add: client_limit_step_def demo_pool_def Let_def)

section \<open>Random variables\<close>

lemma rand_small_value:
  fixes lo hi :: "'v::len word"
  assumes "LENGTH('v) \<le> 16" and "lo \<le> hi"
  shows "lo \<le> (ucast (ucast lo + r mod rand_mod_small lo hi) :: 'v word)"
    and "(ucast (ucast lo + r mod rand_mod_small lo hi) :: 'v word) \<le> hi"
    and "rand_mod_small lo hi \<noteq> 0"
proof -
  have pow: "(2 :: nat) ^ LENGTH('v) \<le> 2 ^ 16" using assms(1) by (intro power_increasing) auto
  have lim: "unat lo \<le> unat hi" "unat hi < 2 ^ 16"
    using assms(2) less_le_trans [OF unsigned_less pow, of hi] by (auto simp: word_le_nat_alt)
  have w: "unat (ucast x :: u32) = unat x" for x :: "'v word"
    using less_le_trans [OF unsigned_less pow, of x] by (intro unat_ucast_narrow) simp
  have "unat (ucast hi - ucast lo :: u32) = unat hi - unat lo"
    using lim w by (subst unat_sub) (auto simp: word_le_nat_alt)
  then have d: "unat (rand_mod_small lo hi) = unat hi - unat lo + 1"
    using lim unat_suc_word [of "ucast hi - ucast lo :: u32"] by (simp add: rand_mod_small_def)
  then show nz: "rand_mod_small lo hi \<noteq> 0" by (metis Suc_eq_plus1 unat_0 nat.distinct(1))
  have m: "unat (r mod rand_mod_small lo hi) < unat hi - unat lo + 1"
    using d by (metis mod_less_divisor unat_mod_distrib less_add_same_cancel2 zero_less_Suc
        Suc_eq_plus1 add_gr_0 less_numeral_extra(1))
  then have s: "unat (ucast lo + r mod rand_mod_small lo hi) =
      unat lo + unat (r mod rand_mod_small lo hi)"
    using lim w [of lo] by (simp add: unat_word_ariths)
  have "unat lo + unat (r mod rand_mod_small lo hi) \<le> unat hi" using m lim by linarith
  then have "unat lo + unat (r mod rand_mod_small lo hi) < 2 ^ LENGTH('v)"
    by (rule le_less_trans [OF _ unsigned_less])
  then have "unat (ucast (ucast lo + r mod rand_mod_small lo hi) :: 'v word) =
      unat lo + unat (r mod rand_mod_small lo hi)"
    using s unat_ucast_narrow [of "ucast lo + r mod rand_mod_small lo hi", where 'b = 'v] by simp
  then show "lo \<le> (ucast (ucast lo + r mod rand_mod_small lo hi) :: 'v word)"
    and "(ucast (ucast lo + r mod rand_mod_small lo hi) :: 'v word) \<le> hi"
    using m lim by (auto simp: word_le_nat_alt)
qed

lemma rand32_value:
  assumes "lo \<le> hi" and "rand_mod32 lo hi \<noteq> 0"
  shows "lo \<le> lo + r mod rand_mod32 lo hi" and "lo + r mod rand_mod32 lo hi \<le> hi"
proof -
  have le: "unat lo \<le> unat hi" using assms(1) by (simp add: word_le_nat_alt)
  have "unat (hi - lo) = unat hi - unat lo" using assms(1) by (simp add: unat_sub)
  moreover have "unat (hi - lo) + 1 < 2 ^ 32"
  proof (rule ccontr)
    assume "\<not> ?thesis"
    then have "unat (hi - lo) = 2 ^ 32 - 1" using unsigned_less [of "hi - lo", where 'a = nat] by simp
    then have "unat (rand_mod32 lo hi) = 0" by (simp add: rand_mod32_def unat_word_ariths)
    then show False using assms(2) by (simp add: unat_eq_0)
  qed
  ultimately have d: "unat (rand_mod32 lo hi) = unat hi - unat lo + 1"
    using unat_suc_word [of "hi - lo"] by (simp add: rand_mod32_def)
  then have "unat (r mod rand_mod32 lo hi) < unat hi - unat lo + 1"
    by (metis mod_less_divisor unat_mod_distrib add_gr_0 less_numeral_extra(1))
  then have "unat lo + unat (r mod rand_mod32 lo hi) \<le> unat hi" using le by linarith
  moreover from unat_add_bounded [OF this]
  have "unat (lo + r mod rand_mod32 lo hi) = unat lo + unat (r mod rand_mod32 lo hi)" .
  ultimately show "lo \<le> lo + r mod rand_mod32 lo hi" and "lo + r mod rand_mod32 lo hi \<le> hi"
    by (simp_all add: word_le_nat_alt)
qed

lemma fv_load_store:
  assumes "fv_store ofs (v :: 'v::len word) st = Inr st'" and "8 dvd LENGTH('v)"
  shows "fv_load ofs st' = Inr v"
  using assms mem_rd_wr_same [where 'a = 'v]
  by (auto simp: fv_store_def fv_load_def bindE_simps liftE_def split: option.splits)

lemma run_rand_small_ok:
  fixes x :: "'v::len word StreamDPOpFlowVar"
  assumes "LENGTH('v) \<le> 16" and "8 dvd LENGTH('v)" and le: "fv_min_val x \<le> fv_max_val x"
    and "4 \<le> length (flow_var st)"
    and fits: "unat (fv_flow_offset x) + LENGTH('v) div 8 \<le> length (flow_var st)"
  shows "\<exists>st' v. run_rand_small sp x st = Inr st' \<and> fv_load (fv_flow_offset x) st' = Inr v \<and>
    fv_min_val x \<le> v \<and> v \<le> fv_max_val x"
proof -
  from vm_rand16_in [OF assms(4), of sp] obtain r st1 where r: "vm_rand16 sp st = Inr (r, st1)"
    "same_blocks st st1" .
  let ?v = "ucast (ucast (fv_min_val x) + r mod rand_mod_small (fv_min_val x) (fv_max_val x)) :: 'v word"
  note range = rand_small_value(1,2) [OF assms(1) le, of r]
  obtain m where "mem_wr (flow_var st1) (unat (fv_flow_offset x)) ?v = Some m"
    by (rule mem_wr_obtain [of "unat (fv_flow_offset x)" "flow_var st1" ?v])
      (use fits r(2) in \<open>simp add: same_blocks_def\<close>)
  then have store: "fv_store (fv_flow_offset x) ?v st1 = Inr (st1\<lparr>flow_var := m\<rparr>)"
    by (simp add: fv_store_def liftE_def)
  then have "run_rand_small sp x st = Inr (st1\<lparr>flow_var := m\<rparr>)"
    using r(1) rand_small_value(3) [OF assms(1) le] by (simp add: run_rand_small_def assertE_def Let_def)
  then show ?thesis using fv_load_store [OF store assms(2)] range by blast
qed

lemma rand_mod32_zero_iff:
  assumes "lo \<le> hi"
  shows "rand_mod32 lo hi = 0 \<longleftrightarrow> lo = 0 \<and> hi = - 1"
proof
  assume "rand_mod32 lo hi = 0"
  then have hi: "hi = lo - 1" by (simp add: rand_mod32_def algebra_simps eq_neg_iff_add_eq_0)
  have "lo = 0"
  proof (rule ccontr)
    assume "lo \<noteq> 0"
    then have "unat (lo - 1) < unat lo" by (simp add: unat_gt_0 unat_minus_one)
    then show False using assms hi by (simp add: word_le_nat_alt)
  qed
  then show "lo = 0 \<and> hi = - 1" using hi by simp
qed (simp add: rand_mod32_def)

lemma run_rand32_cases:
  assumes "fv_min_val x \<le> fv_max_val x" and "4 \<le> length (flow_var st)"
    and fits: "unat (fv_flow_offset x) + 4 \<le> length (flow_var st)"
  shows "if fv_min_val x = 0 \<and> fv_max_val x = - 1 then run_rand32 sp x st = Inl DivByZero
    else \<exists>st' v. run_rand32 sp x st = Inr st' \<and> fv_load (fv_flow_offset x) st' = Inr v \<and>
      fv_min_val x \<le> v \<and> v \<le> fv_max_val x"
proof -
  let ?d = "rand_mod32 (fv_min_val x) (fv_max_val x)"
  from vm_rand32_in [OF assms(2), of sp] obtain r st1 where r: "vm_rand32 sp st = Inr (r, st1)"
    "same_blocks st st1" .
  obtain m where "mem_wr (flow_var st1) (unat (fv_flow_offset x)) (fv_min_val x + r mod ?d) = Some m"
    by (rule mem_wr_obtain [of "unat (fv_flow_offset x)" "flow_var st1" "fv_min_val x + r mod ?d"])
      (use fits r(2) in \<open>simp add: same_blocks_def\<close>)
  then have store: "fv_store (fv_flow_offset x) (fv_min_val x + r mod ?d) st1 = Inr (st1\<lparr>flow_var := m\<rparr>)"
    by (simp add: fv_store_def liftE_def)
  have run: "run_rand32 sp x st = (if ?d = 0 then Inl DivByZero else Inr (st1\<lparr>flow_var := m\<rparr>))"
    using r(1) store by (simp add: run_rand32_def assertE_def Let_def)
  have load: "fv_load (fv_flow_offset x) (st1\<lparr>flow_var := m\<rparr>) = Inr (fv_min_val x + r mod ?d)"
    using fv_load_store [OF store] by simp
  show ?thesis
    using run load rand32_value [OF assms(1), of r] rand_mod32_zero_iff [OF assms(1)] by auto
qed

text \<open>
  C33. A random variable of 8, 16 or 32 bits is a value between its bounds after every run of the
  instruction.  The instruction never fails, except that over the full 32 bit range the width of
  the range wraps to zero and the code divides by it.
\<close>

theorem random_in_range:
  assumes "fv_min_val a \<le> fv_max_val a" and "fv_min_val b \<le> fv_max_val b"
    and "fv_min_val c \<le> fv_max_val c" and "4 \<le> length (flow_var st)"
    and "unat (fv_flow_offset a) + 1 \<le> length (flow_var st)"
    and "unat (fv_flow_offset b) + 2 \<le> length (flow_var st)"
    and "unat (fv_flow_offset c) + 4 \<le> length (flow_var st)"
  shows "(\<exists>st' v. run_rand_small sp (a :: u8 StreamDPOpFlowVar) st = Inr st' \<and>
        fv_load (fv_flow_offset a) st' = Inr v \<and> fv_min_val a \<le> v \<and> v \<le> fv_max_val a) \<and>
    (\<exists>st' v. run_rand_small sp (b :: u16 StreamDPOpFlowVar) st = Inr st' \<and>
        fv_load (fv_flow_offset b) st' = Inr v \<and> fv_min_val b \<le> v \<and> v \<le> fv_max_val b) \<and>
    (if fv_min_val c = 0 \<and> fv_max_val c = - 1 then run_rand32 sp c st = Inl DivByZero
     else \<exists>st' v. run_rand32 sp c st = Inr st' \<and> fv_load (fv_flow_offset c) st' = Inr v \<and>
       fv_min_val c \<le> v \<and> v \<le> fv_max_val c)"
proof (intro conjI)
  show "\<exists>st' v. run_rand_small sp a st = Inr st' \<and>
      fv_load (fv_flow_offset a) st' = Inr v \<and> fv_min_val a \<le> v \<and> v \<le> fv_max_val a"
    using run_rand_small_ok [OF _ _ assms(1,4)] assms(5) by simp
  show "\<exists>st' v. run_rand_small sp b st = Inr st' \<and>
      fv_load (fv_flow_offset b) st' = Inr v \<and> fv_min_val b \<le> v \<and> v \<le> fv_max_val b"
    using run_rand_small_ok [OF _ _ assms(2,4)] assms(6) by simp
qed (rule run_rand32_cases [OF assms(3,4,7)])

theorem random_in_range_witness:
  "\<exists>st' v. run_rand_small SeedFlowVar \<lparr>fv_op = ditRANDOM8, fv_flow_offset = 4, fv_min_val = 10,
       fv_max_val = 20 :: u8\<rparr> \<lparr>flow_var = replicate 8 0, pkt = [], rnd = 0\<rparr> = Inr st' \<and>
     fv_load 4 st' = Inr v \<and> 10 \<le> (v :: u8) \<and> v \<le> 20"
  using random_in_range [of
      "\<lparr>fv_op = ditRANDOM8, fv_flow_offset = 4, fv_min_val = 10, fv_max_val = 20 :: u8\<rparr>"
      "\<lparr>fv_op = ditRANDOM16, fv_flow_offset = 4, fv_min_val = 10, fv_max_val = 20 :: u16\<rparr>"
      "\<lparr>fv_op = ditRANDOM32, fv_flow_offset = 4, fv_min_val = 10, fv_max_val = 20 :: u32\<rparr>"
      "\<lparr>flow_var = replicate 8 0, pkt = [], rnd = 0\<rparr>" SeedFlowVar]
  by simp

text \<open>
  A 64 bit random variable can leave its bounds: the width of the range is cut to a signed
  32 bit number, so a range of \<open>2^31 + 1\<close> values yields a value above its maximum.
\<close>

lemma random64_leaves_range:
  "\<exists>st' v. run_rand64 SeedOwn
       \<lparr>fv_op = ditRANDOM64, fv_flow_offset = 0, fv_min_val = 0, fv_max_val = 0x80000000\<rparr>
       \<lparr>flow_var = replicate 8 0, pkt = [], rnd = 1\<rparr> = Inr st' \<and>
     fv_load 0 st' = Inr v \<and> v > (0x80000000 :: u64)"
proof -
  let ?st = "\<lparr>flow_var = replicate 8 0, pkt = [], rnd = 1\<rparr> :: vm_state"
  have r: "vm_rand64 SeedOwn ?st = Inr (0x29482318be6784, ?st\<lparr>rnd := 0xe7847115\<rparr>)"
    by (simp add: vm_rand64_def vm_rand32_def vm_rand16_def get_seed_def set_seed_def fastrand_def
      case_prod_beta Let_def)
  obtain m where m: "mem_wr (replicate 8 0) 0 (0x29482318be6784 :: u64) = Some m"
    by (rule mem_wr_obtain [of 0 "replicate 8 0" "0x29482318be6784 :: u64"]) simp
  then have store: "fv_store 0 (0x29482318be6784 :: u64) (?st\<lparr>rnd := 0xe7847115\<rparr>) =
      Inr (?st\<lparr>flow_var := m, rnd := 0xe7847115\<rparr>)"
    by (simp add: fv_store_def liftE_def)
  have "run_rand64 SeedOwn
      \<lparr>fv_op = ditRANDOM64, fv_flow_offset = 0, fv_min_val = 0, fv_max_val = 0x80000000\<rparr> ?st =
      Inr (?st\<lparr>flow_var := m, rnd := 0xe7847115\<rparr>)"
    using r store by (simp add: run_rand64_def rand_mod64_def assertE_def)
  moreover have "fv_load 0 (?st\<lparr>flow_var := m, rnd := 0xe7847115\<rparr>) = Inr (0x29482318be6784 :: u64)"
    by (rule fv_load_store [OF store]) simp
  ultimately show ?thesis by auto
qed

end
