(* ===== verification/Vm_Splitter.thy ===== *)
theory Vm_Splitter
  imports Stream_Vm_Compile
begin

text \<open>
  Distribution of a stream's field-engine program over the data-path cores,
  \<open>trex_vm_splitter.cpp\<close>, with \<open>StreamVm::copy_instructions\<close> and \<open>TrexStream::vm_compile\<close>.

  Of a stream only the program and the packet length matter here.  The split instruction is the
  index the program records; \<open>m_dp_core_count\<close> is an 8 bit field.  Each compilation draws its
  own value of the C library's \<open>rand()\<close>, the function argument \<open>rand\<close> by core number.
\<close>

section \<open>Copying and compiling a program\<close>

definition set_split_instruction :: "nat \<Rightarrow> StreamVm \<Rightarrow> StreamVm" where
  "set_split_instruction k vm = vm\<lparr>vm_split_instr := Some k\<rparr>"

definition copy_instructions :: "StreamVm \<Rightarrow> StreamVm \<Rightarrow> StreamVm" where
  "copy_instructions vm other =
     other\<lparr>vm_inst_list := vm_inst_list vm,
           vm_split_instr := (case vm_split_instr vm of
               Some k \<Rightarrow> if k < length (vm_inst_list vm) then Some k else vm_split_instr other
             | None \<Rightarrow> vm_split_instr other)\<rparr>"

definition vm_compile :: "u32 \<Rightarrow> u16 \<Rightarrow> StreamVm \<Rightarrow> vm_err + (StreamVm \<times> StreamVmDp option)" where
  "vm_compile rand pkt_len vm =
     (if is_vm_empty vm then Inr (vm, None)
      else bindE (compile rand vm pkt_len) (\<lambda>vm'.
           bindE (generate_dp_object vm') (\<lambda>dp. Inr (vm', dp))))"

section \<open>The splitter\<close>

definition set_flow_var_range :: "u64 \<Rightarrow> u64 \<Rightarrow> StreamVm \<Rightarrow> vm_err + StreamVm" where
  "set_flow_var_range lo hi vm = (case vm_split_instr vm of
       None \<Rightarrow> Inl ErrAssert
     | Some k \<Rightarrow> if k < length (vm_inst_list vm) then
         (case vm_inst_list vm ! k of
            itFLOW_MAN i \<Rightarrow> Inr (vm\<lparr>vm_inst_list := (vm_inst_list vm)[k := itFLOW_MAN
                (i\<lparr>fm_min_value := lo, fm_max_value := hi,
                   fm_init_value := (if fm_op i = FLOW_VAR_OP_DEC then hi else lo)\<rparr>)]\<rparr>)
          | _ \<Rightarrow> Inl ErrAssert) else Inl ErrAssert)"

definition set_client_range :: "u64 \<Rightarrow> u64 \<Rightarrow> StreamVm \<Rightarrow> vm_err + StreamVm" where
  "set_client_range lo hi vm = (case vm_split_instr vm of
       None \<Rightarrow> Inl ErrAssert
     | Some k \<Rightarrow> if k < length (vm_inst_list vm) then
         (case vm_inst_list vm ! k of
            itFLOW_CLIENT i \<Rightarrow> Inr (vm\<lparr>vm_inst_list := (vm_inst_list vm)[k := itFLOW_CLIENT
                (i\<lparr>fc_client_min := ucast lo, fc_client_max := ucast hi\<rparr>)]\<rparr>)
          | _ \<Rightarrow> Inl ErrAssert) else Inl ErrAssert)"

text \<open>The loop over the cores: set the range, compile, move on.\<close>

fun split_loop ::
  "(u64 \<Rightarrow> u64 \<Rightarrow> StreamVm \<Rightarrow> vm_err + StreamVm) \<Rightarrow> (nat \<Rightarrow> u32) \<Rightarrow> u16 \<Rightarrow> u64 \<Rightarrow> u64 \<Rightarrow> u64 \<Rightarrow> nat \<Rightarrow>
     StreamVm list \<Rightarrow> vm_err + (StreamVm \<times> StreamVmDp option) list" where
  "split_loop set_range rand pkt_len range_part start fin core [] = Inr []"
| "split_loop set_range rand pkt_len range_part start fin core (vm # vms) =
     bindE (set_range start fin vm) (\<lambda>vm1.
     bindE (vm_compile (rand core) pkt_len vm1) (\<lambda>r.
     bindE (split_loop set_range rand pkt_len range_part (fin + 1) (fin + 1 + range_part - 1)
              (core + 1) vms) (\<lambda>rs. Inr (r # rs))))"

definition split_range ::
  "(u64 \<Rightarrow> u64 \<Rightarrow> StreamVm \<Rightarrow> vm_err + StreamVm) \<Rightarrow> (nat \<Rightarrow> u32) \<Rightarrow> u16 \<Rightarrow> u64 \<Rightarrow> u64 \<Rightarrow> u8 \<Rightarrow>
     StreamVm list \<Rightarrow> vm_err + (StreamVm \<times> StreamVmDp option) list" where
  "split_range set_range rand pkt_len start rng core_count cores =
     (let range_part = rng div ucast core_count;
          leftover = rng mod ucast core_count
      in split_loop set_range rand pkt_len range_part start (start + range_part + leftover - 1) 0 cores)"

text \<open>\<open>Inr None\<close> is the return value \<open>false\<close>: the stream is not split by this instruction.\<close>

definition split_by_flow_var ::
  "(nat \<Rightarrow> u32) \<Rightarrow> u16 \<Rightarrow> StreamVm \<Rightarrow> StreamVmInstructionFlowMan \<Rightarrow> StreamVm list \<Rightarrow>
     vm_err + (StreamVm \<times> StreamVmDp option) list option" where
  "split_by_flow_var rand pkt_len vm instr cores =
     (let count = of_nat (length cores) :: u8 in
      if fm_op instr = FLOW_VAR_OP_RANDOM then Inr None
      else if fm_get_splitable_range instr < ucast count then Inr None
      else if count = 0 then Inl ErrAssert
      else bindE (split_range set_flow_var_range rand pkt_len (fm_min_value instr)
                    (fm_get_splitable_range instr) count (map (copy_instructions vm) cores))
             (\<lambda>rs. Inr (Some rs)))"

definition split_by_flow_client_var ::
  "(nat \<Rightarrow> u32) \<Rightarrow> u16 \<Rightarrow> StreamVm \<Rightarrow> StreamVmInstructionFlowClient \<Rightarrow> StreamVm list \<Rightarrow>
     vm_err + (StreamVm \<times> StreamVmDp option) list option" where
  "split_by_flow_client_var rand pkt_len vm instr cores =
     (let count = of_nat (length cores) :: u8 in
      if fc_get_ip_range instr < ucast count then Inr None
      else if count = 0 then Inl ErrAssert
      else bindE (split_range set_client_range rand pkt_len (ucast (fc_client_min instr))
                    (ucast (fc_get_ip_range instr)) count (map (copy_instructions vm) cores))
             (\<lambda>rs. Inr (Some rs)))"

definition split_internal ::
  "(nat \<Rightarrow> u32) \<Rightarrow> u16 \<Rightarrow> StreamVm \<Rightarrow> StreamVm list \<Rightarrow>
     vm_err + (StreamVm \<times> StreamVmDp option) list option" where
  "split_internal rand pkt_len vm cores = (case vm_split_instr vm of
       None \<Rightarrow> Inr None
     | Some k \<Rightarrow> if k < length (vm_inst_list vm) then
         (case vm_inst_list vm ! k of
            itFLOW_MAN i \<Rightarrow> split_by_flow_var rand pkt_len vm i cores
          | itFLOW_CLIENT i \<Rightarrow> split_by_flow_client_var rand pkt_len vm i cores
          | _ \<Rightarrow> Inl ErrAssert) else Inl ErrAssert)"

text \<open>Without a split every core gets a copy of the one data-path object.\<close>

definition split_vm ::
  "(nat \<Rightarrow> u32) \<Rightarrow> u16 \<Rightarrow> StreamVm \<Rightarrow> StreamVm list \<Rightarrow> vm_err + (StreamVm \<times> StreamVmDp option) list" where
  "split_vm rand pkt_len vm cores =
     (if is_vm_empty vm then Inr (map (\<lambda>c. (c, None)) cores)
      else bindE (split_internal rand pkt_len vm cores) (\<lambda>r.
        case r of
          Some rs \<Rightarrow> Inr rs
        | None \<Rightarrow> bindE (vm_compile (rand 0) pkt_len vm) (\<lambda>(_, dp). Inr (map (\<lambda>c. (c, dp)) cores))))"

section \<open>The ranges of the cores\<close>

text \<open>Range number \<open>k\<close> when \<open>n\<close> values from \<open>lo\<close> are dealt to \<open>c\<close> cores: the first gets the rest too.\<close>

definition core_lo :: "nat \<Rightarrow> nat \<Rightarrow> nat \<Rightarrow> nat \<Rightarrow> nat" where
  "core_lo lo n c k = (if k = 0 then lo else lo + n mod c + k * (n div c))"

definition core_hi :: "nat \<Rightarrow> nat \<Rightarrow> nat \<Rightarrow> nat \<Rightarrow> nat" where
  "core_hi lo n c k = lo + n mod c + (k + 1) * (n div c) - 1"

lemma core_ranges_partition:
  assumes "0 < c" and "c \<le> n"
  shows "(\<Union>k<c. {core_lo lo n c k..core_hi lo n c k}) = {lo..lo + n - 1}"
    and "j < k \<Longrightarrow> {core_lo lo n c j..core_hi lo n c j} \<inter> {core_lo lo n c k..core_hi lo n c k} = {}"
    and "core_lo lo n c k \<le> core_hi lo n c k"
proof -
  let ?p = "n div c"
  have p: "1 \<le> ?p" using assms by (simp add: div_greater_zero_iff Suc_le_eq)
  have step: "(k + 1) * ?p = k * ?p + ?p" for k by simp
  have next_lo: "core_hi lo n c k + 1 = core_lo lo n c (k + 1)" for k
    using p by (simp add: core_hi_def core_lo_def)
  show nonempty: "core_lo lo n c k \<le> core_hi lo n c k" for k
    using p by (cases "k = 0") (auto simp: core_hi_def core_lo_def)
  have mono: "core_lo lo n c (j + 1) \<le> core_lo lo n c k" if "j < k" for j k
  proof -
    have "(j + 1) * ?p \<le> k * ?p" using that by (intro mult_le_mono1) simp
    then show ?thesis using that by (simp add: core_lo_def)
  qed
  show "{core_lo lo n c j..core_hi lo n c j} \<inter> {core_lo lo n c k..core_hi lo n c k} = {}" if "j < k" for j k
    using mono [OF that] next_lo [of j] by auto
  have union: "(\<Union>k<m. {core_lo lo n c k..core_hi lo n c k}) = {lo..<core_lo lo n c m}" if "0 < m" for m
    using that
  proof (induction m)
    case (Suc m)
    have "{core_lo lo n c m..core_hi lo n c m} = {core_lo lo n c m..<core_lo lo n c (Suc m)}"
      using next_lo [of m] by auto
    moreover have "lo \<le> core_lo lo n c m" "core_lo lo n c m \<le> core_lo lo n c (Suc m)"
      using nonempty [of m] next_lo [of m] by (auto simp: core_lo_def)
    ultimately show ?case
      using Suc.IH by (cases "m = 0") (auto simp: lessThan_Suc core_lo_def [of lo n c 0])
  qed simp
  have "core_lo lo n c c = lo + n" using assms(1) by (simp add: core_lo_def add.assoc)
  then show "(\<Union>k<c. {core_lo lo n c k..core_hi lo n c k}) = {lo..lo + n - 1}"
    using union [OF assms(1)] assms by auto
qed

text \<open>The loop computes exactly these ranges, as 64 bit numbers.\<close>

definition split_bounds :: "StreamVm \<Rightarrow> (nat \<times> nat) option" where
  "split_bounds vm = (case vm_split_instr vm of
       None \<Rightarrow> None
     | Some k \<Rightarrow> if k < length (vm_inst_list vm) then
         (case vm_inst_list vm ! k of
            itFLOW_MAN i \<Rightarrow> Some (unat (fm_min_value i), unat (fm_max_value i))
          | itFLOW_CLIENT i \<Rightarrow> Some (unat (fc_client_min i), unat (fc_client_max i))
          | _ \<Rightarrow> None) else None)"

lemma compile_keeps_program:
  assumes "vm_compile rand pkt_len vm = Inr (vm', dp)"
  shows "split_bounds vm' = split_bounds vm"
proof (cases "is_vm_empty vm")
  case False
  then have ne: "vm_inst_list vm \<noteq> []" by (simp add: is_vm_empty_def)
  from assms False have c: "compile rand vm pkt_len = Inr vm'"
    by (auto simp: vm_compile_def bindE_simps)
  have "vm_inst_list vm' = vm_inst_list vm" and "vm_split_instr vm' = vm_split_instr vm"
    by (rule compile_program [OF c ne]; assumption)+
  then show ?thesis unfolding split_bounds_def by (simp only:)
qed (use assms in \<open>simp add: vm_compile_def\<close>)

lemma split_loop_bounds:
  assumes "split_loop set_range rand pkt_len part start fin core vms = Inr rs"
    and set_range: "\<And>lo hi vm vm'. set_range lo hi vm = Inr vm' \<Longrightarrow> vm \<in> set vms \<Longrightarrow>
      unat hi \<le> bnd \<Longrightarrow> unat lo \<le> unat hi \<Longrightarrow> split_bounds vm' = Some (unat lo, unat hi)"
    and "0 < unat part" and "unat start \<le> unat fin"
    and "unat fin + (length vms - 1) * unat part \<le> bnd" and "bnd < 2 ^ 64"
  shows "length rs = length vms \<and> (\<forall>k<length vms. split_bounds (fst (rs ! k)) =
    Some (if k = 0 then unat start else unat fin + 1 + (k - 1) * unat part, unat fin + k * unat part))"
  using assms
proof (induction vms arbitrary: start fin core rs)
  case (Cons vm vms)
  from Cons.prems(1) obtain vm1 r rs' where 1: "set_range start fin vm = Inr vm1"
    and 2: "vm_compile (rand core) pkt_len vm1 = Inr r"
    and 3: "split_loop set_range rand pkt_len part (fin + 1) (fin + 1 + part - 1) (core + 1) vms = Inr rs'"
    and rs: "rs = r # rs'"
    by (auto simp: bindE_simps)
  have b: "split_bounds (fst r) = Some (unat start, unat fin)"
    using compile_keeps_program [of "rand core" pkt_len vm1 "fst r" "snd r"] 2
      Cons.prems(2) [OF 1] Cons.prems(4,5) by simp
  show ?case
  proof (cases "vms = []")
    case True
    then show ?thesis using 3 rs b by simp
  next
    case False
    then have len: "length vms = Suc (length vms - 1)" by simp
    then have lim: "unat fin + unat part + (length vms - 1) * unat part \<le> bnd"
      using Cons.prems(5) by (metis add.assoc diff_Suc_1 length_Cons mult_Suc)
    then have lt: "unat fin + unat part < 2 ^ 64" using Cons.prems(6) by linarith
    have s: "unat (fin + 1) = unat fin + 1"
      using lt Cons.prems(3) by (intro unat_suc_word) simp
    have f: "unat (fin + 1 + part - 1) = unat fin + unat part"
      using lt by (simp add: unat_word_ariths)
    have "length rs' = length vms \<and> (\<forall>k<length vms. split_bounds (fst (rs' ! k)) =
      Some (if k = 0 then unat (fin + 1) else unat (fin + 1 + part - 1) + 1 + (k - 1) * unat part,
        unat (fin + 1 + part - 1) + k * unat part))"
      using Cons.prems(2,3,6) lim s f
      by (intro Cons.IH [OF 3]) auto
    then have IH: "length rs' = length vms" "\<And>k. k < length vms \<Longrightarrow> split_bounds (fst (rs' ! k)) =
      Some (unat fin + 1 + k * unat part, unat fin + Suc k * unat part)"
      using s f by (auto simp: algebra_simps split: if_splits)
    have "split_bounds (fst ((r # rs') ! k)) = Some (if k = 0 then unat start
        else unat fin + 1 + (k - 1) * unat part, unat fin + k * unat part)" if "k < Suc (length vms)" for k
      using that b IH(2) by (cases k) simp_all
    then show ?thesis using IH(1) rs by simp
  qed
qed simp

lemma set_range_bounds:
  "set_flow_var_range lo hi vm = Inr vm' \<Longrightarrow> split_bounds vm' = Some (unat lo, unat hi)"
  "set_client_range lo hi vm = Inr vm' \<Longrightarrow> unat hi < 2 ^ 32 \<Longrightarrow> unat lo \<le> unat hi \<Longrightarrow>
     split_bounds vm' = Some (unat lo, unat hi)"
  by (auto simp: set_flow_var_range_def set_client_range_def split_bounds_def unat_ucast_narrow
      split: option.splits if_splits StreamVmInstruction.splits)

lemma split_range_bounds:
  assumes "split_range set_range rand pkt_len start n c vms = Inr rs"
    and "\<And>lo hi vm vm'. set_range lo hi vm = Inr vm' \<Longrightarrow> vm \<in> set vms \<Longrightarrow>
      unat hi \<le> unat start + unat n - 1 \<Longrightarrow> unat lo \<le> unat hi \<Longrightarrow> split_bounds vm' = Some (unat lo, unat hi)"
    and c: "unat c = length vms" "0 < length vms" "length vms \<le> unat n"
    and fits: "unat start + unat n \<le> 2 ^ 64"
  shows "length rs = length vms \<and> (\<forall>k<length vms. split_bounds (fst (rs ! k)) =
    Some (core_lo (unat start) (unat n) (length vms) k, core_hi (unat start) (unat n) (length vms) k))"
proof -
  let ?p = "n div ucast c" and ?q = "n mod ucast c" and ?C = "length vms"
  have uc: "unat (ucast c :: u64) = ?C" using c(1) by (simp add: unat_ucast_widen)
  have p: "unat ?p = unat n div ?C" and q: "unat ?q = unat n mod ?C"
    by (simp_all add: unat_div_distrib unat_mod_distrib uc)
  have pos: "1 \<le> unat n div ?C" using c by (simp add: div_greater_zero_iff Suc_le_eq)
  have total: "?C * (unat n div ?C) + unat n mod ?C = unat n" by simp
  have part: "(?C - 1) * (unat n div ?C) + (unat n div ?C) + unat n mod ?C = unat n"
    using total c(2) by (cases vms) simp_all
  let ?f = "unat start + unat n div ?C + unat n mod ?C - 1"
  have le: "?f + (?C - 1) * (unat n div ?C) = unat start + unat n - 1"
    using part pos by linarith
  have "unat (start + ?p + ?q - 1) = ?f"
  proof -
    have a: "unat (start + ?p - 1) = unat start + unat ?p - 1"
    proof -
      have "unat (?p - 1) = unat ?p - 1" using pos p unat_sub [of 1 ?p] by (simp add: word_le_nat_alt)
      moreover have "unat (start + (?p - 1)) = unat start + unat (?p - 1)"
        by (rule unat_add_lem [THEN iffD1]) (use calculation le fits pos p in simp)
      ultimately show ?thesis using pos p by (simp add: add_diff_eq)
    qed
    have "unat (start + ?p - 1 + ?q) = unat (start + ?p - 1) + unat ?q"
      by (rule unat_add_lem [THEN iffD1]) (use a le fits pos p q in simp)
    moreover have "start + ?p - 1 + ?q = start + ?p + ?q - 1" by simp
    ultimately show ?thesis using a p q pos by simp
  qed
  note fin = this
  have "length rs = ?C \<and> (\<forall>k<?C. split_bounds (fst (rs ! k)) =
      Some (if k = 0 then unat start else unat (start + ?p + ?q - 1) + 1 + (k - 1) * unat ?p,
        unat (start + ?p + ?q - 1) + k * unat ?p))"
  proof (rule split_loop_bounds [where bnd = "unat start + unat n - 1"])
    show "split_loop set_range rand pkt_len ?p start (start + ?p + ?q - 1) 0 vms = Inr rs"
      using assms(1) by (simp add: split_range_def Let_def)
  qed (use assms(2) fin le p pos fits c in auto)
  moreover have "(if k = 0 then unat start else ?f + 1 + (k - 1) * (unat n div ?C)) =
      core_lo (unat start) (unat n) ?C k" for k
    using pos by (cases k) (auto simp: core_lo_def)
  moreover have "?f + k * (unat n div ?C) = core_hi (unat start) (unat n) ?C k" for k
    using pos by (simp add: core_hi_def)
  ultimately show ?thesis by (auto simp only: fin p)
qed

lemma range_count:
  assumes "lo \<le> (hi :: 'a::len word)" and "0 < unat (hi - lo + 1)"
  shows "unat (hi - lo + 1) = unat hi - unat lo + 1"
proof -
  have "unat (hi - lo) + 1 < 2 ^ LENGTH('a)"
  proof (rule ccontr)
    assume "\<not> ?thesis"
    then have "unat (hi - lo) + 1 = 2 ^ LENGTH('a)"
      using unsigned_less [of "hi - lo", where 'a = nat] by linarith
    then have "unat (hi - lo + 1) = 0" by (simp add: unat_word_ariths)
    then show False using assms(2) by simp
  qed
  then have "unat (hi - lo + 1) = unat (hi - lo) + 1" by (rule unat_suc_word)
  then show ?thesis using assms(1) by (simp add: unat_sub)
qed

lemma core_hi_less_lo:
  assumes "0 < c" and "c \<le> n" and "j < k"
  shows "core_hi lo n c j < core_lo lo n c k"
proof -
  have "0 < n div c" using assms by (simp add: div_greater_zero_iff)
  moreover have "(j + 1) * (n div c) \<le> k * (n div c)" using assms(3) by (intro mult_le_mono1) simp
  ultimately show ?thesis using assms(3) by (simp add: core_hi_def core_lo_def)
qed

lemma core_bounds_deal:
  assumes "0 < c" and "c \<le> n" and "length rs = c"
    and "\<And>k. k < c \<Longrightarrow> f (rs ! k) = Some (core_lo lo n c k, core_hi lo n c k)"
  shows "\<exists>bs. map f rs = map Some bs \<and> (\<Union>(a, b)\<in>set bs. {a..b}) = {lo..lo + n - 1} \<and>
    (\<forall>j k. j < k \<longrightarrow> k < c \<longrightarrow> snd (bs ! j) < fst (bs ! k)) \<and> (\<forall>(a, b)\<in>set bs. a \<le> b)"
proof -
  let ?bs = "map (\<lambda>k. (core_lo lo n c k, core_hi lo n c k)) [0..<c]"
  note part = core_ranges_partition [OF assms(1,2), where lo = lo]
  have "map f rs = map Some ?bs" using assms(3,4) by (intro nth_equalityI) auto
  moreover have "(\<Union>(a, b)\<in>set ?bs. {a..b}) = {lo..lo + n - 1}"
    using part(1) by (simp add: atLeast0LessThan)
  moreover have "snd (?bs ! j) < fst (?bs ! k)" if "j < k" "k < c" for j k
    using core_hi_less_lo [OF assms(1,2) that(1)] that by simp
  ultimately show ?thesis using part(3) by (intro exI [of _ ?bs]) auto
qed

section \<open>Property\<close>

text \<open>
  C31. Splitting a stream by a counter deals its values to the cores without loss or overlap: the
  ranges of the cores' split variables are non-empty, ascending and disjoint, and together are
  exactly the range of the original variable; likewise for the addresses of a client variable.
\<close>

theorem split_deals_values:
  assumes "split_internal rand pkt_len vm cores = Inr (Some rs)"
    and "split_bounds vm = Some (lo, hi)" and "lo \<le> hi" and "cores \<noteq> []" and "length cores < 256"
  shows "length rs = length cores \<and>
    (\<exists>bs. map (\<lambda>r. split_bounds (fst r)) rs = map Some bs \<and> (\<Union>(a, b)\<in>set bs. {a..b}) = {lo..hi} \<and>
      (\<forall>j k. j < k \<longrightarrow> k < length cores \<longrightarrow> snd (bs ! j) < fst (bs ! k)) \<and> (\<forall>(a, b)\<in>set bs. a \<le> b))"
proof -
  from assms(2) obtain k where k: "vm_split_instr vm = Some k" "k < length (vm_inst_list vm)"
    by (auto simp: split_bounds_def split: option.splits if_splits)
  let ?C = "length cores" and ?cores = "map (copy_instructions vm) cores"
  have C: "unat (of_nat ?C :: u8) = ?C" "0 < ?C"
    using assms(4,5) by (auto simp: unsigned_of_nat take_bit_nat_eq_self)
  show ?thesis
  proof (cases "vm_inst_list vm ! k")
    case (itFLOW_MAN i)
    then have ends: "unat (fm_min_value i) = lo" "unat (fm_max_value i) = hi"
      using assms(2) k by (auto simp: split_bounds_def)
    have run: "split_by_flow_var rand pkt_len vm i cores = Inr (Some rs)"
      using assms(1) k itFLOW_MAN by (simp add: split_internal_def)
    then have r: "split_range set_flow_var_range rand pkt_len (fm_min_value i)
        (fm_get_splitable_range i) (of_nat ?C) ?cores = Inr rs"
      and ge: "?C \<le> unat (fm_get_splitable_range i)"
      using C by (auto simp: split_by_flow_var_def Let_def bindE_simps word_less_nat_alt
          unat_ucast_widen split: if_splits)
    have "0 < unat (fm_get_splitable_range i)" using ge C(2) by linarith
    then have n: "unat (fm_get_splitable_range i) = hi - lo + 1"
      using range_count [of "fm_min_value i" "fm_max_value i"] ends assms(3)
      by (simp add: fm_get_splitable_range_def word_le_nat_alt)
    have "length rs = ?C \<and> (\<forall>k<?C. split_bounds (fst (rs ! k)) =
        Some (core_lo lo (hi - lo + 1) ?C k, core_hi lo (hi - lo + 1) ?C k))"
      using split_range_bounds [OF r] set_range_bounds(1) C ge ends n assms(3)
        unsigned_less [of "fm_max_value i", where 'a = nat] by simp
    then show ?thesis
      using core_bounds_deal [OF C(2), of "hi - lo + 1" rs "\<lambda>r. split_bounds (fst r)" lo] ge n assms(3) by simp
  next
    case (itFLOW_CLIENT i)
    then have ends: "unat (fc_client_min i) = lo" "unat (fc_client_max i) = hi"
      using assms(2) k by (auto simp: split_bounds_def)
    have run: "split_by_flow_client_var rand pkt_len vm i cores = Inr (Some rs)"
      using assms(1) k itFLOW_CLIENT by (simp add: split_internal_def)
    then have r: "split_range set_client_range rand pkt_len (ucast (fc_client_min i))
        (ucast (fc_get_ip_range i)) (of_nat ?C) ?cores = Inr rs"
      and ge: "?C \<le> unat (fc_get_ip_range i)"
      using C by (auto simp: split_by_flow_client_var_def Let_def bindE_simps word_less_nat_alt
          unat_ucast_widen split: if_splits)
    have "0 < unat (fc_get_ip_range i)" using ge C(2) by linarith
    then have n: "unat (fc_get_ip_range i) = hi - lo + 1"
      using range_count [of "fc_client_min i" "fc_client_max i"] ends assms(3)
      by (simp add: fc_get_ip_range_def word_le_nat_alt)
    have hi: "hi < 2 ^ 32" using ends(2) unsigned_less [of "fc_client_max i", where 'a = nat] by simp
    have "length rs = ?C \<and> (\<forall>k<?C. split_bounds (fst (rs ! k)) =
        Some (core_lo lo (hi - lo + 1) ?C k, core_hi lo (hi - lo + 1) ?C k))"
      using split_range_bounds [OF r] set_range_bounds(2) C ge ends n assms(3) hi
      by (simp add: unat_ucast_widen)
    then show ?thesis
      using core_bounds_deal [OF C(2), of "hi - lo + 1" rs "\<lambda>r. split_bounds (fst r)" lo] ge n assms(3) by simp
  qed (use assms(2) k in \<open>auto simp: split_bounds_def\<close>)
qed

definition demo_split_vm :: StreamVm where
  "demo_split_vm = set_split_instruction 0 (add_instruction StreamVm_new (itFLOW_MAN
     \<lparr>fm_var_name = ''a'', fm_size_bytes = 1, fm_op = FLOW_VAR_OP_INC, fm_init_value = 10,
      fm_min_value = 10, fm_max_value = 20\<rparr>))"

lemma demo_split_runs:
  "case split_internal (\<lambda>_. 7) 64 demo_split_vm [StreamVm_new, StreamVm_new] of
     Inr (Some rs) \<Rightarrow> True | _ \<Rightarrow> False"
  by code_simp

theorem split_deals_values_witness:
  "\<exists>rs. split_internal (\<lambda>_. 7) 64 demo_split_vm [StreamVm_new, StreamVm_new] = Inr (Some rs) \<and>
     length rs = 2 \<and> (\<exists>bs. map (\<lambda>r. split_bounds (fst r)) rs = map Some bs \<and>
       (\<Union>(a, b)\<in>set bs. {a..b}) = {10..20})"
proof -
  obtain rs where r: "split_internal (\<lambda>_. 7) 64 demo_split_vm [StreamVm_new, StreamVm_new] = Inr (Some rs)"
    using demo_split_runs by (auto split: sum.splits option.splits)
  have "split_bounds demo_split_vm = Some (10, 20)"
    by (simp add: split_bounds_def demo_split_vm_def set_split_instruction_def add_instruction_def
        StreamVm_new_def)
  from split_deals_values [OF r this] r show ?thesis by auto
qed

end
