(* ===== verification/Ip_Info.thy ===== *)
theory Ip_Info
  imports Trex_Prelude
begin

text \<open>
  Port allocation of one IP address, \<open>tuple_gen.h\<close>: the tuple handed to the generators, the
  interface \<open>CIpInfoBase\<close>, its two implementations \<open>CIpInfoL\<close> (a running port number) and
  \<open>CIpInfo\<close> (a bit set of the ports in use), and the client and server objects built on them.

  The interface is the locale \<open>ip_info\<close>; \<open>tracking_ip_info\<close> adds what an allocator that
  remembers its ports promises.  Both implementations, and the virtual dispatch over them, are
  interpretations.  \<open>std::bitset\<close> is the set of the ports whose bit is set; an \<open>assert\<close> that fails is
  \<open>None\<close>.
\<close>

section \<open>Tuples\<close>

record mac_addr_align_t =
  mac :: "u8 list"
  inused :: bool

record CTupleBase =
  m_client_ip :: u32
  m_client_idx :: u32
  m_server_ip :: u32
  m_server_idx :: u32
  m_client_mac :: mac_addr_align_t
  m_client_port :: u16
  m_server_port :: u16

definition setClientMac :: "mac_addr_align_t option \<Rightarrow> CTupleBase \<Rightarrow> CTupleBase" where
  "setClientMac mac_info t = (case mac_info of
       Some m \<Rightarrow> t\<lparr>m_client_mac := m\<lparr>inused := True\<rparr>\<rparr>
     | None \<Rightarrow> t\<lparr>m_client_mac := (m_client_mac t)\<lparr>inused := False\<rparr>\<rparr>)"

definition setClientTuple :: "u32 \<Rightarrow> mac_addr_align_t option \<Rightarrow> u16 \<Rightarrow> CTupleBase \<Rightarrow> CTupleBase" where
  "setClientTuple ip m port t = (setClientMac m (t\<lparr>m_client_ip := ip\<rparr>))\<lparr>m_client_port := port\<rparr>"

definition setClientAll2 :: "u32 \<Rightarrow> u32 \<Rightarrow> u16 \<Rightarrow> CTupleBase \<Rightarrow> CTupleBase" where
  "setClientAll2 i ip port t = t\<lparr>m_client_idx := i, m_client_ip := ip, m_client_port := port\<rparr>"

definition setServerAll :: "u32 \<Rightarrow> u32 \<Rightarrow> CTupleBase \<Rightarrow> CTupleBase" where
  "setServerAll i ip t = t\<lparr>m_server_idx := i, m_server_ip := ip\<rparr>"

section \<open>Ports\<close>

definition MAX_PORT :: u16 where "MAX_PORT = 64000"

definition MIN_PORT :: u16 where "MIN_PORT = 1024"

definition ILLEGAL_PORT :: u16 where "ILLEGAL_PORT = 0"

lemmas port_consts = MAX_PORT_def MIN_PORT_def ILLEGAL_PORT_def

section \<open>CIpInfoL\<close>

record CIpInfoL =
  l_curr_port :: u16

definition CIpInfoL_new :: CIpInfoL where
  "CIpInfoL_new = \<lparr>l_curr_port = MIN_PORT\<rparr>"

definition L_get_new_free_port :: "CIpInfoL \<Rightarrow> u16 \<times> CIpInfoL" where
  "L_get_new_free_port s =
     (let s1 = (if l_curr_port s > MAX_PORT then s\<lparr>l_curr_port := MIN_PORT\<rparr> else s)
      in (l_curr_port s1, s1\<lparr>l_curr_port := l_curr_port s1 + 1\<rparr>))"

definition L_return_port :: "u16 \<Rightarrow> CIpInfoL \<Rightarrow> CIpInfoL option" where
  "L_return_port a s = Some s"

definition L_return_all_ports :: "CIpInfoL \<Rightarrow> CIpInfoL" where
  "L_return_all_ports s = s\<lparr>l_curr_port := MIN_PORT\<rparr>"

section \<open>CIpInfo\<close>

record CIpInfo =
  m_bitmap_port :: "u16 set"
  m_head_port :: u16

definition CIpInfo_new :: CIpInfo where
  "CIpInfo_new = \<lparr>m_bitmap_port = {}, m_head_port = MIN_PORT\<rparr>"

definition is_port_legal :: "u16 \<Rightarrow> bool" where
  "is_port_legal port \<longleftrightarrow> \<not> (port \<ge> MAX_PORT \<or> port < MIN_PORT)"

text \<open>The code returns \<open>PORT_IN_USE\<close>, which is 1, as the \<open>bool\<close> for an illegal port.\<close>

definition is_port_available :: "CIpInfo \<Rightarrow> u16 \<Rightarrow> bool" where
  "is_port_available s port = (if \<not> is_port_legal port then True else port \<notin> m_bitmap_port s)"

function next_free_loop :: "CIpInfo \<Rightarrow> nat \<Rightarrow> CIpInfo" where
  "next_free_loop s cnt =
     (if is_port_available s (m_head_port s) then s
      else if cnt + 1 > 20 then s
      else let h = m_head_port s + 1 in
        next_free_loop (s\<lparr>m_head_port := (if h \<ge> MAX_PORT then MIN_PORT else h)\<rparr>) (cnt + 1))"
  by pat_completeness auto
termination
  by (relation "measure (\<lambda>(s, cnt). 20 - cnt)") auto

declare next_free_loop.simps [simp del]

definition get_next_free_port_by_bit :: "CIpInfo \<Rightarrow> CIpInfo" where
  "get_next_free_port_by_bit s =
     next_free_loop (if \<not> is_port_legal (m_head_port s) then s\<lparr>m_head_port := MIN_PORT\<rparr> else s) 0"

definition get_new_free_port :: "CIpInfo \<Rightarrow> u16 \<times> CIpInfo" where
  "get_new_free_port s =
     (let s1 = get_next_free_port_by_bit s in
      if \<not> is_port_available s1 (m_head_port s1)
      then (ILLEGAL_PORT, s1\<lparr>m_head_port := MIN_PORT\<rparr>)
      else
        let r = m_head_port s1;
            s2 = s1\<lparr>m_bitmap_port := insert r (m_bitmap_port s1), m_head_port := r + 1\<rparr>
        in (r, if m_head_port s2 > MAX_PORT then s2\<lparr>m_head_port := MIN_PORT\<rparr> else s2))"

definition return_port :: "u16 \<Rightarrow> CIpInfo \<Rightarrow> CIpInfo option" where
  "return_port a s =
     (if is_port_legal a \<and> a \<in> m_bitmap_port s
      then Some (s\<lparr>m_bitmap_port := m_bitmap_port s - {a}\<rparr>) else None)"

definition return_all_ports :: "CIpInfo \<Rightarrow> CIpInfo" where
  "return_all_ports s = s\<lparr>m_head_port := MIN_PORT, m_bitmap_port := {}\<rparr>"

section \<open>The interface CIpInfoBase\<close>

text \<open>A run of allocations.\<close>

primrec alloc_many :: "('s \<Rightarrow> u16 \<times> 's) \<Rightarrow> nat \<Rightarrow> 's \<Rightarrow> u16 list \<times> 's" where
  "alloc_many alloc 0 s = ([], s)"
| "alloc_many alloc (Suc n) s =
     (let (p, s1) = alloc s; (ps, s2) = alloc_many alloc n s1 in (p # ps, s2))"

text \<open>A client's session: it opens flows and closes the ones it holds, in any order.\<close>

inductive session ::
  "('s \<Rightarrow> u16 \<times> 's) \<Rightarrow> (u16 \<Rightarrow> 's \<Rightarrow> 's option) \<Rightarrow> 's \<Rightarrow> u16 list \<Rightarrow> 's \<Rightarrow> u16 list \<Rightarrow> bool"
  for alloc free where
  session_done: "session alloc free s held s held"
| session_open: "alloc s = (p, s1) \<Longrightarrow>
    session alloc free s1 (if p = ILLEGAL_PORT then held else p # held) s' held' \<Longrightarrow>
    session alloc free s held s' held'"
| session_close: "p \<in> set held \<Longrightarrow> free p s = Some s1 \<Longrightarrow>
    session alloc free s1 (remove1 p held) s' held' \<Longrightarrow> session alloc free s held s' held'"

text \<open>
  What the pools rely on: an allocation yields no port or one in the port range, a port just
  allocated can be returned, and every operation keeps the object usable.
\<close>

locale ip_info =
  fixes alloc :: "'s \<Rightarrow> u16 \<times> 's" and free :: "u16 \<Rightarrow> 's \<Rightarrow> 's option" and reset :: "'s \<Rightarrow> 's"
    and ok :: "'s \<Rightarrow> bool"
  assumes alloc_ok: "ok s \<Longrightarrow> alloc s = (p, s') \<Longrightarrow> ok s'"
    and alloc_range: "ok s \<Longrightarrow> alloc s = (p, s') \<Longrightarrow>
      p = ILLEGAL_PORT \<or> MIN_PORT \<le> p \<and> p \<le> MAX_PORT"
    and free_ok: "ok s \<Longrightarrow> free p s = Some s' \<Longrightarrow> ok s'"
    and free_alloc: "ok s \<Longrightarrow> alloc s = (p, s') \<Longrightarrow> p \<noteq> ILLEGAL_PORT \<Longrightarrow> free p s' \<noteq> None"
    and reset_ok: "ok s \<Longrightarrow> ok (reset s)"
begin

lemma alloc_many_range:
  "ok s \<Longrightarrow> alloc_many alloc n s = (ps, s') \<Longrightarrow>
     ok s' \<and> length ps = n \<and>
     (\<forall>p\<in>set ps. p = ILLEGAL_PORT \<or> MIN_PORT \<le> p \<and> p \<le> MAX_PORT)"
proof (induction n arbitrary: s ps)
  case (Suc n)
  obtain p s1 qs where 1: "alloc s = (p, s1)" and 2: "alloc_many alloc n s1 = (qs, s')" "ps = p # qs"
    using Suc.prems(2) by (auto split: prod.splits)
  then show ?case
    using Suc.IH [OF alloc_ok [OF Suc.prems(1) 1] 2(1)] alloc_range [OF Suc.prems(1) 1] by auto
qed simp

end

text \<open>An allocator that remembers which ports are out never hands out one of them again.\<close>

locale tracking_ip_info = ip_info alloc free reset ok
  for alloc :: "'s \<Rightarrow> u16 \<times> 's" and free and reset and ok +
  fixes used :: "'s \<Rightarrow> u16 set"
  assumes alloc_fresh: "ok s \<Longrightarrow> alloc s = (p, s') \<Longrightarrow> p \<noteq> ILLEGAL_PORT \<Longrightarrow>
      p \<notin> used s \<and> used s' = insert p (used s)"
    and alloc_fail: "ok s \<Longrightarrow> alloc s = (ILLEGAL_PORT, s') \<Longrightarrow> used s' = used s"
    and free_used: "ok s \<Longrightarrow> free p s = Some s' \<Longrightarrow> p \<in> used s \<and> used s' = used s - {p}"
    and free_defined: "ok s \<Longrightarrow> p \<in> used s \<Longrightarrow> free p s \<noteq> None"
    and used_legal: "ok s \<Longrightarrow> ILLEGAL_PORT \<notin> used s"
begin

lemma session_holds:
  assumes "session alloc free s held s' held'" and "ok s" and "distinct held" and "set held = used s"
  shows "ok s' \<and> distinct held' \<and> set held' = used s'"
  using assms
proof (induction rule: session.induct)
  case (session_open s p s1 held s' held')
  then show ?case
    using alloc_ok alloc_fresh alloc_fail by (cases "p = ILLEGAL_PORT") auto
next
  case (session_close p held s s1 s' held')
  then show ?case using free_ok free_used by (auto simp: set_remove1_eq)
qed simp

end

section \<open>CIpInfoL meets the interface\<close>

definition L_ok :: "CIpInfoL \<Rightarrow> bool" where
  "L_ok s \<longleftrightarrow> MIN_PORT \<le> l_curr_port s"

lemma L_alloc_port:
  assumes "L_ok s"
  shows "MIN_PORT \<le> fst (L_get_new_free_port s)" and "fst (L_get_new_free_port s) \<le> MAX_PORT"
    and "l_curr_port (snd (L_get_new_free_port s)) = fst (L_get_new_free_port s) + 1"
  using assms by (auto simp: L_get_new_free_port_def L_ok_def Let_def port_consts)

lemma L_alloc_ok: "L_ok s \<Longrightarrow> L_ok (snd (L_get_new_free_port s))"
  using L_alloc_port [of s] unat_suc_word [of "fst (L_get_new_free_port s)"]
  by (simp add: L_ok_def port_consts word_le_nat_alt)

interpretation lq: ip_info L_get_new_free_port L_return_port L_return_all_ports L_ok
proof
  fix s p s'
  assume ok: "L_ok s" and a: "L_get_new_free_port s = (p, s')"
  show "L_ok s'" using L_alloc_ok [OF ok] a by simp
  show "p = ILLEGAL_PORT \<or> MIN_PORT \<le> p \<and> p \<le> MAX_PORT" using L_alloc_port [OF ok] a by simp
qed (simp_all add: L_return_port_def L_return_all_ports_def L_ok_def)

text \<open>The ports of \<open>CIpInfoL\<close> run through the whole range in order.\<close>

definition L_index :: "CIpInfoL \<Rightarrow> nat" where
  "L_index s = (unat (l_curr_port s) - 1024) mod 62977"

lemma L_alloc_index:
  assumes "L_ok s" and "unat (l_curr_port s) \<le> 64001"
  shows "unat (fst (L_get_new_free_port s)) = 1024 + L_index s"
    and "L_index (snd (L_get_new_free_port s)) = (L_index s + 1) mod 62977"
    and "unat (l_curr_port (snd (L_get_new_free_port s))) \<le> 64001"
proof -
  have lo: "1024 \<le> unat (l_curr_port s)"
    using assms(1) by (simp add: L_ok_def MIN_PORT_def word_le_nat_alt)
  show p: "unat (fst (L_get_new_free_port s)) = 1024 + L_index s"
    using lo assms(2)
    by (cases "unat (l_curr_port s) = 64001") (auto simp: L_get_new_free_port_def L_index_def
        Let_def port_consts word_less_nat_alt mod_less)
  have lt: "L_index s < 62977" by (simp add: L_index_def)
  have c: "unat (l_curr_port (snd (L_get_new_free_port s))) = 1025 + L_index s"
    using L_alloc_port(3) [OF assms(1)] unat_suc_word [of "fst (L_get_new_free_port s)"] p lt by simp
  show "L_index (snd (L_get_new_free_port s)) = (L_index s + 1) mod 62977"
    using c by (simp add: L_index_def [of "snd (L_get_new_free_port s)"])
  show "unat (l_curr_port (snd (L_get_new_free_port s))) \<le> 64001" using c lt by simp
qed

section \<open>CIpInfo meets the interface\<close>

definition I_ok :: "CIpInfo \<Rightarrow> bool" where
  "I_ok s \<longleftrightarrow> (\<forall>p\<in>m_bitmap_port s. is_port_legal p)"

text \<open>The probe moves the head only, and to a legal port.\<close>

lemma next_free_loop_keeps:
  assumes "is_port_legal (m_head_port s)"
  shows "m_bitmap_port (next_free_loop s cnt) = m_bitmap_port s \<and>
    is_port_legal (m_head_port (next_free_loop s cnt))"
  using assms
proof (induction s cnt rule: next_free_loop.induct)
  case (1 s cnt)
  let ?h = "m_head_port s + 1"
  have "is_port_legal (if ?h \<ge> MAX_PORT then MIN_PORT else ?h)"
    using 1(2) unat_suc_word [of "m_head_port s"]
    by (auto simp: is_port_legal_def port_consts not_le not_less word_le_nat_alt word_less_nat_alt)
  with 1 show ?case by (subst (1 2) next_free_loop.simps) (simp add: Let_def)
qed

lemma get_next_free_port_keeps:
  "m_bitmap_port (get_next_free_port_by_bit s) = m_bitmap_port s"
  "is_port_legal (m_head_port (get_next_free_port_by_bit s))"
  using next_free_loop_keeps [of s 0] next_free_loop_keeps [of "s\<lparr>m_head_port := MIN_PORT\<rparr>" 0]
  by (auto simp: get_next_free_port_by_bit_def is_port_legal_def port_consts)

lemma get_new_free_port_cases:
  obtains (none) "get_new_free_port s = (ILLEGAL_PORT, s\<lparr>m_head_port := MIN_PORT\<rparr>)"
      "m_head_port (get_next_free_port_by_bit s) \<in> m_bitmap_port s"
  | (port) p h where "get_new_free_port s = (p, s\<lparr>m_bitmap_port := insert p (m_bitmap_port s),
      m_head_port := h\<rparr>)" "is_port_legal p" "p \<notin> m_bitmap_port s"
      "p = m_head_port (get_next_free_port_by_bit s)"
proof -
  let ?s1 = "get_next_free_port_by_bit s" and ?p = "m_head_port (get_next_free_port_by_bit s)"
  have s1: "?s1 = s\<lparr>m_head_port := ?p\<rparr>" using get_next_free_port_keeps(1) [of s]
    by (metis CIpInfo.surjective CIpInfo.update_convs(2) old.unit.exhaust)
  note legal = get_next_free_port_keeps(2) [of s]
  show thesis
  proof (cases "?p \<in> m_bitmap_port s")
    case True
    then have "get_new_free_port s = (ILLEGAL_PORT, ?s1\<lparr>m_head_port := MIN_PORT\<rparr>)"
      using legal by (simp add: get_new_free_port_def is_port_available_def
          get_next_free_port_keeps Let_def)
    with True none show thesis by (subst (asm) s1) simp
  next
    case False
    then have "\<exists>h. get_new_free_port s =
        (?p, ?s1\<lparr>m_bitmap_port := insert ?p (m_bitmap_port s), m_head_port := h\<rparr>)"
      using legal by (simp add: get_new_free_port_def is_port_available_def
          get_next_free_port_keeps Let_def) blast
    with False legal port show thesis by (subst (asm) (2) s1) auto
  qed
qed

lemma illegal_port_not_legal [simp]: "\<not> is_port_legal ILLEGAL_PORT"
  by (simp add: is_port_legal_def port_consts)

lemma alloc_effect:
  assumes "get_new_free_port s = (p, s')"
  shows "p = ILLEGAL_PORT \<and> m_bitmap_port s' = m_bitmap_port s \<or>
    is_port_legal p \<and> p \<notin> m_bitmap_port s \<and> m_bitmap_port s' = insert p (m_bitmap_port s)"
  by (rule get_new_free_port_cases [of s]) (use assms in auto)

interpretation b: tracking_ip_info get_new_free_port return_port return_all_ports I_ok m_bitmap_port
proof
  fix s p s'
  assume ok: "I_ok s" and a: "get_new_free_port s = (p, s')"
  note e = alloc_effect [OF a]
  show "I_ok s'" using e ok by (auto simp: I_ok_def)
  show "p = ILLEGAL_PORT \<or> MIN_PORT \<le> p \<and> p \<le> MAX_PORT"
    using e by (auto simp: is_port_legal_def)
  assume "p \<noteq> ILLEGAL_PORT"
  then show "return_port p s' \<noteq> None"
    and "p \<notin> m_bitmap_port s \<and> m_bitmap_port s' = insert p (m_bitmap_port s)"
    using e by (auto simp: return_port_def)
next
  fix s s'
  assume a: "get_new_free_port s = (ILLEGAL_PORT, s')"
  show "m_bitmap_port s' = m_bitmap_port s" using alloc_effect [OF a] by auto
qed (auto simp: return_port_def return_all_ports_def I_ok_def split: if_splits)

section \<open>When an allocation fails\<close>

text \<open>The port probed in step \<open>k\<close> of a search that starts at \<open>h\<close>.\<close>

definition probe :: "nat \<Rightarrow> nat \<Rightarrow> nat" where
  "probe h k = 1024 + (h - 1024 + k) mod 62976"

lemma next_free_loop_fails:
  assumes "is_port_legal (m_head_port s)" and "cnt \<le> 20"
  shows "m_head_port (next_free_loop s cnt) \<in> m_bitmap_port s \<longleftrightarrow>
    (\<forall>k\<le>20 - cnt. of_nat (probe (unat (m_head_port s)) k) \<in> m_bitmap_port s)"
  using assms
proof (induction s cnt rule: next_free_loop.induct)
  case (1 s cnt)
  let ?h = "m_head_port s"
  let ?h' = "if ?h + 1 \<ge> MAX_PORT then MIN_PORT else ?h + 1"
  have h: "1024 \<le> unat ?h" "unat ?h < 64000"
    using 1(2) by (auto simp: is_port_legal_def port_consts word_le_nat_alt word_less_nat_alt)
  have h': "unat ?h' = probe (unat ?h) 1" "is_port_legal ?h'"
    using h unat_suc_word [of ?h]
    by (auto simp: probe_def is_port_legal_def port_consts word_le_nat_alt word_less_nat_alt mod_Suc)
  have p0: "of_nat (probe (unat ?h) 0) = ?h" using h by (simp add: probe_def)
  have pS: "probe (probe (unat ?h) 1) k = probe (unat ?h) (Suc k)" for k
    by (simp add: probe_def mod_simps)
  show ?case
  proof (cases "?h \<in> m_bitmap_port s")
    case False
    then have "next_free_loop s cnt = s"
      using 1(2) by (subst next_free_loop.simps) (simp add: is_port_available_def)
    then show ?thesis using False p0 by fastforce
  next
    case True
    then have na: "\<not> is_port_available s ?h" using 1(2) by (simp add: is_port_available_def)
    show ?thesis
    proof (cases "cnt = 20")
      case c: True
      then show ?thesis using na True p0 by (subst next_free_loop.simps) simp
    next
      case c: False
      then have "m_head_port (next_free_loop s cnt) =
          m_head_port (next_free_loop (s\<lparr>m_head_port := ?h'\<rparr>) (cnt + 1))"
        using na 1(3) by (subst next_free_loop.simps) (simp add: Let_def)
      also have "\<dots> \<in> m_bitmap_port s \<longleftrightarrow>
          (\<forall>k\<le>20 - (cnt + 1). of_nat (probe (unat ?h') k) \<in> m_bitmap_port s)"
        using 1(1) [OF na _ refl] h' c 1(3) by (simp add: Let_def)
      also have "\<dots> \<longleftrightarrow> (\<forall>k\<le>20 - (cnt + 1). of_nat (probe (unat ?h) (Suc k)) \<in> m_bitmap_port s)"
        using h' pS by simp
      also have "\<dots> \<longleftrightarrow> (\<forall>k\<le>20 - cnt. of_nat (probe (unat ?h) k) \<in> m_bitmap_port s)"
        using True p0 c 1(3) by (metis Suc_diff_Suc Suc_eq_plus1 le_neq_implies_less Suc_le_mono
            not0_implies_Suc)
      finally show ?thesis .
    qed
  qed
qed

section \<open>Client and server objects\<close>

text \<open>
  \<open>CClientInfo\<close> and \<open>CClientInfoL\<close> add the hardware address, \<open>CServerInfo\<close> and \<open>CServerInfoL\<close> nothing;
  a virtual call selects the implementation by the constructor.
\<close>

datatype CIpInfoBase =
    ClientInfo u32 "mac_addr_align_t option" CIpInfo
  | ClientInfoL u32 "mac_addr_align_t option" CIpInfoL
  | ServerInfo u32 CIpInfo
  | ServerInfoL u32 CIpInfoL

definition get_ip :: "CIpInfoBase \<Rightarrow> u32" where
  "get_ip o' = (case o' of ClientInfo ip _ _ \<Rightarrow> ip | ClientInfoL ip _ _ \<Rightarrow> ip
     | ServerInfo ip _ \<Rightarrow> ip | ServerInfoL ip _ \<Rightarrow> ip)"

definition get_mac :: "CIpInfoBase \<Rightarrow> mac_addr_align_t option" where
  "get_mac o' = (case o' of ClientInfo _ m _ \<Rightarrow> m | ClientInfoL _ m _ \<Rightarrow> m | _ \<Rightarrow> None)"

definition v_get_new_free_port :: "CIpInfoBase \<Rightarrow> u16 \<times> CIpInfoBase" where
  "v_get_new_free_port o' = (case o' of
       ClientInfo ip m s \<Rightarrow> map_prod id (ClientInfo ip m) (get_new_free_port s)
     | ClientInfoL ip m s \<Rightarrow> map_prod id (ClientInfoL ip m) (L_get_new_free_port s)
     | ServerInfo ip s \<Rightarrow> map_prod id (ServerInfo ip) (get_new_free_port s)
     | ServerInfoL ip s \<Rightarrow> map_prod id (ServerInfoL ip) (L_get_new_free_port s))"

definition v_return_port :: "u16 \<Rightarrow> CIpInfoBase \<Rightarrow> CIpInfoBase option" where
  "v_return_port a o' = (case o' of
       ClientInfo ip m s \<Rightarrow> map_option (ClientInfo ip m) (return_port a s)
     | ClientInfoL ip m s \<Rightarrow> map_option (ClientInfoL ip m) (L_return_port a s)
     | ServerInfo ip s \<Rightarrow> map_option (ServerInfo ip) (return_port a s)
     | ServerInfoL ip s \<Rightarrow> map_option (ServerInfoL ip) (L_return_port a s))"

definition v_return_all_ports :: "CIpInfoBase \<Rightarrow> CIpInfoBase" where
  "v_return_all_ports o' = (case o' of
       ClientInfo ip m s \<Rightarrow> ClientInfo ip m (return_all_ports s)
     | ClientInfoL ip m s \<Rightarrow> ClientInfoL ip m (L_return_all_ports s)
     | ServerInfo ip s \<Rightarrow> ServerInfo ip (return_all_ports s)
     | ServerInfoL ip s \<Rightarrow> ServerInfoL ip (L_return_all_ports s))"

definition generate_tuple :: "CIpInfoBase \<Rightarrow> CTupleBase \<Rightarrow> CTupleBase \<times> CIpInfoBase" where
  "generate_tuple o' t = (case o' of
       ClientInfo ip m s \<Rightarrow>
         (let (p, s') = get_new_free_port s in (setClientTuple ip m p t, ClientInfo ip m s'))
     | ClientInfoL ip m s \<Rightarrow>
         (let (p, s') = L_get_new_free_port s in (setClientTuple ip m p t, ClientInfoL ip m s'))
     | ServerInfo ip s \<Rightarrow> (t\<lparr>m_server_ip := ip\<rparr>, o')
     | ServerInfoL ip s \<Rightarrow> (t\<lparr>m_server_ip := ip\<rparr>, o'))"

definition v_ok :: "CIpInfoBase \<Rightarrow> bool" where
  "v_ok o' = (case o' of ClientInfo _ _ s \<Rightarrow> I_ok s | ClientInfoL _ _ s \<Rightarrow> L_ok s
     | ServerInfo _ s \<Rightarrow> I_ok s | ServerInfoL _ s \<Rightarrow> L_ok s)"

interpretation v: ip_info v_get_new_free_port v_return_port v_return_all_ports v_ok
proof
  fix o' p o''
  assume ok: "v_ok o'" and a: "v_get_new_free_port o' = (p, o'')"
  show "v_ok o''"
    using ok a b.alloc_ok lq.alloc_ok
    by (cases o') (auto simp: v_ok_def v_get_new_free_port_def map_prod_def split: prod.splits)
  show "p = ILLEGAL_PORT \<or> MIN_PORT \<le> p \<and> p \<le> MAX_PORT"
    using ok a b.alloc_range lq.alloc_range
    by (cases o') (auto simp: v_ok_def v_get_new_free_port_def map_prod_def split: prod.splits)
  show "v_return_port p o'' \<noteq> None" if "p \<noteq> ILLEGAL_PORT"
    using ok a b.free_alloc lq.free_alloc that
    by (cases o') (auto simp: v_ok_def v_get_new_free_port_def v_return_port_def map_prod_def
        split: prod.splits)
next
  fix o' p o''
  assume "v_ok o'" and "v_return_port p o' = Some o''"
  then show "v_ok o''"
    using b.free_ok lq.free_ok by (cases o') (auto simp: v_ok_def v_return_port_def)
next
  fix o'
  assume "v_ok o'"
  then show "v_ok (v_return_all_ports o')"
    using b.reset_ok lq.reset_ok by (cases o') (auto simp: v_ok_def v_return_all_ports_def)
qed

lemma get_ip_alloc [simp]: "get_ip (snd (v_get_new_free_port o')) = get_ip o'"
  by (cases o') (auto simp: get_ip_def v_get_new_free_port_def)

section \<open>Properties\<close>

text \<open>
  C34. Whatever order a client opens and closes its flows in, the ports it holds are pairwise
  different, legal, and exactly the ports the bit set of its address records.
\<close>

theorem held_ports_unique:
  assumes "session get_new_free_port return_port CIpInfo_new [] s held"
  shows "distinct held \<and> set held = m_bitmap_port s \<and> (\<forall>p\<in>set held. is_port_legal p)"
  using b.session_holds [OF assms] by (simp add: CIpInfo_new_def I_ok_def)

lemma demo_session:
  "session get_new_free_port return_port CIpInfo_new []
     \<lparr>m_bitmap_port = {1025}, m_head_port = 1026\<rparr> [1025]"
proof -
  have 1: "get_new_free_port CIpInfo_new = (1024, \<lparr>m_bitmap_port = {1024}, m_head_port = 1025\<rparr>)"
    and 2: "get_new_free_port \<lparr>m_bitmap_port = {1024}, m_head_port = 1025\<rparr> =
      (1025, \<lparr>m_bitmap_port = {1025, 1024}, m_head_port = 1026\<rparr>)"
    by (simp_all add: get_new_free_port_def get_next_free_port_by_bit_def next_free_loop.simps
        is_port_available_def is_port_legal_def CIpInfo_new_def port_consts Let_def)
  have 3: "return_port 1024 \<lparr>m_bitmap_port = {1025, 1024}, m_head_port = 1026\<rparr> =
      Some \<lparr>m_bitmap_port = {1025}, m_head_port = 1026\<rparr>"
    by (auto simp: return_port_def is_port_legal_def port_consts)
  have "session get_new_free_port return_port \<lparr>m_bitmap_port = {1025, 1024}, m_head_port = 1026\<rparr>
      [1025, 1024] \<lparr>m_bitmap_port = {1025}, m_head_port = 1026\<rparr> [1025]"
    by (rule session_close [where free = return_port, OF _ 3]) (simp_all add: session_done)
  then have "session get_new_free_port return_port \<lparr>m_bitmap_port = {1024}, m_head_port = 1025\<rparr>
      [1024] \<lparr>m_bitmap_port = {1025}, m_head_port = 1026\<rparr> [1025]"
    by (intro session_open [where alloc = get_new_free_port, OF 2]) (simp add: ILLEGAL_PORT_def)
  then show ?thesis by (intro session_open [where alloc = get_new_free_port, OF 1]) (simp add: ILLEGAL_PORT_def)
qed

theorem held_ports_unique_witness:
  "distinct [1025 :: u16] \<and> set [1025] = m_bitmap_port \<lparr>m_bitmap_port = {1025 :: u16}, m_head_port = 1026\<rparr> \<and>
     is_port_legal 1025"
  using held_ports_unique [OF demo_session] by simp

text \<open>
  An address runs out of ports exactly when the 21 ports probed from its head are all in
  use: the search is bounded, so an allocation can fail while other ports are free.
\<close>

lemma allocation_fails_iff:
  assumes "is_port_legal (m_head_port s)"
  shows "fst (get_new_free_port s) = ILLEGAL_PORT \<longleftrightarrow>
    (\<forall>k\<le>20. of_nat (1024 + (unat (m_head_port s) - 1024 + k) mod 62976) \<in> m_bitmap_port s)"
proof -
  have "fst (get_new_free_port s) = ILLEGAL_PORT \<longleftrightarrow>
      m_head_port (get_next_free_port_by_bit s) \<in> m_bitmap_port s"
    by (rule get_new_free_port_cases [of s]) auto
  then show ?thesis
    using next_free_loop_fails [OF assms, of 0] assms
    by (simp add: get_next_free_port_by_bit_def probe_def)
qed

text \<open>
  The allocator of large pools hands out the ports from 1024 to 64000 in turn and starts
  over: the \<open>k\<close>-th port after a reset is \<open>1024 + k mod 62977\<close>, so 62977 flows in a row of one
  address have different ports.
\<close>

lemma large_pool_ports_cycle:
  "map unat (fst (alloc_many L_get_new_free_port n CIpInfoL_new)) =
     map (\<lambda>k. 1024 + k mod 62977) [0..<n]"
proof -
  have "map unat (fst (alloc_many L_get_new_free_port n s)) =
      map (\<lambda>k. 1024 + (L_index s + k) mod 62977) [0..<n]"
    if "L_ok s" and "unat (l_curr_port s) \<le> 64001" for s
    using that
  proof (induction n arbitrary: s)
    case (Suc n)
    obtain p s1 where a: "L_get_new_free_port s = (p, s1)" by force
    note i = L_alloc_index [OF Suc.prems]
    have ok: "L_ok s1" using lq.alloc_ok [OF Suc.prems(1) a] .
    have "map unat (fst (alloc_many L_get_new_free_port n s1)) =
        map (\<lambda>k. 1024 + (L_index s1 + k) mod 62977) [0..<n]"
      using Suc.IH [OF ok] i(3) a by simp
    also have "\<dots> = map (\<lambda>k. 1024 + (L_index s + Suc k) mod 62977) [0..<n]"
      using i(2) a by (simp add: mod_simps)
    finally show ?case
      using i(1) a by (simp add: upt_conv_Cons map_Suc_upt [symmetric] case_prod_beta Let_def
          L_index_def comp_def del: upt_Suc)
  qed simp
  from this [of CIpInfoL_new] show ?thesis
    by (simp add: CIpInfoL_new_def L_ok_def L_index_def port_consts)
qed

end
