(* ===== verification/Tuple_Pool.thy ===== *)
theory Tuple_Pool
  imports Ip_Info Complex_Main
begin

text \<open>
  Pools of addresses and the tuple generators of \<open>tuple_gen.h\<close> and \<open>tuple_gen.cpp\<close>: \<open>CIpPool\<close>,
  \<open>CClientPool\<close>, the two server pools, \<open>CTupleGeneratorSmart\<close>, \<open>CTupleTemplateGeneratorSmart\<close>, the
  pool configuration and \<open>split_ips\<close>.

  A vector of object pointers is a list of options (\<open>None\<close> is the null pointer).  Reading a null
  pointer or past the end of a vector, and a failed \<open>assert\<close>, is the result \<open>None\<close>.  The
  generators hold pointers to pools; here they hold the pool numbers, and the pools live in the
  generator's state.  The draws of \<open>std::uniform_int_distribution\<close> are an argument \<open>rand_dis\<close>: the
  number of addresses and the number of the draw give the value.  The two \<open>double\<close>s that choose
  between the object types are rationals; their rounding is not modelled.
\<close>

section \<open>CIpPool\<close>

datatype IP_DIST_t = cdSEQ_DIST | cdRANDOM_DIST | cdNORMAL_DIST | cdMAX_DIST

type_synonym draws = "nat \<Rightarrow> nat \<Rightarrow> u32"

record CIpPool =
  m_ip_info :: "CIpInfoBase option list"
  m_dist :: IP_DIST_t
  m_cur_idx :: u32
  m_active_alloc :: u32
  m_port_allocation_error :: u32
  m_draws :: nat

definition get_ip_info_by_idx :: "'z CIpPool_scheme \<Rightarrow> u32 \<Rightarrow> CIpInfoBase option" where
  "get_ip_info_by_idx p idx =
     (if unat idx < length (m_ip_info p) then m_ip_info p ! unat idx else None)"

definition set_ip_info :: "u32 \<Rightarrow> CIpInfoBase \<Rightarrow> 'z CIpPool_scheme \<Rightarrow> 'z CIpPool_scheme" where
  "set_ip_info idx obj p = p\<lparr>m_ip_info := (m_ip_info p)[unat idx := Some obj]\<rparr>"

text \<open>The bookkeeping after an allocation.\<close>

definition count_alloc :: "u16 \<Rightarrow> 'z CIpPool_scheme \<Rightarrow> 'z CIpPool_scheme" where
  "count_alloc port p =
     (let p1 = (if port = ILLEGAL_PORT
                then p\<lparr>m_port_allocation_error := m_port_allocation_error p + 1\<rparr> else p)
      in p1\<lparr>m_active_alloc := m_active_alloc p1 + 1\<rparr>)"

definition GenerateOnePort :: "'z CIpPool_scheme \<Rightarrow> u32 \<Rightarrow> (u16 \<times> 'z CIpPool_scheme) option" where
  "GenerateOnePort p idx = (case get_ip_info_by_idx p idx of
       None \<Rightarrow> None
     | Some info \<Rightarrow>
         let (port, info') = v_get_new_free_port info
         in Some (port, count_alloc port (set_ip_info idx info' p)))"

definition is_valid_ip :: "'z CIpPool_scheme \<Rightarrow> u32 \<Rightarrow> bool option" where
  "is_valid_ip p ip =
     (if m_ip_info p = [] then None
      else case (hd (m_ip_info p), last (m_ip_info p)) of
          (Some ip_front, Some ip_back) \<Rightarrow> Some (ip \<ge> get_ip ip_front \<and> ip \<le> get_ip ip_back)
        | _ \<Rightarrow> None)"

definition pool_get_ip :: "'z CIpPool_scheme \<Rightarrow> u32 \<Rightarrow> u32 option" where
  "pool_get_ip p idx = map_option get_ip (get_ip_info_by_idx p idx)"

definition get_curr_ip :: "'z CIpPool_scheme \<Rightarrow> u32 option" where
  "get_curr_ip p = pool_get_ip p (m_cur_idx p)"

definition pool_get_mac :: "'z CIpPool_scheme \<Rightarrow> u32 \<Rightarrow> mac_addr_align_t option option" where
  "pool_get_mac p idx = map_option get_mac (get_ip_info_by_idx p idx)"

definition get_total_ips :: "'z CIpPool_scheme \<Rightarrow> u32" where
  "get_total_ips p = of_nat (length (m_ip_info p))"

definition get_random_idx :: "draws \<Rightarrow> 'z CIpPool_scheme \<Rightarrow> u32 \<times> 'z CIpPool_scheme" where
  "get_random_idx rand_dis p =
     (rand_dis (length (m_ip_info p)) (m_draws p), p\<lparr>m_draws := m_draws p + 1\<rparr>)"

definition inc_cur_idx :: "draws \<Rightarrow> 'z CIpPool_scheme \<Rightarrow> 'z CIpPool_scheme" where
  "inc_cur_idx rand_dis p = (case m_dist p of
       cdRANDOM_DIST \<Rightarrow> (let (r, p') = get_random_idx rand_dis p in p'\<lparr>m_cur_idx := r\<rparr>)
     | _ \<Rightarrow>
         (let p1 = p\<lparr>m_cur_idx := m_cur_idx p + 1\<rparr>
          in if unat (m_cur_idx p1) \<ge> length (m_ip_info p1) then p1\<lparr>m_cur_idx := 0\<rparr> else p1))"

definition generate_ip :: "draws \<Rightarrow> 'z CIpPool_scheme \<Rightarrow> u32 \<times> 'z CIpPool_scheme" where
  "generate_ip rand_dis p = (m_cur_idx p, inc_cur_idx rand_dis p)"

definition set_dist :: "IP_DIST_t \<Rightarrow> 'z CIpPool_scheme \<Rightarrow> 'z CIpPool_scheme" where
  "set_dist d p = p\<lparr>m_dist := (if d = cdMAX_DIST then cdSEQ_DIST else d)\<rparr>"

definition pool_Delete :: "'z CIpPool_scheme \<Rightarrow> 'z CIpPool_scheme" where
  "pool_Delete p = p\<lparr>m_ip_info := []\<rparr>"

definition pool_return_all_ports :: "'z CIpPool_scheme \<Rightarrow> 'z CIpPool_scheme option" where
  "pool_return_all_ports p =
     (if None \<in> set (m_ip_info p) then None
      else Some (p\<lparr>m_ip_info := map (map_option v_return_all_ports) (m_ip_info p)\<rparr>))"

definition pool_FreePort :: "'z CIpPool_scheme \<Rightarrow> u32 \<Rightarrow> u16 \<Rightarrow> 'z CIpPool_scheme option" where
  "pool_FreePort p i port =
     (let p1 = p\<lparr>m_active_alloc := m_active_alloc p - 1\<rparr> in
      case get_ip_info_by_idx p1 i of
        None \<Rightarrow> None
      | Some client \<Rightarrow> map_option (\<lambda>c. set_ip_info i c p1) (v_return_port port client))"

definition CreateBase :: "'z CIpPool_scheme \<Rightarrow> 'z CIpPool_scheme" where
  "CreateBase p = p\<lparr>m_cur_idx := 0, m_active_alloc := 0, m_port_allocation_error := 0\<rparr>"

section \<open>CClientPool\<close>

record CClientPool = CIpPool +
  m_tcp_aging :: u16
  m_udp_aging :: u16

definition client_GenerateTuple ::
  "draws \<Rightarrow> 'z CIpPool_scheme \<Rightarrow> CTupleBase \<Rightarrow> (CTupleBase \<times> 'z CIpPool_scheme) option" where
  "client_GenerateTuple rand_dis p t =
     (let (idx, p1) = generate_ip rand_dis p in
      case get_ip_info_by_idx p1 idx of
        None \<Rightarrow> None
      | Some info \<Rightarrow>
          let (t1, info') = generate_tuple info t;
              t2 = t1\<lparr>m_client_idx := idx\<rparr>
          in Some (t2, count_alloc (m_client_port t2) (set_ip_info idx info' p1)))"

text \<open>The loops that fill the vector; an index past its end is undefined.\<close>

fun fill_ips ::
  "(nat \<Rightarrow> CIpInfoBase option) \<Rightarrow> nat list \<Rightarrow> CIpInfoBase option list \<Rightarrow> CIpInfoBase option list option" where
  "fill_ips f [] v = Some v"
| "fill_ips f (idx # is) v = (case f idx of
       None \<Rightarrow> fill_ips f is v
     | Some obj \<Rightarrow> if idx < length v then fill_ips f is (v[idx := Some obj]) else None)"

text \<open>The comparison \<open>total_ip > l_flow * t_cps / MAX_PORT\<close>.\<close>

definition is_large :: "u32 \<Rightarrow> rat \<Rightarrow> rat \<Rightarrow> bool" where
  "is_large total_ip l_flow t_cps \<longleftrightarrow> of_nat (unat total_ip) > l_flow * t_cps / 64000"

definition client_object :: "bool \<Rightarrow> u32 \<Rightarrow> mac_addr_align_t option \<Rightarrow> CIpInfoBase" where
  "client_object large ip m =
     (if large then ClientInfoL ip m CIpInfoL_new else ClientInfo ip m CIpInfo_new)"

definition CClientPool_Create ::
  "IP_DIST_t \<Rightarrow> u32 \<Rightarrow> u32 \<Rightarrow> rat \<Rightarrow> rat \<Rightarrow> (u32 \<Rightarrow> mac_addr_align_t option) option \<Rightarrow> bool \<Rightarrow>
     u16 \<Rightarrow> u16 \<Rightarrow> CClientPool \<Rightarrow> CClientPool option" where
  "CClientPool_Create dist_value min_ip max_ip l_flow t_cps mac_info has_mac_map tcp_aging udp_aging p =
     (if max_ip < min_ip then None
      else
        let p1 = set_dist dist_value p;
            total_ip = max_ip - min_ip + 1;
            idxs = [0..<unat total_ip];
            avail_ip = (case mac_info of
                Some macs \<Rightarrow> if has_mac_map
                  then total_ip - of_nat (length (filter (\<lambda>i. macs (min_ip + of_nat i) = None) idxs))
                  else total_ip
              | None \<Rightarrow> total_ip);
            vec = replicate (unat (if avail_ip \<noteq> 0 then avail_ip else total_ip)) None;
            large = is_large total_ip l_flow t_cps;
            filled = (if has_mac_map
              then (case mac_info of
                  None \<Rightarrow> (if idxs = [] then Some vec else None)
                | Some macs \<Rightarrow> fill_ips (\<lambda>i. map_option (\<lambda>m. client_object large (min_ip + of_nat i) (Some m))
                      (macs (min_ip + of_nat i))) idxs vec)
              else fill_ips (\<lambda>i. Some (client_object large (min_ip + of_nat i) None)) idxs vec)
        in map_option (\<lambda>v. CreateBase (p1\<lparr>m_ip_info := v, m_tcp_aging := tcp_aging,
             m_udp_aging := udp_aging\<rparr>)) filled)"

section \<open>Server pools\<close>

record CServerPoolSimple =
  m_max_server_ip :: u32
  m_min_server_ip :: u32
  m_cur_server_ip :: u32

datatype CServerPoolBase = ServerPoolSimple CServerPoolSimple | ServerPool CIpPool

definition CIpPool_new :: CIpPool where
  "CIpPool_new = \<lparr>m_ip_info = [], m_dist = cdSEQ_DIST, m_cur_idx = 0, m_active_alloc = 0,
     m_port_allocation_error = 0, m_draws = 0\<rparr>"

definition CServerPoolSimple_Create :: "u32 \<Rightarrow> u32 \<Rightarrow> CServerPoolSimple" where
  "CServerPoolSimple_Create min_ip max_ip =
     \<lparr>m_max_server_ip = max_ip, m_min_server_ip = min_ip, m_cur_server_ip = min_ip\<rparr>"

definition simple_GenerateTuple ::
  "CServerPoolSimple \<Rightarrow> CTupleBase \<Rightarrow> CTupleBase \<times> CServerPoolSimple" where
  "simple_GenerateTuple s t =
     (let t' = t\<lparr>m_server_ip := m_cur_server_ip s\<rparr>;
          s1 = s\<lparr>m_cur_server_ip := m_cur_server_ip s + 1\<rparr>
      in (t', if m_cur_server_ip s1 > m_max_server_ip s1
              then s1\<lparr>m_cur_server_ip := m_min_server_ip s1\<rparr> else s1))"

definition server_object :: "bool \<Rightarrow> u32 \<Rightarrow> CIpInfoBase" where
  "server_object large ip = (if large then ServerInfoL ip CIpInfoL_new else ServerInfo ip CIpInfo_new)"

definition CServerPool_Create :: "IP_DIST_t \<Rightarrow> u32 \<Rightarrow> u32 \<Rightarrow> rat \<Rightarrow> rat \<Rightarrow> CIpPool option" where
  "CServerPool_Create dist_value min_ip max_ip l_flow t_cps =
     (let p1 = set_dist dist_value CIpPool_new;
          total_ip = max_ip - min_ip + 1;
          large = is_large total_ip l_flow t_cps
      in map_option (\<lambda>v. CreateBase (p1\<lparr>m_ip_info := v\<rparr>))
           (fill_ips (\<lambda>i. Some (server_object large (min_ip + of_nat i))) [0..<unat total_ip]
              (replicate (unat total_ip) None)))"

definition server_GenerateTuple ::
  "draws \<Rightarrow> CServerPoolBase \<Rightarrow> CTupleBase \<Rightarrow> (CTupleBase \<times> CServerPoolBase) option" where
  "server_GenerateTuple rand_dis s t = (case s of
       ServerPoolSimple sp \<Rightarrow> Some (map_prod id ServerPoolSimple (simple_GenerateTuple sp t))
     | ServerPool gen \<Rightarrow>
         let (idx, gen') = generate_ip rand_dis gen
         in map_option (\<lambda>ip. (setServerAll idx ip t, ServerPool gen')) (pool_get_ip gen' idx))"

definition server_GenerateOnePort :: "CServerPoolBase \<Rightarrow> u32 \<Rightarrow> (u16 \<times> CServerPoolBase) option" where
  "server_GenerateOnePort s idx = (case s of
       ServerPoolSimple sp \<Rightarrow> Some (0, s)
     | ServerPool gen \<Rightarrow> map_option (map_prod id ServerPool) (GenerateOnePort gen idx))"

definition server_get_total_ips :: "CServerPoolBase \<Rightarrow> u32" where
  "server_get_total_ips s = (case s of
       ServerPoolSimple sp \<Rightarrow> m_max_server_ip sp - m_min_server_ip sp + 1
     | ServerPool gen \<Rightarrow> of_nat (length (m_ip_info gen)))"

section \<open>CTupleGeneratorSmart\<close>

record CTupleGeneratorSmart =
  g_id :: u32
  g_thread_id :: u32
  g_client_pool :: "CClientPool list"
  g_server_pool :: "CServerPoolBase list"
  g_was_init :: bool
  g_has_mac_mapping :: bool

definition CTupleGeneratorSmart_Create ::
  "u32 \<Rightarrow> u32 \<Rightarrow> bool \<Rightarrow> CTupleGeneratorSmart \<Rightarrow> CTupleGeneratorSmart" where
  "CTupleGeneratorSmart_Create i thread_id has_mac g =
     g\<lparr>g_thread_id := thread_id, g_id := i, g_was_init := True, g_has_mac_mapping := has_mac\<rparr>"

definition CTupleGeneratorSmart_Delete :: "CTupleGeneratorSmart \<Rightarrow> CTupleGeneratorSmart" where
  "CTupleGeneratorSmart_Delete g =
     g\<lparr>g_was_init := False, g_has_mac_mapping := False, g_client_pool := [], g_server_pool := []\<rparr>"

definition CClientPool_new :: CClientPool where
  "CClientPool_new = \<lparr>m_ip_info = [], m_dist = cdSEQ_DIST, m_cur_idx = 0, m_active_alloc = 0,
     m_port_allocation_error = 0, m_draws = 0, m_tcp_aging = 0, m_udp_aging = 0\<rparr>"

definition add_client_pool ::
  "IP_DIST_t \<Rightarrow> u32 \<Rightarrow> u32 \<Rightarrow> rat \<Rightarrow> rat \<Rightarrow> (u32 \<Rightarrow> mac_addr_align_t option) option \<Rightarrow> u16 \<Rightarrow> u16 \<Rightarrow>
     CTupleGeneratorSmart \<Rightarrow> CTupleGeneratorSmart option" where
  "add_client_pool client_dist min_client max_client l_flow t_cps mac_info tcp_aging udp_aging g =
     (if max_client < min_client then None
      else map_option (\<lambda>pool. g\<lparr>g_client_pool := g_client_pool g @ [pool]\<rparr>)
        (CClientPool_Create client_dist min_client max_client l_flow t_cps mac_info
           (g_has_mac_mapping g) tcp_aging udp_aging CClientPool_new))"

definition add_server_pool ::
  "IP_DIST_t \<Rightarrow> u32 \<Rightarrow> u32 \<Rightarrow> rat \<Rightarrow> rat \<Rightarrow> bool \<Rightarrow> CTupleGeneratorSmart \<Rightarrow> CTupleGeneratorSmart option" where
  "add_server_pool server_dist min_server max_server l_flow t_cps is_bundling g =
     (if max_server < min_server then None
      else map_option (\<lambda>pool. g\<lparr>g_server_pool := g_server_pool g @ [pool]\<rparr>)
        (if is_bundling
         then map_option ServerPool (CServerPool_Create server_dist min_server max_server l_flow t_cps)
         else Some (ServerPoolSimple (CServerPoolSimple_Create min_server max_server))))"

definition ActiveSockets :: "CTupleGeneratorSmart \<Rightarrow> u32" where
  "ActiveSockets g = foldl (\<lambda>n p. n + m_active_alloc p) 0 (g_client_pool g)"

definition getTotalClients :: "CTupleGeneratorSmart \<Rightarrow> u32" where
  "getTotalClients g = foldl (\<lambda>n p. n + get_total_ips p) 0 (g_client_pool g)"

definition getTotalServers :: "CTupleGeneratorSmart \<Rightarrow> u32" where
  "getTotalServers g = foldl (\<lambda>n p. n + server_get_total_ips p) 0 (g_server_pool g)"

definition SocketsPerClient :: u32 where
  "SocketsPerClient = 64000 - 1024 + 1"

definition MaxSockets :: "CTupleGeneratorSmart \<Rightarrow> u32" where
  "MaxSockets g = SocketsPerClient * getTotalClients g"

definition getErrorAllocationCounter :: "CTupleGeneratorSmart \<Rightarrow> u32" where
  "getErrorAllocationCounter g = foldl (\<lambda>n p. n + m_port_allocation_error p) 0 (g_client_pool g)"

definition get_client_pool :: "CTupleGeneratorSmart \<Rightarrow> u8 \<Rightarrow> CClientPool option" where
  "get_client_pool g idx =
     (if unat idx < length (g_client_pool g) then Some (g_client_pool g ! unat idx) else None)"

definition get_server_pool :: "CTupleGeneratorSmart \<Rightarrow> u8 \<Rightarrow> CServerPoolBase option" where
  "get_server_pool g idx =
     (if unat idx < length (g_server_pool g) then Some (g_server_pool g ! unat idx) else None)"

definition set_client_pool :: "u8 \<Rightarrow> CClientPool \<Rightarrow> CTupleGeneratorSmart \<Rightarrow> CTupleGeneratorSmart" where
  "set_client_pool idx p g = g\<lparr>g_client_pool := (g_client_pool g)[unat idx := p]\<rparr>"

definition set_server_pool :: "u8 \<Rightarrow> CServerPoolBase \<Rightarrow> CTupleGeneratorSmart \<Rightarrow> CTupleGeneratorSmart" where
  "set_server_pool idx p g = g\<lparr>g_server_pool := (g_server_pool g)[unat idx := p]\<rparr>"

definition FreePort :: "u8 \<Rightarrow> u32 \<Rightarrow> u16 \<Rightarrow> CTupleGeneratorSmart \<Rightarrow> CTupleGeneratorSmart option" where
  "FreePort pool_idx i port g = (case get_client_pool g pool_idx of
       None \<Rightarrow> None
     | Some pool \<Rightarrow> map_option (\<lambda>p. set_client_pool pool_idx p g) (pool_FreePort pool i port))"

section \<open>CTupleTemplateGeneratorSmart\<close>

record CTupleTemplateGeneratorSmart =
  t_client_gen :: u8
  t_server_gen :: u8
  t_w :: u16
  t_cnt :: u16
  t_server_ip :: u32
  t_cache_client_ip :: u32
  t_cache_client_idx :: u32
  t_cache_server_ip :: u32
  t_cache_server_idx :: u32
  t_is_single_server :: bool

definition SetW :: "u16 \<Rightarrow> CTupleTemplateGeneratorSmart \<Rightarrow> CTupleTemplateGeneratorSmart" where
  "SetW w m = m\<lparr>t_w := w, t_cnt := 0\<rparr>"

definition template_Create ::
  "CTupleGeneratorSmart \<Rightarrow> u8 \<Rightarrow> u8 \<Rightarrow> CTupleTemplateGeneratorSmart \<Rightarrow> CTupleTemplateGeneratorSmart option" where
  "template_Create gen c_pool s_pool m =
     (if get_client_pool gen c_pool = None \<or> get_server_pool gen s_pool = None then None
      else Some ((SetW 1 (m\<lparr>t_is_single_server := False, t_server_ip := 0\<rparr>))
             \<lparr>t_client_gen := c_pool, t_server_gen := s_pool\<rparr>))"

definition SetSingleServer ::
  "bool \<Rightarrow> u32 \<Rightarrow> u32 \<Rightarrow> u32 \<Rightarrow> CTupleTemplateGeneratorSmart \<Rightarrow> CTupleTemplateGeneratorSmart" where
  "SetSingleServer is_single server_ip dual_port_index dual_mask m =
     m\<lparr>t_is_single_server := is_single, t_server_ip := server_ip + dual_mask * dual_port_index\<rparr>"

text \<open>A fresh client and server, the branch both weights share, and the next port of a client.\<close>

definition template_new_pair ::
  "draws \<Rightarrow> CTupleTemplateGeneratorSmart \<Rightarrow> CTupleBase \<times> CTupleGeneratorSmart \<Rightarrow>
     (CTupleBase \<times> CTupleGeneratorSmart) option" where
  "template_new_pair rand_dis m = (\<lambda>(t, g).
     case (get_client_pool g (t_client_gen m), get_server_pool g (t_server_gen m)) of
       (Some cp, Some sp) \<Rightarrow> (case client_GenerateTuple rand_dis cp t of
           None \<Rightarrow> None
         | Some (t1, cp') \<Rightarrow> (case server_GenerateTuple rand_dis sp t1 of
             None \<Rightarrow> None
           | Some (t2, sp') \<Rightarrow>
               Some (t2, set_server_pool (t_server_gen m) sp' (set_client_pool (t_client_gen m) cp' g))))
     | _ \<Rightarrow> None)"

definition GenerateOneSourcePort ::
  "CTupleTemplateGeneratorSmart \<Rightarrow> CTupleGeneratorSmart \<Rightarrow> (u16 \<times> CTupleGeneratorSmart) option" where
  "GenerateOneSourcePort m g = (case get_client_pool g (t_client_gen m) of
       None \<Rightarrow> None
     | Some cp \<Rightarrow> map_option (\<lambda>(port, cp'). (port, set_client_pool (t_client_gen m) cp' g))
         (GenerateOnePort cp (t_cache_client_idx m)))"

definition template_GenerateTuple ::
  "draws \<Rightarrow> CTupleBase \<Rightarrow> CTupleGeneratorSmart \<Rightarrow> CTupleTemplateGeneratorSmart \<Rightarrow>
     (CTupleBase \<times> CTupleGeneratorSmart \<times> CTupleTemplateGeneratorSmart) option" where
  "template_GenerateTuple rand_dis t g m =
     map_option (\<lambda>(t', g', m').
         (if t_is_single_server m' then t'\<lparr>m_server_ip := t_server_ip m'\<rparr> else t', g', m'))
     (if t_w m = 1 then
        map_option (\<lambda>(t', g'). (t', g', m\<lparr>t_cache_client_ip := m_client_ip t',
            t_cache_client_idx := m_client_idx t'\<rparr>))
          (template_new_pair rand_dis m (t, g))
      else
        map_option (\<lambda>(t', g', m1).
            let m2 = m1\<lparr>t_cnt := t_cnt m1 + 1\<rparr>
            in (t', g', if t_cnt m2 \<ge> t_w m2 then m2\<lparr>t_cnt := 0\<rparr> else m2))
          (if t_cnt m = 0 then
             map_option (\<lambda>(t', g'). (t', g', m\<lparr>t_cache_client_ip := m_client_ip t',
                 t_cache_client_idx := m_client_idx t', t_cache_server_idx := m_server_idx t',
                 t_cache_server_ip := m_server_ip t'\<rparr>))
               (template_new_pair rand_dis m (t, g))
           else
             map_option (\<lambda>(port, g'). (setClientAll2 (t_cache_client_idx m) (t_cache_client_ip m) port
                 (setServerAll (t_cache_server_idx m) (t_cache_server_ip m) t), g', m))
               (GenerateOneSourcePort m g)))"

section \<open>Configuration of the pools\<close>

record CTupleGenPoolYaml =
  y_dist :: IP_DIST_t
  y_ip_start :: u32
  y_ip_end :: u32
  y_number_of_clients_per_gb :: u32
  y_min_clients :: u32
  y_dual_interface_mask :: u32
  y_tcp_aging_sec :: u16
  y_udp_aging_sec :: u16
  y_name :: string
  y_is_bundling :: bool

definition getTotalIps :: "CTupleGenPoolYaml \<Rightarrow> u32" where
  "getTotalIps y = y_ip_end y - y_ip_start y + 1"

definition pool_is_valid :: "CTupleGenPoolYaml \<Rightarrow> u32 \<Rightarrow> bool" where
  "pool_is_valid y num_threads =
     (if y_ip_start y > y_ip_end y then False
      else let ips = y_ip_end y - y_ip_start y + 1
           in if ips < num_threads then False
              else if ips > 1000000 then False
              else True)"

record CTupleGenYamlInfo =
  yi_client_pool :: "CTupleGenPoolYaml list"
  yi_server_pool :: "CTupleGenPoolYaml list"

definition yaml_is_valid :: "CTupleGenYamlInfo \<Rightarrow> u32 \<Rightarrow> bool" where
  "yaml_is_valid y num_threads \<longleftrightarrow>
     list_all (\<lambda>p. pool_is_valid p num_threads) (yi_client_pool y) \<and>
     list_all (\<lambda>p. pool_is_valid p num_threads) (yi_server_pool y)"

definition copy_global_pool_para :: "CTupleGenPoolYaml \<Rightarrow> CTupleGenPoolYaml \<Rightarrow> CTupleGenPoolYaml" where
  "copy_global_pool_para src dst =
     src\<lparr>y_number_of_clients_per_gb := (if y_number_of_clients_per_gb src = 0
           then y_number_of_clients_per_gb dst else y_number_of_clients_per_gb src),
         y_min_clients := (if y_min_clients src = 0 then y_min_clients dst else y_min_clients src),
         y_dual_interface_mask := (if y_dual_interface_mask src = 0
           then y_dual_interface_mask dst else y_dual_interface_mask src),
         y_tcp_aging_sec := (if y_tcp_aging_sec src = 0 then y_tcp_aging_sec dst else y_tcp_aging_sec src),
         y_udp_aging_sec := (if y_udp_aging_sec src = 0 then y_udp_aging_sec dst else y_udp_aging_sec src)\<rparr>"

record CIpPortion =
  po_ip_start :: u32
  po_ip_end :: u32

definition split_ips :: "u32 \<Rightarrow> u32 \<Rightarrow> u32 \<Rightarrow> CTupleGenPoolYaml \<Rightarrow> CIpPortion option" where
  "split_ips thread_id total_threads dual_port_id poolinfo =
     (if total_threads = 0 then None
      else
        let chunks = getTotalIps poolinfo div total_threads in
        if chunks = 0 then None
        else
          let dual_if_mask = dual_port_id * y_dual_interface_mask poolinfo;
              start = y_ip_start poolinfo + thread_id * chunks + dual_if_mask
          in Some \<lparr>po_ip_start = start, po_ip_end = start + chunks - 1\<rparr>)"

section \<open>Well-formed pools\<close>

text \<open>What the draws of the distribution guarantee: an index of the pool.\<close>

definition draws_ok :: "draws \<Rightarrow> bool" where
  "draws_ok rand_dis \<longleftrightarrow> (\<forall>n k. 0 < n \<longrightarrow> unat (rand_dis n k) < n)"

definition pool_ok :: "'z CIpPool_scheme \<Rightarrow> bool" where
  "pool_ok p \<longleftrightarrow> (\<forall>x\<in>set (m_ip_info p). \<exists>obj. x = Some obj \<and> v_ok obj) \<and>
     unat (m_cur_idx p) < length (m_ip_info p) \<and> length (m_ip_info p) < 2 ^ 32"

definition pool_ips :: "'z CIpPool_scheme \<Rightarrow> u32 option list" where
  "pool_ips p = map (map_option get_ip) (m_ip_info p)"

lemma pool_ok_info:
  assumes "pool_ok p" and "unat idx < length (m_ip_info p)"
  obtains obj where "get_ip_info_by_idx p idx = Some obj" and "v_ok obj"
  using assms unfolding pool_ok_def get_ip_info_by_idx_def by (metis nth_mem)

lemma set_ip_info_ok:
  assumes "pool_ok p" and "v_ok obj"
  shows "pool_ok (set_ip_info idx obj p)"
  using assms by (auto simp: pool_ok_def set_ip_info_def dest!: set_update_subset_insert [THEN subsetD])

lemma set_ip_info_ips:
  assumes "get_ip_info_by_idx p idx = Some obj" and "get_ip obj' = get_ip obj"
  shows "pool_ips (set_ip_info idx obj' p) = pool_ips p"
proof -
  have "m_ip_info p ! unat idx = Some obj" "unat idx < length (m_ip_info p)"
    using assms(1) by (auto simp: get_ip_info_by_idx_def split: if_splits)
  then have "map (map_option get_ip) (m_ip_info p) ! unat idx = Some (get_ip obj')"
    using assms(2) by simp
  then show ?thesis
    by (simp add: pool_ips_def set_ip_info_def map_update) (metis list_update_id)
qed

lemma count_alloc_simps [simp]:
  "m_ip_info (count_alloc port p) = m_ip_info p" "m_cur_idx (count_alloc port p) = m_cur_idx p"
  "m_dist (count_alloc port p) = m_dist p"
  "m_active_alloc (count_alloc port p) = m_active_alloc p + 1"
  "pool_ok (count_alloc port p) = pool_ok p" "pool_ips (count_alloc port p) = pool_ips p"
  by (simp_all add: count_alloc_def pool_ok_def pool_ips_def Let_def)

lemma set_ip_info_simps [simp]:
  "m_cur_idx (set_ip_info idx obj p) = m_cur_idx p" "m_dist (set_ip_info idx obj p) = m_dist p"
  "m_active_alloc (set_ip_info idx obj p) = m_active_alloc p"
  "length (m_ip_info (set_ip_info idx obj p)) = length (m_ip_info p)"
  by (simp_all add: set_ip_info_def)

text \<open>One more port of an address of the pool.\<close>

lemma GenerateOnePort_ok:
  assumes "pool_ok p" and "unat idx < length (m_ip_info p)"
  obtains port p' where "GenerateOnePort p idx = Some (port, p')" and "pool_ok p'"
    and "port = ILLEGAL_PORT \<or> MIN_PORT \<le> port \<and> port \<le> MAX_PORT"
    and "m_active_alloc p' = m_active_alloc p + 1" and "pool_ips p' = pool_ips p"
    and "m_cur_idx p' = m_cur_idx p" and "m_dist p' = m_dist p"
proof -
  obtain obj where obj: "get_ip_info_by_idx p idx = Some obj" "v_ok obj"
    using pool_ok_info [OF assms] .
  obtain port obj' where a: "v_get_new_free_port obj = (port, obj')" by force
  have ok: "v_ok obj'" using v.alloc_ok [OF obj(2) a] .
  show thesis
  proof (rule that)
    show "GenerateOnePort p idx = Some (port, count_alloc port (set_ip_info idx obj' p))"
      using obj a by (simp add: GenerateOnePort_def)
    show "port = ILLEGAL_PORT \<or> MIN_PORT \<le> port \<and> port \<le> MAX_PORT"
      using v.alloc_range [OF obj(2) a] .
    show "pool_ips (count_alloc port (set_ip_info idx obj' p)) = pool_ips p"
      using set_ip_info_ips [OF obj(1), of obj'] get_ip_alloc [of obj] a by simp
  qed (simp_all add: set_ip_info_ok [OF assms(1) ok])
qed

text \<open>Giving the port back restores the count and keeps the pool well formed.\<close>

lemma FreePort_after_alloc:
  assumes "pool_ok p" and "unat idx < length (m_ip_info p)"
    and "GenerateOnePort p idx = Some (port, p')" and "port \<noteq> ILLEGAL_PORT"
  shows "\<exists>p''. pool_FreePort p' idx port = Some p'' \<and> pool_ok p'' \<and>
    m_active_alloc p'' = m_active_alloc p \<and> pool_ips p'' = pool_ips p"
proof -
  obtain obj where obj: "get_ip_info_by_idx p idx = Some obj" "v_ok obj"
    using pool_ok_info [OF assms(1,2)] .
  obtain obj' where a: "v_get_new_free_port obj = (port, obj')"
    and p': "p' = count_alloc port (set_ip_info idx obj' p)"
    using assms(3) obj by (auto simp: GenerateOnePort_def split: prod.splits)
  have ok: "v_ok obj'" using v.alloc_ok [OF obj(2) a] .
  obtain obj'' where f: "v_return_port port obj' = Some obj''"
    using v.free_alloc [OF obj(2) a assms(4)] by blast
  have ok'': "v_ok obj''" using v.free_ok [OF ok f] .
  let ?p1 = "p'\<lparr>m_active_alloc := m_active_alloc p' - 1\<rparr>"
  have get: "get_ip_info_by_idx ?p1 idx = Some obj'"
    using assms(2) by (simp add: get_ip_info_by_idx_def p' set_ip_info_def)
  have "get_ip obj'' = get_ip obj'"
    using f by (cases obj') (auto simp: v_return_port_def get_ip_def)
  then have "pool_ips (set_ip_info idx obj'' ?p1) = pool_ips ?p1"
    by (rule set_ip_info_ips [OF get])
  also have "\<dots> = pool_ips p"
    using set_ip_info_ips [OF obj(1), of obj'] get_ip_alloc [of obj] a
    by (simp add: p') (simp add: pool_ips_def)
  finally have ips: "pool_ips (set_ip_info idx obj'' ?p1) = pool_ips p" .
  have "pool_ok ?p1" using set_ip_info_ok [OF assms(1) ok] by (simp add: p') (simp add: pool_ok_def)
  then show ?thesis
    using get f ips set_ip_info_ok [OF _ ok'', of ?p1]
    by (simp add: pool_FreePort_def Let_def) (simp add: p')
qed

text \<open>The next index.\<close>

lemma inc_cur_idx_ok:
  assumes "pool_ok p" and "draws_ok rand_dis"
  shows "pool_ok (inc_cur_idx rand_dis p)"
    and "m_ip_info (inc_cur_idx rand_dis p) = m_ip_info p"
    and "m_dist (inc_cur_idx rand_dis p) = m_dist p"
    and "m_active_alloc (inc_cur_idx rand_dis p) = m_active_alloc p"
    and "m_dist p \<noteq> cdRANDOM_DIST \<Longrightarrow> unat (m_cur_idx (inc_cur_idx rand_dis p)) =
      (unat (m_cur_idx p) + 1) mod length (m_ip_info p)"
proof -
  have lt: "unat (m_cur_idx p) < length (m_ip_info p)" "length (m_ip_info p) < 2 ^ 32"
    using assms(1) by (auto simp: pool_ok_def)
  have suc: "unat (m_cur_idx p + 1) = unat (m_cur_idx p) + 1"
    using lt by (intro unat_suc_word) simp
  show "m_ip_info (inc_cur_idx rand_dis p) = m_ip_info p"
    "m_dist (inc_cur_idx rand_dis p) = m_dist p"
    "m_active_alloc (inc_cur_idx rand_dis p) = m_active_alloc p"
    by (auto simp: inc_cur_idx_def get_random_idx_def Let_def split: IP_DIST_t.splits)
  show "unat (m_cur_idx (inc_cur_idx rand_dis p)) =
      (unat (m_cur_idx p) + 1) mod length (m_ip_info p)" if "m_dist p \<noteq> cdRANDOM_DIST"
    using that suc lt
    by (cases "unat (m_cur_idx p) + 1 = length (m_ip_info p)")
      (auto simp: inc_cur_idx_def Let_def split: IP_DIST_t.splits)
  have "0 < length (m_ip_info p)" using lt(1) by linarith
  then have "unat (rand_dis (length (m_ip_info p)) (m_draws p)) < length (m_ip_info p)"
    using assms(2) by (simp add: draws_ok_def)
  then show "pool_ok (inc_cur_idx rand_dis p)"
    using assms(1) lt suc
    by (auto simp: pool_ok_def inc_cur_idx_def get_random_idx_def Let_def split: IP_DIST_t.splits)
qed

section \<open>Tuples of a client pool\<close>

definition is_client :: "CIpInfoBase \<Rightarrow> bool" where
  "is_client obj = (case obj of ClientInfo _ _ _ \<Rightarrow> True | ClientInfoL _ _ _ \<Rightarrow> True | _ \<Rightarrow> False)"

definition client_pool_ok :: "'z CIpPool_scheme \<Rightarrow> bool" where
  "client_pool_ok p \<longleftrightarrow> pool_ok p \<and> (\<forall>obj. Some obj \<in> set (m_ip_info p) \<longrightarrow> is_client obj)"

text \<open>For a client object, filling the tuple is allocating a port.\<close>

lemma generate_tuple_client:
  assumes "is_client obj" and "v_get_new_free_port obj = (port, obj')"
  shows "generate_tuple obj t = (setClientTuple (get_ip obj) (get_mac obj) port t, obj') \<and> is_client obj'"
  using assms
  by (cases obj) (auto simp: generate_tuple_def v_get_new_free_port_def is_client_def get_ip_def
      get_mac_def map_prod_def split: prod.splits)

lemma setClientTuple_simps [simp]:
  "m_client_ip (setClientTuple ip m port t) = ip" "m_client_port (setClientTuple ip m port t) = port"
  "m_server_ip (setClientTuple ip m port t) = m_server_ip t"
  by (auto simp: setClientTuple_def setClientMac_def split: option.splits)

lemma client_GenerateTuple_ok:
  assumes "client_pool_ok p" and "draws_ok rand_dis"
  obtains t' p' where "client_GenerateTuple rand_dis p t = Some (t', p')" and "client_pool_ok p'"
    and "m_client_idx t' = m_cur_idx p" and "Some (m_client_ip t') = pool_ips p ! unat (m_cur_idx p)"
    and "m_client_port t' = ILLEGAL_PORT \<or> MIN_PORT \<le> m_client_port t' \<and> m_client_port t' \<le> MAX_PORT"
    and "pool_ips p' = pool_ips p" and "m_cur_idx p' = m_cur_idx (inc_cur_idx rand_dis p)"
    and "m_dist p' = m_dist p" and "m_active_alloc p' = m_active_alloc p + 1"
proof -
  let ?p1 = "inc_cur_idx rand_dis p" and ?idx = "m_cur_idx p"
  have ok: "pool_ok p" and lt: "unat ?idx < length (m_ip_info p)"
    using assms(1) by (auto simp: client_pool_ok_def pool_ok_def)
  note inc = inc_cur_idx_ok [OF ok assms(2)]
  obtain obj where obj: "get_ip_info_by_idx ?p1 ?idx = Some obj" "v_ok obj"
    by (rule pool_ok_info [OF inc(1), of ?idx]) (use lt inc(2) in auto)
  then have nth: "m_ip_info p ! unat ?idx = Some obj"
    using inc(2) lt by (simp add: get_ip_info_by_idx_def)
  then have client: "is_client obj"
    using assms(1) lt by (metis client_pool_ok_def nth_mem)
  obtain port obj' where a: "v_get_new_free_port obj = (port, obj')" by force
  have ok': "v_ok obj'" using v.alloc_ok [OF obj(2) a] .
  note g = generate_tuple_client [OF client a]
  let ?t = "(setClientTuple (get_ip obj) (get_mac obj) port t)\<lparr>m_client_idx := ?idx\<rparr>"
  let ?p' = "count_alloc port (set_ip_info ?idx obj' ?p1)"
  show thesis
  proof (rule that [of ?t ?p'])
    show "client_GenerateTuple rand_dis p t = Some (?t, ?p')"
      using obj g by (simp add: client_GenerateTuple_def generate_ip_def Let_def)
    have "is_client o2" if "Some o2 \<in> set (m_ip_info (set_ip_info ?idx obj' ?p1))" for o2
      using that g assms(1) inc(2) unfolding client_pool_ok_def set_ip_info_def
      by (auto dest!: set_update_subset_insert [THEN subsetD])
    then show "client_pool_ok ?p'"
      using set_ip_info_ok [OF inc(1) ok'] by (simp add: client_pool_ok_def)
    show "Some (m_client_ip ?t) = pool_ips p ! unat ?idx"
      using nth lt by (simp add: pool_ips_def)
    show "m_client_port ?t = ILLEGAL_PORT \<or> MIN_PORT \<le> m_client_port ?t \<and> m_client_port ?t \<le> MAX_PORT"
      using v.alloc_range [OF obj(2) a] by simp
    show "pool_ips ?p' = pool_ips p"
      using set_ip_info_ips [OF obj(1), of obj'] get_ip_alloc [of obj] a inc(2)
      by (simp add: pool_ips_def)
  qed (use inc in simp_all)
qed

text \<open>A run of tuples from one pool.\<close>

fun client_tuples :: "draws \<Rightarrow> nat \<Rightarrow> 'z CIpPool_scheme \<Rightarrow> CTupleBase \<Rightarrow>
    (CTupleBase list \<times> 'z CIpPool_scheme) option" where
  "client_tuples rand_dis 0 p t = Some ([], p)"
| "client_tuples rand_dis (Suc n) p t = (case client_GenerateTuple rand_dis p t of
       None \<Rightarrow> None
     | Some (t1, p1) \<Rightarrow> map_option (\<lambda>(ts, p2). (t1 # ts, p2)) (client_tuples rand_dis n p1 t1))"

lemma client_tuples_seq:
  assumes "client_pool_ok p" and "draws_ok rand_dis" and "m_dist p \<noteq> cdRANDOM_DIST"
  shows "\<exists>ts p'. client_tuples rand_dis n p t = Some (ts, p') \<and> client_pool_ok p' \<and> length ts = n \<and>
    m_active_alloc p' = m_active_alloc p + of_nat n \<and>
    (\<forall>k<n. unat (m_client_idx (ts ! k)) = (unat (m_cur_idx p) + k) mod length (pool_ips p) \<and>
      Some (m_client_ip (ts ! k)) = pool_ips p ! ((unat (m_cur_idx p) + k) mod length (pool_ips p)) \<and>
      (m_client_port (ts ! k) = ILLEGAL_PORT \<or>
        MIN_PORT \<le> m_client_port (ts ! k) \<and> m_client_port (ts ! k) \<le> MAX_PORT))"
  using assms
proof (induction n arbitrary: p t)
  case (Suc n)
  obtain t1 p1 where g: "client_GenerateTuple rand_dis p t = Some (t1, p1)" "client_pool_ok p1"
      "m_client_idx t1 = m_cur_idx p" "Some (m_client_ip t1) = pool_ips p ! unat (m_cur_idx p)"
      "m_client_port t1 = ILLEGAL_PORT \<or> MIN_PORT \<le> m_client_port t1 \<and> m_client_port t1 \<le> MAX_PORT"
      "pool_ips p1 = pool_ips p" "m_cur_idx p1 = m_cur_idx (inc_cur_idx rand_dis p)"
      "m_dist p1 = m_dist p" "m_active_alloc p1 = m_active_alloc p + 1"
    by (rule client_GenerateTuple_ok [OF Suc.prems(1,2)])
  have len: "length (pool_ips p) = length (m_ip_info p)" by (simp add: pool_ips_def)
  have ok: "pool_ok p" and lt: "unat (m_cur_idx p) < length (m_ip_info p)"
    using Suc.prems(1) by (auto simp: client_pool_ok_def pool_ok_def)
  have cur: "unat (m_cur_idx p1) = (unat (m_cur_idx p) + 1) mod length (pool_ips p)"
    using inc_cur_idx_ok(5) [OF ok Suc.prems(2,3)] g(7) len by simp
  obtain ts p2 where r: "client_tuples rand_dis n p1 t1 = Some (ts, p2)" "client_pool_ok p2"
      "length ts = n" "m_active_alloc p2 = m_active_alloc p1 + of_nat n"
      "\<forall>k<n. unat (m_client_idx (ts ! k)) = (unat (m_cur_idx p1) + k) mod length (pool_ips p1) \<and>
        Some (m_client_ip (ts ! k)) = pool_ips p1 ! ((unat (m_cur_idx p1) + k) mod length (pool_ips p1)) \<and>
        (m_client_port (ts ! k) = ILLEGAL_PORT \<or>
          MIN_PORT \<le> m_client_port (ts ! k) \<and> m_client_port (ts ! k) \<le> MAX_PORT)"
    using Suc.IH [OF g(2) Suc.prems(2)] g(8) Suc.prems(3) by metis
  have shift: "((unat (m_cur_idx p) + 1) mod length (pool_ips p) + k) mod length (pool_ips p) =
      (unat (m_cur_idx p) + Suc k) mod length (pool_ips p)" for k
    by (simp add: mod_simps)
  have "client_tuples rand_dis (Suc n) p t = Some (t1 # ts, p2)" using g(1) r(1) by simp
  moreover have "unat (m_client_idx ((t1 # ts) ! k)) = (unat (m_cur_idx p) + k) mod length (pool_ips p) \<and>
      Some (m_client_ip ((t1 # ts) ! k)) = pool_ips p ! ((unat (m_cur_idx p) + k) mod length (pool_ips p)) \<and>
      (m_client_port ((t1 # ts) ! k) = ILLEGAL_PORT \<or>
        MIN_PORT \<le> m_client_port ((t1 # ts) ! k) \<and> m_client_port ((t1 # ts) ! k) \<le> MAX_PORT)"
    if "k < Suc n" for k
  proof (cases k)
    case 0
    then show ?thesis using g lt len by simp
  next
    case (Suc j)
    then show ?thesis using r(5) that g(6) cur shift [of j] by simp
  qed
  ultimately show ?case using r(2-4) g(9) by simp
qed simp

section \<open>A fresh pool\<close>

lemma fill_ips_range:
  assumes "length v = n" and "k \<le> n"
  shows "fill_ips (\<lambda>i. Some (f i)) [k..<n] v = Some (take k v @ map (\<lambda>i. Some (f i)) [k..<n])"
  using assms
proof (induction "n - k" arbitrary: k v)
  case 0
  then show ?case by simp
next
  case (Suc d)
  then have lt: "k < n" by simp
  then have "fill_ips (\<lambda>i. Some (f i)) [k..<n] v = fill_ips (\<lambda>i. Some (f i)) [Suc k..<n] (v[k := Some (f k)])"
    using Suc.prems by (simp add: upt_conv_Cons)
  also have "\<dots> = Some (take (Suc k) (v[k := Some (f k)]) @ map (\<lambda>i. Some (f i)) [Suc k..<n])"
    using Suc lt by (intro Suc.hyps(1)) auto
  also have "take (Suc k) (v[k := Some (f k)]) = take k v @ [Some (f k)]"
    using lt Suc.prems by (simp add: take_Suc_conv_app_nth)
  finally show ?case using lt by (simp add: upt_conv_Cons)
qed

lemma total_ip_count:
  assumes "min_ip \<le> (max_ip :: u32)" and "unat max_ip - unat min_ip < 2 ^ 32 - 1"
  shows "unat (max_ip - min_ip + 1) = unat max_ip - unat min_ip + 1"
proof -
  have "unat (max_ip - min_ip) = unat max_ip - unat min_ip"
    using assms(1) by (simp add: unat_sub)
  then show ?thesis using assms(2) unat_suc_word [of "max_ip - min_ip"] by simp
qed

lemma client_object_simps [simp]:
  "get_ip (client_object large ip m) = ip" "is_client (client_object large ip m)"
  "v_ok (client_object large ip m)"
  by (simp_all add: client_object_def get_ip_def is_client_def v_ok_def CIpInfo_new_def
      CIpInfoL_new_def I_ok_def L_ok_def)

lemma CClientPool_Create_ok:
  assumes "min_ip \<le> max_ip" and "unat max_ip - unat min_ip < 2 ^ 32 - 1"
  obtains p' where "CClientPool_Create d min_ip max_ip l_flow t_cps mac_info False tcp udp p = Some p'"
    and "client_pool_ok p'" and "m_cur_idx p' = 0" and "m_active_alloc p' = 0"
    and "pool_ips p' = map (\<lambda>i. Some (min_ip + of_nat i)) [0..<unat max_ip - unat min_ip + 1]"
    and "m_dist p' = (if d = cdMAX_DIST then cdSEQ_DIST else d)"
proof -
  let ?n = "unat max_ip - unat min_ip + 1"
  let ?f = "\<lambda>i. client_object (is_large (max_ip - min_ip + 1) l_flow t_cps) (min_ip + of_nat i) None"
  let ?p = "CreateBase ((set_dist d p)\<lparr>m_ip_info := map (\<lambda>i. Some (?f i)) [0..<?n],
      m_tcp_aging := tcp, m_udp_aging := udp\<rparr>)"
  have n: "unat (max_ip - min_ip + 1) = ?n" by (rule total_ip_count [OF assms])
  then have nz: "max_ip - min_ip + 1 \<noteq> 0" by (metis Suc_eq_plus1 nat.distinct(1) unat_0)
  have "fill_ips (\<lambda>i. Some (?f i)) [0..<?n] (replicate ?n None) = Some (map (\<lambda>i. Some (?f i)) [0..<?n])"
    using fill_ips_range [of "replicate ?n None" ?n 0] by simp
  then have "CClientPool_Create d min_ip max_ip l_flow t_cps mac_info False tcp udp p = Some ?p"
    using assms(1) nz by (simp add: CClientPool_Create_def Let_def n option.case_eq_if not_less)
  moreover have "client_pool_ok ?p"
    using assms(2) by (auto simp: client_pool_ok_def pool_ok_def CreateBase_def)
  ultimately show thesis
    by (rule that) (simp_all add: CreateBase_def pool_ips_def set_dist_def del: upt_Suc)
qed

section \<open>Properties of the pools\<close>


definition demo_tuple :: CTupleBase where
  "demo_tuple = \<lparr>m_client_ip = 0, m_client_idx = 0, m_server_ip = 0, m_server_idx = 0,
     m_client_mac = \<lparr>mac = [], inused = False\<rparr>, m_client_port = 0, m_server_port = 0\<rparr>"


text \<open>
  Port accounting: an address that got a port can return it, after which the pool's count of
  active allocations is what it was before, its addresses are unchanged, and the pool is still
  well formed.
\<close>

lemma port_roundtrip:
  assumes "pool_ok p" and "unat idx < length (m_ip_info p)"
    and "GenerateOnePort p idx = Some (port, p')" and "port \<noteq> ILLEGAL_PORT"
  shows "m_active_alloc p' = m_active_alloc p + 1 \<and>
    (\<exists>p''. pool_FreePort p' idx port = Some p'' \<and> pool_ok p'' \<and>
      m_active_alloc p'' = m_active_alloc p \<and> pool_ips p'' = pool_ips p)"
  using FreePort_after_alloc [OF assms] GenerateOnePort_ok [OF assms(1,2)] assms(3) by (metis Pair_inject option.inject)

definition demo_pool :: CIpPool where
  "demo_pool = CIpPool_new\<lparr>m_ip_info := [Some (ClientInfoL 7 None CIpInfoL_new)]\<rparr>"

lemma demo_pool_alloc:
  "GenerateOnePort demo_pool 0 = Some (1024, demo_pool\<lparr>m_ip_info := [Some (ClientInfoL 7 None \<lparr>l_curr_port = 1025\<rparr>)],
     m_active_alloc := 1\<rparr>)"
  by (simp add: GenerateOnePort_def demo_pool_def get_ip_info_by_idx_def v_get_new_free_port_def
      L_get_new_free_port_def CIpInfoL_new_def port_consts count_alloc_def set_ip_info_def CIpPool_new_def)

section \<open>Splitting the addresses between threads\<close>

lemma pool_is_valid_bounds:
  assumes "pool_is_valid y threads" and "0 < threads"
  shows "y_ip_start y \<le> y_ip_end y" and "unat (getTotalIps y) = unat (y_ip_end y) - unat (y_ip_start y) + 1"
    and "threads \<le> getTotalIps y"
proof -
  show le: "y_ip_start y \<le> y_ip_end y" and ge: "threads \<le> getTotalIps y"
    using assms(1) by (auto simp: pool_is_valid_def getTotalIps_def Let_def split: if_splits)
  have nz: "y_ip_end y - y_ip_start y + 1 \<noteq> 0" using ge assms(2) by (auto simp: getTotalIps_def)
  have d: "unat (y_ip_end y - y_ip_start y) = unat (y_ip_end y) - unat (y_ip_start y)"
    using le by (simp add: unat_sub)
  have "unat (y_ip_end y - y_ip_start y) + 1 < 2 ^ 32"
  proof (rule ccontr)
    assume "\<not> ?thesis"
    then have "unat (y_ip_end y - y_ip_start y) = 2 ^ 32 - 1"
      using unsigned_less [of "y_ip_end y - y_ip_start y", where 'a = nat] by simp
    then have "unat (y_ip_end y - y_ip_start y + 1) = 0" by (simp add: unat_word_ariths)
    then show False using nz by (simp add: unat_eq_0)
  qed
  then show "unat (getTotalIps y) = unat (y_ip_end y) - unat (y_ip_start y) + 1"
    using unat_suc_word [of "y_ip_end y - y_ip_start y"] d by (simp add: getTotalIps_def)
qed

text \<open>The portion of a thread, as numbers.\<close>

lemma split_ips_portion:
  assumes valid: "pool_is_valid y threads" and tid: "tid < threads"
    and room: "unat (y_ip_end y) + unat (dual * y_dual_interface_mask y) < 2 ^ 32"
  shows "\<exists>po. split_ips tid threads dual y = Some po \<and>
    unat (po_ip_start po) = unat (y_ip_start y) + unat (dual * y_dual_interface_mask y) +
      unat tid * (unat (getTotalIps y) div unat threads) \<and>
    unat (po_ip_end po) + 1 = unat (po_ip_start po) + unat (getTotalIps y) div unat threads \<and>
    unat (po_ip_end po) \<le> unat (y_ip_end y) + unat (dual * y_dual_interface_mask y)"
proof -
  let ?c = "getTotalIps y div threads" and ?m = "dual * y_dual_interface_mask y"
  have pos: "0 < threads" using tid by (metis word_neq_0_conv not_less_zero word_not_simps(1))
  note b = pool_is_valid_bounds [OF valid pos]
  have c: "unat ?c = unat (getTotalIps y) div unat threads" by (simp add: unat_div_distrib)
  have t: "unat tid < unat threads" using tid by (simp add: word_less_nat_alt)
  have cpos: "0 < unat ?c"
    using b(3) pos by (simp add: c word_le_nat_alt div_greater_zero_iff unat_gt_0)
  have "(unat tid + 1) * unat ?c \<le> unat threads * unat ?c" using t by (intro mult_le_mono1) simp
  also have "\<dots> \<le> unat (getTotalIps y)" by (simp add: c)
  finally have le: "unat tid * unat ?c + unat ?c \<le> unat (y_ip_end y) - unat (y_ip_start y) + 1"
    by (simp add: b(2))
  have ends: "unat (y_ip_start y) \<le> unat (y_ip_end y)" using b(1) by (simp add: word_le_nat_alt)
  have sum: "unat (y_ip_start y) + unat tid * unat ?c + unat ?m + unat ?c \<le> unat (y_ip_end y) + unat ?m + 1"
    using le ends by linarith
  have prod: "unat (tid * ?c) = unat tid * unat ?c"
    using sum room cpos by (intro unat_mult_lem [THEN iffD1]) simp
  have s1: "unat (y_ip_start y + tid * ?c) = unat (y_ip_start y) + unat tid * unat ?c"
    using sum room cpos prod by (subst unat_add_lem [THEN iffD1]) simp_all
  have start: "unat (y_ip_start y + tid * ?c + ?m) = unat (y_ip_start y) + unat tid * unat ?c + unat ?m"
    using sum room cpos s1 by (subst unat_add_lem [THEN iffD1]) simp_all
  have c1: "unat (?c - 1) = unat ?c - 1"
    using cpos unat_sub [of 1 ?c] by (simp add: word_le_nat_alt)
  have "unat (y_ip_start y + tid * ?c + ?m + (?c - 1)) = unat (y_ip_start y + tid * ?c + ?m) + unat (?c - 1)"
    by (rule unat_add_lem [THEN iffD1], unfold start c1) (use sum room cpos in simp)
  then have fin: "unat (y_ip_start y + tid * ?c + ?m + ?c - 1) =
      unat (y_ip_start y) + unat tid * unat ?c + unat ?m + (unat ?c - 1)"
    unfolding add_diff_eq start c1 .
  have "split_ips tid threads dual y = Some \<lparr>po_ip_start = y_ip_start y + tid * ?c + ?m,
      po_ip_end = y_ip_start y + tid * ?c + ?m + ?c - 1\<rparr>"
    using pos cpos by (simp add: split_ips_def Let_def unat_gt_0)
  then show ?thesis
    using start fin cpos sum by (simp add: c)
qed

text \<open>
  A valid pool configuration can be split between its threads, and the threads of one port
  pair get disjoint ranges of equal size inside the configured range, shifted by the mask of the
  port pair, as long as that shift does not leave the 32 bit addresses.
\<close>

lemma split_ips_disjoint:
  assumes "pool_is_valid y threads" and "tid < threads" and "tid' < threads" and "tid \<noteq> tid'"
    and "unat (y_ip_end y) + unat (dual * y_dual_interface_mask y) < 2 ^ 32"
  shows "\<exists>po po'. split_ips tid threads dual y = Some po \<and> split_ips tid' threads dual y = Some po' \<and>
    {unat (po_ip_start po)..unat (po_ip_end po)} \<inter> {unat (po_ip_start po')..unat (po_ip_end po')} = {} \<and>
    {unat (po_ip_start po)..unat (po_ip_end po)} \<subseteq>
      {unat (y_ip_start y) + unat (dual * y_dual_interface_mask y)..
        unat (y_ip_end y) + unat (dual * y_dual_interface_mask y)} \<and>
    card {unat (po_ip_start po)..unat (po_ip_end po)} = unat (getTotalIps y) div unat threads"
proof -
  let ?c = "unat (getTotalIps y) div unat threads" and ?b = "unat (y_ip_start y) + unat (dual * y_dual_interface_mask y)"
  obtain po where po: "split_ips tid threads dual y = Some po"
      "unat (po_ip_start po) = ?b + unat tid * ?c" "unat (po_ip_end po) + 1 = unat (po_ip_start po) + ?c"
      "unat (po_ip_end po) \<le> unat (y_ip_end y) + unat (dual * y_dual_interface_mask y)"
    using split_ips_portion [OF assms(1,2,5)] by blast
  obtain po' where po': "split_ips tid' threads dual y = Some po'"
      "unat (po_ip_start po') = ?b + unat tid' * ?c" "unat (po_ip_end po') + 1 = unat (po_ip_start po') + ?c"
    using split_ips_portion [OF assms(1,3,5)] by blast
  have sep: "unat a * ?c + ?c \<le> unat b * ?c" if "a < b" for a b :: u32
  proof -
    have "unat a + 1 \<le> unat b" using that by (simp add: word_less_nat_alt)
    then have "(unat a + 1) * ?c \<le> unat b * ?c" by (rule mult_le_mono1)
    then show ?thesis by simp
  qed
  have "unat (po_ip_end po) < unat (po_ip_start po') \<or> unat (po_ip_end po') < unat (po_ip_start po)"
    using assms(4) sep [of tid tid'] sep [of tid' tid] po(2,3) po'(2,3)
    by (cases "tid < tid'") (auto simp: not_less order_le_less)
  then show ?thesis
    using po po' by (intro exI [of _ po] exI [of _ po']) auto
qed

section \<open>Clients of a template\<close>

fun template_tuples :: "draws \<Rightarrow> nat \<Rightarrow> CTupleBase \<Rightarrow> CTupleGeneratorSmart \<Rightarrow>
    CTupleTemplateGeneratorSmart \<Rightarrow>
    (CTupleBase list \<times> CTupleGeneratorSmart \<times> CTupleTemplateGeneratorSmart) option" where
  "template_tuples rand_dis 0 t g m = Some ([], g, m)"
| "template_tuples rand_dis (Suc n) t g m = (case template_GenerateTuple rand_dis t g m of
       None \<Rightarrow> None
     | Some (t1, g1, m1) \<Rightarrow>
         map_option (\<lambda>(ts, g2, m2). (t1 # ts, g2, m2)) (template_tuples rand_dis n t1 g1 m1))"

text \<open>
  The state after \<open>i\<close> tuples of a template with weight \<open>w\<close> that is the only user of a pool with
  addresses \<open>ips\<close>: the pool has served \<open>\<lceil>i / w\<rceil>\<close> clients, and inside a group the client is cached.
\<close>

definition template_inv ::
  "u32 option list \<Rightarrow> nat \<Rightarrow> CTupleGeneratorSmart \<Rightarrow> CTupleTemplateGeneratorSmart \<Rightarrow> bool" where
  "template_inv ips i g m \<longleftrightarrow> 0 < unat (t_w m) \<and>
     (\<exists>p. get_client_pool g (t_client_gen m) = Some p \<and> client_pool_ok p \<and> pool_ips p = ips \<and>
        m_dist p \<noteq> cdRANDOM_DIST \<and>
        unat (m_cur_idx p) = ((i + unat (t_w m) - 1) div unat (t_w m)) mod length ips) \<and>
     (\<exists>sp. get_server_pool g (t_server_gen m) = Some (ServerPoolSimple sp)) \<and>
     (t_w m \<noteq> 1 \<longrightarrow> unat (t_cnt m) = i mod unat (t_w m)) \<and>
     (i mod unat (t_w m) \<noteq> 0 \<longrightarrow>
        unat (t_cache_client_idx m) = (i div unat (t_w m)) mod length ips \<and>
        Some (t_cache_client_ip m) = ips ! ((i div unat (t_w m)) mod length ips))"

lemma ceil_div:
  assumes "0 < (w :: nat)"
  shows "(i + w - 1) div w = (if i mod w = 0 then i div w else i div w + 1)"
    and "(Suc i + w - 1) div w = i div w + 1"
proof -
  have quot: "(w * a + b) div w = a" if "b < w" for a b using that by simp
  have gen: "(w * q + r + w - 1) div w = (if r = 0 then q else q + 1)" if "r < w" for q r
  proof (cases "r = 0")
    case True
    then have "w * q + r + w - 1 = w * q + (w - 1)" using assms by simp
    then show ?thesis using True assms quot [of "w - 1" q] by (simp only:) simp
  next
    case False
    then have "w * q + r + w - 1 = w * (q + 1) + (r - 1)" using assms by (simp add: algebra_simps)
    then show ?thesis using False that quot [of "r - 1" "q + 1"] by (simp only:) simp
  qed
  from gen [of "i mod w" "i div w"]
  show "(i + w - 1) div w = (if i mod w = 0 then i div w else i div w + 1)" using assms by simp
  show "(Suc i + w - 1) div w = i div w + 1" using assms by (simp add: div_add_self2)
qed

lemma get_set_pool [simp]:
  "unat c < length (g_client_pool g) \<Longrightarrow> get_client_pool (set_client_pool c p g) c = Some p"
  "unat s < length (g_server_pool g) \<Longrightarrow> get_server_pool (set_server_pool s q g) s = Some q"
  "get_client_pool (set_server_pool s q g) c = get_client_pool g c"
  "get_server_pool (set_client_pool c p g) s = get_server_pool g s"
  "length (g_server_pool (set_client_pool c p g)) = length (g_server_pool g)"
  by (simp_all add: get_client_pool_def set_client_pool_def get_server_pool_def set_server_pool_def)

lemma pool_in_range:
  "get_client_pool g c = Some p \<Longrightarrow> unat c < length (g_client_pool g)"
  "get_server_pool g s = Some q \<Longrightarrow> unat s < length (g_server_pool g)"
  by (auto simp: get_client_pool_def get_server_pool_def split: if_splits)

lemma template_new_pair_ok:
  assumes c: "get_client_pool g (t_client_gen m) = Some p" "client_pool_ok p" and d: "draws_ok rand_dis"
    and s: "get_server_pool g (t_server_gen m) = Some (ServerPoolSimple sp)"
  obtains t' g' p' sp' where "template_new_pair rand_dis m (t, g) = Some (t', g')"
    and "get_client_pool g' (t_client_gen m) = Some p'" and "client_pool_ok p'"
    and "get_server_pool g' (t_server_gen m) = Some (ServerPoolSimple sp')"
    and "m_client_idx t' = m_cur_idx p" and "Some (m_client_ip t') = pool_ips p ! unat (m_cur_idx p)"
    and "pool_ips p' = pool_ips p" and "m_cur_idx p' = m_cur_idx (inc_cur_idx rand_dis p)"
    and "m_dist p' = m_dist p"
proof -
  obtain t1 p' where g: "client_GenerateTuple rand_dis p t = Some (t1, p')" "client_pool_ok p'"
      "m_client_idx t1 = m_cur_idx p" "Some (m_client_ip t1) = pool_ips p ! unat (m_cur_idx p)"
      "pool_ips p' = pool_ips p" "m_cur_idx p' = m_cur_idx (inc_cur_idx rand_dis p)" "m_dist p' = m_dist p"
    by (rule client_GenerateTuple_ok [OF c(2) d])
  obtain t2 sp' where sg: "simple_GenerateTuple sp t1 = (t2, sp')" by force
  have t2: "t2 = t1\<lparr>m_server_ip := m_cur_server_ip sp\<rparr>"
    using sg by (simp add: simple_GenerateTuple_def Let_def)
  show thesis
    by (rule that [of t2 "set_server_pool (t_server_gen m) (ServerPoolSimple sp')
          (set_client_pool (t_client_gen m) p' g)" p' sp'])
      (use c s g sg t2 pool_in_range(1) [OF c(1)] pool_in_range(2) [OF s] in
        \<open>simp_all add: template_new_pair_def server_GenerateTuple_def\<close>)
qed

lemma GenerateOnePort_client:
  assumes "client_pool_ok p" and "GenerateOnePort p idx = Some (port, p')" and "pool_ok p'"
  shows "client_pool_ok p'"
proof -
  obtain obj obj' where o: "get_ip_info_by_idx p idx = Some obj" "v_get_new_free_port obj = (port, obj')"
    and p': "p' = count_alloc port (set_ip_info idx obj' p)"
    using assms(2) by (auto simp: GenerateOnePort_def split: option.splits prod.splits)
  have "Some obj \<in> set (m_ip_info p)" using o(1) by (metis get_ip_info_by_idx_def nth_mem option.distinct(1))
  then have "is_client obj" using assms(1) by (simp add: client_pool_ok_def)
  then have "is_client obj'" using generate_tuple_client [OF _ o(2)] by blast
  then show ?thesis
    using assms(1,3) unfolding client_pool_ok_def p' set_ip_info_def
    by (auto dest!: set_update_subset_insert [THEN subsetD])
qed

lemma template_step:
  assumes inv: "template_inv ips i g m" and d: "draws_ok rand_dis"
  shows "\<exists>t' g' m'. template_GenerateTuple rand_dis t g m = Some (t', g', m') \<and>
    template_inv ips (Suc i) g' m' \<and> t_w m' = t_w m \<and>
    unat (m_client_idx t') = (i div unat (t_w m)) mod length ips \<and>
    Some (m_client_ip t') = ips ! ((i div unat (t_w m)) mod length ips)"
proof -
  let ?w = "unat (t_w m)" and ?N = "length ips"
  from inv obtain p sp where w: "0 < ?w"
    and p: "get_client_pool g (t_client_gen m) = Some p" "client_pool_ok p" "pool_ips p = ips"
      "m_dist p \<noteq> cdRANDOM_DIST" "unat (m_cur_idx p) = ((i + ?w - 1) div ?w) mod ?N"
    and sp: "get_server_pool g (t_server_gen m) = Some (ServerPoolSimple sp)"
    and cnt: "t_w m \<noteq> 1 \<Longrightarrow> unat (t_cnt m) = i mod ?w"
    and cache: "i mod ?w \<noteq> 0 \<Longrightarrow> unat (t_cache_client_idx m) = (i div ?w) mod ?N"
      "i mod ?w \<noteq> 0 \<Longrightarrow> Some (t_cache_client_ip m) = ips ! ((i div ?w) mod ?N)"
    by (auto simp: template_inv_def)
  have okp: "pool_ok p" using p(2) by (simp add: client_pool_ok_def)
  have N: "length (m_ip_info p) = ?N" using p(3) by (auto simp: pool_ips_def)
  have cntS: "unat (if t_cnt m + 1 \<ge> t_w m then 0 else t_cnt m + 1) = Suc i mod ?w" if "t_w m \<noteq> 1"
  proof -
    have lt: "unat (t_cnt m) < ?w" using cnt [OF that] w by simp
    then have "unat (t_cnt m) + 1 < 65536" using unat_u16_less [of "t_w m"] by linarith
    then have "unat (t_cnt m + 1) = unat (t_cnt m) + 1" by (intro unat_suc_word) simp
    then show ?thesis using lt cnt [OF that] by (auto simp: word_le_nat_alt mod_Suc)
  qed
  show ?thesis
  proof (cases "i mod ?w = 0")
    case new: True
    obtain t' g' p' sp' where n: "template_new_pair rand_dis m (t, g) = Some (t', g')"
      "get_client_pool g' (t_client_gen m) = Some p'" "client_pool_ok p'"
      "get_server_pool g' (t_server_gen m) = Some (ServerPoolSimple sp')"
      "m_client_idx t' = m_cur_idx p" "Some (m_client_ip t') = pool_ips p ! unat (m_cur_idx p)"
      "pool_ips p' = pool_ips p" "m_cur_idx p' = m_cur_idx (inc_cur_idx rand_dis p)" "m_dist p' = m_dist p"
      by (rule template_new_pair_ok [OF p(1,2) d sp])
    have cur: "unat (m_cur_idx p) = (i div ?w) mod ?N" using p(5) ceil_div(1) [OF w] new by simp
    have cur': "unat (m_cur_idx p') = ((Suc i + ?w - 1) div ?w) mod ?N"
      using inc_cur_idx_ok(5) [OF okp d p(4)] n(8) cur N ceil_div(2) [OF w, of i] by (simp add: mod_simps)
    have same: "Suc i div ?w = i div ?w" if "Suc i mod ?w \<noteq> 0"
      using that by (metis div_Suc)
    show ?thesis
    proof (cases "t_w m = 1")
      case True
      then show ?thesis
        using n p cur cur' w
        by (auto simp: template_GenerateTuple_def template_inv_def)
    next
      case False
      then have "t_cnt m = 0" using cnt new by (simp add: unat_eq_0)
      then show ?thesis
        using n p cur cur' w False cntS [OF False] same
        by (auto simp: template_GenerateTuple_def template_inv_def Let_def)
    qed
  next
    case old: False
    then have w1: "t_w m \<noteq> 1" by auto
    then have c0: "t_cnt m \<noteq> 0" using cnt old by (metis unat_0)
    have "unat (t_cache_client_idx m) < length (m_ip_info p)"
      using cache(1) [OF old] N okp by (simp add: pool_ok_def) (metis gr_zeroI mod_less_divisor not_less_zero)
    then obtain port p' where o: "GenerateOnePort p (t_cache_client_idx m) = Some (port, p')" "pool_ok p'"
      "pool_ips p' = pool_ips p" "m_cur_idx p' = m_cur_idx p" "m_dist p' = m_dist p"
      using GenerateOnePort_ok [OF okp] by metis
    have ok': "client_pool_ok p'" using GenerateOnePort_client [OF p(2) o(1)] o(2) by simp
    let ?g = "set_client_pool (t_client_gen m) p' g"
    have one: "GenerateOneSourcePort m g = Some (port, ?g)"
      using p(1) o(1) by (simp add: GenerateOneSourcePort_def)
    have cur': "unat (m_cur_idx p') = ((Suc i + ?w - 1) div ?w) mod ?N"
      using p(5) o(4) old ceil_div [OF w, of i] by simp
    have same: "Suc i div ?w = i div ?w" if "Suc i mod ?w \<noteq> 0" using that by (metis div_Suc)
    show ?thesis
      using one p sp o ok' cur' w w1 c0 cntS [OF w1] cache [OF old] same pool_in_range(1) [OF p(1)]
      by (auto simp: template_GenerateTuple_def template_inv_def Let_def setClientAll2_def setServerAll_def)
  qed
qed

text \<open>
  A template of weight \<open>w\<close> that is the only user of a sequential client pool stays with a
  client for \<open>w\<close> flows and then takes the next one: flow number \<open>k\<close> comes from client number
  \<open>(k div w) mod n\<close> of the pool's \<open>n\<close> addresses, and generation never fails.
\<close>

lemma template_clients:
  assumes pool: "get_client_pool g (t_client_gen m) = Some p" "client_pool_ok p" "m_cur_idx p = 0"
      "m_dist p \<noteq> cdRANDOM_DIST"
    and server: "get_server_pool g (t_server_gen m) = Some (ServerPoolSimple sp)"
    and fresh: "0 < t_w m" "t_cnt m = 0" and "draws_ok rand_dis"
  shows "\<exists>ts g' m'. template_tuples rand_dis n t g m = Some (ts, g', m') \<and> length ts = n \<and>
    (\<forall>k<n. let j = (k div unat (t_w m)) mod length (m_ip_info p) in
      unat (m_client_idx (ts ! k)) = j \<and>
      Some (m_client_ip (ts ! k)) = map_option get_ip (m_ip_info p ! j))"
proof -
  have w: "0 < unat (t_w m)" using fresh(1) by (simp add: unat_gt_0)
  have run: "\<exists>ts g' m'. template_tuples rand_dis n t g m = Some (ts, g', m') \<and> length ts = n \<and>
      (\<forall>k<n. unat (m_client_idx (ts ! k)) = ((i + k) div w) mod length ips \<and>
        Some (m_client_ip (ts ! k)) = ips ! (((i + k) div w) mod length ips))"
    if "template_inv ips i g m" and "w = unat (t_w m)" for ips i g m w
    using that
  proof (induction n arbitrary: i t g m)
    case (Suc n)
    obtain t1 g1 m1 where 1: "template_GenerateTuple rand_dis t g m = Some (t1, g1, m1)"
        "template_inv ips (Suc i) g1 m1" "t_w m1 = t_w m"
        "unat (m_client_idx t1) = (i div w) mod length ips"
        "Some (m_client_ip t1) = ips ! ((i div w) mod length ips)"
      using template_step [OF Suc.prems(1) assms(8)] Suc.prems(2) by metis
    obtain ts g2 m2 where 2: "template_tuples rand_dis n t1 g1 m1 = Some (ts, g2, m2)" "length ts = n"
        "\<forall>k<n. unat (m_client_idx (ts ! k)) = ((Suc i + k) div w) mod length ips \<and>
          Some (m_client_ip (ts ! k)) = ips ! (((Suc i + k) div w) mod length ips)"
      using Suc.IH [OF 1(2)] 1(3) Suc.prems(2) by metis
    have "unat (m_client_idx ((t1 # ts) ! k)) = ((i + k) div w) mod length ips \<and>
        Some (m_client_ip ((t1 # ts) ! k)) = ips ! (((i + k) div w) mod length ips)" if "k < Suc n" for k
      using that 1(4,5) 2(3) by (cases k) auto
    then show ?case using 1(1) 2(1,2) by (intro exI [of _ "t1 # ts"] exI [of _ g2] exI [of _ m2]) simp
  qed simp
  have "(unat (t_w m) - 1) div unat (t_w m) = 0" using w by simp
  then have "template_inv (pool_ips p) 0 g m"
    using pool server w fresh(2) by (auto simp: template_inv_def)
  moreover have "length (m_ip_info p) > 0" using pool(2) by (auto simp: client_pool_ok_def pool_ok_def)
  ultimately show ?thesis
    using run [of "pool_ips p" 0 g m] by (fastforce simp: pool_ips_def Let_def)
qed

definition demo_clients :: CClientPool where
  "demo_clients = CClientPool_new\<lparr>m_ip_info :=
     [Some (ClientInfo 10 None CIpInfo_new), Some (ClientInfoL 11 None CIpInfoL_new)]\<rparr>"

definition demo_generator :: CTupleGeneratorSmart where
  "demo_generator = \<lparr>g_id = 0, g_thread_id = 0, g_client_pool = [demo_clients],
     g_server_pool = [ServerPoolSimple (CServerPoolSimple_Create 100 103)],
     g_was_init = True, g_has_mac_mapping = False\<rparr>"

definition demo_template :: CTupleTemplateGeneratorSmart where
  "demo_template = \<lparr>t_client_gen = 0, t_server_gen = 0, t_w = 3, t_cnt = 0, t_server_ip = 0,
     t_cache_client_ip = 0, t_cache_client_idx = 0, t_cache_server_ip = 0, t_cache_server_idx = 0,
     t_is_single_server = False\<rparr>"

text \<open>
  With a hardware-address file the vector has one slot per address found in the file but is
  indexed by the offset of the address in the range: a file that lacks the first address makes
  the code write past the end of the vector.
\<close>

lemma mac_map_overruns_vector:
  "CClientPool_Create cdSEQ_DIST 1 2 0 0
     (Some (\<lambda>ip. if ip = 2 then Some \<lparr>mac = [0, 0, 0, 0, 0, 2], inused = True\<rparr> else None)) True 0 0
     CClientPool_new = None"
  by code_simp

end
