(* ===== verification/Trex_Stream.thy ===== *)
theory Trex_Stream
  imports Vm_Splitter Complex_Main "HOL-Library.AList"
begin

text \<open>
  Streams of the stateless mode (\<open>stateless/cp/trex_stream.h\<close>, \<open>trex_stream.cpp\<close>): the stream
  object with its setters, its copy for the data path, its rate figures, and the table of the
  streams of a port.

  Rates and times are rationals; the rounding of \<open>double\<close> is not modelled.  The JSON text a stream
  was created from and the receive-check flags are left out.  The table is an association list:
  \<open>std::unordered_map\<close> fixes no order of iteration, and no statement here depends on one.
\<close>

section \<open>Streams\<close>

datatype stream_type_t = stNONE | stCONTINUOUS | stSINGLE_BURST | stMULTI_BURST

record TrexStream =
  s_type :: stream_type_t
  s_port_id :: u8
  s_stream_id :: u32
  s_isg_usec :: rat
  s_next_stream_id :: int
  s_enabled :: bool
  s_self_start :: bool
  s_vm :: StreamVm
  s_vm_dp :: "StreamVmDp option"
  s_pkt :: mem
  s_pps :: rat
  s_burst_total_pkts :: u32
  s_num_bursts :: u32
  s_ibg_usec :: rat

definition TrexStream_new :: "stream_type_t \<Rightarrow> u8 \<Rightarrow> u32 \<Rightarrow> TrexStream" where
  "TrexStream_new type port_id stream_id =
     \<lparr>s_type = type, s_port_id = port_id, s_stream_id = stream_id, s_isg_usec = 0, s_next_stream_id = - 1,
      s_enabled = False, s_self_start = False, s_vm = StreamVm_new, s_vm_dp = None, s_pkt = [], s_pps = - 1,
      s_burst_total_pkts = 0, s_num_bursts = 1, s_ibg_usec = 0\<rparr>"

text \<open>The packet length is a \<open>uint16_t\<close>.\<close>

definition s_pkt_len :: "TrexStream \<Rightarrow> u16" where
  "s_pkt_len s = of_nat (length (s_pkt s))"

definition usec_to_sec :: "rat \<Rightarrow> rat" where
  "usec_to_sec usec = usec / 1000000"

definition is_dp_next_stream :: "TrexStream \<Rightarrow> bool" where
  "is_dp_next_stream s = (if s_next_stream_id s < 0 then False else True)"

definition set_multi_burst :: "u32 \<Rightarrow> u32 \<Rightarrow> rat \<Rightarrow> TrexStream \<Rightarrow> TrexStream" where
  "set_multi_burst burst_total_pkts num_bursts ibg_usec s =
     s\<lparr>s_burst_total_pkts := burst_total_pkts, s_num_bursts := num_bursts, s_ibg_usec := ibg_usec\<rparr>"

definition set_single_burst :: "u32 \<Rightarrow> TrexStream \<Rightarrow> TrexStream" where
  "set_single_burst burst_total_pkts s = set_multi_burst burst_total_pkts 1 0 s"

definition fix_dp_stream_id :: "u32 \<Rightarrow> int \<Rightarrow> TrexStream \<Rightarrow> TrexStream" where
  "fix_dp_stream_id my_stream_id next_stream_id s =
     s\<lparr>s_stream_id := my_stream_id, s_next_stream_id := next_stream_id\<rparr>"

text \<open>The copy has a fresh, empty VM: only the data-path object is copied.\<close>

definition stream_clone :: "TrexStream \<Rightarrow> TrexStream" where
  "stream_clone s =
     (TrexStream_new (s_type s) (s_port_id s) (s_stream_id s))
       \<lparr>s_vm_dp := s_vm_dp s, s_isg_usec := s_isg_usec s, s_next_stream_id := s_next_stream_id s,
        s_enabled := s_enabled s, s_self_start := s_self_start s, s_pkt := s_pkt s, s_pps := s_pps s,
        s_burst_total_pkts := s_burst_total_pkts s, s_num_bursts := s_num_bursts s, s_ibg_usec := s_ibg_usec s\<rparr>"

definition release_dp_object :: "TrexStream \<Rightarrow> TrexStream" where
  "release_dp_object s = s\<lparr>s_vm_dp := None\<rparr>"

definition get_burst_length_usec :: "TrexStream \<Rightarrow> rat" where
  "get_burst_length_usec s = of_nat (unat (s_burst_total_pkts s)) / s_pps s * 1000 * 1000"

definition get_bps :: "TrexStream \<Rightarrow> rat" where
  "get_bps s = s_pps s * of_nat ((unat (s_pkt_len s) + 4) * 8)"

lemma stream_clone_id:
  assumes "s_vm s = StreamVm_new"
  shows "stream_clone s = s"
  using assms by (simp add: stream_clone_def TrexStream_new_def)

lemma stream_clone_simps [simp]:
  "s_type (stream_clone s) = s_type s" "s_port_id (stream_clone s) = s_port_id s"
  "s_stream_id (stream_clone s) = s_stream_id s" "s_next_stream_id (stream_clone s) = s_next_stream_id s"
  "s_self_start (stream_clone s) = s_self_start s" "s_pps (stream_clone s) = s_pps s"
  "s_burst_total_pkts (stream_clone s) = s_burst_total_pkts s" "s_num_bursts (stream_clone s) = s_num_bursts s"
  "s_pkt (stream_clone s) = s_pkt s" "s_vm (stream_clone s) = StreamVm_new" "s_enabled (stream_clone s) = s_enabled s"
  "s_vm_dp (stream_clone s) = s_vm_dp s" "s_isg_usec (stream_clone s) = s_isg_usec s"
  "s_ibg_usec (stream_clone s) = s_ibg_usec s"
  by (simp_all add: stream_clone_def TrexStream_new_def)

section \<open>The stream table\<close>

type_synonym TrexStreamTable = "(u32 \<times> TrexStream) list"

definition get_stream_by_id :: "TrexStreamTable \<Rightarrow> u32 \<Rightarrow> TrexStream option" where
  "get_stream_by_id t stream_id = map_of t stream_id"

definition table_remove_stream :: "TrexStream \<Rightarrow> TrexStreamTable \<Rightarrow> TrexStreamTable" where
  "table_remove_stream s t = AList.delete (s_stream_id s) t"

definition table_add_stream :: "TrexStream \<Rightarrow> TrexStreamTable \<Rightarrow> TrexStreamTable" where
  "table_add_stream s t =
     (let t1 = (case get_stream_by_id t (s_stream_id s) of
                  None \<Rightarrow> t
                | Some old_stream \<Rightarrow> table_remove_stream old_stream t)
      in AList.update (s_stream_id s) s t1)"

definition remove_and_delete_all_streams :: "TrexStreamTable \<Rightarrow> TrexStreamTable" where
  "remove_and_delete_all_streams t = []"

definition get_id_list :: "TrexStreamTable \<Rightarrow> u32 list" where
  "get_id_list t = map fst t"

definition get_object_list :: "TrexStreamTable \<Rightarrow> TrexStream list" where
  "get_object_list t = map snd t"

definition table_size :: "TrexStreamTable \<Rightarrow> nat" where
  "table_size t = length t"

text \<open>The table files every stream once, under its own id.\<close>

definition table_ok :: "TrexStreamTable \<Rightarrow> bool" where
  "table_ok t \<longleftrightarrow> distinct (map fst t) \<and> (\<forall>(i, s)\<in>set t. s_stream_id s = i)"

lemma get_stream_id: "table_ok t \<Longrightarrow> get_stream_by_id t i = Some s \<Longrightarrow> s_stream_id s = i"
  by (auto simp: table_ok_def get_stream_by_id_def dest: map_of_SomeD)

lemma get_table_add_stream:
  assumes "table_ok t"
  shows "get_stream_by_id (table_add_stream s t) = (get_stream_by_id t)(s_stream_id s \<mapsto> s)"
proof -
  have "map_of (AList.delete i t) j = (if j = i then None else map_of t j)" for i j
    by (simp add: AList.delete_conv')
  moreover have "s_stream_id old = s_stream_id s" if "map_of t (s_stream_id s) = Some old" for old
    using get_stream_id [OF assms] that by (simp add: get_stream_by_id_def)
  ultimately show ?thesis
    by (auto simp: table_add_stream_def table_remove_stream_def get_stream_by_id_def update_conv' fun_eq_iff
        Let_def split: option.splits)
qed

lemma table_add_stream_ok:
  assumes "table_ok t"
  shows "table_ok (table_add_stream s t)"
proof -
  have "table_ok (AList.delete i t)" for i
    using assms distinct_delete [of t i] by (auto simp: table_ok_def AList.delete_eq)
  moreover have "table_ok (AList.update (s_stream_id s) s u)" if "table_ok u" for u
  proof -
    have "(i, x) \<in> set (AList.update k v u) \<Longrightarrow> (i, x) = (k, v) \<or> (i, x) \<in> set u" for i k :: u32 and x v :: TrexStream
      by (induction u) (auto split: if_splits)
    then show ?thesis using that distinct_update [of u "s_stream_id s" s] by (fastforce simp: table_ok_def)
  qed
  ultimately show ?thesis
    using assms by (auto simp: table_add_stream_def table_remove_stream_def Let_def split: option.splits)
qed

end
