(* ===== verification/Streams_Compiler.thy ===== *)
theory Streams_Compiler
  imports Trex_Stream
begin

text \<open>
  The stream compiler of the control plane (\<open>stateless/cp/trex_streams_compiler.cpp\<close>): the graph of
  streams that follow each other with its three passes, and the per-core streams handed to the
  data path.

  A pointer to a graph node is the stream id of the node, or the dead end that stands for "no next
  stream".  The objects whose \<open>m_marked\<close> flag is set are kept as a set.  \<open>err\<close> throws; the
  exception is a value of \<open>sc_err\<close>.
\<close>

section \<open>The graph\<close>

datatype sc_err =
    ErrContinuousNext u32
  | ErrDuplicate u32
  | ErrNoNext u32 int
  | ErrUnreachable "u32 list"
  | ErrSplit vm_err
  | ErrUndefined

datatype gptr = GDeadEnd | GNode u32

record GraphNode =
  g_stream :: TrexStream
  g_next :: "gptr option"
  g_parents :: "u32 list"
  g_compressed_stream_id :: int

record GraphNodeMap =
  m_nodes :: "(u32 \<times> GraphNode) list"
  m_roots :: "u32 list"
  m_dead_end_parents :: "u32 list"
  m_marked :: "gptr set"

definition GraphNodeMap_new :: GraphNodeMap where
  "GraphNodeMap_new = \<lparr>m_nodes = [], m_roots = [], m_dead_end_parents = [], m_marked = {}\<rparr>"

definition gm_get :: "GraphNodeMap \<Rightarrow> u32 \<Rightarrow> gptr option" where
  "gm_get m stream_id =
     (if stream_id = - 1 then Some GDeadEnd
      else case map_of (m_nodes m) stream_id of None \<Rightarrow> None | Some _ \<Rightarrow> Some (GNode stream_id))"

definition gm_has :: "GraphNodeMap \<Rightarrow> u32 \<Rightarrow> bool" where
  "gm_has m stream_id \<longleftrightarrow> gm_get m stream_id \<noteq> None"

definition gm_add :: "GraphNode \<Rightarrow> GraphNodeMap \<Rightarrow> GraphNodeMap option" where
  "gm_add node m =
     (let i = s_stream_id (g_stream node) in
      if gm_has m i then None
      else Some (m\<lparr>m_nodes := m_nodes m @ [(i, node)],
                   m_roots := (if s_self_start (g_stream node) then m_roots m @ [i] else m_roots m)\<rparr>))"

definition clear_marks :: "GraphNodeMap \<Rightarrow> GraphNodeMap" where
  "clear_marks m = m\<lparr>m_marked := m_marked m - GNode ` set (map fst (m_nodes m))\<rparr>"

definition get_unmarked :: "GraphNodeMap \<Rightarrow> u32 list" where
  "get_unmarked m = filter (\<lambda>i. GNode i \<notin> m_marked m) (map fst (m_nodes m))"

section \<open>The passes\<close>

definition check_stream :: "TrexStream \<Rightarrow> sc_err + unit" where
  "check_stream s =
     (if s_type s = stCONTINUOUS \<and> s_next_stream_id s \<noteq> - 1 then Inl (ErrContinuousNext (s_stream_id s)) else Inr ())"

definition allocate_step :: "GraphNodeMap \<times> nat \<Rightarrow> TrexStream \<Rightarrow> sc_err + (GraphNodeMap \<times> nat)" where
  "allocate_step st s = (case st of (m, compressed_stream_id) \<Rightarrow>
     if \<not> s_enabled s then Inr (m, compressed_stream_id)
     else bindE (check_stream s) (\<lambda>_.
       if gm_has m (s_stream_id s) then Inl (ErrDuplicate (s_stream_id s))
       else bindE (liftE ErrUndefined (gm_add \<lparr>g_stream = s, g_next = None, g_parents = [],
                     g_compressed_stream_id = int compressed_stream_id\<rparr> m))
              (\<lambda>m'. Inr (m', compressed_stream_id + 1))))"

definition allocate_pass :: "TrexStream list \<Rightarrow> GraphNodeMap \<Rightarrow> sc_err + GraphNodeMap" where
  "allocate_pass streams m = bindE (foldE allocate_step (m, 0) streams) (\<lambda>(m', _). Inr m')"

definition add_parent :: "u32 \<Rightarrow> gptr \<Rightarrow> GraphNodeMap \<Rightarrow> GraphNodeMap" where
  "add_parent i p m = (case p of
       GDeadEnd \<Rightarrow> m\<lparr>m_dead_end_parents := m_dead_end_parents m @ [i]\<rparr>
     | GNode j \<Rightarrow> m\<lparr>m_nodes := map (\<lambda>(k, g). (k, if k = j then g\<lparr>g_parents := g_parents g @ [i]\<rparr> else g)) (m_nodes m)\<rparr>)"

definition set_next :: "u32 \<Rightarrow> gptr \<Rightarrow> GraphNodeMap \<Rightarrow> GraphNodeMap" where
  "set_next i p m = m\<lparr>m_nodes := map (\<lambda>(k, g). (k, if k = i then g\<lparr>g_next := Some p\<rparr> else g)) (m_nodes m)\<rparr>"

definition direct_step :: "GraphNodeMap \<Rightarrow> u32 \<times> GraphNode \<Rightarrow> sc_err + GraphNodeMap" where
  "direct_step m p = (case p of (i, node) \<Rightarrow>
     let nx = s_next_stream_id (g_stream node) in
     (case gm_get m (word_of_int nx) of
        None \<Rightarrow> Inl (ErrNoNext i nx)
      | Some q \<Rightarrow> Inr (add_parent i q (set_next i q m))))"

definition multiple_parents :: "GraphNodeMap \<Rightarrow> (u32 \<times> u32 list) list" where
  "multiple_parents m = map (\<lambda>(i, g). (i, g_parents g)) (filter (\<lambda>(i, g). length (g_parents g) > 0) (m_nodes m))"

definition direct_pass :: "GraphNodeMap \<Rightarrow> sc_err + (GraphNodeMap \<times> (u32 \<times> u32 list) list)" where
  "direct_pass m = bindE (foldE direct_step m (m_nodes m)) (\<lambda>m'. Inr (m', multiple_parents m'))"

definition next_of :: "GraphNodeMap \<Rightarrow> gptr \<Rightarrow> gptr option" where
  "next_of m p = (case p of
       GDeadEnd \<Rightarrow> None
     | GNode i \<Rightarrow> (case map_of (m_nodes m) i of None \<Rightarrow> None | Some g \<Rightarrow> g_next g))"

text \<open>The search from the roots: the head of the list is the back of the vector.\<close>

function mark_loop :: "GraphNodeMap \<Rightarrow> gptr set \<Rightarrow> gptr list \<Rightarrow> gptr set" where
  "mark_loop m marked [] = marked"
| "mark_loop m marked (p # rest) =
     (if p \<in> marked then mark_loop m marked rest
      else mark_loop m (insert p marked) (case next_of m p of None \<Rightarrow> rest | Some q \<Rightarrow> q # rest))"
  by pat_completeness auto

lemma mark_loop_decreases:
  assumes "p \<notin> marked"
  shows "2 * card (GNode ` fst ` set (m_nodes m) - insert p marked) +
      length (case next_of m p of None \<Rightarrow> rest | Some q \<Rightarrow> q # rest) <
    Suc (2 * card (GNode ` fst ` set (m_nodes m) - marked) + length rest)"
proof (cases "p \<in> GNode ` fst ` set (m_nodes m)")
  case True
  let ?U = "GNode ` fst ` set (m_nodes m)"
  have "?U - insert p marked = (?U - marked) - {p}" by auto
  moreover have "0 < card (?U - marked)" using True assms by (auto simp: card_gt_0_iff)
  ultimately have "card (?U - insert p marked) + 1 = card (?U - marked)"
    using True assms by (simp add: card_Diff_singleton)
  then show ?thesis by (simp split: option.split)
next
  case False
  then have "next_of m p = None"
    by (cases p) (force simp: next_of_def dest: map_of_SomeD split: option.splits)+
  moreover have "GNode ` fst ` set (m_nodes m) - insert p marked = GNode ` fst ` set (m_nodes m) - marked"
    using False by auto
  ultimately show ?thesis by simp
qed

termination mark_loop
  by (relation "measure (\<lambda>(m, marked, stack).
      2 * card (GNode ` fst ` set (m_nodes m) - marked) + length stack)")
    (auto simp: mark_loop_decreases)

definition check_for_unreachable_streams :: "GraphNodeMap \<Rightarrow> sc_err + GraphNodeMap" where
  "check_for_unreachable_streams m =
     (let m1 = clear_marks m;
          m2 = m1\<lparr>m_marked := mark_loop m1 (m_marked m1) (rev (map GNode (m_roots m1)))\<rparr>
      in if get_unmarked m2 = [] then Inr m2 else Inl (ErrUnreachable (get_unmarked m2)))"

definition pre_compile_check ::
  "TrexStream list \<Rightarrow> sc_err + (GraphNodeMap \<times> (u32 \<times> u32 list) list)" where
  "pre_compile_check streams =
     bindE (allocate_pass streams GraphNodeMap_new) (\<lambda>m.
     bindE (direct_pass m) (\<lambda>(m', warnings).
     bindE (check_for_unreachable_streams m') (\<lambda>m''. Inr (m'', warnings))))"

section \<open>Compilation\<close>

record TrexStreamsCompiledObj =
  co_port_id :: u8
  co_all_continues :: bool
  co_objs :: "TrexStream list"

definition add_compiled_stream :: "TrexStream \<Rightarrow> TrexStreamsCompiledObj \<Rightarrow> TrexStreamsCompiledObj" where
  "add_compiled_stream s obj = obj\<lparr>co_objs := co_objs obj @ [s]\<rparr>"

definition compiled_clone :: "TrexStreamsCompiledObj \<Rightarrow> TrexStreamsCompiledObj" where
  "compiled_clone obj =
     foldl (\<lambda>o' s. add_compiled_stream (stream_clone s) o')
       \<lparr>co_port_id = co_port_id obj, co_all_continues = False, co_objs = []\<rparr> (co_objs obj)"

definition compressed_id :: "GraphNodeMap \<Rightarrow> u32 \<Rightarrow> int option" where
  "compressed_id m stream_id = (case gm_get m stream_id of
       None \<Rightarrow> None
     | Some GDeadEnd \<Rightarrow> Some (- 1)
     | Some (GNode i) \<Rightarrow> map_option g_compressed_stream_id (map_of (m_nodes m) i))"

definition core_stream :: "TrexStream \<Rightarrow> rat \<Rightarrow> u8 \<Rightarrow> int \<Rightarrow> int \<Rightarrow> nat \<Rightarrow> TrexStream" where
  "core_stream s factor dp_core_count new_id new_next_id i =
     (let per_core_rate = s_pps s * (factor / of_nat (unat dp_core_count));
          per_core_burst_total_pkts = s_burst_total_pkts s div ucast dp_core_count;
          burst_remainder = s_burst_total_pkts s - per_core_burst_total_pkts * ucast dp_core_count
      in (fix_dp_stream_id (word_of_int new_id) new_next_id (stream_clone s))
           \<lparr>s_pps := per_core_rate,
            s_burst_total_pkts := (if i = 0 then per_core_burst_total_pkts + burst_remainder
                                   else per_core_burst_total_pkts)\<rparr>)"

definition attach_vms :: "(nat \<Rightarrow> u32) \<Rightarrow> TrexStream \<Rightarrow> TrexStream list \<Rightarrow> sc_err + TrexStream list" where
  "attach_vms rand s cores =
     (if is_vm_empty (s_vm s) then Inr cores
      else case split_vm rand (s_pkt_len s) (s_vm s) (map s_vm cores) of
          Inl e \<Rightarrow> Inl (ErrSplit e)
        | Inr rs \<Rightarrow> Inr (map2 (\<lambda>c (vm, dp). c\<lparr>s_vm := vm, s_vm_dp := dp\<rparr>) cores rs))"

definition compile_stream ::
  "(nat \<Rightarrow> u32) \<Rightarrow> rat \<Rightarrow> u8 \<Rightarrow> GraphNodeMap \<Rightarrow> TrexStreamsCompiledObj list \<Rightarrow> TrexStream \<Rightarrow>
     sc_err + TrexStreamsCompiledObj list" where
  "compile_stream rand factor dp_core_count m objs s =
     bindE (liftE ErrUndefined (compressed_id m (s_stream_id s))) (\<lambda>new_id.
     bindE (assertE ErrUndefined (new_id \<ge> 0)) (\<lambda>_.
     bindE (if s_next_stream_id s \<ge> 0
            then liftE ErrUndefined (compressed_id m (word_of_int (s_next_stream_id s)))
            else Inr (- 1)) (\<lambda>new_next_id.
     bindE (assertE ErrUndefined (dp_core_count \<noteq> 0)) (\<lambda>_.
     bindE (attach_vms rand s (map (core_stream s factor dp_core_count new_id new_next_id) [0..<unat dp_core_count]))
       (\<lambda>core_streams. Inr (map2 add_compiled_stream core_streams objs))))))"

definition compile_internal ::
  "(nat \<Rightarrow> nat \<Rightarrow> u32) \<Rightarrow> u8 \<Rightarrow> TrexStream list \<Rightarrow> u8 \<Rightarrow> rat \<Rightarrow>
     sc_err + (TrexStreamsCompiledObj list \<times> (u32 \<times> u32 list) list)" where
  "compile_internal rand port_id streams dp_core_count factor =
     bindE (pre_compile_check streams) (\<lambda>(m, warnings).
     let all_continues = list_all (\<lambda>s. s_type s = stCONTINUOUS) streams;
         objs = replicate (unat dp_core_count)
                  \<lparr>co_port_id = port_id, co_all_continues = all_continues, co_objs = []\<rparr>
     in bindE (foldE (\<lambda>objs (k, s). if s_enabled s then compile_stream (rand k) factor dp_core_count m objs s
                                      else Inr objs)
                objs (List.enumerate 0 streams))
          (\<lambda>objs'. Inr (objs', warnings)))"

section \<open>What the passes compute\<close>

definition graph_node :: "nat \<times> TrexStream \<Rightarrow> u32 \<times> GraphNode" where
  "graph_node p = (s_stream_id (snd p),
     \<lparr>g_stream = snd p, g_next = None, g_parents = [], g_compressed_stream_id = int (fst p)\<rparr>)"

definition alloc_map :: "TrexStream list \<Rightarrow> GraphNodeMap" where
  "alloc_map en = \<lparr>m_nodes = map graph_node (List.enumerate 0 en),
     m_roots = map s_stream_id (filter s_self_start en), m_dead_end_parents = [], m_marked = {}\<rparr>"

definition alloc_good :: "TrexStream list \<Rightarrow> bool" where
  "alloc_good en \<longleftrightarrow> distinct (map s_stream_id en) \<and> - 1 \<notin> set (map s_stream_id en) \<and>
     (\<forall>s\<in>set en. s_type s = stCONTINUOUS \<longrightarrow> s_next_stream_id s = - 1)"

lemma enumerate_snoc: "List.enumerate n (xs @ [x]) = List.enumerate n xs @ [(n + length xs, x)]"
  by (simp add: enumerate_append_eq)

lemma alloc_map_keys: "map fst (m_nodes (alloc_map en)) = map s_stream_id en"
proof -
  have "map fst (map graph_node (List.enumerate n en)) = map s_stream_id en" for n
    by (induction en arbitrary: n) (auto simp: graph_node_def)
  then show ?thesis by (simp add: alloc_map_def)
qed

lemma gm_get_keys: "gm_get m i = (if i = - 1 then Some GDeadEnd else if i \<in> set (map fst (m_nodes m)) then Some (GNode i) else None)"
  by (auto simp: gm_get_def map_of_eq_None_iff split: option.splits)
    (metis domI dom_map_of_conv_image_fst)

lemma allocate_ok_iff:
  "foldE allocate_step (GraphNodeMap_new, 0) xs = Inr r \<longleftrightarrow>
     alloc_good (filter s_enabled xs) \<and> r = (alloc_map (filter s_enabled xs), length (filter s_enabled xs))"
proof (induction xs arbitrary: r rule: rev_induct)
  case Nil
  show ?case by (auto simp: GraphNodeMap_new_def alloc_map_def alloc_good_def)
next
  case (snoc s xs)
  let ?en = "filter s_enabled xs"
  have step: "allocate_step (alloc_map ?en, length ?en) s = Inr r \<longleftrightarrow>
      (if s_enabled s then (s_type s = stCONTINUOUS \<longrightarrow> s_next_stream_id s = - 1) \<and> s_stream_id s \<noteq> - 1 \<and>
         s_stream_id s \<notin> set (map s_stream_id ?en) \<and> r = (alloc_map (?en @ [s]), length ?en + 1)
       else r = (alloc_map ?en, length ?en))"
  proof -
    have has: "gm_has (alloc_map ?en) i \<longleftrightarrow> i = - 1 \<or> i \<in> set (map s_stream_id ?en)" for i
      unfolding gm_has_def gm_get_keys alloc_map_keys by simp
    have ext: "alloc_map (?en @ [s]) = (alloc_map ?en)\<lparr>m_nodes := m_nodes (alloc_map ?en) @
        [(s_stream_id s, \<lparr>g_stream = s, g_next = None, g_parents = [], g_compressed_stream_id = int (length ?en)\<rparr>)],
        m_roots := (if s_self_start s then m_roots (alloc_map ?en) @ [s_stream_id s] else m_roots (alloc_map ?en))\<rparr>"
      by (simp add: alloc_map_def enumerate_snoc graph_node_def)
    have eq: "allocate_step (alloc_map ?en, length ?en) s =
        (if \<not> s_enabled s then Inr (alloc_map ?en, length ?en)
         else if s_type s = stCONTINUOUS \<and> s_next_stream_id s \<noteq> - 1 then Inl (ErrContinuousNext (s_stream_id s))
         else if s_stream_id s = - 1 \<or> s_stream_id s \<in> set (map s_stream_id ?en) then Inl (ErrDuplicate (s_stream_id s))
         else Inr (alloc_map (?en @ [s]), length ?en + 1))"
      unfolding ext by (simp add: allocate_step_def check_stream_def gm_add_def liftE_def Let_def has)
    have iff: "(if \<not> E then Inr a else if C then Inl x else if D then Inl y else Inr b) = Inr r \<longleftrightarrow>
        (if E then \<not> C \<and> \<not> D \<and> r = b else r = a)" for E C D a b and x y :: sc_err by auto
    show ?thesis unfolding eq iff by (intro if_cong refl) blast
  qed
  show ?case
  proof (cases "foldE allocate_step (GraphNodeMap_new, 0) xs")
    case (Inl e)
    then have "\<not> alloc_good ?en" using snoc.IH by (metis Inl_Inr_False)
    then have "\<not> alloc_good (filter s_enabled (xs @ [s]))" by (auto simp: alloc_good_def)
    then show ?thesis using Inl by (simp add: foldE_append)
  next
    case (Inr t)
    then have t: "alloc_good ?en" "t = (alloc_map ?en, length ?en)" using snoc.IH by auto
    have good: "alloc_good (filter s_enabled (xs @ [s])) \<longleftrightarrow> (s_enabled s \<longrightarrow>
        (s_type s = stCONTINUOUS \<longrightarrow> s_next_stream_id s = - 1) \<and> s_stream_id s \<noteq> - 1 \<and> s_stream_id s \<notin> set (map s_stream_id ?en))"
      using t(1) by (auto simp: alloc_good_def)
    have fold: "foldE allocate_step (GraphNodeMap_new, 0) (xs @ [s]) = allocate_step (alloc_map ?en, length ?en) s"
      using Inr t(2) by (simp add: foldE_append)
    show ?thesis unfolding fold step good by (cases "s_enabled s") auto
  qed
qed

text \<open>Directing the graph changes the links and parents only.\<close>

definition same_nodes :: "GraphNodeMap \<Rightarrow> GraphNodeMap \<Rightarrow> bool" where
  "same_nodes m m' \<longleftrightarrow> map fst (m_nodes m') = map fst (m_nodes m) \<and> m_roots m' = m_roots m \<and> m_marked m' = m_marked m \<and>
     (\<forall>i. map_option g_stream (map_of (m_nodes m') i) = map_option g_stream (map_of (m_nodes m) i) \<and>
       map_option g_compressed_stream_id (map_of (m_nodes m') i) = map_option g_compressed_stream_id (map_of (m_nodes m) i))"

lemma same_nodes_refl: "same_nodes m m" by (simp add: same_nodes_def)

lemma same_nodes_trans: "same_nodes a b \<Longrightarrow> same_nodes b c \<Longrightarrow> same_nodes a c"
  by (simp add: same_nodes_def)

lemma map_of_update_values:
  "map_of (map (\<lambda>(k, g). (k, if k = j then f g else g)) xs) i =
     (if i = j then map_option f (map_of xs i) else map_of xs i)"
  by (induction xs) auto

lemma map_fst_update_values: "map fst (map (\<lambda>(k, g). (k, if k = j then f g else g)) xs) = map fst xs"
  by (induction xs) auto

lemma set_next_nodes:
  "same_nodes m (set_next i p m)"
  "map_option g_next (map_of (m_nodes (set_next i p m)) j) =
     (if j = i then map_option (\<lambda>_. Some p) (map_of (m_nodes m) j) else map_option g_next (map_of (m_nodes m) j))"
  by (auto simp: same_nodes_def set_next_def map_of_update_values map_fst_update_values option.map_comp comp_def
      simp del: map_map)

lemma add_parent_nodes:
  "same_nodes m (add_parent i p m)"
  "map_option g_next (map_of (m_nodes (add_parent i p m)) j) = map_option g_next (map_of (m_nodes m) j)"
  by (cases p; auto simp: same_nodes_def add_parent_def map_of_update_values map_fst_update_values option.map_comp comp_def
      simp del: map_map)+

lemma gm_get_same: "same_nodes m m' \<Longrightarrow> gm_get m' = gm_get m"
  by (simp add: fun_eq_iff gm_get_keys same_nodes_def)

abbreviation next_ptr :: "GraphNodeMap \<Rightarrow> GraphNode \<Rightarrow> gptr option" where
  "next_ptr m g \<equiv> gm_get m (word_of_int (s_next_stream_id (g_stream g)))"

lemma direct_fold:
  assumes "distinct (map fst ps)"
  shows "(\<exists>m'. foldE direct_step m ps = Inr m') \<longleftrightarrow> (\<forall>(i, g)\<in>set ps. next_ptr m g \<noteq> None)"
    and "foldE direct_step m ps = Inr m' \<Longrightarrow> same_nodes m m' \<and>
      (\<forall>j. map_option g_next (map_of (m_nodes m') j) = (case map_of ps j of
         None \<Rightarrow> map_option g_next (map_of (m_nodes m) j)
       | Some g \<Rightarrow> map_option (\<lambda>_. next_ptr m g) (map_of (m_nodes m) j)))"
  using assms
proof (induction ps arbitrary: m)
  case Nil
  {
    case 1
    show ?case by simp
  next
    case 2
    then show ?case by (simp add: same_nodes_refl)
  }
next
  case (Cons p ps)
  obtain i g where p: "p = (i, g)" by (cases p)
  {
    case 1
    show ?case
    proof (cases "next_ptr m g")
      case None
      then show ?thesis by (simp add: p direct_step_def Let_def)
    next
      case (Some q)
      let ?m = "add_parent i q (set_next i q m)"
      have "same_nodes m ?m" using same_nodes_trans [OF set_next_nodes(1) add_parent_nodes(1)] .
      then have get: "gm_get ?m = gm_get m" by (rule gm_get_same)
      have "direct_step m p = Inr ?m" using Some by (simp add: p direct_step_def)
      then show ?thesis using Cons.IH(1) [of ?m] 1 Some by (simp add: get p)
    qed
  next
    case 2
    then obtain q where q: "next_ptr m g = Some q"
      by (cases "next_ptr m g") (simp_all add: p direct_step_def Let_def)
    let ?m = "add_parent i q (set_next i q m)"
    have same: "same_nodes m ?m" using same_nodes_trans [OF set_next_nodes(1) add_parent_nodes(1)] .
    then have get: "gm_get ?m = gm_get m" by (rule gm_get_same)
    have "direct_step m p = Inr ?m" using q by (simp add: p direct_step_def)
    then have fold: "foldE direct_step ?m ps = Inr m'" using 2(1) by simp
    have d: "distinct (map fst ps)" "map_of ps i = None" using 2(2) by (auto simp: p map_of_eq_None_iff)
    from Cons.IH(2) [OF fold d(1), unfolded get] have IH: "same_nodes ?m m'"
      "\<And>j. map_option g_next (map_of (m_nodes m') j) = (case map_of ps j of
         None \<Rightarrow> map_option g_next (map_of (m_nodes ?m) j)
       | Some g \<Rightarrow> map_option (\<lambda>_. next_ptr m g) (map_of (m_nodes ?m) j))"
      by blast+
    have none: "map_option (\<lambda>_. x) (map_of (m_nodes ?m) j) = map_option (\<lambda>_. x) (map_of (m_nodes m) j)" for x :: "gptr option" and j
    proof -
      have "map_option g_stream (map_of (m_nodes ?m) j) = map_option g_stream (map_of (m_nodes m) j)"
        using same by (simp add: same_nodes_def)
      then show ?thesis by (cases "map_of (m_nodes ?m) j"; cases "map_of (m_nodes m) j") auto
    qed
    have "map_option g_next (map_of (m_nodes m') j) = (case map_of (p # ps) j of
         None \<Rightarrow> map_option g_next (map_of (m_nodes m) j)
       | Some g \<Rightarrow> map_option (\<lambda>_. next_ptr m g) (map_of (m_nodes m) j))" for j
    proof (cases "j = i")
      case True
      then show ?thesis using IH(2) [of j] d(2) q by (simp add: p add_parent_nodes(2) set_next_nodes(2))
    next
      case False
      then show ?thesis using IH(2) [of j]
        by (auto simp: p none add_parent_nodes(2) set_next_nodes(2) split: option.splits)
    qed
    then show ?case using same_nodes_trans [OF same IH(1)] by blast
  }
qed

text \<open>The marked nodes are those the roots lead to.\<close>

definition next_rel :: "GraphNodeMap \<Rightarrow> (gptr \<times> gptr) set" where
  "next_rel m = {(p, q). next_of m p = Some q}"

lemma mark_loop_sound:
  "p \<in> mark_loop m marked stack \<Longrightarrow> p \<in> marked \<or> (\<exists>r\<in>set stack. (r, p) \<in> (next_rel m)\<^sup>*)"
proof (induction m marked stack rule: mark_loop.induct)
  case (2 m marked r rest)
  show ?case
  proof (cases "r \<in> marked")
    case True
    then show ?thesis using 2 by auto
  next
    case False
    then have "p \<in> insert r marked \<or> (\<exists>x\<in>set (case next_of m r of None \<Rightarrow> rest | Some q \<Rightarrow> q # rest). (x, p) \<in> (next_rel m)\<^sup>*)"
      using 2 by simp
    moreover have "(r, p) \<in> (next_rel m)\<^sup>*" if "next_of m r = Some q" "(q, p) \<in> (next_rel m)\<^sup>*" for q
      using that by (intro converse_rtrancl_into_rtrancl [of r q]) (simp_all add: next_rel_def)
    ultimately show ?thesis by (cases "next_of m r") auto
  qed
qed simp

lemma mark_loop_closed:
  assumes "\<And>p q. p \<in> marked \<Longrightarrow> next_of m p = Some q \<Longrightarrow> q \<in> marked \<union> set stack"
  shows "marked \<union> set stack \<subseteq> mark_loop m marked stack \<and>
    (\<forall>p q. p \<in> mark_loop m marked stack \<longrightarrow> next_of m p = Some q \<longrightarrow> q \<in> mark_loop m marked stack)"
  using assms
proof (induction m marked stack rule: mark_loop.induct)
  case (2 m marked r rest)
  show ?case
  proof (cases "r \<in> marked")
    case True
    have "marked \<union> set rest \<subseteq> mark_loop m marked rest \<and>
        (\<forall>p q. p \<in> mark_loop m marked rest \<longrightarrow> next_of m p = Some q \<longrightarrow> q \<in> mark_loop m marked rest)"
      by (rule 2(1) [OF True]) (use 2(3) True in auto)
    then show ?thesis using True by auto
  next
    case False
    let ?stack = "case next_of m r of None \<Rightarrow> rest | Some q \<Rightarrow> q # rest"
    have "insert r marked \<union> set ?stack \<subseteq> mark_loop m (insert r marked) ?stack \<and>
        (\<forall>p q. p \<in> mark_loop m (insert r marked) ?stack \<longrightarrow> next_of m p = Some q \<longrightarrow> q \<in> mark_loop m (insert r marked) ?stack)"
    proof (rule 2(2) [OF False])
      fix p q assume "p \<in> insert r marked" "next_of m p = Some q"
      then show "q \<in> insert r marked \<union> set ?stack"
        using 2(3) [of p q] by (cases "p = r") (auto split: option.splits)
    qed
    moreover have "set rest \<subseteq> set ?stack" by (auto split: option.splits)
    ultimately show ?thesis using False by auto
  qed
qed simp

lemma mark_loop_reach: "mark_loop m {} stack = (next_rel m)\<^sup>* `` set stack"
proof
  show "mark_loop m {} stack \<subseteq> (next_rel m)\<^sup>* `` set stack" using mark_loop_sound [of _ m "{}" stack] by blast
  have closed: "set stack \<subseteq> mark_loop m {} stack"
    "\<And>p q. p \<in> mark_loop m {} stack \<Longrightarrow> next_of m p = Some q \<Longrightarrow> q \<in> mark_loop m {} stack"
    using mark_loop_closed [of "{}" m stack] by auto
  have "p \<in> mark_loop m {} stack" if "(r, p) \<in> (next_rel m)\<^sup>*" "r \<in> set stack" for r p
    using that by (induction rule: rtrancl_induct) (use closed in \<open>auto simp: next_rel_def\<close>)
  then show "(next_rel m)\<^sup>* `` set stack \<subseteq> mark_loop m {} stack" by auto
qed

text \<open>Streams a self-starting stream leads to.\<close>

inductive stream_reachable :: "TrexStream list \<Rightarrow> u32 \<Rightarrow> bool" for en where
  root: "s \<in> set en \<Longrightarrow> s_self_start s \<Longrightarrow> stream_reachable en (s_stream_id s)"
| follow: "stream_reachable en (s_stream_id s) \<Longrightarrow> s \<in> set en \<Longrightarrow> t \<in> set en \<Longrightarrow>
    s_stream_id t = word_of_int (s_next_stream_id s) \<Longrightarrow> stream_reachable en (s_stream_id t)"

definition links_ok :: "TrexStream list \<Rightarrow> bool" where
  "links_ok en \<longleftrightarrow> (\<forall>s\<in>set en. word_of_int (s_next_stream_id s) = (- 1 :: u32) \<or>
     word_of_int (s_next_stream_id s) \<in> set (map s_stream_id en))"

lemma alloc_map_node:
  assumes "alloc_good en" and "s \<in> set en"
  obtains k where "k < length en" and "en ! k = s"
    and "map_of (m_nodes (alloc_map en)) (s_stream_id s) = Some (snd (graph_node (k, s)))"
proof -
  obtain k where k: "k < length en" "en ! k = s" using assms(2) by (auto simp: in_set_conv_nth)
  have "distinct (map fst (m_nodes (alloc_map en)))" unfolding alloc_map_keys using assms(1) by (simp add: alloc_good_def)
  moreover have "(k, s) \<in> set (List.enumerate 0 en)" using k by (auto simp: in_set_enumerate_eq)
  then have "graph_node (k, s) \<in> set (m_nodes (alloc_map en))" by (simp add: alloc_map_def)
  then have "(s_stream_id s, snd (graph_node (k, s))) \<in> set (m_nodes (alloc_map en))"
    by (simp add: graph_node_def)
  ultimately have "map_of (m_nodes (alloc_map en)) (s_stream_id s) = Some (snd (graph_node (k, s)))"
    by (rule map_of_is_SomeI)
  with k that show thesis by blast
qed

lemma alloc_map_node_stream:
  assumes "map_of (m_nodes (alloc_map en)) i = Some g"
  shows "g_stream g \<in> set en" and "s_stream_id (g_stream g) = i"
  using map_of_SomeD [OF assms] by (auto simp: alloc_map_def graph_node_def in_set_enumerate_eq)

lemma direct_pass_iff:
  assumes good: "alloc_good en"
  shows "(\<exists>r. direct_pass (alloc_map en) = Inr r) \<longleftrightarrow> links_ok en"
proof -
  have d: "distinct (map fst (m_nodes (alloc_map en)))"
    unfolding alloc_map_keys using good by (simp add: alloc_good_def)
  have "(\<exists>r. direct_pass (alloc_map en) = Inr r) \<longleftrightarrow>
      (\<exists>m'. foldE direct_step (alloc_map en) (m_nodes (alloc_map en)) = Inr m')"
    by (auto simp: direct_pass_def bindE_simps)
  also have "\<dots> \<longleftrightarrow> (\<forall>(i, g)\<in>set (m_nodes (alloc_map en)). next_ptr (alloc_map en) g \<noteq> None)"
    by (rule direct_fold(1) [OF d])
  also have "\<dots> \<longleftrightarrow> links_ok en"
  proof -
    have all: "(\<forall>(i, g)\<in>set (m_nodes (alloc_map en)). P (g_stream g)) \<longleftrightarrow> (\<forall>s\<in>set en. P s)" for P
    proof -
      have "set en = snd ` set (List.enumerate 0 en)" by (metis map_snd_enumerate set_map)
      then show ?thesis by (simp add: alloc_map_def graph_node_def)
    qed
    show ?thesis
      using all [of "\<lambda>s. gm_get (alloc_map en) (word_of_int (s_next_stream_id s)) \<noteq> None"]
      unfolding links_ok_def gm_get_keys alloc_map_keys by auto
  qed
  finally show ?thesis .
qed

lemma next_ptr_alloc:
  assumes "links_ok en" and "s \<in> set en"
  shows "gm_get (alloc_map en) (word_of_int (s_next_stream_id s)) =
    Some (if word_of_int (s_next_stream_id s) = (- 1 :: u32) then GDeadEnd else GNode (word_of_int (s_next_stream_id s)))"
  using assms unfolding links_ok_def gm_get_keys alloc_map_keys by auto

lemma directed_next:
  assumes good: "alloc_good en" and links: "links_ok en" and dir: "direct_pass (alloc_map en) = Inr (m, w)"
  shows "same_nodes (alloc_map en) m"
    and "s \<in> set en \<Longrightarrow> next_of m (GNode (s_stream_id s)) =
      Some (if word_of_int (s_next_stream_id s) = (- 1 :: u32) then GDeadEnd else GNode (word_of_int (s_next_stream_id s)))"
    and "i \<notin> set (map s_stream_id en) \<Longrightarrow> next_of m (GNode i) = None"
proof -
  have d: "distinct (map fst (m_nodes (alloc_map en)))"
    unfolding alloc_map_keys using good by (simp add: alloc_good_def)
  have "foldE direct_step (alloc_map en) (m_nodes (alloc_map en)) = Inr m"
    using dir by (auto simp: direct_pass_def bindE_simps)
  note dfold = direct_fold(2) [OF d this]
  show same: "same_nodes (alloc_map en) m" using dfold by blast
  show "next_of m (GNode (s_stream_id s)) =
      Some (if word_of_int (s_next_stream_id s) = (- 1 :: u32) then GDeadEnd else GNode (word_of_int (s_next_stream_id s)))"
    if s: "s \<in> set en"
  proof -
    obtain k where k: "map_of (m_nodes (alloc_map en)) (s_stream_id s) = Some (snd (graph_node (k, s)))"
      using alloc_map_node [OF good s] by blast
    have "map_option g_next (map_of (m_nodes m) (s_stream_id s)) =
        Some (gm_get (alloc_map en) (word_of_int (s_next_stream_id s)))"
      using dfold k by (simp add: graph_node_def)
    then show ?thesis using next_ptr_alloc [OF links s] by (auto simp: next_of_def)
  qed
  show "next_of m (GNode i) = None" if "i \<notin> set (map s_stream_id en)"
  proof -
    have "i \<notin> set (map fst (m_nodes m))" using that same alloc_map_keys [of en] by (simp add: same_nodes_def)
    then have "map_of (m_nodes m) i = None" by (simp add: map_of_eq_None_iff)
    then show ?thesis by (simp add: next_of_def)
  qed
qed

lemma reach_iff:
  assumes good: "alloc_good en" and links: "links_ok en" and dir: "direct_pass (alloc_map en) = Inr (m, w)"
    and s: "s \<in> set en"
  shows "GNode (s_stream_id s) \<in> (next_rel m)\<^sup>* `` set (map GNode (m_roots m)) \<longleftrightarrow> stream_reachable en (s_stream_id s)"
proof -
  note nx = directed_next [OF good links dir]
  have roots: "m_roots m = map s_stream_id (filter s_self_start en)"
    using nx(1) by (simp add: same_nodes_def alloc_map_def)
  have "\<exists>i. p = GDeadEnd \<or> p = GNode i \<and> stream_reachable en i \<and> i \<in> set (map s_stream_id en)"
    if "(r, p) \<in> (next_rel m)\<^sup>*" "r \<in> set (map GNode (m_roots m))" for r p
    using that
  proof (induction rule: rtrancl_induct)
    case base
    then show ?case by (auto simp: roots intro: stream_reachable.root)
  next
    case (step p q)
    have pq: "next_of m p = Some q" using step.hyps(2) by (simp add: next_rel_def)
    then obtain s where s: "s \<in> set en" "p = GNode (s_stream_id s)" "stream_reachable en (s_stream_id s)"
      using step.IH step.prems by (auto simp: next_of_def)
    show ?case
    proof (cases "word_of_int (s_next_stream_id s) = (- 1 :: u32)")
      case True
      then show ?thesis using nx(2) [OF s(1)] pq s(2) by simp
    next
      case False
      then obtain t where "t \<in> set en" "s_stream_id t = word_of_int (s_next_stream_id s)"
        using links s(1) by (fastforce simp: links_ok_def)
      moreover have "q = GNode (word_of_int (s_next_stream_id s))" using nx(2) [OF s(1)] pq s(2) False by simp
      ultimately show ?thesis
        using stream_reachable.follow [OF s(3,1), of t] by (metis image_eqI set_map)
    qed
  qed
  moreover have "GNode i \<in> (next_rel m)\<^sup>* `` set (map GNode (m_roots m))" if "stream_reachable en i" for i
    using that
  proof (induction rule: stream_reachable.induct)
    case (root s)
    then show ?case by (auto simp: roots)
  next
    case (follow s t)
    have "s_stream_id t \<noteq> - 1" using good follow.hyps(3) unfolding alloc_good_def by (metis image_eqI set_map)
    then have "(GNode (s_stream_id s), GNode (s_stream_id t)) \<in> next_rel m"
      using nx(2) [OF follow.hyps(2)] follow.hyps(4) by (simp add: next_rel_def)
    then show ?case using follow.IH by (blast intro: rtrancl_into_rtrancl)
  qed
  ultimately show ?thesis by auto
qed

lemma pre_compile_check_ok:
  "(\<exists>r. pre_compile_check streams = Inr r) \<longleftrightarrow> alloc_good (filter s_enabled streams) \<and> links_ok (filter s_enabled streams) \<and>
     (\<forall>s\<in>set (filter s_enabled streams). stream_reachable (filter s_enabled streams) (s_stream_id s))"
proof -
  let ?en = "filter s_enabled streams"
  have alloc: "allocate_pass streams GraphNodeMap_new = Inr m \<longleftrightarrow> alloc_good ?en \<and> m = alloc_map ?en" for m
    by (auto simp: allocate_pass_def bindE_simps allocate_ok_iff split: prod.splits)
  show ?thesis
  proof (cases "alloc_good ?en \<and> links_ok ?en")
    case True
    then obtain m w where dir: "direct_pass (alloc_map ?en) = Inr (m, w)"
      using direct_pass_iff [of ?en] by fastforce
    have same: "same_nodes (alloc_map ?en) m" using directed_next(1) [OF _ _ dir] True by blast
    then have marks: "m_marked (clear_marks m) = {}" "m_nodes (clear_marks m) = m_nodes m" "m_roots (clear_marks m) = m_roots m"
      by (simp_all add: same_nodes_def clear_marks_def alloc_map_def)
    have rel: "next_rel (clear_marks m) = next_rel m"
      by (auto simp: next_rel_def next_of_def marks split: gptr.splits)
    have keys: "map fst (m_nodes m) = map s_stream_id ?en"
      using same alloc_map_keys [of ?en] by (simp add: same_nodes_def)
    have "(\<exists>m'. check_for_unreachable_streams m = Inr m') \<longleftrightarrow>
        (\<forall>i\<in>set (map fst (m_nodes m)). GNode i \<in> (next_rel m)\<^sup>* `` set (map GNode (m_roots m)))"
      by (simp add: check_for_unreachable_streams_def Let_def get_unmarked_def marks mark_loop_reach rel
          filter_empty_conv)
    also have "\<dots> \<longleftrightarrow> (\<forall>s\<in>set ?en. stream_reachable ?en (s_stream_id s))"
      unfolding keys using reach_iff [OF _ _ dir] True by auto
    finally show ?thesis
      using True alloc [of "alloc_map ?en"] dir by (auto simp: pre_compile_check_def bindE_simps)
  next
    case False
    then show ?thesis
      using direct_pass_iff [of ?en] alloc by (auto simp: pre_compile_check_def bindE_simps)
  qed
qed

lemma accepted_reachable:
  assumes "pre_compile_check streams = Inr r" and "s \<in> set (filter s_enabled streams)"
  shows "stream_reachable (filter s_enabled streams) (s_stream_id s)"
  using assms pre_compile_check_ok [of streams] by blast

text \<open>
  C8. The compiler accepts a list of streams exactly when, among the enabled ones, the ids are
  distinct and none is the reserved \<open>0xffffffff\<close>, continuous streams have no next stream, every next
  stream exists, and every stream can be reached from a self-starting one.
\<close>

theorem pre_compile_check_iff:
  "(\<exists>r. pre_compile_check streams = Inr r) \<longleftrightarrow>
     (let en = filter s_enabled streams in
      distinct (map s_stream_id en) \<and> - 1 \<notin> set (map s_stream_id en) \<and>
      (\<forall>s\<in>set en. (s_type s = stCONTINUOUS \<longrightarrow> s_next_stream_id s = - 1) \<and>
        (word_of_int (s_next_stream_id s) = (- 1 :: u32) \<or>
          word_of_int (s_next_stream_id s) \<in> set (map s_stream_id en)) \<and>
        stream_reachable en (s_stream_id s)))"
  unfolding pre_compile_check_ok by (auto simp: Let_def alloc_good_def links_ok_def)

theorem pre_compile_check_iff_witness:
  "\<exists>r. pre_compile_check
     [(TrexStream_new stSINGLE_BURST 0 5)\<lparr>s_enabled := True, s_self_start := True, s_next_stream_id := 9\<rparr>,
      (TrexStream_new stCONTINUOUS 0 9)\<lparr>s_enabled := True\<rparr>] = Inr r"
proof -
  let ?a = "(TrexStream_new stSINGLE_BURST 0 5)\<lparr>s_enabled := True, s_self_start := True, s_next_stream_id := 9\<rparr>"
  let ?b = "(TrexStream_new stCONTINUOUS 0 9)\<lparr>s_enabled := True\<rparr>"
  have a: "stream_reachable [?a, ?b] 5"
    using stream_reachable.root [of ?a "[?a, ?b]"] by (simp add: TrexStream_new_def)
  have "stream_reachable [?a, ?b] 9"
    using stream_reachable.follow [of "[?a, ?b]" ?a ?b] a by (simp add: TrexStream_new_def)
  with a show ?thesis
    by (subst pre_compile_check_iff) (simp add: TrexStream_new_def Let_def)
qed

section \<open>The compiled streams\<close>

lemma split_loop_length:
  "split_loop f rand l part a b k vms = Inr rs \<Longrightarrow> length rs = length vms"
  by (induction f rand l part a b k vms arbitrary: rs rule: split_loop.induct) (auto simp: bindE_simps)

lemma split_by_var_length:
  "split_by_flow_var rand l vm i cores = Inr (Some rs) \<Longrightarrow> length rs = length cores"
  "split_by_flow_client_var rand l vm j cores = Inr (Some rs) \<Longrightarrow> length rs = length cores"
  by (auto simp: split_by_flow_var_def split_by_flow_client_var_def split_range_def Let_def bindE_simps
      dest!: split_loop_length split: if_splits)

lemma split_internal_length:
  "split_internal rand l vm cores = Inr (Some rs) \<Longrightarrow> length rs = length cores"
  using split_by_var_length [of rand l vm _ cores rs]
  by (simp add: split_internal_def split: option.splits if_splits StreamVmInstruction.splits)

lemma split_vm_length:
  assumes "split_vm rand l vm cores = Inr rs"
  shows "length rs = length cores"
proof (cases "is_vm_empty vm")
  case True
  then show ?thesis using assms by (auto simp: split_vm_def)
next
  case False
  then obtain r where r: "split_internal rand l vm cores = Inr r"
    using assms by (auto simp: split_vm_def bindE_simps)
  show ?thesis
  proof (cases r)
    case None
    then show ?thesis using assms False r by (auto simp: split_vm_def bindE_simps)
  next
    case (Some rs')
    then show ?thesis using assms False r split_internal_length [of rand l vm cores rs'] by (simp add: split_vm_def)
  qed
qed

lemma attach_vms_cores:
  assumes "attach_vms rand s cores = Inr cores'"
  shows "length cores' = length cores \<and> (\<forall>c<length cores. \<exists>vm dp. cores' ! c = (cores ! c)\<lparr>s_vm := vm, s_vm_dp := dp\<rparr>)"
proof (cases "is_vm_empty (s_vm s)")
  case True
  have "\<exists>vm dp. x = x\<lparr>s_vm := vm, s_vm_dp := dp\<rparr>" for x :: TrexStream
    by (rule exI [of _ "s_vm x"], rule exI [of _ "s_vm_dp x"]) simp
  then show ?thesis using assms True by (simp add: attach_vms_def)
next
  case False
  then obtain rs where "split_vm rand (s_pkt_len s) (s_vm s) (map s_vm cores) = Inr rs"
    and c': "cores' = map2 (\<lambda>c (vm, dp). c\<lparr>s_vm := vm, s_vm_dp := dp\<rparr>) cores rs"
    using assms by (auto simp: attach_vms_def split: sum.splits)
  then have "length rs = length cores" using split_vm_length by fastforce
  then show ?thesis unfolding c' by (auto simp: case_prod_beta)
qed

lemma compile_stream_objs:
  assumes c: "compile_stream rand factor n m objs s = Inr objs'" and len: "length objs = unat n"
  shows "length objs' = unat n \<and> (\<exists>new_id new_next. compressed_id m (s_stream_id s) = Some new_id \<and>
    (if s_next_stream_id s \<ge> 0 then compressed_id m (word_of_int (s_next_stream_id s)) = Some new_next else new_next = - 1) \<and>
    (\<forall>c<unat n. co_port_id (objs' ! c) = co_port_id (objs ! c) \<and> co_all_continues (objs' ! c) = co_all_continues (objs ! c) \<and>
      (\<exists>vm dp. co_objs (objs' ! c) =
        co_objs (objs ! c) @ [(core_stream s factor n new_id new_next c)\<lparr>s_vm := vm, s_vm_dp := dp\<rparr>])))"
proof -
  obtain new_id new_next cores where ids: "compressed_id m (s_stream_id s) = Some new_id"
      "if s_next_stream_id s \<ge> 0 then compressed_id m (word_of_int (s_next_stream_id s)) = Some new_next else new_next = - 1"
    and cores: "attach_vms rand s (map (core_stream s factor n new_id new_next) [0..<unat n]) = Inr cores"
    and objs': "objs' = map2 add_compiled_stream cores objs"
    using c by (auto simp: compile_stream_def bindE_simps liftE_def split: if_splits option.splits)
  have "length cores = unat n" and vms: "\<And>c. c < unat n \<Longrightarrow>
      \<exists>vm dp. cores ! c = (core_stream s factor n new_id new_next c)\<lparr>s_vm := vm, s_vm_dp := dp\<rparr>"
    using attach_vms_cores [OF cores] by auto
  then show ?thesis
    using ids vms len unfolding objs' by (fastforce simp: add_compiled_stream_def)
qed

definition compiled_as :: "GraphNodeMap \<Rightarrow> rat \<Rightarrow> u8 \<Rightarrow> nat \<Rightarrow> TrexStream \<Rightarrow> TrexStream \<Rightarrow> bool" where
  "compiled_as m factor n c s' s \<longleftrightarrow> (\<exists>new_id new_next vm dp. compressed_id m (s_stream_id s) = Some new_id \<and>
     (if s_next_stream_id s \<ge> 0 then compressed_id m (word_of_int (s_next_stream_id s)) = Some new_next else new_next = - 1) \<and>
     s' = (core_stream s factor n new_id new_next c)\<lparr>s_vm := vm, s_vm_dp := dp\<rparr>)"

lemma compile_fold:
  assumes "foldE (\<lambda>objs (k, s). if s_enabled s then compile_stream (rand k) factor n m objs s else Inr objs)
      (replicate (unat n) \<lparr>co_port_id = port, co_all_continues = b, co_objs = []\<rparr>) (List.enumerate 0 streams) = Inr objs"
  shows "length objs = unat n \<and> (\<forall>c<unat n. co_port_id (objs ! c) = port \<and> co_all_continues (objs ! c) = b \<and>
    list_all2 (compiled_as m factor n c) (co_objs (objs ! c)) (filter s_enabled streams))"
proof -
  let ?P = "\<lambda>(don :: (nat \<times> TrexStream) list) objs. length objs = unat n \<and> (\<forall>c<unat n. co_port_id (objs ! c) = port \<and> co_all_continues (objs ! c) = b \<and>
    list_all2 (compiled_as m factor n c) (co_objs (objs ! c)) (filter s_enabled (map snd don)))"
  have "?P (List.enumerate 0 streams) objs"
  proof (rule foldE_prefix_in [OF assms])
    show "?P [] (replicate (unat n) \<lparr>co_port_id = port, co_all_continues = b, co_objs = []\<rparr>)" by simp
    fix don x objs objs'
    assume P: "?P don objs"
      and step: "(case x of (k, s) \<Rightarrow> if s_enabled s then compile_stream (rand k) factor n m objs s else Inr objs) = Inr objs'"
    show "?P (don @ [x]) objs'"
    proof (cases "s_enabled (snd x)")
      case False
      then show ?thesis using P step by (simp add: case_prod_beta)
    next
      case True
      then have "compile_stream (rand (fst x)) factor n m objs (snd x) = Inr objs'"
        using step by (simp add: case_prod_beta)
      from compile_stream_objs [OF this] P obtain new_id new_next where
        "length objs' = unat n" "compressed_id m (s_stream_id (snd x)) = Some new_id"
        "if s_next_stream_id (snd x) \<ge> 0 then compressed_id m (word_of_int (s_next_stream_id (snd x))) = Some new_next
         else new_next = - 1"
        and objs': "\<And>c. c < unat n \<Longrightarrow> co_port_id (objs' ! c) = co_port_id (objs ! c) \<and>
          co_all_continues (objs' ! c) = co_all_continues (objs ! c) \<and>
          (\<exists>vm dp. co_objs (objs' ! c) = co_objs (objs ! c) @
            [(core_stream (snd x) factor n new_id new_next c)\<lparr>s_vm := vm, s_vm_dp := dp\<rparr>])"
        by blast
      then have "compiled_as m factor n c ((core_stream (snd x) factor n new_id new_next c)\<lparr>s_vm := vm, s_vm_dp := dp\<rparr>) (snd x)" for c vm dp
        unfolding compiled_as_def by blast
      note one = this
      have "list_all2 (compiled_as m factor n c) (co_objs (objs' ! c)) (filter s_enabled (map snd (don @ [x])))" if c: "c < unat n" for c
      proof -
        obtain vm dp where o: "co_objs (objs' ! c) = co_objs (objs ! c) @
            [(core_stream (snd x) factor n new_id new_next c)\<lparr>s_vm := vm, s_vm_dp := dp\<rparr>]"
          using objs' [OF c] by blast
        have "list_all2 (compiled_as m factor n c) (co_objs (objs ! c)) (filter s_enabled (map snd don))"
          using P c by blast
        then show ?thesis unfolding o using one True by (simp add: list_all2_appendI)
      qed
      then show ?thesis using P objs' \<open>length objs' = unat n\<close> by auto
    qed
  qed
  then show ?thesis by simp
qed

lemma checked_map:
  assumes "pre_compile_check streams = Inr (m, w)"
  shows "alloc_good (filter s_enabled streams)" and "links_ok (filter s_enabled streams)"
    and "same_nodes (alloc_map (filter s_enabled streams)) (m\<lparr>m_marked := {}\<rparr>)"
proof -
  let ?en = "filter s_enabled streams"
  obtain m1 m2 where m1: "allocate_pass streams GraphNodeMap_new = Inr m1"
    and m2: "direct_pass m1 = Inr (m2, w)" and m: "check_for_unreachable_streams m2 = Inr m"
    using assms by (auto simp: pre_compile_check_def bindE_simps)
  then show good: "alloc_good ?en" by (auto simp: allocate_pass_def bindE_simps allocate_ok_iff)
  have eq: "m1 = alloc_map ?en" using m1 by (auto simp: allocate_pass_def bindE_simps allocate_ok_iff)
  then show links: "links_ok ?en" using direct_pass_iff [OF good] m2 by auto
  have "same_nodes (alloc_map ?en) m2" using directed_next(1) [OF good links] m2 eq by simp
  moreover have "m\<lparr>m_marked := {}\<rparr> = m2\<lparr>m_marked := {}\<rparr>"
    using m by (auto simp: check_for_unreachable_streams_def clear_marks_def Let_def split: if_splits)
  ultimately show "same_nodes (alloc_map ?en) (m\<lparr>m_marked := {}\<rparr>)"
    by (simp add: same_nodes_def alloc_map_def)
qed

lemma compressed_id_of:
  assumes "pre_compile_check streams = Inr (m, w)" and "k < length (filter s_enabled streams)"
  shows "compressed_id m (s_stream_id (filter s_enabled streams ! k)) = Some (int k)"
proof -
  let ?en = "filter s_enabled streams"
  note cm = checked_map [OF assms(1)]
  have mem: "?en ! k \<in> set ?en" using assms(2) by (rule nth_mem)
  obtain j where j: "j < length ?en" "?en ! j = ?en ! k"
    "map_of (m_nodes (alloc_map ?en)) (s_stream_id (?en ! k)) = Some (snd (graph_node (j, ?en ! k)))"
    by (rule alloc_map_node [OF cm(1) mem])
  have "distinct ?en" using cm(1) by (simp add: alloc_good_def distinct_map)
  then have "j = k" using j(1,2) assms(2) by (simp add: nth_eq_iff_index_eq)
  then have "map_option g_compressed_stream_id (map_of (m_nodes m) (s_stream_id (?en ! k))) = Some (int k)"
    using cm(3) j(3) by (simp add: same_nodes_def graph_node_def)
  moreover have "s_stream_id (?en ! k) \<noteq> - 1"
    using cm(1) mem unfolding alloc_good_def by (metis image_eqI set_map)
  ultimately show ?thesis by (auto simp: compressed_id_def gm_get_def)
qed

lemma compile_internal_cores:
  assumes "compile_internal rand port streams n factor = Inr (objs, w)"
  obtains m where "pre_compile_check streams = Inr (m, w)" and "length objs = unat n"
    and "\<And>c. c < unat n \<Longrightarrow> co_port_id (objs ! c) = port \<and>
      co_all_continues (objs ! c) = list_all (\<lambda>s. s_type s = stCONTINUOUS) streams \<and>
      list_all2 (compiled_as m factor n c) (co_objs (objs ! c)) (filter s_enabled streams)"
proof -
  obtain m where m: "pre_compile_check streams = Inr (m, w)" and
    fold: "foldE (\<lambda>objs (k, s). if s_enabled s then compile_stream (rand k) factor n m objs s else Inr objs)
      (replicate (unat n) \<lparr>co_port_id = port, co_all_continues = list_all (\<lambda>s. s_type s = stCONTINUOUS) streams, co_objs = []\<rparr>)
      (List.enumerate 0 streams) = Inr objs"
    using assms by (auto simp: compile_internal_def bindE_simps Let_def)
  show thesis using that [OF m] compile_fold [OF fold] by blast
qed

lemma compiled_stream_at:
  assumes comp: "compile_internal rand port streams n factor = Inr (objs, w)"
    and nx: "\<forall>s\<in>set (filter s_enabled streams). s_next_stream_id s < 2 ^ 31"
    and c: "c < unat n" and k: "k < length (filter s_enabled streams)"
  obtains new_next vm dp where
    "co_objs (objs ! c) ! k =
       (core_stream (filter s_enabled streams ! k) factor n (int k) new_next c)\<lparr>s_vm := vm, s_vm_dp := dp\<rparr>"
    and "if s_next_stream_id (filter s_enabled streams ! k) < 0 then new_next = - 1
      else \<exists>t<length (filter s_enabled streams). new_next = int t \<and>
        uint (s_stream_id (filter s_enabled streams ! t)) = s_next_stream_id (filter s_enabled streams ! k)"
proof -
  let ?en = "filter s_enabled streams"
  obtain m where m: "pre_compile_check streams = Inr (m, w)"
    and l2: "list_all2 (compiled_as m factor n c) (co_objs (objs ! c)) ?en"
    using compile_internal_cores [OF comp] c by metis
  have "compiled_as m factor n c (co_objs (objs ! c) ! k) (?en ! k)"
    using list_all2_nthD2 [OF l2 k] .
  then obtain new_next vm dp where d: "co_objs (objs ! c) ! k =
      (core_stream (?en ! k) factor n (int k) new_next c)\<lparr>s_vm := vm, s_vm_dp := dp\<rparr>"
    and nn: "if s_next_stream_id (?en ! k) \<ge> 0
      then compressed_id m (word_of_int (s_next_stream_id (?en ! k))) = Some new_next else new_next = - 1"
    using compressed_id_of [OF m k] unfolding compiled_as_def by auto
  have mem: "?en ! k \<in> set ?en" using k by (rule nth_mem)
  have "\<exists>t<length ?en. new_next = int t \<and> uint (s_stream_id (?en ! t)) = s_next_stream_id (?en ! k)"
    if ge: "0 \<le> s_next_stream_id (?en ! k)"
  proof -
    have uint: "uint (word_of_int (s_next_stream_id (?en ! k)) :: u32) = s_next_stream_id (?en ! k)"
      using ge nx mem by (fastforce simp: unsigned_of_int take_bit_int_eq_self_iff)
    moreover have "uint (- 1 :: u32) = 2 ^ 32 - 1" by (simp add: unsigned_minus_1_eq_mask mask_eq_exp_minus_1)
    ultimately have "word_of_int (s_next_stream_id (?en ! k)) \<noteq> (- 1 :: u32)" using nx mem by fastforce
    then have "word_of_int (s_next_stream_id (?en ! k)) \<in> set (map s_stream_id ?en)"
      using checked_map(2) [OF m] mem by (auto simp: links_ok_def)
    then obtain t where t: "t < length ?en" "s_stream_id (?en ! t) = word_of_int (s_next_stream_id (?en ! k))"
      unfolding in_set_conv_nth by auto
    show ?thesis using compressed_id_of [OF m t(1)] nn ge t uint by auto
  qed
  then show thesis using that [OF d] nn by (cases "s_next_stream_id (?en ! k) < 0") auto
qed

text \<open>
  C9. Compilation keeps the schedule of the streams: every core gets one stream per enabled stream,
  in order, numbered densely from 0; type, port, start flag, gaps, number of bursts and packet are
  those of the original, and the next stream is the index of the stream the original names, or
  -1 when it names none.
\<close>

theorem compiled_streams_linked:
  assumes "compile_internal rand port streams n factor = Inr (objs, w)"
    and "\<forall>s\<in>set (filter s_enabled streams). s_next_stream_id s < 2 ^ 31"
    and "c < unat n" and "k < length (filter s_enabled streams)"
  shows "length objs = unat n \<and> length (co_objs (objs ! c)) = length (filter s_enabled streams) \<and>
    (let en = filter s_enabled streams; s = en ! k; d = co_objs (objs ! c) ! k in
     s_stream_id d = of_nat k \<and> s_type d = s_type s \<and> s_port_id d = s_port_id s \<and> s_self_start d = s_self_start s \<and>
     s_isg_usec d = s_isg_usec s \<and> s_ibg_usec d = s_ibg_usec s \<and> s_num_bursts d = s_num_bursts s \<and> s_pkt d = s_pkt s \<and>
     (if s_next_stream_id s < 0 then s_next_stream_id d = - 1
      else \<exists>t<length en. s_next_stream_id d = int t \<and> uint (s_stream_id (en ! t)) = s_next_stream_id s))"
proof -
  have len: "length objs = unat n" "length (co_objs (objs ! c)) = length (filter s_enabled streams)"
    using compile_internal_cores [OF assms(1)] assms(3) list_all2_lengthD by metis+
  obtain nn vm dp where d: "co_objs (objs ! c) ! k =
      (core_stream (filter s_enabled streams ! k) factor n (int k) nn c)\<lparr>s_vm := vm, s_vm_dp := dp\<rparr>"
    and nn: "if s_next_stream_id (filter s_enabled streams ! k) < 0 then nn = - 1
      else \<exists>t<length (filter s_enabled streams). nn = int t \<and>
        uint (s_stream_id (filter s_enabled streams ! t)) = s_next_stream_id (filter s_enabled streams ! k)"
    by (rule compiled_stream_at [OF assms])
  show ?thesis using len nn unfolding Let_def d
    by (simp add: core_stream_def fix_dp_stream_id_def Let_def)
qed

definition demo_streams :: "TrexStream list" where
  "demo_streams =
     [(TrexStream_new stSINGLE_BURST 0 5)
        \<lparr>s_enabled := True, s_self_start := True, s_next_stream_id := 9, s_pps := 10, s_burst_total_pkts := 7\<rparr>,
      (TrexStream_new stMULTI_BURST 0 7)\<lparr>s_self_start := True\<rparr>,
      (TrexStream_new stCONTINUOUS 0 9)\<lparr>s_enabled := True, s_pps := 3\<rparr>]"

definition demo_compiled :: "sc_err + (TrexStreamsCompiledObj list \<times> (u32 \<times> u32 list) list)" where
  "demo_compiled = compile_internal (\<lambda>_ _. 0) 0 demo_streams 2 1"

lemmas demo_compile_simps = demo_compiled_def demo_streams_def compile_internal_def pre_compile_check_def
  TrexStream_new_def StreamVm_new_def GraphNodeMap_new_def allocate_pass_def allocate_step_def check_stream_def
  gm_has_def gm_get_def gm_add_def liftE_def direct_pass_def direct_step_def set_next_def add_parent_def
  check_for_unreachable_streams_def clear_marks_def next_of_def get_unmarked_def compile_stream_def
  compressed_id_def attach_vms_def is_vm_empty_def

lemma demo_compiled_ok:
  obtains objs w where "compile_internal (\<lambda>_ _. 0) 0 demo_streams 2 1 = Inr (objs, w)"
proof -
  have "\<exists>r. demo_compiled = Inr r" by (simp add: demo_compile_simps Let_def)
  then show thesis using that by (fastforce simp: demo_compiled_def)
qed

lemma demo_enabled: "filter s_enabled demo_streams = [demo_streams ! 0, demo_streams ! 2]"
  by (simp add: demo_streams_def TrexStream_new_def)

theorem compiled_streams_linked_witness:
  "\<exists>objs w. compile_internal (\<lambda>_ _. 0) 0 demo_streams 2 1 = Inr (objs, w) \<and> length objs = 2 \<and>
     s_stream_id (co_objs (objs ! 1) ! 0) = 0 \<and> s_next_stream_id (co_objs (objs ! 1) ! 0) = 1"
proof -
  obtain objs w where comp: "compile_internal (\<lambda>_ _. 0) 0 demo_streams 2 1 = Inr (objs, w)" by (rule demo_compiled_ok)
  have nx: "\<forall>s\<in>set (filter s_enabled demo_streams). s_next_stream_id s < 2 ^ 31"
    by (simp add: demo_streams_def TrexStream_new_def)
  have "s_next_stream_id (demo_streams ! 0) = 9" "uint (s_stream_id (demo_streams ! 0)) = 5"
    by (simp_all add: demo_streams_def TrexStream_new_def)
  then show ?thesis
    using compiled_streams_linked [OF comp nx, of 1 0] comp
    by (auto simp: demo_enabled Let_def less_Suc_eq)
qed

lemma compiled_load_at:
  assumes "compile_internal rand port streams n factor = Inr (objs, w)"
    and "c < unat n" and "k < length (filter s_enabled streams)"
  shows "s_pps (co_objs (objs ! c) ! k) = s_pps (filter s_enabled streams ! k) * (factor / of_nat (unat n))"
    and "unat (s_burst_total_pkts (co_objs (objs ! c) ! k)) =
      (let b = unat (s_burst_total_pkts (filter s_enabled streams ! k)) in
       if c = 0 then b div unat n + b mod unat n else b div unat n)"
proof -
  let ?s = "filter s_enabled streams ! k"
  obtain m where "list_all2 (compiled_as m factor n c) (co_objs (objs ! c)) (filter s_enabled streams)"
    using compile_internal_cores [OF assms(1)] assms(2) by metis
  then have "compiled_as m factor n c (co_objs (objs ! c) ! k) ?s" using assms(3) by (rule list_all2_nthD2)
  then obtain i j vm dp where d: "co_objs (objs ! c) ! k = (core_stream ?s factor n i j c)\<lparr>s_vm := vm, s_vm_dp := dp\<rparr>"
    unfolding compiled_as_def by blast
  have n: "unat (ucast n :: u32) = unat n" by (simp add: unat_ucast_widen)
  let ?b = "s_burst_total_pkts ?s"
  have q: "unat (?b div ucast n) = unat ?b div unat n" by (simp add: unat_div n)
  have "?b - ?b div ucast n * ucast n = ?b mod ucast n" by (metis minus_div_mult_eq_mod)
  then have r: "?b div ucast n + (?b - ?b div ucast n * ucast n) = ?b div ucast n + ?b mod ucast n" by simp
  have "unat ?b div unat n + unat ?b mod unat n \<le> unat ?b"
    using assms(2) div_mult_mod_eq [of "unat ?b" "unat n"] by (cases "unat n") auto
  then have "unat ?b div unat n + unat ?b mod unat n < 2 ^ 32" using unsigned_less [of ?b, where 'a = nat] by simp
  then have "unat (?b div ucast n + ?b mod ucast n) = unat ?b div unat n + unat ?b mod unat n"
    by (simp add: unat_word_ariths q unat_mod n)
  then show "s_pps (co_objs (objs ! c) ! k) = s_pps ?s * (factor / of_nat (unat n))"
    "unat (s_burst_total_pkts (co_objs (objs ! c) ! k)) =
      (let b = unat ?b in if c = 0 then b div unat n + b mod unat n else b div unat n)"
    unfolding d core_stream_def Let_def r by (simp_all add: q)
qed

lemma compiled_burst_sum:
  assumes comp: "compile_internal rand port streams n factor = Inr (objs, w)"
    and n: "0 < n" and k: "k < length (filter s_enabled streams)"
  shows "(\<Sum>c<unat n. unat (s_burst_total_pkts (co_objs (objs ! c) ! k))) =
      unat (s_burst_total_pkts (filter s_enabled streams ! k))"
proof -
  let ?b = "unat (s_burst_total_pkts (filter s_enabled streams ! k))"
  obtain N where N: "unat n = Suc N" using n by (cases "unat n") (auto simp: unat_eq_0)
  have "(\<Sum>c<unat n. unat (s_burst_total_pkts (co_objs (objs ! c) ! k))) =
      (\<Sum>c<unat n. if c = 0 then ?b div unat n + ?b mod unat n else ?b div unat n)"
    by (rule sum.cong) (simp_all add: compiled_load_at(2) [OF comp _ k] Let_def)
  also have "\<dots> = ?b div unat n * unat n + ?b mod unat n"
    unfolding N by (simp add: sum.lessThan_Suc_shift del: sum.lessThan_Suc)
  finally show ?thesis by simp
qed

text \<open>
  C10. Splitting a stream over the cores loses and invents nothing: the bursts of the cores add up to
  the burst of the stream, and their rates to its rate times the factor.
\<close>

theorem compiled_load_conserved:
  assumes comp: "compile_internal rand port streams n factor = Inr (objs, w)"
    and n: "0 < n" and k: "k < length (filter s_enabled streams)"
  shows "(\<Sum>c<unat n. unat (s_burst_total_pkts (co_objs (objs ! c) ! k))) =
      unat (s_burst_total_pkts (filter s_enabled streams ! k)) \<and>
    (\<Sum>c<unat n. s_pps (co_objs (objs ! c) ! k)) = s_pps (filter s_enabled streams ! k) * factor"
proof -
  have "(\<Sum>c<unat n. s_pps (co_objs (objs ! c) ! k)) =
      (\<Sum>c<unat n. s_pps (filter s_enabled streams ! k) * (factor / of_nat (unat n)))"
    by (rule sum.cong) (simp_all add: compiled_load_at(1) [OF comp _ k])
  moreover obtain N where "unat n = Suc N" using n by (cases "unat n") (auto simp: unat_eq_0)
  ultimately show ?thesis using compiled_burst_sum [OF assms] by simp
qed

theorem compiled_load_conserved_witness:
  "\<exists>objs w. compile_internal (\<lambda>_ _. 0) 0 demo_streams 2 1 = Inr (objs, w) \<and>
     unat (s_burst_total_pkts (co_objs (objs ! 0) ! 0)) + unat (s_burst_total_pkts (co_objs (objs ! 1) ! 0)) = 7 \<and>
     s_pps (co_objs (objs ! 0) ! 0) + s_pps (co_objs (objs ! 1) ! 0) = 10"
proof -
  obtain objs w where comp: "compile_internal (\<lambda>_ _. 0) 0 demo_streams 2 1 = Inr (objs, w)" by (rule demo_compiled_ok)
  have "unat (s_burst_total_pkts (demo_streams ! 0)) = 7" "s_pps (demo_streams ! 0) = 10"
    by (simp_all add: demo_streams_def TrexStream_new_def)
  moreover have "{..<2 :: nat} = {0, 1}" by auto
  ultimately show ?thesis
    using compiled_load_conserved [OF comp, of 0] comp by (auto simp: demo_enabled)
qed

end
