(* ===== verification/Streams_Graph.thy ===== *)
theory Streams_Graph
  imports Streams_Compiler "HOL-Library.Multiset"
begin

text \<open>
  The rate graph of the streams of a port (\<open>TrexStreamsGraph\<close> and \<open>TrexStreamsGraphObj\<close> in
  \<open>stateless/cp/trex_streams_compiler.cpp\<close>): the walk from every self-starting stream, the events
  at which the rate changes, the peak rate and the expected duration.

  Times and rates are rationals.  The hash of the streams is an association list whose newest entry
  comes first.  The conversion of the last time to \<open>int\<close> is undefined outside of 32 bit, as is
  \<open>back\<close> of an empty list.
\<close>

section \<open>Events\<close>

datatype gr_err =
    ErrNoStream u32
  | ErrNoEvents
  | ErrDuration

record rate_event_st =
  ev_time :: rat
  ev_diff_pps :: rat
  ev_diff_bps :: rat
  ev_stream_id :: u32

record TrexStreamsGraphObj =
  gr_max_pps :: rat
  gr_max_bps :: rat
  gr_expected_duration :: int
  gr_rate_events :: "rate_event_st list"

definition TrexStreamsGraphObj_new :: TrexStreamsGraphObj where
  "TrexStreamsGraphObj_new = \<lparr>gr_max_pps = 0, gr_max_bps = 0, gr_expected_duration = 0, gr_rate_events = []\<rparr>"

definition on_loop_detection :: "TrexStreamsGraphObj \<Rightarrow> TrexStreamsGraphObj" where
  "on_loop_detection g = g\<lparr>gr_expected_duration := - 1\<rparr>"

definition add_rate_event :: "rate_event_st \<Rightarrow> TrexStreamsGraphObj \<Rightarrow> TrexStreamsGraphObj" where
  "add_rate_event ev g = g\<lparr>gr_rate_events := gr_rate_events g @ [ev]\<rparr>"

definition start_event :: "rat \<Rightarrow> TrexStream \<Rightarrow> rate_event_st" where
  "start_event t s = \<lparr>ev_time = t, ev_diff_pps = s_pps s, ev_diff_bps = get_bps s, ev_stream_id = s_stream_id s\<rparr>"

definition stop_event :: "rat \<Rightarrow> TrexStream \<Rightarrow> rate_event_st" where
  "stop_event t s = \<lparr>ev_time = t, ev_diff_pps = - s_pps s, ev_diff_bps = - get_bps s, ev_stream_id = s_stream_id s\<rparr>"

definition add_rate_events_for_stream_cont ::
  "rat \<Rightarrow> TrexStream \<Rightarrow> TrexStreamsGraphObj \<Rightarrow> rat \<times> TrexStreamsGraphObj" where
  "add_rate_events_for_stream_cont offset_usec s g =
     (- 1, (add_rate_event (start_event (offset_usec + s_isg_usec s) s) g)\<lparr>gr_expected_duration := - 1\<rparr>)"

definition add_rate_events_for_stream_single_burst ::
  "rat \<Rightarrow> TrexStream \<Rightarrow> TrexStreamsGraphObj \<Rightarrow> rat \<times> TrexStreamsGraphObj" where
  "add_rate_events_for_stream_single_burst offset_usec s g =
     (let start_time = offset_usec + s_isg_usec s;
          stop_time = start_time + get_burst_length_usec s
      in (stop_time, add_rate_event (stop_event stop_time s) (add_rate_event (start_event start_time s) g)))"

text \<open>The loop over the bursts, by the number of bursts left.\<close>

primrec multi_burst_loop ::
  "nat \<Rightarrow> rat \<Rightarrow> rat \<Rightarrow> TrexStream \<Rightarrow> TrexStreamsGraphObj \<Rightarrow> rat \<times> TrexStreamsGraphObj" where
  "multi_burst_loop 0 delay offset_usec s g = (offset_usec, g)"
| "multi_burst_loop (Suc n) delay offset_usec s g =
     (let start_time = offset_usec + delay;
          stop_time = start_time + get_burst_length_usec s
      in multi_burst_loop n (s_ibg_usec s) stop_time s
           (add_rate_event (stop_event stop_time s) (add_rate_event (start_event start_time s) g)))"

definition add_rate_events_for_stream_multi_burst ::
  "rat \<Rightarrow> TrexStream \<Rightarrow> TrexStreamsGraphObj \<Rightarrow> rat \<times> TrexStreamsGraphObj" where
  "add_rate_events_for_stream_multi_burst offset_usec s g =
     multi_burst_loop (unat (s_num_bursts s)) (s_isg_usec s) offset_usec s g"

definition add_rate_events_for_stream ::
  "rat \<Rightarrow> TrexStream \<Rightarrow> TrexStreamsGraphObj \<Rightarrow> rat \<times> TrexStreamsGraphObj" where
  "add_rate_events_for_stream offset_usec s g = (case s_type s of
       stCONTINUOUS \<Rightarrow> add_rate_events_for_stream_cont offset_usec s g
     | stSINGLE_BURST \<Rightarrow> add_rate_events_for_stream_single_burst offset_usec s g
     | stMULTI_BURST \<Rightarrow> add_rate_events_for_stream_multi_burst offset_usec s g
     | stNONE \<Rightarrow> (offset_usec, g))"

section \<open>The walk\<close>

type_synonym streams_hash = "(u32 \<times> TrexStream) list"

function generate_graph_for_one_root ::
  "streams_hash \<Rightarrow> u32 set \<Rightarrow> u32 \<Rightarrow> rat \<Rightarrow> TrexStreamsGraphObj \<Rightarrow> gr_err + TrexStreamsGraphObj" where
  "generate_graph_for_one_root hash loop_hash stream_id offset g = (case map_of hash stream_id of
       None \<Rightarrow> Inl (ErrNoStream stream_id)
     | Some s \<Rightarrow>
         let loop_hash' = insert stream_id loop_hash;
             (offset', g') = add_rate_events_for_stream offset s g
         in if s_next_stream_id s = - 1 then Inr g'
            else if word_of_int (s_next_stream_id s) \<in> loop_hash' then Inr (on_loop_detection g')
            else generate_graph_for_one_root hash loop_hash' (word_of_int (s_next_stream_id s)) offset' g')"
  by pat_completeness auto

text \<open>Every turn but the first visits a stream for the first time.\<close>

termination generate_graph_for_one_root
proof (relation "measure (\<lambda>(hash, loop_hash, stream_id, offset, g).
    2 * card (fst ` set hash - loop_hash) + (if stream_id \<in> loop_hash then 1 else 0))", goal_cases)
  case (2 hash visited i offset g s visited' r offset' g')
  then have i: "i \<in> fst ` set hash" by (force dest: map_of_SomeD)
  show ?case
  proof (cases "i \<in> visited")
    case True
    then show ?thesis using 2 by (simp add: insert_absorb)
  next
    case False
    have "fst ` set hash - insert i visited = fst ` set hash - visited - {i}" by auto
    moreover have "0 < card (fst ` set hash - visited)" using i False by (auto simp: card_gt_0_iff)
    ultimately have "card (fst ` set hash - insert i visited) < card (fst ` set hash - visited)"
      using i False by (simp add: card_Diff_singleton)
    then show ?thesis using 2 False by simp
  qed
qed simp

definition hash_step :: "streams_hash \<times> u32 list \<Rightarrow> TrexStream \<Rightarrow> streams_hash \<times> u32 list" where
  "hash_step st s = (case st of (hash, roots) \<Rightarrow>
     if \<not> s_enabled s then (hash, roots)
     else ((s_stream_id s, s) # hash, if s_self_start s then roots @ [s_stream_id s] else roots))"

definition event_rates :: "rate_event_st list \<Rightarrow> (rat \<times> rat) \<times> (rat \<times> rat)" where
  "event_rates evs = foldl (\<lambda>((mp, cp), (mb, cb)) ev.
     let cp' = cp + ev_diff_pps ev; cb' = cb + ev_diff_bps ev in ((max mp cp', cp'), (max mb cb', cb')))
     ((0, 0), (0, 0)) evs"

definition time_to_int :: "rat \<Rightarrow> int option" where
  "time_to_int t = (let i = (if t \<ge> 0 then \<lfloor>t\<rfloor> else \<lceil>t\<rceil>) in if - (2 ^ 31) \<le> i \<and> i < 2 ^ 31 then Some i else None)"

definition find_max_rate :: "TrexStreamsGraphObj \<Rightarrow> gr_err + TrexStreamsGraphObj" where
  "find_max_rate g =
     (let ((max_rate_pps, _), (max_rate_bps, _)) = event_rates (gr_rate_events g)
      in bindE (if gr_expected_duration g \<noteq> - 1
                then bindE (assertE ErrNoEvents (gr_rate_events g \<noteq> [])) (\<lambda>_.
                  liftE ErrDuration (time_to_int (ev_time (last (gr_rate_events g)))))
                else Inr (- 1))
           (\<lambda>d. Inr (g\<lparr>gr_expected_duration := d, gr_max_pps := max_rate_pps, gr_max_bps := max_rate_bps\<rparr>)))"

definition graphobj_generate :: "TrexStreamsGraphObj \<Rightarrow> gr_err + TrexStreamsGraphObj" where
  "graphobj_generate g = find_max_rate (g\<lparr>gr_rate_events := sort_key ev_time (gr_rate_events g)\<rparr>)"

definition graph_generate :: "TrexStream list \<Rightarrow> gr_err + TrexStreamsGraphObj" where
  "graph_generate streams =
     (let (hash, roots) = foldl hash_step ([], []) streams
      in bindE (foldE (\<lambda>g r. generate_graph_for_one_root hash {} r 0 g) TrexStreamsGraphObj_new roots)
           graphobj_generate)"

section \<open>The transmissions of the streams\<close>

text \<open>
  A chain of streams from a root: each names the next, no stream comes twice, and the last one has
  no next stream or names one that came before.
\<close>

definition stream_chain :: "TrexStream list \<Rightarrow> u32 \<Rightarrow> TrexStream list \<Rightarrow> bool" where
  "stream_chain en i p \<longleftrightarrow> p \<noteq> [] \<and> s_stream_id (hd p) = i \<and> set p \<subseteq> set en \<and> distinct (map s_stream_id p) \<and>
     (\<forall>k. Suc k < length p \<longrightarrow> s_next_stream_id (p ! k) \<noteq> - 1 \<and>
       word_of_int (s_next_stream_id (p ! k)) = s_stream_id (p ! Suc k)) \<and>
     (s_next_stream_id (last p) = - 1 \<or> word_of_int (s_next_stream_id (last p)) \<in> s_stream_id ` set p)"

text \<open>When each stream of a chain transmits: start, end if there is one, and the stream.\<close>

type_synonym transmission = "rat \<times> rat option \<times> TrexStream"

definition burst_start :: "rat \<Rightarrow> TrexStream \<Rightarrow> nat \<Rightarrow> rat" where
  "burst_start t s k = t + s_isg_usec s + of_nat k * (get_burst_length_usec s + s_ibg_usec s)"

definition burst_at :: "rat \<Rightarrow> TrexStream \<Rightarrow> nat \<Rightarrow> transmission" where
  "burst_at t s k = (burst_start t s k, Some (burst_start t s k + get_burst_length_usec s), s)"

fun transmissions :: "rat \<Rightarrow> TrexStream list \<Rightarrow> transmission list" where
  "transmissions t [] = []"
| "transmissions t (s # ss) = (case s_type s of
     stCONTINUOUS \<Rightarrow> (t + s_isg_usec s, None, s) # transmissions (- 1) ss
   | stSINGLE_BURST \<Rightarrow> burst_at t s 0 # transmissions (burst_start t s 0 + get_burst_length_usec s) ss
   | stMULTI_BURST \<Rightarrow>
       (let n = unat (s_num_bursts s) in
        map (burst_at t s) [0..<n] @
          transmissions (if n = 0 then t else burst_start t s (n - 1) + get_burst_length_usec s) ss)
   | stNONE \<Rightarrow> transmissions t ss)"

definition trans_events :: "transmission \<Rightarrow> rate_event_st list" where
  "trans_events tr = (case tr of (a, e, s) \<Rightarrow>
     start_event a s # (case e of None \<Rightarrow> [] | Some b \<Rightarrow> [stop_event b s]))"

definition rate_at :: "(TrexStream \<Rightarrow> rat) \<Rightarrow> transmission list \<Rightarrow> rat \<Rightarrow> rat" where
  "rate_at w trs t = sum_list (map (\<lambda>(a, e, s). w s)
     (filter (\<lambda>(a, e, s). a \<le> t \<and> (case e of None \<Rightarrow> True | Some b \<Rightarrow> t < b)) trs))"

section \<open>The walk produces the transmissions\<close>

lemma multi_burst_loop_events:
  "multi_burst_loop n delay t s g =
     (if n = 0 then t else t + delay + get_burst_length_usec s + of_nat (n - 1) * (get_burst_length_usec s + s_ibg_usec s),
      g\<lparr>gr_rate_events := gr_rate_events g @ concat (map (\<lambda>k.
          trans_events (let a = t + delay + of_nat k * (get_burst_length_usec s + s_ibg_usec s) in
            (a, Some (a + get_burst_length_usec s), s))) [0..<n])\<rparr>)"
proof (induction n arbitrary: delay t g)
  case (Suc n)
  let ?L = "get_burst_length_usec s" and ?i = "s_ibg_usec s"
  have shift: "[0..<Suc n] = 0 # map Suc [0..<n]" by (simp add: map_Suc_upt upt_conv_Cons del: upt_Suc)
  have "t + delay + ?L + ?i + of_nat k * (?L + ?i) = t + delay + of_nat (Suc k) * (?L + ?i)" for k
    by (simp add: algebra_simps)
  then show ?case
    unfolding shift by (simp add: Suc.IH Let_def add_rate_event_def trans_events_def comp_def algebra_simps)
qed simp

lemma add_rate_events_eq:
  "add_rate_events_for_stream t s g = (t', g') \<Longrightarrow>
     \<exists>trs. gr_rate_events g' = gr_rate_events g @ concat (map trans_events trs) \<and>
       (\<forall>ss. transmissions t (s # ss) = trs @ transmissions t' ss)"
proof -
  assume eq: "add_rate_events_for_stream t s g = (t', g')"
  show ?thesis
  proof (cases "s_type s")
    case stCONTINUOUS
    then show ?thesis using eq
      by (intro exI [of _ "[(t + s_isg_usec s, None, s)]"])
        (auto simp: add_rate_events_for_stream_def add_rate_events_for_stream_cont_def add_rate_event_def trans_events_def)
  next
    case stSINGLE_BURST
    then show ?thesis using eq
      by (intro exI [of _ "[burst_at t s 0]"])
        (auto simp: add_rate_events_for_stream_def add_rate_events_for_stream_single_burst_def add_rate_event_def
          trans_events_def burst_at_def burst_start_def Let_def)
  next
    case stMULTI_BURST
    then show ?thesis using eq
      by (intro exI [of _ "map (burst_at t s) [0..<unat (s_num_bursts s)]"])
        (auto simp: add_rate_events_for_stream_def add_rate_events_for_stream_multi_burst_def multi_burst_loop_events
          burst_at_def burst_start_def Let_def comp_def algebra_simps)
  next
    case stNONE
    then show ?thesis using eq by (intro exI [of _ "[]"]) (auto simp: add_rate_events_for_stream_def)
  qed
qed

declare generate_graph_for_one_root.simps [simp del]

lemma chain_Cons:
  assumes "s_next_stream_id s \<noteq> - 1" and "word_of_int (s_next_stream_id s) = s_stream_id (hd p)" and "p \<noteq> []"
    and "\<forall>k. Suc k < length p \<longrightarrow> s_next_stream_id (p ! k) \<noteq> - 1 \<and>
       word_of_int (s_next_stream_id (p ! k)) = s_stream_id (p ! Suc k)"
  shows "\<forall>k. Suc k < length (s # p) \<longrightarrow> s_next_stream_id ((s # p) ! k) \<noteq> - 1 \<and>
       word_of_int (s_next_stream_id ((s # p) ! k)) = s_stream_id ((s # p) ! Suc k)"
  using assms by (auto simp: nth_Cons hd_conv_nth split: nat.splits)

lemma walk_step:
  assumes "map_of hash i = Some s" and "add_rate_events_for_stream t s g = (t', g1)"
  shows "generate_graph_for_one_root hash visited i t g =
      (if s_next_stream_id s = - 1 then Inr g1
       else if word_of_int (s_next_stream_id s) \<in> insert i visited then Inr (on_loop_detection g1)
       else generate_graph_for_one_root hash (insert i visited) (word_of_int (s_next_stream_id s)) t' g1)"
  by (subst generate_graph_for_one_root.simps) (simp add: assms)

lemma walk_chain:
  assumes "generate_graph_for_one_root hash visited i t g = Inr g'"
    and "\<forall>(k, s)\<in>set hash. s_stream_id s = k" and "i \<notin> visited"
  shows "\<exists>p. p \<noteq> [] \<and> s_stream_id (hd p) = i \<and> set p \<subseteq> snd ` set hash \<and> distinct (map s_stream_id p) \<and>
    s_stream_id ` set p \<inter> visited = {} \<and>
    (\<forall>k. Suc k < length p \<longrightarrow> s_next_stream_id (p ! k) \<noteq> - 1 \<and>
       word_of_int (s_next_stream_id (p ! k)) = s_stream_id (p ! Suc k)) \<and>
    (s_next_stream_id (last p) = - 1 \<or> word_of_int (s_next_stream_id (last p)) \<in> visited \<union> s_stream_id ` set p) \<and>
    gr_rate_events g' = gr_rate_events g @ concat (map trans_events (transmissions t p))"
  using assms
proof (induction hash visited i t g rule: generate_graph_for_one_root.induct)
  case (1 hash visited i t g)
  obtain s where s: "map_of hash i = Some s"
    using "1.prems"(1) by (subst (asm) generate_graph_for_one_root.simps) (auto split: option.splits)
  then have id: "s_stream_id s = i" and mem: "s \<in> snd ` set hash"
    using "1.prems"(2) by (force dest: map_of_SomeD)+
  obtain t' g1 where ev: "add_rate_events_for_stream t s g = (t', g1)" by fastforce
  obtain trs where trs: "gr_rate_events g1 = gr_rate_events g @ concat (map trans_events trs)"
    "\<And>ss. transmissions t (s # ss) = trs @ transmissions t' ss"
    using add_rate_events_eq [OF ev] by blast
  let ?nx = "word_of_int (s_next_stream_id s) :: u32"
  note step = walk_step [OF s ev]
  show ?case
  proof (cases "s_next_stream_id s = - 1 \<or> ?nx \<in> insert i visited")
    case True
    then have "gr_rate_events g' = gr_rate_events g1"
      using "1.prems"(1) step by (auto simp: on_loop_detection_def split: if_splits)
    then show ?thesis
      using True id mem "1.prems"(3) trs(1) trs(2) [of "[]"] by (intro exI [of _ "[s]"]) auto
  next
    case False
    then have "generate_graph_for_one_root hash (insert i visited) ?nx t' g1 = Inr g'" using "1.prems"(1) step by simp
    from "1.IH" [OF s refl ev [symmetric] refl _ _ this "1.prems"(2)] False obtain p where
      p: "p \<noteq> []" "s_stream_id (hd p) = ?nx" "set p \<subseteq> snd ` set hash" "distinct (map s_stream_id p)"
      "s_stream_id ` set p \<inter> insert i visited = {}"
      "\<forall>k. Suc k < length p \<longrightarrow> s_next_stream_id (p ! k) \<noteq> - 1 \<and>
         word_of_int (s_next_stream_id (p ! k)) = s_stream_id (p ! Suc k)"
      "s_next_stream_id (last p) = - 1 \<or> word_of_int (s_next_stream_id (last p)) \<in> insert i visited \<union> s_stream_id ` set p"
      "gr_rate_events g' = gr_rate_events g1 @ concat (map trans_events (transmissions t' p))"
      by auto
    show ?thesis
    proof (intro exI [of _ "s # p"] conjI)
      show "\<forall>k. Suc k < length (s # p) \<longrightarrow> s_next_stream_id ((s # p) ! k) \<noteq> - 1 \<and>
          word_of_int (s_next_stream_id ((s # p) ! k)) = s_stream_id ((s # p) ! Suc k)"
        by (rule chain_Cons) (use False p in auto)
      show "gr_rate_events g' = gr_rate_events g @ concat (map trans_events (transmissions t (s # p)))"
        unfolding trs(2) using p(8) trs(1) by simp
    qed (use p id mem "1.prems"(3) in auto)
  qed
qed

lemma hash_fold:
  "foldl hash_step (h, r) streams =
     (rev (map (\<lambda>s. (s_stream_id s, s)) (filter s_enabled streams)) @ h,
      r @ map s_stream_id (filter s_self_start (filter s_enabled streams)))"
  by (induction streams arbitrary: h r) (simp_all add: hash_step_def)

definition streams_hash_of :: "TrexStream list \<Rightarrow> streams_hash" where
  "streams_hash_of streams = rev (map (\<lambda>s. (s_stream_id s, s)) (filter s_enabled streams))"

lemma streams_hash_of_simps:
  "snd ` set (streams_hash_of streams) = set (filter s_enabled streams)"
  "\<forall>(k, s)\<in>set (streams_hash_of streams). s_stream_id s = k"
  "fst ` set (streams_hash_of streams) = s_stream_id ` set (filter s_enabled streams)"
  unfolding streams_hash_of_def by (auto simp: image_image)

definition root_ids :: "TrexStream list \<Rightarrow> u32 list" where
  "root_ids streams = map s_stream_id (filter s_self_start (filter s_enabled streams))"

lemma graph_generate_eq:
  "graph_generate streams = bindE (foldE (\<lambda>g r. generate_graph_for_one_root (streams_hash_of streams) {} r 0 g)
     TrexStreamsGraphObj_new (root_ids streams)) graphobj_generate"
  unfolding graph_generate_def hash_fold streams_hash_of_def root_ids_def by simp

lemma walks_chains:
  assumes "foldE (\<lambda>g r. generate_graph_for_one_root (streams_hash_of streams) {} r 0 g) TrexStreamsGraphObj_new rs = Inr g"
  shows "\<exists>ps. list_all2 (stream_chain (filter s_enabled streams)) rs ps \<and>
    gr_rate_events g = concat (map trans_events (concat (map (transmissions 0) ps)))"
proof (rule foldE_prefix_in [OF assms])
  show "\<exists>ps. list_all2 (stream_chain (filter s_enabled streams)) [] ps \<and>
      gr_rate_events TrexStreamsGraphObj_new = concat (map trans_events (concat (map (transmissions 0) ps)))"
    by (simp add: TrexStreamsGraphObj_new_def)
next
  fix don r g g'
  assume "\<exists>ps. list_all2 (stream_chain (filter s_enabled streams)) don ps \<and>
      gr_rate_events g = concat (map trans_events (concat (map (transmissions 0) ps)))"
    and walk: "generate_graph_for_one_root (streams_hash_of streams) {} r 0 g = Inr g'"
  then obtain ps where ps: "list_all2 (stream_chain (filter s_enabled streams)) don ps"
    "gr_rate_events g = concat (map trans_events (concat (map (transmissions 0) ps)))" by blast
  from walk_chain [OF walk streams_hash_of_simps(2)] obtain p where
    "stream_chain (filter s_enabled streams) r p"
    "gr_rate_events g' = gr_rate_events g @ concat (map trans_events (transmissions 0 p))"
    unfolding streams_hash_of_simps(1) stream_chain_def by auto
  then show "\<exists>ps. list_all2 (stream_chain (filter s_enabled streams)) (don @ [r]) ps \<and>
      gr_rate_events g' = concat (map trans_events (concat (map (transmissions 0) ps)))"
    using ps by (intro exI [of _ "ps @ [p]"]) (auto intro: list_all2_appendI)
qed

section \<open>The peak rate\<close>

definition run_sum :: "(rate_event_st \<Rightarrow> rat) \<Rightarrow> rate_event_st list \<Rightarrow> rat" where
  "run_sum d evs = sum_list (map d evs)"

lemma event_rates_eq:
  "event_rates evs = ((m, c), (mb, cb)) \<Longrightarrow> c = run_sum ev_diff_pps evs \<and> cb = run_sum ev_diff_bps evs \<and>
     m = Max ((\<lambda>n. run_sum ev_diff_pps (take n evs)) ` {..length evs}) \<and>
     mb = Max ((\<lambda>n. run_sum ev_diff_bps (take n evs)) ` {..length evs})"
proof (induction evs arbitrary: m c mb cb rule: rev_induct)
  case Nil
  then show ?case by (simp add: event_rates_def run_sum_def)
next
  case (snoc ev evs)
  obtain m0 c0 mb0 cb0 where e: "event_rates evs = ((m0, c0), (mb0, cb0))" by (metis surj_pair)
  have snoc_max: "Max ((\<lambda>n. run_sum d (take n (evs @ [ev]))) ` {..length (evs @ [ev])}) =
      max (Max ((\<lambda>n. run_sum d (take n evs)) ` {..length evs})) (run_sum d (evs @ [ev]))" for d
  proof -
    have "{..length (evs @ [ev])} = insert (Suc (length evs)) {..length evs}" by auto
    moreover have "(\<lambda>n. run_sum d (take n (evs @ [ev]))) ` {..length evs} = (\<lambda>n. run_sum d (take n evs)) ` {..length evs}"
      by (rule image_cong) simp_all
    ultimately show ?thesis by (simp add: max.commute)
  qed
  have "event_rates (evs @ [ev]) = ((max m0 (c0 + ev_diff_pps ev), c0 + ev_diff_pps ev),
      (max mb0 (cb0 + ev_diff_bps ev), cb0 + ev_diff_bps ev))"
    using e by (simp add: event_rates_def Let_def)
  then show ?case using snoc.IH [OF e] snoc.prems unfolding snoc_max by (simp add: run_sum_def)
qed

text \<open>Between two events the rate is the sum of the changes so far.\<close>

lemma run_sum_mset: "mset xs = mset ys \<Longrightarrow> run_sum d xs = run_sum d ys"
  unfolding run_sum_def by (metis mset_map sum_mset_sum_list)

definition weighted :: "(TrexStream \<Rightarrow> rat) \<Rightarrow> (rate_event_st \<Rightarrow> rat) \<Rightarrow> bool" where
  "weighted w d \<longleftrightarrow> (\<forall>t s. d (start_event t s) = w s \<and> d (stop_event t s) = - w s)"

lemma ev_time_simps: "ev_time (start_event t s) = t" "ev_time (stop_event t s) = t"
  by (simp_all add: start_event_def stop_event_def)

lemma rate_at_events:
  assumes "weighted w d" and "\<forall>(a, e, s)\<in>set trs. case e of None \<Rightarrow> True | Some b \<Rightarrow> a \<le> b"
  shows "rate_at w trs t = run_sum d (filter (\<lambda>ev. ev_time ev \<le> t) (concat (map trans_events trs)))"
  using assms(2)
proof (induction trs)
  case (Cons tr trs)
  obtain a e s where tr: "tr = (a, e, s)" by (metis surj_pair)
  have d: "d (start_event x s) = w s" "d (stop_event x s) = - w s" for x using assms(1) by (simp_all add: weighted_def)
  have "rate_at w (tr # trs) t = rate_at w [tr] t + rate_at w trs t" by (simp add: rate_at_def)
  moreover have "rate_at w [tr] t = run_sum d (filter (\<lambda>ev. ev_time ev \<le> t) (trans_events tr))"
    using Cons.prems unfolding tr
    by (cases e) (auto simp: rate_at_def trans_events_def run_sum_def d ev_time_simps)
  ultimately show ?case using Cons by (simp add: run_sum_def)
qed (simp add: rate_at_def run_sum_def)

lemma sorted_filter_take:
  assumes "sorted (map f xs)"
  shows "\<exists>n\<le>length xs. filter (\<lambda>x. f x \<le> t) xs = take n xs"
proof -
  have "\<not> f x \<le> t" if "x \<in> set (dropWhile (\<lambda>x. f x \<le> t) xs)" for x
    using assms that
  proof (induction xs)
    case (Cons y ys)
    then show ?case by (cases "f y \<le> t") (auto intro: order_trans)
  qed simp
  then have "takeWhile (\<lambda>x. f x \<le> t) xs = filter (\<lambda>x. f x \<le> t) xs" by (intro takeWhile_eq_filter)
  then have "filter (\<lambda>x. f x \<le> t) xs = take (length (takeWhile (\<lambda>x. f x \<le> t) xs)) xs"
    using takeWhile_eq_take [of "\<lambda>x. f x \<le> t" xs] by simp
  then show ?thesis by (intro exI conjI) (rule length_takeWhile_le)
qed

lemma peak_rate:
  assumes w: "weighted w d" and ends: "\<forall>(a, e, s)\<in>set trs. case e of None \<Rightarrow> True | Some b \<Rightarrow> a \<le> b"
    and evs: "evs = sort_key ev_time (concat (map trans_events trs))"
    and m: "m = Max ((\<lambda>n. run_sum d (take n evs)) ` {..length evs})"
  shows "rate_at w trs t \<le> m" and "distinct (map ev_time evs) \<Longrightarrow> m = 0 \<or> (\<exists>t. rate_at w trs t = m)"
proof -
  have sorted: "sorted (map ev_time evs)" unfolding evs by simp
  have rate: "rate_at w trs t = run_sum d (filter (\<lambda>ev. ev_time ev \<le> t) evs)" for t
    unfolding rate_at_events [OF w ends] by (rule run_sum_mset) (simp add: evs)
  obtain n where "n \<le> length evs" "filter (\<lambda>ev. ev_time ev \<le> t) evs = take n evs"
    using sorted_filter_take [OF sorted] by blast
  then show "rate_at w trs t \<le> m" unfolding m rate by (intro Max_ge) auto
  assume dist: "distinct (map ev_time evs)"
  have "m \<in> (\<lambda>n. run_sum d (take n evs)) ` {..length evs}" unfolding m by (rule Max_in) auto
  then obtain n where n: "n \<le> length evs" "m = run_sum d (take n evs)" by auto
  show "m = 0 \<or> (\<exists>t. rate_at w trs t = m)"
  proof (cases n)
    case 0
    then show ?thesis using n(2) by (simp add: run_sum_def)
  next
    case (Suc k)
    have less: "ev_time (evs ! i) \<le> ev_time (evs ! k) \<longleftrightarrow> i \<le> k" if "i < length evs" for i
    proof -
      have "k < length evs" using n(1) Suc by simp
      then have "ev_time (evs ! k) < ev_time (evs ! i)" if "k < i"
        using that sorted_nth_mono [OF sorted, of k i] dist \<open>i < length evs\<close>
          nth_eq_iff_index_eq [OF dist, of k i] by simp
      then show ?thesis using sorted_nth_mono [OF sorted, of i k] \<open>k < length evs\<close> that by (cases "i \<le> k") auto
    qed
    have "filter (\<lambda>ev. ev_time ev \<le> ev_time (evs ! k)) evs = take n evs"
    proof -
      obtain j where j: "j \<le> length evs" "filter (\<lambda>ev. ev_time ev \<le> ev_time (evs ! k)) evs = take j evs"
        using sorted_filter_take [OF sorted] by blast
      have "{i. i < length evs \<and> ev_time (evs ! i) \<le> ev_time (evs ! k)} = {..<n}" using less n(1) Suc by auto
      then have "length (filter (\<lambda>ev. ev_time ev \<le> ev_time (evs ! k)) evs) = n"
        by (simp add: length_filter_conv_card)
      then show ?thesis using j by simp
    qed
    then show ?thesis using n(2) rate by metis
  qed
qed

lemma transmissions_end:
  assumes "\<forall>s\<in>set p. 0 < s_pps s"
  shows "\<forall>(a, e, s)\<in>set (transmissions t p). case e of None \<Rightarrow> True | Some b \<Rightarrow> a \<le> b"
  using assms
proof (induction t p rule: transmissions.induct)
  case (2 t s ss)
  have "0 \<le> get_burst_length_usec s" unfolding get_burst_length_usec_def
    by (intro mult_nonneg_nonneg divide_nonneg_pos of_nat_0_le_iff) (use "2.prems" in simp_all)
  then show ?case using 2 by (cases "s_type s") (auto simp: burst_at_def Let_def)
qed simp

text \<open>
  C11. The graph finds the peak rate: walking from every self-starting stream, it lays the transmissions
  of the streams of the chain one after the other, and the rate it reports bounds the rate of all
  transmissions together at every time, in packets and in bits; when no two rate changes fall on the
  same time, the reported rate is reached.
\<close>

theorem graph_peak_rate:
  assumes gen: "graph_generate streams = Inr g" and pps: "\<forall>s\<in>set (filter s_enabled streams). 0 < s_pps s"
  shows "\<exists>ps. list_all2 (stream_chain (filter s_enabled streams)) (root_ids streams) ps \<and>
    (let trs = concat (map (transmissions 0) ps) in
     (\<forall>t. rate_at s_pps trs t \<le> gr_max_pps g \<and> rate_at get_bps trs t \<le> gr_max_bps g) \<and>
     (distinct (map ev_time (gr_rate_events g)) \<longrightarrow>
       (gr_max_pps g = 0 \<or> (\<exists>t. rate_at s_pps trs t = gr_max_pps g)) \<and>
       (gr_max_bps g = 0 \<or> (\<exists>t. rate_at get_bps trs t = gr_max_bps g))))"
proof -
  obtain g0 where g0: "foldE (\<lambda>g r. generate_graph_for_one_root (streams_hash_of streams) {} r 0 g)
      TrexStreamsGraphObj_new (root_ids streams) = Inr g0" and g: "graphobj_generate g0 = Inr g"
    using gen unfolding graph_generate_eq by (auto simp: bindE_simps)
  obtain ps where ps: "list_all2 (stream_chain (filter s_enabled streams)) (root_ids streams) ps"
    and ev0: "gr_rate_events g0 = concat (map trans_events (concat (map (transmissions 0) ps)))"
    using walks_chains [OF g0] by blast
  let ?trs = "concat (map (transmissions 0) ps)"
  have ev: "gr_rate_events g = sort_key ev_time (concat (map trans_events ?trs))"
    and rates: "fst (fst (event_rates (gr_rate_events g))) = gr_max_pps g" "fst (snd (event_rates (gr_rate_events g))) = gr_max_bps g"
    using g by (auto simp: graphobj_generate_def find_max_rate_def bindE_simps ev0 split: prod.splits)
  obtain c cb where er: "event_rates (gr_rate_events g) = ((gr_max_pps g, c), (gr_max_bps g, cb))"
    using rates by (metis prod.collapse)
  have "\<forall>s\<in>set p. 0 < s_pps s" if p: "p \<in> set ps" for p
  proof -
    obtain i where "i < length ps" "p = ps ! i" using p by (metis in_set_conv_nth)
    then have "stream_chain (filter s_enabled streams) (root_ids streams ! i) p" using ps by (simp add: list_all2_conv_all_nth)
    then show ?thesis using pps unfolding stream_chain_def by blast
  qed
  then have ends: "\<forall>(a, e, s)\<in>set ?trs. case e of None \<Rightarrow> True | Some b \<Rightarrow> a \<le> b"
    using transmissions_end by fastforce
  have w: "weighted s_pps ev_diff_pps" "weighted get_bps ev_diff_bps"
    by (simp_all add: weighted_def start_event_def stop_event_def)
  have m: "gr_max_pps g = Max ((\<lambda>n. run_sum ev_diff_pps (take n (gr_rate_events g))) ` {..length (gr_rate_events g)})"
    "gr_max_bps g = Max ((\<lambda>n. run_sum ev_diff_bps (take n (gr_rate_events g))) ` {..length (gr_rate_events g)})"
    using event_rates_eq [OF er] by blast+
  note p = peak_rate [OF w(1) ends ev m(1)] and b = peak_rate [OF w(2) ends ev m(2)]
  have "(\<forall>t. rate_at s_pps ?trs t \<le> gr_max_pps g \<and> rate_at get_bps ?trs t \<le> gr_max_bps g) \<and>
     (distinct (map ev_time (gr_rate_events g)) \<longrightarrow>
       (gr_max_pps g = 0 \<or> (\<exists>t. rate_at s_pps ?trs t = gr_max_pps g)) \<and>
       (gr_max_bps g = 0 \<or> (\<exists>t. rate_at get_bps ?trs t = gr_max_bps g)))"
    using p(1) b(1) p(2) b(2) by blast
  then show ?thesis unfolding Let_def using ps by blast
qed

theorem graph_peak_rate_witness:
  "\<exists>g ps. graph_generate demo_streams = Inr g \<and>
     list_all2 (stream_chain (filter s_enabled demo_streams)) (root_ids demo_streams) ps \<and>
     rate_at s_pps (concat (map (transmissions 0) ps)) 700000 \<le> gr_max_pps g \<and> gr_max_pps g = 10"
proof -
  have "\<exists>g. graph_generate demo_streams = Inr g \<and> gr_max_pps g = 10"
    by (simp add: graph_generate_def demo_streams_def TrexStream_new_def hash_step_def generate_graph_for_one_root.simps
        TrexStreamsGraphObj_new_def add_rate_events_for_stream_def add_rate_events_for_stream_single_burst_def
        add_rate_events_for_stream_cont_def add_rate_event_def start_event_def stop_event_def graphobj_generate_def
        find_max_rate_def event_rates_def get_burst_length_usec_def Let_def)
  then obtain g where g: "graph_generate demo_streams = Inr g" "gr_max_pps g = 10" by blast
  have "\<forall>s\<in>set (filter s_enabled demo_streams). 0 < s_pps s" by (simp add: demo_streams_def TrexStream_new_def)
  from graph_peak_rate [OF g(1) this] g show ?thesis by (auto simp: Let_def)
qed

section \<open>When there is a graph\<close>

lemma walk_total:
  assumes "i \<in> fst ` set hash"
    and "\<forall>s\<in>snd ` set hash. s_next_stream_id s = - 1 \<or> word_of_int (s_next_stream_id s) \<in> fst ` set hash"
  shows "\<exists>g'. generate_graph_for_one_root hash visited i t g = Inr g'"
  using assms
proof (induction hash visited i t g rule: generate_graph_for_one_root.induct)
  case (1 hash visited i t g)
  obtain s where s: "map_of hash i = Some s"
    using "1.prems"(1) by (metis map_of_eq_None_iff option.exhaust)
  then have mem: "s \<in> snd ` set hash" by (force dest: map_of_SomeD)
  obtain t' g1 where ev: "add_rate_events_for_stream t s g = (t', g1)" by fastforce
  show ?case
    using "1.IH" [OF s refl ev [symmetric] refl] "1.prems"(2) mem unfolding walk_step [OF s ev] by auto
qed

lemma walk_events_grow:
  assumes "foldE (\<lambda>g r. generate_graph_for_one_root (streams_hash_of streams) {} r 0 g) TrexStreamsGraphObj_new rs = Inr g"
    and "rs \<noteq> []"
    and src: "\<forall>s\<in>set (filter s_enabled streams). s_type s \<noteq> stNONE \<and> (s_type s = stMULTI_BURST \<longrightarrow> 0 < s_num_bursts s)"
  shows "gr_rate_events g \<noteq> []"
proof -
  obtain ps where ps: "list_all2 (stream_chain (filter s_enabled streams)) rs ps"
    "gr_rate_events g = concat (map trans_events (concat (map (transmissions 0) ps)))"
    using walks_chains [OF assms(1)] by blast
  then obtain p qs where p: "ps = p # qs" "stream_chain (filter s_enabled streams) (hd rs) p"
    using assms(2) by (cases rs; cases ps) auto
  obtain s ss where sss: "p = s # ss" using p(2) by (cases p) (auto simp: stream_chain_def)
  have "s \<in> set (filter s_enabled streams)" using p(2) unfolding sss stream_chain_def by auto
  then have "s_type s \<noteq> stNONE" "s_type s = stMULTI_BURST \<Longrightarrow> 0 < unat (s_num_bursts s)"
    using src by (auto simp: unat_gt_0 word_gt_0)
  then have "transmissions 0 p \<noteq> []" unfolding sss by (cases "s_type s") (auto simp: Let_def)
  then show ?thesis unfolding ps(2) p(1) by (cases "transmissions 0 p") (auto simp: trans_events_def split: prod.splits)
qed

lemma reachable_root: "stream_reachable en i \<Longrightarrow> filter s_self_start en \<noteq> []"
  by (induction rule: stream_reachable.induct) (auto simp: filter_empty_conv)



end
