(* ===== verification/Stateless_Port.thy ===== *)
theory Stateless_Port
  imports Streams_Graph
begin

text \<open>
  A port of the control plane (\<open>stateless/cp/trex_stateless_port.cpp\<close>, \<open>.h\<close>), the events it
  awaits from the data path (\<open>trex_dp_port_events.cpp\<close>) and the messages it sends to the cores
  (\<open>stateless/messaging\<close>).

  A handler takes the state of the control plane: the port, one FIFO ring per core and the list of
  what was published.  An exception of the program, a failing \<open>assert\<close>, an access outside of a
  vector and a division by zero (which would go on with an infinite factor) are values of
  \<open>port_err\<close>.  Rates, factors and times are rationals; the texts of errors and JSON data are left out.
  A command that throws leaves the state as it was, up to the cached rate graph, which is a function of the table.
\<close>

section \<open>Owner\<close>

datatype port_err =
    PeState
  | PeOwnedBySession
  | PeTaken string
  | PeCompile sc_err
  | PeGraph gr_err
  | PePauseContinuous
  | PePauseDuration
  | PeBelowZero
  | PeNoStreams
  | PeBadType string
  | PeBadOp string
  | PeNotFinite
  | PeUndefined

record TrexPortOwner =
  o_is_free :: bool
  o_owner_name :: string
  o_handler :: string

definition TrexPortOwner_new :: TrexPortOwner where
  "TrexPortOwner_new = \<lparr>o_is_free = True, o_owner_name = [], o_handler = []\<rparr>"

definition alphanum :: string where
  "alphanum = ''0123456789ABCDEFGHIJKLMNOPQRSTUVWXYZabcdefghijklmnopqrstuvwxyz''"

text \<open>\<open>rand\<close> gives the value of each call of the C library's generator.\<close>

definition generate_handler :: "(nat \<Rightarrow> nat) \<Rightarrow> string" where
  "generate_handler rand = map (\<lambda>i. alphanum ! (rand i mod length alphanum)) [0..<8]"

definition owner_release :: "TrexPortOwner \<Rightarrow> TrexPortOwner" where
  "owner_release o1 = o1\<lparr>o_is_free := True, o_owner_name := [], o_handler := []\<rparr>"

definition is_owned_by :: "string \<Rightarrow> TrexPortOwner \<Rightarrow> bool" where
  "is_owned_by user o1 \<longleftrightarrow> \<not> o_is_free o1 \<and> o_owner_name o1 = user"

definition owner_own :: "(nat \<Rightarrow> nat) \<Rightarrow> string \<Rightarrow> TrexPortOwner \<Rightarrow> TrexPortOwner" where
  "owner_own rand owner_name o1 =
     o1\<lparr>o_owner_name := owner_name, o_handler := generate_handler rand, o_is_free := False\<rparr>"

definition owner_verify :: "string \<Rightarrow> TrexPortOwner \<Rightarrow> bool" where
  "owner_verify handler o1 \<longleftrightarrow> \<not> o_is_free o1 \<and> o_handler o1 = handler"

definition owner_get_name :: "TrexPortOwner \<Rightarrow> string" where
  "owner_get_name o1 = (if \<not> o_is_free o1 then o_owner_name o1 else ''<FREE>'')"

definition owner_get_handler :: "TrexPortOwner \<Rightarrow> string" where
  "owner_get_handler o1 = (if \<not> o_is_free o1 then o_handler o1 else [])"

section \<open>Events from the data path\<close>

text \<open>The table of events has two entries: entry 1 is \<open>EVENT_STOP\<close>.\<close>

definition EVENT_STOP :: nat where "EVENT_STOP = 1"
definition EVENT_MAX :: nat where "EVENT_MAX = 2"
definition EVENT_ID_INVALID :: int where "EVENT_ID_INVALID = - 1"

record TrexDpPortEvent =
  de_signal :: "(nat \<times> bool) list"
  de_pending_cnt :: int
  de_event_id :: int
  de_expire_limit_ms :: int

record TrexDpPortEvents =
  dv_events :: "TrexDpPortEvent list"
  dv_event_id_counter :: int

datatype event_status_e = EVENT_DISABLE | EVENT_PENDING | EVENT_TIMED_OUT | EVENT_OCCURED

definition event_disable :: "TrexDpPortEvent \<Rightarrow> TrexDpPortEvent" where
  "event_disable e = e\<lparr>de_event_id := EVENT_ID_INVALID\<rparr>"

definition event_create :: "nat list \<Rightarrow> TrexDpPortEvent \<Rightarrow> TrexDpPortEvent" where
  "event_create cores e = event_disable (e\<lparr>de_signal := map (\<lambda>c. (c, False)) cores\<rparr>)"

definition event_wait_for_event :: "int \<Rightarrow> int \<Rightarrow> int \<Rightarrow> TrexDpPortEvent \<Rightarrow> TrexDpPortEvent" where
  "event_wait_for_event now event_id timeout_ms e =
     e\<lparr>de_event_id := event_id,
       de_expire_limit_ms := (if timeout_ms > 0 then now + timeout_ms else - 1),
       de_signal := map (\<lambda>(c, _). (c, False)) (de_signal e),
       de_pending_cnt := int (length (de_signal e))\<rparr>"

definition event_status :: "int \<Rightarrow> TrexDpPortEvent \<Rightarrow> event_status_e" where
  "event_status now e =
     (if de_event_id e = EVENT_ID_INVALID then EVENT_DISABLE
      else if de_pending_cnt e = 0 then EVENT_OCCURED
      else if de_expire_limit_ms e > 0 \<and> now > de_expire_limit_ms e then EVENT_TIMED_OUT
      else EVENT_PENDING)"

definition event_is_active :: "int \<Rightarrow> TrexDpPortEvent \<Rightarrow> bool" where
  "event_is_active now e \<longleftrightarrow> event_status now e \<noteq> EVENT_DISABLE"

definition has_timeout_expired :: "int \<Rightarrow> TrexDpPortEvent \<Rightarrow> bool" where
  "has_timeout_expired now e \<longleftrightarrow> event_status now e = EVENT_TIMED_OUT"

text \<open>
  A signal of a core: the result tells whether the event has now occurred.  \<open>m_signal.at\<close> throws for
  a core that is not of the port.
\<close>

definition event_handle_event :: "int \<Rightarrow> nat \<Rightarrow> int \<Rightarrow> TrexDpPortEvent \<Rightarrow> port_err + (bool \<times> TrexDpPortEvent)" where
  "event_handle_event now thread_id event_id e =
     (if \<not> event_is_active now e then Inr (False, e)
      else if event_id \<noteq> de_event_id e then Inr (False, e)
      else case map_of (de_signal e) thread_id of
          None \<Rightarrow> Inl PeUndefined
        | Some signalled \<Rightarrow>
            let e1 = (if signalled then e
                      else e\<lparr>de_signal := AList.update thread_id True (de_signal e), de_pending_cnt := de_pending_cnt e - 1\<rparr>)
            in if de_pending_cnt e1 = 0 then Inr (True, e1\<lparr>de_event_id := EVENT_ID_INVALID\<rparr>) else Inr (False, e1))"

definition events_create :: "nat list \<Rightarrow> TrexDpPortEvents \<Rightarrow> TrexDpPortEvents" where
  "events_create cores v = v\<lparr>dv_events := map (event_create cores) (dv_events v), dv_event_id_counter := EVENT_ID_INVALID\<rparr>"

definition generate_event_id :: "TrexDpPortEvents \<Rightarrow> int \<times> TrexDpPortEvents" where
  "generate_event_id v = (let i = dv_event_id_counter v + 1 in (i, v\<lparr>dv_event_id_counter := i\<rparr>))"

definition events_disable :: "nat \<Rightarrow> TrexDpPortEvents \<Rightarrow> TrexDpPortEvents" where
  "events_disable ev v = v\<lparr>dv_events := (dv_events v)[ev := event_disable (dv_events v ! ev)]\<rparr>"

definition events_wait_for_event :: "int \<Rightarrow> nat \<Rightarrow> int \<Rightarrow> int \<Rightarrow> TrexDpPortEvents \<Rightarrow> TrexDpPortEvents" where
  "events_wait_for_event now ev event_id timeout_ms v =
     (let evs = map event_disable (dv_events v)
      in v\<lparr>dv_events := evs[ev := event_wait_for_event now event_id timeout_ms (evs ! ev)]\<rparr>)"

section \<open>Messages\<close>

datatype cp_to_dp_msg =
    TrexStatelessDpStart u8 int TrexStreamsCompiledObj rat
  | TrexStatelessDpStop u8 bool int
  | TrexStatelessDpPause u8
  | TrexStatelessDpResume u8
  | TrexStatelessDpUpdate u8 rat

definition TrexStatelessDpStop_new :: "u8 \<Rightarrow> cp_to_dp_msg" where
  "TrexStatelessDpStop_new port_id = TrexStatelessDpStop port_id False 0"

fun msg_clone :: "cp_to_dp_msg \<Rightarrow> cp_to_dp_msg" where
  "msg_clone (TrexStatelessDpStart port_id event_id obj duration) =
     TrexStatelessDpStart port_id event_id (compiled_clone obj) duration"
| "msg_clone msg = msg"

section \<open>The port\<close>

datatype port_state_e = PORT_STATE_DOWN | PORT_STATE_IDLE | PORT_STATE_STREAMS | PORT_STATE_TX | PORT_STATE_PAUSE

datatype driver_speed_e = SPEED_INVALID | SPEED_1G | SPEED_10G | SPEED_40G

datatype mul_type_e = MUL_FACTOR | MUL_BPS | MUL_PPS | MUL_PERCENTAGE

datatype mul_op_e = OP_ABS | OP_ADD | OP_SUB

record TrexPortMultiplier =
  mul_type :: mul_type_e
  mul_op :: mul_op_e
  mul_value :: rat

definition TrexPortMultiplier_new :: "string \<Rightarrow> string \<Rightarrow> rat \<Rightarrow> port_err + TrexPortMultiplier" where
  "TrexPortMultiplier_new type_str op_str val =
     bindE (if type_str = ''raw'' then Inr MUL_FACTOR
            else if type_str = ''bps'' then Inr MUL_BPS
            else if type_str = ''pps'' then Inr MUL_PPS
            else if type_str = ''percentage'' then Inr MUL_PERCENTAGE
            else Inl (PeBadType type_str)) (\<lambda>type.
     bindE (if op_str = ''abs'' then Inr OP_ABS
            else if op_str = ''add'' then Inr OP_ADD
            else if op_str = ''sub'' then Inr OP_SUB
            else Inl (PeBadOp op_str)) (\<lambda>op1.
     Inr \<lparr>mul_type = type, mul_op = op1, mul_value = val\<rparr>))"

record TrexStatelessPort =
  po_stream_table :: TrexStreamTable
  po_port_id :: u8
  po_state :: port_state_e
  po_speed :: driver_speed_e
  po_cores_id_list :: "nat list"
  po_last_all_streams_continues :: bool
  po_last_duration :: rat
  po_factor :: rat
  po_dp_events :: TrexDpPortEvents
  po_graph_obj :: "TrexStreamsGraphObj option"
  po_owner :: TrexPortOwner

datatype pub_event = EVENT_PORT_STARTED | EVENT_PORT_STOPPED | EVENT_PORT_PAUSED | EVENT_PORT_RESUMED
  | EVENT_PORT_FINISHED_TX | EVENT_PORT_FORCE_ACQUIRED

record control_plane =
  cp_port :: TrexStatelessPort
  cp_to_dp :: "nat \<Rightarrow> cp_to_dp_msg list"
  cp_published :: "(pub_event \<times> u8) list"

definition TrexStatelessPort_new :: "u8 \<Rightarrow> nat list \<Rightarrow> TrexStatelessPort \<Rightarrow> TrexStatelessPort" where
  "TrexStatelessPort_new port_id cores p =
     p\<lparr>po_port_id := port_id, po_state := PORT_STATE_IDLE, po_cores_id_list := cores,
       po_dp_events := events_create cores (po_dp_events p), po_graph_obj := None,
       po_stream_table := [], po_owner := TrexPortOwner_new\<rparr>"

definition get_dp_core_count :: "TrexStatelessPort \<Rightarrow> u8" where
  "get_dp_core_count p = of_nat (length (po_cores_id_list p))"

text \<open>The mask of allowed states is the set of its bits.\<close>

definition verify_state :: "port_state_e set \<Rightarrow> TrexStatelessPort \<Rightarrow> port_err + unit" where
  "verify_state states p = (if po_state p \<notin> states then Inl PeState else Inr ())"

definition change_state :: "port_state_e \<Rightarrow> TrexStatelessPort \<Rightarrow> TrexStatelessPort" where
  "change_state new_state p = p\<lparr>po_state := new_state\<rparr>"

definition delete_streams_graph :: "TrexStatelessPort \<Rightarrow> TrexStatelessPort" where
  "delete_streams_graph p = p\<lparr>po_graph_obj := None\<rparr>"

definition generate_streams_graph :: "TrexStatelessPort \<Rightarrow> port_err + TrexStatelessPort" where
  "generate_streams_graph p =
     (case graph_generate (get_object_list (po_stream_table p)) of
        Inl e \<Rightarrow> Inl (PeGraph e)
      | Inr g \<Rightarrow> Inr ((delete_streams_graph p)\<lparr>po_graph_obj := Some g\<rparr>))"

definition publish_event :: "pub_event \<Rightarrow> control_plane \<Rightarrow> control_plane" where
  "publish_event ev cp = cp\<lparr>cp_published := cp_published cp @ [(ev, po_port_id (cp_port cp))]\<rparr>"

text \<open>
  A ring of 1024 slots holds 1023 messages.  The result of \<open>Enqueue\<close> is not looked at: a message for
  a full ring is lost.
\<close>

definition RING_CAPACITY :: nat where "RING_CAPACITY = 1023"

definition send_message_to_dp :: "nat \<Rightarrow> cp_to_dp_msg \<Rightarrow> control_plane \<Rightarrow> control_plane" where
  "send_message_to_dp core_id msg cp =
     (if length (cp_to_dp cp core_id) < RING_CAPACITY
      then cp\<lparr>cp_to_dp := (cp_to_dp cp)(core_id := cp_to_dp cp core_id @ [msg])\<rparr> else cp)"

definition send_message_to_all_dp :: "cp_to_dp_msg \<Rightarrow> control_plane \<Rightarrow> control_plane" where
  "send_message_to_all_dp msg cp =
     foldl (\<lambda>c core_id. send_message_to_dp core_id (msg_clone msg) c) cp (po_cores_id_list (cp_port cp))"

definition get_port_speed_bps :: "TrexStatelessPort \<Rightarrow> nat" where
  "get_port_speed_bps p = (case po_speed p of
       SPEED_1G \<Rightarrow> 1 * 1000 * 1000 * 1000
     | SPEED_10G \<Rightarrow> 10 * 1000 * 1000 * 1000
     | SPEED_40G \<Rightarrow> 40 * 1000 * 1000 * 1000
     | SPEED_INVALID \<Rightarrow> 0)"

definition fdiv :: "rat \<Rightarrow> rat \<Rightarrow> port_err + rat" where
  "fdiv a b = (if b = 0 then Inl PeNotFinite else Inr (a / b))"

definition calculate_effective_factor ::
  "TrexPortMultiplier \<Rightarrow> TrexStatelessPort \<Rightarrow> port_err + (TrexStatelessPort \<times> rat)" where
  "calculate_effective_factor mul p =
     (if mul_type mul = MUL_FACTOR then Inr (p, mul_value mul)
      else bindE (if po_graph_obj p = None then generate_streams_graph p else Inr p) (\<lambda>p'.
        bindE (liftE PeUndefined (po_graph_obj p')) (\<lambda>g.
        bindE (case mul_type mul of
                 MUL_BPS \<Rightarrow> fdiv (mul_value mul) (gr_max_bps g)
               | MUL_PPS \<Rightarrow> fdiv (mul_value mul) (gr_max_pps g)
               | MUL_PERCENTAGE \<Rightarrow>
                   (if mul_op mul = OP_ABS
                    then fdiv (mul_value mul / 100 * of_nat (get_port_speed_bps p')) (gr_max_bps g)
                    else Inr (po_factor p' * (mul_value mul / 100)))
               | MUL_FACTOR \<Rightarrow> Inl PeUndefined) (\<lambda>factor. Inr (p', factor)))))"

section \<open>Commands\<close>

definition port_acquire :: "(nat \<Rightarrow> nat) \<Rightarrow> string \<Rightarrow> bool \<Rightarrow> control_plane \<Rightarrow> port_err + control_plane" where
  "port_acquire rand user force cp =
     (let p = cp_port cp; own = cp\<lparr>cp_port := p\<lparr>po_owner := owner_own rand user (po_owner p)\<rparr>\<rparr> in
      if o_is_free (po_owner p) then Inr own
      else if force then Inr (publish_event EVENT_PORT_FORCE_ACQUIRED own)
      else if owner_get_name (po_owner p) = user then Inl PeOwnedBySession
      else Inl (PeTaken (owner_get_name (po_owner p))))"

definition port_release :: "control_plane \<Rightarrow> control_plane" where
  "port_release cp = cp\<lparr>cp_port := (cp_port cp)\<lparr>po_owner := owner_release (po_owner (cp_port cp))\<rparr>\<rparr>"

definition port_add_stream :: "TrexStream \<Rightarrow> TrexStatelessPort \<Rightarrow> port_err + TrexStatelessPort" where
  "port_add_stream s p =
     bindE (verify_state {PORT_STATE_IDLE, PORT_STATE_STREAMS} p) (\<lambda>_.
     Inr (change_state PORT_STATE_STREAMS
       (delete_streams_graph (p\<lparr>po_stream_table := table_add_stream s (po_stream_table p)\<rparr>))))"

definition port_remove_stream :: "TrexStream \<Rightarrow> TrexStatelessPort \<Rightarrow> port_err + TrexStatelessPort" where
  "port_remove_stream s p =
     bindE (verify_state {PORT_STATE_STREAMS} p) (\<lambda>_.
     let p1 = delete_streams_graph (p\<lparr>po_stream_table := table_remove_stream s (po_stream_table p)\<rparr>)
     in Inr (if table_size (po_stream_table p1) = 0 then change_state PORT_STATE_IDLE p1 else p1))"

definition port_remove_all_streams :: "TrexStatelessPort \<Rightarrow> port_err + TrexStatelessPort" where
  "port_remove_all_streams p =
     bindE (verify_state {PORT_STATE_IDLE, PORT_STATE_STREAMS} p) (\<lambda>_.
     Inr (change_state PORT_STATE_IDLE
       (delete_streams_graph (p\<lparr>po_stream_table := remove_and_delete_all_streams (po_stream_table p)\<rparr>))))"

definition compile_table ::
  "(nat \<Rightarrow> nat \<Rightarrow> u32) \<Rightarrow> rat \<Rightarrow> TrexStatelessPort \<Rightarrow> port_err + TrexStreamsCompiledObj list" where
  "compile_table rand factor p =
     (case compile_internal rand (po_port_id p) (get_object_list (po_stream_table p)) (get_dp_core_count p) factor of
        Inl e \<Rightarrow> Inl (PeCompile e)
      | Inr (objs, warnings) \<Rightarrow> Inr objs)"

text \<open>
  The port is updated before the messages go out.  \<open>compiled_objs[0]\<close> and
  \<open>compiled_objs[index]\<close> need an object per core.
\<close>

definition port_start_traffic ::
  "(nat \<Rightarrow> nat \<Rightarrow> u32) \<Rightarrow> int \<Rightarrow> TrexPortMultiplier \<Rightarrow> rat \<Rightarrow> control_plane \<Rightarrow> port_err + control_plane" where
  "port_start_traffic rand now mul duration cp =
     bindE (verify_state {PORT_STATE_STREAMS} (cp_port cp)) (\<lambda>_.
     bindE (assertE PeUndefined (mul_op mul = OP_ABS)) (\<lambda>_.
     bindE (calculate_effective_factor mul (delete_streams_graph (cp_port cp))) (\<lambda>(p, factor).
     bindE (compile_table rand factor p) (\<lambda>compiled_objs.
     bindE (assertE PeUndefined (compiled_objs \<noteq> [] \<and> length compiled_objs = length (po_cores_id_list p))) (\<lambda>_.
     let (event_id, v) = generate_event_id (po_dp_events p);
         p1 = p\<lparr>po_dp_events := events_wait_for_event now EVENT_STOP event_id (- 1) v, po_factor := factor,
                po_last_all_streams_continues := co_all_continues (hd compiled_objs),
                po_last_duration := duration\<rparr>;
         cp1 = cp\<lparr>cp_port := change_state PORT_STATE_TX p1\<rparr>
     in Inr (publish_event EVENT_PORT_STARTED
          (foldl (\<lambda>c (core_id, obj). send_message_to_dp core_id (TrexStatelessDpStart (po_port_id p) event_id obj duration) c)
             cp1 (zip (po_cores_id_list p) compiled_objs))))))))"

definition port_stop_traffic_cp :: "control_plane \<Rightarrow> control_plane" where
  "port_stop_traffic_cp cp =
     (let p = cp_port cp in
      if \<not> (po_state p = PORT_STATE_TX \<or> po_state p = PORT_STATE_PAUSE) then cp
      else let p1 = delete_streams_graph p;
               cp1 = cp\<lparr>cp_port := p1\<lparr>po_dp_events := events_disable EVENT_STOP (po_dp_events p1)\<rparr>\<rparr>;
               cp2 = send_message_to_all_dp (TrexStatelessDpStop_new (po_port_id p)) cp1
           in publish_event EVENT_PORT_STOPPED (cp2\<lparr>cp_port := change_state PORT_STATE_STREAMS (cp_port cp2)\<rparr>))"

definition port_pause_traffic_cp :: "control_plane \<Rightarrow> port_err + control_plane" where
  "port_pause_traffic_cp cp =
     bindE (verify_state {PORT_STATE_TX} (cp_port cp)) (\<lambda>_.
     if \<not> po_last_all_streams_continues (cp_port cp) then Inl PePauseContinuous
     else if po_last_duration (cp_port cp) > 0 then Inl PePauseDuration
     else let cp1 = send_message_to_all_dp (TrexStatelessDpPause (po_port_id (cp_port cp))) cp
          in Inr (publish_event EVENT_PORT_PAUSED (cp1\<lparr>cp_port := change_state PORT_STATE_PAUSE (cp_port cp1)\<rparr>)))"

definition port_resume_traffic_cp :: "control_plane \<Rightarrow> port_err + control_plane" where
  "port_resume_traffic_cp cp =
     bindE (verify_state {PORT_STATE_PAUSE} (cp_port cp)) (\<lambda>_.
     let cp1 = send_message_to_all_dp (TrexStatelessDpResume (po_port_id (cp_port cp))) cp
     in Inr (publish_event EVENT_PORT_RESUMED (cp1\<lparr>cp_port := change_state PORT_STATE_TX (cp_port cp1)\<rparr>)))"

definition update_factor :: "mul_op_e \<Rightarrow> rat \<Rightarrow> rat \<Rightarrow> port_err + rat" where
  "update_factor op1 new_factor cur = (case op1 of
       OP_ABS \<Rightarrow> fdiv new_factor cur
     | OP_ADD \<Rightarrow> fdiv (cur + new_factor) cur
     | OP_SUB \<Rightarrow> bindE (fdiv (cur - new_factor) cur) (\<lambda>f. if f \<le> 0 then Inl PeBelowZero else Inr f))"

definition port_update_traffic_cp :: "TrexPortMultiplier \<Rightarrow> control_plane \<Rightarrow> port_err + control_plane" where
  "port_update_traffic_cp mul cp =
     bindE (verify_state {PORT_STATE_TX, PORT_STATE_PAUSE} (cp_port cp)) (\<lambda>_.
     bindE (calculate_effective_factor mul (cp_port cp)) (\<lambda>(p, new_factor).
     bindE (update_factor (mul_op mul) new_factor (po_factor p)) (\<lambda>factor.
     let cp1 = send_message_to_all_dp (TrexStatelessDpUpdate (po_port_id p) factor) (cp\<lparr>cp_port := p\<rparr>)
     in Inr (cp1\<lparr>cp_port := (cp_port cp1)\<lparr>po_factor := po_factor p * factor\<rparr>\<rparr>))))"

definition port_validate ::
  "(nat \<Rightarrow> nat \<Rightarrow> u32) \<Rightarrow> TrexStatelessPort \<Rightarrow> port_err + (TrexStatelessPort \<times> TrexStreamsGraphObj)" where
  "port_validate rand p =
     (if table_size (po_stream_table p) = 0 then Inl PeNoStreams
      else bindE (compile_table rand 1 p) (\<lambda>_.
        bindE (if po_graph_obj p = None then generate_streams_graph p else Inr p) (\<lambda>p'.
        bindE (liftE PeUndefined (po_graph_obj p')) (\<lambda>g. Inr (p', g)))))"

definition on_dp_event_occured :: "nat \<Rightarrow> control_plane \<Rightarrow> port_err + control_plane" where
  "on_dp_event_occured ev cp =
     (if ev = EVENT_STOP
      then Inr (publish_event EVENT_PORT_FINISHED_TX (cp\<lparr>cp_port := change_state PORT_STATE_STREAMS (cp_port cp)\<rparr>))
      else Inl PeUndefined)"

text \<open>A message of a core: an event of the port.\<close>

definition port_handle_event :: "int \<Rightarrow> nat \<Rightarrow> nat \<Rightarrow> int \<Rightarrow> control_plane \<Rightarrow> port_err + control_plane" where
  "port_handle_event now ev thread_id event_id cp =
     (let p = cp_port cp; v = po_dp_events p in
      bindE (event_handle_event now thread_id event_id (dv_events v ! ev)) (\<lambda>(occured, e).
      let cp1 = cp\<lparr>cp_port := p\<lparr>po_dp_events := v\<lparr>dv_events := (dv_events v)[ev := e]\<rparr>\<rparr>\<rparr>
      in if occured then on_dp_event_occured ev cp1 else Inr cp1))"

end
