(* ===== verification/Stateless_Dp.thy ===== *)
theory Stateless_Dp
  imports Trex_Stream
begin

text \<open>
  The stateless data path of one core: stream nodes (\<open>trex_stream_node.h\<close>), the per-port traffic
  state and the core's handlers (\<open>trex_stateless_dp_core.h/.cpp\<close>), and the scheduler's treatment of
  stream nodes (\<open>bp_sim.cpp\<close>).

  Node objects live in a store from node numbers to records; a pointer is a number and freeing a
  node removes it.  The scheduler's priority queue is the list of scheduled nodes, \<open>send_node\<close> is
  recorded in a log, and messages to the control plane in another.  A failed \<open>assert\<close> and a use of
  a freed node is \<open>None\<close>.  Times are rationals; the rounding of \<open>double\<close> is not modelled.
\<close>

section \<open>Stream nodes\<close>

datatype stream_state_t = ss_FREE_RESUSE | ss_INACTIVE | ss_ACTIVE

record CGenNodeStateless =
  n_time :: rat
  n_next_time_offset :: rat
  n_ibg_sec :: rat
  n_state :: stream_state_t
  n_port_id :: u8
  n_stream_type :: stream_type_t
  n_pause :: bool
  n_single_burst :: u32
  n_single_burst_refill :: u32
  n_multi_bursts :: u32
  n_ref_stream_info :: "TrexStream option"
  n_next_stream :: "nat option"

definition update_rate :: "rat \<Rightarrow> CGenNodeStateless \<Rightarrow> CGenNodeStateless" where
  "update_rate factor n = n\<lparr>n_next_time_offset := n_next_time_offset n / factor\<rparr>"

definition update_refresh_time :: "rat \<Rightarrow> CGenNodeStateless \<Rightarrow> CGenNodeStateless option" where
  "update_refresh_time cur_time n = (case n_ref_stream_info n of
       None \<Rightarrow> None
     | Some s \<Rightarrow> Some (n\<lparr>n_time := cur_time + usec_to_sec (s_isg_usec s)\<rparr>))"

definition is_mask_for_free :: "CGenNodeStateless \<Rightarrow> bool" where
  "is_mask_for_free n \<longleftrightarrow> n_state n = ss_FREE_RESUSE"

definition mark_for_free :: "CGenNodeStateless \<Rightarrow> CGenNodeStateless" where
  "mark_for_free n = n\<lparr>n_state := ss_FREE_RESUSE, n_ref_stream_info := None, n_next_stream := None\<rparr>"

definition set_pause :: "bool \<Rightarrow> CGenNodeStateless \<Rightarrow> CGenNodeStateless" where
  "set_pause enable n = n\<lparr>n_pause := enable\<rparr>"

definition refresh :: "CGenNodeStateless \<Rightarrow> CGenNodeStateless option" where
  "refresh n = (case n_ref_stream_info n of
       None \<Rightarrow> None
     | Some s \<Rightarrow> Some (n\<lparr>n_single_burst := n_single_burst_refill n, n_multi_bursts := s_num_bursts s,
                       n_state := ss_ACTIVE\<rparr>))"

section \<open>Ports and the core\<close>

datatype pp_state_e = ppSTATE_IDLE | ppSTATE_TRANSMITTING | ppSTATE_PAUSE

record TrexStatelessDpPerPort =
  pp_state :: pp_state_e
  pp_port_id :: u8
  pp_active_streams :: u32
  pp_active_nodes :: "nat list"
  pp_event_id :: int

datatype core_state_e = STATE_IDLE | STATE_TRANSMITTING | STATE_TERMINATE

record TrexStatelessDpCore =
  c_local_port_offset :: u8
  c_state :: core_state_e
  c_ports :: "nat \<Rightarrow> TrexStatelessDpPerPort"
  c_nodes :: "nat \<rightharpoonup> CGenNodeStateless"
  c_next_node :: nat
  c_queue :: "nat list"
  c_cur_time_sec :: rat
  c_sent :: "nat list"
  c_events :: "(u8 \<times> int) list"
  c_stop_cmds :: "(rat \<times> u8 \<times> int) list"

definition NUM_PORTS_PER_CORE :: nat where "NUM_PORTS_PER_CORE = 2"

definition put_node :: "nat \<Rightarrow> CGenNodeStateless \<Rightarrow> TrexStatelessDpCore \<Rightarrow> TrexStatelessDpCore" where
  "put_node i n c = c\<lparr>c_nodes := (c_nodes c)(i \<mapsto> n)\<rparr>"

definition free_node :: "nat \<Rightarrow> TrexStatelessDpCore \<Rightarrow> TrexStatelessDpCore" where
  "free_node i c = c\<lparr>c_nodes := (c_nodes c)(i := None)\<rparr>"

definition put_port :: "nat \<Rightarrow> TrexStatelessDpPerPort \<Rightarrow> TrexStatelessDpCore \<Rightarrow> TrexStatelessDpCore" where
  "put_port k p c = c\<lparr>c_ports := (c_ports c)(k := p)\<rparr>"

definition pq_push :: "nat \<Rightarrow> TrexStatelessDpCore \<Rightarrow> TrexStatelessDpCore" where
  "pq_push i c = c\<lparr>c_queue := i # c_queue c\<rparr>"

definition pq_pop :: "nat \<Rightarrow> TrexStatelessDpCore \<Rightarrow> TrexStatelessDpCore" where
  "pq_pop i c = c\<lparr>c_queue := remove1 i (c_queue c)\<rparr>"

definition send_node :: "nat \<Rightarrow> TrexStatelessDpCore \<Rightarrow> TrexStatelessDpCore" where
  "send_node i c = c\<lparr>c_sent := i # c_sent c\<rparr>"

definition port_create :: "TrexStatelessDpPerPort \<Rightarrow> TrexStatelessDpPerPort" where
  "port_create p = p\<lparr>pp_state := ppSTATE_IDLE, pp_port_id := 0, pp_active_streams := 0, pp_active_nodes := []\<rparr>"

definition core_create :: "u8 \<Rightarrow> TrexStatelessDpCore \<Rightarrow> TrexStatelessDpCore" where
  "core_create dual_port_id c =
     c\<lparr>c_local_port_offset := 2 * dual_port_id, c_state := STATE_IDLE,
       c_ports := (\<lambda>k. if k < NUM_PORTS_PER_CORE then port_create (c_ports c k) else c_ports c k)\<rparr>"

definition get_port_db :: "TrexStatelessDpCore \<Rightarrow> u8 \<Rightarrow> nat option" where
  "get_port_db c port_id =
     (if c_local_port_offset c = port_id \<or> unat (c_local_port_offset c) + 1 = unat port_id
      then let local_port_id = port_id - c_local_port_offset c
           in if unat local_port_id < NUM_PORTS_PER_CORE then Some (unat local_port_id) else None
      else None)"

definition update_number_of_active_streams ::
  "u32 \<Rightarrow> TrexStatelessDpPerPort \<Rightarrow> bool \<times> TrexStatelessDpPerPort" where
  "update_number_of_active_streams d p =
     (let p' = p\<lparr>pp_active_streams := pp_active_streams p - d\<rparr> in (pp_active_streams p' = 0, p'))"

section \<open>Pause, resume, update\<close>

text \<open>The loops over the nodes of a port: each node is checked and changed in turn.\<close>

fun each_node ::
  "(CGenNodeStateless \<Rightarrow> bool) \<Rightarrow> (CGenNodeStateless \<Rightarrow> CGenNodeStateless) \<Rightarrow> nat list \<Rightarrow>
     TrexStatelessDpCore \<Rightarrow> TrexStatelessDpCore option" where
  "each_node ok f [] c = Some c"
| "each_node ok f (i # is) c = (case c_nodes c i of
       None \<Rightarrow> None
     | Some n \<Rightarrow> if ok n then each_node ok f is (put_node i (f n) c) else None)"

definition port_pause_traffic :: "nat \<Rightarrow> u8 \<Rightarrow> TrexStatelessDpCore \<Rightarrow> TrexStatelessDpCore option" where
  "port_pause_traffic k port_id c =
     (let p = c_ports c k in
      if pp_state p = ppSTATE_TRANSMITTING
      then map_option (\<lambda>c'. put_port k (p\<lparr>pp_state := ppSTATE_PAUSE\<rparr>) c')
             (each_node (\<lambda>n. n_port_id n = port_id \<and> \<not> n_pause n) (set_pause True) (pp_active_nodes p) c)
      else None)"

definition port_resume_traffic :: "nat \<Rightarrow> u8 \<Rightarrow> TrexStatelessDpCore \<Rightarrow> TrexStatelessDpCore option" where
  "port_resume_traffic k port_id c =
     (let p = c_ports c k in
      if pp_state p = ppSTATE_PAUSE
      then map_option (\<lambda>c'. put_port k (p\<lparr>pp_state := ppSTATE_TRANSMITTING\<rparr>) c')
             (each_node (\<lambda>n. n_port_id n = port_id \<and> n_pause n) (set_pause False) (pp_active_nodes p) c)
      else None)"

definition port_update_traffic :: "nat \<Rightarrow> u8 \<Rightarrow> rat \<Rightarrow> TrexStatelessDpCore \<Rightarrow> TrexStatelessDpCore option" where
  "port_update_traffic k port_id factor c =
     (let p = c_ports c k in
      if pp_state p = ppSTATE_TRANSMITTING \<or> pp_state p = ppSTATE_PAUSE
      then each_node (\<lambda>n. n_port_id n = port_id) (update_rate factor) (pp_active_nodes p) c
      else None)"

definition on_port ::
  "u8 \<Rightarrow> TrexStatelessDpCore \<Rightarrow> (nat \<Rightarrow> TrexStatelessDpCore option) \<Rightarrow> TrexStatelessDpCore option" where
  "on_port port_id c f = (case get_port_db c port_id of None \<Rightarrow> None | Some k \<Rightarrow> f k)"

definition pause_traffic :: "u8 \<Rightarrow> TrexStatelessDpCore \<Rightarrow> TrexStatelessDpCore option" where
  "pause_traffic port_id c = on_port port_id c (\<lambda>k. port_pause_traffic k port_id c)"

definition resume_traffic :: "u8 \<Rightarrow> TrexStatelessDpCore \<Rightarrow> TrexStatelessDpCore option" where
  "resume_traffic port_id c = on_port port_id c (\<lambda>k. port_resume_traffic k port_id c)"

definition update_traffic :: "u8 \<Rightarrow> rat \<Rightarrow> TrexStatelessDpCore \<Rightarrow> TrexStatelessDpCore option" where
  "update_traffic port_id factor c = on_port port_id c (\<lambda>k. port_update_traffic k port_id factor c)"

section \<open>Stop\<close>

fun stop_nodes :: "u8 \<Rightarrow> nat list \<Rightarrow> TrexStatelessDpCore \<times> u32 \<Rightarrow> (TrexStatelessDpCore \<times> u32) option" where
  "stop_nodes port_id [] s = Some s"
| "stop_nodes port_id (i # is) (c, active) = (case c_nodes c i of
       None \<Rightarrow> None
     | Some n \<Rightarrow>
         if n_port_id n = port_id then
           if n_state n = ss_ACTIVE
           then stop_nodes port_id is (put_node i (mark_for_free n) c, active - 1)
           else if n_state n = ss_INACTIVE then stop_nodes port_id is (free_node i c, active)
           else None
         else None)"

text \<open>\<open>Some (False, _)\<close> is the return value \<open>false\<close>: there was nothing to stop.\<close>

definition port_stop_traffic ::
  "nat \<Rightarrow> u8 \<Rightarrow> bool \<Rightarrow> int \<Rightarrow> TrexStatelessDpCore \<Rightarrow> (bool \<times> TrexStatelessDpCore) option" where
  "port_stop_traffic k port_id stop_on_id event_id c =
     (let p = c_ports c k in
      if pp_state p = ppSTATE_IDLE
      then (if pp_active_streams p = 0 then Some (False, c) else None)
      else if stop_on_id \<and> event_id \<noteq> pp_event_id p then Some (False, c)
      else case stop_nodes port_id (pp_active_nodes p) (c, pp_active_streams p) of
          None \<Rightarrow> None
        | Some (c', active) \<Rightarrow>
            if active = 0
            then Some (True, put_port k (p\<lparr>pp_active_streams := 0, pp_active_nodes := [],
                                          pp_state := ppSTATE_IDLE\<rparr>) c')
            else None)"

definition stop_traffic :: "u8 \<Rightarrow> bool \<Rightarrow> int \<Rightarrow> TrexStatelessDpCore \<Rightarrow> TrexStatelessDpCore option" where
  "stop_traffic port_id stop_on_id event_id c = on_port port_id c (\<lambda>k.
     case port_stop_traffic k port_id stop_on_id event_id c of
       None \<Rightarrow> None
     | Some (False, c') \<Rightarrow> Some c'
     | Some (True, c') \<Rightarrow>
         Some (c'\<lparr>c_events := c_events c' @ [(port_id, pp_event_id (c_ports c' k))]\<rparr>))"

definition are_all_ports_idle :: "TrexStatelessDpCore \<Rightarrow> bool" where
  "are_all_ports_idle c = list_all (\<lambda>k. pp_state (c_ports c k) = ppSTATE_IDLE) [0..<NUM_PORTS_PER_CORE]"

section \<open>Start\<close>

text \<open>The counters of a new node by stream type; an unknown type is \<open>assert(0)\<close>.\<close>

definition node_bursts :: "TrexStream \<Rightarrow> CGenNodeStateless \<Rightarrow> CGenNodeStateless option" where
  "node_bursts s n = (case s_type s of
       stCONTINUOUS \<Rightarrow> Some (n\<lparr>n_stream_type := stCONTINUOUS, n_single_burst := 0,
         n_single_burst_refill := 0, n_multi_bursts := 0, n_ibg_sec := 0\<rparr>)
     | stSINGLE_BURST \<Rightarrow> Some (n\<lparr>n_stream_type := stMULTI_BURST, n_single_burst := s_burst_total_pkts s,
         n_single_burst_refill := s_burst_total_pkts s, n_multi_bursts := 1, n_ibg_sec := 0\<rparr>)
     | stMULTI_BURST \<Rightarrow> Some (n\<lparr>n_stream_type := stMULTI_BURST, n_single_burst := s_burst_total_pkts s,
         n_single_burst_refill := s_burst_total_pkts s, n_multi_bursts := s_num_bursts s,
         n_ibg_sec := usec_to_sec (s_ibg_usec s)\<rparr>)
     | stNONE \<Rightarrow> None)"

definition new_stream_node :: "TrexStatelessDpCore \<Rightarrow> TrexStream \<Rightarrow> CGenNodeStateless option" where
  "new_stream_node c s = node_bursts s
     \<lparr>n_time = c_cur_time_sec c + usec_to_sec (s_isg_usec s), n_next_time_offset = 1 / s_pps s, n_ibg_sec = 0,
      n_state = (if s_self_start s then ss_ACTIVE else ss_INACTIVE), n_port_id = s_port_id s,
      n_stream_type = s_type s, n_pause = False, n_single_burst = 0, n_single_burst_refill = 0,
      n_multi_bursts = 0, n_ref_stream_info = Some (stream_clone s), n_next_stream = None\<rparr>"

definition add_stream :: "nat \<Rightarrow> TrexStream \<Rightarrow> TrexStatelessDpCore \<Rightarrow> TrexStatelessDpCore option" where
  "add_stream k s c = (case new_stream_node c s of
       None \<Rightarrow> None
     | Some n \<Rightarrow>
         let i = c_next_node c;
             p = c_ports c k;
             p1 = (if s_self_start s then p\<lparr>pp_active_streams := pp_active_streams p + 1\<rparr> else p);
             c1 = put_port k (p1\<lparr>pp_active_nodes := pp_active_nodes p1 @ [i]\<rparr>)
                    (put_node i n (c\<lparr>c_next_node := i + 1\<rparr>))
         in Some (if n_state n = ss_ACTIVE then pq_push i c1 else c1))"

fun add_streams :: "nat \<Rightarrow> u8 \<Rightarrow> TrexStream list \<Rightarrow> TrexStatelessDpCore \<Rightarrow> TrexStatelessDpCore option" where
  "add_streams k port_id [] c = Some c"
| "add_streams k port_id (s # ss) c =
     (if port_id = s_port_id s then
        (case add_stream k s c of None \<Rightarrow> None | Some c' \<Rightarrow> add_streams k port_id ss c')
      else None)"

fun link_streams :: "nat list \<Rightarrow> nat \<Rightarrow> TrexStream list \<Rightarrow> TrexStatelessDpCore \<Rightarrow> TrexStatelessDpCore option" where
  "link_streams nodes cnt [] c = Some c"
| "link_streams nodes cnt (s # ss) c =
     (if is_dp_next_stream s then
        if s_next_stream_id s < int (length nodes) \<and> cnt < length nodes then
          (case c_nodes c (nodes ! cnt) of
             None \<Rightarrow> None
           | Some n \<Rightarrow> link_streams nodes (cnt + 1) ss
               (put_node (nodes ! cnt) (n\<lparr>n_next_stream := Some (nodes ! nat (s_next_stream_id s))\<rparr>) c))
        else None
      else link_streams nodes (cnt + 1) ss c)"

definition add_port_duration :: "rat \<Rightarrow> u8 \<Rightarrow> int \<Rightarrow> TrexStatelessDpCore \<Rightarrow> TrexStatelessDpCore" where
  "add_port_duration duration port_id event_id c =
     (if duration > 0
      then c\<lparr>c_stop_cmds := (c_cur_time_sec c + duration, port_id, event_id) # c_stop_cmds c\<rparr> else c)"

definition start_traffic ::
  "u8 \<Rightarrow> TrexStream list \<Rightarrow> rat \<Rightarrow> int \<Rightarrow> TrexStatelessDpCore \<Rightarrow> TrexStatelessDpCore option" where
  "start_traffic port_id streams duration event_id c = on_port port_id c (\<lambda>k.
     let c1 = put_port k ((c_ports c k)\<lparr>pp_active_streams := 0, pp_event_id := event_id\<rparr>) c in
     if pp_active_nodes (c_ports c1 k) = [] then
       (case add_streams k port_id streams c1 of
          None \<Rightarrow> None
        | Some c2 \<Rightarrow>
            if length (pp_active_nodes (c_ports c2 k)) = length streams then
              map_option (\<lambda>c3.
                  add_port_duration duration port_id event_id
                    ((put_port k ((c_ports c3 k)\<lparr>pp_state := ppSTATE_TRANSMITTING\<rparr>) c3)
                       \<lparr>c_state := STATE_TRANSMITTING\<rparr>))
                (link_streams (pp_active_nodes (c_ports c2 k)) 0 streams c2)
            else None)
     else None)"

section \<open>Transmission of a stream node\<close>

definition set_stateless_next_node ::
  "nat \<Rightarrow> nat option \<Rightarrow> TrexStatelessDpCore \<Rightarrow> (bool \<times> TrexStatelessDpCore) option" where
  "set_stateless_next_node cur_node next_node c = (case c_nodes c cur_node of
       None \<Rightarrow> None
     | Some cur \<Rightarrow> (case get_port_db c (n_port_id cur) of
         None \<Rightarrow> None
       | Some k \<Rightarrow>
           let (zero, p') = update_number_of_active_streams 1 (c_ports c k);
               ended = (if zero then stop_traffic (n_port_id cur) False 0 (put_port k p' c)
                        else Some (put_port k p' c))
           in (case next_node of
                 None \<Rightarrow> map_option (\<lambda>c'. (False, c')) ended
               | Some nx \<Rightarrow> (case c_nodes c nx of
                   None \<Rightarrow> None
                 | Some nxt \<Rightarrow>
                     if n_state nxt = ss_FREE_RESUSE then None
                     else if n_state nxt = ss_INACTIVE
                     then map_option (\<lambda>n'. (True, put_node nx n' c)) (refresh nxt)
                     else map_option (\<lambda>c'. (False, c')) ended))))"

definition handle_continues :: "nat \<Rightarrow> TrexStatelessDpCore \<Rightarrow> TrexStatelessDpCore option" where
  "handle_continues i c = (case c_nodes c i of
       None \<Rightarrow> None
     | Some n \<Rightarrow>
         let c1 = (if \<not> n_pause n then send_node i c else c)
         in Some (pq_push i (put_node i (n\<lparr>n_time := n_time n + n_next_time_offset n\<rparr>) c1)))"

definition handle_multi_burst :: "nat \<Rightarrow> TrexStatelessDpCore \<Rightarrow> TrexStatelessDpCore option" where
  "handle_multi_burst i c = (case c_nodes c i of
       None \<Rightarrow> None
     | Some n0 \<Rightarrow>
         let c1 = send_node i c;
             n = n0\<lparr>n_single_burst := n_single_burst n0 - 1\<rparr>
         in if n_single_burst n > 0
            then Some (pq_push i (put_node i (n\<lparr>n_time := n_time n + n_next_time_offset n\<rparr>) c1))
            else
              let n1 = n\<lparr>n_multi_bursts := n_multi_bursts n - 1\<rparr> in
              if n_multi_bursts n1 = 0 then
                (case set_stateless_next_node i (n_next_stream n1)
                        (put_node i (n1\<lparr>n_state := ss_INACTIVE\<rparr>) c1) of
                   None \<Rightarrow> None
                 | Some (False, c2) \<Rightarrow> Some c2
                 | Some (True, c2) \<Rightarrow> (case n_next_stream n1 of
                     None \<Rightarrow> None
                   | Some nx \<Rightarrow> (case c_nodes c2 nx of
                       None \<Rightarrow> None
                     | Some nxt \<Rightarrow> map_option (\<lambda>nxt'. pq_push nx (put_node nx nxt' c2))
                         (update_refresh_time (n_time n1) nxt))))
              else Some (pq_push i (put_node i (n1\<lparr>n_time := n_time n1 + n_ibg_sec n1,
                           n_single_burst := n_single_burst_refill n1\<rparr>) c1)))"

definition handle_node :: "nat \<Rightarrow> TrexStatelessDpCore \<Rightarrow> TrexStatelessDpCore option" where
  "handle_node i c = (case c_nodes c i of
       None \<Rightarrow> None
     | Some n \<Rightarrow> (case n_stream_type n of
         stCONTINUOUS \<Rightarrow> handle_continues i c
       | stMULTI_BURST \<Rightarrow> handle_multi_burst i c
       | _ \<Rightarrow> None))"

text \<open>The scheduler's branch for a stream node it takes from the queue.\<close>

definition sched_node :: "nat \<Rightarrow> TrexStatelessDpCore \<Rightarrow> TrexStatelessDpCore option" where
  "sched_node i c =
     (let c1 = pq_pop i c in
      case c_nodes c1 i of
        None \<Rightarrow> None
      | Some n \<Rightarrow> if is_mask_for_free n then Some (free_node i c1) else handle_node i c1)"

text \<open>The top of the queue: a scheduled node with the least time.\<close>

definition is_top :: "nat \<Rightarrow> TrexStatelessDpCore \<Rightarrow> bool" where
  "is_top i c \<longleftrightarrow> i \<in> set (c_queue c) \<and>
     (\<forall>j\<in>set (c_queue c). case (c_nodes c i, c_nodes c j) of
        (Some n, Some m) \<Rightarrow> n_time n \<le> n_time m | _ \<Rightarrow> True)"

end
