(* ===== verification/Stateless_Dp_Inv.thy ===== *)
theory Stateless_Dp_Inv
  imports Stateless_Dp
begin

text \<open>
  The invariant of a data-path core and its preservation by every handler of
  \<open>Stateless_Dp\<close>: the scheduler's branch for stream nodes, pause, resume, rate update, stop and
  start.  Each lemma \<open>..._ok\<close> says that the handler does not fail (no \<open>assert\<close> fires and no freed
  node is used) and that the invariant holds afterwards.
\<close>

section \<open>The invariant of a core\<close>

definition act :: "TrexStatelessDpCore \<Rightarrow> nat \<Rightarrow> nat set" where
  "act c k = {i \<in> set (pp_active_nodes (c_ports c k)). \<exists>n. c_nodes c i = Some n \<and> n_state n = ss_ACTIVE}"

definition port_node_ok :: "TrexStatelessDpCore \<Rightarrow> nat \<Rightarrow> CGenNodeStateless \<Rightarrow> bool" where
  "port_node_ok c k n \<longleftrightarrow> n_state n \<noteq> ss_FREE_RESUSE \<and> n_port_id n = c_local_port_offset c + of_nat k \<and>
     n_ref_stream_info n \<noteq> None \<and> n_stream_type n \<in> {stCONTINUOUS, stMULTI_BURST} \<and>
     (\<forall>j. n_next_stream n = Some j \<longrightarrow> j \<in> set (pp_active_nodes (c_ports c k))) \<and>
     (n_pause n \<longleftrightarrow> pp_state (c_ports c k) = ppSTATE_PAUSE)"

definition port_ok :: "TrexStatelessDpCore \<Rightarrow> nat \<Rightarrow> bool" where
  "port_ok c k \<longleftrightarrow> distinct (pp_active_nodes (c_ports c k)) \<and>
     (pp_state (c_ports c k) = ppSTATE_IDLE \<longrightarrow>
        pp_active_nodes (c_ports c k) = [] \<and> pp_active_streams (c_ports c k) = 0) \<and>
     (\<forall>i\<in>set (pp_active_nodes (c_ports c k)). \<exists>n. c_nodes c i = Some n \<and> port_node_ok c k n) \<and>
     unat (pp_active_streams (c_ports c k)) = card (act c k)"

text \<open>
  The queue holds the nodes that are active or wait to be freed, except those in \<open>H\<close>, which the
  scheduler has in its hands.
\<close>

definition store_ok :: "nat set \<Rightarrow> TrexStatelessDpCore \<Rightarrow> bool" where
  "store_ok H c \<longleftrightarrow> unat (c_local_port_offset c) + 1 < 256 \<and> distinct (c_queue c) \<and>
     (\<forall>i. i \<in> set (c_queue c) \<longleftrightarrow> i \<notin> H \<and> (\<exists>n. c_nodes c i = Some n \<and> n_state n \<noteq> ss_INACTIVE)) \<and>
     (\<forall>i n. c_nodes c i = Some n \<longrightarrow> i < c_next_node c \<and>
        (n_state n \<noteq> ss_FREE_RESUSE \<longrightarrow> (\<exists>k<2. i \<in> set (pp_active_nodes (c_ports c k))))) \<and>
     set (pp_active_nodes (c_ports c 0)) \<inter> set (pp_active_nodes (c_ports c 1)) = {}"

definition core_ok_but :: "nat set \<Rightarrow> TrexStatelessDpCore \<Rightarrow> bool" where
  "core_ok_but H c \<longleftrightarrow> store_ok H c \<and> port_ok c 0 \<and> port_ok c 1"

abbreviation core_ok :: "TrexStatelessDpCore \<Rightarrow> bool" where
  "core_ok \<equiv> core_ok_but {}"

lemma store_ok_node:
  assumes "store_ok H c" and "c_nodes c i = Some n"
  shows "i < c_next_node c"
    and "n_state n \<noteq> ss_FREE_RESUSE \<Longrightarrow> \<exists>k<2. i \<in> set (pp_active_nodes (c_ports c k))"
  using assms by (auto simp: store_ok_def)

lemma core_ok_port: "core_ok_but H c \<Longrightarrow> k < 2 \<Longrightarrow> port_ok c k"
  by (cases k) (auto simp: core_ok_but_def less_Suc_eq numeral_2_eq_2)

lemma core_okI:
  assumes "store_ok H c" and "\<And>k. k < 2 \<Longrightarrow> port_ok c k"
  shows "core_ok_but H c"
  using assms by (simp add: core_ok_but_def)

text \<open>Fields of a node the invariant does not look at.\<close>

definition same_role :: "CGenNodeStateless \<Rightarrow> CGenNodeStateless \<Rightarrow> bool" where
  "same_role n n' \<longleftrightarrow> n_state n' = n_state n \<and> n_port_id n' = n_port_id n \<and>
     n_ref_stream_info n' = n_ref_stream_info n \<and> n_stream_type n' = n_stream_type n \<and>
     n_next_stream n' = n_next_stream n \<and> n_pause n' = n_pause n"

lemma send_node_ok [simp]: "core_ok_but H (send_node i c) = core_ok_but H c"
  "c_nodes (send_node i c) = c_nodes c" "c_ports (send_node i c) = c_ports c"
  "c_local_port_offset (send_node i c) = c_local_port_offset c"
  by (simp_all add: send_node_def core_ok_but_def store_ok_def port_ok_def port_node_ok_def act_def)

lemma put_node_ok:
  assumes ok: "core_ok_but H c" and n: "c_nodes c i = Some n" and state: "n_state n' = n_state n"
    and good: "\<And>k. k < 2 \<Longrightarrow> i \<in> set (pp_active_nodes (c_ports c k)) \<Longrightarrow> port_node_ok c k n'"
  shows "core_ok_but H (put_node i n' c)"
proof (rule core_okI)
  let ?c = "put_node i n' c"
  have f: "c_nodes ?c j = (if j = i then Some n' else c_nodes c j)" "c_ports ?c = c_ports c"
    "c_queue ?c = c_queue c" "c_next_node ?c = c_next_node c" "c_local_port_offset ?c = c_local_port_offset c" for j
    by (simp_all add: put_node_def)
  have st: "store_ok H c" using ok by (simp add: core_ok_but_def)
  then show "store_ok H ?c" using n state by (auto simp: store_ok_def f)
  fix k :: nat
  assume k: "k < 2"
  have "act ?c k = act c k" using n state by (auto simp: act_def f)
  moreover have "port_node_ok ?c k = port_node_ok c k" by (simp add: fun_eq_iff port_node_ok_def f)
  ultimately show "port_ok ?c k"
    using core_ok_port [OF ok k] good [OF k] by (auto simp: port_ok_def f)
qed

lemma put_node_role:
  assumes ok: "core_ok_but H c" and n: "c_nodes c i = Some n" and role: "same_role n n'"
  shows "core_ok_but H (put_node i n' c)"
proof (rule put_node_ok [OF ok n])
  show "n_state n' = n_state n" using role by (simp add: same_role_def)
  fix k assume k: "k < 2" "i \<in> set (pp_active_nodes (c_ports c k))"
  then have "port_node_ok c k n" using core_ok_port [OF ok k(1)] n by (auto simp: port_ok_def)
  then show "port_node_ok c k n'" using role by (simp add: port_node_ok_def same_role_def)
qed

lemma pq_pop_ok:
  assumes "core_ok c" and "i \<in> set (c_queue c)"
  shows "core_ok_but {i} (pq_pop i c)"
  using assms
  by (auto simp: core_ok_but_def store_ok_def port_ok_def port_node_ok_def act_def pq_pop_def)

lemma pq_push_ok:
  assumes "core_ok_but {i} c" and "c_nodes c i = Some n" and "n_state n \<noteq> ss_INACTIVE"
  shows "core_ok (pq_push i c)"
  using assms
  by (auto simp: core_ok_but_def store_ok_def port_ok_def port_node_ok_def act_def pq_push_def)

lemma node_of_port:
  assumes ok: "core_ok_but H c" and n: "c_nodes c i = Some n" and "n_state n \<noteq> ss_FREE_RESUSE"
  obtains k where "k < 2" and "i \<in> set (pp_active_nodes (c_ports c k))" and "port_node_ok c k n"
proof -
  obtain k where k: "k < 2" "i \<in> set (pp_active_nodes (c_ports c k))"
    using store_ok_node(2) [OF _ n assms(3)] ok by (auto simp: core_ok_but_def)
  then have "port_node_ok c k n"
    using core_ok_port [OF ok k(1)] n by (auto simp: port_ok_def)
  with k that show thesis by blast
qed

lemma get_port_db_node:
  assumes "core_ok_but H c" and "k < 2" and "port_node_ok c k n"
  shows "get_port_db c (n_port_id n) = Some k"
proof -
  have "unat (c_local_port_offset c) + 1 < 2 ^ 8"
    using assms(1) by (simp add: core_ok_but_def store_ok_def)
  then have "unat (c_local_port_offset c + 1) = unat (c_local_port_offset c) + 1"
    using unat_suc_word [of "c_local_port_offset c"] by simp
  then show ?thesis
    using assms(2,3)
    by (cases k) (auto simp: get_port_db_def port_node_ok_def NUM_PORTS_PER_CORE_def Let_def
        less_Suc_eq numeral_2_eq_2)
qed

lemma port_node_ok_unique:
  assumes "core_ok_but H c" and "k < 2" and "l < 2" and "i \<in> set (pp_active_nodes (c_ports c k))"
    and "i \<in> set (pp_active_nodes (c_ports c l))"
  shows "k = l"
  using assms by (auto simp: core_ok_but_def store_ok_def less_Suc_eq numeral_2_eq_2)

text \<open>A node that ends leaves the set of the active ones.\<close>

lemma finish_node:
  assumes ok: "core_ok_but {i} c" and n: "c_nodes c i = Some n" "n_state n = ss_ACTIVE"
    and k: "k < 2" "i \<in> set (pp_active_nodes (c_ports c k))"
    and role: "same_role (n\<lparr>n_state := ss_INACTIVE\<rparr>) n'"
  shows "core_ok (put_port k ((c_ports c k)\<lparr>pp_active_streams := pp_active_streams (c_ports c k) - 1\<rparr>)
    (put_node i n' c))"
proof (rule core_okI)
  let ?c = "put_port k ((c_ports c k)\<lparr>pp_active_streams := pp_active_streams (c_ports c k) - 1\<rparr>)
    (put_node i n' c)"
  have n': "n_state n' = ss_INACTIVE" using role by (simp add: same_role_def)
  have nodes: "pp_active_nodes (c_ports ?c l) = pp_active_nodes (c_ports c l)"
    "pp_state (c_ports ?c l) = pp_state (c_ports c l)" for l
    by (auto simp: put_port_def put_node_def)
  have off: "c_local_port_offset ?c = c_local_port_offset c" "c_nodes ?c = (c_nodes c)(i \<mapsto> n')"
    "c_queue ?c = c_queue c" "c_next_node ?c = c_next_node c"
    by (simp_all add: put_port_def put_node_def)
  have st: "store_ok {i} c" using ok by (simp add: core_ok_but_def)
  then show "store_ok {} ?c"
    unfolding store_ok_def nodes off using n n' by auto
  fix l :: nat
  assume l: "l < 2"
  then have p: "port_ok c l" using core_ok_port [OF ok] by simp
  have pn: "port_node_ok ?c l = port_node_ok c l"
    by (simp add: fun_eq_iff port_node_ok_def nodes off)
  have "port_node_ok c l n'" if "i \<in> set (pp_active_nodes (c_ports c l))"
    using p n that role by (auto simp: port_ok_def port_node_ok_def same_role_def)
  then have all: "\<forall>j\<in>set (pp_active_nodes (c_ports c l)). \<exists>m. c_nodes ?c j = Some m \<and> port_node_ok c l m"
    using p by (auto simp: port_ok_def off)
  have a: "act ?c l = act c l - {i}" unfolding act_def nodes off using n' by auto
  have cnt: "unat (pp_active_streams (c_ports c l)) = card (act c l)" using p by (simp add: port_ok_def)
  have "unat (pp_active_streams (c_ports ?c l)) = card (act ?c l)"
  proof (cases "l = k")
    case True
    then have i: "i \<in> act c l" using n k by (simp add: act_def)
    then have "0 < card (act c l)" by (auto simp: act_def card_gt_0_iff)
    then have "unat (pp_active_streams (c_ports c l) - 1) = card (act c l) - 1"
      using cnt unat_sub [of 1 "pp_active_streams (c_ports c l)"] by (simp add: word_le_nat_alt)
    then show ?thesis using True a i by (simp add: put_port_def)
  next
    case False
    then have "i \<notin> act c l" using port_node_ok_unique [OF ok k(1) l k(2)] by (auto simp: act_def)
    then show ?thesis using False a cnt by (simp add: put_port_def put_node_def)
  qed
  moreover have "pp_state (c_ports c l) = ppSTATE_IDLE \<Longrightarrow> pp_active_streams (c_ports ?c l) = 0"
    using p k(2) by (cases "l = k") (auto simp: port_ok_def put_port_def put_node_def)
  ultimately show "port_ok ?c l"
    using p all unfolding port_ok_def pn nodes by auto
qed

text \<open>A node that ends hands over to an inactive node of the same port, possibly to itself.\<close>

lemma hand_over:
  assumes ok: "core_ok_but {i} c" and n: "c_nodes c i = Some n" "n_state n = ss_ACTIVE"
    and k: "k < 2" "i \<in> set (pp_active_nodes (c_ports c k))"
    and role: "same_role (n\<lparr>n_state := ss_INACTIVE\<rparr>) n'"
    and x: "x \<in> set (pp_active_nodes (c_ports c k))" "c_nodes (put_node i n' c) x = Some m"
      "n_state m = ss_INACTIVE"
    and role': "same_role (m\<lparr>n_state := ss_ACTIVE\<rparr>) m'"
  shows "core_ok_but {x} (put_node x m' (put_node i n' c))"
proof (rule core_okI)
  let ?c = "put_node x m' (put_node i n' c)"
  have m': "n_state m' = ss_ACTIVE" using role' by (simp add: same_role_def)
  have n': "n_state n' = ss_INACTIVE" using role by (simp add: same_role_def)
  have off: "c_local_port_offset ?c = c_local_port_offset c" "c_nodes ?c = (c_nodes c)(i \<mapsto> n', x \<mapsto> m')"
    "c_queue ?c = c_queue c" "c_next_node ?c = c_next_node c" "c_ports ?c = c_ports c"
    by (simp_all add: put_node_def)
  have xm: "x = i \<and> m = n' \<or> x \<noteq> i \<and> c_nodes c x = Some m" using x(2) by (auto simp: put_node_def split: if_splits)
  have st: "store_ok {i} c" using ok by (simp add: core_ok_but_def)
  have qx: "x \<notin> set (c_queue c)"
    using st xm x(3) unfolding store_ok_def by auto
  have q: "j \<in> set (c_queue c) \<longleftrightarrow> j \<noteq> x \<and> (\<exists>n1. ((c_nodes c)(i \<mapsto> n', x \<mapsto> m')) j = Some n1 \<and> n_state n1 \<noteq> ss_INACTIVE)" for j
    using st qx n' n xm by (auto simp: store_ok_def)
  show "store_ok {x} ?c"
    using st q n xm k x m' unfolding store_ok_def off
    by auto
  fix l :: nat
  assume l: "l < 2"
  then have p: "port_ok c l" using core_ok_port [OF ok] by simp
  have pn: "port_node_ok ?c l = port_node_ok c l"
    by (simp add: fun_eq_iff port_node_ok_def off)
  have pi: "port_node_ok c l n'" if "i \<in> set (pp_active_nodes (c_ports c l))"
    using p n that role by (auto simp: port_ok_def port_node_ok_def same_role_def)
  moreover have px: "port_node_ok c l m'" if "x \<in> set (pp_active_nodes (c_ports c l))"
  proof -
    have "port_node_ok c l m"
      using xm pi p that by (auto simp: port_ok_def)
    then show ?thesis using role' by (auto simp: port_node_ok_def same_role_def)
  qed
  ultimately have all: "\<forall>j\<in>set (pp_active_nodes (c_ports c l)). \<exists>m. c_nodes ?c j = Some m \<and> port_node_ok c l m"
    using p by (auto simp: port_ok_def off)
  have "card (act ?c l) = card (act c l)"
  proof (cases "l = k")
    case True
    have i: "i \<in> act c l" using n k True by (simp add: act_def)
    have "act ?c l = insert x (act c l - {i})"
      unfolding act_def off using n' m' x(1) True by auto
    moreover have "x \<notin> act c l - {i}"
      using xm x(3) by (auto simp: act_def)
    moreover have "finite (act c l)" by (simp add: act_def)
    ultimately show ?thesis using card_Suc_Diff1 [OF _ i] by simp
  next
    case False
    then have "i \<notin> set (pp_active_nodes (c_ports c l))" "x \<notin> set (pp_active_nodes (c_ports c l))"
      using port_node_ok_unique [OF ok k(1) l k(2)] port_node_ok_unique [OF ok k(1) l x(1)] by auto
    then have "act ?c l = act c l" unfolding act_def off by auto
    then show ?thesis by simp
  qed
  then show "port_ok ?c l"
    using p all unfolding port_ok_def pn off by auto
qed

text \<open>The nodes of a port that is stopped: the active ones are marked, the others freed.\<close>

fun stopped :: "CGenNodeStateless option \<Rightarrow> CGenNodeStateless option" where
  "stopped None = None"
| "stopped (Some n) = (if n_state n = ss_ACTIVE then Some (mark_for_free n) else None)"

lemma stop_nodes_eq:
  assumes "distinct is" and "\<forall>i\<in>set is. \<exists>n. c_nodes c i = Some n \<and> n_port_id n = pid \<and> n_state n \<noteq> ss_FREE_RESUSE"
  shows "stop_nodes pid is (c, a) =
    Some (c\<lparr>c_nodes := (\<lambda>j. if j \<in> set is then stopped (c_nodes c j) else c_nodes c j)\<rparr>,
          a - of_nat (card {i \<in> set is. \<exists>n. c_nodes c i = Some n \<and> n_state n = ss_ACTIVE}))"
  using assms
proof (induction "is" arbitrary: c a)
  case Nil
  show ?case by simp
next
  case (Cons i js)
  obtain n where n: "c_nodes c i = Some n" "n_port_id n = pid" "n_state n \<noteq> ss_FREE_RESUSE"
    using Cons.prems(2) by auto
  have ni: "i \<notin> set js" and d: "distinct js" using Cons.prems(1) by auto
  let ?A = "\<lambda>c js. {j \<in> set js. \<exists>n. c_nodes c j = Some n \<and> n_state n = ss_ACTIVE}"
  have step: "stop_nodes pid js (c\<lparr>c_nodes := (c_nodes c)(i := stopped (c_nodes c i))\<rparr>, b) =
      Some (c\<lparr>c_nodes := (\<lambda>j. if j \<in> set (i # js) then stopped (c_nodes c j) else c_nodes c j)\<rparr>,
            b - of_nat (card (?A c js)))" for b
  proof -
    let ?c = "c\<lparr>c_nodes := (c_nodes c)(i := stopped (c_nodes c i))\<rparr>"
    have "?A ?c js = ?A c js" using ni by auto
    moreover have "(\<lambda>j. if j \<in> set js then stopped (c_nodes ?c j) else c_nodes ?c j) =
        (\<lambda>j. if j \<in> set (i # js) then stopped (c_nodes c j) else c_nodes c j)"
      using ni by (auto simp: fun_eq_iff)
    moreover have "\<forall>j\<in>set js. \<exists>n. c_nodes ?c j = Some n \<and> n_port_id n = pid \<and> n_state n \<noteq> ss_FREE_RESUSE"
      using Cons.prems(2) ni by auto
    ultimately show ?thesis using Cons.IH [OF d, of ?c b] by simp
  qed
  show ?case
  proof (cases "n_state n")
    case ss_ACTIVE
    then have "?A c (i # js) = insert i (?A c js)" using n by auto
    then have "of_nat (card (?A c (i # js))) = (1 :: u32) + of_nat (card (?A c js))" using ni by simp
    then show ?thesis
      using ss_ACTIVE n step [of "a - 1"] by (simp add: put_node_def diff_diff_eq)
  next
    case ss_INACTIVE
    then have "?A c (i # js) = ?A c js" using n by auto
    then show ?thesis
      using ss_INACTIVE n step [of a] by (simp add: free_node_def)
  qed (use n in simp)
qed

lemma get_port_db_Some:
  assumes "get_port_db c pid = Some k"
  shows "k < 2 \<and> pid = c_local_port_offset c + of_nat k"
proof -
  have k: "k = unat (pid - c_local_port_offset c)" "k < 2"
    using assms by (auto simp: get_port_db_def Let_def NUM_PORTS_PER_CORE_def split: if_splits)
  then have "of_nat k = pid - c_local_port_offset c" by simp
  then show ?thesis using k by simp
qed

definition stopped_core :: "nat \<Rightarrow> TrexStatelessDpCore \<Rightarrow> TrexStatelessDpCore" where
  "stopped_core k c = put_port k ((c_ports c k)\<lparr>pp_active_streams := 0, pp_active_nodes := [], pp_state := ppSTATE_IDLE\<rparr>)
     (c\<lparr>c_nodes := (\<lambda>j. if j \<in> set (pp_active_nodes (c_ports c k)) then stopped (c_nodes c j) else c_nodes c j)\<rparr>)"

lemma port_stop_traffic_eq:
  assumes ok: "core_ok_but H c" and pid: "get_port_db c pid = Some k"
    and run: "pp_state (c_ports c k) \<noteq> ppSTATE_IDLE" "\<not> (on_id \<and> e \<noteq> pp_event_id (c_ports c k))"
  shows "port_stop_traffic k pid on_id e c = Some (True, stopped_core k c)"
proof -
  have k: "k < 2" "pid = c_local_port_offset c + of_nat k" using get_port_db_Some [OF pid] by auto
  have p: "port_ok c k" using core_ok_port [OF ok k(1)] .
  have cnt: "pp_active_streams (c_ports c k) = of_nat (card (act c k))"
  proof -
    have u: "unat (pp_active_streams (c_ports c k)) = card (act c k)" using p by (simp add: port_ok_def)
    show ?thesis unfolding u [symmetric] by simp
  qed
  have "stop_nodes pid (pp_active_nodes (c_ports c k)) (c, a) =
    Some (c\<lparr>c_nodes := (\<lambda>j. if j \<in> set (pp_active_nodes (c_ports c k)) then stopped (c_nodes c j) else c_nodes c j)\<rparr>,
          a - of_nat (card (act c k)))" for a
    unfolding act_def using p k by (intro stop_nodes_eq) (auto simp: port_ok_def port_node_ok_def)
  then show ?thesis
    using run cnt by (auto simp: port_stop_traffic_def stopped_core_def Let_def)
qed

lemma stopped_None_iff: "c_nodes c j = Some n \<Longrightarrow> stopped (c_nodes c j) = None \<longleftrightarrow> n_state n \<noteq> ss_ACTIVE"
  by simp

lemma stopped_core_other:
  "l \<noteq> k \<Longrightarrow> c_ports (stopped_core k c) l = c_ports c l"
  "c_queue (stopped_core k c) = c_queue c" "c_local_port_offset (stopped_core k c) = c_local_port_offset c"
  "c_next_node (stopped_core k c) = c_next_node c"
  "c_nodes (stopped_core k c) j = (if j \<in> set (pp_active_nodes (c_ports c k)) then stopped (c_nodes c j) else c_nodes c j)"
  "pp_active_nodes (c_ports (stopped_core k c) k) = []" "pp_state (c_ports (stopped_core k c) k) = ppSTATE_IDLE"
  "pp_active_streams (c_ports (stopped_core k c) k) = 0"
  "pp_event_id (c_ports (stopped_core k c) l) = pp_event_id (c_ports c l)"
  by (auto simp: stopped_core_def put_port_def)

lemma stopped_core_ok:
  assumes ok: "core_ok c" and k: "k < 2"
  shows "core_ok (stopped_core k c)"
proof (rule core_okI)
  let ?N = "\<lambda>l. set (pp_active_nodes (c_ports c l))"
  have st: "store_ok {} c" using ok by (simp add: core_ok_but_def)
  have p: "port_ok c l" if "l < 2" for l using core_ok_port [OF ok that] .
  have nok: "\<exists>n. c_nodes c j = Some n \<and> n_state n \<noteq> ss_FREE_RESUSE" if "j \<in> ?N k" for j
    using p [OF k] that by (auto simp: port_ok_def port_node_ok_def)
  have q: "j \<in> set (c_queue c) \<longleftrightarrow> (\<exists>n. c_nodes (stopped_core k c) j = Some n \<and> n_state n \<noteq> ss_INACTIVE)" for j
  proof -
    have old: "j \<in> set (c_queue c) \<longleftrightarrow> (\<exists>n. c_nodes c j = Some n \<and> n_state n \<noteq> ss_INACTIVE)"
      using st unfolding store_ok_def by simp
    show ?thesis
    proof (cases "j \<in> ?N k")
      case True
      then obtain n where "c_nodes c j = Some n" "n_state n \<noteq> ss_FREE_RESUSE" using nok by blast
      then show ?thesis using old True
        by (cases "n_state n") (auto simp: stopped_core_other mark_for_free_def)
    next
      case False
      then show ?thesis using old by (simp add: stopped_core_other)
    qed
  qed
  have disj: "?N 0 \<inter> ?N 1 = {}" using st by (simp add: store_ok_def)
  have mem: "j < c_next_node c \<and> (n_state n \<noteq> ss_FREE_RESUSE \<longrightarrow>
      (\<exists>l<2. j \<in> set (pp_active_nodes (c_ports (stopped_core k c) l))))"
    if "c_nodes (stopped_core k c) j = Some n" for j n
  proof (cases "j \<in> ?N k")
    case True
    then obtain n1 where "c_nodes c j = Some n1" using nok by blast
    then have "j < c_next_node c" using store_ok_node(1) [OF st] by blast
    moreover have "n_state n = ss_FREE_RESUSE"
      using that True \<open>c_nodes c j = Some n1\<close> by (auto simp: stopped_core_other mark_for_free_def split: if_splits)
    ultimately show ?thesis by simp
  next
    case False
    then have c: "c_nodes c j = Some n" using that by (simp add: stopped_core_other)
    have "\<exists>l<2. j \<in> set (pp_active_nodes (c_ports (stopped_core k c) l))" if live: "n_state n \<noteq> ss_FREE_RESUSE"
    proof -
      obtain l where "l < 2" "j \<in> ?N l" using store_ok_node(2) [OF st c live] by blast
      moreover from this have "l \<noteq> k" using False by auto
      ultimately show ?thesis by (auto simp: stopped_core_other)
    qed
    moreover have "j < c_next_node c" using store_ok_node(1) [OF st c] .
    ultimately show ?thesis by simp
  qed
  have disj': "set (pp_active_nodes (c_ports (stopped_core k c) 0)) \<inter> set (pp_active_nodes (c_ports (stopped_core k c) 1)) = {}"
    using disj by (cases "k = 0"; cases "k = 1") (simp_all add: stopped_core_other)
  show "store_ok {} (stopped_core k c)"
    unfolding store_ok_def stopped_core_other(2-4)
  proof (intro conjI allI impI)
    show "unat (c_local_port_offset c) + 1 < 256" "distinct (c_queue c)" using st by (simp_all add: store_ok_def)
    show "j \<in> set (c_queue c) \<longleftrightarrow> j \<notin> {} \<and> (\<exists>n. c_nodes (stopped_core k c) j = Some n \<and> n_state n \<noteq> ss_INACTIVE)" for j
      using q [of j] by simp
    show "j < c_next_node c" if "c_nodes (stopped_core k c) j = Some n" for j n
      using mem [OF that] by blast
    show "\<exists>l<2. j \<in> set (pp_active_nodes (c_ports (stopped_core k c) l))"
      if "c_nodes (stopped_core k c) j = Some n" "n_state n \<noteq> ss_FREE_RESUSE" for j n
      using mem [OF that(1)] that(2) by blast
  qed (rule disj')
  fix l :: nat
  assume l: "l < 2"
  show "port_ok (stopped_core k c) l"
  proof (cases "l = k")
    case True
    then show ?thesis by (simp add: port_ok_def stopped_core_other act_def)
  next
    case False
    then have "j \<notin> ?N k" if "j \<in> ?N l" for j
      using port_node_ok_unique [OF ok l k that] by auto
    then have same: "j \<in> ?N l \<Longrightarrow> c_nodes (stopped_core k c) j = c_nodes c j" for j
      by (simp add: stopped_core_other)
    have "act (stopped_core k c) l = act c l"
      unfolding act_def stopped_core_other(1) [OF False] using same by auto
    moreover have "port_node_ok (stopped_core k c) l = port_node_ok c l"
      by (simp add: fun_eq_iff port_node_ok_def stopped_core_other False)
    ultimately show ?thesis
      using p [OF l] same unfolding port_ok_def stopped_core_other(1) [OF False] by auto
  qed
qed

lemma core_ok_fields [simp]:
  "core_ok_but H (c\<lparr>c_events := e\<rparr>) = core_ok_but H c" "core_ok_but H (c\<lparr>c_stop_cmds := s\<rparr>) = core_ok_but H c"
  "core_ok_but H (c\<lparr>c_state := st\<rparr>) = core_ok_but H c"
  by (simp_all add: core_ok_but_def store_ok_def port_ok_def port_node_ok_def act_def)

lemma stop_traffic_cases:
  assumes ok: "core_ok c" and pid: "get_port_db c pid = Some k"
  shows "stop_traffic pid on_id e c =
    Some (if pp_state (c_ports c k) = ppSTATE_IDLE \<or> on_id \<and> e \<noteq> pp_event_id (c_ports c k) then c
          else (stopped_core k c)\<lparr>c_events := c_events c @ [(pid, pp_event_id (c_ports c k))]\<rparr>)"
proof (cases "pp_state (c_ports c k) = ppSTATE_IDLE \<or> on_id \<and> e \<noteq> pp_event_id (c_ports c k)")
  case True
  have "pp_state (c_ports c k) = ppSTATE_IDLE \<Longrightarrow> pp_active_streams (c_ports c k) = 0"
    using core_ok_port [OF ok, of k] get_port_db_Some [OF pid] by (simp add: port_ok_def)
  with True have "port_stop_traffic k pid on_id e c = Some (False, c)"
    by (auto simp: port_stop_traffic_def Let_def)
  with True show ?thesis using pid by (auto simp: stop_traffic_def on_port_def)
next
  case False
  then have "port_stop_traffic k pid on_id e c = Some (True, stopped_core k c)"
    by (intro port_stop_traffic_eq [OF ok pid]) auto
  moreover have "c_events (stopped_core k c) = c_events c" by (simp add: stopped_core_def put_port_def)
  ultimately show ?thesis
    using False pid by (auto simp: stop_traffic_def on_port_def stopped_core_other)
qed

lemma stop_traffic_ok:
  assumes "core_ok c" and "get_port_db c pid = Some k"
  shows "\<exists>c'. stop_traffic pid on_id e c = Some c' \<and> core_ok c'"
  using stop_traffic_cases [OF assms] stopped_core_ok [OF assms(1)] get_port_db_Some [OF assms(2)] assms(1)
  by simp

lemma put_port_fields [simp]:
  "c_nodes (put_port k p c) = c_nodes c" "c_local_port_offset (put_port k p c) = c_local_port_offset c"
  "c_nodes (put_node i n c) j = (if j = i then Some n else c_nodes c j)"
  "c_local_port_offset (put_node i n c) = c_local_port_offset c" "c_ports (put_node i n c) = c_ports c"
  by (auto simp: put_port_def put_node_def)

lemma get_port_db_cong:
  "c_local_port_offset c' = c_local_port_offset c \<Longrightarrow> get_port_db c' pid = get_port_db c pid"
  by (simp add: get_port_db_def)

text \<open>The branch of \<open>set_stateless_next_node\<close> in which the number of active streams goes down.\<close>

lemma stream_ended_ok:
  assumes ok: "core_ok_but {i} c" and n: "c_nodes c i = Some n" "n_state n = ss_ACTIVE"
    and k: "k < 2" "i \<in> set (pp_active_nodes (c_ports c k))" "port_node_ok c k n"
    and role: "same_role (n\<lparr>n_state := ss_INACTIVE\<rparr>) n'"
  shows "\<exists>c'. (let (zero, p') = update_number_of_active_streams 1 (c_ports (put_node i n' c) k) in
      if zero then stop_traffic (n_port_id n') False 0 (put_port k p' (put_node i n' c))
      else Some (put_port k p' (put_node i n' c))) = Some c' \<and> core_ok c'"
proof -
  let ?c = "put_port k ((c_ports c k)\<lparr>pp_active_streams := pp_active_streams (c_ports c k) - 1\<rparr>) (put_node i n' c)"
  have fin: "core_ok ?c" by (rule finish_node [OF ok n k(1,2) role])
  have "get_port_db ?c (n_port_id n') = Some k"
    using get_port_db_node [OF ok k(1,3)] role get_port_db_cong [of ?c c] by (simp add: same_role_def)
  from stop_traffic_ok [OF fin this, of False 0] fin show ?thesis
    by (auto simp: update_number_of_active_streams_def Let_def)
qed

lemma push_role_ok:
  assumes "core_ok_but {i} c" and "c_nodes c i = Some n" and "n_state n = ss_ACTIVE" and "same_role n n'"
  shows "core_ok (pq_push i (put_node i n' c))"
  using put_node_role [OF assms(1,2,4)] assms(3,4)
  by (intro pq_push_ok [of _ _ n']) (auto simp: same_role_def)

lemma handle_continues_ok:
  assumes "core_ok_but {i} c" and "c_nodes c i = Some n" and "n_state n = ss_ACTIVE"
  shows "\<exists>c'. handle_continues i c = Some c' \<and> core_ok c'"
  using assms(2) push_role_ok [of i c n] push_role_ok [of i "send_node i c" n] assms
  by (auto simp: handle_continues_def Let_def same_role_def)

text \<open>The node ends its last burst: it hands over to the next stream or the port loses a stream.\<close>

lemma set_next_node_ok:
  assumes ok: "core_ok_but {i} c" and n: "c_nodes c i = Some n" "n_state n = ss_ACTIVE"
    and role: "same_role (n\<lparr>n_state := ss_INACTIVE\<rparr>) n'"
  shows "(\<exists>c'. set_stateless_next_node i (n_next_stream n') (put_node i n' c) = Some (False, c') \<and> core_ok c') \<or>
    (\<exists>x m' c'. n_next_stream n' = Some x \<and> c' = put_node x m' (put_node i n' c) \<and>
      set_stateless_next_node i (n_next_stream n') (put_node i n' c) = Some (True, c') \<and>
      core_ok_but {x} c' \<and> n_state m' = ss_ACTIVE \<and> n_ref_stream_info m' \<noteq> None)"
proof -
  let ?c = "put_node i n' c"
  obtain k where k: "k < 2" "i \<in> set (pp_active_nodes (c_ports c k))" "port_node_ok c k n"
    using node_of_port [OF ok n(1)] n(2) by auto
  have db: "get_port_db ?c (n_port_id n') = Some k"
    using get_port_db_node [OF ok k(1,3)] role get_port_db_cong [of ?c c] by (simp add: same_role_def)
  note ended = stream_ended_ok [OF ok n k role]
  show ?thesis
  proof (cases "n_next_stream n'")
    case None
    then show ?thesis using ended db by (auto simp: set_stateless_next_node_def Let_def split: prod.splits)
  next
    case (Some x)
    then have x: "x \<in> set (pp_active_nodes (c_ports c k))"
      using k(3) role by (simp add: port_node_ok_def same_role_def)
    obtain m where m: "c_nodes ?c x = Some m" "n_state m \<noteq> ss_FREE_RESUSE" "n_ref_stream_info m \<noteq> None"
    proof (cases "x = i")
      case True
      then show thesis using that [of n'] k(3) role by (simp add: port_node_ok_def same_role_def)
    next
      case False
      obtain m where "c_nodes c x = Some m" "port_node_ok c k m"
        using core_ok_port [OF ok k(1)] x by (auto simp: port_ok_def)
      then show thesis using that [of m] False by (simp add: port_node_ok_def)
    qed
    show ?thesis
    proof (cases "n_state m = ss_INACTIVE")
      case True
      obtain s where s: "n_ref_stream_info m = Some s" using m(3) by auto
      let ?m = "m\<lparr>n_single_burst := n_single_burst_refill m, n_multi_bursts := s_num_bursts s, n_state := ss_ACTIVE\<rparr>"
      have "core_ok_but {x} (put_node x ?m ?c)"
        by (rule hand_over [OF ok n k(1,2) role x m(1) True]) (simp add: same_role_def)
      moreover have "set_stateless_next_node i (n_next_stream n') ?c = Some (True, put_node x ?m ?c)"
        using Some db m True s by (simp add: set_stateless_next_node_def Let_def refresh_def case_prod_beta)
      ultimately show ?thesis using Some s by auto
    next
      case False
      then show ?thesis
        using ended db m Some
        by (cases "n_state m") (auto simp: set_stateless_next_node_def Let_def split: prod.splits)
    qed
  qed
qed

lemma handle_multi_burst_ok:
  assumes ok: "core_ok_but {i} c" and n: "c_nodes c i = Some n" "n_state n = ss_ACTIVE"
  shows "\<exists>c'. handle_multi_burst i c = Some c' \<and> core_ok c'"
proof -
  let ?c = "send_node i c"
  have ok1: "core_ok_but {i} ?c" and n1: "c_nodes ?c i = Some n" using ok n by simp_all
  let ?n1 = "n\<lparr>n_single_burst := n_single_burst n - 1\<rparr>"
  let ?n2 = "?n1\<lparr>n_multi_bursts := n_multi_bursts n - 1\<rparr>"
  consider "n_single_burst ?n1 > 0" | "n_single_burst ?n1 = 0" "n_multi_bursts ?n2 \<noteq> 0"
    | "n_single_burst ?n1 = 0" "n_multi_bursts ?n2 = 0"
    by (metis word_neq_0_conv)
  then show ?thesis
  proof cases
    case 1
    have "core_ok (pq_push i (put_node i (?n1\<lparr>n_time := n_time n + n_next_time_offset n\<rparr>) ?c))"
      by (rule push_role_ok [OF ok1 n1 n(2)]) (simp add: same_role_def)
    with 1 n show ?thesis by (simp add: handle_multi_burst_def Let_def)
  next
    case 2
    have "core_ok (pq_push i (put_node i (?n2\<lparr>n_time := n_time n + n_ibg_sec n,
        n_single_burst := n_single_burst_refill n\<rparr>) ?c))"
      by (rule push_role_ok [OF ok1 n1 n(2)]) (simp add: same_role_def)
    with 2 n show ?thesis by (simp add: handle_multi_burst_def Let_def)
  next
    case 3
    let ?n3 = "?n2\<lparr>n_state := ss_INACTIVE\<rparr>"
    have "same_role (n\<lparr>n_state := ss_INACTIVE\<rparr>) ?n3" by (simp add: same_role_def)
    from set_next_node_ok [OF ok1 n1 n(2) this] show ?thesis
    proof (elim disjE exE conjE)
      fix c' assume "set_stateless_next_node i (n_next_stream ?n3) (put_node i ?n3 ?c) = Some (False, c')" "core_ok c'"
      with 3 n show ?thesis by (simp add: handle_multi_burst_def Let_def)
    next
      fix x m' c'
      assume x: "n_next_stream ?n3 = Some x" and c': "c' = put_node x m' (put_node i ?n3 ?c)"
        and set: "set_stateless_next_node i (n_next_stream ?n3) (put_node i ?n3 ?c) = Some (True, c')"
        and okx: "core_ok_but {x} c'" and m': "n_state m' = ss_ACTIVE" "n_ref_stream_info m' \<noteq> None"
      obtain m2 where m2: "update_refresh_time (n_time n) m' = Some m2" "same_role m' m2"
        using m'(2) by (auto simp: update_refresh_time_def same_role_def)
      have "core_ok (pq_push x (put_node x m2 c'))"
        by (rule push_role_ok [OF okx _ m'(1) m2(2)]) (simp add: c')
      moreover have "c_nodes c' x = Some m'" by (simp add: c')
      ultimately show ?thesis using 3 n x set m2(1) by (simp add: handle_multi_burst_def Let_def)
    qed
  qed
qed

lemma free_node_ok:
  assumes ok: "core_ok_but {i} c" and n: "c_nodes c i = Some n" "n_state n = ss_FREE_RESUSE"
  shows "core_ok (free_node i c)"
proof (rule core_okI)
  have out: "i \<notin> set (pp_active_nodes (c_ports c k))" if "k < 2" for k
    using core_ok_port [OF ok that] n by (auto simp: port_ok_def port_node_ok_def)
  have st: "store_ok {i} c" using ok by (simp add: core_ok_but_def)
  then show "store_ok {} (free_node i c)" by (auto simp: store_ok_def free_node_def)
  fix k :: nat
  assume k: "k < 2"
  have "act (free_node i c) k = act c k" using out [OF k] by (auto simp: act_def free_node_def)
  moreover have "port_node_ok (free_node i c) k = port_node_ok c k"
    by (simp add: fun_eq_iff port_node_ok_def free_node_def)
  ultimately show "port_ok (free_node i c) k"
    using core_ok_port [OF ok k] out [OF k] by (auto simp: port_ok_def free_node_def)
qed

text \<open>The scheduler never fails and keeps the invariant.\<close>

lemma sched_node_ok:
  assumes ok: "core_ok c" and q: "i \<in> set (c_queue c)"
  shows "\<exists>c'. sched_node i c = Some c' \<and> core_ok c'"
proof -
  have okp: "core_ok_but {i} (pq_pop i c)" by (rule pq_pop_ok [OF ok q])
  obtain n where n: "c_nodes c i = Some n" "n_state n \<noteq> ss_INACTIVE"
    using ok q by (auto simp: core_ok_but_def store_ok_def)
  then have np: "c_nodes (pq_pop i c) i = Some n" by (simp add: pq_pop_def)
  show ?thesis
  proof (cases "n_state n")
    case ss_FREE_RESUSE
    have "core_ok (free_node i (pq_pop i c))" by (rule free_node_ok [OF okp np ss_FREE_RESUSE])
    then show ?thesis using np ss_FREE_RESUSE by (simp add: sched_node_def is_mask_for_free_def)
  next
    case ss_ACTIVE
    obtain k where k: "port_node_ok (pq_pop i c) k n"
      using node_of_port [OF okp np] ss_ACTIVE by auto
    have "\<exists>c'. handle_node i (pq_pop i c) = Some c' \<and> core_ok c'"
      using handle_continues_ok [OF okp np ss_ACTIVE] handle_multi_burst_ok [OF okp np ss_ACTIVE] np k
      by (auto simp: handle_node_def port_node_ok_def)
    then show ?thesis using np ss_ACTIVE by (simp add: sched_node_def is_mask_for_free_def)
  qed (use n in simp)
qed

section \<open>Pause, resume and update\<close>

lemma each_node_eq:
  assumes "distinct is" and "\<forall>i\<in>set is. \<exists>n. c_nodes c i = Some n \<and> ok n"
  shows "each_node ok f is c =
    Some (c\<lparr>c_nodes := (\<lambda>j. if j \<in> set is then map_option f (c_nodes c j) else c_nodes c j)\<rparr>)"
  using assms
proof (induction "is" arbitrary: c)
  case Nil
  show ?case by simp
next
  case (Cons i js)
  obtain n where n: "c_nodes c i = Some n" "ok n" using Cons.prems(2) by auto
  have ni: "i \<notin> set js" and d: "distinct js" using Cons.prems(1) by auto
  have all: "\<forall>j\<in>set js. \<exists>n'. c_nodes (put_node i (f n) c) j = Some n' \<and> ok n'"
    using Cons.prems(2) ni by auto
  have "(\<lambda>j. if j \<in> set js then map_option f (c_nodes (put_node i (f n) c) j) else c_nodes (put_node i (f n) c) j) =
      (\<lambda>j. if j \<in> set (i # js) then map_option f (c_nodes c j) else c_nodes c j)"
    using ni n by (auto simp: fun_eq_iff)
  then show ?case using Cons.IH [OF d all] n by (simp add: put_node_def)
qed

text \<open>
  A change of the port's state together with a change of all its nodes that keeps their role but
  for the pause flag.
\<close>

lemma change_port_ok:
  assumes ok: "core_ok c" and k: "k < 2"
    and f: "\<And>n. port_node_ok c k n \<Longrightarrow> same_role (n\<lparr>n_pause := b\<rparr>) (f n)"
    and b: "b \<longleftrightarrow> s = ppSTATE_PAUSE" and busy: "s \<noteq> ppSTATE_IDLE"
    and N: "N = set (pp_active_nodes (c_ports c k))"
  shows "core_ok (put_port k ((c_ports c k)\<lparr>pp_state := s\<rparr>)
    (c\<lparr>c_nodes := (\<lambda>j. if j \<in> N then map_option f (c_nodes c j) else c_nodes c j)\<rparr>))"
    (is "core_ok ?c")
proof (rule core_okI)
  have st: "store_ok {} c" using ok by (simp add: core_ok_but_def)
  have off: "c_local_port_offset ?c = c_local_port_offset c" "c_queue ?c = c_queue c" "c_next_node ?c = c_next_node c"
    "\<And>l. pp_active_nodes (c_ports ?c l) = pp_active_nodes (c_ports c l)"
    "\<And>l. pp_active_streams (c_ports ?c l) = pp_active_streams (c_ports c l)"
    "\<And>l. pp_state (c_ports ?c l) = (if l = k then s else pp_state (c_ports c l))"
    "\<And>j. c_nodes ?c j = (if j \<in> N then map_option f (c_nodes c j) else c_nodes c j)"
    by (auto simp: put_port_def)
  have inN: "\<exists>n. c_nodes c j = Some n \<and> port_node_ok c k n \<and> same_role (n\<lparr>n_pause := b\<rparr>) (f n)" if "j \<in> N" for j
    using core_ok_port [OF ok k] that f N by (auto simp: port_ok_def)
  have state: "(\<exists>n. c_nodes ?c j = Some n \<and> P (n_state n)) \<longleftrightarrow> (\<exists>n. c_nodes c j = Some n \<and> P (n_state n))" for j P
    using inN [of j] by (auto simp: off same_role_def)
  have node: "\<exists>n'. c_nodes c j = Some n' \<and> n_state n' = n_state n" if "c_nodes ?c j = Some n" for j n
    using inN [of j] that by (auto simp: off same_role_def split: if_splits)
  show "store_ok {} ?c"
    unfolding store_ok_def off(1-4)
  proof (intro conjI allI impI)
    show "unat (c_local_port_offset c) + 1 < 256" "distinct (c_queue c)" using st by (simp_all add: store_ok_def)
    show "j \<in> set (c_queue c) \<longleftrightarrow> j \<notin> {} \<and> (\<exists>n. c_nodes ?c j = Some n \<and> n_state n \<noteq> ss_INACTIVE)" for j
      using st state [of j "\<lambda>s. s \<noteq> ss_INACTIVE"] by (simp add: store_ok_def)
    show "j < c_next_node c" if "c_nodes ?c j = Some n" for j n
      using node [OF that] store_ok_node(1) [OF st] by blast
    show "\<exists>l<2. j \<in> set (pp_active_nodes (c_ports c l))"
      if "c_nodes ?c j = Some n" "n_state n \<noteq> ss_FREE_RESUSE" for j n
      using node [OF that(1)] that(2) store_ok_node(2) [OF st] by metis
    show "set (pp_active_nodes (c_ports c 0)) \<inter> set (pp_active_nodes (c_ports c 1)) = {}"
      using st by (simp add: store_ok_def)
  qed
  fix l :: nat
  assume l: "l < 2"
  have p: "port_ok c l" using core_ok_port [OF ok l] .
  have "act ?c l = act c l" unfolding act_def off(4) state [of _ "\<lambda>s. s = ss_ACTIVE"] ..
  moreover have "\<exists>m. c_nodes ?c j = Some m \<and> port_node_ok ?c l m" if j: "j \<in> set (pp_active_nodes (c_ports c l))" for j
  proof (cases "l = k")
    case True
    obtain n where n: "c_nodes c j = Some n" "port_node_ok c k n" "same_role (n\<lparr>n_pause := b\<rparr>) (f n)"
      using inN [of j] j True N by auto
    then have "port_node_ok ?c l (f n)" using True b by (simp add: port_node_ok_def off same_role_def)
    then show ?thesis using n(1) j True N by (auto simp: off)
  next
    case False
    then have "j \<notin> N" using port_node_ok_unique [OF ok l k j] N by auto
    moreover obtain n where "c_nodes c j = Some n" "port_node_ok c l n" using p j by (auto simp: port_ok_def)
    ultimately show ?thesis using False by (simp add: off port_node_ok_def)
  qed
  ultimately show "port_ok ?c l"
    using p busy unfolding port_ok_def off by auto
qed

lemma port_not_idle_nodes:
  assumes "core_ok c" and "get_port_db c pid = Some k" and "i \<in> set (pp_active_nodes (c_ports c k))"
  obtains n where "c_nodes c i = Some n" and "port_node_ok c k n" and "n_port_id n = pid"
  using core_ok_port [OF assms(1), of k] get_port_db_Some [OF assms(2)] assms(3)
  by (auto simp: port_ok_def port_node_ok_def)

lemma each_port_node_eq:
  assumes ok: "core_ok c" and db: "get_port_db c pid = Some k"
    and good: "\<And>n. port_node_ok c k n \<Longrightarrow> n_port_id n = pid \<Longrightarrow> good n"
  shows "each_node good f (pp_active_nodes (c_ports c k)) c =
    Some (c\<lparr>c_nodes := (\<lambda>j. if j \<in> set (pp_active_nodes (c_ports c k)) then map_option f (c_nodes c j) else c_nodes c j)\<rparr>)"
proof (rule each_node_eq)
  show "distinct (pp_active_nodes (c_ports c k))"
    using core_ok_port [OF ok, of k] get_port_db_Some [OF db] by (simp add: port_ok_def)
  show "\<forall>i\<in>set (pp_active_nodes (c_ports c k)). \<exists>n. c_nodes c i = Some n \<and> good n"
  proof
    fix i assume "i \<in> set (pp_active_nodes (c_ports c k))"
    then obtain n where "c_nodes c i = Some n" "port_node_ok c k n" "n_port_id n = pid"
      by (rule port_not_idle_nodes [OF ok db])
    then show "\<exists>n. c_nodes c i = Some n \<and> good n" using good by blast
  qed
qed

lemma pause_traffic_ok:
  assumes ok: "core_ok c" and db: "get_port_db c pid = Some k" and st: "pp_state (c_ports c k) = ppSTATE_TRANSMITTING"
  shows "\<exists>c'. pause_traffic pid c = Some c' \<and> core_ok c' \<and> pp_state (c_ports c' k) = ppSTATE_PAUSE"
proof -
  let ?N = "set (pp_active_nodes (c_ports c k))"
  have k: "k < 2" using get_port_db_Some [OF db] by simp
  let ?c = "c\<lparr>c_nodes := (\<lambda>j. if j \<in> ?N then map_option (set_pause True) (c_nodes c j) else c_nodes c j)\<rparr>"
  have "each_node (\<lambda>n. n_port_id n = pid \<and> \<not> n_pause n) (set_pause True) (pp_active_nodes (c_ports c k)) c = Some ?c"
    by (rule each_port_node_eq [OF ok db]) (use st in \<open>simp add: port_node_ok_def\<close>)
  moreover have "core_ok (put_port k ((c_ports c k)\<lparr>pp_state := ppSTATE_PAUSE\<rparr>) ?c)"
    by (rule change_port_ok [OF ok k, where b = True]) (auto simp: same_role_def set_pause_def)
  ultimately show ?thesis
    using db st by (auto simp: pause_traffic_def on_port_def port_pause_traffic_def Let_def put_port_def)
qed

lemma resume_traffic_ok:
  assumes ok: "core_ok c" and db: "get_port_db c pid = Some k" and st: "pp_state (c_ports c k) = ppSTATE_PAUSE"
  shows "\<exists>c'. resume_traffic pid c = Some c' \<and> core_ok c' \<and> pp_state (c_ports c' k) = ppSTATE_TRANSMITTING"
proof -
  let ?N = "set (pp_active_nodes (c_ports c k))"
  have k: "k < 2" using get_port_db_Some [OF db] by simp
  let ?c = "c\<lparr>c_nodes := (\<lambda>j. if j \<in> ?N then map_option (set_pause False) (c_nodes c j) else c_nodes c j)\<rparr>"
  have "each_node (\<lambda>n. n_port_id n = pid \<and> n_pause n) (set_pause False) (pp_active_nodes (c_ports c k)) c = Some ?c"
    by (rule each_port_node_eq [OF ok db]) (use st in \<open>simp add: port_node_ok_def\<close>)
  moreover have "core_ok (put_port k ((c_ports c k)\<lparr>pp_state := ppSTATE_TRANSMITTING\<rparr>) ?c)"
    by (rule change_port_ok [OF ok k, where b = False]) (auto simp: same_role_def set_pause_def)
  ultimately show ?thesis
    using db st by (auto simp: resume_traffic_def on_port_def port_resume_traffic_def Let_def put_port_def)
qed

lemma update_traffic_ok:
  assumes ok: "core_ok c" and db: "get_port_db c pid = Some k" and st: "pp_state (c_ports c k) \<noteq> ppSTATE_IDLE"
  shows "\<exists>c'. update_traffic pid factor c = Some c' \<and> core_ok c'"
proof -
  let ?N = "set (pp_active_nodes (c_ports c k))"
  have k: "k < 2" using get_port_db_Some [OF db] by simp
  let ?c = "c\<lparr>c_nodes := (\<lambda>j. if j \<in> ?N then map_option (update_rate factor) (c_nodes c j) else c_nodes c j)\<rparr>"
  have "each_node (\<lambda>n. n_port_id n = pid) (update_rate factor) (pp_active_nodes (c_ports c k)) c = Some ?c"
    by (rule each_port_node_eq [OF ok db]) (use st in \<open>simp add: port_node_ok_def\<close>)
  moreover have "core_ok (put_port k ((c_ports c k)\<lparr>pp_state := pp_state (c_ports c k)\<rparr>) ?c)"
    by (rule change_port_ok [OF ok k, where b = "pp_state (c_ports c k) = ppSTATE_PAUSE"])
      (auto simp: same_role_def update_rate_def port_node_ok_def st)
  moreover have "put_port k ((c_ports c k)\<lparr>pp_state := pp_state (c_ports c k)\<rparr>) ?c = ?c"
    by (simp add: put_port_def)
  ultimately show ?thesis
    using db st by (cases "pp_state (c_ports c k)")
      (auto simp: update_traffic_def on_port_def port_update_traffic_def Let_def)
qed

section \<open>Start\<close>

text \<open>The port counts as transmitting while its streams are added: the code sets the state last.\<close>

definition transmitting :: "nat \<Rightarrow> TrexStatelessDpCore \<Rightarrow> TrexStatelessDpCore" where
  "transmitting k c = put_port k ((c_ports c k)\<lparr>pp_state := ppSTATE_TRANSMITTING\<rparr>) c"

lemma port_update_order:
  "p\<lparr>pp_state := s, pp_active_nodes := l\<rparr> = p\<lparr>pp_active_nodes := l, pp_state := s\<rparr>"
  "p\<lparr>pp_state := s, pp_active_streams := a\<rparr> = p\<lparr>pp_active_streams := a, pp_state := s\<rparr>"
  by (cases p; simp)+

lemma add_stream_transmitting:
  "add_stream k s (transmitting k c) = map_option (transmitting k) (add_stream k s c)"
  by (simp add: add_stream_def transmitting_def new_stream_node_def put_port_def put_node_def pq_push_def
      Let_def option.case_eq_if port_update_order)

lemma add_streams_transmitting:
  "add_streams k pid ss (transmitting k c) = map_option (transmitting k) (add_streams k pid ss c)"
  by (induction ss arbitrary: c) (auto simp: add_stream_transmitting split: option.splits)

lemma link_streams_transmitting:
  "link_streams nodes cnt ss (transmitting k c) = map_option (transmitting k) (link_streams nodes cnt ss c)"
proof (induction ss arbitrary: cnt c)
  case (Cons s ss)
  have "put_node i n (transmitting k c) = transmitting k (put_node i n c)" for i n
    by (simp add: transmitting_def put_port_def put_node_def)
  moreover have "c_nodes (transmitting k c) = c_nodes c" by (simp add: transmitting_def)
  ultimately show ?case using Cons.IH by (auto split: option.splits)
qed simp

lemma new_stream_node_ok:
  assumes "s_type s \<noteq> stNONE"
  obtains n where "new_stream_node c s = Some n" and "n_port_id n = s_port_id s"
    and "n_state n = (if s_self_start s then ss_ACTIVE else ss_INACTIVE)" and "\<not> n_pause n"
    and "n_ref_stream_info n = Some (stream_clone s)" and "n_next_stream n = None" and "n_stream_type n \<in> {stCONTINUOUS, stMULTI_BURST}"
  using assms by (cases "s_type s") (auto simp: new_stream_node_def node_bursts_def)

lemma add_stream_ok:
  assumes ok: "core_ok c" and k: "k < 2" and tr: "pp_state (c_ports c k) = ppSTATE_TRANSMITTING"
    and s: "s_type s \<noteq> stNONE" "s_port_id s = c_local_port_offset c + of_nat k"
    and room: "unat (pp_active_streams (c_ports c k)) + 1 < 2 ^ 32"
  shows "\<exists>c'. add_stream k s c = Some c' \<and> core_ok c' \<and> c_local_port_offset c' = c_local_port_offset c \<and>
    pp_state (c_ports c' k) = ppSTATE_TRANSMITTING \<and>
    pp_active_nodes (c_ports c' k) = pp_active_nodes (c_ports c k) @ [c_next_node c] \<and>
    unat (pp_active_streams (c_ports c' k)) \<le> unat (pp_active_streams (c_ports c k)) + 1"
proof -
  obtain n where n: "new_stream_node c s = Some n" "n_port_id n = s_port_id s"
    "n_state n = (if s_self_start s then ss_ACTIVE else ss_INACTIVE)" "\<not> n_pause n"
    "n_ref_stream_info n = Some (stream_clone s)" "n_next_stream n = None" "n_stream_type n \<in> {stCONTINUOUS, stMULTI_BURST}"
    by (rule new_stream_node_ok [OF s(1)])
  define i where "i = c_next_node c"
  define A where "A = pp_active_streams (c_ports c k) + (if s_self_start s then 1 else 0)"
  define c1 where "c1 = (if s_self_start s then pq_push i else (\<lambda>c. c))
    (put_port k ((c_ports c k)\<lparr>pp_active_streams := A, pp_active_nodes := pp_active_nodes (c_ports c k) @ [i]\<rparr>)
      (put_node i n (c\<lparr>c_next_node := i + 1\<rparr>)))"
  have add: "add_stream k s c = Some c1"
    using n by (auto simp: add_stream_def c1_def i_def A_def Let_def)
  have st: "store_ok {} c" using ok by (simp add: core_ok_but_def)
  have fresh: "c_nodes c i = None"
  proof (rule ccontr)
    assume "c_nodes c i \<noteq> None"
    then show False using store_ok_node(1) [OF st] by (auto simp: i_def)
  qed
  have out: "i \<notin> set (pp_active_nodes (c_ports c l))" if "l < 2" for l
    using core_ok_port [OF ok that] fresh by (auto simp: port_ok_def)
  have f: "c_local_port_offset c1 = c_local_port_offset c" "c_next_node c1 = i + 1" "c_nodes c1 = (c_nodes c)(i \<mapsto> n)"
    "c_queue c1 = (if s_self_start s then i # c_queue c else c_queue c)"
    "\<And>l. l \<noteq> k \<Longrightarrow> c_ports c1 l = c_ports c l"
    "pp_active_nodes (c_ports c1 k) = pp_active_nodes (c_ports c k) @ [i]" "pp_active_streams (c_ports c1 k) = A"
    "\<And>l. pp_state (c_ports c1 l) = pp_state (c_ports c l)"
    by (auto simp: c1_def put_port_def put_node_def pq_push_def)
  have nodes: "set (pp_active_nodes (c_ports c1 l)) = set (pp_active_nodes (c_ports c l)) \<union> (if l = k then {i} else {})" for l
    by (cases "l = k") (simp_all add: f)
  have A: "unat A = unat (pp_active_streams (c_ports c k)) + (if s_self_start s then 1 else 0)"
    using room unat_suc_word [of "pp_active_streams (c_ports c k)"] by (simp add: A_def)
  have q: "j \<in> set (c_queue c1) \<longleftrightarrow> (\<exists>n. c_nodes c1 j = Some n \<and> n_state n \<noteq> ss_INACTIVE)" for j
    using st n(3) fresh by (auto simp: f store_ok_def)
  have "store_ok {} c1"
    unfolding store_ok_def
  proof (intro conjI allI impI)
    show "unat (c_local_port_offset c1) + 1 < 256" using st by (simp add: store_ok_def f)
    show "distinct (c_queue c1)" using st fresh by (auto simp: store_ok_def f)
    show "j \<in> set (c_queue c1) \<longleftrightarrow> j \<notin> {} \<and> (\<exists>n. c_nodes c1 j = Some n \<and> n_state n \<noteq> ss_INACTIVE)" for j
      using q [of j] by simp
    show "j < c_next_node c1" if "c_nodes c1 j = Some m" for j m
      using that store_ok_node(1) [OF st, of j] by (auto simp: f i_def split: if_splits intro: less_SucI)
    show "\<exists>l<2. j \<in> set (pp_active_nodes (c_ports c1 l))"
      if "c_nodes c1 j = Some m" "n_state m \<noteq> ss_FREE_RESUSE" for j m
      using that store_ok_node(2) [OF st, of j m] k by (cases "j = i") (auto simp: f(3) nodes)
    show "set (pp_active_nodes (c_ports c1 0)) \<inter> set (pp_active_nodes (c_ports c1 1)) = {}"
      using st out [of 0] out [of 1] by (auto simp: nodes store_ok_def)
  qed
  moreover have "port_ok c1 l" if l: "l < 2" for l
  proof -
    have p: "port_ok c l" using core_ok_port [OF ok l] .
    have fin: "finite (act c l)" by (simp add: act_def)
    have "act c1 l = (if l = k \<and> s_self_start s then insert i (act c l) else act c l)"
      using out [OF l] n(3) unfolding act_def nodes by (auto simp: f)
    moreover have "i \<notin> act c l" using out [OF l] by (simp add: act_def)
    ultimately have cnt: "unat (pp_active_streams (c_ports c1 l)) = card (act c1 l)"
      using p A fin by (cases "l = k") (simp_all add: port_ok_def f)
    have node: "\<exists>m. c_nodes c1 j = Some m \<and> port_node_ok c1 l m" if j: "j \<in> set (pp_active_nodes (c_ports c1 l))" for j
    proof (cases "j = i")
      case True
      then have "l = k" using j out [OF l] nodes by (auto split: if_splits)
      then show ?thesis using True n s(2) tr by (simp add: f port_node_ok_def)
    next
      case False
      then obtain m where "c_nodes c j = Some m" "port_node_ok c l m"
        using p j nodes by (auto simp: port_ok_def split: if_splits)
      then show ?thesis using False by (auto simp: f(1,3,8) port_node_ok_def nodes)
    qed
    have "distinct (pp_active_nodes (c_ports c1 l))"
      using p out [OF l] by (cases "l = k") (simp_all add: port_ok_def f)
    then show ?thesis
      using cnt node p tr by (cases "l = k") (auto simp: port_ok_def f)
  qed
  ultimately have "core_ok c1" by (intro core_okI)
  then show ?thesis using add tr A by (auto simp: f i_def)
qed

lemma add_streams_ok:
  assumes "core_ok c" and k: "k < 2" and "pp_state (c_ports c k) = ppSTATE_TRANSMITTING"
    and "\<forall>s\<in>set ss. s_type s \<noteq> stNONE \<and> s_port_id s = pid" and "pid = c_local_port_offset c + of_nat k"
    and "unat (pp_active_streams (c_ports c k)) + length ss < 2 ^ 32"
  shows "\<exists>c'. add_streams k pid ss c = Some c' \<and> core_ok c' \<and>
    pp_state (c_ports c' k) = ppSTATE_TRANSMITTING \<and>
    length (pp_active_nodes (c_ports c' k)) = length (pp_active_nodes (c_ports c k)) + length ss"
  using assms
proof (induction ss arbitrary: c)
  case (Cons s ss)
  have room: "unat (pp_active_streams (c_ports c k)) + 1 < 2 ^ 32" using Cons.prems(6) by simp
  obtain c1 where c1: "add_stream k s c = Some c1" "core_ok c1" "c_local_port_offset c1 = c_local_port_offset c"
    "pp_state (c_ports c1 k) = ppSTATE_TRANSMITTING"
    "pp_active_nodes (c_ports c1 k) = pp_active_nodes (c_ports c k) @ [c_next_node c]"
    "unat (pp_active_streams (c_ports c1 k)) \<le> unat (pp_active_streams (c_ports c k)) + 1"
    using add_stream_ok [OF Cons.prems(1,2,3) _ _ room, of s] Cons.prems(4,5) by auto
  have "unat (pp_active_streams (c_ports c1 k)) + length ss < 2 ^ 32" using c1(6) Cons.prems(6) by simp
  then obtain c' where "add_streams k pid ss c1 = Some c'" "core_ok c'"
    "pp_state (c_ports c' k) = ppSTATE_TRANSMITTING"
    "length (pp_active_nodes (c_ports c' k)) = length (pp_active_nodes (c_ports c1 k)) + length ss"
    using Cons.IH [OF c1(2) k c1(4)] Cons.prems(4,5) c1(3) by auto
  then show ?case using c1(1,5) Cons.prems(4) by auto
qed simp

lemma link_streams_ok:
  assumes "core_ok c" and k: "k < 2" and "nodes = pp_active_nodes (c_ports c k)"
    and "\<forall>s\<in>set ss. s_next_stream_id s < int (length nodes)" and "cnt + length ss \<le> length nodes"
  shows "\<exists>c'. link_streams nodes cnt ss c = Some c' \<and> core_ok c' \<and> c_ports c' = c_ports c"
  using assms
proof (induction ss arbitrary: cnt c)
  case (Cons s ss)
  note IH = Cons.IH [OF _ k]
  show ?case
  proof (cases "is_dp_next_stream s")
    case False
    then show ?thesis using IH [of c "cnt + 1"] Cons.prems by simp
  next
    case True
    let ?i = "nodes ! cnt" and ?x = "nodes ! nat (s_next_stream_id s)"
    have idx: "cnt < length nodes" "nat (s_next_stream_id s) < length nodes" "s_next_stream_id s < int (length nodes)"
      using Cons.prems(4,5) by auto
    then have i: "?i \<in> set (pp_active_nodes (c_ports c k))" "?x \<in> set (pp_active_nodes (c_ports c k))"
      using Cons.prems(3) by auto
    obtain n where n: "c_nodes c ?i = Some n" "port_node_ok c k n"
      using core_ok_port [OF Cons.prems(1) k] i(1) by (auto simp: port_ok_def)
    let ?c = "put_node ?i (n\<lparr>n_next_stream := Some ?x\<rparr>) c"
    have "core_ok ?c"
    proof (rule put_node_ok [OF Cons.prems(1) n(1)])
      fix l assume "l < 2" "?i \<in> set (pp_active_nodes (c_ports c l))"
      then have "l = k" using port_node_ok_unique [OF Cons.prems(1) _ k _ i(1)] by simp
      then show "port_node_ok c l (n\<lparr>n_next_stream := Some ?x\<rparr>)"
        using n(2) i(2) by (simp add: port_node_ok_def)
    qed simp
    from IH [OF this, of "cnt + 1"] Cons.prems True idx n show ?thesis by simp
  qed
qed simp

text \<open>What the control plane promises of a start message: see \<open>TrexStreamsCompiler\<close>.\<close>

definition streams_ok :: "u8 \<Rightarrow> TrexStream list \<Rightarrow> bool" where
  "streams_ok pid ss \<longleftrightarrow> length ss < 2 ^ 32 \<and>
     list_all (\<lambda>s. s_type s \<noteq> stNONE \<and> s_port_id s = pid \<and> s_next_stream_id s < int (length ss)) ss"

lemma start_traffic_ok:
  assumes ok: "core_ok c" and db: "get_port_db c pid = Some k" and empty: "pp_active_nodes (c_ports c k) = []"
    and ss: "streams_ok pid ss"
  shows "\<exists>c'. start_traffic pid ss duration e c = Some c' \<and> core_ok c' \<and>
    pp_state (c_ports c' k) = ppSTATE_TRANSMITTING \<and> length (pp_active_nodes (c_ports c' k)) = length ss"
proof -
  have k: "k < 2" "pid = c_local_port_offset c + of_nat k" using get_port_db_Some [OF db] by auto
  let ?c1 = "put_port k ((c_ports c k)\<lparr>pp_active_streams := 0, pp_event_id := e\<rparr>) c"
  have p1: "pp_active_nodes (c_ports (transmitting k ?c1) k) = []" "pp_active_streams (c_ports (transmitting k ?c1) k) = 0"
    "pp_state (c_ports (transmitting k ?c1) k) = ppSTATE_TRANSMITTING" "c_nodes (transmitting k ?c1) = c_nodes c"
    "c_queue (transmitting k ?c1) = c_queue c" "c_next_node (transmitting k ?c1) = c_next_node c"
    "c_local_port_offset (transmitting k ?c1) = c_local_port_offset c"
    "\<And>l. l \<noteq> k \<Longrightarrow> c_ports (transmitting k ?c1) l = c_ports c l"
    "\<And>l. pp_active_nodes (c_ports (transmitting k ?c1) l) = pp_active_nodes (c_ports c l)"
    using empty by (auto simp: transmitting_def put_port_def)
  have ok1: "core_ok (transmitting k ?c1)"
  proof (rule core_okI)
    show "store_ok {} (transmitting k ?c1)"
      using ok by (simp add: core_ok_but_def store_ok_def p1(4-7,9))
    fix l :: nat assume "l < 2"
    then have "port_ok c l" by (rule core_ok_port [OF ok])
    then show "port_ok (transmitting k ?c1) l"
      using p1 by (cases "l = k") (auto simp: port_ok_def act_def port_node_ok_def)
  qed
  have all: "\<forall>s\<in>set ss. s_type s \<noteq> stNONE \<and> s_port_id s = pid" "\<forall>s\<in>set ss. s_next_stream_id s < int (length ss)"
    using ss by (auto simp: streams_ok_def list_all_iff)
  obtain c2 where c2: "add_streams k pid ss (transmitting k ?c1) = Some c2" "core_ok c2"
    "pp_state (c_ports c2 k) = ppSTATE_TRANSMITTING" "length (pp_active_nodes (c_ports c2 k)) = length ss"
    using add_streams_ok [OF ok1 k(1) p1(3) all(1)] k(2) ss empty by (auto simp: p1(2,7,9) streams_ok_def)
  obtain c3 where c3: "link_streams (pp_active_nodes (c_ports c2 k)) 0 ss c2 = Some c3" "core_ok c3"
    "c_ports c3 = c_ports c2"
    using link_streams_ok [OF c2(2) k(1) refl, of ss 0] all(2) c2(4) by auto
  obtain d2 where d2: "add_streams k pid ss ?c1 = Some d2" "c2 = transmitting k d2"
    using c2(1) by (auto simp: add_streams_transmitting)
  then have nodes: "pp_active_nodes (c_ports d2 k) = pp_active_nodes (c_ports c2 k)"
    by (simp add: transmitting_def put_port_def)
  obtain d3 where d3: "link_streams (pp_active_nodes (c_ports c2 k)) 0 ss d2 = Some d3" "c3 = transmitting k d3"
    using c3(1) d2(2) by (auto simp: link_streams_transmitting)
  have "start_traffic pid ss duration e c =
      Some (add_port_duration duration pid e (c3\<lparr>c_state := STATE_TRANSMITTING\<rparr>))"
    using db empty d2(1) d3 nodes c2(4)
    by (simp add: start_traffic_def on_port_def Let_def transmitting_def put_port_def)
  moreover have "core_ok (add_port_duration duration pid e (c3\<lparr>c_state := STATE_TRANSMITTING\<rparr>))"
    using c3(2) by (simp add: add_port_duration_def)
  ultimately show ?thesis using c3(3) c2(3,4) by (simp add: add_port_duration_def)
qed

end
