(* ===== verification/Stateless_Dp_Machine.thy ===== *)
theory Stateless_Dp_Machine
  imports Stateless_Dp_Inv
begin

text \<open>
  A data-path core as a machine whose events are the messages of the control plane
  (\<open>trex_stateless_messaging.cpp\<close> calls the handlers of \<open>TrexStatelessDpCore\<close>) and the turns of
  the scheduler, in any order, and the properties of its runs.
\<close>

section \<open>Events\<close>

datatype dp_event =
    EvStart u8 "TrexStream list" rat int
  | EvStop u8 bool int
  | EvPause u8
  | EvResume u8
  | EvUpdate u8 rat
  | EvSched nat
  | EvTime rat

fun dp_step :: "dp_event \<Rightarrow> TrexStatelessDpCore \<Rightarrow> TrexStatelessDpCore option" where
  "dp_step (EvStart port_id streams duration event_id) c = start_traffic port_id streams duration event_id c"
| "dp_step (EvStop port_id stop_on_id event_id) c = stop_traffic port_id stop_on_id event_id c"
| "dp_step (EvPause port_id) c = pause_traffic port_id c"
| "dp_step (EvResume port_id) c = resume_traffic port_id c"
| "dp_step (EvUpdate port_id factor) c = update_traffic port_id factor c"
| "dp_step (EvSched i) c = sched_node i c"
| "dp_step (EvTime t) c = Some (c\<lparr>c_cur_time_sec := t\<rparr>)"

text \<open>
  The control plane sends a message to the core of its port, in the state of the port it fits
  (\<open>TrexStatelessPort::verify_state\<close>); the scheduler takes the top of the queue.
\<close>

definition port_in :: "TrexStatelessDpCore \<Rightarrow> u8 \<Rightarrow> pp_state_e set \<Rightarrow> bool" where
  "port_in c port_id S = (case get_port_db c port_id of None \<Rightarrow> False | Some k \<Rightarrow> pp_state (c_ports c k) \<in> S)"

fun dp_allowed :: "dp_event \<Rightarrow> TrexStatelessDpCore \<Rightarrow> bool" where
  "dp_allowed (EvStart port_id streams duration event_id) c =
     (port_in c port_id {ppSTATE_IDLE} \<and> streams_ok port_id streams)"
| "dp_allowed (EvStop port_id stop_on_id event_id) c = (get_port_db c port_id \<noteq> None)"
| "dp_allowed (EvPause port_id) c = port_in c port_id {ppSTATE_TRANSMITTING}"
| "dp_allowed (EvResume port_id) c = port_in c port_id {ppSTATE_PAUSE}"
| "dp_allowed (EvUpdate port_id factor) c = port_in c port_id {ppSTATE_TRANSMITTING, ppSTATE_PAUSE}"
| "dp_allowed (EvSched i) c = is_top i c"
| "dp_allowed (EvTime t) c = (c_cur_time_sec c \<le> t)"

definition dp_init :: "TrexStatelessDpCore \<Rightarrow> bool" where
  "dp_init c \<longleftrightarrow> (\<exists>d c0. unat d < 128 \<and> c_nodes c0 = Map.empty \<and> c_queue c0 = [] \<and> c = core_create d c0)"

abbreviation dp_reachable :: "TrexStatelessDpCore \<Rightarrow> bool" where
  "dp_reachable \<equiv> reachable dp_init dp_allowed dp_step"

lemma core_create_ok:
  assumes "unat d < 128" and "c_nodes c0 = Map.empty" and "c_queue c0 = []"
  shows "core_ok (core_create d c0)"
proof -
  have "unat (2 * d) = 2 * unat d" using assms(1) by (simp add: unat_word_ariths)
  then have "unat (c_local_port_offset (core_create d c0)) + 1 < 256"
    using assms(1) by (simp add: core_create_def)
  moreover have "pp_active_nodes (c_ports (core_create d c0) k) = []"
    "pp_active_streams (c_ports (core_create d c0) k) = 0" if "k < 2" for k
    using that by (simp_all add: core_create_def port_create_def NUM_PORTS_PER_CORE_def)
  moreover have "c_nodes (core_create d c0) = Map.empty" "c_queue (core_create d c0) = []"
    using assms(2,3) by (simp_all add: core_create_def)
  ultimately show ?thesis
    by (intro core_okI) (simp_all add: store_ok_def port_ok_def act_def)
qed

lemma dp_step_ok:
  assumes "core_ok c" and "dp_allowed e c"
  shows "\<exists>c'. dp_step e c = Some c' \<and> core_ok c'"
proof (cases e)
  case (EvStart pid ss d ev)
  then obtain k where "get_port_db c pid = Some k" "pp_state (c_ports c k) = ppSTATE_IDLE" "streams_ok pid ss"
    using assms(2) by (auto simp: port_in_def split: option.splits)
  moreover from this have "pp_active_nodes (c_ports c k) = []"
    using core_ok_port [OF assms(1), of k] get_port_db_Some by (auto simp: port_ok_def)
  ultimately show ?thesis using start_traffic_ok [OF assms(1)] EvStart by fastforce
next
  case (EvStop pid b ev)
  then show ?thesis using assms stop_traffic_ok [OF assms(1)] by auto
next
  case (EvPause pid)
  then show ?thesis using assms(2) pause_traffic_ok [OF assms(1), of pid]
    by (auto simp: port_in_def split: option.splits)
next
  case (EvResume pid)
  then show ?thesis using assms(2) resume_traffic_ok [OF assms(1), of pid]
    by (auto simp: port_in_def split: option.splits)
next
  case (EvUpdate pid f)
  then show ?thesis using assms(2) update_traffic_ok [OF assms(1), of pid]
    by (auto simp: port_in_def split: option.splits)
next
  case (EvSched i)
  then show ?thesis using assms sched_node_ok [OF assms(1)] by (simp add: is_top_def)
next
  case (EvTime t)
  then show ?thesis using assms(1)
    by (simp add: core_ok_but_def store_ok_def port_ok_def port_node_ok_def act_def)
qed

interpretation dp: checked_machine dp_init dp_allowed dp_step core_ok
  by unfold_locales (auto simp: dp_init_def core_create_ok dp_step_ok)

section \<open>No handler fails\<close>

definition demo_stream :: TrexStream where
  "demo_stream = (TrexStream_new stMULTI_BURST 0 0)
     \<lparr>s_self_start := True, s_pps := 1, s_burst_total_pkts := 2, s_num_bursts := 3, s_ibg_usec := 1000000\<rparr>"

definition demo_memory :: TrexStatelessDpCore where
  "demo_memory = \<lparr>c_local_port_offset = 0, c_state = STATE_IDLE,
     c_ports = (\<lambda>k. \<lparr>pp_state = ppSTATE_IDLE, pp_port_id = 0, pp_active_streams = 0, pp_active_nodes = [], pp_event_id = 0\<rparr>),
     c_nodes = Map.empty, c_next_node = 0, c_queue = [], c_cur_time_sec = 0, c_sent = [], c_events = [], c_stop_cmds = []\<rparr>"

definition demo_core :: TrexStatelessDpCore where
  "demo_core = core_create 0 demo_memory"

lemmas demo_simps = TrexStream_new_def stream_clone_def demo_core_def demo_memory_def demo_stream_def core_create_def port_create_def get_port_db_def port_in_def
  NUM_PORTS_PER_CORE_def

lemma demo_core_init: "dp_reachable demo_core"
  by (rule reachable.start)
    (simp add: dp_init_def demo_core_def, rule exI [of _ 0], simp, rule exI [of _ demo_memory], simp add: demo_memory_def)



lemma demo_started:
  obtains c where "dp_step (EvStart 0 [demo_stream] 10 7) demo_core = Some c" and "dp_reachable c"
    and "c_queue c = [0]" and "pp_state (c_ports c 0) = ppSTATE_TRANSMITTING" and "c_local_port_offset c = 0"
    and "c_nodes c 0 = Some \<lparr>n_time = 0, n_next_time_offset = 1, n_ibg_sec = 1, n_state = ss_ACTIVE, n_port_id = 0,
      n_stream_type = stMULTI_BURST, n_pause = False, n_single_burst = 2, n_single_burst_refill = 2,
      n_multi_bursts = 3, n_ref_stream_info = Some demo_stream, n_next_stream = None\<rparr>"
    and "c_sent c = []" and "pp_active_nodes (c_ports c 0) = [0]" and "pp_event_id (c_ports c 0) = 7" and "c_events c = []"
    and "pp_state (c_ports c 1) = ppSTATE_IDLE"
proof -
  let ?e = "EvStart 0 [demo_stream] 10 7"
  have "dp_allowed ?e demo_core" by (simp add: demo_simps streams_ok_def Let_def)
  then obtain c where c: "dp_step ?e demo_core = Some c" "dp_reachable c"
    using dp.never_fails [OF demo_core_init] by blast
  show thesis
    by (rule that [OF c])
      (use c(1) in \<open>simp_all add: demo_simps start_traffic_def on_port_def add_stream_def new_stream_node_def
        node_bursts_def usec_to_sec_def is_dp_next_stream_def Let_def put_port_def put_node_def pq_push_def
        add_port_duration_def del: one_add_one, auto simp: port_create_def\<close>)
qed

text \<open>
  C22. The books of a core are right in every reachable state: the scheduler's queue holds, once
  each, exactly the nodes that are active or wait to be freed, the counter of active streams of a
  port is the number of its active nodes, and an idle port has no nodes.
\<close>

theorem dp_accounting:
  assumes "dp_reachable c" and "k < 2"
  shows "distinct (c_queue c) \<and>
    set (c_queue c) = {i. \<exists>n. c_nodes c i = Some n \<and> n_state n \<noteq> ss_INACTIVE} \<and>
    unat (pp_active_streams (c_ports c k)) =
      card {i \<in> set (pp_active_nodes (c_ports c k)). \<exists>n. c_nodes c i = Some n \<and> n_state n = ss_ACTIVE} \<and>
    (pp_state (c_ports c k) = ppSTATE_IDLE \<longrightarrow> pp_active_nodes (c_ports c k) = [])"
proof -
  have "core_ok c" by (rule dp.reachable_inv [OF assms(1)])
  then have "store_ok {} c" "port_ok c k" using core_ok_port [OF _ assms(2)] by (simp_all add: core_ok_but_def)
  then show ?thesis by (auto simp: store_ok_def port_ok_def act_def)
qed

theorem dp_accounting_witness:
  "\<exists>c. dp_step (EvStart 0 [demo_stream] 10 7) demo_core = Some c \<and> unat (pp_active_streams (c_ports c 0)) = 1"
proof -
  obtain c where c: "dp_step (EvStart 0 [demo_stream] 10 7) demo_core = Some c" "dp_reachable c"
    "c_nodes c 0 = Some \<lparr>n_time = 0, n_next_time_offset = 1, n_ibg_sec = 1, n_state = ss_ACTIVE, n_port_id = 0,
      n_stream_type = stMULTI_BURST, n_pause = False, n_single_burst = 2, n_single_burst_refill = 2,
      n_multi_bursts = 3, n_ref_stream_info = Some demo_stream, n_next_stream = None\<rparr>"
    "pp_active_nodes (c_ports c 0) = [0]"
    by (rule demo_started)
  have "{i \<in> set (pp_active_nodes (c_ports c 0)). \<exists>n. c_nodes c i = Some n \<and> n_state n = ss_ACTIVE} = {0}"
    using c(3,4) by auto
  then show ?thesis using dp_accounting [OF c(2), of 0] c(1) by auto
qed

section \<open>Stopping a port\<close>

text \<open>
  Stopping a busy port always succeeds, makes it idle, posts its event to the control plane,
  leaves the other port alone and gives up every node: a node that was scheduled is marked for the
  scheduler to free, every other node is freed at once.
\<close>

lemma stop_traffic_releases:
  assumes "dp_reachable c" and "get_port_db c pid = Some k" and "pp_state (c_ports c k) \<noteq> ppSTATE_IDLE"
  shows "\<exists>c'. stop_traffic pid False e c = Some c' \<and> pp_state (c_ports c' k) = ppSTATE_IDLE \<and>
    c_events c' = c_events c @ [(pid, pp_event_id (c_ports c k))] \<and> c_ports c' (1 - k) = c_ports c (1 - k) \<and>
    (\<forall>i\<in>set (pp_active_nodes (c_ports c k)).
      if i \<in> set (c_queue c) then \<exists>n. c_nodes c' i = Some n \<and> is_mask_for_free n else c_nodes c' i = None)"
proof -
  have ok: "core_ok c" by (rule dp.reachable_inv [OF assms(1)])
  have k: "k < 2" using get_port_db_Some [OF assms(2)] by simp
  let ?c = "(stopped_core k c)\<lparr>c_events := c_events c @ [(pid, pp_event_id (c_ports c k))]\<rparr>"
  have stop: "stop_traffic pid False e c = Some ?c" using stop_traffic_cases [OF ok assms(2)] assms(3) by simp
  have nodes: "\<forall>i\<in>set (pp_active_nodes (c_ports c k)).
      if i \<in> set (c_queue c) then \<exists>n. c_nodes ?c i = Some n \<and> is_mask_for_free n else c_nodes ?c i = None"
  proof
    fix i assume i: "i \<in> set (pp_active_nodes (c_ports c k))"
    obtain n where n: "c_nodes c i = Some n" "n_state n \<noteq> ss_FREE_RESUSE"
      using core_ok_port [OF ok k] i by (auto simp: port_ok_def port_node_ok_def)
    moreover have "i \<in> set (c_queue c) \<longleftrightarrow> n_state n \<noteq> ss_INACTIVE"
      using ok n(1) by (auto simp: core_ok_but_def store_ok_def)
    ultimately show "if i \<in> set (c_queue c) then \<exists>n. c_nodes ?c i = Some n \<and> is_mask_for_free n else c_nodes ?c i = None"
      using i by (cases "n_state n") (auto simp: stopped_core_other is_mask_for_free_def mark_for_free_def)
  qed
  have "1 - k \<noteq> k" by (cases k) auto
  then show ?thesis
    by (intro exI [of _ ?c] conjI stop nodes) (simp_all add: stopped_core_other(1,7))
qed

text \<open>The scheduler's turns for a list of nodes.\<close>

fun sched_all :: "nat list \<Rightarrow> TrexStatelessDpCore \<Rightarrow> TrexStatelessDpCore option" where
  "sched_all [] c = Some c"
| "sched_all (i # is) c = (case sched_node i c of None \<Rightarrow> None | Some c' \<Rightarrow> sched_all is c')"

lemma sched_all_free:
  assumes "c_queue c = is" and "\<forall>i\<in>set is. \<exists>n. c_nodes c i = Some n \<and> n_state n = ss_FREE_RESUSE" and "distinct is"
  shows "sched_all is c = Some (c\<lparr>c_queue := [], c_nodes := c_nodes c |` (- set is)\<rparr>)"
  using assms
proof (induction "is" arbitrary: c)
  case Nil
  then show ?case by (cases c) simp
next
  case (Cons i js)
  let ?c = "c\<lparr>c_queue := js, c_nodes := (c_nodes c)(i := None)\<rparr>"
  have "sched_node i c = Some ?c"
    using Cons.prems by (auto simp: sched_node_def Let_def pq_pop_def free_node_def is_mask_for_free_def)
  moreover have "sched_all js ?c = Some (?c\<lparr>c_queue := [], c_nodes := c_nodes ?c |` (- set js)\<rparr>)"
    by (rule Cons.IH) (use Cons.prems in auto)
  moreover have "c_nodes ?c |` (- set js) = c_nodes c |` (- set (i # js))"
    by (auto simp: restrict_map_def fun_eq_iff)
  ultimately show ?case by simp
qed

text \<open>
  Nothing leaks: once both ports are idle, the scheduler frees every node that is left in its
  queue without sending anything, and no node remains.
\<close>

lemma idle_core_drains:
  assumes "dp_reachable c" and "are_all_ports_idle c"
  shows "\<exists>c'. sched_all (c_queue c) c = Some c' \<and> c_nodes c' = Map.empty \<and> c_queue c' = [] \<and> c_sent c' = c_sent c"
proof -
  have ok: "core_ok c" by (rule dp.reachable_inv [OF assms(1)])
  then have st: "store_ok {} c" by (simp add: core_ok_but_def)
  have empty: "pp_active_nodes (c_ports c k) = []" if "k < 2" for k
  proof -
    have "pp_state (c_ports c k) = ppSTATE_IDLE"
      using assms(2) that by (auto simp: are_all_ports_idle_def NUM_PORTS_PER_CORE_def less_Suc_eq numeral_2_eq_2)
    then show ?thesis using core_ok_port [OF ok that] by (simp add: port_ok_def)
  qed
  have free: "n_state n = ss_FREE_RESUSE" if n: "c_nodes c i = Some n" for i n
    using store_ok_node(2) [OF st n] empty by (metis empty_iff empty_set)
  then have q: "i \<in> set (c_queue c) \<longleftrightarrow> (\<exists>n. c_nodes c i = Some n)" for i
    using st by (auto simp: store_ok_def)
  have "sched_all (c_queue c) c = Some (c\<lparr>c_queue := [], c_nodes := c_nodes c |` (- set (c_queue c))\<rparr>)"
    by (rule sched_all_free) (use st q free in \<open>auto simp: store_ok_def\<close>)
  moreover have "c_nodes c |` (- set (c_queue c)) = Map.empty"
    using q by (auto simp: fun_eq_iff restrict_map_def)
  ultimately show ?thesis by simp
qed

section \<open>What the scheduler sends\<close>

fun sched_times :: "nat \<Rightarrow> nat \<Rightarrow> TrexStatelessDpCore \<Rightarrow> TrexStatelessDpCore option" where
  "sched_times 0 i c = Some c"
| "sched_times (Suc m) i c = (case sched_node i c of None \<Rightarrow> None | Some c' \<Rightarrow> sched_times m i c')"

lemma stop_nodes_log:
  "stop_nodes pid is (c, a) = Some (c', a') \<Longrightarrow> c_queue c' = c_queue c \<and> c_sent c' = c_sent c"
proof (induction "is" arbitrary: c a)
  case (Cons i js)
  then show ?case by (fastforce simp: put_node_def free_node_def split: option.splits if_splits)
qed simp

lemma stop_traffic_log:
  "stop_traffic pid b e c = Some c' \<Longrightarrow> c_queue c' = c_queue c \<and> c_sent c' = c_sent c"
  by (auto simp: stop_traffic_def on_port_def port_stop_traffic_def Let_def put_port_def dest: stop_nodes_log
      split: option.splits if_splits bool.splits prod.splits)

lemma set_next_node_log:
  assumes "set_stateless_next_node i x c = Some (b, c')"
  shows "c_queue c' = c_queue c" and "c_sent c' = c_sent c"
  using assms
  by (auto simp: set_stateless_next_node_def Let_def put_port_def put_node_def dest!: stop_traffic_log
      split: option.splits if_splits prod.splits)

text \<open>Packets a burst node has yet to send.\<close>

definition burst_left :: "CGenNodeStateless \<Rightarrow> nat" where
  "burst_left n = (unat (n_multi_bursts n) - 1) * unat (n_single_burst_refill n) + unat (n_single_burst n)"

definition bursting :: "TrexStatelessDpCore \<Rightarrow> nat \<Rightarrow> CGenNodeStateless \<Rightarrow> bool" where
  "bursting c i n \<longleftrightarrow> i \<in> set (c_queue c) \<and> c_nodes c i = Some n \<and> n_state n = ss_ACTIVE \<and>
     n_stream_type n = stMULTI_BURST \<and> 0 < n_single_burst n \<and> 0 < n_multi_bursts n \<and> 0 < n_single_burst_refill n"

lemma sched_burst:
  assumes "bursting c i n"
  shows "sched_node i c = handle_multi_burst i (pq_pop i c)"
  using assms by (simp add: bursting_def sched_node_def handle_node_def is_mask_for_free_def pq_pop_def)

lemma burst_step:
  assumes ok: "core_ok c" and b: "bursting c i n" and left: "1 < burst_left n"
  shows "\<exists>c' n'. sched_node i c = Some c' \<and> core_ok c' \<and> bursting c' i n' \<and> burst_left n' = burst_left n - 1 \<and>
    c_sent c' = i # c_sent c \<and> n_next_stream n' = n_next_stream n"
proof -
  have node: "c_nodes (pq_pop i c) i = Some n" using b by (simp add: bursting_def pq_pop_def)
  obtain c' where c': "sched_node i c = Some c'" "core_ok c'"
    using sched_node_ok [OF ok, of i] b by (auto simp: bursting_def)
  have pos: "0 < unat (n_single_burst n)" "0 < unat (n_multi_bursts n)" "0 < unat (n_single_burst_refill n)"
    using b by (simp_all add: bursting_def unat_gt_0 word_neq_0_conv)
  have dec: "unat (n_single_burst n - 1) = unat (n_single_burst n) - 1" "unat (n_multi_bursts n - 1) = unat (n_multi_bursts n) - 1"
    using pos by (simp_all add: unat_minus_one unat_gt_0)
  show ?thesis
  proof (cases "n_single_burst n - 1 > 0")
    case True
    let ?n = "n\<lparr>n_single_burst := n_single_burst n - 1, n_time := n_time n + n_next_time_offset n\<rparr>"
    have "c' = pq_push i (put_node i ?n (send_node i (pq_pop i c)))"
      using c'(1) node True by (simp add: sched_burst [OF b] handle_multi_burst_def Let_def)
    moreover have "burst_left ?n = burst_left n - 1" using pos dec by (simp add: burst_left_def)
    moreover have "c_sent (pq_pop i c) = c_sent c" by (simp add: pq_pop_def)
    ultimately show ?thesis using c' b True
      by (intro exI [of _ c'] exI [of _ ?n]) (simp add: bursting_def pq_push_def put_node_def send_node_def)
  next
    case False
    then have one: "unat (n_single_burst n) = 1" by (simp add: word_gt_0)
    then have many: "1 < unat (n_multi_bursts n)" using left pos by (cases "unat (n_multi_bursts n) - 1") (simp_all add: burst_left_def)
    have nz: "n_multi_bursts n - 1 \<noteq> 0" "0 < n_multi_bursts n - 1"
    proof -
      show less: "0 < n_multi_bursts n - 1" using many dec(2) by (simp add: word_less_nat_alt)
      show "n_multi_bursts n - 1 \<noteq> 0" using less by auto
    qed
    let ?n = "n\<lparr>n_multi_bursts := n_multi_bursts n - 1, n_time := n_time n + n_ibg_sec n,
        n_single_burst := n_single_burst_refill n\<rparr>"
    have "c' = pq_push i (put_node i ?n (send_node i (pq_pop i c)))"
      using c'(1) node False nz by (simp add: sched_burst [OF b] handle_multi_burst_def Let_def)
    moreover have "burst_left ?n = burst_left n - 1"
    proof -
      obtain m where m: "unat (n_multi_bursts n) = Suc (Suc m)" using many by (metis less_imp_Suc_add plus_1_eq_Suc)
      then show ?thesis using pos dec one by (simp add: burst_left_def)
    qed
    moreover have "c_sent (pq_pop i c) = c_sent c" by (simp add: pq_pop_def)
    ultimately show ?thesis using c' b nz
      by (intro exI [of _ c'] exI [of _ ?n]) (simp add: bursting_def pq_push_def put_node_def send_node_def)
  qed
qed

lemma burst_end:
  assumes ok: "core_ok c" and b: "bursting c i n" and left: "burst_left n = 1"
  shows "\<exists>c'. sched_node i c = Some c' \<and> c_sent c' = i # c_sent c \<and>
    (n_next_stream n = None \<longrightarrow> i \<notin> set (c_queue c'))"
proof -
  have node: "c_nodes (pq_pop i c) i = Some n" using b by (simp add: bursting_def pq_pop_def)
  obtain c' where c': "sched_node i c = Some c'"
    using sched_node_ok [OF ok, of i] b by (auto simp: bursting_def)
  have pos: "0 < unat (n_single_burst n)" "0 < unat (n_multi_bursts n)" "0 < unat (n_single_burst_refill n)"
    using b by (simp_all add: bursting_def unat_gt_0 word_neq_0_conv)
  have "(unat (n_multi_bursts n) - 1) * unat (n_single_burst_refill n) = 0" and one: "unat (n_single_burst n) = 1"
    using left pos unfolding burst_left_def by linarith+
  then have "unat (n_multi_bursts n) = 1" using pos by auto
  with one have w: "n_single_burst n = 1" "n_multi_bursts n = 1" by (simp_all add: word_unat_eq_iff)
  let ?n = "n\<lparr>n_single_burst := 0, n_multi_bursts := 0, n_state := ss_INACTIVE\<rparr>"
  let ?c = "put_node i ?n (send_node i (pq_pop i c))"
  have log: "c_sent ?c = i # c_sent c" "c_queue ?c = remove1 i (c_queue c)"
    by (simp_all add: put_node_def send_node_def pq_pop_def)
  have d: "distinct (c_queue c)" using ok by (simp add: core_ok_but_def store_ok_def)
  obtain r c2 where r: "set_stateless_next_node i (n_next_stream n) ?c = Some (r, c2)"
    using c' node w by (auto simp: sched_burst [OF b] handle_multi_burst_def Let_def split: option.splits)
  note log2 = set_next_node_log [OF r]
  show ?thesis
  proof (cases r)
    case False
    then have "c' = c2" using c' node w r by (simp add: sched_burst [OF b] handle_multi_burst_def Let_def)
    then show ?thesis using c' log log2 d by simp
  next
    case True
    then obtain x m where x: "n_next_stream n = Some x" "c' = pq_push x (put_node x m c2)"
      using c' node w r
      by (auto simp: sched_burst [OF b] handle_multi_burst_def Let_def split: option.splits)
    then show ?thesis using c' log log2 by (simp add: pq_push_def put_node_def)
  qed
qed

lemma sched_times_burst:
  assumes "core_ok c" and "bursting c i n"
  shows "\<exists>c'. sched_times (burst_left n) i c = Some c' \<and> c_sent c' = replicate (burst_left n) i @ c_sent c \<and>
    (n_next_stream n = None \<longrightarrow> i \<notin> set (c_queue c'))"
  using assms
proof (induction "burst_left n" arbitrary: c n)
  case 0
  then show ?case by (simp add: burst_left_def bursting_def unat_gt_0 unat_eq_0)
next
  case (Suc m)
  show ?case
  proof (cases "m = 0")
    case True
    then show ?thesis using burst_end [OF Suc.prems] Suc.hyps(2) by (auto simp: Suc.hyps(2) [symmetric])
  next
    case False
    obtain c1 n1 where c1: "sched_node i c = Some c1" "core_ok c1" "bursting c1 i n1" "burst_left n1 = m"
      "c_sent c1 = i # c_sent c" "n_next_stream n1 = n_next_stream n"
      using burst_step [OF Suc.prems] Suc.hyps(2) False by fastforce
    have rep: "replicate m i @ i # xs = i # replicate m i @ xs" for xs
      by (simp add: replicate_app_Cons_same)
    from Suc.hyps(1) [OF c1(4) [symmetric] c1(2,3)] c1 show ?thesis
      by (auto simp: Suc.hyps(2) [symmetric] rep)
  qed
qed

lemma burst_left_full:
  assumes "n_single_burst_refill n = n_single_burst n" and "0 < n_multi_bursts n"
  shows "burst_left n = unat (n_multi_bursts n) * unat (n_single_burst n)"
proof -
  obtain m where "unat (n_multi_bursts n) = Suc m"
    using assms(2) by (cases "unat (n_multi_bursts n)") (auto simp: unat_eq_0)
  then show ?thesis using assms(1) by (simp add: burst_left_def)
qed

text \<open>
  A burst stream sends exactly what was asked: a node that starts with \<open>M\<close> bursts of \<open>B\<close>
  packets (both positive) is sent once in each of its next \<open>M * B\<close> turns, and, when no stream
  follows it, is then out of the scheduler's queue.
\<close>

lemma burst_stream_sends:
  assumes "dp_reachable c" and "i \<in> set (c_queue c)" and "c_nodes c i = Some n" and "n_state n = ss_ACTIVE"
    and "n_stream_type n = stMULTI_BURST" and "n_single_burst n = n_single_burst_refill n"
    and "0 < n_single_burst n" and "0 < n_multi_bursts n"
  shows "\<exists>c'. sched_times (unat (n_multi_bursts n) * unat (n_single_burst n)) i c = Some c' \<and>
    c_sent c' = replicate (unat (n_multi_bursts n) * unat (n_single_burst n)) i @ c_sent c \<and>
    (n_next_stream n = None \<longrightarrow> i \<notin> set (c_queue c'))"
proof -
  have left: "burst_left n = unat (n_multi_bursts n) * unat (n_single_burst n)"
    by (rule burst_left_full) (use assms in simp_all)
  have "bursting c i n" using assms by (simp add: bursting_def)
  from sched_times_burst [OF dp.reachable_inv [OF assms(1)] this] show ?thesis by (simp add: left)
qed

text \<open>
  A continuous stream is sent once per turn, one inter-packet gap after the other, and a
  paused one keeps its place in time without sending.
\<close>

lemma continuous_stream_rate:
  assumes "i \<in> set (c_queue c)" and "c_nodes c i = Some n" and "n_state n = ss_ACTIVE"
    and "n_stream_type n = stCONTINUOUS"
  shows "\<exists>c'. sched_times m i c = Some c' \<and>
    c_sent c' = (if n_pause n then [] else replicate m i) @ c_sent c \<and>
    c_nodes c' i = Some (n\<lparr>n_time := n_time n + of_nat m * n_next_time_offset n\<rparr>) \<and> i \<in> set (c_queue c')"
  using assms
proof (induction m arbitrary: c n)
  case (Suc m)
  let ?n = "n\<lparr>n_time := n_time n + n_next_time_offset n\<rparr>"
  obtain c1 where c1: "sched_node i c = Some c1" "i \<in> set (c_queue c1)" "c_nodes c1 i = Some ?n"
    "c_sent c1 = (if n_pause n then [] else [i]) @ c_sent c"
    using Suc.prems by (simp add: sched_node_def handle_node_def handle_continues_def is_mask_for_free_def
        Let_def pq_pop_def pq_push_def put_node_def send_node_def)
  have rep: "replicate m i @ i # xs = i # replicate m i @ xs" for xs
    by (simp add: replicate_app_Cons_same)
  from Suc.IH [OF c1(2,3)] Suc.prems(3,4) c1 show ?case
    by (auto simp: rep algebra_simps)
qed (simp)

text \<open>
  C24. Resuming undoes pausing: a transmitting port that is paused and resumed leaves the core in
  the very state it had.
\<close>

theorem pause_resume_roundtrip:
  assumes "dp_reachable c" and db: "get_port_db c pid = Some k"
    and st: "pp_state (c_ports c k) = ppSTATE_TRANSMITTING"
  shows "\<exists>c1. pause_traffic pid c = Some c1 \<and> pp_state (c_ports c1 k) = ppSTATE_PAUSE \<and> resume_traffic pid c1 = Some c"
proof -
  have ok: "core_ok c" by (rule dp.reachable_inv [OF assms(1)])
  have k: "k < 2" using get_port_db_Some [OF db] by simp
  let ?p = "c_ports c k" and ?N = "set (pp_active_nodes (c_ports c k))"
  let ?paused = "\<lambda>j. if j \<in> ?N then map_option (set_pause True) (c_nodes c j) else c_nodes c j"
  let ?c1 = "put_port k (?p\<lparr>pp_state := ppSTATE_PAUSE\<rparr>) (c\<lparr>c_nodes := ?paused\<rparr>)"
  have "each_node (\<lambda>n. n_port_id n = pid \<and> \<not> n_pause n) (set_pause True) (pp_active_nodes ?p) c =
      Some (c\<lparr>c_nodes := ?paused\<rparr>)"
    by (rule each_port_node_eq [OF ok db]) (use st in \<open>simp add: port_node_ok_def\<close>)
  then have pause: "pause_traffic pid c = Some ?c1"
    using db st by (simp add: pause_traffic_def on_port_def port_pause_traffic_def Let_def)
  then have ok1: "core_ok ?c1" using pause_traffic_ok [OF ok db st] by auto
  have p1: "c_ports ?c1 k = ?p\<lparr>pp_state := ppSTATE_PAUSE\<rparr>" "c_nodes ?c1 = ?paused"
    by (simp_all add: put_port_def)
  have db1: "get_port_db ?c1 pid = Some k" using db get_port_db_cong [of ?c1 c] by (simp add: put_port_def)
  have unpaused: "\<exists>n. c_nodes c j = Some n \<and> \<not> n_pause n" if "j \<in> ?N" for j
    using core_ok_port [OF ok k] that st by (auto simp: port_ok_def port_node_ok_def)
  have set_set: "set_pause False (set_pause True n) = n" if "\<not> n_pause n" for n
    using that by (cases n) (simp add: set_pause_def)
  have undo: "(\<lambda>j. if j \<in> set (pp_active_nodes (c_ports ?c1 k)) then map_option (set_pause False) (c_nodes ?c1 j)
      else c_nodes ?c1 j) = c_nodes c"
    unfolding p1 using unpaused set_set by (fastforce simp: fun_eq_iff)
  have good: "n_port_id n = pid \<and> n_pause n" if "port_node_ok ?c1 k n" "n_port_id n = pid" for n
    using that p1 by (simp add: port_node_ok_def)
  have "each_node (\<lambda>n. n_port_id n = pid \<and> n_pause n) (set_pause False) (pp_active_nodes (c_ports ?c1 k)) ?c1 =
      Some (?c1\<lparr>c_nodes := c_nodes c\<rparr>)"
    using each_port_node_eq [OF ok1 db1, of "\<lambda>n. n_port_id n = pid \<and> n_pause n" "set_pause False"] good
    unfolding undo by blast
  then have "resume_traffic pid ?c1 =
      Some (put_port k (?p\<lparr>pp_state := ppSTATE_PAUSE, pp_state := ppSTATE_TRANSMITTING\<rparr>) (?c1\<lparr>c_nodes := c_nodes c\<rparr>))"
    using db1 p1 by (simp add: resume_traffic_def on_port_def port_resume_traffic_def Let_def)
  moreover have "?p\<lparr>pp_state := ppSTATE_TRANSMITTING\<rparr> = ?p" using st by (cases ?p) simp
  ultimately have "resume_traffic pid ?c1 = Some c" by (simp add: put_port_def)
  then show ?thesis using pause p1 by simp
qed

theorem pause_resume_roundtrip_witness:
  "\<exists>c c1. dp_step (EvStart 0 [demo_stream] 10 7) demo_core = Some c \<and> pause_traffic 0 c = Some c1 \<and>
     pp_state (c_ports c1 0) = ppSTATE_PAUSE \<and> resume_traffic 0 c1 = Some c"
proof -
  obtain c where c: "dp_step (EvStart 0 [demo_stream] 10 7) demo_core = Some c" "dp_reachable c"
    "pp_state (c_ports c 0) = ppSTATE_TRANSMITTING" "c_local_port_offset c = 0"
    by (rule demo_started)
  have "get_port_db c 0 = Some 0" using c(4) by (simp add: get_port_db_def NUM_PORTS_PER_CORE_def)
  from pause_resume_roundtrip [OF c(2) this c(3)] c(1) show ?thesis by auto
qed

end
