(* ===== verification/Stateless_Dp_Start.thy ===== *)
theory Stateless_Dp_Start
  imports Stateless_Dp_Machine
begin

text \<open>
  What \<open>TrexStatelessDpCore::start_traffic\<close> leaves behind, node by node, and the life of a port from
  start to end.
\<close>

section \<open>The nodes of a started port\<close>

lemma add_stream_eq:
  assumes "add_stream k s c = Some c'"
  shows "pp_active_nodes (c_ports c' k) = pp_active_nodes (c_ports c k) @ [c_next_node c] \<and>
    c_next_node c' = c_next_node c + 1 \<and> c_cur_time_sec c' = c_cur_time_sec c \<and> c_sent c' = c_sent c \<and>
    c_local_port_offset c' = c_local_port_offset c \<and> c_events c' = c_events c \<and> c_stop_cmds c' = c_stop_cmds c \<and>
    pp_event_id (c_ports c' k) = pp_event_id (c_ports c k) \<and>
    c_nodes c' = (c_nodes c)(c_next_node c := new_stream_node c s) \<and>
    c_queue c' = (if s_self_start s then [c_next_node c] else []) @ c_queue c"
proof -
  obtain n where n: "new_stream_node c s = Some n" using assms by (auto simp: add_stream_def split: option.splits)
  then have "n_state n = (if s_self_start s then ss_ACTIVE else ss_INACTIVE)"
    by (auto simp: new_stream_node_def node_bursts_def split: stream_type_t.splits)
  then show ?thesis
    using assms n by (auto simp: add_stream_def Let_def put_port_def put_node_def pq_push_def)
qed

lemma add_streams_eq:
  assumes "add_streams k pid ss c = Some c'"
  shows "pp_active_nodes (c_ports c' k) = pp_active_nodes (c_ports c k) @ [c_next_node c ..< c_next_node c + length ss] \<and>
    c_sent c' = c_sent c \<and> c_local_port_offset c' = c_local_port_offset c \<and>
    c_events c' = c_events c \<and> c_stop_cmds c' = c_stop_cmds c \<and> c_cur_time_sec c' = c_cur_time_sec c \<and>
    pp_event_id (c_ports c' k) = pp_event_id (c_ports c k) \<and>
    (\<forall>i. c_nodes c' i = (if c_next_node c \<le> i \<and> i < c_next_node c + length ss
       then new_stream_node c (ss ! (i - c_next_node c)) else c_nodes c i)) \<and>
    (\<forall>i. i \<in> set (c_queue c') \<longleftrightarrow> i \<in> set (c_queue c) \<or>
      (c_next_node c \<le> i \<and> i < c_next_node c + length ss \<and> s_self_start (ss ! (i - c_next_node c))))"
  using assms
proof (induction ss arbitrary: c)
  case (Cons s ss)
  then obtain c1 where c1: "add_stream k s c = Some c1" "add_streams k pid ss c1 = Some c'"
    by (auto split: if_splits option.splits)
  note eq = add_stream_eq [OF c1(1)]
  have node: "new_stream_node c1 = new_stream_node c" using eq by (simp add: fun_eq_iff new_stream_node_def)
  let ?b = "c_next_node c"
  have split: "?b \<le> i \<and> i < ?b + length (s # ss) \<longleftrightarrow> i = ?b \<or> Suc ?b \<le> i \<and> i < Suc ?b + length ss" for i by auto
  have nth: "(s # ss) ! (i - ?b) = ss ! (i - Suc ?b)" if "Suc ?b \<le> i" for i
    using that by (simp add: nth_Cons' Suc_diff_Suc)
  have upt: "[?b ..< ?b + length (s # ss)] = ?b # [Suc ?b ..< Suc ?b + length ss]"
    using upt_conv_Cons [of ?b "?b + length (s # ss)"] by (simp del: upt_Suc)
  have nodes: "c_nodes c' i = (if ?b \<le> i \<and> i < ?b + length (s # ss)
      then new_stream_node c ((s # ss) ! (i - ?b)) else c_nodes c i)" for i
    using Cons.IH [OF c1(2)] eq unfolding split node by (auto simp: nth)
  have queue: "i \<in> set (c_queue c') \<longleftrightarrow> i \<in> set (c_queue c) \<or>
      (?b \<le> i \<and> i < ?b + length (s # ss) \<and> s_self_start ((s # ss) ! (i - ?b)))" for i
    using Cons.IH [OF c1(2)] eq split [of i] by (auto simp: nth)
  show ?case unfolding upt using Cons.IH [OF c1(2)] eq nodes queue by simp
qed auto

definition relink :: "nat \<Rightarrow> TrexStream \<Rightarrow> CGenNodeStateless \<Rightarrow> CGenNodeStateless" where
  "relink b s n = (if is_dp_next_stream s then n\<lparr>n_next_stream := Some (b + nat (s_next_stream_id s))\<rparr> else n)"

lemma link_streams_eq:
  assumes "link_streams [b ..< b + N] cnt ss c = Some c'" and "cnt + length ss \<le> N"
  shows "c' = c\<lparr>c_nodes := (\<lambda>i. if b + cnt \<le> i \<and> i < b + cnt + length ss
     then map_option (relink b (ss ! (i - (b + cnt)))) (c_nodes c i) else c_nodes c i)\<rparr>"
  using assms
proof (induction ss arbitrary: cnt c)
  case (Cons s ss)
  define c1 where "c1 = c\<lparr>c_nodes := (c_nodes c)(b + cnt := map_option (relink b s) (c_nodes c (b + cnt)))\<rparr>"
  have "link_streams [b ..< b + N] (Suc cnt) ss c1 = Some c'"
  proof (cases "is_dp_next_stream s")
    case False
    then have "c1 = c" unfolding c1_def relink_def by (simp add: option.map_ident)
    then show ?thesis using Cons.prems(1) False by simp
  next
    case True
    then have nx: "s_next_stream_id s < int N" "0 \<le> s_next_stream_id s"
      using Cons.prems(1) by (auto simp: is_dp_next_stream_def split: if_splits)
    then have "[b ..< b + N] ! nat (s_next_stream_id s) = b + nat (s_next_stream_id s)" by (simp add: nat_less_iff)
    moreover have "[b ..< b + N] ! cnt = b + cnt" using Cons.prems(2) by simp
    ultimately show ?thesis
      using Cons.prems(1) True by (auto simp: c1_def relink_def put_node_def split: if_splits option.splits)
  qed
  from Cons.IH [OF this] Cons.prems(2)
  have c': "c' = c1\<lparr>c_nodes := \<lambda>i. if b + Suc cnt \<le> i \<and> i < b + Suc cnt + length ss
      then map_option (relink b (ss ! (i - (b + Suc cnt)))) (c_nodes c1 i) else c_nodes c1 i\<rparr>" by simp
  show ?case unfolding c' c1_def
    by (auto simp: fun_eq_iff nth_Cons' Suc_diff_Suc)
next
  case Nil
  have "(\<lambda>i. if b + cnt \<le> i \<and> i < b + cnt + length [] then x i else c_nodes c i) = c_nodes c" for x
    by (auto simp: fun_eq_iff)
  then show ?case using Nil.prems(1) by simp
qed

lemma start_traffic_split:
  assumes st: "start_traffic pid ss duration e c = Some c'" and db: "get_port_db c pid = Some k"
  obtains c1 c2 f where "c1 = put_port k ((c_ports c k)\<lparr>pp_active_streams := 0, pp_event_id := e\<rparr>) c"
    and "pp_active_nodes (c_ports c1 k) = []" and "add_streams k pid ss c1 = Some c2"
    and "pp_active_nodes (c_ports c2 k) = [c_next_node c ..< c_next_node c + length ss]"
    and "c' = add_port_duration duration pid e ((put_port k ((c_ports c2 k)\<lparr>pp_state := ppSTATE_TRANSMITTING\<rparr>)
      (c2\<lparr>c_nodes := f\<rparr>))\<lparr>c_state := STATE_TRANSMITTING\<rparr>)"
    and "\<forall>j<length ss. f (c_next_node c + j) =
      map_option (relink (c_next_node c) (ss ! j)) (c_nodes c2 (c_next_node c + j))"
proof -
  let ?c1 = "put_port k ((c_ports c k)\<lparr>pp_active_streams := 0, pp_event_id := e\<rparr>) c"
  let ?b = "c_next_node c"
  have "pp_active_nodes (c_ports c k) = []" using st db by (auto simp: start_traffic_def on_port_def put_port_def Let_def split: if_splits)
  then have empty: "pp_active_nodes (c_ports ?c1 k) = []" by (simp add: put_port_def)
  then obtain c2 c3 where c2: "add_streams k pid ss ?c1 = Some c2"
    and c3: "link_streams (pp_active_nodes (c_ports c2 k)) 0 ss c2 = Some c3"
    and c': "c' = add_port_duration duration pid e
      ((put_port k ((c_ports c3 k)\<lparr>pp_state := ppSTATE_TRANSMITTING\<rparr>) c3)\<lparr>c_state := STATE_TRANSMITTING\<rparr>)"
    using st db by (auto simp: start_traffic_def on_port_def Let_def split: if_splits option.splits)
  have "c_next_node ?c1 = ?b" by (simp add: put_port_def)
  then have act: "pp_active_nodes (c_ports c2 k) = [?b ..< ?b + length ss]"
    using add_streams_eq [OF c2] empty by simp
  note c3' = link_streams_eq [OF c3 [unfolded act]]
  have f: "c' = add_port_duration duration pid e ((put_port k ((c_ports c2 k)\<lparr>pp_state := ppSTATE_TRANSMITTING\<rparr>)
      (c2\<lparr>c_nodes := c_nodes c3\<rparr>))\<lparr>c_state := STATE_TRANSMITTING\<rparr>)"
    unfolding c' using c3' by simp
  show thesis by (rule that [OF refl empty c2 act f]) (use c3' in simp)
qed

lemma start_traffic_nodes:
  assumes st: "start_traffic pid ss duration e c = Some c'" and db: "get_port_db c pid = Some k"
  shows "pp_active_nodes (c_ports c' k) = [c_next_node c ..< c_next_node c + length ss]"
    and "c_sent c' = c_sent c" and "get_port_db c' = get_port_db c"
    and "\<And>j. j < length ss \<Longrightarrow> c_nodes c' (c_next_node c + j) =
      map_option (relink (c_next_node c) (ss ! j)) (new_stream_node c (ss ! j))"
    and "\<And>j. j < length ss \<Longrightarrow> s_self_start (ss ! j) \<Longrightarrow> c_next_node c + j \<in> set (c_queue c')"
    and "pp_event_id (c_ports c' k) = e" and "c_events c' = c_events c"
    and "c_stop_cmds c' = (if duration > 0 then [(c_cur_time_sec c + duration, pid, e)] else []) @ c_stop_cmds c"
proof -
  obtain c1 c2 f where c1: "c1 = put_port k ((c_ports c k)\<lparr>pp_active_streams := 0, pp_event_id := e\<rparr>) c"
    "pp_active_nodes (c_ports c1 k) = []" and c2: "add_streams k pid ss c1 = Some c2"
    and act: "pp_active_nodes (c_ports c2 k) = [c_next_node c ..< c_next_node c + length ss]"
    and c': "c' = add_port_duration duration pid e ((put_port k ((c_ports c2 k)\<lparr>pp_state := ppSTATE_TRANSMITTING\<rparr>)
      (c2\<lparr>c_nodes := f\<rparr>))\<lparr>c_state := STATE_TRANSMITTING\<rparr>)"
    and f: "\<forall>j<length ss. f (c_next_node c + j) =
      map_option (relink (c_next_node c) (ss ! j)) (c_nodes c2 (c_next_node c + j))"
    by (rule start_traffic_split [OF st db])
  note eq = add_streams_eq [OF c2]
  have same: "c_next_node c1 = c_next_node c" "new_stream_node c1 = new_stream_node c" "c_sent c1 = c_sent c"
    "c_local_port_offset c1 = c_local_port_offset c" "c_events c1 = c_events c" "c_stop_cmds c1 = c_stop_cmds c"
    "c_cur_time_sec c1 = c_cur_time_sec c" "pp_event_id (c_ports c1 k) = e"
    by (simp_all add: c1(1) put_port_def new_stream_node_def fun_eq_iff)
  have keep: "c_ports c' k = (c_ports c2 k)\<lparr>pp_state := ppSTATE_TRANSMITTING\<rparr>" "c_sent c' = c_sent c2" "c_nodes c' = f"
    "c_queue c' = c_queue c2" "c_local_port_offset c' = c_local_port_offset c2" "c_events c' = c_events c2"
    "c_stop_cmds c' = (if duration > 0 then [(c_cur_time_sec c2 + duration, pid, e)] else []) @ c_stop_cmds c2"
    unfolding c' by (simp_all add: add_port_duration_def put_port_def)
  show "pp_active_nodes (c_ports c' k) = [c_next_node c ..< c_next_node c + length ss]" using keep(1) act by simp
  show "c_sent c' = c_sent c" "c_events c' = c_events c" using keep eq same by simp_all
  show "pp_event_id (c_ports c' k) = e" using keep(1) eq same by simp
  show "c_stop_cmds c' = (if duration > 0 then [(c_cur_time_sec c + duration, pid, e)] else []) @ c_stop_cmds c"
    using keep(7) eq same by simp
  show "get_port_db c' = get_port_db c" using keep(5) eq same by (simp add: fun_eq_iff get_port_db_def)
  show "c_nodes c' (c_next_node c + j) = map_option (relink (c_next_node c) (ss ! j)) (new_stream_node c (ss ! j))"
    if "j < length ss" for j
    using that keep(3) f eq same by simp
  show "c_next_node c + j \<in> set (c_queue c')" if "j < length ss" "s_self_start (ss ! j)" for j
    using that keep(4) eq same by simp
qed



section \<open>Bursts without packets\<close>

text \<open>The counter is decreased before it is compared with zero.\<close>

lemma burst_turns:
  assumes "c_nodes c i = Some n" and "i \<in> set (c_queue c)" and "n_state n = ss_ACTIVE"
    and "n_stream_type n = stMULTI_BURST" and "m \<le> unat (n_single_burst n - 1)"
  shows "\<exists>c'. sched_times m i c = Some c' \<and> c_sent c' = replicate m i @ c_sent c \<and> i \<in> set (c_queue c')"
  using assms
proof (induction m arbitrary: c n)
  case (Suc m)
  let ?n = "n\<lparr>n_single_burst := n_single_burst n - 1, n_time := n_time n + n_next_time_offset n\<rparr>"
  have pos: "0 < n_single_burst n - 1" using Suc.prems(5) by (simp add: word_less_nat_alt)
  then obtain c1 where c1: "sched_node i c = Some c1" "i \<in> set (c_queue c1)" "c_nodes c1 i = Some ?n"
    "c_sent c1 = i # c_sent c"
    using Suc.prems by (simp add: sched_node_def handle_node_def handle_multi_burst_def is_mask_for_free_def
        Let_def pq_pop_def pq_push_def put_node_def send_node_def)
  have "m \<le> unat (n_single_burst n - 1 - 1)"
    using Suc.prems(5) unat_minus_one [of "n_single_burst n - 1"] pos by (auto simp: word_gt_0)
  then have "m \<le> unat (n_single_burst ?n - 1)" by simp
  with Suc.IH [OF c1(3,2)] Suc.prems(3,4) c1 show ?case
    by (auto simp: replicate_app_Cons_same)
qed simp

end
