(* ===== verification/Stateless_Dp_Frame.thy ===== *)
theory Stateless_Dp_Frame
  imports Stateless_Dp_Start
begin

text \<open>
  What a turn of the scheduler and each message do to the ports of a core, seen from outside: the
  state and the event id of a port, the events posted to the control plane, and whether a port can
  end by itself.
\<close>

section \<open>Views of a core\<close>

text \<open>A port whose nodes are all continuous never ends by itself.\<close>

definition endless :: "TrexStatelessDpCore \<Rightarrow> nat \<Rightarrow> bool" where
  "endless c k \<longleftrightarrow> (\<forall>i\<in>set (pp_active_nodes (c_ports c k)). \<forall>n. c_nodes c i = Some n \<longrightarrow> n_stream_type n = stCONTINUOUS)"

definition types_kept :: "TrexStatelessDpCore \<Rightarrow> TrexStatelessDpCore \<Rightarrow> bool" where
  "types_kept c c' \<longleftrightarrow> (\<forall>j n'. c_nodes c' j = Some n' \<longrightarrow>
     (\<exists>n. c_nodes c j = Some n \<and> n_stream_type n' = n_stream_type n))"

definition same_port :: "TrexStatelessDpCore \<Rightarrow> TrexStatelessDpCore \<Rightarrow> nat \<Rightarrow> bool" where
  "same_port c c' k \<longleftrightarrow> pp_state (c_ports c' k) = pp_state (c_ports c k) \<and>
     pp_event_id (c_ports c' k) = pp_event_id (c_ports c k) \<and> pp_active_nodes (c_ports c' k) = pp_active_nodes (c_ports c k)"

definition fixed_part :: "TrexStatelessDpCore \<Rightarrow> TrexStatelessDpCore \<Rightarrow> bool" where
  "fixed_part c c' \<longleftrightarrow> c_local_port_offset c' = c_local_port_offset c \<and> c_stop_cmds c' = c_stop_cmds c \<and> types_kept c c'"

text \<open>Nothing is seen of a step, or it ended one port.\<close>

definition quiet :: "TrexStatelessDpCore \<Rightarrow> TrexStatelessDpCore \<Rightarrow> bool" where
  "quiet c c' \<longleftrightarrow> fixed_part c c' \<and> (\<forall>k. same_port c c' k) \<and> c_events c' = c_events c"

definition ended :: "nat \<Rightarrow> TrexStatelessDpCore \<Rightarrow> TrexStatelessDpCore \<Rightarrow> bool" where
  "ended k c c' \<longleftrightarrow> fixed_part c c' \<and> pp_state (c_ports c k) \<noteq> ppSTATE_IDLE \<and> pp_state (c_ports c' k) = ppSTATE_IDLE \<and>
     pp_event_id (c_ports c' k) = pp_event_id (c_ports c k) \<and> pp_active_nodes (c_ports c' k) = [] \<and>
     (\<forall>l. l \<noteq> k \<longrightarrow> same_port c c' l) \<and>
     c_events c' = c_events c @ [(c_local_port_offset c + of_nat k, pp_event_id (c_ports c k))]"

lemma types_kept_trans: "types_kept a b \<Longrightarrow> types_kept b c \<Longrightarrow> types_kept a c"
  unfolding types_kept_def by metis

lemma same_port_trans: "same_port a b k \<Longrightarrow> same_port b c k \<Longrightarrow> same_port a c k"
  by (simp add: same_port_def)

lemma quiet_trans: "quiet a b \<Longrightarrow> quiet b c \<Longrightarrow> quiet a c"
  using types_kept_trans by (auto simp: quiet_def fixed_part_def same_port_def)

lemma quiet_ended: "quiet a b \<Longrightarrow> ended k b c \<Longrightarrow> ended k a c"
  using types_kept_trans by (auto simp: quiet_def ended_def fixed_part_def same_port_def)

lemma quiet_endless: "quiet c c' \<Longrightarrow> endless c k \<Longrightarrow> endless c' k"
  unfolding quiet_def fixed_part_def types_kept_def same_port_def endless_def by metis

lemma ended_endless: "ended l c c' \<Longrightarrow> endless c k \<Longrightarrow> endless c' k"
  unfolding ended_def fixed_part_def types_kept_def same_port_def endless_def
  by (metis empty_iff empty_set)

lemma quiet_ops:
  "quiet c (send_node i c)" "quiet c (pq_pop i c)" "quiet c (pq_push i c)" "quiet c (free_node i c)"
  by (auto simp: quiet_def fixed_part_def types_kept_def same_port_def send_node_def pq_pop_def pq_push_def free_node_def)

lemma quiet_put_node:
  assumes "c_nodes c i = Some n" and "n_stream_type n' = n_stream_type n"
  shows "quiet c (put_node i n' c)"
  using assms by (auto simp: quiet_def fixed_part_def types_kept_def same_port_def put_node_def)

lemma stopped_core_ended:
  assumes "get_port_db c pid = Some k" and "pp_state (c_ports c k) \<noteq> ppSTATE_IDLE"
  shows "ended k c ((stopped_core k c)\<lparr>c_events := c_events c @ [(pid, pp_event_id (c_ports c k))]\<rparr>)"
proof -
  have "stopped x = Some n' \<Longrightarrow> \<exists>n. x = Some n \<and> n_stream_type n' = n_stream_type n" for x n'
    by (cases x) (auto simp: mark_for_free_def split: if_splits)
  then have "types_kept c (stopped_core k c)"
    by (auto simp: types_kept_def stopped_core_other split: if_splits)
  moreover have "c_stop_cmds (stopped_core k c) = c_stop_cmds c" by (simp add: stopped_core_def put_port_def)
  ultimately show ?thesis
    using assms get_port_db_Some [OF assms(1)]
    by (simp add: ended_def fixed_part_def types_kept_def same_port_def stopped_core_other)
qed

lemma stop_traffic_effect:
  assumes "core_ok c" and "get_port_db c pid = Some k" and "stop_traffic pid on_id e c = Some c'"
  shows "if pp_state (c_ports c k) = ppSTATE_IDLE \<or> on_id \<and> e \<noteq> pp_event_id (c_ports c k) then c' = c else ended k c c'"
  using assms(3) stopped_core_ended [OF assms(2)] unfolding stop_traffic_cases [OF assms(1,2)] by auto

section \<open>A turn of the scheduler\<close>

lemma port_of_node:
  assumes ok: "core_ok_but H c" and n: "c_nodes c i = Some n" "n_state n = ss_ACTIVE"
  obtains k where "k < 2" and "i \<in> set (pp_active_nodes (c_ports c k))" and "port_node_ok c k n"
    and "get_port_db c (n_port_id n) = Some k" and "pp_state (c_ports c k) \<noteq> ppSTATE_IDLE"
proof -
  obtain k where k: "k < 2" "i \<in> set (pp_active_nodes (c_ports c k))" "port_node_ok c k n"
    using node_of_port [OF ok n(1)] n(2) by auto
  then have "pp_state (c_ports c k) \<noteq> ppSTATE_IDLE" using core_ok_port [OF ok k(1)] by (auto simp: port_ok_def)
  then show thesis using that [OF k get_port_db_node [OF ok k(1,3)]] by blast
qed

lemma stream_ended_effect:
  assumes ok: "core_ok_but {i} c" and n: "c_nodes c i = Some n" "n_state n = ss_ACTIVE"
    and k: "k < 2" "i \<in> set (pp_active_nodes (c_ports c k))" "port_node_ok c k n"
    and role: "same_role (n\<lparr>n_state := ss_INACTIVE\<rparr>) n'"
    and step: "(let (zero, p') = update_number_of_active_streams 1 (c_ports (put_node i n' c) k) in
      if zero then stop_traffic (n_port_id n') False 0 (put_port k p' (put_node i n' c))
      else Some (put_port k p' (put_node i n' c))) = Some c'"
  shows "quiet c c' \<or> ended k c c'"
proof -
  let ?c = "put_port k ((c_ports c k)\<lparr>pp_active_streams := pp_active_streams (c_ports c k) - 1\<rparr>) (put_node i n' c)"
  have fin: "core_ok ?c" by (rule finish_node [OF ok n k(1,2) role])
  have db: "get_port_db ?c (n_port_id n') = Some k"
    using get_port_db_node [OF ok k(1,3)] role get_port_db_cong [of ?c c] by (simp add: same_role_def)
  have "quiet c (put_node i n' c)" by (rule quiet_put_node [OF n(1)]) (use role in \<open>simp add: same_role_def\<close>)
  moreover have "quiet (put_node i n' c) ?c"
    by (auto simp: quiet_def fixed_part_def types_kept_def same_port_def put_port_def)
  ultimately have q: "quiet c ?c" by (rule quiet_trans)
  have "c' = ?c \<or> stop_traffic (n_port_id n') False 0 ?c = Some c'"
    using step by (auto simp: update_number_of_active_streams_def Let_def split: if_splits)
  moreover have "quiet c c' \<or> ended k c c'" if st: "stop_traffic (n_port_id n') False 0 ?c = Some c'"
    using stop_traffic_effect [OF fin db st] q quiet_ended [OF q] by (auto split: if_splits)
  ultimately show ?thesis using q by blast
qed

lemma set_next_node_effect:
  assumes ok: "core_ok_but {i} c" and n: "c_nodes c i = Some n" "n_state n = ss_ACTIVE"
    and role: "same_role (n\<lparr>n_state := ss_INACTIVE\<rparr>) n'"
    and step: "set_stateless_next_node i nx (put_node i n' c) = Some (b, c')"
  shows "quiet c c' \<or> (\<exists>k<2. i \<in> set (pp_active_nodes (c_ports c k)) \<and> ended k c c')"
proof -
  obtain k where k: "k < 2" "i \<in> set (pp_active_nodes (c_ports c k))" "port_node_ok c k n"
    "get_port_db c (n_port_id n) = Some k" by (rule port_of_node [OF ok n])
  have db: "get_port_db (put_node i n' c) (n_port_id n') = Some k"
    using k(4) role get_port_db_cong [of "put_node i n' c" c] by (simp add: same_role_def)
  note fin = stream_ended_effect [OF ok n k(1-3) role]
  have "(\<exists>x m m'. c_nodes (put_node i n' c) x = Some m \<and> refresh m = Some m' \<and> c' = put_node x m' (put_node i n' c)) \<or>
      (let (zero, p') = update_number_of_active_streams 1 (c_ports (put_node i n' c) k) in
        if zero then stop_traffic (n_port_id n') False 0 (put_port k p' (put_node i n' c))
        else Some (put_port k p' (put_node i n' c))) = Some c'"
    using step db by (auto simp: set_stateless_next_node_def Let_def case_prod_beta split: option.splits if_splits)
  moreover have "quiet c (put_node x m' (put_node i n' c))"
    if x: "c_nodes (put_node i n' c) x = Some m" "refresh m = Some m'" for x m m'
  proof -
    have "n_stream_type m' = n_stream_type m" using x(2) by (auto simp: refresh_def split: option.splits)
    then have "quiet (put_node i n' c) (put_node x m' (put_node i n' c))" by (rule quiet_put_node [OF x(1)])
    moreover have "quiet c (put_node i n' c)" by (rule quiet_put_node [OF n(1)]) (use role in \<open>simp add: same_role_def\<close>)
    ultimately show ?thesis by (blast intro: quiet_trans)
  qed
  ultimately show ?thesis using fin k by blast
qed

lemma handle_multi_burst_effect:
  assumes ok: "core_ok_but {i} c" and n: "c_nodes c i = Some n" "n_state n = ss_ACTIVE"
    and step: "handle_multi_burst i c = Some c'"
  shows "quiet c c' \<or> (\<exists>k<2. i \<in> set (pp_active_nodes (c_ports c k)) \<and> ended k c c')"
proof -
  let ?c = "send_node i c"
  have q: "quiet c ?c" by (rule quiet_ops)
  have ok1: "core_ok_but {i} ?c" and n1: "c_nodes ?c i = Some n" using ok n by simp_all
  have push: "quiet c (pq_push i (put_node i n' ?c))" if "n_stream_type n' = n_stream_type n" for n'
    using quiet_trans [OF q quiet_trans [OF quiet_put_node [OF n1 that] quiet_ops(3)]] .
  let ?n1 = "n\<lparr>n_single_burst := n_single_burst n - 1\<rparr>"
  let ?n2 = "?n1\<lparr>n_multi_bursts := n_multi_bursts n - 1\<rparr>"
  have role: "same_role (n\<lparr>n_state := ss_INACTIVE\<rparr>) (?n2\<lparr>n_state := ss_INACTIVE\<rparr>)" by (simp add: same_role_def)
  show ?thesis
  proof (cases "n_single_burst n - 1 > 0 \<or> n_multi_bursts n - 1 \<noteq> 0")
    case True
    then obtain n' where "c' = pq_push i (put_node i n' ?c)" "n_stream_type n' = n_stream_type n"
      using step n(1) by (auto simp: handle_multi_burst_def Let_def split: if_splits)
    then show ?thesis using push by simp
  next
    case False
    then obtain b c2 where set: "set_stateless_next_node i (n_next_stream n) (put_node i (?n2\<lparr>n_state := ss_INACTIVE\<rparr>) ?c) = Some (b, c2)"
      and c': "c' = c2 \<or> (\<exists>x m m'. c_nodes c2 x = Some m \<and> update_refresh_time (n_time n) m = Some m' \<and>
        c' = pq_push x (put_node x m' c2))"
      using step n(1) by (fastforce simp: handle_multi_burst_def Let_def split: option.splits bool.splits)
    have eff: "quiet ?c c2 \<or> (\<exists>k<2. i \<in> set (pp_active_nodes (c_ports ?c k)) \<and> ended k ?c c2)"
      by (rule set_next_node_effect [OF ok1 n1 n(2) role set])
    have "quiet c2 c'"
    proof -
      have "quiet c2 c2" by (simp add: quiet_def fixed_part_def types_kept_def same_port_def)
      moreover have "quiet c2 (pq_push x (put_node x m' c2))"
        if "c_nodes c2 x = Some m" "update_refresh_time (n_time n) m = Some m'" for x m m'
        using that quiet_trans [OF quiet_put_node [OF that(1)] quiet_ops(3)]
        by (auto simp: update_refresh_time_def split: option.splits)
      ultimately show ?thesis using c' by blast
    qed
    moreover have "ended k a d" if "ended k a b" "quiet b d" for k a b d
      using that types_kept_trans unfolding ended_def quiet_def fixed_part_def same_port_def by metis
    ultimately show ?thesis using eff q quiet_trans quiet_ended by (metis send_node_ok(3))
  qed
qed

lemma sched_node_effect:
  assumes ok: "core_ok c" and i: "i \<in> set (c_queue c)" and step: "sched_node i c = Some c'"
  shows "quiet c c' \<or> (\<exists>k<2. ended k c c' \<and> \<not> endless c k)"
proof -
  let ?c = "pq_pop i c"
  have q: "quiet c ?c" by (rule quiet_ops)
  have ok1: "core_ok_but {i} ?c" by (rule pq_pop_ok [OF ok i])
  obtain n where n: "c_nodes c i = Some n" "n_state n \<noteq> ss_INACTIVE"
    using ok i by (auto simp: core_ok_but_def store_ok_def)
  then have n1: "c_nodes ?c i = Some n" by (simp add: pq_pop_def)
  show ?thesis
  proof (cases "is_mask_for_free n")
    case True
    then have "c' = free_node i ?c" using step n1 by (simp add: sched_node_def Let_def)
    then show ?thesis using quiet_trans [OF q quiet_ops(4)] by simp
  next
    case False
    then have act: "n_state n = ss_ACTIVE" using n(2) by (cases "n_state n") (auto simp: is_mask_for_free_def)
    have h: "handle_node i ?c = Some c'" using step n1 False by (simp add: sched_node_def Let_def)
    show ?thesis
    proof (cases "n_stream_type n = stMULTI_BURST")
      case True
      then have "handle_multi_burst i ?c = Some c'" using h n1 by (simp add: handle_node_def)
      from handle_multi_burst_effect [OF ok1 n1 act this] consider "quiet ?c c'"
        | k where "k < 2" "i \<in> set (pp_active_nodes (c_ports ?c k))" "ended k ?c c'" by blast
      then show ?thesis
      proof cases
        case 2
        then have "\<not> endless c k" using n(1) True by (auto simp: endless_def pq_pop_def intro!: bexI [of _ i])
        then show ?thesis using 2 quiet_ended [OF q] by blast
      qed (use quiet_trans [OF q] in blast)
    next
      case False
      then have "handle_continues i ?c = Some c'" using h n1 by (auto simp: handle_node_def split: stream_type_t.splits)
      then have c': "c' = pq_push i (put_node i (n\<lparr>n_time := n_time n + n_next_time_offset n\<rparr>) (if n_pause n then ?c else send_node i ?c))"
        using n1 by (auto simp: handle_continues_def Let_def)
      have q1: "quiet ?c (if n_pause n then ?c else send_node i ?c)"
        using quiet_ops(1) by (simp add: quiet_def fixed_part_def types_kept_def same_port_def)
      have "c_nodes (if n_pause n then ?c else send_node i ?c) i = Some n" using n1 by simp
      from quiet_put_node [OF this, of "n\<lparr>n_time := n_time n + n_next_time_offset n\<rparr>"] quiet_ops(3)
      have "quiet (if n_pause n then ?c else send_node i ?c) c'" unfolding c' by (auto intro: quiet_trans)
      then show ?thesis using quiet_trans [OF q] quiet_trans [OF q1] by blast
    qed
  qed
qed

section \<open>Messages\<close>

lemma start_traffic_effect:
  assumes ok: "core_ok c" and db: "get_port_db c pid = Some k" and idle: "pp_state (c_ports c k) = ppSTATE_IDLE"
    and ss: "streams_ok pid ss"
  shows "\<exists>c'. start_traffic pid ss duration e c = Some c' \<and> core_ok c' \<and> get_port_db c' = get_port_db c \<and>
    pp_state (c_ports c' k) = ppSTATE_TRANSMITTING \<and> pp_event_id (c_ports c' k) = e \<and> c_events c' = c_events c \<and>
    c_stop_cmds c' = (if duration > 0 then [(c_cur_time_sec c + duration, pid, e)] else []) @ c_stop_cmds c \<and>
    (list_all (\<lambda>s. s_type s = stCONTINUOUS) ss \<longrightarrow> endless c' k)"
proof -
  have "pp_active_nodes (c_ports c k) = []"
    using idle core_ok_port [OF ok, of k] get_port_db_Some [OF db] by (auto simp: port_ok_def)
  from start_traffic_ok [OF ok db this ss, of duration e] obtain c' where
    c': "start_traffic pid ss duration e c = Some c'" "core_ok c'" "pp_state (c_ports c' k) = ppSTATE_TRANSMITTING" by blast
  note nodes = start_traffic_nodes [OF c'(1) db]
  have "endless c' k" if cont: "list_all (\<lambda>s. s_type s = stCONTINUOUS) ss"
    unfolding endless_def nodes(1)
  proof (intro ballI allI impI)
    fix i n assume i: "i \<in> set [c_next_node c ..< c_next_node c + length ss]" and n: "c_nodes c' i = Some n"
    then obtain j where j: "j < length ss" "i = c_next_node c + j" by (metis atLeastLessThan_iff le_Suc_ex nat_add_left_cancel_less set_upt)
    then have "map_option (relink (c_next_node c) (ss ! j)) (new_stream_node c (ss ! j)) = Some n"
      using nodes(4) n by simp
    moreover have "s_type (ss ! j) = stCONTINUOUS" using cont j(1) by (simp add: list_all_length)
    ultimately show "n_stream_type n = stCONTINUOUS" by (auto simp: new_stream_node_def node_bursts_def relink_def)
  qed
  then show ?thesis using c' nodes(3,6-8) by blast
qed

lemma stop_traffic_port:
  assumes "core_ok c" and "get_port_db c pid = Some k"
  shows "\<exists>c'. stop_traffic pid on_id e c = Some c' \<and> core_ok c' \<and>
    (if pp_state (c_ports c k) = ppSTATE_IDLE \<or> on_id \<and> e \<noteq> pp_event_id (c_ports c k) then c' = c else ended k c c')"
  using stop_traffic_ok [OF assms, of on_id e] stop_traffic_effect [OF assms, of on_id e] by blast

text \<open>Pause, resume and update change the nodes of the port and its state only.\<close>

lemma change_nodes_frame:
  assumes "\<And>n. n_stream_type (f n) = n_stream_type n"
    and "c' = put_port k ((c_ports c k)\<lparr>pp_state := s\<rparr>)
      (c\<lparr>c_nodes := (\<lambda>j. if j \<in> N then map_option f (c_nodes c j) else c_nodes c j)\<rparr>)"
  shows "fixed_part c c' \<and> pp_state (c_ports c' k) = s \<and> pp_event_id (c_ports c' k) = pp_event_id (c_ports c k) \<and>
    pp_active_nodes (c_ports c' k) = pp_active_nodes (c_ports c k) \<and> c_events c' = c_events c"
  using assms(1) unfolding assms(2) by (auto simp: fixed_part_def types_kept_def put_port_def)

definition only_state :: "nat \<Rightarrow> pp_state_e \<Rightarrow> TrexStatelessDpCore \<Rightarrow> TrexStatelessDpCore \<Rightarrow> bool" where
  "only_state k st c c' \<longleftrightarrow> fixed_part c c' \<and> pp_state (c_ports c' k) = st \<and>
     pp_event_id (c_ports c' k) = pp_event_id (c_ports c k) \<and>
     pp_active_nodes (c_ports c' k) = pp_active_nodes (c_ports c k) \<and> c_events c' = c_events c"

lemma only_state_endless: "only_state k st c c' \<Longrightarrow> endless c k \<Longrightarrow> endless c' k"
  unfolding only_state_def fixed_part_def types_kept_def endless_def by metis

lemma pause_traffic_effect:
  assumes ok: "core_ok c" and db: "get_port_db c pid = Some k" and st: "pp_state (c_ports c k) = ppSTATE_TRANSMITTING"
  shows "\<exists>c'. pause_traffic pid c = Some c' \<and> core_ok c' \<and> only_state k ppSTATE_PAUSE c c'"
proof -
  have "each_node (\<lambda>n. n_port_id n = pid \<and> \<not> n_pause n) (set_pause True) (pp_active_nodes (c_ports c k)) c =
      Some (c\<lparr>c_nodes := (\<lambda>j. if j \<in> set (pp_active_nodes (c_ports c k)) then map_option (set_pause True) (c_nodes c j) else c_nodes c j)\<rparr>)"
    by (rule each_port_node_eq [OF ok db]) (use st in \<open>simp add: port_node_ok_def\<close>)
  then show ?thesis
    using pause_traffic_ok [OF ok db st] db st change_nodes_frame [of "set_pause True"] unfolding only_state_def
    by (fastforce simp: pause_traffic_def on_port_def port_pause_traffic_def Let_def set_pause_def)
qed

lemma resume_traffic_effect:
  assumes ok: "core_ok c" and db: "get_port_db c pid = Some k" and st: "pp_state (c_ports c k) = ppSTATE_PAUSE"
  shows "\<exists>c'. resume_traffic pid c = Some c' \<and> core_ok c' \<and> only_state k ppSTATE_TRANSMITTING c c'"
proof -
  have "each_node (\<lambda>n. n_port_id n = pid \<and> n_pause n) (set_pause False) (pp_active_nodes (c_ports c k)) c =
      Some (c\<lparr>c_nodes := (\<lambda>j. if j \<in> set (pp_active_nodes (c_ports c k)) then map_option (set_pause False) (c_nodes c j) else c_nodes c j)\<rparr>)"
    by (rule each_port_node_eq [OF ok db]) (use st in \<open>simp add: port_node_ok_def\<close>)
  then show ?thesis
    using resume_traffic_ok [OF ok db st] db st change_nodes_frame [of "set_pause False"] unfolding only_state_def
    by (fastforce simp: resume_traffic_def on_port_def port_resume_traffic_def Let_def set_pause_def)
qed

lemma update_traffic_effect:
  assumes ok: "core_ok c" and db: "get_port_db c pid = Some k" and st: "pp_state (c_ports c k) \<noteq> ppSTATE_IDLE"
  shows "\<exists>c'. update_traffic pid factor c = Some c' \<and> core_ok c' \<and> only_state k (pp_state (c_ports c k)) c c'"
proof -
  have busy: "pp_state (c_ports c k) = ppSTATE_TRANSMITTING \<or> pp_state (c_ports c k) = ppSTATE_PAUSE"
    using st by (cases "pp_state (c_ports c k)") auto
  let ?c = "c\<lparr>c_nodes := (\<lambda>j. if j \<in> set (pp_active_nodes (c_ports c k)) then map_option (update_rate factor) (c_nodes c j) else c_nodes c j)\<rparr>"
  have "each_node (\<lambda>n. n_port_id n = pid) (update_rate factor) (pp_active_nodes (c_ports c k)) c = Some ?c"
    by (rule each_port_node_eq [OF ok db]) simp
  then have "update_traffic pid factor c = Some ?c"
    using db busy by (simp add: update_traffic_def on_port_def port_update_traffic_def Let_def)
  moreover have "only_state k (pp_state (c_ports c k)) c ?c"
    by (auto simp: only_state_def fixed_part_def types_kept_def update_rate_def split: if_splits)
  ultimately show ?thesis using update_traffic_ok [OF ok db st, of factor] by auto
qed

end
