(* ===== verification/Stateless_System.thy ===== *)
theory Stateless_System
  imports Stateless_Port Stateless_Dp_Frame
begin

text \<open>
  A port of the control plane together with the data-path cores that serve it: the two sides run
  on their own and exchange messages over FIFO rings (\<open>trex_stateless_messaging.cpp\<close>,
  \<open>TrexStatelessPort::send_message_to_dp\<close>, \<open>TrexDpPortEventMsg::handle\<close>).  The events of a core
  wait in its list \<open>c_events\<close> until the control plane takes the first.
\<close>

section \<open>The system\<close>

record trex_system =
  sy_cp :: control_plane
  sy_core :: "nat \<Rightarrow> TrexStatelessDpCore"

fun msg_handle :: "cp_to_dp_msg \<Rightarrow> TrexStatelessDpCore \<Rightarrow> TrexStatelessDpCore option" where
  "msg_handle (TrexStatelessDpStart port_id event_id obj duration) c =
     start_traffic (co_port_id obj) (co_objs obj) duration event_id c"
| "msg_handle (TrexStatelessDpStop port_id stop_only_for_event_id event_id) c =
     stop_traffic port_id stop_only_for_event_id event_id c"
| "msg_handle (TrexStatelessDpPause port_id) c = pause_traffic port_id c"
| "msg_handle (TrexStatelessDpResume port_id) c = resume_traffic port_id c"
| "msg_handle (TrexStatelessDpUpdate port_id factor) c = update_traffic port_id factor c"

datatype sys_event =
    CpAddStream TrexStream
  | CpRemoveStream TrexStream
  | CpRemoveAll
  | CpStart "nat \<Rightarrow> nat \<Rightarrow> u32" int TrexPortMultiplier rat
  | CpStop
  | CpPause
  | CpResume
  | CpUpdate TrexPortMultiplier
  | CpDpEvent int nat
  | DpMessage nat
  | DpSched nat nat
  | DpStopCmd nat "rat \<times> u8 \<times> int"
  | DpTime nat rat

text \<open>A command that throws leaves the state; undefined behaviour of the program is a failure.\<close>

fun cp_undefined :: "port_err \<Rightarrow> bool" where
  "cp_undefined PeUndefined = True"
| "cp_undefined PeNotFinite = True"
| "cp_undefined (PeGraph ErrNoEvents) = True"
| "cp_undefined (PeGraph ErrDuration) = True"
| "cp_undefined (PeCompile ErrUndefined) = True"
| "cp_undefined (PeCompile (ErrSplit e)) = True"
| "cp_undefined e = False"

definition command :: "trex_system \<Rightarrow> port_err + control_plane \<Rightarrow> trex_system option" where
  "command s r = (case r of
       Inl e \<Rightarrow> if cp_undefined e then None else Some s
     | Inr cp \<Rightarrow> Some (s\<lparr>sy_cp := cp\<rparr>))"

definition on_port_of :: "trex_system \<Rightarrow> (TrexStatelessPort \<Rightarrow> port_err + TrexStatelessPort) \<Rightarrow> trex_system option" where
  "on_port_of s f = command s (bindE (f (cp_port (sy_cp s))) (\<lambda>p. Inr ((sy_cp s)\<lparr>cp_port := p\<rparr>)))"

definition put_core :: "nat \<Rightarrow> TrexStatelessDpCore \<Rightarrow> trex_system \<Rightarrow> trex_system" where
  "put_core i c s = s\<lparr>sy_core := (sy_core s)(i := c)\<rparr>"

fun sys_step :: "sys_event \<Rightarrow> trex_system \<Rightarrow> trex_system option" where
  "sys_step (CpAddStream st) s = on_port_of s (port_add_stream st)"
| "sys_step (CpRemoveStream st) s = on_port_of s (port_remove_stream st)"
| "sys_step CpRemoveAll s = on_port_of s port_remove_all_streams"
| "sys_step (CpStart rand now mul duration) s = command s (port_start_traffic rand now mul duration (sy_cp s))"
| "sys_step CpStop s = Some (s\<lparr>sy_cp := port_stop_traffic_cp (sy_cp s)\<rparr>)"
| "sys_step CpPause s = command s (port_pause_traffic_cp (sy_cp s))"
| "sys_step CpResume s = command s (port_resume_traffic_cp (sy_cp s))"
| "sys_step (CpUpdate mul) s = command s (port_update_traffic_cp mul (sy_cp s))"
| "sys_step (CpDpEvent now i) s = (case c_events (sy_core s i) of
       [] \<Rightarrow> None
     | (port_id, event_id) # rest \<Rightarrow>
         let s1 = put_core i ((sy_core s i)\<lparr>c_events := rest\<rparr>) s in
         if port_id = po_port_id (cp_port (sy_cp s))
         then command s1 (port_handle_event now EVENT_STOP i event_id (sy_cp s))
         else Some s1)"
| "sys_step (DpMessage i) s = (case cp_to_dp (sy_cp s) i of
       [] \<Rightarrow> None
     | m # rest \<Rightarrow> map_option (\<lambda>c. put_core i c (s\<lparr>sy_cp := (sy_cp s)\<lparr>cp_to_dp := (cp_to_dp (sy_cp s))(i := rest)\<rparr>\<rparr>))
         (msg_handle m (sy_core s i)))"
| "sys_step (DpSched i j) s = map_option (\<lambda>c. put_core i c s) (sched_node j (sy_core s i))"
| "sys_step (DpStopCmd i cmd) s = (case cmd of (t, port_id, event_id) \<Rightarrow>
     map_option (\<lambda>c. put_core i c s)
       (stop_traffic port_id True event_id
          ((sy_core s i)\<lparr>c_stop_cmds := remove1 cmd (c_stop_cmds (sy_core s i))\<rparr>)))"
| "sys_step (DpTime i t) s = Some (put_core i ((sy_core s i)\<lparr>c_cur_time_sec := t\<rparr>) s)"

section \<open>What the environment may do\<close>

text \<open>A run that cannot end by itself: all streams are continuous and there is no duration.\<close>

definition endless_run :: "TrexStatelessPort \<Rightarrow> bool" where
  "endless_run p \<longleftrightarrow> po_last_all_streams_continues p \<and> po_last_duration p \<le> 0"

definition stream_fits :: "u8 \<Rightarrow> TrexStream \<Rightarrow> bool" where
  "stream_fits pid s \<longleftrightarrow> s_type s \<noteq> stNONE \<and> s_port_id s = pid \<and> s_next_stream_id s < 2 ^ 31"

definition rings_free :: "control_plane \<Rightarrow> bool" where
  "rings_free cp \<longleftrightarrow> (\<forall>i\<in>set (po_cores_id_list (cp_port cp)). length (cp_to_dp cp i) < RING_CAPACITY)"

definition defined :: "port_err + 'a \<Rightarrow> bool" where
  "defined r \<longleftrightarrow> (case r of Inl e \<Rightarrow> \<not> cp_undefined e | Inr _ \<Rightarrow> True)"

fun sys_allowed :: "sys_event \<Rightarrow> trex_system \<Rightarrow> bool" where
  "sys_allowed (CpAddStream st) s = stream_fits (po_port_id (cp_port (sy_cp s))) st"
| "sys_allowed (CpStart rand now mul duration) s =
     (rings_free (sy_cp s) \<and> table_size (po_stream_table (cp_port (sy_cp s))) < 2 ^ 32 \<and>
      defined (port_start_traffic rand now mul duration (sy_cp s)))"
| "sys_allowed (CpUpdate mul) s =
     (rings_free (sy_cp s) \<and> endless_run (cp_port (sy_cp s)) \<and> defined (port_update_traffic_cp mul (sy_cp s)))"
| "sys_allowed (CpDpEvent now i) s =
     (i \<in> set (po_cores_id_list (cp_port (sy_cp s))) \<and> c_events (sy_core s i) \<noteq> [])"
| "sys_allowed (DpMessage i) s =
     (i \<in> set (po_cores_id_list (cp_port (sy_cp s))) \<and> cp_to_dp (sy_cp s) i \<noteq> [])"
| "sys_allowed (DpSched i j) s = (i \<in> set (po_cores_id_list (cp_port (sy_cp s))) \<and> is_top j (sy_core s i))"
| "sys_allowed (DpStopCmd i cmd) s =
     (i \<in> set (po_cores_id_list (cp_port (sy_cp s))) \<and> cmd \<in> set (c_stop_cmds (sy_core s i)))"
| "sys_allowed (DpTime i t) s = (i \<in> set (po_cores_id_list (cp_port (sy_cp s))) \<and> c_cur_time_sec (sy_core s i) \<le> t)"
| "sys_allowed CpRemoveAll s = True"
| "sys_allowed (CpRemoveStream st) s = True"
| "sys_allowed e s = rings_free (sy_cp s)"

definition sys_init :: "trex_system \<Rightarrow> bool" where
  "sys_init s \<longleftrightarrow> (\<exists>port_id cores p0. cp_port (sy_cp s) = TrexStatelessPort_new port_id cores p0 \<and>
     length (dv_events (po_dp_events p0)) = EVENT_MAX \<and>
     distinct cores \<and> cores \<noteq> [] \<and> length cores < 256 \<and>
     (\<forall>i\<in>set cores. cp_to_dp (sy_cp s) i = [] \<and> dp_init (sy_core s i) \<and> get_port_db (sy_core s i) port_id \<noteq> None \<and>
       c_events (sy_core s i) = [] \<and> c_stop_cmds (sy_core s i) = []))"

section \<open>What is under way\<close>

text \<open>
  What the control plane can know of the port on a core: it is idle, it may have ended by itself, or
  it is in an endless run.
\<close>

datatype dp_abs = AIdle | AMaybe | ATx | APause

definition abs_shows :: "u8 \<Rightarrow> dp_abs \<Rightarrow> TrexStatelessDpCore \<Rightarrow> nat \<Rightarrow> bool" where
  "abs_shows pid a c k \<longleftrightarrow> (case a of
       AIdle \<Rightarrow> pp_state (c_ports c k) = ppSTATE_IDLE
     | AMaybe \<Rightarrow> pp_state (c_ports c k) \<noteq> ppSTATE_PAUSE
     | ATx \<Rightarrow> pp_state (c_ports c k) = ppSTATE_TRANSMITTING
     | APause \<Rightarrow> pp_state (c_ports c k) = ppSTATE_PAUSE) \<and>
     (a = ATx \<or> a = APause \<longrightarrow> endless c k \<and> (\<forall>(t, q, i)\<in>set (c_stop_cmds c). i \<noteq> pp_event_id (c_ports c k)))"

fun abs_step :: "u8 \<Rightarrow> cp_to_dp_msg \<Rightarrow> dp_abs \<Rightarrow> dp_abs option" where
  "abs_step pid (TrexStatelessDpStart q e obj duration) a =
     (if a = AIdle \<and> co_port_id obj = pid \<and> streams_ok pid (co_objs obj) \<and>
         (co_all_continues obj \<longrightarrow> list_all (\<lambda>s. s_type s = stCONTINUOUS) (co_objs obj))
      then Some (if co_all_continues obj \<and> duration \<le> 0 then ATx else AMaybe) else None)"
| "abs_step pid (TrexStatelessDpStop q on_id e) a = (if q = pid \<and> \<not> on_id then Some AIdle else None)"
| "abs_step pid (TrexStatelessDpPause q) a = (if q = pid \<and> a = ATx then Some APause else None)"
| "abs_step pid (TrexStatelessDpResume q) a = (if q = pid \<and> a = APause then Some ATx else None)"
| "abs_step pid (TrexStatelessDpUpdate q f) a = (if q = pid \<and> (a = ATx \<or> a = APause) then Some a else None)"

fun abs_run :: "u8 \<Rightarrow> cp_to_dp_msg list \<Rightarrow> dp_abs \<Rightarrow> dp_abs option" where
  "abs_run pid [] a = Some a"
| "abs_run pid (m # ms) a = (case abs_step pid m a of None \<Rightarrow> None | Some b \<Rightarrow> abs_run pid ms b)"

definition cp_knows :: "TrexStatelessPort \<Rightarrow> dp_abs" where
  "cp_knows p = (case po_state p of
       PORT_STATE_TX \<Rightarrow> if endless_run p then ATx else AMaybe
     | PORT_STATE_PAUSE \<Rightarrow> APause
     | _ \<Rightarrow> AIdle)"

fun start_id :: "cp_to_dp_msg \<Rightarrow> int list" where
  "start_id (TrexStatelessDpStart q e obj duration) = [e]"
| "start_id m = []"

definition start_ids :: "cp_to_dp_msg list \<Rightarrow> int list" where
  "start_ids ms = concat (map start_id ms)"

text \<open>
  The ids of the runs: those of stop commands and events of the port are of runs that started
  before the ones still in the ring, and none is newer than the counter of the control plane.
\<close>

definition ids_ok :: "u8 \<Rightarrow> int \<Rightarrow> cp_to_dp_msg list \<Rightarrow> TrexStatelessDpCore \<Rightarrow> nat \<Rightarrow> bool" where
  "ids_ok pid cnt ring c k \<longleftrightarrow> sorted_wrt (<) (start_ids ring) \<and> (\<forall>e\<in>set (start_ids ring). e \<le> cnt) \<and>
     (\<forall>(t, q, i)\<in>set (c_stop_cmds c). q = pid \<and> i \<le> cnt \<and> (\<forall>e\<in>set (start_ids ring). i < e)) \<and>
     (\<forall>(q, i)\<in>set (c_events c). q = pid \<longrightarrow> i \<le> cnt \<and> (\<forall>e\<in>set (start_ids ring). i < e)) \<and>
     (pp_state (c_ports c k) \<noteq> ppSTATE_IDLE \<longrightarrow>
       pp_event_id (c_ports c k) \<le> cnt \<and> (\<forall>e\<in>set (start_ids ring). pp_event_id (c_ports c k) < e))"

definition link_ok :: "u8 \<Rightarrow> int \<Rightarrow> dp_abs \<Rightarrow> cp_to_dp_msg list \<Rightarrow> TrexStatelessDpCore \<Rightarrow> bool" where
  "link_ok pid cnt fin ring c \<longleftrightarrow> core_ok c \<and> (\<exists>k. get_port_db c pid = Some k \<and> ids_ok pid cnt ring c k \<and>
     (\<exists>a. abs_shows pid a c k \<and> abs_run pid ring a = Some fin))"

text \<open>
  The run the control plane waits for, with id \<open>e\<close>, seen at one core: it is over there exactly when the
  event was posted or taken, and then nothing is under way; otherwise it is still in the ring or
  running.
\<close>

definition run_ok :: "u8 \<Rightarrow> int \<Rightarrow> bool \<Rightarrow> cp_to_dp_msg list \<Rightarrow> TrexStatelessDpCore \<Rightarrow> bool" where
  "run_ok pid e signalled ring c \<longleftrightarrow> (\<exists>k. get_port_db c pid = Some k \<and>
     (if signalled \<or> (pid, e) \<in> set (c_events c)
      then pp_state (c_ports c k) = ppSTATE_IDLE \<and> ring = []
      else e \<in> set (start_ids ring) \<or> pp_state (c_ports c k) \<noteq> ppSTATE_IDLE \<and> pp_event_id (c_ports c k) = e))"

definition stop_event_of :: "TrexStatelessPort \<Rightarrow> TrexDpPortEvent" where
  "stop_event_of p = dv_events (po_dp_events p) ! EVENT_STOP"

definition port_inv :: "TrexStatelessPort \<Rightarrow> bool" where
  "port_inv p \<longleftrightarrow> distinct (po_cores_id_list p) \<and> po_cores_id_list p \<noteq> [] \<and> length (po_cores_id_list p) < 256 \<and>
     length (dv_events (po_dp_events p)) = EVENT_MAX \<and>
     map fst (de_signal (stop_event_of p)) = po_cores_id_list p \<and>
     - 1 \<le> dv_event_id_counter (po_dp_events p) \<and> (po_state p = PORT_STATE_PAUSE \<longrightarrow> endless_run p) \<and>
     (\<forall>(i, st)\<in>set (po_stream_table p). stream_fits (po_port_id p) st)"

definition active :: "TrexStatelessPort \<Rightarrow> bool" where
  "active p \<longleftrightarrow> po_state p = PORT_STATE_TX \<or> po_state p = PORT_STATE_PAUSE"

text \<open>While the port is active it waits for the end of the last run it started.\<close>

definition await_ok :: "TrexStatelessPort \<Rightarrow> bool" where
  "await_ok p \<longleftrightarrow> (let ev = stop_event_of p; cnt = dv_event_id_counter (po_dp_events p) in
     if active p
     then de_event_id ev = cnt \<and> 0 \<le> cnt \<and> de_pending_cnt ev = int (length (filter (\<lambda>(i, b). \<not> b) (de_signal ev))) \<and>
       0 < de_pending_cnt ev
     else de_event_id ev = EVENT_ID_INVALID)"

abbreviation run_counter :: "TrexStatelessPort \<Rightarrow> int" where
  "run_counter p \<equiv> dv_event_id_counter (po_dp_events p)"

definition links_ok_all :: "trex_system \<Rightarrow> bool" where
  "links_ok_all s \<longleftrightarrow> (let p = cp_port (sy_cp s) in \<forall>i\<in>set (po_cores_id_list p).
     link_ok (po_port_id p) (run_counter p) (cp_knows p) (cp_to_dp (sy_cp s) i) (sy_core s i))"

definition runs_ok_all :: "trex_system \<Rightarrow> bool" where
  "runs_ok_all s \<longleftrightarrow> (let p = cp_port (sy_cp s) in active p \<longrightarrow> (\<forall>(i, b)\<in>set (de_signal (stop_event_of p)).
     run_ok (po_port_id p) (run_counter p) b (cp_to_dp (sy_cp s) i) (sy_core s i)))"

definition sys_inv :: "trex_system \<Rightarrow> bool" where
  "sys_inv s \<longleftrightarrow> port_inv (cp_port (sy_cp s)) \<and> await_ok (cp_port (sy_cp s)) \<and> links_ok_all s \<and> runs_ok_all s"

end
