(* ===== verification/Stateless_System_Inv.thy ===== *)
theory Stateless_System_Inv
  imports Stateless_System
begin

text \<open>
  The invariant of the system holds in every state it can reach: each message finds its core in a state
  that can take it, and the control plane knows what the cores do once all messages are taken.  From it follow
  the properties of the system as a whole: no handler fails, both sides agree, and the end of a run is reported.
\<close>

section \<open>The messages in a ring\<close>

lemma abs_run_snoc:
  "abs_run pid ms a = Some b \<Longrightarrow> abs_step pid m b = Some d \<Longrightarrow> abs_run pid (ms @ [m]) a = Some d"
  by (induction ms arbitrary: a) (auto split: option.splits)

lemma start_ids_simps [simp]:
  "start_ids [] = []" "start_ids (m # ms) = start_id m @ start_ids ms" "start_ids (ms @ ns) = start_ids ms @ start_ids ns"
  by (simp_all add: start_ids_def)

lemma abs_run_no_start:
  assumes "abs_run pid ms a = Some fin" and "start_ids ms = []"
  shows "(a = AIdle \<longrightarrow> fin = AIdle) \<and> (a = AMaybe \<and> fin \<noteq> AIdle \<longrightarrow> ms = [])"
  using assms
proof (induction ms arbitrary: a)
  case (Cons m ms)
  then obtain b where b: "abs_step pid m a = Some b" "abs_run pid ms b = Some fin" by (auto split: option.splits)
  have "start_id m = []" "start_ids ms = []" using Cons.prems(2) by auto
  then show ?case using Cons.IH [OF b(2)] b(1) by (cases m) (auto split: if_splits)
qed simp

lemma link_ok_send:
  assumes "link_ok pid cnt fin ring c" and "abs_step pid m fin = Some fin'" and "start_id m = []"
  shows "link_ok pid cnt fin' (ring @ [m]) c"
proof -
  have "ids_ok pid cnt ring c k \<Longrightarrow> ids_ok pid cnt (ring @ [m]) c k" for k using assms(3) by (simp add: ids_ok_def)
  then show ?thesis using assms(1) abs_run_snoc [OF _ assms(2)] unfolding link_ok_def by blast
qed

lemma link_ok_send_start:
  assumes "link_ok pid cnt fin ring c" and "abs_step pid m fin = Some fin'" and "start_id m = [cnt + 1]"
  shows "link_ok pid (cnt + 1) fin' (ring @ [m]) c"
proof -
  obtain k a where k: "core_ok c" "get_port_db c pid = Some k" "ids_ok pid cnt ring c k" "abs_shows pid a c k" "abs_run pid ring a = Some fin"
    using assms(1) unfolding link_ok_def by blast
  have "ids_ok pid (cnt + 1) (ring @ [m]) c k"
    using k(3) assms(3) by (fastforce simp: ids_ok_def sorted_wrt_append)
  then show ?thesis using k abs_run_snoc [OF k(5) assms(2)] unfolding link_ok_def by blast
qed

section \<open>Steps of a core\<close>

lemma get_port_db_fixed: "fixed_part c c' \<Longrightarrow> get_port_db c' = get_port_db c"
  by (auto simp: fixed_part_def get_port_db_def fun_eq_iff)

lemma quiet_db: "quiet c c' \<Longrightarrow> get_port_db c' = get_port_db c"
  by (auto simp: quiet_def get_port_db_fixed)

lemma quiet_views:
  assumes "quiet c c'"
  shows "abs_shows pid a c k \<Longrightarrow> abs_shows pid a c' k" and "ids_ok pid cnt ring c k \<Longrightarrow> ids_ok pid cnt ring c' k"
    and "run_ok pid e b ring c \<Longrightarrow> run_ok pid e b ring c'"
  using assms quiet_endless [OF assms] quiet_db [OF assms]
  by (auto simp: abs_shows_def ids_ok_def run_ok_def quiet_def fixed_part_def same_port_def split: dp_abs.splits)

lemma quiet_link_ok:
  assumes "quiet c c'" and "core_ok c'" and "link_ok pid cnt fin ring c"
  shows "link_ok pid cnt fin ring c'"
  using assms quiet_views [OF assms(1)] quiet_db [OF assms(1)] unfolding link_ok_def by metis

lemma port_ids_differ:
  assumes "get_port_db c pid = Some k" and "l < 2" and "l \<noteq> k"
  shows "c_local_port_offset c + of_nat l \<noteq> pid"
  using get_port_db_Some [OF assms(1)] assms(2,3) by (auto simp: less_2_cases_iff numeral_2_eq_2 less_Suc_eq)

text \<open>A port ends: nothing changes for the other one, and its own event carries the id of its run.\<close>

lemma ended_other:
  assumes "ended l c c'" and "l < 2" and "get_port_db c pid = Some k" and "l \<noteq> k"
  shows "abs_shows pid a c k \<Longrightarrow> abs_shows pid a c' k" and "ids_ok pid cnt ring c k \<Longrightarrow> ids_ok pid cnt ring c' k"
    and "run_ok pid e b ring c \<Longrightarrow> run_ok pid e b ring c'"
  using assms(1,4) ended_endless [OF assms(1)] port_ids_differ [OF assms(3,2,4)] assms(3) get_port_db_fixed [of c c']
  by (auto simp: abs_shows_def ids_ok_def run_ok_def ended_def fixed_part_def same_port_def split: dp_abs.splits)

lemma ended_own_ids:
  assumes "ended k c c'" and "get_port_db c pid = Some k" and "ids_ok pid cnt ring c k"
  shows "ids_ok pid cnt ring c' k"
  using assms get_port_db_Some [OF assms(2)] by (auto simp: ids_ok_def ended_def fixed_part_def)

lemma ended_link_ok:
  assumes fin: "ended l c c'" "l < 2" and ok': "core_ok c'" and db: "get_port_db c pid = Some k"
    and ids: "ids_ok pid cnt ring c k" and a: "abs_shows pid a c k" "abs_run pid ring a = Some fin"
    and weak: "l = k \<Longrightarrow> a \<noteq> ATx \<and> a \<noteq> APause"
  shows "link_ok pid cnt fin ring c'"
proof (cases "l = k")
  case True
  have "a = AMaybe" using weak [OF True] a(1) fin(1) True by (cases a) (auto simp: abs_shows_def ended_def)
  then have "abs_shows pid a c' k" using fin(1) True by (auto simp: abs_shows_def ended_def)
  moreover have "ids_ok pid cnt ring c' k" using ended_own_ids [OF _ db ids] fin(1) True by blast
  moreover have "get_port_db c' pid = Some k" using db fin(1) get_port_db_fixed by (auto simp: ended_def)
  ultimately show ?thesis using ok' a(2) unfolding link_ok_def by blast
next
  case False
  have "get_port_db c' pid = Some k" using db fin(1) get_port_db_fixed by (auto simp: ended_def)
  then show ?thesis using ended_other [OF fin db False] ids a ok' unfolding link_ok_def by blast
qed

lemma ended_run_ok:
  assumes fin: "ended l c c'" "l < 2" and db: "get_port_db c pid = Some k" and ids: "ids_ok pid cnt ring c k"
    and run: "run_ok pid cnt b ring c"
    and rest: "l = k \<Longrightarrow> pp_event_id (c_ports c k) = cnt \<Longrightarrow> start_ids ring = [] \<Longrightarrow> ring = []"
  shows "run_ok pid cnt b ring c'"
proof (cases "l = k")
  case True
  have pid: "pid = c_local_port_offset c + of_nat k" and db': "get_port_db c' pid = Some k"
    using get_port_db_Some [OF db] db fin(1) get_port_db_fixed by (auto simp: ended_def)
  have busy: "pp_state (c_ports c k) \<noteq> ppSTATE_IDLE" and ev: "c_events c' = c_events c @ [(pid, pp_event_id (c_ports c k))]"
    and idle: "pp_state (c_ports c' k) = ppSTATE_IDLE" using fin(1) True pid by (auto simp: ended_def)
  then have open1: "\<not> (b \<or> (pid, cnt) \<in> set (c_events c))" and
    cases1: "cnt \<in> set (start_ids ring) \<or> pp_event_id (c_ports c k) = cnt"
    using run db by (auto simp: run_ok_def split: if_splits)
  have less: "\<forall>e\<in>set (start_ids ring). pp_event_id (c_ports c k) < e \<and> e \<le> cnt" using ids busy by (simp add: ids_ok_def)
  show ?thesis
  proof (cases "pp_event_id (c_ports c k) = cnt")
    case True
    then have "start_ids ring = []" using less by (cases "start_ids ring") auto
    then show ?thesis using rest [OF \<open>l = k\<close> True] True db' idle ev by (auto simp: run_ok_def)
  next
    case False
    then show ?thesis using cases1 open1 db' ev by (auto simp: run_ok_def)
  qed
next
  case False
  then show ?thesis using ended_other(3) [OF fin db] run by blast
qed

text \<open>A core handles a message.\<close>

lemma start_handled:
  assumes ok: "core_ok c" and db: "get_port_db c pid = Some k" and ids: "ids_ok pid cnt (m # ring) c k"
    and m: "m = TrexStatelessDpStart q e obj duration" and step: "abs_step pid m a = Some b" and a: "abs_shows pid a c k"
  shows "\<exists>c'. msg_handle m c = Some c' \<and> core_ok c' \<and> get_port_db c' pid = Some k \<and> ids_ok pid cnt ring c' k \<and>
    abs_shows pid b c' k \<and> (run_ok pid cnt sg (m # ring) c \<longrightarrow> run_ok pid cnt sg ring c')"
proof -
  have idle: "pp_state (c_ports c k) = ppSTATE_IDLE" and obj: "co_port_id obj = pid" "streams_ok pid (co_objs obj)"
    "co_all_continues obj \<Longrightarrow> list_all (\<lambda>s. s_type s = stCONTINUOUS) (co_objs obj)"
    and b: "b = (if co_all_continues obj \<and> duration \<le> 0 then ATx else AMaybe)"
    using step a by (auto simp: m abs_shows_def split: if_splits)
  obtain c' where c': "start_traffic pid (co_objs obj) duration e c = Some c'" "core_ok c'" "get_port_db c' = get_port_db c"
    "pp_state (c_ports c' k) = ppSTATE_TRANSMITTING" "pp_event_id (c_ports c' k) = e" "c_events c' = c_events c"
    "c_stop_cmds c' = (if duration > 0 then [(c_cur_time_sec c + duration, pid, e)] else []) @ c_stop_cmds c"
    "list_all (\<lambda>s. s_type s = stCONTINUOUS) (co_objs obj) \<longrightarrow> endless c' k"
    using start_traffic_effect [OF ok db idle obj(2), of duration e] by blast
  have "abs_shows pid b c' k"
    using c'(4,5,7,8) obj(3) ids unfolding b by (fastforce simp: abs_shows_def ids_ok_def m)
  moreover have "ids_ok pid cnt ring c' k" using ids c'(4-7) by (fastforce simp: ids_ok_def m)
  moreover have "run_ok pid cnt sg ring c'" if "run_ok pid cnt sg (m # ring) c"
    using that c'(3-6) db idle by (auto simp: run_ok_def m split: if_splits)
  ultimately show ?thesis using c'(1-3) db obj(1) by (auto simp: m)
qed

lemma stop_handled:
  assumes ok: "core_ok c" and db: "get_port_db c pid = Some k" and ids: "ids_ok pid cnt (m # ring) c k"
    and m: "m = TrexStatelessDpStop q on_id e" and step: "abs_step pid m a = Some b" and a: "abs_shows pid a c k"
    and rest: "abs_run pid ring b = Some fin"
  shows "\<exists>c'. msg_handle m c = Some c' \<and> core_ok c' \<and> get_port_db c' pid = Some k \<and> ids_ok pid cnt ring c' k \<and>
    abs_shows pid b c' k \<and> (fin \<noteq> AIdle \<longrightarrow> run_ok pid cnt sg (m # ring) c \<longrightarrow> run_ok pid cnt sg ring c')"
proof -
  have b: "b = AIdle" "q = pid" "\<not> on_id" using step by (auto simp: m split: if_splits)
  have ids': "ids_ok pid cnt ring c k" using ids by (simp add: ids_ok_def m)
  have drop: "run_ok pid cnt sg (m # ring) c \<Longrightarrow> \<not> sg \<and> (pid, cnt) \<notin> set (c_events c) \<and> run_ok pid cnt sg ring c"
    using db by (auto simp: run_ok_def m split: if_splits)
  obtain c' where c': "stop_traffic pid False e c = Some c'" "core_ok c'"
    "if pp_state (c_ports c k) = ppSTATE_IDLE then c' = c else ended k c c'"
    using stop_traffic_port [OF ok db, of False e] by auto
  show ?thesis
  proof (cases "pp_state (c_ports c k) = ppSTATE_IDLE")
    case True
    then show ?thesis using c' b ids' db drop by (auto simp: m abs_shows_def)
  next
    case False
    then have fin: "ended k c c'" using c'(3) by simp
    have "start_ids ring = [] \<Longrightarrow> fin \<noteq> AIdle \<Longrightarrow> ring = []" using abs_run_no_start [OF rest] b(1) by blast
    then have "fin \<noteq> AIdle \<longrightarrow> run_ok pid cnt sg (m # ring) c \<longrightarrow> run_ok pid cnt sg ring c'"
      using ended_run_ok [OF fin _ db ids'] get_port_db_Some [OF db] drop by blast
    moreover have "get_port_db c' pid = Some k" using db fin get_port_db_fixed by (auto simp: ended_def)
    moreover have "abs_shows pid b c' k" using fin b(1) by (simp add: abs_shows_def ended_def)
    ultimately show ?thesis using c' b ended_own_ids [OF fin db ids'] by (auto simp: m)
  qed
qed

lemma only_state_handled:
  assumes only: "only_state k st c c'" and st: "st \<noteq> ppSTATE_IDLE" "pp_state (c_ports c k) \<noteq> ppSTATE_IDLE"
    and db: "get_port_db c pid = Some k" and ids: "ids_ok pid cnt (m # ring) c k" and m: "start_id m = []"
    and a: "abs_shows pid a c k" "a = ATx \<or> a = APause" and b: "b = (if st = ppSTATE_PAUSE then APause else ATx)"
  shows "get_port_db c' pid = Some k \<and> ids_ok pid cnt ring c' k \<and> abs_shows pid b c' k \<and>
    (run_ok pid cnt sg (m # ring) c \<longrightarrow> run_ok pid cnt sg ring c')"
proof -
  have fields: "pp_state (c_ports c' k) = st" "pp_event_id (c_ports c' k) = pp_event_id (c_ports c k)"
    "c_events c' = c_events c" "c_stop_cmds c' = c_stop_cmds c" "get_port_db c' = get_port_db c"
    using only get_port_db_fixed by (auto simp: only_state_def fixed_part_def)
  have "endless c' k" using only_state_endless [OF only] a by (auto simp: abs_shows_def)
  then have "abs_shows pid b c' k" using fields a st b by (cases st) (auto simp: abs_shows_def)
  moreover have "ids_ok pid cnt ring c' k" using ids fields st m by (simp add: ids_ok_def)
  moreover have "run_ok pid cnt sg ring c'" if "run_ok pid cnt sg (m # ring) c"
    using that fields st db m by (auto simp: run_ok_def split: if_splits)
  ultimately show ?thesis using db fields(5) by simp
qed

lemma msg_handled:
  assumes ok: "core_ok c" and db: "get_port_db c pid = Some k" and ids: "ids_ok pid cnt (m # ring) c k"
    and step: "abs_step pid m a = Some b" and a: "abs_shows pid a c k" and rest: "abs_run pid ring b = Some fin"
  shows "\<exists>c'. msg_handle m c = Some c' \<and> core_ok c' \<and> get_port_db c' pid = Some k \<and> ids_ok pid cnt ring c' k \<and>
    abs_shows pid b c' k \<and> (fin \<noteq> AIdle \<longrightarrow> run_ok pid cnt sg (m # ring) c \<longrightarrow> run_ok pid cnt sg ring c')"
proof (cases m)
  case (TrexStatelessDpStart q e obj duration)
  then show ?thesis using start_handled [OF ok db ids TrexStatelessDpStart step a] by blast
next
  case (TrexStatelessDpStop q on_id e)
  then show ?thesis using stop_handled [OF ok db ids TrexStatelessDpStop step a rest] by blast
next
  case (TrexStatelessDpPause q)
  then have b: "q = pid" "a = ATx" "b = APause" and st: "pp_state (c_ports c k) = ppSTATE_TRANSMITTING"
    using step a by (auto simp: abs_shows_def split: if_splits)
  obtain c' where "pause_traffic pid c = Some c'" "core_ok c'" and only: "only_state k ppSTATE_PAUSE c c'"
    using pause_traffic_effect [OF ok db st] by blast
  then show ?thesis using only_state_handled [OF only _ _ db ids _ a] b st TrexStatelessDpPause by auto
next
  case (TrexStatelessDpResume q)
  then have b: "q = pid" "a = APause" "b = ATx" and st: "pp_state (c_ports c k) = ppSTATE_PAUSE"
    using step a by (auto simp: abs_shows_def split: if_splits)
  obtain c' where "resume_traffic pid c = Some c'" "core_ok c'" and only: "only_state k ppSTATE_TRANSMITTING c c'"
    using resume_traffic_effect [OF ok db st] by blast
  then show ?thesis using only_state_handled [OF only _ _ db ids _ a] b st TrexStatelessDpResume by auto
next
  case (TrexStatelessDpUpdate q f)
  then have b: "q = pid" "b = a" "a = ATx \<or> a = APause" using step by (auto split: if_splits)
  then have st: "pp_state (c_ports c k) \<noteq> ppSTATE_IDLE" "a = (if pp_state (c_ports c k) = ppSTATE_PAUSE then APause else ATx)"
    using a by (auto simp: abs_shows_def)
  obtain c' where "update_traffic pid f c = Some c'" "core_ok c'" and only: "only_state k (pp_state (c_ports c k)) c c'"
    using update_traffic_effect [OF ok db st(1)] by blast
  then show ?thesis using only_state_handled [OF only st(1) st(1) db ids _ a b(3)] b st TrexStatelessDpUpdate by auto
qed

section \<open>The invariant of the system\<close>

lemma cp_knows_idle: "cp_knows p = AIdle \<longleftrightarrow> \<not> active p"
  by (simp add: cp_knows_def active_def split: port_state_e.splits)

text \<open>One core moves, and takes messages from its ring.\<close>

lemma sys_inv_core:
  assumes inv: "sys_inv s" and i: "i \<in> set (po_cores_id_list (cp_port (sy_cp s)))"
    and s': "s' = put_core i c' (s\<lparr>sy_cp := (sy_cp s)\<lparr>cp_to_dp := (cp_to_dp (sy_cp s))(i := ring')\<rparr>\<rparr>)"
    and link: "\<And>pid cnt fin. link_ok pid cnt fin (cp_to_dp (sy_cp s) i) (sy_core s i) \<Longrightarrow> link_ok pid cnt fin ring' c'"
    and run: "\<And>pid cnt fin sg. link_ok pid cnt fin (cp_to_dp (sy_cp s) i) (sy_core s i) \<Longrightarrow> fin \<noteq> AIdle \<Longrightarrow>
      run_ok pid cnt sg (cp_to_dp (sy_cp s) i) (sy_core s i) \<Longrightarrow> run_ok pid cnt sg ring' c'"
  shows "sys_inv s'"
proof -
  let ?p = "cp_port (sy_cp s)"
  let ?cnt = "dv_event_id_counter (po_dp_events ?p)"
  have same: "cp_port (sy_cp s') = ?p"
    "\<And>j. cp_to_dp (sy_cp s') j = (if j = i then ring' else cp_to_dp (sy_cp s) j)"
    "\<And>j. sy_core s' j = (if j = i then c' else sy_core s j)"
    by (simp_all add: s' put_core_def)
  have l: "link_ok (po_port_id ?p) ?cnt (cp_knows ?p) (cp_to_dp (sy_cp s) i) (sy_core s i)"
    using inv i by (simp add: sys_inv_def links_ok_all_def Let_def)
  have "links_ok_all s'" using inv link [OF l] by (simp add: sys_inv_def links_ok_all_def Let_def same)
  moreover have "runs_ok_all s'"
  proof (cases "active ?p")
    case True
    then have "cp_knows ?p \<noteq> AIdle" using cp_knows_idle by blast
    moreover have "\<forall>(j, b)\<in>set (de_signal (stop_event_of ?p)). run_ok (po_port_id ?p) ?cnt b (cp_to_dp (sy_cp s) j) (sy_core s j)"
      using inv True by (simp add: sys_inv_def runs_ok_all_def Let_def)
    ultimately show ?thesis using run [OF l] unfolding runs_ok_all_def Let_def same by fastforce
  next
    case False
    then show ?thesis by (simp add: runs_ok_all_def Let_def same)
  qed
  ultimately show ?thesis using inv by (simp add: sys_inv_def same(1))
qed

lemma put_core_ring: "put_core i c' s = put_core i c' (s\<lparr>sy_cp := (sy_cp s)\<lparr>cp_to_dp := (cp_to_dp (sy_cp s))(i := cp_to_dp (sy_cp s) i)\<rparr>\<rparr>)"
  by (simp add: put_core_def)

lemma sys_link:
  assumes "sys_inv s" and "i \<in> set (po_cores_id_list (cp_port (sy_cp s)))"
  shows "link_ok (po_port_id (cp_port (sy_cp s))) (dv_event_id_counter (po_dp_events (cp_port (sy_cp s))))
    (cp_knows (cp_port (sy_cp s))) (cp_to_dp (sy_cp s) i) (sy_core s i)"
  using assms by (simp add: sys_inv_def links_ok_all_def Let_def)

lemma quiet_step:
  assumes "sys_inv s" and "i \<in> set (po_cores_id_list (cp_port (sy_cp s)))" and "quiet (sy_core s i) c'" and "core_ok c'"
  shows "sys_inv (put_core i c' s)"
  by (rule sys_inv_core [OF assms(1,2) put_core_ring])
    (use quiet_link_ok [OF assms(3,4)] quiet_views(3) [OF assms(3)] in auto)

text \<open>A port that may end by itself ends.\<close>

lemma ended_step:
  assumes inv: "sys_inv s" and i: "i \<in> set (po_cores_id_list (cp_port (sy_cp s)))"
    and fin: "ended l (sy_core s i) c'" "l < 2" and ok': "core_ok c'"
    and weak: "\<And>pid a. get_port_db (sy_core s i) pid = Some l \<Longrightarrow> abs_shows pid a (sy_core s i) l \<Longrightarrow> a \<noteq> ATx \<and> a \<noteq> APause"
  shows "sys_inv (put_core i c' s)"
proof (rule sys_inv_core [OF inv i put_core_ring])
  let ?c = "sy_core s i" and ?ring = "cp_to_dp (sy_cp s) i"
  fix pid cnt fin assume link: "link_ok pid cnt fin ?ring ?c"
  then obtain k a where k: "get_port_db ?c pid = Some k" "ids_ok pid cnt ?ring ?c k" "abs_shows pid a ?c k" "abs_run pid ?ring a = Some fin"
    unfolding link_ok_def by blast
  have w: "l = k \<Longrightarrow> a \<noteq> ATx \<and> a \<noteq> APause" using weak k(1,3) by blast
  show "link_ok pid cnt fin ?ring c'" by (rule ended_link_ok [OF fin ok' k w])
  fix sg assume "fin \<noteq> AIdle" and run: "run_ok pid cnt sg ?ring ?c"
  show "run_ok pid cnt sg ?ring c'"
  proof (rule ended_run_ok [OF fin k(1,2) run])
    assume lk: "l = k" and none: "start_ids ?ring = []"
    then have "a = AMaybe" using w k(3) fin(1) by (cases a) (auto simp: abs_shows_def ended_def)
    then show "?ring = []" using abs_run_no_start [OF k(4) none] \<open>fin \<noteq> AIdle\<close> by blast
  qed
qed

lemma DpMessage_ok:
  assumes inv: "sys_inv s" and al: "sys_allowed (DpMessage i) s"
  shows "\<exists>s'. sys_step (DpMessage i) s = Some s' \<and> sys_inv s'"
proof -
  have i: "i \<in> set (po_cores_id_list (cp_port (sy_cp s)))" using al by simp
  obtain m ring where ring: "cp_to_dp (sy_cp s) i = m # ring" using al by (cases "cp_to_dp (sy_cp s) i") auto
  have handled: "\<exists>c'. msg_handle m (sy_core s i) = Some c' \<and> link_ok pid cnt fin ring c' \<and>
      (fin \<noteq> AIdle \<longrightarrow> run_ok pid cnt sg (m # ring) (sy_core s i) \<longrightarrow> run_ok pid cnt sg ring c')"
    if link: "link_ok pid cnt fin (m # ring) (sy_core s i)" for pid cnt fin sg
  proof -
    obtain k a b where k: "core_ok (sy_core s i)" "get_port_db (sy_core s i) pid = Some k" "ids_ok pid cnt (m # ring) (sy_core s i) k"
      "abs_step pid m a = Some b" "abs_shows pid a (sy_core s i) k" "abs_run pid ring b = Some fin"
      using link unfolding link_ok_def by (auto split: option.splits)
    from msg_handled [OF this, of sg] show ?thesis using k(6) unfolding link_ok_def by blast
  qed
  obtain c' where c': "msg_handle m (sy_core s i) = Some c'" using handled sys_link [OF inv i] unfolding ring by blast
  let ?s = "put_core i c' (s\<lparr>sy_cp := (sy_cp s)\<lparr>cp_to_dp := (cp_to_dp (sy_cp s))(i := ring)\<rparr>\<rparr>)"
  have "sys_inv ?s"
    by (rule sys_inv_core [OF inv i refl]) (use handled c' in \<open>fastforce simp: ring\<close>)+
  then show ?thesis using c' ring by simp
qed

lemma DpSched_ok:
  assumes inv: "sys_inv s" and al: "sys_allowed (DpSched i j) s"
  shows "\<exists>s'. sys_step (DpSched i j) s = Some s' \<and> sys_inv s'"
proof -
  have i: "i \<in> set (po_cores_id_list (cp_port (sy_cp s)))" and q: "j \<in> set (c_queue (sy_core s i))"
    using al by (simp_all add: is_top_def)
  have ok: "core_ok (sy_core s i)" using sys_link [OF inv i] by (simp add: link_ok_def)
  obtain c' where c': "sched_node j (sy_core s i) = Some c'" "core_ok c'" using sched_node_ok [OF ok q] by blast
  from sched_node_effect [OF ok q c'(1)] have "sys_inv (put_core i c' s)"
  proof (elim disjE exE conjE)
    assume "quiet (sy_core s i) c'"
    then show ?thesis using quiet_step [OF inv i] c'(2) by blast
  next
    fix l assume "l < 2" and fin: "ended l (sy_core s i) c'" and "\<not> endless (sy_core s i) l"
    then show ?thesis using ended_step [OF inv i fin _ c'(2)] by (auto simp: abs_shows_def)
  qed
  then show ?thesis using c'(1) by simp
qed

lemma DpTime_ok:
  assumes inv: "sys_inv s" and al: "sys_allowed (DpTime i t) s"
  shows "\<exists>s'. sys_step (DpTime i t) s = Some s' \<and> sys_inv s'"
proof -
  have i: "i \<in> set (po_cores_id_list (cp_port (sy_cp s)))" using al by simp
  let ?c = "(sy_core s i)\<lparr>c_cur_time_sec := t\<rparr>"
  have "core_ok ?c" using sys_link [OF inv i]
    by (simp add: link_ok_def core_ok_but_def store_ok_def port_ok_def port_node_ok_def act_def)
  moreover have "quiet (sy_core s i) ?c" by (simp add: quiet_def fixed_part_def types_kept_def same_port_def)
  ultimately show ?thesis using quiet_step [OF inv i] by simp
qed

lemma ids_ok_stop_cmd: "ids_ok pid cnt ring c k \<Longrightarrow> (t, q, i) \<in> set (c_stop_cmds c) \<Longrightarrow> q = pid"
  by (auto simp: ids_ok_def)

text \<open>The command that a run with a duration left behind: it ends that run, and no other.\<close>

lemma drop_stop_cmd:
  assumes "c0 = c\<lparr>c_stop_cmds := remove1 cmd (c_stop_cmds c)\<rparr>"
  shows "core_ok c0 = core_ok c" and "get_port_db c0 = get_port_db c" and "abs_shows pid a c k \<Longrightarrow> abs_shows pid a c0 k"
    and "ids_ok pid cnt ring c k \<Longrightarrow> ids_ok pid cnt ring c0 k" and "run_ok pid e b ring c0 = run_ok pid e b ring c"
proof -
  have sub: "x \<in> set (c_stop_cmds c0) \<Longrightarrow> x \<in> set (c_stop_cmds c)" for x using assms set_remove1_subset by force
  have eq: "c_ports c0 = c_ports c" "c_nodes c0 = c_nodes c" "c_events c0 = c_events c" "get_port_db c0 = get_port_db c"
    using assms by (auto simp: get_port_db_def fun_eq_iff)
  then have "endless c0 k = endless c k" for k by (simp add: endless_def)
  then show "abs_shows pid a c k \<Longrightarrow> abs_shows pid a c0 k" "ids_ok pid cnt ring c k \<Longrightarrow> ids_ok pid cnt ring c0 k"
    using eq sub by (auto simp: abs_shows_def ids_ok_def split: dp_abs.splits)
  show "core_ok c0 = core_ok c" "get_port_db c0 = get_port_db c" "run_ok pid e b ring c0 = run_ok pid e b ring c"
    using eq assms by (simp_all add: run_ok_def)
qed

lemma DpStopCmd_ok:
  assumes inv: "sys_inv s" and al: "sys_allowed (DpStopCmd i cmd) s"
  shows "\<exists>s'. sys_step (DpStopCmd i cmd) s = Some s' \<and> sys_inv s'"
proof -
  let ?c = "sy_core s i" and ?ring = "cp_to_dp (sy_cp s) i"
  obtain t q e where cmd: "cmd = (t, q, e)" by (metis surj_pair)
  have i: "i \<in> set (po_cores_id_list (cp_port (sy_cp s)))" and mem: "(t, q, e) \<in> set (c_stop_cmds ?c)" using al cmd by auto
  define c0 where "c0 = ?c\<lparr>c_stop_cmds := remove1 cmd (c_stop_cmds ?c)\<rparr>"
  note drop = drop_stop_cmd [OF c0_def]
  have all: "\<exists>k a. core_ok ?c \<and> get_port_db ?c pid = Some k \<and> q = pid \<and> ids_ok pid cnt ?ring ?c k \<and>
      abs_shows pid a ?c k \<and> abs_run pid ?ring a = Some fin" if link: "link_ok pid cnt fin ?ring ?c" for pid cnt fin
  proof -
    obtain k a where k: "core_ok ?c" "get_port_db ?c pid = Some k" "ids_ok pid cnt ?ring ?c k" "abs_shows pid a ?c k" "abs_run pid ?ring a = Some fin"
      using link unfolding link_ok_def by blast
    moreover have "q = pid" by (rule ids_ok_stop_cmd [OF k(3) mem])
    ultimately show ?thesis by blast
  qed
  obtain k where k: "core_ok ?c" "get_port_db ?c q = Some k" using all [OF sys_link [OF inv i]] by blast
  obtain c' where c': "stop_traffic q True e c0 = Some c'" "core_ok c'"
    "if pp_state (c_ports c0 k) = ppSTATE_IDLE \<or> e \<noteq> pp_event_id (c_ports c0 k) then c' = c0 else ended k c0 c'"
    using stop_traffic_port [of c0 q k True e] k drop(1,2) by auto
  have "sys_inv (put_core i c' s)"
  proof (rule sys_inv_core [OF inv i put_core_ring])
    fix pid cnt fin assume link: "link_ok pid cnt fin ?ring ?c"
    then obtain a where a: "q = pid" "get_port_db ?c pid = Some k" "ids_ok pid cnt ?ring ?c k" "abs_shows pid a ?c k" "abs_run pid ?ring a = Some fin"
      using all k(2) by fastforce
    have a0: "get_port_db c0 pid = Some k" "ids_ok pid cnt ?ring c0 k" "abs_shows pid a c0 k" using a drop by simp_all
    have w: "a \<noteq> ATx \<and> a \<noteq> APause" if "ended k c0 c'" "c' \<noteq> c0"
      using that c'(3) a(4) mem by (auto simp: abs_shows_def c0_def split: if_splits)
    have k2: "k < 2" using get_port_db_Some [OF a(2)] by simp
    show "link_ok pid cnt fin ?ring c'"
    proof (cases "c' = c0")
      case True
      then show ?thesis using a0 a(5) c'(2) unfolding link_ok_def by blast
    next
      case False
      then have fin: "ended k c0 c'" using c'(3) by (simp split: if_splits)
      then show ?thesis using ended_link_ok [OF fin k2 c'(2) a0 a(5)] w False by blast
    qed
    fix sg assume act: "fin \<noteq> AIdle" and run: "run_ok pid cnt sg ?ring ?c"
    show "run_ok pid cnt sg ?ring c'"
    proof (cases "c' = c0")
      case True
      then show ?thesis using run drop(5) by simp
    next
      case False
      then have fin: "ended k c0 c'" using c'(3) by (simp split: if_splits)
      have "start_ids ?ring = [] \<Longrightarrow> ?ring = []"
        using abs_run_no_start [OF a(5)] w [OF fin False] act by (cases a) auto
      then show ?thesis using ended_run_ok [OF fin k2 a0(1,2)] run drop(5) by blast
    qed
  qed
  then show ?thesis using c'(1) by (simp add: cmd c0_def)
qed

section \<open>Commands of the control plane\<close>

lemma compiled_streams_ok:
  assumes comp: "compile_internal rand pid streams n factor = Inr (objs, w)"
    and src: "\<forall>s\<in>set (filter s_enabled streams). s_type s \<noteq> stNONE \<and> s_port_id s = pid \<and> s_next_stream_id s < 2 ^ 31"
    and len: "length streams < 2 ^ 32" and c: "c < unat n"
  shows "streams_ok pid (co_objs (objs ! c))" and "length (co_objs (objs ! c)) = length (filter s_enabled streams)"
proof -
  let ?en = "filter s_enabled streams"
  show l: "length (co_objs (objs ! c)) = length ?en"
    using compile_internal_cores [OF comp] c list_all2_lengthD by metis
  have nx: "\<forall>s\<in>set ?en. s_next_stream_id s < 2 ^ 31" using src by blast
  have "s_type (co_objs (objs ! c) ! k) \<noteq> stNONE \<and> s_port_id (co_objs (objs ! c) ! k) = pid \<and>
      s_next_stream_id (co_objs (objs ! c) ! k) < int (length ?en)" if k: "k < length ?en" for k
  proof -
    have "?en ! k \<in> set ?en" using k by (rule nth_mem)
    moreover obtain nn vm dp where
      "co_objs (objs ! c) ! k = (core_stream (?en ! k) factor n (int k) nn c)\<lparr>s_vm := vm, s_vm_dp := dp\<rparr>"
      "if s_next_stream_id (?en ! k) < 0 then nn = - 1 else \<exists>t<length ?en. nn = int t \<and> uint (s_stream_id (?en ! t)) = s_next_stream_id (?en ! k)"
      by (rule compiled_stream_at [OF comp nx c k])
    moreover from this(2) have "nn < int (length ?en)" by (auto split: if_splits)
    ultimately show ?thesis using src by (simp add: core_stream_def fix_dp_stream_id_def Let_def)
  qed
  moreover have "length ?en < 2 ^ 32" using len length_filter_le [of s_enabled streams] by linarith
  ultimately show "streams_ok pid (co_objs (objs ! c))"
    unfolding streams_ok_def l list_all_length by blast
qed

lemma compiled_for_start:
  assumes comp: "compile_table rand factor p = Inr objs" and inv: "port_inv p"
    and len: "table_size (po_stream_table p) < 2 ^ 32" and c: "c < length (po_cores_id_list p)"
  shows "length objs = length (po_cores_id_list p) \<and> co_port_id (objs ! c) = po_port_id p \<and>
    streams_ok (po_port_id p) (co_objs (objs ! c)) \<and> co_all_continues (objs ! c) = co_all_continues (hd objs) \<and>
    (co_all_continues (objs ! c) \<longrightarrow> list_all (\<lambda>s. s_type s = stCONTINUOUS) (co_objs (objs ! c)))"
proof -
  let ?streams = "get_object_list (po_stream_table p)" and ?n = "get_dp_core_count p"
  have n: "unat ?n = length (po_cores_id_list p)" "0 < length (po_cores_id_list p)"
    using inv by (simp_all add: port_inv_def get_dp_core_count_def unat_of_nat)
  obtain w where w: "compile_internal rand (po_port_id p) ?streams ?n factor = Inr (objs, w)"
    using comp by (auto simp: compile_table_def split: sum.splits prod.splits)
  have src: "\<forall>s\<in>set (filter s_enabled ?streams). s_type s \<noteq> stNONE \<and> s_port_id s = po_port_id p \<and> s_next_stream_id s < 2 ^ 31"
    using inv by (auto simp: port_inv_def get_object_list_def stream_fits_def)
  obtain m where cores: "length objs = unat ?n" "\<And>c. c < unat ?n \<Longrightarrow> co_port_id (objs ! c) = po_port_id p \<and>
      co_all_continues (objs ! c) = list_all (\<lambda>s. s_type s = stCONTINUOUS) ?streams \<and>
      list_all2 (compiled_as m factor ?n c) (co_objs (objs ! c)) (filter s_enabled ?streams)"
    using compile_internal_cores [OF w] by metis
  have "streams_ok (po_port_id p) (co_objs (objs ! c))"
    using compiled_streams_ok(1) [OF w src] len c n by (simp add: table_size_def get_object_list_def)
  moreover have "list_all (\<lambda>s. s_type s = stCONTINUOUS) (co_objs (objs ! c))" if cont: "list_all (\<lambda>s. s_type s = stCONTINUOUS) ?streams"
  proof -
    have l2: "list_all2 (compiled_as m factor ?n c) (co_objs (objs ! c)) (filter s_enabled ?streams)" using cores(2) c n by simp
    have "s_type d = s_type s" if "compiled_as m factor ?n c d s" for d s
      using that by (auto simp: compiled_as_def core_stream_def fix_dp_stream_id_def Let_def)
    note type = this
    show ?thesis unfolding list_all_length
    proof (intro allI impI)
      fix k assume "k < length (co_objs (objs ! c))"
      then have k: "k < length (filter s_enabled ?streams)" "compiled_as m factor ?n c (co_objs (objs ! c) ! k) (filter s_enabled ?streams ! k)"
        using l2 by (auto simp: list_all2_conv_all_nth)
      have "filter s_enabled ?streams ! k \<in> set ?streams" using nth_mem [OF k(1)] by simp
      then show "s_type (co_objs (objs ! c) ! k) = stCONTINUOUS" using type [OF k(2)] cont by (simp add: list_all_iff)
    qed
  qed
  moreover have "co_all_continues (hd objs) = list_all (\<lambda>s. s_type s = stCONTINUOUS) ?streams"
    using cores n by (metis hd_conv_nth length_greater_0_conv)
  ultimately show ?thesis using cores c n by simp
qed

text \<open>Sending to the rings.\<close>

lemma send_all:
  assumes "rings_free cp" and "distinct (po_cores_id_list (cp_port cp))"
  shows "cp_port (send_message_to_all_dp m cp) = cp_port cp"
    and "i \<in> set (po_cores_id_list (cp_port cp)) \<Longrightarrow> cp_to_dp (send_message_to_all_dp m cp) i = cp_to_dp cp i @ [msg_clone m]"
proof -
  have "cp_port (foldl (\<lambda>c core_id. send_message_to_dp core_id (msg_clone m) c) cp cs) = cp_port cp \<and>
      (\<forall>i. cp_to_dp (foldl (\<lambda>c core_id. send_message_to_dp core_id (msg_clone m) c) cp cs) i =
        cp_to_dp cp i @ (if i \<in> set cs then [msg_clone m] else []))"
    if "\<forall>i\<in>set cs. length (cp_to_dp cp i) < RING_CAPACITY" "distinct cs" for cs
    using that
  proof (induction cs rule: rev_induct)
    case (snoc x xs)
    then show ?case by (auto simp: send_message_to_dp_def)
  qed simp
  from this [of "po_cores_id_list (cp_port cp)"] assms
  show "cp_port (send_message_to_all_dp m cp) = cp_port cp"
    "i \<in> set (po_cores_id_list (cp_port cp)) \<Longrightarrow> cp_to_dp (send_message_to_all_dp m cp) i = cp_to_dp cp i @ [msg_clone m]"
    by (simp_all add: send_message_to_all_dp_def rings_free_def)
qed

lemma send_start:
  assumes "\<forall>i\<in>set cs. length (cp_to_dp cp i) < RING_CAPACITY" and "distinct cs" and "length objs = length cs"
  shows "cp_port (foldl (\<lambda>c (core_id, obj). send_message_to_dp core_id (f obj) c) cp (zip cs objs)) = cp_port cp"
    and "k < length cs \<Longrightarrow> cp_to_dp (foldl (\<lambda>c (core_id, obj). send_message_to_dp core_id (f obj) c) cp (zip cs objs)) (cs ! k) =
      cp_to_dp cp (cs ! k) @ [f (objs ! k)]"
proof -
  have "cp_port (foldl (\<lambda>c (core_id, obj). send_message_to_dp core_id (f obj) c) cp (zip cs objs)) = cp_port cp \<and>
      (\<forall>i. cp_to_dp (foldl (\<lambda>c (core_id, obj). send_message_to_dp core_id (f obj) c) cp (zip cs objs)) i =
        cp_to_dp cp i @ (case map_of (zip cs objs) i of None \<Rightarrow> [] | Some obj \<Rightarrow> [f obj]))"
    using assms(3,1,2)
  proof (induction cs objs rule: rev_induct2)
    case (4 x xs y ys)
    then have "map_of (zip xs ys) x = None" by simp
    with 4 show ?case by (auto simp: send_message_to_dp_def map_add_def split: option.splits)
  qed simp_all
  moreover have "map_of (zip cs objs) (cs ! k) = Some (objs ! k)" if "k < length cs"
    using assms(2,3) that by (simp add: map_of_zip_nth)
  ultimately show "cp_port (foldl (\<lambda>c (core_id, obj). send_message_to_dp core_id (f obj) c) cp (zip cs objs)) = cp_port cp"
    "k < length cs \<Longrightarrow> cp_to_dp (foldl (\<lambda>c (core_id, obj). send_message_to_dp core_id (f obj) c) cp (zip cs objs)) (cs ! k) =
      cp_to_dp cp (cs ! k) @ [f (objs ! k)]" by simp_all
qed

text \<open>Commands that only change the streams.\<close>

lemma sys_inv_port:
  assumes inv: "sys_inv s" and "\<not> active (cp_port (sy_cp s))" and "\<not> active p"
    and "po_cores_id_list p = po_cores_id_list (cp_port (sy_cp s))" and "po_port_id p = po_port_id (cp_port (sy_cp s))"
    and "po_dp_events p = po_dp_events (cp_port (sy_cp s))" and "\<forall>(i, st)\<in>set (po_stream_table p). stream_fits (po_port_id p) st"
  shows "sys_inv (s\<lparr>sy_cp := (sy_cp s)\<lparr>cp_port := p\<rparr>\<rparr>)"
proof -
  have "stop_event_of p = stop_event_of (cp_port (sy_cp s))" using assms(6) by (simp add: stop_event_of_def)
  moreover have "cp_knows p = cp_knows (cp_port (sy_cp s))" using assms(2,3) cp_knows_idle by metis
  moreover have "po_state p \<noteq> PORT_STATE_PAUSE" using assms(3) by (simp add: active_def)
  ultimately show ?thesis
    using assms by (simp add: sys_inv_def port_inv_def await_ok_def links_ok_all_def runs_ok_all_def Let_def)
qed

lemma table_remove_fits:
  assumes "\<forall>(i, st)\<in>set t. P st"
  shows "\<forall>(i, st)\<in>set (table_remove_stream s t). P st"
  using assms by (auto simp: table_remove_stream_def AList.delete_eq)

lemma table_add_fits:
  assumes "\<forall>(i, st)\<in>set t. P st" and "P s"
  shows "\<forall>(i, st)\<in>set (table_add_stream s t). P st"
proof -
  have upd: "(\<forall>(i, st)\<in>set u. P st) \<Longrightarrow> \<forall>(i, st)\<in>set (AList.update k s u). P st" for k and u :: TrexStreamTable
    using assms(2) by (induction u) auto
  show ?thesis
    using upd [OF table_remove_fits [OF assms(1)]] upd [OF assms(1)]
    by (cases "get_stream_by_id t (s_stream_id s)") (simp_all add: table_add_stream_def)
qed

lemma on_port_ok:
  assumes inv: "sys_inv s"
    and f: "\<And>p'. f (cp_port (sy_cp s)) = Inr p' \<Longrightarrow> \<not> active (cp_port (sy_cp s)) \<and> \<not> active p' \<and>
      po_cores_id_list p' = po_cores_id_list (cp_port (sy_cp s)) \<and> po_port_id p' = po_port_id (cp_port (sy_cp s)) \<and>
      po_dp_events p' = po_dp_events (cp_port (sy_cp s)) \<and> (\<forall>(i, st)\<in>set (po_stream_table p'). stream_fits (po_port_id p') st)"
    and def1: "\<And>e. f (cp_port (sy_cp s)) = Inl e \<Longrightarrow> \<not> cp_undefined e"
  shows "\<exists>s'. on_port_of s f = Some s' \<and> sys_inv s'"
proof (cases "f (cp_port (sy_cp s))")
  case (Inl e)
  then show ?thesis using def1 inv by (simp add: on_port_of_def command_def)
next
  case (Inr p')
  have "sys_inv (s\<lparr>sy_cp := (sy_cp s)\<lparr>cp_port := p'\<rparr>\<rparr>)" by (rule sys_inv_port [OF inv]) (use f [OF Inr] in blast)+
  then show ?thesis using Inr by (simp add: on_port_of_def command_def)
qed

lemma port_fits: "sys_inv s \<Longrightarrow> \<forall>(i, st)\<in>set (po_stream_table (cp_port (sy_cp s))). stream_fits (po_port_id (cp_port (sy_cp s))) st"
  by (simp add: sys_inv_def port_inv_def)

lemma stream_commands_ok:
  assumes inv: "sys_inv s"
  shows "stream_fits (po_port_id (cp_port (sy_cp s))) st \<Longrightarrow> \<exists>s'. on_port_of s (port_add_stream st) = Some s' \<and> sys_inv s'"
    and "\<exists>s'. on_port_of s (port_remove_stream st) = Some s' \<and> sys_inv s'"
    and "\<exists>s'. on_port_of s port_remove_all_streams = Some s' \<and> sys_inv s'"
proof -
  note defs = port_add_stream_def port_remove_stream_def port_remove_all_streams_def verify_state_def change_state_def
    delete_streams_graph_def active_def remove_and_delete_all_streams_def Let_def
  show "\<exists>s'. on_port_of s (port_add_stream st) = Some s' \<and> sys_inv s'" if "stream_fits (po_port_id (cp_port (sy_cp s))) st"
    by (rule on_port_ok [OF inv])
      (use table_add_fits [OF port_fits [OF inv] that] in \<open>auto simp: defs bindE_simps split: if_splits\<close>)
  show "\<exists>s'. on_port_of s (port_remove_stream st) = Some s' \<and> sys_inv s'"
    by (rule on_port_ok [OF inv])
      (use table_remove_fits [OF port_fits [OF inv], of st] in \<open>auto simp: defs bindE_simps split: if_splits\<close>)
  show "\<exists>s'. on_port_of s port_remove_all_streams = Some s' \<and> sys_inv s'"
    by (rule on_port_ok [OF inv]) (auto simp: defs bindE_simps split: if_splits)
qed

section \<open>Commands that send\<close>

text \<open>An endless run is not over at any core.\<close>

lemma run_ok_send:
  assumes link: "link_ok pid cnt fin ring c" and fin: "fin = ATx \<or> fin = APause" and m: "start_id m = []"
    and run: "run_ok pid cnt b ring c"
  shows "run_ok pid cnt b (ring @ [m]) c"
proof -
  obtain k a where k: "get_port_db c pid = Some k" "abs_shows pid a c k" "abs_run pid ring a = Some fin"
    using link unfolding link_ok_def by blast
  have "\<not> (pp_state (c_ports c k) = ppSTATE_IDLE \<and> ring = [])"
    using k(2,3) fin by (auto simp: abs_shows_def)
  then show ?thesis using run k(1) m by (auto simp: run_ok_def split: if_splits)
qed

lemma sys_inv_send:
  assumes inv: "sys_inv s" and p: "p = cp_port (sy_cp s)" and knows: "cp_knows p = ATx \<or> cp_knows p = APause"
    and m: "abs_step (po_port_id p) m (cp_knows p) = Some (cp_knows (cp_port cp'))" "start_id m = []"
    and p': "po_cores_id_list (cp_port cp') = po_cores_id_list p" "po_port_id (cp_port cp') = po_port_id p"
      "po_dp_events (cp_port cp') = po_dp_events p" "po_stream_table (cp_port cp') = po_stream_table p"
      "active (cp_port cp')" "po_state (cp_port cp') = PORT_STATE_PAUSE \<Longrightarrow> endless_run (cp_port cp')"
    and rings: "\<And>i. i \<in> set (po_cores_id_list p) \<Longrightarrow> cp_to_dp cp' i = cp_to_dp (sy_cp s) i @ [m]"
  shows "sys_inv (s\<lparr>sy_cp := cp'\<rparr>)"
proof -
  have ev: "stop_event_of (cp_port cp') = stop_event_of p" using p'(3) by (simp add: stop_event_of_def)
  have act: "active p" using knows cp_knows_idle [of p] by auto
  have link: "link_ok (po_port_id p) (run_counter p) (cp_knows p) (cp_to_dp (sy_cp s) i) (sy_core s i)"
    if "i \<in> set (po_cores_id_list p)" for i
    using sys_link [OF inv] that p by blast
  have sig: "i \<in> set (po_cores_id_list p)" if "(i, b) \<in> set (de_signal (stop_event_of p))" for i b
    using inv that p by (metis port_inv_def sys_inv_def fst_conv image_eqI set_map)
  have "links_ok_all (s\<lparr>sy_cp := cp'\<rparr>)"
    unfolding links_ok_all_def Let_def using link_ok_send [OF link m] by (simp add: p' rings)
  moreover have "runs_ok_all (s\<lparr>sy_cp := cp'\<rparr>)"
    unfolding runs_ok_all_def Let_def
    using inv act run_ok_send [OF link knows m(2)] sig
    by (auto simp: p' rings ev p sys_inv_def runs_ok_all_def Let_def)
  moreover have "port_inv (cp_port cp')" using inv p p'(6) by (simp add: sys_inv_def port_inv_def p'(1-4) ev)
  moreover have "await_ok (cp_port cp') = await_ok p"
    using act p'(5) by (simp add: await_ok_def Let_def p'(3) ev)
  ultimately show ?thesis using inv p by (simp add: sys_inv_def)
qed

lemma calculate_keeps:
  assumes "calculate_effective_factor mul p = Inr (p', f)"
  shows "\<exists>g. p' = p\<lparr>po_graph_obj := g\<rparr>"
proof -
  have "\<exists>g. p = p\<lparr>po_graph_obj := g\<rparr>" by (rule exI [of _ "po_graph_obj p"]) simp
  then show ?thesis using assms
    by (auto simp: calculate_effective_factor_def generate_streams_graph_def delete_streams_graph_def bindE_simps
        split: if_splits sum.splits)
qed

lemma command_defined: "defined r \<Longrightarrow> (\<And>cp. r = Inr cp \<Longrightarrow> sys_inv (s\<lparr>sy_cp := cp\<rparr>)) \<Longrightarrow> sys_inv s \<Longrightarrow>
  \<exists>s'. command s r = Some s' \<and> sys_inv s'"
  by (cases r) (simp_all add: defined_def command_def)

lemma CpPause_ok:
  assumes inv: "sys_inv s" and free: "rings_free (sy_cp s)"
  shows "\<exists>s'. sys_step CpPause s = Some s' \<and> sys_inv s'"
  unfolding sys_step.simps
proof (rule command_defined [OF _ _ inv])
  let ?p = "cp_port (sy_cp s)"
  show "defined (port_pause_traffic_cp (sy_cp s))"
    by (auto simp: defined_def port_pause_traffic_cp_def verify_state_def Let_def split: sum.splits if_splits)
  fix cp assume "port_pause_traffic_cp (sy_cp s) = Inr cp"
  then have st: "po_state ?p = PORT_STATE_TX" "endless_run ?p" and cp: "cp = publish_event EVENT_PORT_PAUSED
      ((send_message_to_all_dp (TrexStatelessDpPause (po_port_id ?p)) (sy_cp s))
         \<lparr>cp_port := change_state PORT_STATE_PAUSE (cp_port (send_message_to_all_dp (TrexStatelessDpPause (po_port_id ?p)) (sy_cp s)))\<rparr>)"
    by (auto simp: port_pause_traffic_cp_def verify_state_def bindE_simps Let_def endless_run_def split: if_splits)
  have "distinct (po_cores_id_list ?p)" using inv by (simp add: sys_inv_def port_inv_def)
  note send = send_all [OF free this]
  show "sys_inv (s\<lparr>sy_cp := cp\<rparr>)"
    by (rule sys_inv_send [OF inv refl, where m = "TrexStatelessDpPause (po_port_id ?p)"])
      (use st send in \<open>simp_all add: cp publish_event_def change_state_def cp_knows_def active_def endless_run_def\<close>)
qed

lemma CpResume_ok:
  assumes inv: "sys_inv s" and free: "rings_free (sy_cp s)"
  shows "\<exists>s'. sys_step CpResume s = Some s' \<and> sys_inv s'"
  unfolding sys_step.simps
proof (rule command_defined [OF _ _ inv])
  let ?p = "cp_port (sy_cp s)"
  show "defined (port_resume_traffic_cp (sy_cp s))"
    by (auto simp: defined_def port_resume_traffic_cp_def verify_state_def Let_def split: sum.splits if_splits)
  fix cp assume "port_resume_traffic_cp (sy_cp s) = Inr cp"
  then have st: "po_state ?p = PORT_STATE_PAUSE" and cp: "cp = publish_event EVENT_PORT_RESUMED
      ((send_message_to_all_dp (TrexStatelessDpResume (po_port_id ?p)) (sy_cp s))
         \<lparr>cp_port := change_state PORT_STATE_TX (cp_port (send_message_to_all_dp (TrexStatelessDpResume (po_port_id ?p)) (sy_cp s)))\<rparr>)"
    by (auto simp: port_resume_traffic_cp_def verify_state_def bindE_simps Let_def split: if_splits)
  have "distinct (po_cores_id_list ?p)" "endless_run ?p" using inv st by (simp_all add: sys_inv_def port_inv_def)
  note send = send_all [OF free this(1)] this(2)
  show "sys_inv (s\<lparr>sy_cp := cp\<rparr>)"
    by (rule sys_inv_send [OF inv refl, where m = "TrexStatelessDpResume (po_port_id ?p)"])
      (use st send in \<open>simp_all add: cp publish_event_def change_state_def cp_knows_def active_def endless_run_def\<close>)
qed

lemma update_sends:
  assumes upd: "port_update_traffic_cp mul cp0 = Inr cp" and free: "rings_free cp0" and pinv: "port_inv (cp_port cp0)"
  obtains f g where "active (cp_port cp0)" and "cp_port cp = (cp_port cp0)\<lparr>po_graph_obj := g, po_factor := po_factor (cp_port cp0) * f\<rparr>"
    and "\<forall>i\<in>set (po_cores_id_list (cp_port cp0)). cp_to_dp cp i = cp_to_dp cp0 i @ [TrexStatelessDpUpdate (po_port_id (cp_port cp0)) f]"
proof -
  let ?p = "cp_port cp0"
  obtain p' f new where st: "active ?p" and p': "calculate_effective_factor mul ?p = Inr (p', new)"
    and cp: "cp = (send_message_to_all_dp (TrexStatelessDpUpdate (po_port_id p') f) (cp0\<lparr>cp_port := p'\<rparr>))
      \<lparr>cp_port := (cp_port (send_message_to_all_dp (TrexStatelessDpUpdate (po_port_id p') f) (cp0\<lparr>cp_port := p'\<rparr>)))
        \<lparr>po_factor := po_factor p' * f\<rparr>\<rparr>"
    using upd by (auto simp: port_update_traffic_cp_def verify_state_def bindE_simps active_def Let_def split: if_splits)
  obtain g where g: "p' = ?p\<lparr>po_graph_obj := g\<rparr>" using calculate_keeps [OF p'] by blast
  have "rings_free (cp0\<lparr>cp_port := p'\<rparr>)" "distinct (po_cores_id_list (cp_port (cp0\<lparr>cp_port := p'\<rparr>)))"
    using free pinv by (simp_all add: rings_free_def g port_inv_def)
  note send = send_all [OF this, unfolded g]
  show thesis by (rule that [OF st, where f = f and g = g]) (simp_all add: cp g send)
qed

lemma CpUpdate_ok:
  assumes inv: "sys_inv s" and al: "sys_allowed (CpUpdate mul) s"
  shows "\<exists>s'. sys_step (CpUpdate mul) s = Some s' \<and> sys_inv s'"
  unfolding sys_step.simps
proof (rule command_defined [OF _ _ inv])
  let ?p = "cp_port (sy_cp s)"
  show "defined (port_update_traffic_cp mul (sy_cp s))" using al by simp
  fix cp assume upd: "port_update_traffic_cp mul (sy_cp s) = Inr cp"
  have free: "rings_free (sy_cp s)" "port_inv ?p" and "endless_run ?p" using inv al by (simp_all add: sys_inv_def)
  obtain f g where st: "active ?p" and port: "cp_port cp = ?p\<lparr>po_graph_obj := g, po_factor := po_factor ?p * f\<rparr>"
    and ring: "\<forall>i\<in>set (po_cores_id_list ?p). cp_to_dp cp i = cp_to_dp (sy_cp s) i @ [TrexStatelessDpUpdate (po_port_id ?p) f]"
    by (rule update_sends [OF upd free])
  have "endless_run (cp_port cp)" using \<open>endless_run ?p\<close> by (simp add: port endless_run_def)
  then show "sys_inv (s\<lparr>sy_cp := cp\<rparr>)"
    using st ring \<open>endless_run ?p\<close> by (intro sys_inv_send [OF inv refl, where m = "TrexStatelessDpUpdate (po_port_id ?p) f"])
      (auto simp: port cp_knows_def active_def)
qed

lemma CpStop_ok:
  assumes inv: "sys_inv s" and free: "rings_free (sy_cp s)"
  shows "sys_inv (s\<lparr>sy_cp := port_stop_traffic_cp (sy_cp s)\<rparr>)"
proof (cases "active (cp_port (sy_cp s))")
  case False
  then show ?thesis using inv by (simp add: port_stop_traffic_cp_def active_def Let_def)
next
  case True
  let ?p = "cp_port (sy_cp s)" and ?cp = "port_stop_traffic_cp (sy_cp s)"
  let ?m = "TrexStatelessDpStop (po_port_id ?p) False 0"
  define cp1 where "cp1 = (sy_cp s)\<lparr>cp_port := (delete_streams_graph ?p)\<lparr>po_dp_events := events_disable EVENT_STOP (po_dp_events ?p)\<rparr>\<rparr>"
  have pinv: "port_inv ?p" using inv by (simp add: sys_inv_def)
  have "rings_free cp1" "distinct (po_cores_id_list (cp_port cp1))"
    using free pinv by (simp_all add: cp1_def rings_free_def port_inv_def delete_streams_graph_def)
  note send = send_all [OF this]
  have port: "cp_port ?cp = change_state PORT_STATE_STREAMS (cp_port cp1)"
    and ring: "i \<in> set (po_cores_id_list ?p) \<Longrightarrow> cp_to_dp ?cp i = cp_to_dp (sy_cp s) i @ [?m]" for i
    using True send unfolding active_def
    by (auto simp: port_stop_traffic_cp_def Let_def publish_event_def cp1_def TrexStatelessDpStop_new_def delete_streams_graph_def)
  have ev: "stop_event_of (cp_port ?cp) = event_disable (stop_event_of ?p)" "po_cores_id_list (cp_port ?cp) = po_cores_id_list ?p"
    "po_port_id (cp_port ?cp) = po_port_id ?p" "run_counter (cp_port ?cp) = run_counter ?p" "po_stream_table (cp_port ?cp) = po_stream_table ?p"
    "length (dv_events (po_dp_events (cp_port ?cp))) = EVENT_MAX" "po_state (cp_port ?cp) = PORT_STATE_STREAMS"
    using pinv by (simp_all add: port cp1_def change_state_def delete_streams_graph_def events_disable_def stop_event_of_def
        port_inv_def EVENT_STOP_def EVENT_MAX_def)
  have "links_ok_all (s\<lparr>sy_cp := ?cp\<rparr>)"
    unfolding links_ok_all_def Let_def using link_ok_send [OF sys_link [OF inv], of _ ?m AIdle]
    by (simp add: ev ring cp_knows_def)
  moreover have "runs_ok_all (s\<lparr>sy_cp := ?cp\<rparr>)" by (simp add: runs_ok_all_def active_def ev)
  moreover have "port_inv (cp_port ?cp)" using pinv by (simp add: port_inv_def ev event_disable_def)
  moreover have "await_ok (cp_port ?cp)" by (simp add: await_ok_def ev active_def event_disable_def)
  ultimately show ?thesis by (simp add: sys_inv_def)
qed

text \<open>The port as \<open>start_traffic\<close> leaves it: transmitting, and waiting for the end of a run with a new id.\<close>

definition started :: "int \<Rightarrow> rat \<Rightarrow> rat \<Rightarrow> bool \<Rightarrow> TrexStatelessPort \<Rightarrow> TrexStatelessPort" where
  "started now factor duration continues p = change_state PORT_STATE_TX (p\<lparr>
     po_dp_events := events_wait_for_event now EVENT_STOP (run_counter p + 1) (- 1)
       ((po_dp_events p)\<lparr>dv_event_id_counter := run_counter p + 1\<rparr>),
     po_factor := factor, po_last_all_streams_continues := continues, po_last_duration := duration\<rparr>)"

lemma started_ports:
  assumes "port_inv p"
  shows "stop_event_of (started now f d b p) = event_wait_for_event now (run_counter p + 1) (- 1) (event_disable (stop_event_of p))"
    and "po_cores_id_list (started now f d b p) = po_cores_id_list p" and "po_port_id (started now f d b p) = po_port_id p"
    and "run_counter (started now f d b p) = run_counter p + 1" and "po_stream_table (started now f d b p) = po_stream_table p"
    and "length (dv_events (po_dp_events (started now f d b p))) = EVENT_MAX" and "po_state (started now f d b p) = PORT_STATE_TX"
    and "endless_run (started now f d b p) \<longleftrightarrow> b \<and> d \<le> 0"
  using assms by (simp_all add: started_def change_state_def events_wait_for_event_def stop_event_of_def port_inv_def
      EVENT_STOP_def EVENT_MAX_def Let_def endless_run_def)

lemma port_inv_cores: "port_inv p \<Longrightarrow> length (de_signal (stop_event_of p)) = length (po_cores_id_list p)"
  unfolding port_inv_def by (metis length_map)

lemma port_inv_signals: "port_inv p \<Longrightarrow> fst ` set (de_signal (stop_event_of p)) = set (po_cores_id_list p)"
  unfolding port_inv_def by (metis set_map)

lemma started_signals:
  assumes "port_inv p"
  shows "de_signal (stop_event_of (started now f d b p)) = map (\<lambda>(c, _). (c, False)) (de_signal (stop_event_of p))"
    and "de_pending_cnt (stop_event_of (started now f d b p)) = int (length (po_cores_id_list p))"
    and "de_event_id (stop_event_of (started now f d b p)) = run_counter p + 1"
  using port_inv_cores [OF assms] by (simp_all add: started_ports [OF assms] event_wait_for_event_def event_disable_def)

lemma started_inv:
  assumes "port_inv p"
  shows "port_inv (started now f d b p)" and "await_ok (started now f d b p)"
proof -
  let ?q = "started now f d b p"
  note ev = started_ports [OF assms] and sig = started_signals [OF assms]
  show "port_inv ?q" using assms by (simp add: port_inv_def ev(2-8) sig(1) comp_def case_prod_beta)
  have "filter (\<lambda>(i, b). \<not> b) (de_signal (stop_event_of ?q)) = de_signal (stop_event_of ?q)"
    by (rule filter_True) (auto simp: sig)
  then show "await_ok ?q" using assms port_inv_cores [OF assms]
    by (simp add: await_ok_def active_def ev(4,7) sig port_inv_def)
qed

lemma start_traffic_sends:
  assumes start: "port_start_traffic rand now mul duration cp0 = Inr cp" and free: "rings_free cp0" and pinv: "port_inv (cp_port cp0)"
  obtains factor g objs where "po_state (cp_port cp0) = PORT_STATE_STREAMS"
    and "compile_table rand factor ((cp_port cp0)\<lparr>po_graph_obj := g\<rparr>) = Inr objs"
    and "cp_port cp = started now factor duration (co_all_continues (hd objs)) ((cp_port cp0)\<lparr>po_graph_obj := g\<rparr>)"
    and "\<forall>k<length (po_cores_id_list (cp_port cp0)). cp_to_dp cp (po_cores_id_list (cp_port cp0) ! k) =
      cp_to_dp cp0 (po_cores_id_list (cp_port cp0) ! k) @
      [TrexStatelessDpStart (po_port_id (cp_port cp0)) (run_counter (cp_port cp0) + 1) (objs ! k) duration]"
proof -
  let ?p = "cp_port cp0" and ?cs = "po_cores_id_list (cp_port cp0)"
  have st: "po_state ?p = PORT_STATE_STREAMS"
    using start by (auto simp: port_start_traffic_def verify_state_def bindE_simps split: if_splits)
  obtain p' factor where p': "calculate_effective_factor mul (delete_streams_graph ?p) = Inr (p', factor)"
    using start by (auto simp: port_start_traffic_def bindE_simps)
  obtain g where g: "p' = ?p\<lparr>po_graph_obj := g\<rparr>" using calculate_keeps [OF p'] by (auto simp: delete_streams_graph_def)
  obtain objs where objs: "compile_table rand factor p' = Inr objs" "objs \<noteq> []" "length objs = length ?cs"
    using start p' by (auto simp: port_start_traffic_def bindE_simps g)
  define p1 where "p1 = started now factor duration (co_all_continues (hd objs)) p'"
  define m where "m obj = TrexStatelessDpStart (po_port_id ?p) (run_counter ?p + 1) obj duration" for obj
  have cp: "cp = publish_event EVENT_PORT_STARTED (foldl (\<lambda>c (core_id, obj). send_message_to_dp core_id (m obj) c)
      (cp0\<lparr>cp_port := p1\<rparr>) (zip ?cs objs))"
    using start p' objs by (simp add: port_start_traffic_def bindE_simps p1_def m_def g generate_event_id_def Let_def started_def)
  have "\<forall>i\<in>set ?cs. length (cp_to_dp (cp0\<lparr>cp_port := p1\<rparr>) i) < RING_CAPACITY" "distinct ?cs"
    using free pinv by (simp_all add: rings_free_def port_inv_def)
  note send = send_start [OF this objs(3), where f = m]
  show thesis
    using send by (intro that [OF st objs(1) [unfolded g]]) (simp_all add: cp publish_event_def p1_def g m_def)
qed

lemma started_step:
  assumes "compile_table rand factor p = Inr objs" and "port_inv p" and "table_size (po_stream_table p) < 2 ^ 32"
    and "po_state p = PORT_STATE_STREAMS" and "k < length (po_cores_id_list p)"
  shows "abs_step (po_port_id p) (TrexStatelessDpStart (po_port_id p) e (objs ! k) d) (cp_knows p) =
    Some (cp_knows (started now f d (co_all_continues (hd objs)) p))"
  using compiled_for_start [OF assms(1-3,5)] assms(4) started_ports(7,8) [OF assms(2)] by (auto simp: cp_knows_def)

lemma run_ok_start:
  assumes "link_ok pid cnt fin ring c" and "start_id m = [cnt + 1]"
  shows "run_ok pid (cnt + 1) False (ring @ [m]) c"
proof -
  obtain k where k: "get_port_db c pid = Some k" "ids_ok pid cnt ring c k" using assms(1) unfolding link_ok_def by blast
  have "(pid, cnt + 1) \<notin> set (c_events c)" using k(2) by (auto simp: ids_ok_def)
  then show ?thesis using k(1) assms(2) by (simp add: run_ok_def)
qed

lemma port_inv_graph [simp]:
  "endless_run (p\<lparr>po_graph_obj := g\<rparr>) = endless_run p" "stop_event_of (p\<lparr>po_graph_obj := g\<rparr>) = stop_event_of p"
  "port_inv (p\<lparr>po_graph_obj := g\<rparr>) = port_inv p" "cp_knows (p\<lparr>po_graph_obj := g\<rparr>) = cp_knows p"
  by (simp_all add: endless_run_def stop_event_of_def port_inv_def cp_knows_def cong: port_state_e.case_cong)

lemma CpStart_ok:
  assumes inv: "sys_inv s" and al: "sys_allowed (CpStart rand now mul duration) s"
  shows "\<exists>s'. sys_step (CpStart rand now mul duration) s = Some s' \<and> sys_inv s'"
  unfolding sys_step.simps
proof (rule command_defined [OF _ _ inv])
  let ?p = "cp_port (sy_cp s)" and ?cs = "po_cores_id_list (cp_port (sy_cp s))"
  show "defined (port_start_traffic rand now mul duration (sy_cp s))" using al by simp
  fix cp assume start: "port_start_traffic rand now mul duration (sy_cp s) = Inr cp"
  have pinv: "port_inv ?p" "rings_free (sy_cp s)" using inv al by (simp_all add: sys_inv_def)
  obtain factor g objs where st: "po_state ?p = PORT_STATE_STREAMS"
    and objs: "compile_table rand factor (?p\<lparr>po_graph_obj := g\<rparr>) = Inr objs"
    and port: "cp_port cp = started now factor duration (co_all_continues (hd objs)) (?p\<lparr>po_graph_obj := g\<rparr>)"
    and ring: "\<forall>k<length ?cs. cp_to_dp cp (?cs ! k) =
      cp_to_dp (sy_cp s) (?cs ! k) @ [TrexStatelessDpStart (po_port_id ?p) (run_counter ?p + 1) (objs ! k) duration]"
    by (rule start_traffic_sends [OF start pinv(2,1)])
  let ?q = "?p\<lparr>po_graph_obj := g\<rparr>" and ?p1 = "cp_port cp"
  have q: "port_inv ?q" using pinv by simp
  note ev = started_ports [OF q, of now factor duration "co_all_continues (hd objs)", folded port, simplified]
  have link: "link_ok (po_port_id ?p) (run_counter ?p) (cp_knows ?p) (cp_to_dp (sy_cp s) (?cs ! k)) (sy_core s (?cs ! k))"
    if "k < length ?cs" for k using sys_link [OF inv nth_mem [OF that]] .
  have step: "abs_step (po_port_id ?p) (TrexStatelessDpStart (po_port_id ?p) e (objs ! k) duration) (cp_knows ?p) = Some (cp_knows ?p1)"
    if "k < length ?cs" for k e
    using started_step [OF objs q, of k, simplified] that al st by (simp add: port)
  have idx: "P i" if "\<And>k. k < length ?cs \<Longrightarrow> P (?cs ! k)" "i \<in> set ?cs" for P i using that by (metis in_set_conv_nth)
  have "link_ok (po_port_id ?p) (run_counter ?p + 1) (cp_knows ?p1) (cp_to_dp cp i) (sy_core s i)" if "i \<in> set ?cs" for i
    by (rule idx [OF _ that]) (use link_ok_send_start [OF link step] ring in simp)
  then have "links_ok_all (s\<lparr>sy_cp := cp\<rparr>)" by (simp add: links_ok_all_def Let_def ev(2-4))
  moreover have "runs_ok_all (s\<lparr>sy_cp := cp\<rparr>)"
  proof -
    have "run_ok (po_port_id ?p) (run_counter ?p + 1) False (cp_to_dp cp i) (sy_core s i)" if "i \<in> set ?cs" for i
      by (rule idx [OF _ that]) (use run_ok_start [OF link] ring in simp)
    moreover have "i \<in> set ?cs \<and> \<not> b" if "(i, b) \<in> set (de_signal (stop_event_of ?p1))" for i b
      using that port_inv_signals [OF pinv(1)] unfolding port started_signals(1) [OF q] by force
    ultimately show ?thesis unfolding runs_ok_all_def Let_def by (fastforce simp: ev(3,4))
  qed
  ultimately show "sys_inv (s\<lparr>sy_cp := cp\<rparr>)" using started_inv [OF q] by (simp add: sys_inv_def port)
qed

text \<open>The control plane takes the first event of a core.\<close>

lemma take_event:
  assumes c: "c_events c = x # rest" and c0: "c0 = c\<lparr>c_events := rest\<rparr>"
  shows "core_ok c0 = core_ok c" and "get_port_db c0 = get_port_db c" and "abs_shows pid a c0 k = abs_shows pid a c k"
    and "ids_ok pid cnt ring c k \<Longrightarrow> ids_ok pid cnt ring c0 k"
    and "link_ok pid cnt fin ring c \<Longrightarrow> link_ok pid cnt fin ring c0"
    and "run_ok pid e b ring c \<Longrightarrow> x \<noteq> (pid, e) \<Longrightarrow> run_ok pid e b ring c0"
    and "run_ok pid e b ring c \<Longrightarrow> x = (pid, e) \<Longrightarrow> run_ok pid e True ring c0"
proof -
  have db: "get_port_db c0 = get_port_db c" and ok: "core_ok c0 = core_ok c" and sh: "abs_shows pid a c0 k = abs_shows pid a c k"
    and ids: "ids_ok pid cnt ring c k \<Longrightarrow> ids_ok pid cnt ring c0 k" for a k
    using c by (auto simp: c0 get_port_db_def fun_eq_iff abs_shows_def endless_def ids_ok_def split: dp_abs.splits)
  then show "core_ok c0 = core_ok c" "get_port_db c0 = get_port_db c" "abs_shows pid a c0 k = abs_shows pid a c k"
    "ids_ok pid cnt ring c k \<Longrightarrow> ids_ok pid cnt ring c0 k" by simp_all
  show "link_ok pid cnt fin ring c \<Longrightarrow> link_ok pid cnt fin ring c0" using db ok sh ids unfolding link_ok_def by metis
  show "run_ok pid e b ring c \<Longrightarrow> x \<noteq> (pid, e) \<Longrightarrow> run_ok pid e b ring c0"
    "run_ok pid e b ring c \<Longrightarrow> x = (pid, e) \<Longrightarrow> run_ok pid e True ring c0"
    using db c by (auto simp: run_ok_def c0)
qed

text \<open>One more core has signalled.\<close>

definition pending_of :: "(nat \<times> bool) list \<Rightarrow> int" where
  "pending_of sig = int (length (filter (\<lambda>(i, b). \<not> b) sig))"

lemma pending_signal:
  assumes "distinct (map fst sig)" and "map_of sig i = Some b"
  shows "pending_of (AList.update i True sig) = (if b then pending_of sig else pending_of sig - 1)"
proof (cases b)
  case True
  then show ?thesis using assms(2) by (simp add: update_triv)
next
  case False
  have "Suc (length (filter (\<lambda>(i, b). \<not> b) (AList.update i True sig))) = length (filter (\<lambda>(i, b). \<not> b) sig)"
    using assms False by (induction sig) (auto split: if_splits)
  then show ?thesis using False by (simp add: pending_of_def)
qed

definition signalled :: "nat \<Rightarrow> TrexDpPortEvent \<Rightarrow> TrexDpPortEvent" where
  "signalled i e = e\<lparr>de_signal := AList.update i True (de_signal e), de_pending_cnt := pending_of (AList.update i True (de_signal e))\<rparr>"

lemma event_awaited:
  assumes "port_inv p" and "await_ok p" and "active p" and "i \<in> set (po_cores_id_list p)"
  shows "event_handle_event now i (run_counter p) (stop_event_of p) =
    (if pending_of (de_signal (signalled i (stop_event_of p))) = 0
     then Inr (True, (signalled i (stop_event_of p))\<lparr>de_event_id := EVENT_ID_INVALID\<rparr>)
     else Inr (False, signalled i (stop_event_of p)))"
proof -
  let ?e = "stop_event_of p"
  have e: "de_event_id ?e = run_counter p" "0 \<le> run_counter p" "de_pending_cnt ?e = pending_of (de_signal ?e)"
    using assms(2,3) by (simp_all add: await_ok_def Let_def pending_of_def)
  obtain b where b: "map_of (de_signal ?e) i = Some b"
    using port_inv_signals [OF assms(1)] assms(4) by (metis map_of_eq_None_iff not_Some_eq)
  have "distinct (map fst (de_signal ?e))" using assms(1) by (simp add: port_inv_def)
  note pend = pending_signal [OF this b]
  have sg: "(if b then ?e else ?e\<lparr>de_signal := AList.update i True (de_signal ?e), de_pending_cnt := de_pending_cnt ?e - 1\<rparr>) =
      signalled i ?e"
    using b pend e(3) by (cases b) (simp_all add: signalled_def update_triv)
  have pc: "de_pending_cnt (signalled i ?e) = pending_of (de_signal (signalled i ?e))" by (simp add: signalled_def)
  show ?thesis using e(1,2) b unfolding event_handle_event_def
    by (simp add: event_is_active_def event_status_def EVENT_ID_INVALID_def sg pc Let_def)
qed

lemma dropped_event:
  assumes inv: "sys_inv s" and ev: "c_events (sy_core s i) = x # rest"
    and other: "active (cp_port (sy_cp s)) \<Longrightarrow> x \<noteq> (po_port_id (cp_port (sy_cp s)), run_counter (cp_port (sy_cp s)))"
  shows "sys_inv (put_core i ((sy_core s i)\<lparr>c_events := rest\<rparr>) s)"
proof -
  note drop = take_event [OF ev refl]
  show ?thesis
    using inv drop(5,6) other by (fastforce simp: sys_inv_def links_ok_all_def runs_ok_all_def Let_def put_core_def)
qed

lemma event_ignored:
  assumes "await_ok p" and "active p \<Longrightarrow> eid \<noteq> run_counter p"
  shows "event_handle_event now i eid (stop_event_of p) = Inr (False, stop_event_of p)"
  using assms by (auto simp: event_handle_event_def await_ok_def event_is_active_def event_status_def Let_def split: if_splits)

definition with_stop_event :: "TrexDpPortEvent \<Rightarrow> TrexStatelessPort \<Rightarrow> TrexStatelessPort" where
  "with_stop_event e p = p\<lparr>po_dp_events := (po_dp_events p)\<lparr>dv_events := (dv_events (po_dp_events p))[EVENT_STOP := e]\<rparr>\<rparr>"

lemma with_stop_event_simps:
  assumes "port_inv p"
  shows "stop_event_of (with_stop_event e p) = e" and "with_stop_event (stop_event_of p) p = p"
    and "map fst (de_signal e) = po_cores_id_list p \<Longrightarrow> port_inv (with_stop_event e p)"
    and "cp_knows (with_stop_event e p) = cp_knows p" and "run_counter (with_stop_event e p) = run_counter p"
    and "active (with_stop_event e p) = active p" and "po_port_id (with_stop_event e p) = po_port_id p"
    and "po_cores_id_list (with_stop_event e p) = po_cores_id_list p"
proof -
  have e: "endless_run (with_stop_event e p) = endless_run p" "stop_event_of (with_stop_event e p) = e"
    using assms by (simp_all add: with_stop_event_def endless_run_def stop_event_of_def port_inv_def EVENT_STOP_def EVENT_MAX_def)
  then show "stop_event_of (with_stop_event e p) = e" by simp
  show "map fst (de_signal e) = po_cores_id_list p \<Longrightarrow> port_inv (with_stop_event e p)"
    using assms unfolding port_inv_def e by (simp add: with_stop_event_def)
  show "cp_knows (with_stop_event e p) = cp_knows p" unfolding cp_knows_def e by (simp add: with_stop_event_def)
qed (simp_all add: with_stop_event_def stop_event_of_def active_def)

lemma handle_stop_event:
  assumes "event_handle_event now i eid (stop_event_of (cp_port cp)) = Inr (occured, e)"
  shows "port_handle_event now EVENT_STOP i eid cp = Inr (let cp1 = cp\<lparr>cp_port := with_stop_event e (cp_port cp)\<rparr> in
    if occured then publish_event EVENT_PORT_FINISHED_TX (cp1\<lparr>cp_port := change_state PORT_STATE_STREAMS (cp_port cp1)\<rparr>) else cp1)"
  using assms by (simp add: port_handle_event_def stop_event_of_def with_stop_event_def on_dp_event_occured_def Let_def bindE_simps)

text \<open>The last core has signalled: the run is over everywhere.\<close>

lemma run_over_link:
  assumes "link_ok pid cnt fin ring c" and "run_ok pid e True ring c"
  shows "link_ok pid cnt AIdle ring c"
  using assms by (fastforce simp: link_ok_def run_ok_def abs_shows_def)

lemma awaited_runs:
  assumes inv: "sys_inv s" and i: "i \<in> set (po_cores_id_list (cp_port (sy_cp s)))" and act: "active (cp_port (sy_cp s))"
    and ev: "c_events (sy_core s i) = (po_port_id (cp_port (sy_cp s)), run_counter (cp_port (sy_cp s))) # rest"
    and jb: "(j, b) \<in> set (de_signal (signalled i (stop_event_of (cp_port (sy_cp s)))))"
  shows "run_ok (po_port_id (cp_port (sy_cp s))) (run_counter (cp_port (sy_cp s))) b (cp_to_dp (sy_cp s) j)
    (((sy_core s)(i := (sy_core s i)\<lparr>c_events := rest\<rparr>)) j)"
proof -
  let ?p = "cp_port (sy_cp s)" and ?sig = "de_signal (stop_event_of (cp_port (sy_cp s)))"
  have pinv: "port_inv ?p" using inv by (simp add: sys_inv_def)
  have run: "run_ok (po_port_id ?p) (run_counter ?p) b (cp_to_dp (sy_cp s) j) (sy_core s j)" if "(j, b) \<in> set ?sig" for j b
    using inv act that by (auto simp: sys_inv_def runs_ok_all_def Let_def)
  have d: "distinct (map fst ?sig)" using pinv by (simp add: port_inv_def)
  then have d': "distinct (map fst (AList.update i True ?sig))" by (rule distinct_update)
  from jb have m: "map_of (AList.update i True ?sig) j = Some b" using d' by (simp add: signalled_def)
  show ?thesis
  proof (cases "j = i")
    case True
    obtain b0 where "(i, b0) \<in> set ?sig" using port_inv_signals [OF pinv] i by force
    from take_event(7) [OF ev refl run [OF this] refl] show ?thesis using m True by (simp add: update_conv')
  next
    case False
    then have "(j, b) \<in> set ?sig" using m map_of_SomeD [of ?sig j b] by (simp add: update_conv')
    then show ?thesis using run False by simp
  qed
qed

lemma run_over_inv:
  assumes "port_inv p" and "map fst (de_signal e) = po_cores_id_list p"
    and "cp_port (sy_cp s) = change_state PORT_STATE_STREAMS (with_stop_event (e\<lparr>de_event_id := EVENT_ID_INVALID\<rparr>) p)"
    and "\<forall>j\<in>set (po_cores_id_list p). link_ok (po_port_id p) (run_counter p) AIdle (cp_to_dp (sy_cp s) j) (sy_core s j)"
  shows "sys_inv s"
proof -
  let ?q = "with_stop_event (e\<lparr>de_event_id := EVENT_ID_INVALID\<rparr>) p"
  note ws = with_stop_event_simps [OF assms(1)]
  have q: "stop_event_of (cp_port (sy_cp s)) = e\<lparr>de_event_id := EVENT_ID_INVALID\<rparr>" "po_state (cp_port (sy_cp s)) = PORT_STATE_STREAMS"
    "po_cores_id_list (cp_port (sy_cp s)) = po_cores_id_list p" "po_port_id (cp_port (sy_cp s)) = po_port_id p"
    "run_counter (cp_port (sy_cp s)) = run_counter p"
    using ws(1) [of "e\<lparr>de_event_id := EVENT_ID_INVALID\<rparr>"]
    by (simp_all add: assms(3) change_state_def stop_event_of_def with_stop_event_def)
  have idle: "\<not> active (cp_port (sy_cp s))" "cp_knows (cp_port (sy_cp s)) = AIdle" using q(2) by (simp_all add: active_def cp_knows_def)
  have "port_inv ?q" using ws(3) assms(2) by simp
  then have "port_inv (cp_port (sy_cp s))" using q(2) unfolding port_inv_def assms(3)
    by (simp add: change_state_def stop_event_of_def)
  then show ?thesis using assms(4) idle q by (simp add: sys_inv_def links_ok_all_def runs_ok_all_def await_ok_def Let_def)
qed

lemma CpDpEvent_ok:
  assumes inv: "sys_inv s" and al: "sys_allowed (CpDpEvent now i) s"
  shows "\<exists>s'. sys_step (CpDpEvent now i) s = Some s' \<and> sys_inv s'"
proof -
  let ?p = "cp_port (sy_cp s)"
  have i: "i \<in> set (po_cores_id_list ?p)" and pinv: "port_inv ?p" "await_ok ?p" using inv al by (simp_all add: sys_inv_def)
  obtain q eid rest where ev: "c_events (sy_core s i) = (q, eid) # rest"
    using al by (cases "c_events (sy_core s i)") auto
  let ?c = "(sy_core s i)\<lparr>c_events := rest\<rparr>" and ?e = "stop_event_of ?p"
  note step = sys_step.simps(9) [of now i s] ev Let_def list.case prod.case command_def
  note ws = with_stop_event_simps [OF pinv(1)]
  have sp: "sy_cp (put_core i ?c s) = sy_cp s" by (simp add: put_core_def)
  consider (other) "active ?p \<Longrightarrow> (q, eid) \<noteq> (po_port_id ?p, run_counter ?p)"
    | (awaited) "active ?p" "q = po_port_id ?p" "eid = run_counter ?p" by blast
  then show ?thesis
  proof cases
    case other
    have "event_handle_event now i eid ?e = Inr (False, ?e)" if "q = po_port_id ?p"
      using event_ignored [OF pinv(2)] other that by blast
    from handle_stop_event [OF this]
    have "q = po_port_id ?p \<Longrightarrow> port_handle_event now EVENT_STOP i eid (sy_cp s) = Inr (sy_cp s)" by (simp add: ws(2) Let_def)
    moreover have "sys_inv (put_core i ?c s)" by (rule dropped_event [OF inv ev other])
    ultimately show ?thesis unfolding step by (simp add: put_core_def)
  next
    case awaited
    let ?sg = "signalled i ?e"
    have run: "run_ok (po_port_id ?p) (run_counter ?p) b (cp_to_dp (sy_cp s) j) (((sy_core s)(i := ?c)) j)"
      if "(j, b) \<in> set (de_signal ?sg)" for j b
      using awaited_runs [OF inv i awaited(1) _ that] ev awaited(2,3) by blast
    have keys: "map fst (de_signal ?sg) = po_cores_id_list ?p"
      using pinv(1) i by (auto simp: signalled_def update_keys port_inv_def simp flip: set_map)
    have link: "link_ok (po_port_id ?p) (run_counter ?p) (cp_knows ?p) (cp_to_dp (sy_cp s) j) (((sy_core s)(i := ?c)) j)"
      if "j \<in> set (po_cores_id_list ?p)" for j
      using sys_link [OF inv that] take_event(5) [OF ev refl, where pid = "po_port_id ?p"] by auto
    show ?thesis
    proof (cases "pending_of (de_signal ?sg) = 0")
      case False
      then have "await_ok (with_stop_event ?sg ?p)" using pinv(2) awaited(1)
        by (simp add: await_ok_def ws Let_def) (simp add: signalled_def pending_of_def)
      then have "sys_inv ((put_core i ?c s)\<lparr>sy_cp := (sy_cp s)\<lparr>cp_port := with_stop_event ?sg ?p\<rparr>\<rparr>)"
        using link run ws(3) [OF keys] by (auto simp: sys_inv_def links_ok_all_def runs_ok_all_def Let_def put_core_def ws)
      then show ?thesis
        using False awaited event_awaited [OF pinv awaited(1) i] unfolding step by (simp add: handle_stop_event)
    next
      case True
      have "b" if "(j, b) \<in> set (de_signal ?sg)" for j b
        using True that by (auto simp: pending_of_def filter_empty_conv)
      moreover have "\<exists>b. (j, b) \<in> set (de_signal ?sg)" if "j \<in> set (po_cores_id_list ?p)" for j
        using that unfolding keys [symmetric] by auto
      ultimately have "link_ok (po_port_id ?p) (run_counter ?p) AIdle (cp_to_dp (sy_cp s) j) (((sy_core s)(i := ?c)) j)"
        if "j \<in> set (po_cores_id_list ?p)" for j
        using run_over_link [OF link] run that by fastforce
      then show ?thesis
        using True awaited event_awaited [OF pinv awaited(1) i] run_over_inv [OF pinv(1) keys] unfolding step
        by (simp add: handle_stop_event [where cp = "sy_cp s"] publish_event_def put_core_def Let_def)
    qed
  qed
qed

lemma sys_step_ok:
  assumes inv: "sys_inv s" and al: "sys_allowed e s"
  shows "\<exists>s'. sys_step e s = Some s' \<and> sys_inv s'"
proof (cases e)
  case (CpAddStream st)
  then show ?thesis using stream_commands_ok(1) [OF inv, of st] al by simp
next
  case (CpRemoveStream st)
  then show ?thesis using stream_commands_ok(2) [OF inv, of st] by simp
next
  case CpRemoveAll
  then show ?thesis using stream_commands_ok(3) [OF inv] by simp
next
  case CpStop
  then show ?thesis using CpStop_ok [OF inv] al by simp
next
  case (CpStart rand now mul duration)
  then show ?thesis using CpStart_ok [OF inv] al by blast
next
  case CpPause
  then show ?thesis using CpPause_ok [OF inv] al by simp
next
  case CpResume
  then show ?thesis using CpResume_ok [OF inv] al by simp
next
  case (CpUpdate mul)
  then show ?thesis using CpUpdate_ok [OF inv] al by blast
next
  case (CpDpEvent now i)
  then show ?thesis using CpDpEvent_ok [OF inv] al by blast
next
  case (DpMessage i)
  then show ?thesis using DpMessage_ok [OF inv] al by blast
next
  case (DpSched i j)
  then show ?thesis using DpSched_ok [OF inv] al by blast
next
  case (DpStopCmd i cmd)
  then show ?thesis using DpStopCmd_ok [OF inv] al by blast
next
  case (DpTime i t)
  then show ?thesis using DpTime_ok [OF inv] al by blast
qed

lemma sys_init_ok:
  assumes "sys_init s"
  shows "sys_inv s"
proof -
  obtain pid cores p0 where p: "cp_port (sy_cp s) = TrexStatelessPort_new pid cores p0"
    and len: "length (dv_events (po_dp_events p0)) = EVENT_MAX" "distinct cores" "cores \<noteq> []" "length cores < 256"
    and cores: "\<forall>i\<in>set cores. cp_to_dp (sy_cp s) i = [] \<and> dp_init (sy_core s i) \<and> get_port_db (sy_core s i) pid \<noteq> None \<and>
       c_events (sy_core s i) = [] \<and> c_stop_cmds (sy_core s i) = []"
    using assms unfolding sys_init_def by blast
  let ?p = "cp_port (sy_cp s)"
  have pp: "po_cores_id_list ?p = cores" "po_port_id ?p = pid" "stop_event_of ?p = event_create cores (dv_events (po_dp_events p0) ! EVENT_STOP)"
    "length (dv_events (po_dp_events ?p)) = EVENT_MAX" "run_counter ?p = EVENT_ID_INVALID" "\<not> active ?p" "po_stream_table ?p = []"
    using len(1) by (simp_all add: p TrexStatelessPort_new_def stop_event_of_def events_create_def active_def EVENT_STOP_def EVENT_MAX_def)
  have "link_ok pid EVENT_ID_INVALID AIdle [] (sy_core s i)" if i: "i \<in> set cores" for i
  proof -
    obtain d c0 where c: "unat d < 128" "c_nodes c0 = Map.empty" "c_queue c0 = []" "sy_core s i = core_create d c0"
      using cores i unfolding dp_init_def by blast
    obtain k where k: "get_port_db (sy_core s i) pid = Some k" using cores i by blast
    have "k < 2" using get_port_db_Some [OF k] by simp
    then have "pp_state (c_ports (sy_core s i) k) = ppSTATE_IDLE"
      unfolding c(4) by (auto simp: core_create_def port_create_def less_2_cases_iff NUM_PORTS_PER_CORE_def)
    then show ?thesis using k core_create_ok [OF c(1-3)] cores i
      by (auto simp: link_ok_def ids_ok_def abs_shows_def c(4) intro: exI [of _ AIdle])
  qed
  then have "links_ok_all s" using cores pp cp_knows_idle [of ?p] by (simp add: links_ok_all_def Let_def)
  moreover have "port_inv ?p" using pp len by (auto simp: port_inv_def event_create_def event_disable_def comp_def EVENT_ID_INVALID_def active_def)
  moreover have "await_ok ?p" using pp by (simp add: await_ok_def event_create_def event_disable_def)
  ultimately show ?thesis using pp(6) by (simp add: sys_inv_def runs_ok_all_def Let_def)
qed

abbreviation sys_reachable :: "trex_system \<Rightarrow> bool" where
  "sys_reachable \<equiv> reachable sys_init sys_allowed sys_step"

interpretation sys: checked_machine sys_init sys_allowed sys_step sys_inv
  by unfold_locales (simp_all add: sys_init_ok sys_step_ok)

section \<open>Properties of the system\<close>

definition core_port_state :: "u8 \<Rightarrow> TrexStatelessDpCore \<Rightarrow> pp_state_e option" where
  "core_port_state port_id c = map_option (\<lambda>k. pp_state (c_ports c k)) (get_port_db c port_id)"

definition rings_empty :: "trex_system \<Rightarrow> bool" where
  "rings_empty s \<longleftrightarrow> (\<forall>i\<in>set (po_cores_id_list (cp_port (sy_cp s))). cp_to_dp (sy_cp s) i = [])"

definition events_empty :: "trex_system \<Rightarrow> bool" where
  "events_empty s \<longleftrightarrow> (\<forall>i\<in>set (po_cores_id_list (cp_port (sy_cp s))). c_events (sy_core s i) = [])"

fun sys_run :: "sys_event list \<Rightarrow> trex_system \<Rightarrow> trex_system option" where
  "sys_run [] s = Some s"
| "sys_run (e # es) s = (case sys_step e s of None \<Rightarrow> None | Some s' \<Rightarrow> sys_run es s')"

lemma quiet_core:
  assumes "sys_inv s" and "i \<in> set (po_cores_id_list (cp_port (sy_cp s)))" and "rings_empty s"
  obtains st where "core_port_state (po_port_id (cp_port (sy_cp s))) (sy_core s i) = Some st"
    and "\<not> active (cp_port (sy_cp s)) \<Longrightarrow> st = ppSTATE_IDLE"
    and "po_state (cp_port (sy_cp s)) = PORT_STATE_PAUSE \<Longrightarrow> st = ppSTATE_PAUSE"
    and "po_state (cp_port (sy_cp s)) = PORT_STATE_TX \<Longrightarrow> st \<noteq> ppSTATE_PAUSE"
proof -
  let ?p = "cp_port (sy_cp s)"
  have "cp_to_dp (sy_cp s) i = []" using assms(2,3) by (simp add: rings_empty_def)
  then obtain k where "get_port_db (sy_core s i) (po_port_id ?p) = Some k" "abs_shows (po_port_id ?p) (cp_knows ?p) (sy_core s i) k"
    using sys_link [OF assms(1,2)] by (auto simp: link_ok_def)
  then show thesis using cp_knows_idle [of ?p]
    by (intro that [of "pp_state (c_ports (sy_core s i) k)"])
      (auto simp: core_port_state_def abs_shows_def cp_knows_def split: if_splits)
qed

lemma active_core:
  assumes inv: "sys_inv s" and act: "active (cp_port (sy_cp s))" and rings: "rings_empty s" and evs: "events_empty s"
  shows "\<exists>i\<in>set (po_cores_id_list (cp_port (sy_cp s))).
    core_port_state (po_port_id (cp_port (sy_cp s))) (sy_core s i) \<noteq> Some ppSTATE_IDLE"
proof -
  let ?p = "cp_port (sy_cp s)"
  have "0 < pending_of (de_signal (stop_event_of ?p))" using inv act by (auto simp: sys_inv_def await_ok_def Let_def pending_of_def)
  then have "filter (\<lambda>(i, b). \<not> b) (de_signal (stop_event_of ?p)) \<noteq> []" by (auto simp: pending_of_def)
  then obtain i where i: "(i, False) \<in> set (de_signal (stop_event_of ?p))" by (auto simp: filter_empty_conv)
  then have core: "i \<in> set (po_cores_id_list ?p)" using inv port_inv_signals [of ?p] by (force simp: sys_inv_def)
  have "run_ok (po_port_id ?p) (run_counter ?p) False (cp_to_dp (sy_cp s) i) (sy_core s i)"
    using inv act i by (auto simp: sys_inv_def runs_ok_all_def Let_def)
  moreover have "cp_to_dp (sy_cp s) i = []" "c_events (sy_core s i) = []"
    using rings evs core by (simp_all add: rings_empty_def events_empty_def)
  ultimately show ?thesis using core by (force simp: run_ok_def core_port_state_def)
qed

text \<open>A system of one port and one core, with a stream of one packet.\<close>

definition demo_port :: TrexStatelessPort where
  "demo_port = TrexStatelessPort_new 0 [0] \<lparr>po_stream_table = [], po_port_id = 0, po_state = PORT_STATE_DOWN, po_speed = SPEED_10G,
     po_cores_id_list = [], po_last_all_streams_continues = False, po_last_duration = 0, po_factor = 1,
     po_dp_events = \<lparr>dv_events = replicate EVENT_MAX \<lparr>de_signal = [], de_pending_cnt = 0, de_event_id = 0, de_expire_limit_ms = 0\<rparr>,
       dv_event_id_counter = 0\<rparr>,
     po_graph_obj = None, po_owner = TrexPortOwner_new\<rparr>"

definition demo_system :: trex_system where
  "demo_system = \<lparr>sy_cp = \<lparr>cp_port = demo_port, cp_to_dp = (\<lambda>_. []), cp_published = []\<rparr>, sy_core = (\<lambda>_. demo_core)\<rparr>"

definition demo_packet :: TrexStream where
  "demo_packet = (TrexStream_new stSINGLE_BURST 0 0)
     \<lparr>s_enabled := True, s_self_start := True, s_pps := 1, s_burst_total_pkts := 1, s_num_bursts := 1\<rparr>"

definition demo_factor :: "rat \<Rightarrow> TrexPortMultiplier" where
  "demo_factor f = \<lparr>mul_type = MUL_FACTOR, mul_op = OP_ABS, mul_value = f\<rparr>"

definition demo_start :: "sys_event list" where
  "demo_start = [CpAddStream demo_packet, CpStart (\<lambda>_ _. 0) 0 (demo_factor 2) 0]"

fun run_allowed :: "sys_event list \<Rightarrow> trex_system \<Rightarrow> bool" where
  "run_allowed [] s = True"
| "run_allowed (e # es) s = (sys_allowed e s \<and> (case sys_step e s of None \<Rightarrow> False | Some s' \<Rightarrow> run_allowed es s'))"

lemma run_reaches: "sys_reachable s \<Longrightarrow> run_allowed es s \<Longrightarrow> \<exists>s'. sys_run es s = Some s' \<and> sys_reachable s'"
  by (induction es arbitrary: s) (auto split: option.splits intro: reachable.event)

lemma demo_system_init: "sys_reachable demo_system"
proof (rule reachable.start, unfold sys_init_def, intro exI conjI)
  show "cp_port (sy_cp demo_system) = TrexStatelessPort_new 0 [0] demo_port"
    by (simp add: demo_system_def demo_port_def TrexStatelessPort_new_def events_create_def event_create_def event_disable_def)
  have "dp_init demo_core" unfolding dp_init_def demo_core_def demo_memory_def
    by (intro exI [of _ 0] exI [of _ demo_memory]) (simp add: demo_memory_def)
  then show "\<forall>i\<in>set [0]. cp_to_dp (sy_cp demo_system) i = [] \<and> dp_init (sy_core demo_system i) \<and>
      get_port_db (sy_core demo_system i) 0 \<noteq> None \<and> c_events (sy_core demo_system i) = [] \<and> c_stop_cmds (sy_core demo_system i) = []"
    by (simp add: demo_system_def demo_simps)
qed (simp_all add: demo_port_def TrexStatelessPort_new_def events_create_def)

lemma demo_run:
  assumes "run_allowed es demo_system" and "map_option P (sys_run es demo_system) = Some True"
  obtains s where "sys_run es demo_system = Some s" and "sys_reachable s" and "P s"
  using run_reaches [OF demo_system_init assms(1)] assms(2) by auto







lemma handle_event_keeps:
  assumes "port_handle_event now ev i eid cp = Inr cp'"
  shows "cp_to_dp cp' = cp_to_dp cp" and "po_cores_id_list (cp_port cp') = po_cores_id_list (cp_port cp)"
    and "po_port_id (cp_port cp') = po_port_id (cp_port cp)"
  using assms by (auto simp: port_handle_event_def on_dp_event_occured_def publish_event_def change_state_def Let_def bindE_simps
      split: if_splits)

lemma CpDpEvent_effect:
  assumes "sys_step (CpDpEvent now i) s = Some s'"
  shows "cp_to_dp (sy_cp s') = cp_to_dp (sy_cp s)" and "po_cores_id_list (cp_port (sy_cp s')) = po_cores_id_list (cp_port (sy_cp s))"
    and "po_port_id (cp_port (sy_cp s')) = po_port_id (cp_port (sy_cp s))"
    and "sy_core s' = (sy_core s)(i := (sy_core s i)\<lparr>c_events := tl (c_events (sy_core s i))\<rparr>)" and "c_events (sy_core s i) \<noteq> []"
  using assms handle_event_keeps by (auto simp: command_def put_core_def Let_def split: list.splits if_splits sum.splits)

lemma drain_events:
  assumes "sys_reachable s" and "rings_empty s"
    and "\<forall>i\<in>set (po_cores_id_list (cp_port (sy_cp s))). core_port_state (po_port_id (cp_port (sy_cp s))) (sy_core s i) = Some ppSTATE_IDLE"
  shows "\<exists>is s'. set is \<subseteq> set (po_cores_id_list (cp_port (sy_cp s))) \<and> sys_run (map (CpDpEvent now) is) s = Some s' \<and>
    sys_reachable s' \<and> rings_empty s' \<and> events_empty s' \<and> po_cores_id_list (cp_port (sy_cp s')) = po_cores_id_list (cp_port (sy_cp s)) \<and>
    (\<forall>i\<in>set (po_cores_id_list (cp_port (sy_cp s'))). core_port_state (po_port_id (cp_port (sy_cp s'))) (sy_core s' i) = Some ppSTATE_IDLE)"
  using assms
proof (induction "\<Sum>i\<in>set (po_cores_id_list (cp_port (sy_cp s))). length (c_events (sy_core s i))" arbitrary: s rule: less_induct)
  case less
  let ?cs = "set (po_cores_id_list (cp_port (sy_cp s)))"
  show ?case
  proof (cases "events_empty s")
    case True
    then show ?thesis using less.prems by (intro exI [of _ "[]"] exI [of _ s]) simp
  next
    case False
    then obtain i where i: "i \<in> ?cs" "c_events (sy_core s i) \<noteq> []" by (auto simp: events_empty_def)
    then have al: "sys_allowed (CpDpEvent now i) s" by simp
    obtain s1 where s1: "sys_step (CpDpEvent now i) s = Some s1" "sys_reachable s1"
      by (rule sys.never_fails [OF less.prems(1) al])
    note eff = CpDpEvent_effect [OF s1(1)]
    have "(\<Sum>j\<in>?cs. length (c_events (sy_core s1 j))) < (\<Sum>j\<in>?cs. length (c_events (sy_core s j)))"
      by (rule sum_strict_mono_ex1) (use i in \<open>auto simp: eff(4)\<close>)
    moreover have "rings_empty s1" using less.prems(2) by (simp add: rings_empty_def eff(1,2))
    moreover have "core_port_state pid (sy_core s1 j) = core_port_state pid (sy_core s j)" for pid j
      by (simp add: eff(4) core_port_state_def get_port_db_def cong: if_cong)
    ultimately obtain "is" s' where run: "set is \<subseteq> ?cs" "sys_run (map (CpDpEvent now) is) s1 = Some s'" and
      s': "sys_reachable s'" "rings_empty s'" "events_empty s'" "po_cores_id_list (cp_port (sy_cp s')) = po_cores_id_list (cp_port (sy_cp s))"
      "\<forall>i\<in>set (po_cores_id_list (cp_port (sy_cp s'))). core_port_state (po_port_id (cp_port (sy_cp s'))) (sy_core s' i) = Some ppSTATE_IDLE"
      using less.hyps [of s1] s1(2) less.prems(3) unfolding eff(2,3) by metis
    then show ?thesis using s1(1) i(1) by (intro exI [of _ "i # is"] exI [of _ s']) simp
  qed
qed



text \<open>
  C25. An update races with the end of a finite run: when the last burst has ended on a core and the event has not reached the
  control plane, the command still finds the port transmitting, is accepted and sends its message, and the handler on the
  idle core runs into the \<open>assert\<close> on the state of the port.
\<close>

theorem update_race_fails:
  assumes "sys_reachable s" and i: "i \<in> set (po_cores_id_list (cp_port (sy_cp s)))" and "rings_empty s"
    and idle: "core_port_state (po_port_id (cp_port (sy_cp s))) (sy_core s i) = Some ppSTATE_IDLE"
    and upd: "port_update_traffic_cp mul (sy_cp s) = Inr cp"
  shows "\<exists>s'. sys_step (CpUpdate mul) s = Some s' \<and> sys_allowed (DpMessage i) s' \<and> sys_step (DpMessage i) s' = None"
proof -
  let ?p = "cp_port (sy_cp s)"
  have pinv: "port_inv ?p" using sys.reachable_inv [OF assms(1)] by (simp add: sys_inv_def)
  have "rings_free (sy_cp s)" using assms(3) by (simp add: rings_free_def rings_empty_def RING_CAPACITY_def)
  then obtain f g where port: "cp_port cp = ?p\<lparr>po_graph_obj := g, po_factor := po_factor ?p * f\<rparr>"
    and "\<forall>i\<in>set (po_cores_id_list ?p). cp_to_dp cp i = cp_to_dp (sy_cp s) i @ [TrexStatelessDpUpdate (po_port_id ?p) f]"
    by (rule update_sends [OF upd _ pinv])
  then have ring: "cp_to_dp cp i = [TrexStatelessDpUpdate (po_port_id ?p) f]" "po_cores_id_list (cp_port cp) = po_cores_id_list ?p"
    using i assms(3) by (simp_all add: rings_empty_def)
  obtain k where k: "get_port_db (sy_core s i) (po_port_id ?p) = Some k" "pp_state (c_ports (sy_core s i) k) = ppSTATE_IDLE"
    using idle by (auto simp: core_port_state_def)
  have "update_traffic (po_port_id ?p) f (sy_core s i) = None"
    using k by (simp add: update_traffic_def on_port_def port_update_traffic_def Let_def)
  then show ?thesis using upd ring i by (simp add: command_def)
qed

theorem update_race_fails_witness:
  "\<exists>s s'. sys_run (demo_start @ [DpMessage 0, DpSched 0 0]) demo_system = Some s \<and> sys_step (CpUpdate (demo_factor 3)) s = Some s' \<and>
     sys_step (DpMessage 0) s' = None"
proof -
  let ?es = "demo_start @ [DpMessage 0, DpSched 0 0]"
  let ?P = "\<lambda>s. rings_empty s \<and> 0 \<in> set (po_cores_id_list (cp_port (sy_cp s))) \<and>
    core_port_state (po_port_id (cp_port (sy_cp s))) (sy_core s 0) = Some ppSTATE_IDLE \<and>
    (case port_update_traffic_cp (demo_factor 3) (sy_cp s) of Inl e \<Rightarrow> False | Inr cp \<Rightarrow> True)"
  have "run_allowed ?es demo_system" "map_option ?P (sys_run ?es demo_system) = Some True" by code_simp+
  then obtain s where s: "sys_run ?es demo_system = Some s" "sys_reachable s" "?P s" by (rule demo_run)
  then obtain cp where "port_update_traffic_cp (demo_factor 3) (sy_cp s) = Inr cp" by (auto split: sum.splits)
  from update_race_fails [OF s(2) _ _ _ this, of 0] s show ?thesis by blast
qed

end
