(* ===== verification/Timer_Wheel.thy ===== *)
theory Timer_Wheel
  imports Trex_Prelude Complex_Main
begin

text \<open>
  The timers of flows (\<open>timer_wheel_pq.h\<close> and \<open>timer_wheel_pq.cpp\<close>): a priority queue of timer objects.
  A timer that is moved to a later time stays where it is and is queued again when it comes to the
  front; one that is stopped or moved to an earlier time stays as a dead entry.

  Timer objects have addresses, \<open>tw_timers\<close> is the heap and \<open>tw_m_timer\<close> the field \<open>m_timer\<close> of every
  handle.  Reading a freed timer is the result \<open>None\<close>.  Times are rationals.  Which of several
  timers with the same least time is at the top of the queue is not specified: the parameter \<open>pick\<close>
  chooses.
\<close>

section \<open>Timers and the wheel\<close>

record CFlowTimer =
  t_time :: rat
  t_updated_time :: rat
  t_flow :: "nat option"

definition CFlowTimer_new :: "rat \<Rightarrow> nat \<Rightarrow> CFlowTimer" where
  "CFlowTimer_new new_time timer = \<lparr>t_time = new_time, t_updated_time = - 1, t_flow = Some timer\<rparr>"

definition is_valid :: "CFlowTimer \<Rightarrow> bool" where
  "is_valid t \<longleftrightarrow> t_flow t \<noteq> None"

record CTimerWheel =
  tw_pq :: "nat list"
  tw_timers :: "nat \<rightharpoonup> CFlowTimer"
  tw_next :: nat
  tw_m_timer :: "nat \<rightharpoonup> nat"
  tw_st_alloc :: u32
  tw_st_free :: u32
  tw_st_start :: u32
  tw_st_stop :: u32
  tw_st_handle :: u32

definition CTimerWheel_new :: CTimerWheel where
  "CTimerWheel_new = \<lparr>tw_pq = [], tw_timers = Map.empty, tw_next = 0, tw_m_timer = Map.empty,
     tw_st_alloc = 0, tw_st_free = 0, tw_st_start = 0, tw_st_stop = 0, tw_st_handle = 0\<rparr>"

definition put_timer :: "nat \<Rightarrow> CFlowTimer \<Rightarrow> CTimerWheel \<Rightarrow> CTimerWheel" where
  "put_timer i t w = w\<lparr>tw_timers := (tw_timers w)(i \<mapsto> t)\<rparr>"

definition new_timer :: "nat \<Rightarrow> rat \<Rightarrow> CTimerWheel \<Rightarrow> CTimerWheel" where
  "new_timer timer new_time w = (let i = tw_next w in
     w\<lparr>tw_next := i + 1, tw_st_alloc := tw_st_alloc w + 1,
       tw_timers := (tw_timers w)(i \<mapsto> CFlowTimer_new new_time timer),
       tw_m_timer := (tw_m_timer w)(timer \<mapsto> i), tw_pq := tw_pq w @ [i]\<rparr>)"

definition restart_timer :: "nat \<Rightarrow> rat \<Rightarrow> CTimerWheel \<Rightarrow> CTimerWheel option" where
  "restart_timer timer new_time w0 =
     (let w = w0\<lparr>tw_st_start := tw_st_start w0 + 1\<rparr> in
      case tw_m_timer w timer of
        None \<Rightarrow> Some (new_timer timer new_time w)
      | Some i \<Rightarrow> (case tw_timers w i of
          None \<Rightarrow> None
        | Some t \<Rightarrow>
            if new_time > t_time t then Some (put_timer i (t\<lparr>t_updated_time := new_time\<rparr>) w)
            else Some (new_timer timer new_time (put_timer i (t\<lparr>t_flow := None\<rparr>) w))))"

definition stop_timer :: "nat \<Rightarrow> CTimerWheel \<Rightarrow> CTimerWheel option" where
  "stop_timer timer w = (case tw_m_timer w timer of
       None \<Rightarrow> Some w
     | Some i \<Rightarrow> (case tw_timers w i of
         None \<Rightarrow> None
       | Some t \<Rightarrow> Some ((put_timer i (t\<lparr>t_flow := None\<rparr>) w)
           \<lparr>tw_st_stop := tw_st_stop w + 1, tw_m_timer := (tw_m_timer w)(timer := None)\<rparr>)))"

text \<open>The top of the queue: comparing reads every timer in it.\<close>

definition least_timers :: "CTimerWheel \<Rightarrow> nat list" where
  "least_timers w = (let key = (\<lambda>i. case tw_timers w i of None \<Rightarrow> 0 | Some t \<Rightarrow> t_time t)
     in filter (\<lambda>i. list_all (\<lambda>j. key i \<le> key j) (tw_pq w)) (tw_pq w))"

definition pq_top :: "(nat list \<Rightarrow> nat) \<Rightarrow> CTimerWheel \<Rightarrow> nat option" where
  "pq_top pick w =
     (if list_all (\<lambda>i. tw_timers w i \<noteq> None) (tw_pq w)
      then let xs = least_timers w in
        if pick xs \<in> set xs then Some (pick xs) else if xs = [] then None else Some (hd xs)
      else None)"

definition free_timer :: "nat \<Rightarrow> CTimerWheel \<Rightarrow> CTimerWheel" where
  "free_timer i w = w\<lparr>tw_timers := (tw_timers w)(i := None), tw_st_free := tw_st_free w + 1\<rparr>"

definition has_update :: "CFlowTimer \<Rightarrow> bool" where
  "has_update t \<longleftrightarrow> t_updated_time t > 0 \<and> t_updated_time t > t_time t"

definition tw_pop :: "nat \<Rightarrow> CTimerWheel \<Rightarrow> CTimerWheel" where
  "tw_pop i w = w\<lparr>tw_pq := remove1 i (tw_pq w)\<rparr>"

definition requeue :: "nat \<Rightarrow> CFlowTimer \<Rightarrow> CTimerWheel \<Rightarrow> CTimerWheel" where
  "requeue i t w = (let w1 = tw_pop i (put_timer i (t\<lparr>t_time := t_updated_time t\<rparr>) w) in w1\<lparr>tw_pq := tw_pq w1 @ [i]\<rparr>)"

lemma pq_top_mem: "pq_top pick w = Some i \<Longrightarrow> i \<in> set (tw_pq w)"
  by (auto simp: pq_top_def least_timers_def Let_def split: if_splits dest: hd_in_set)

definition pending :: "CTimerWheel \<Rightarrow> nat \<Rightarrow> bool" where
  "pending w i \<longleftrightarrow> (case tw_timers w i of None \<Rightarrow> False | Some t \<Rightarrow> has_update t)"

definition wheel_work :: "CTimerWheel \<Rightarrow> nat" where
  "wheel_work w = length (tw_pq w) + length (filter (pending w) (tw_pq w))"

lemma filter_remove1_less:
  assumes "\<forall>x. Q x \<longrightarrow> P x"
  shows "length (filter Q (remove1 i xs)) \<le> length (filter P xs)"
    and "i \<in> set xs \<Longrightarrow> P i \<Longrightarrow> \<not> Q i \<Longrightarrow> length (filter Q (remove1 i xs)) < length (filter P xs)"
proof -
  have le: "length (filter Q ys) \<le> length (filter P ys)" for ys using assms by (induction ys) auto
  show "length (filter Q (remove1 i xs)) \<le> length (filter P xs)" using assms le by (induction xs) (auto intro: le_SucI)
  show "i \<in> set xs \<Longrightarrow> P i \<Longrightarrow> \<not> Q i \<Longrightarrow> length (filter Q (remove1 i xs)) < length (filter P xs)"
    using assms by (induction xs) (auto simp: less_Suc_eq_le intro: le)
qed

lemma work_free:
  assumes "i \<in> set (tw_pq w)"
  shows "wheel_work (free_timer i (tw_pop i w)) < wheel_work w"
proof -
  have "length (filter (pending (free_timer i (tw_pop i w))) (remove1 i (tw_pq w))) \<le> length (filter (pending w) (tw_pq w))"
    by (rule filter_remove1_less(1)) (simp add: pending_def free_timer_def tw_pop_def)
  moreover have "length (remove1 i (tw_pq w)) < length (tw_pq w)"
    using assms length_pos_if_in_set [OF assms] by (simp add: length_remove1)
  ultimately show ?thesis unfolding wheel_work_def by (simp add: free_timer_def tw_pop_def)
qed

lemma work_requeue:
  assumes i: "i \<in> set (tw_pq w)" and t: "tw_timers w i = Some t" "has_update t"
  shows "wheel_work (requeue i t w) < wheel_work w"
proof -
  have p: "pending w i" "\<not> pending (requeue i t w) i" "\<forall>x. pending (requeue i t w) x \<longrightarrow> pending w x"
    using t by (auto simp: pending_def requeue_def tw_pop_def put_timer_def has_update_def Let_def split: if_splits)
  have "length (filter (pending (requeue i t w)) (remove1 i (tw_pq w))) < length (filter (pending w) (tw_pq w))"
    by (rule filter_remove1_less(2) [OF p(3) i p(1,2)])
  moreover have "tw_pq (requeue i t w) = remove1 i (tw_pq w) @ [i]" by (simp add: requeue_def tw_pop_def put_timer_def Let_def)
  moreover have "length (remove1 i (tw_pq w) @ [i]) = length (tw_pq w)"
    using i length_pos_if_in_set [OF i] by (simp add: length_remove1)
  ultimately show ?thesis using p(2) unfolding wheel_work_def by simp
qed

text \<open>
  The loop of \<open>peek_top_time\<close> and \<open>handle\<close>: dead timers are freed and moved ones queued again until a valid one
  is at the top.  \<open>Some (w, None)\<close> is the empty queue.
\<close>

function settle :: "(nat list \<Rightarrow> nat) \<Rightarrow> CTimerWheel \<Rightarrow> (CTimerWheel \<times> (nat \<times> CFlowTimer) option) option" where
  "settle pick w =
     (if tw_pq w = [] then Some (w, None)
      else case pq_top pick w of
          None \<Rightarrow> None
        | Some i \<Rightarrow> (case tw_timers w i of
            None \<Rightarrow> None
          | Some t \<Rightarrow>
              if \<not> is_valid t then settle pick (free_timer i (tw_pop i w))
              else if has_update t then settle pick (requeue i t w)
              else Some (w, Some (i, t))))"
  by pat_completeness auto
termination
  by (relation "measure (\<lambda>(pick, w). wheel_work w)") (auto intro: work_free work_requeue pq_top_mem)

declare settle.simps [simp del]

definition peek_top_time :: "(nat list \<Rightarrow> nat) \<Rightarrow> CTimerWheel \<Rightarrow> (CTimerWheel \<times> rat option) option" where
  "peek_top_time pick w = map_option (\<lambda>(w', top). (w', map_option (\<lambda>(i, t). t_time t) top)) (settle pick w)"

text \<open>
  The callback sees the wheel and the state of its owner.  It runs before the timer is taken from the queue:
  \<open>pop\<close> removes whatever is at the top then.
\<close>

type_synonym 's callback = "nat \<Rightarrow> CTimerWheel \<times> 's \<Rightarrow> (CTimerWheel \<times> 's) option"

definition handle :: "(nat list \<Rightarrow> nat) \<Rightarrow> 's callback \<Rightarrow> CTimerWheel \<times> 's \<Rightarrow> (bool \<times> CTimerWheel \<times> 's) option" where
  "handle pick callback ws = (case ws of (w, s) \<Rightarrow> (case settle pick w of
       None \<Rightarrow> None
     | Some (w1, None) \<Rightarrow> Some (False, w1, s)
     | Some (w1, Some (i, t)) \<Rightarrow> (case t_flow t of
         None \<Rightarrow> None
       | Some flow \<Rightarrow>
           let w2 = (put_timer i (t\<lparr>t_flow := None\<rparr>) w1)
                 \<lparr>tw_st_handle := tw_st_handle w1 + 1, tw_m_timer := (tw_m_timer w1)(flow := None)\<rparr>
           in (case callback flow (w2, s) of
                 None \<Rightarrow> None
               | Some (w3, s') \<Rightarrow> (case pq_top pick w3 of
                   None \<Rightarrow> None
                 | Some j \<Rightarrow> Some (True, free_timer i (tw_pop j w3), s'))))))"

partial_function (option) try_handle_events ::
  "(nat list \<Rightarrow> nat) \<Rightarrow> 's callback \<Rightarrow> rat \<Rightarrow> CTimerWheel \<times> 's \<Rightarrow> (CTimerWheel \<times> 's) option" where
  "try_handle_events pick callback now ws = (case peek_top_time pick (fst ws) of
       None \<Rightarrow> None
     | Some (w1, None) \<Rightarrow> Some (w1, snd ws)
     | Some (w1, Some min_time) \<Rightarrow>
         if min_time < now
         then (case handle pick callback (w1, snd ws) of None \<Rightarrow> None | Some (b, ws') \<Rightarrow> try_handle_events pick callback now ws')
         else Some (w1, snd ws))"

partial_function (option) drain_all ::
  "(nat list \<Rightarrow> nat) \<Rightarrow> 's callback \<Rightarrow> CTimerWheel \<times> 's \<Rightarrow> (CTimerWheel \<times> 's) option" where
  "drain_all pick callback ws = (case peek_top_time pick (fst ws) of
       None \<Rightarrow> None
     | Some (w1, None) \<Rightarrow> Some (w1, snd ws)
     | Some (w1, Some tw_time) \<Rightarrow>
         (case handle pick callback (w1, snd ws) of None \<Rightarrow> None | Some (b, ws') \<Rightarrow> drain_all pick callback ws'))"

section \<open>Deadlines\<close>

text \<open>What the wheel stands for: a map from the handles that have a timer to the time it is due.\<close>

definition due :: "CFlowTimer \<Rightarrow> rat" where
  "due t = (if has_update t then t_updated_time t else t_time t)"

definition deadline :: "CTimerWheel \<Rightarrow> nat \<rightharpoonup> rat" where
  "deadline w timer = (case tw_m_timer w timer of None \<Rightarrow> None | Some i \<Rightarrow> map_option due (tw_timers w i))"

definition tw_ok :: "CTimerWheel \<Rightarrow> bool" where
  "tw_ok w \<longleftrightarrow> distinct (tw_pq w) \<and> set (tw_pq w) = dom (tw_timers w) \<and> (\<forall>i\<in>set (tw_pq w). i < tw_next w) \<and>
     (\<forall>i t. tw_timers w i = Some t \<longrightarrow> 0 \<le> t_time t) \<and>
     (\<forall>h i. tw_m_timer w h = Some i \<longleftrightarrow> (\<exists>t. tw_timers w i = Some t \<and> t_flow t = Some h)) \<and>
     tw_st_alloc w = tw_st_free w + of_nat (length (tw_pq w))"

lemma new_wheel_ok: "tw_ok CTimerWheel_new" "deadline CTimerWheel_new = Map.empty"
  by (auto simp: tw_ok_def deadline_def CTimerWheel_new_def)

lemma tw_okD:
  assumes "tw_ok w"
  shows "distinct (tw_pq w)" and "set (tw_pq w) = dom (tw_timers w)" and "i \<in> set (tw_pq w) \<Longrightarrow> i < tw_next w"
    and "tw_timers w i = Some t \<Longrightarrow> 0 \<le> t_time t"
    and "tw_m_timer w h = Some i \<longleftrightarrow> (\<exists>t. tw_timers w i = Some t \<and> t_flow t = Some h)"
    and "tw_st_alloc w = tw_st_free w + of_nat (length (tw_pq w))"
  using assms unfolding tw_ok_def by blast+

lemma tw_ok_handle:
  assumes "tw_ok w" and "tw_m_timer w h = Some i"
  obtains t where "tw_timers w i = Some t" and "t_flow t = Some h" and "0 \<le> t_time t"
  using tw_okD(4,5) [OF assms(1)] assms(2) by blast

lemma tw_ok_owner:
  assumes "tw_ok w" and "tw_timers w i = Some t" and "t_flow t = Some h"
  shows "tw_m_timer w h = Some i" and "tw_m_timer w k = Some i \<longleftrightarrow> k = h"
  using tw_okD(5) [OF assms(1)] assms(2,3) by auto

lemma tw_ok_cong:
  assumes "tw_pq w' = tw_pq w" "tw_timers w' = tw_timers w" "tw_next w' = tw_next w" "tw_m_timer w' = tw_m_timer w"
    "tw_st_alloc w' = tw_st_alloc w" "tw_st_free w' = tw_st_free w"
  shows "tw_ok w' = tw_ok w" and "deadline w' = deadline w"
  unfolding tw_ok_def deadline_def [abs_def] assms by (rule refl)+

text \<open>A change of one timer.\<close>

lemma tw_ok_change:
  assumes ok: "tw_ok w" and i: "tw_timers w i = Some t" and "0 \<le> t_time t'"
    and w': "tw_pq w' = tw_pq w" "tw_timers w' = (tw_timers w)(i \<mapsto> t')" "tw_next w' = tw_next w"
      "tw_st_alloc w' = tw_st_alloc w" "tw_st_free w' = tw_st_free w"
    and link: "\<And>h j. tw_m_timer w' h = Some j \<longleftrightarrow> (if j = i then t_flow t' = Some h else tw_m_timer w h = Some j)"
  shows "tw_ok w'"
  unfolding tw_ok_def w'
proof (intro conjI allI impI ballI)
  show "set (tw_pq w) = dom ((tw_timers w)(i \<mapsto> t'))" using tw_okD(2) [OF ok] i by auto
  show "tw_m_timer w' h = Some j \<longleftrightarrow> (\<exists>u. ((tw_timers w)(i \<mapsto> t')) j = Some u \<and> t_flow u = Some h)" for h j
    using link tw_okD(5) [OF ok] by auto
  show "0 \<le> t_time u" if "((tw_timers w)(i \<mapsto> t')) j = Some u" for j u
    using that tw_okD(4) [OF ok] \<open>0 \<le> t_time t'\<close> by (auto split: if_splits)
qed (use tw_okD [OF ok] in simp_all)

lemma new_timer_ok:
  assumes ok: "tw_ok w" and h: "tw_m_timer w h = None" and "0 \<le> t"
  shows "tw_ok (new_timer h t w)" and "deadline (new_timer h t w) = (deadline w)(h \<mapsto> t)"
proof -
  let ?i = "tw_next w"
  have "?i \<notin> set (tw_pq w)" using tw_okD(3) [OF ok, of ?i] by auto
  moreover from this have "tw_timers w ?i = None" using tw_okD(2) [OF ok] by auto
  ultimately have fresh: "tw_timers w ?i = None" "?i \<notin> set (tw_pq w)" by blast+
  have no: "tw_m_timer w k \<noteq> Some ?i" for k using tw_okD(5) [OF ok] fresh(1) by auto
  have no': "tw_timers w j = Some u \<Longrightarrow> t_flow u \<noteq> Some h" for j u using tw_okD(5) [OF ok, of h j] h by auto
  have w': "tw_pq (new_timer h t w) = tw_pq w @ [?i]" "tw_timers (new_timer h t w) = (tw_timers w)(?i \<mapsto> CFlowTimer_new t h)"
    "tw_next (new_timer h t w) = ?i + 1" "tw_m_timer (new_timer h t w) = (tw_m_timer w)(h \<mapsto> ?i)"
    "tw_st_alloc (new_timer h t w) = tw_st_alloc w + 1" "tw_st_free (new_timer h t w) = tw_st_free w"
    by (simp_all add: new_timer_def Let_def)
  show "tw_ok (new_timer h t w)"
    unfolding tw_ok_def w'
  proof (intro conjI allI impI)
    show "((tw_m_timer w)(h \<mapsto> ?i)) k = Some j \<longleftrightarrow> (\<exists>u. ((tw_timers w)(?i \<mapsto> CFlowTimer_new t h)) j = Some u \<and> t_flow u = Some k)" for k j
      using tw_okD(5) [OF ok] no no' by (auto simp: CFlowTimer_new_def)
    show "0 \<le> t_time u" if "((tw_timers w)(?i \<mapsto> CFlowTimer_new t h)) j = Some u" for j u
      using that tw_okD(4) [OF ok] \<open>0 \<le> t\<close> by (auto simp: CFlowTimer_new_def split: if_splits)
  qed (use tw_okD(1-3,6) [OF ok] fresh in \<open>auto simp: less_Suc_eq\<close>)
  show "deadline (new_timer h t w) = (deadline w)(h \<mapsto> t)"
    unfolding deadline_def [abs_def] w' using no
    by (auto simp: CFlowTimer_new_def due_def has_update_def fun_eq_iff split: option.splits)
qed

text \<open>A timer whose flow is cut off is dead: it holds no deadline.\<close>

definition cut :: "nat \<Rightarrow> nat \<Rightarrow> CFlowTimer \<Rightarrow> CTimerWheel \<Rightarrow> CTimerWheel" where
  "cut h i t w = (put_timer i (t\<lparr>t_flow := None\<rparr>) w)\<lparr>tw_m_timer := (tw_m_timer w)(h := None)\<rparr>"

lemma cut_ok:
  assumes ok: "tw_ok w" and i: "tw_m_timer w h = Some i" "tw_timers w i = Some t"
  shows "tw_ok (cut h i t w)" and "deadline (cut h i t w) = (deadline w)(h := None)"
proof -
  obtain u where "tw_timers w i = Some u" "t_flow u = Some h" by (rule tw_ok_handle [OF ok i(1)])
  then have t: "t_flow t = Some h" using i(2) by simp
  have own: "tw_m_timer w k = Some i \<longleftrightarrow> k = h" for k by (rule tw_ok_owner(2) [OF ok i(2) t])
  show "tw_ok (cut h i t w)"
  proof (rule tw_ok_change [OF ok i(2), of "t\<lparr>t_flow := None\<rparr>"])
    show "tw_m_timer (cut h i t w) k = Some j \<longleftrightarrow> (if j = i then t_flow (t\<lparr>t_flow := None\<rparr>) = Some k else tw_m_timer w k = Some j)" for k j
      using own [of k] i(1) by (auto simp: cut_def)
  qed (use tw_okD(4) [OF ok i(2)] in \<open>simp_all add: cut_def put_timer_def\<close>)
  show "deadline (cut h i t w) = (deadline w)(h := None)"
    using own by (auto simp: deadline_def cut_def put_timer_def fun_eq_iff split: option.splits)
qed

lemma put_timer_ok:
  assumes ok: "tw_ok w" and i: "tw_timers w i = Some t" and same: "t_flow t' = t_flow t" "0 \<le> t_time t'"
  shows "tw_ok (put_timer i t' w)" and "t_flow t = Some h \<Longrightarrow> deadline (put_timer i t' w) = (deadline w)(h \<mapsto> due t')"
proof -
  have "tw_m_timer w h = Some i \<longleftrightarrow> t_flow t = Some h" for h using tw_okD(5) [OF ok, of h i] i by simp
  then show "tw_ok (put_timer i t' w)"
    by (intro tw_ok_change [OF ok i same(2)]) (simp_all add: put_timer_def same(1))
  assume "t_flow t = Some h"
  note own = tw_ok_owner [OF ok i this]
  show "deadline (put_timer i t' w) = (deadline w)(h \<mapsto> due t')"
  proof
    fix k
    show "deadline (put_timer i t' w) k = ((deadline w)(h \<mapsto> due t')) k"
      using own(1) own(2) [of k] by (cases "k = h") (auto simp: deadline_def put_timer_def split: option.splits)
  qed
qed

lemma restart_timer_ok:
  assumes ok: "tw_ok w" and "0 \<le> t"
  shows "\<exists>w'. restart_timer h t w = Some w' \<and> tw_ok w' \<and> deadline w' = (deadline w)(h \<mapsto> t)"
proof -
  let ?w = "w\<lparr>tw_st_start := tw_st_start w + 1\<rparr>"
  have ok1: "tw_ok ?w" and dl: "deadline ?w = deadline w" and m: "tw_m_timer ?w = tw_m_timer w" "tw_timers ?w = tw_timers w"
    using ok tw_ok_cong [of ?w w] by simp_all
  show ?thesis
  proof (cases "tw_m_timer w h")
    case None
    then show ?thesis using new_timer_ok [OF ok1, of h t] \<open>0 \<le> t\<close> dl by (simp add: restart_timer_def Let_def)
  next
    case (Some i)
    then obtain u where u: "tw_timers w i = Some u" "t_flow u = Some h" "0 \<le> t_time u" by (rule tw_ok_handle [OF ok])
    show ?thesis
    proof (cases "t_time u < t")
      case True
      then have "due (u\<lparr>t_updated_time := t\<rparr>) = t" using u(3) by (simp add: due_def has_update_def)
      then show ?thesis using True put_timer_ok [OF ok1, of i u "u\<lparr>t_updated_time := t\<rparr>"] u Some dl
        by (simp add: restart_timer_def Let_def)
    next
      case False
      have new: "new_timer h t (put_timer i (u\<lparr>t_flow := None\<rparr>) ?w) = new_timer h t (cut h i u ?w)"
        by (simp add: new_timer_def cut_def put_timer_def Let_def)
      have "tw_ok (cut h i u ?w)" "deadline (cut h i u ?w) = (deadline w)(h := None)" "tw_m_timer (cut h i u ?w) h = None"
        using cut_ok [OF ok1, of h i u] Some u dl by (simp_all add: cut_def)
      from new_timer_ok [OF this(1,3) \<open>0 \<le> t\<close>] this(2) show ?thesis
        using False Some u by (simp add: restart_timer_def new Let_def)
    qed
  qed
qed

lemma stop_timer_ok:
  assumes ok: "tw_ok w"
  shows "\<exists>w'. stop_timer h w = Some w' \<and> tw_ok w' \<and> deadline w' = (deadline w)(h := None)"
proof (cases "tw_m_timer w h")
  case None
  then have "deadline w h = None" by (simp add: deadline_def)
  then show ?thesis using None ok by (auto simp: stop_timer_def)
next
  case (Some i)
  then obtain t where t: "tw_timers w i = Some t" by (rule tw_ok_handle [OF ok])
  let ?w = "(put_timer i (t\<lparr>t_flow := None\<rparr>) w)\<lparr>tw_st_stop := tw_st_stop w + 1, tw_m_timer := (tw_m_timer w)(h := None)\<rparr>"
  have "tw_ok ?w = tw_ok (cut h i t w)" "deadline ?w = deadline (cut h i t w)"
    by (rule tw_ok_cong; simp add: cut_def put_timer_def)+
  then show ?thesis using cut_ok [OF ok Some t] Some t by (simp add: stop_timer_def)
qed

lemma pq_top_ok:
  assumes ok: "tw_ok w" and ne: "tw_pq w \<noteq> []"
  obtains i t where "pq_top pick w = Some i" and "i \<in> set (tw_pq w)" and "tw_timers w i = Some t"
    and "\<forall>j u. tw_timers w j = Some u \<longrightarrow> t_time t \<le> t_time u"
proof -
  let ?key = "\<lambda>i. case tw_timers w i of None \<Rightarrow> 0 | Some t \<Rightarrow> t_time t"
  have all: "list_all (\<lambda>i. tw_timers w i \<noteq> None) (tw_pq w)" using tw_okD(2) [OF ok] by (auto simp: list_all_iff)
  have "Min (?key ` set (tw_pq w)) \<in> ?key ` set (tw_pq w)" using ne by (intro Min_in) auto
  then obtain m where "m \<in> set (tw_pq w)" "?key m = Min (?key ` set (tw_pq w))" by force
  then have "m \<in> set (least_timers w)" by (auto simp: least_timers_def list_all_iff)
  then have "least_timers w \<noteq> []" by auto
  then obtain i where i: "pq_top pick w = Some i" "i \<in> set (least_timers w)"
    using all hd_in_set [of "least_timers w"] by (cases "pick (least_timers w) \<in> set (least_timers w)") (simp_all add: pq_top_def Let_def)
  then have mem: "i \<in> set (tw_pq w)" and le: "\<forall>j\<in>set (tw_pq w). ?key i \<le> ?key j" by (simp_all add: least_timers_def list_all_iff)
  then obtain t where t: "tw_timers w i = Some t" using tw_okD(2) [OF ok] by auto
  have "t_time t \<le> t_time u" if "tw_timers w j = Some u" for j u
    using bspec [OF le, of j] that t tw_okD(2) [OF ok] by auto
  then show thesis using that i(1) mem t by blast
qed

lemma pq_top_cong:
  assumes "tw_pq w' = tw_pq w" and "\<And>j. map_option t_time (tw_timers w' j) = map_option t_time (tw_timers w j)"
  shows "pq_top pick w' = pq_top pick w"
proof -
  have key: "(case x of None \<Rightarrow> 0 | Some t \<Rightarrow> t_time t) = (case map_option t_time x of None \<Rightarrow> 0 | Some r \<Rightarrow> r)"
    "x \<noteq> None \<longleftrightarrow> map_option t_time x \<noteq> None" for x :: "CFlowTimer option" by (cases x; simp)+
  show ?thesis unfolding pq_top_def least_timers_def key assms ..
qed

lemma free_dead_ok:
  assumes ok: "tw_ok w" and i: "tw_timers w i = Some t" "t_flow t = None"
  shows "tw_ok (free_timer i (tw_pop i w))" and "deadline (free_timer i (tw_pop i w)) = deadline w"
proof -
  let ?w = "free_timer i (tw_pop i w)"
  have w': "tw_pq ?w = remove1 i (tw_pq w)" "tw_timers ?w = (tw_timers w)(i := None)" "tw_next ?w = tw_next w"
    "tw_m_timer ?w = tw_m_timer w" "tw_st_alloc ?w = tw_st_alloc w" "tw_st_free ?w = tw_st_free w + 1"
    by (simp_all add: free_timer_def tw_pop_def)
  have mem: "i \<in> set (tw_pq w)" using tw_okD(2) [OF ok] i(1) by auto
  have no: "tw_m_timer w h \<noteq> Some i" for h using tw_okD(5) [OF ok, of h i] i by auto
  have len: "length (tw_pq w) = Suc (length (remove1 i (tw_pq w)))" using mem length_pos_if_in_set [OF mem] by (simp add: length_remove1)
  show "tw_ok ?w"
    unfolding tw_ok_def w'
  proof (intro conjI allI impI)
    show "tw_m_timer w h = Some j \<longleftrightarrow> (\<exists>u. ((tw_timers w)(i := None)) j = Some u \<and> t_flow u = Some h)" for h j
      using tw_okD(5) [OF ok, of h j] no [of h] by auto
    show "tw_st_alloc w = tw_st_free w + 1 + of_nat (length (remove1 i (tw_pq w)))" using tw_okD(6) [OF ok] by (simp add: len)
  qed (use tw_okD(1-4) [OF ok] in \<open>auto simp: set_remove1_eq split: if_splits\<close>)
  show "deadline ?w = deadline w" unfolding deadline_def [abs_def] w' using no by (auto simp: fun_eq_iff split: option.splits)
qed

lemma requeue_ok:
  assumes ok: "tw_ok w" and i: "tw_timers w i = Some t" "is_valid t" "has_update t"
  shows "tw_ok (requeue i t w)" and "deadline (requeue i t w) = deadline w"
proof -
  let ?t = "t\<lparr>t_time := t_updated_time t\<rparr>"
  obtain h where h: "t_flow t = Some h" using i(2) by (auto simp: is_valid_def)
  have "tw_m_timer w h = Some i" by (rule tw_ok_owner(1) [OF ok i(1) h])
  then have dl: "deadline w h = Some (due ?t)" using i by (simp add: deadline_def due_def has_update_def)
  have put: "tw_ok (put_timer i ?t w)" "deadline (put_timer i ?t w) = deadline w"
    using put_timer_ok [OF ok i(1), of ?t] h i(3) dl by (auto simp: has_update_def fun_upd_idem)
  have mem: "i \<in> set (tw_pq w)" using tw_okD(2) [OF ok] i(1) by auto
  have q: "tw_pq (requeue i t w) = remove1 i (tw_pq w) @ [i]" "tw_timers (requeue i t w) = tw_timers (put_timer i ?t w)"
    "tw_next (requeue i t w) = tw_next w" "tw_m_timer (requeue i t w) = tw_m_timer (put_timer i ?t w)"
    "tw_st_alloc (requeue i t w) = tw_st_alloc w" "tw_st_free (requeue i t w) = tw_st_free w"
    by (simp_all add: requeue_def tw_pop_def put_timer_def Let_def)
  have same: "tw_pq (put_timer i ?t w) = tw_pq w" "tw_next (put_timer i ?t w) = tw_next w"
    "tw_st_alloc (put_timer i ?t w) = tw_st_alloc w" "tw_st_free (put_timer i ?t w) = tw_st_free w" by (simp_all add: put_timer_def)
  have set: "set (remove1 i (tw_pq w) @ [i]) = set (tw_pq w)" "distinct (remove1 i (tw_pq w) @ [i])"
    using tw_okD(1) [OF ok] mem by (auto simp: set_remove1_eq)
  have len: "length (remove1 i (tw_pq w) @ [i]) = length (tw_pq w)" using mem length_pos_if_in_set [OF mem] by (simp add: length_remove1)
  show "tw_ok (requeue i t w)" using put(1) unfolding tw_ok_def q set len same using set(2) by simp
  show "deadline (requeue i t w) = deadline w" using put(2) unfolding deadline_def [abs_def] q .
qed

lemma settle_ok:
  assumes "tw_ok w"
  shows "\<exists>w' top. settle pick w = Some (w', top) \<and> tw_ok w' \<and> deadline w' = deadline w \<and>
    (case top of None \<Rightarrow> deadline w = Map.empty
     | Some (i, t) \<Rightarrow> pq_top pick w' = Some i \<and> tw_timers w' i = Some t \<and>
         (\<exists>h. t_flow t = Some h \<and> deadline w h = Some (t_time t)) \<and> (\<forall>h d. deadline w h = Some d \<longrightarrow> t_time t \<le> d))"
  using assms
proof (induction pick w rule: settle.induct)
  case (1 pick w)
  show ?case
  proof (cases "tw_pq w = []")
    case True
    then have "tw_timers w = Map.empty" using tw_okD(2) [OF 1(3)] by (simp flip: dom_eq_empty_conv)
    then have "deadline w = Map.empty" by (auto simp: deadline_def fun_eq_iff split: option.splits)
    then show ?thesis using True 1(3) by (simp add: settle.simps)
  next
    case False
    obtain i t where i: "pq_top pick w = Some i" "i \<in> set (tw_pq w)" "tw_timers w i = Some t"
      "\<forall>j u. tw_timers w j = Some u \<longrightarrow> t_time t \<le> t_time u" by (rule pq_top_ok [OF 1(3) False])
    consider (dead) "\<not> is_valid t" | (moved) "is_valid t" "has_update t" | (top) "is_valid t" "\<not> has_update t" by blast
    then show ?thesis
    proof cases
      case dead
      then have "t_flow t = None" by (simp add: is_valid_def)
      note ok = free_dead_ok [OF 1(3) i(3) this]
      from 1(1) [OF False i(1,3) dead ok(1)] show ?thesis using False i dead unfolding ok(2) by (subst settle.simps) simp
    next
      case moved
      note ok = requeue_ok [OF 1(3) i(3) moved]
      from 1(2) [OF False i(1,3) _ moved(2) ok(1)] moved show ?thesis
        using False i unfolding ok(2) by (subst settle.simps) simp
    next
      case top
      obtain h where h: "t_flow t = Some h" using top(1) by (auto simp: is_valid_def)
      have "deadline w h = Some (t_time t)"
        using tw_ok_owner(1) [OF 1(3) i(3) h] i(3) top(2) by (simp add: deadline_def due_def)
      moreover have "t_time t \<le> d" if k: "deadline w k = Some d" for k d
      proof -
        obtain j u where "tw_timers w j = Some u" "d = due u" using k by (auto simp: deadline_def split: option.splits)
        then show ?thesis using i(4) by (fastforce simp: due_def has_update_def)
      qed
      ultimately show ?thesis using False i top h 1(3) by (subst settle.simps) simp
    qed
  qed
qed

lemma peek_top_time_ok:
  assumes "tw_ok w"
  obtains w' where "peek_top_time pick w = Some (w', None)" and "tw_ok w'" and "deadline w' = deadline w" and "deadline w = Map.empty"
  | w' h d where "peek_top_time pick w = Some (w', Some d)" and "tw_ok w'" and "deadline w' = deadline w" and "deadline w h = Some d"
    and "\<forall>k d'. deadline w k = Some d' \<longrightarrow> d \<le> d'"
  using settle_ok [OF assms, of pick] by (fastforce simp: peek_top_time_def split: option.splits)

lemma handle_ok:
  assumes ok: "tw_ok w" and h: "deadline w h0 = Some d0"
    and cb: "\<And>w1 h d. tw_ok w1 \<Longrightarrow> deadline w h = Some d \<Longrightarrow> \<forall>k d'. deadline w k = Some d' \<longrightarrow> d \<le> d' \<Longrightarrow>
      deadline w1 = (deadline w)(h := None) \<Longrightarrow> \<exists>s'. callback h (w1, s) = Some (w1, s') \<and> Q h s'"
  shows "\<exists>w' h d s'. handle pick callback (w, s) = Some (True, w', s') \<and> tw_ok w' \<and> deadline w h = Some d \<and>
    (\<forall>k d'. deadline w k = Some d' \<longrightarrow> d \<le> d') \<and> deadline w' = (deadline w)(h := None) \<and> Q h s'"
proof -
  obtain w1 top where st: "settle pick w = Some (w1, top)" "tw_ok w1" "deadline w1 = deadline w"
    and top: "case top of None \<Rightarrow> deadline w = Map.empty
     | Some (i, t) \<Rightarrow> pq_top pick w1 = Some i \<and> tw_timers w1 i = Some t \<and>
         (\<exists>h. t_flow t = Some h \<and> deadline w h = Some (t_time t)) \<and> (\<forall>h d. deadline w h = Some d \<longrightarrow> t_time t \<le> d)"
    using settle_ok [OF ok] by blast
  obtain i t flow where t: "top = Some (i, t)" "pq_top pick w1 = Some i" "tw_timers w1 i = Some t" "t_flow t = Some flow"
    "deadline w flow = Some (t_time t)" "\<forall>k d'. deadline w k = Some d' \<longrightarrow> t_time t \<le> d'"
    using top h by (cases top) auto
  let ?w2 = "(put_timer i (t\<lparr>t_flow := None\<rparr>) w1)\<lparr>tw_st_handle := tw_st_handle w1 + 1, tw_m_timer := (tw_m_timer w1)(flow := None)\<rparr>"
  have m: "tw_m_timer w1 flow = Some i" by (rule tw_ok_owner(1) [OF st(2) t(3,4)])
  have "tw_ok ?w2 = tw_ok (cut flow i t w1)" "deadline ?w2 = deadline (cut flow i t w1)"
    by (rule tw_ok_cong; simp add: cut_def put_timer_def)+
  then have w2: "tw_ok ?w2" "deadline ?w2 = (deadline w)(flow := None)" using cut_ok [OF st(2) m t(3)] st(3) by simp_all
  obtain s' where s': "callback flow (?w2, s) = Some (?w2, s')" "Q flow s'" using cb [OF w2(1) t(5,6) w2(2)] by blast
  have "pq_top pick ?w2 = pq_top pick w1" using t(3) by (intro pq_top_cong) (simp_all add: put_timer_def)
  then have top2: "pq_top pick ?w2 = Some i" using t(2) by simp
  have fin: "tw_ok (free_timer i (tw_pop i ?w2))" "deadline (free_timer i (tw_pop i ?w2)) = (deadline w)(flow := None)"
    using free_dead_ok [OF w2(1), of i "t\<lparr>t_flow := None\<rparr>"] w2(2) by (simp_all add: put_timer_def)
  have "handle pick callback (w, s) = Some (True, free_timer i (tw_pop i ?w2), s')"
    unfolding handle_def using st(1) t(1,4) s'(1) top2 by (simp add: Let_def)
  then show ?thesis using fin t(5,6) s'(2) by blast
qed

lemma finite_deadlines:
  assumes "tw_ok w"
  shows "finite (dom (deadline w))"
proof -
  have "dom (deadline w) \<subseteq> (\<lambda>i. the (t_flow (the (tw_timers w i)))) ` set (tw_pq w)"
  proof
    fix h assume "h \<in> dom (deadline w)"
    then obtain i where i: "tw_m_timer w h = Some i" by (auto simp: deadline_def split: option.splits)
    obtain t where t: "tw_timers w i = Some t" "t_flow t = Some h" by (rule tw_ok_handle [OF assms i])
    then have "i \<in> set (tw_pq w)" using tw_okD(2) [OF assms] by auto
    then show "h \<in> (\<lambda>i. the (t_flow (the (tw_timers w i)))) ` set (tw_pq w)" using t by force
  qed
  then show ?thesis by (rule finite_subset) simp
qed

section \<open>Clients of the wheel\<close>

lemma try_handle_events_idle:
  assumes "tw_ok w" and "\<forall>h d. deadline w h = Some d \<longrightarrow> now \<le> d"
  shows "\<exists>w'. try_handle_events pick callback now (w, s) = Some (w', s) \<and> tw_ok w' \<and> deadline w' = deadline w"
proof (rule peek_top_time_ok [OF assms(1), of pick])
  fix w' assume "peek_top_time pick w = Some (w', None)" "tw_ok w'" "deadline w' = deadline w"
  then show ?thesis by (subst try_handle_events.simps) simp
next
  fix w1 h d assume p: "peek_top_time pick w = Some (w1, Some d)" "tw_ok w1" "deadline w1 = deadline w" "deadline w h = Some d"
  then have "\<not> d < now" using assms(2) by fastforce
  then show ?thesis using p by (subst try_handle_events.simps) simp
qed

text \<open>
  An owner of timers: its callback leaves the wheel alone and keeps an invariant that ties the state of the
  owner to the deadlines.  Then the loops end, and what is due is handled.
\<close>

definition not_before :: "rat \<Rightarrow> (nat \<rightharpoonup> rat) \<Rightarrow> (nat \<rightharpoonup> rat)" where
  "not_before now D = (\<lambda>h. case D h of None \<Rightarrow> None | Some d \<Rightarrow> if d < now then None else Some d)"

lemma not_before_upd: "D h = Some d \<Longrightarrow> d < now \<Longrightarrow> not_before now (D(h := None)) = not_before now D"
  by (auto simp: not_before_def fun_eq_iff)

lemma not_before_id: "\<forall>k d. D k = Some d \<longrightarrow> now \<le> d \<Longrightarrow> not_before now D = D"
  by (fastforce simp: not_before_def fun_eq_iff split: option.splits)

lemma card_dom_less: "finite (dom m) \<Longrightarrow> m k = Some v \<Longrightarrow> card (dom (m(k := None))) < card (dom m)"
  by (simp only: dom_fun_upd simp_thms if_True) (rule card_Diff1_less, auto)

locale wheel_client =
  fixes pick :: "nat list \<Rightarrow> nat" and callback :: "'s callback" and inv :: "(nat \<rightharpoonup> rat) \<Rightarrow> 's \<Rightarrow> bool"
  assumes fire: "inv D s \<Longrightarrow> D h = Some d \<Longrightarrow> \<forall>k d'. D k = Some d' \<longrightarrow> d \<le> d' \<Longrightarrow> tw_ok w \<Longrightarrow> deadline w = D(h := None) \<Longrightarrow>
    \<exists>s'. callback h (w, s) = Some (w, s') \<and> inv (D(h := None)) s'"
begin

lemma handle_inv:
  assumes "tw_ok w" and "inv (deadline w) s" and "deadline w h0 = Some d0"
  shows "\<exists>w' h d s'. handle pick callback (w, s) = Some (True, w', s') \<and> tw_ok w' \<and> deadline w h = Some d \<and>
    (\<forall>k d'. deadline w k = Some d' \<longrightarrow> d \<le> d') \<and> deadline w' = (deadline w)(h := None) \<and> inv ((deadline w)(h := None)) s'"
  by (rule handle_ok [OF assms(1,3)]) (rule fire [OF assms(2)])

lemma try_handle_events_ok:
  assumes "tw_ok w" and "inv (deadline w) s"
  shows "\<exists>w' s'. try_handle_events pick callback now (w, s) = Some (w', s') \<and> tw_ok w' \<and> inv (deadline w') s' \<and>
    deadline w' = not_before now (deadline w)"
  using assms
proof (induction "card (dom (deadline w))" arbitrary: w s rule: less_induct)
  case less
  show ?case
  proof (rule peek_top_time_ok [OF less.prems(1), of pick])
    fix w' assume p: "peek_top_time pick w = Some (w', None)" "tw_ok w'" "deadline w' = deadline w" "deadline w = Map.empty"
    then have "not_before now (deadline w) = deadline w" by (simp add: not_before_id)
    then show ?thesis using p less.prems(2) by (subst try_handle_events.simps) simp
  next
    fix w1 h d assume p: "peek_top_time pick w = Some (w1, Some d)" "tw_ok w1" "deadline w1 = deadline w" "deadline w h = Some d"
      "\<forall>k d'. deadline w k = Some d' \<longrightarrow> d \<le> d'"
    show ?thesis
    proof (cases "d < now")
      case True
      obtain w2 h2 d2 s2 where hd: "handle pick callback (w1, s) = Some (True, w2, s2)" "tw_ok w2" "deadline w h2 = Some d2"
        "\<forall>k d'. deadline w k = Some d' \<longrightarrow> d2 \<le> d'" "deadline w2 = (deadline w)(h2 := None)" "inv (deadline w2) s2"
        using handle_inv [OF p(2), of s h d] less.prems(2) p(3,4) by auto
      have "card (dom (deadline w2)) < card (dom (deadline w))"
        unfolding hd(5) by (rule card_dom_less [where v = d2, OF finite_deadlines [OF less.prems(1)] hd(3)])
      from less.hyps [OF this hd(2,6)] obtain w' s' where r: "try_handle_events pick callback now (w2, s2) = Some (w', s')"
        "tw_ok w'" "inv (deadline w') s'" "deadline w' = not_before now (deadline w2)" by blast
      have "d2 < now" using hd(4) p(4) True by fastforce
      then have "not_before now (deadline w2) = not_before now (deadline w)" using hd(3,5) by (simp add: not_before_upd)
      then show ?thesis using p(1) True hd(1) r by (subst try_handle_events.simps) simp
    next
      case False
      then have "not_before now (deadline w) = deadline w" using p(5) by (intro not_before_id) fastforce
      then show ?thesis using False p less.prems(2) by (subst try_handle_events.simps) simp
    qed
  qed
qed

lemma drain_all_ok:
  assumes "tw_ok w" and "inv (deadline w) s"
  shows "\<exists>w' s'. drain_all pick callback (w, s) = Some (w', s') \<and> tw_ok w' \<and> inv Map.empty s' \<and> deadline w' = Map.empty"
  using assms
proof (induction "card (dom (deadline w))" arbitrary: w s rule: less_induct)
  case less
  show ?case
  proof (rule peek_top_time_ok [OF less.prems(1), of pick])
    fix w' assume "peek_top_time pick w = Some (w', None)" "tw_ok w'" "deadline w' = deadline w" "deadline w = Map.empty"
    then show ?thesis using less.prems(2) by (subst drain_all.simps) simp
  next
    fix w1 h d assume p: "peek_top_time pick w = Some (w1, Some d)" "tw_ok w1" "deadline w1 = deadline w" "deadline w h = Some d"
    obtain w2 h2 d2 s2 where hd: "handle pick callback (w1, s) = Some (True, w2, s2)" "tw_ok w2" "deadline w h2 = Some d2"
      "deadline w2 = (deadline w)(h2 := None)" "inv (deadline w2) s2"
      using handle_inv [OF p(2), of s h d] less.prems(2) p(3,4) by auto
    have "card (dom (deadline w2)) < card (dom (deadline w))"
      unfolding hd(4) by (rule card_dom_less [where v = d2, OF finite_deadlines [OF less.prems(1)] hd(3)])
    from less.hyps [OF this hd(2,5)] show ?thesis using p(1) hd(1) by (subst drain_all.simps) auto
  qed
qed

end

section \<open>Properties of the wheel\<close>

text \<open>An owner that only notes which of its handles fired.\<close>

definition note_fired :: "nat list callback" where
  "note_fired h ws = Some (fst ws, snd ws @ [h])"

datatype tw_op = TwRestart nat rat | TwStop nat | TwPeek | TwEvents rat

fun tw_exec :: "(nat list \<Rightarrow> nat) \<Rightarrow> tw_op \<Rightarrow> CTimerWheel \<times> nat list \<Rightarrow> (CTimerWheel \<times> nat list) option" where
  "tw_exec pick (TwRestart h t) (w, fired) = map_option (\<lambda>w'. (w', fired)) (restart_timer h t w)"
| "tw_exec pick (TwStop h) (w, fired) = map_option (\<lambda>w'. (w', fired)) (stop_timer h w)"
| "tw_exec pick TwPeek (w, fired) = map_option (\<lambda>(w', r). (w', fired)) (peek_top_time pick w)"
| "tw_exec pick (TwEvents now) (w, fired) = try_handle_events pick note_fired now (w, fired)"

fun tw_run :: "(nat list \<Rightarrow> nat) \<Rightarrow> tw_op list \<Rightarrow> CTimerWheel \<times> nat list \<Rightarrow> (CTimerWheel \<times> nat list) option" where
  "tw_run pick [] ws = Some ws"
| "tw_run pick (e # es) ws = (case tw_exec pick e ws of None \<Rightarrow> None | Some ws' \<Rightarrow> tw_run pick es ws')"

text \<open>The same operations on the map of deadlines.\<close>

fun map_exec :: "tw_op \<Rightarrow> (nat \<rightharpoonup> rat) \<Rightarrow> (nat \<rightharpoonup> rat)" where
  "map_exec (TwRestart h t) D = D(h \<mapsto> t)"
| "map_exec (TwStop h) D = D(h := None)"
| "map_exec TwPeek D = D"
| "map_exec (TwEvents now) D = not_before now D"

fun tw_legal :: "tw_op \<Rightarrow> bool" where
  "tw_legal (TwRestart h t) \<longleftrightarrow> 0 \<le> t"
| "tw_legal e \<longleftrightarrow> True"

definition fired_since :: "(nat \<rightharpoonup> rat) \<Rightarrow> nat list \<Rightarrow> (nat \<rightharpoonup> rat) \<Rightarrow> nat list \<Rightarrow> bool" where
  "fired_since D0 old D new \<longleftrightarrow> (\<exists>fs. new = old @ fs \<and> distinct fs \<and> set fs \<subseteq> dom D0 \<and> D = D0 |` (- set fs) \<and>
     sorted (map (\<lambda>h. the (D0 h)) fs) \<and> (\<forall>h\<in>set fs. \<forall>k d. D k = Some d \<longrightarrow> the (D0 h) \<le> d))"

lemma fired_since_refl [simp]: "fired_since D old D old"
  by (auto simp: fired_since_def restrict_map_def fun_eq_iff)

lemma fired_since_fire:
  assumes inv: "fired_since D0 old D s" and h: "D h = Some d" "\<forall>k d'. D k = Some d' \<longrightarrow> d \<le> d'"
  shows "fired_since D0 old (D(h := None)) (s @ [h])"
proof -
  obtain fs where fs: "s = old @ fs" "distinct fs" "set fs \<subseteq> dom D0" "D = D0 |` (- set fs)" "sorted (map (\<lambda>h. the (D0 h)) fs)"
    "\<forall>h\<in>set fs. \<forall>k d. D k = Some d \<longrightarrow> the (D0 h) \<le> d" using inv unfolding fired_since_def by blast
  have new: "h \<notin> set fs" "D0 h = Some d" using h(1) fs(4) by (auto simp: restrict_map_def split: if_splits)
  have "D(h := None) = D0 |` (- set (fs @ [h]))" using fs(4) by (auto simp: restrict_map_def fun_eq_iff)
  moreover have "sorted (map (\<lambda>h. the (D0 h)) (fs @ [h]))" using fs(5,6) new(2) h(1) by (simp add: sorted_append)
  moreover have "\<forall>g\<in>set (fs @ [h]). \<forall>k d'. (D(h := None)) k = Some d' \<longrightarrow> the (D0 g) \<le> d'"
    using fs(6) new(2) h by (auto split: if_splits)
  ultimately show ?thesis unfolding fired_since_def using fs(1-3) new by (intro exI [of _ "fs @ [h]"]) auto
qed

interpretation noting: wheel_client pick note_fired "fired_since D0 old" for pick D0 old
  by unfold_locales (auto simp: note_fired_def intro: fired_since_fire)

lemma tw_exec_ok:
  assumes "tw_ok w" and "tw_legal e"
  shows "\<exists>w' fired'. tw_exec pick e (w, fired) = Some (w', fired') \<and> tw_ok w' \<and> deadline w' = map_exec e (deadline w)"
proof (cases e)
  case (TwRestart h t)
  then show ?thesis using restart_timer_ok [OF assms(1), of t h] assms(2) by auto
next
  case (TwStop h)
  then show ?thesis using stop_timer_ok [OF assms(1), of h] by auto
next
  case TwPeek
  then show ?thesis by (cases rule: peek_top_time_ok [OF assms(1), of pick]) auto
next
  case (TwEvents now)
  then show ?thesis using noting.try_handle_events_ok [OF assms(1) fired_since_refl] by fastforce
qed

lemma tw_run_ok:
  assumes "tw_ok w" and "list_all tw_legal es"
  shows "\<exists>w' fired'. tw_run pick es (w, fired) = Some (w', fired') \<and> tw_ok w' \<and> deadline w' = fold map_exec es (deadline w)"
  using assms
proof (induction es arbitrary: w fired)
  case (Cons e es)
  obtain w1 f1 where "tw_exec pick e (w, fired) = Some (w1, f1)" "tw_ok w1" "deadline w1 = map_exec e (deadline w)"
    using tw_exec_ok [OF Cons.prems(1), of e pick fired] Cons.prems(2) by auto
  then show ?case using Cons.IH [of w1 f1] Cons.prems(2) by auto
qed simp

text \<open>
  C19. The wheel is a map from handles to deadlines: after any sequence of restarts, stops, looks at the top and
  expiries, whichever timer the queue prefers among equals, nothing has touched a freed timer and every handle has
  the deadline it was last given, unless it was stopped or has expired since.
\<close>

theorem timer_wheel_refines:
  assumes "list_all tw_legal es"
  shows "\<exists>w fired. tw_run pick es (CTimerWheel_new, []) = Some (w, fired) \<and> deadline w = fold map_exec es Map.empty"
  using tw_run_ok [OF new_wheel_ok(1) assms, of pick "[]"] new_wheel_ok(2) by auto

theorem timer_wheel_refines_witness:
  "\<exists>w fired. tw_run hd [TwRestart 1 10, TwRestart 2 5, TwRestart 1 20, TwStop 2, TwPeek, TwEvents 15] (CTimerWheel_new, []) = Some (w, fired) \<and>
     deadline w = fold map_exec [TwRestart 1 10, TwRestart 2 5, TwRestart 1 20, TwStop 2, TwPeek, TwEvents 15] Map.empty"
  by (rule timer_wheel_refines) simp

text \<open>
  C20. What is due fires: handling the events of a time ends, calls back every handle whose deadline has passed and no
  other, each once and in the order of the deadlines, and leaves the other deadlines alone.
\<close>

theorem expired_timers_fire:
  assumes "list_all tw_legal es" and "tw_run pick es (CTimerWheel_new, []) = Some (w, fired)"
  shows "\<exists>w' fs. try_handle_events pick note_fired now (w, fired) = Some (w', fired @ fs) \<and> distinct fs \<and>
    set fs = {h. \<exists>d. deadline w h = Some d \<and> d < now} \<and> sorted (map (\<lambda>h. the (deadline w h)) fs) \<and>
    deadline w' = not_before now (deadline w)"
proof -
  have ok: "tw_ok w" using tw_run_ok [OF new_wheel_ok(1) assms(1), of pick "[]"] assms(2) by auto
  obtain w' new where r: "try_handle_events pick note_fired now (w, fired) = Some (w', new)"
    "fired_since (deadline w) fired (deadline w') new" "deadline w' = not_before now (deadline w)"
    using noting.try_handle_events_ok [OF ok fired_since_refl] by blast
  then obtain fs where fs: "new = fired @ fs" "distinct fs" "set fs \<subseteq> dom (deadline w)" "deadline w' = deadline w |` (- set fs)"
    "sorted (map (\<lambda>h. the (deadline w h)) fs)" unfolding fired_since_def by blast
  have "h \<in> set fs \<longleftrightarrow> (\<exists>d. deadline w h = Some d \<and> d < now)" for h
    using fun_cong [OF fs(4), of h] fun_cong [OF r(3), of h] fs(3)
    by (auto simp: not_before_def restrict_map_def split: if_splits option.splits)
  then show ?thesis using r fs by auto
qed

theorem expired_timers_fire_witness:
  "\<exists>w fired w' fs. tw_run hd [TwRestart 1 10, TwRestart 2 5, TwRestart 1 7] (CTimerWheel_new, []) = Some (w, fired) \<and>
     try_handle_events hd note_fired 6 (w, fired) = Some (w', fired @ fs) \<and> set fs = {h. \<exists>d. deadline w h = Some d \<and> d < 6} \<and>
     deadline w = [1 \<mapsto> 7, 2 \<mapsto> 5]"
proof -
  let ?es = "[TwRestart 1 10, TwRestart 2 5, TwRestart 1 7]"
  have es: "list_all tw_legal ?es" by simp
  obtain w fired where w: "tw_run hd ?es (CTimerWheel_new, []) = Some (w, fired)" "deadline w = fold map_exec ?es Map.empty"
    using tw_run_ok [OF new_wheel_ok(1) es, of hd "[]"] new_wheel_ok(2) by auto
  then have "deadline w = [1 \<mapsto> 7, 2 \<mapsto> 5]" by (simp add: fun_upd_twist)
  with w expired_timers_fire [OF es w(1), of 6] show ?thesis by blast
qed

text \<open>
  The callback must leave the wheel alone: one that starts a timer earlier than the one that fires makes \<open>pop\<close>
  take the new timer from the queue, and the freed one stays in it, to be read by the next look at the top.
\<close>

definition restarting :: "nat \<Rightarrow> rat \<Rightarrow> unit callback" where
  "restarting other t h ws = map_option (\<lambda>w'. (w', ())) (restart_timer other t (fst ws))"

lemma callback_restart_breaks:
  "(case restart_timer 1 10 CTimerWheel_new of None \<Rightarrow> False
    | Some w \<Rightarrow> (case handle hd (restarting 2 5) (w, ()) of None \<Rightarrow> False
      | Some (b, w', _) \<Rightarrow> b \<and> peek_top_time hd w' = None))"
  by code_simp

end
