(* ===== verification/Time_Histogram.thy ===== *)
theory Time_Histogram
  imports Trex_Prelude Complex_Main
begin

text \<open>
  Latency statistics: the histogram of delays (\<open>time_histogram.cpp\<close>, \<open>time_histogram.h\<close>), the jitter
  estimators (\<open>utl_jitter.h\<close>) and the CPU utilisation filter (\<open>utl_cpuu.cpp\<close>, \<open>utl_cpuu.h\<close>).

  Times are rationals; the conversion of a time to 32 bit is undefined outside of the range, the
  result \<open>None\<close>.  Printing and JSON are left out.
\<close>

section \<open>Histogram\<close>

definition HISTOGRAM_SIZE :: nat where "HISTOGRAM_SIZE = 9"
definition HISTOGRAM_SIZE_LOG :: nat where "HISTOGRAM_SIZE_LOG = 5"
definition HISTOGRAM_QUEUE_SIZE :: nat where "HISTOGRAM_QUEUE_SIZE = 14"

record CTimeHistogram =
  h_min_delta :: rat
  h_cnt :: u64
  h_high_cnt :: u64
  h_max_dt :: rat
  h_max_win_dt :: rat
  h_max_win_last_dt :: rat
  h_average :: rat
  h_win_cnt :: nat
  h_max_ar :: "rat list"
  h_hcnt :: "u64 list list"
  h_hcnt_shadow :: "u64 list list"
  h_cnt_shadow :: u64
  h_high_cnt_shadow :: u64

definition hist_Reset :: "CTimeHistogram \<Rightarrow> CTimeHistogram" where
  "hist_Reset h = h\<lparr>h_max_dt := 0, h_cnt := 0, h_high_cnt := 0, h_max_win_dt := 0, h_max_win_last_dt := 0, h_average := 0,
     h_max_ar := replicate HISTOGRAM_QUEUE_SIZE 0, h_win_cnt := 0,
     h_hcnt := replicate HISTOGRAM_SIZE_LOG (replicate HISTOGRAM_SIZE 0),
     h_hcnt_shadow := replicate HISTOGRAM_SIZE_LOG (replicate HISTOGRAM_SIZE 0),
     h_cnt_shadow := 0, h_high_cnt_shadow := 0\<rparr>"

definition hist_Create :: "CTimeHistogram \<Rightarrow> CTimeHistogram" where
  "hist_Create h = hist_Reset (h\<lparr>h_min_delta := 10 / 1000000\<rparr>)"

definition to_u32 :: "rat \<Rightarrow> u32 option" where
  "to_u32 r = (if 0 \<le> r \<and> \<lfloor>r\<rfloor> < 2 ^ 32 then Some (word_of_int \<lfloor>r\<rfloor>) else None)"

text \<open>The loop over the decades: the bucket of a delay of \<open>d\<close> times 10 microseconds.\<close>

function bucket_loop :: "nat \<Rightarrow> u32 \<Rightarrow> (nat \<times> nat) option" where
  "bucket_loop j d =
     (if j < HISTOGRAM_SIZE_LOG
      then let low = d mod 10; high = d div 10 in
        if high = 0 then Some (j, unat (if low > 0 then low - 1 else low)) else bucket_loop (j + 1) high
      else None)"
  by pat_completeness auto
termination by (relation "measure (\<lambda>(j, d). HISTOGRAM_SIZE_LOG - j)") auto

declare bucket_loop.simps [simp del]

definition inc_bucket :: "nat \<Rightarrow> nat \<Rightarrow> u64 list list \<Rightarrow> u64 list list" where
  "inc_bucket j i m = m[j := (m ! j)[i := m ! j ! i + 1]]"

definition hist_Add :: "rat \<Rightarrow> CTimeHistogram \<Rightarrow> (bool \<times> CTimeHistogram) option" where
  "hist_Add dt h0 =
     (let h = h0\<lparr>h_cnt := h_cnt h0 + 1\<rparr> in
      if dt < h_min_delta h then Some (False, h)
      else let h1 = h\<lparr>h_high_cnt := h_high_cnt h + 1,
                      h_max_dt := (if h_max_dt h < dt then dt else h_max_dt h),
                      h_max_win_dt := (if h_max_win_dt h < dt then dt else h_max_win_dt h)\<rparr>
        in (case to_u32 (dt * 100000) of
              None \<Rightarrow> None
            | Some d_10usec \<Rightarrow> Some (True, case bucket_loop 0 d_10usec of
                None \<Rightarrow> h1
              | Some (j, low) \<Rightarrow> h1\<lparr>h_hcnt := inc_bucket j low (h_hcnt h1)\<rparr>)))"

definition get_base_usec :: "nat \<Rightarrow> nat \<Rightarrow> rat" where
  "get_base_usec j i = 10 ^ (j + 1) * (of_nat i + 1)"

definition u64_to_rat :: "u64 \<Rightarrow> rat" where
  "u64_to_rat n = of_nat (unat n)"

definition average_step ::
  "u64 list list \<times> u64 \<times> rat \<Rightarrow> u64 list list \<Rightarrow> nat \<times> nat \<Rightarrow> u64 list list \<times> u64 \<times> rat" where
  "average_step acc hcnt ji = (case (acc, ji) of ((shadow, nsum, s), (j, i)) \<Rightarrow>
     let cnt = hcnt ! j ! i in
     if cnt > 0 then
       let d = cnt - shadow ! j ! i in
       (shadow[j := (shadow ! j)[i := cnt]], nsum + d, s + u64_to_rat d * (3 / 2) * get_base_usec j i)
     else (shadow, nsum, s))"

definition get_cur_average :: "CTimeHistogram \<Rightarrow> rat \<times> CTimeHistogram" where
  "get_cur_average h =
     (let d_cnt = h_cnt h - h_cnt_shadow h;
          d_cnt_high = h_high_cnt h - h_high_cnt_shadow h;
          low_events = d_cnt - d_cnt_high;
          (shadow, nsum, s) = foldl (\<lambda>acc ji. average_step acc (h_hcnt h) ji)
            (h_hcnt_shadow h, low_events, u64_to_rat low_events * 5)
            (List.product [0..<HISTOGRAM_SIZE_LOG] [0..<HISTOGRAM_SIZE])
      in (if nsum > 0 then s / u64_to_rat nsum else 0,
          h\<lparr>h_cnt_shadow := h_cnt h, h_high_cnt_shadow := h_high_cnt h, h_hcnt_shadow := shadow\<rparr>))"

definition update_average :: "CTimeHistogram \<Rightarrow> CTimeHistogram" where
  "update_average h = (let (c_average, h1) = get_cur_average h in h1\<lparr>h_average := h_average h1 / 2 + c_average / 2\<rparr>)"

definition hist_update :: "CTimeHistogram \<Rightarrow> CTimeHistogram" where
  "hist_update h =
     (let h1 = h\<lparr>h_max_ar := (h_max_ar h)[h_win_cnt h := h_max_win_dt h], h_max_win_last_dt := h_max_win_dt h, h_max_win_dt := 0,
                 h_win_cnt := (if h_win_cnt h + 1 = HISTOGRAM_QUEUE_SIZE then 0 else h_win_cnt h + 1)\<rparr>
      in update_average h1)"

definition get_usec :: "rat \<Rightarrow> u32 option" where
  "get_usec d = to_u32 (d * 1000000)"

definition get_max_latency :: "CTimeHistogram \<Rightarrow> u32 option" where
  "get_max_latency h = get_usec (h_max_dt h)"

definition get_max_latency_last_update :: "CTimeHistogram \<Rightarrow> u32 option" where
  "get_max_latency_last_update h = get_usec (h_max_win_last_dt h)"

section \<open>Jitter\<close>

record CJitter =
  j_old_transit :: rat
  j_jitter :: rat

definition jitter_reset :: CJitter where
  "jitter_reset = \<lparr>j_old_transit = 0, j_jitter = 0\<rparr>"

definition jitter_calc :: "rat \<Rightarrow> CJitter \<Rightarrow> CJitter" where
  "jitter_calc transit c =
     (let d0 = transit - j_old_transit c; d = (if d0 < 0 then - d0 else d0)
      in c\<lparr>j_old_transit := transit, j_jitter := j_jitter c + (1 / 16) * (d - j_jitter c)\<rparr>)"

text \<open>The integer variant.  Signed overflow is the result \<open>None\<close>; \<open>>>\<close> on a negative number rounds down.\<close>

record CJitterUint =
  ju_old_transit :: int
  ju_jitter :: int

definition in_int32 :: "int \<Rightarrow> bool" where
  "in_int32 x \<longleftrightarrow> - (2 ^ 31) \<le> x \<and> x < 2 ^ 31"

definition jitter_uint_reset :: CJitterUint where
  "jitter_uint_reset = \<lparr>ju_old_transit = 0, ju_jitter = 0\<rparr>"

definition jitter_uint_calc :: "u32 \<Rightarrow> CJitterUint \<Rightarrow> CJitterUint option" where
  "jitter_uint_calc transit c =
     (let d0 = sint (transit - word_of_int (ju_old_transit c) :: u32);
          d = (if d0 < 0 then - d0 else d0);
          jitter8 = ju_jitter c + 8;
          delta = d - jitter8 div 16;
          jitter = ju_jitter c + delta
      in if in_int32 d \<and> in_int32 jitter8 \<and> in_int32 delta \<and> in_int32 jitter
         then Some \<lparr>ju_old_transit = sint transit, ju_jitter = jitter\<rparr> else None)"

definition jitter_uint_get :: "CJitterUint \<Rightarrow> u32" where
  "jitter_uint_get c = word_of_int (ju_jitter c div 16)"

section \<open>CPU utilisation\<close>

record CCpuUtlDp =
  u_total_cycles :: u64
  u_data :: u64

definition start_work :: "u64 \<Rightarrow> CCpuUtlDp \<Rightarrow> CCpuUtlDp" where
  "start_work tick c = c\<lparr>u_data := tick\<rparr>"

definition commit :: "u64 \<Rightarrow> CCpuUtlDp \<Rightarrow> CCpuUtlDp" where
  "commit tick c = c\<lparr>u_total_cycles := u_total_cycles c + (tick - u_data c)\<rparr>"

record CCpuUtlCp =
  u_cpu_util :: rat
  u_last_total_cycles :: u64
  u_last_work_cycles :: u64

definition cpu_Create :: "u64 \<Rightarrow> CCpuUtlDp \<Rightarrow> CCpuUtlCp" where
  "cpu_Create tick dp = \<lparr>u_cpu_util = 0, u_last_total_cycles = tick, u_last_work_cycles = u_total_cycles dp\<rparr>"

text \<open>The differences are cut to 32 bit; a window without a tick divides by zero.\<close>

definition cpu_Update :: "u64 \<Rightarrow> CCpuUtlDp \<Rightarrow> CCpuUtlCp \<Rightarrow> CCpuUtlCp option" where
  "cpu_Update tick dp c =
     (let acc_total_cycles = (ucast (tick - u_last_total_cycles c) :: u32);
          acc_work_cycles = (ucast (u_total_cycles dp - u_last_work_cycles c) :: u32)
      in if acc_total_cycles = 0 then None
         else Some (c\<lparr>u_last_total_cycles := tick, u_last_work_cycles := u_total_cycles dp,
           u_cpu_util := u_cpu_util c * (3 / 4) + of_nat (unat acc_work_cycles) / of_nat (unat acc_total_cycles) * (1 / 4)\<rparr>))"

definition cpu_GetVal :: "CCpuUtlCp \<Rightarrow> rat" where
  "cpu_GetVal c = u_cpu_util c * 100"

section \<open>What the histogram counts\<close>

text \<open>Bucket \<open>i\<close> of decade \<open>j\<close> is for delays from \<open>(i + 1) * 10 ^ (j + 1)\<close> microseconds to the next multiple.\<close>

definition in_bucket :: "nat \<Rightarrow> nat \<Rightarrow> rat \<Rightarrow> bool" where
  "in_bucket j i dt \<longleftrightarrow> of_nat (i + 1) * 10 ^ (j + 1) \<le> dt * 1000000 \<and> dt * 1000000 < of_nat (i + 2) * 10 ^ (j + 1)"

fun add_all :: "rat list \<Rightarrow> CTimeHistogram \<Rightarrow> CTimeHistogram option" where
  "add_all [] h = Some h"
| "add_all (dt # dts) h = (case hist_Add dt h of None \<Rightarrow> None | Some (b, h') \<Rightarrow> add_all dts h')"

lemma bucket_loop_spec:
  assumes "d \<noteq> 0" and "j \<le> HISTOGRAM_SIZE_LOG"
  shows "case bucket_loop j d of None \<Rightarrow> 10 ^ (HISTOGRAM_SIZE_LOG - j) \<le> unat d
    | Some (k, i) \<Rightarrow> j \<le> k \<and> k < HISTOGRAM_SIZE_LOG \<and> i < 9 \<and> (i + 1) * 10 ^ (k - j) \<le> unat d \<and> unat d < (i + 2) * 10 ^ (k - j)"
  using assms
proof (induction j d rule: bucket_loop.induct)
  case (1 j d)
  let ?n = "unat d"
  have low: "unat (d mod 10) = ?n mod 10" "unat (d div 10) = ?n div 10" by (simp_all add: unat_mod unat_div)
  have n: "0 < ?n" using 1(2) by (simp add: unat_gt_0)
  show ?case
  proof (cases "j < HISTOGRAM_SIZE_LOG")
    case False
    then show ?thesis using 1(3) n by (subst bucket_loop.simps) simp
  next
    case j: True
    show ?thesis
    proof (cases "d div 10 = 0")
      case True
      then have small: "?n < 10" using low(2) by (metis div_eq_0_iff unat_0 zero_neq_numeral)
      then have "0 < d mod 10" using low(1) n by (simp add: word_gt_0 unat_eq_0 [symmetric])
      moreover from this have "unat (d mod 10 - 1) = ?n - 1" using low(1) small by (simp add: unat_minus_one word_gt_0)
      ultimately show ?thesis using j True small n by (subst bucket_loop.simps) (simp add: Let_def)
    next
      case False
      have IH: "case bucket_loop (j + 1) (d div 10) of None \<Rightarrow> 10 ^ (HISTOGRAM_SIZE_LOG - (j + 1)) \<le> ?n div 10
        | Some (k, i) \<Rightarrow> j + 1 \<le> k \<and> k < HISTOGRAM_SIZE_LOG \<and> i < 9 \<and> (i + 1) * 10 ^ (k - (j + 1)) \<le> ?n div 10 \<and> ?n div 10 < (i + 2) * 10 ^ (k - (j + 1))"
        using 1(1) [OF j refl refl False False] j unfolding low(2) by simp
      have pow: "10 ^ (m - j) = 10 * (10 :: nat) ^ (m - (j + 1))" if "j < m" for m
        using that by (metis Suc_diff_Suc Suc_eq_plus1 power_Suc)
      have loop: "bucket_loop j d = bucket_loop (j + 1) (d div 10)" using j False by (subst bucket_loop.simps) (simp add: Let_def)
      show ?thesis unfolding loop
        using IH pow [OF j] pow by (auto split: option.splits)
    qed
  qed
qed

definition ten_usecs :: "rat \<Rightarrow> nat" where
  "ten_usecs dt = nat \<lfloor>dt * 100000\<rfloor>"

lemma in_bucket_nat:
  assumes "0 \<le> dt"
  shows "in_bucket j i dt \<longleftrightarrow> (i + 1) * 10 ^ j \<le> ten_usecs dt \<and> ten_usecs dt < (i + 2) * 10 ^ j"
proof -
  have scale: "of_nat m * 10 ^ (j + 1) \<le> dt * 1000000 \<longleftrightarrow> m * 10 ^ j \<le> ten_usecs dt" for m
  proof -
    have "of_nat m * 10 ^ (j + 1) \<le> dt * 1000000 \<longleftrightarrow> (of_int (int (m * 10 ^ j)) :: rat) \<le> dt * 100000"
      by (simp add: mult.commute [of dt])
    also have "\<dots> \<longleftrightarrow> int (m * 10 ^ j) \<le> \<lfloor>dt * 100000\<rfloor>" by (rule le_floor_iff [symmetric])
    also have "\<dots> \<longleftrightarrow> m * 10 ^ j \<le> ten_usecs dt" using assms by (simp add: ten_usecs_def nat_le_iff le_nat_iff)
    finally show ?thesis .
  qed
  show ?thesis unfolding in_bucket_def scale [symmetric] not_le [symmetric] ..
qed

lemma decade_unique:
  fixes n :: nat
  assumes "(i + 1) * 10 ^ j \<le> n" "n < (i + 2) * 10 ^ j" "i < 9" and "(i' + 1) * 10 ^ j' \<le> n" "n < (i' + 2) * 10 ^ j'" "i' < 9"
  shows "j = j' \<and> i = i'"
proof -
  have less: "j \<le> j'" if "(i + 1) * 10 ^ j \<le> n" "n < (i' + 2) * 10 ^ j'" "i' < 9" for i j i' j'
  proof (rule ccontr)
    assume "\<not> j \<le> j'"
    then have "(10 :: nat) ^ Suc j' \<le> 10 ^ j" by (intro power_increasing) simp_all
    also have "\<dots> \<le> (i + 1) * 10 ^ j" by simp
    finally have "10 * 10 ^ j' \<le> n" using that(1) by simp
    moreover have "(i' + 2) * 10 ^ j' \<le> 10 * 10 ^ j'" using that(3) by (intro mult_right_mono) simp_all
    ultimately show False using that(2) by simp
  qed
  have j: "j = j'" using less [OF assms(1,5,6)] less [OF assms(4,2,3)] by simp
  have "i = n div 10 ^ j - 1" if "(i + 1) * 10 ^ j \<le> n" "n < (i + 2) * 10 ^ j" for i
    using div_nat_eqI [of "10 ^ j" "i + 1" n] that by (simp add: mult.commute)
  then show ?thesis using assms(1,2,4,5) j by metis
qed

lemma bucket_of_delay:
  assumes "10 / 1000000 \<le> dt" and "dt * 100000 < 2 ^ 32"
  obtains d where "to_u32 (dt * 100000) = Some d" and "bucket_loop 0 d = None" and "\<forall>j<HISTOGRAM_SIZE_LOG. \<forall>i<9. \<not> in_bucket j i dt"
  | d j i where "to_u32 (dt * 100000) = Some d" and "bucket_loop 0 d = Some (j, i)" and "j < HISTOGRAM_SIZE_LOG" and "i < 9"
    and "\<forall>j'<HISTOGRAM_SIZE_LOG. \<forall>i'<9. in_bucket j' i' dt \<longleftrightarrow> j' = j \<and> i' = i"
proof -
  have pos: "0 \<le> dt" "1 \<le> \<lfloor>dt * 100000\<rfloor>" using assms(1) by (simp_all add: le_floor_iff)
  have lt: "\<lfloor>dt * 100000\<rfloor> < 2 ^ 32" using assms(2) by (simp add: floor_less_iff)
  define d :: u32 where "d = word_of_int \<lfloor>dt * 100000\<rfloor>"
  have d: "to_u32 (dt * 100000) = Some d" using lt pos by (simp add: to_u32_def d_def)
  have n: "unat d = ten_usecs dt" using lt pos unfolding d_def ten_usecs_def by (simp add: unsigned_of_int take_bit_int_eq_self)
  have d0: "d \<noteq> 0" using n pos by (auto simp: ten_usecs_def)
  show thesis
  proof (cases "bucket_loop 0 d")
    case None
    then have big: "10 ^ HISTOGRAM_SIZE_LOG \<le> ten_usecs dt" using bucket_loop_spec [OF d0, of 0] n by simp
    have "\<not> in_bucket j i dt" if "j < HISTOGRAM_SIZE_LOG" "i < 9" for j i
    proof -
      have "(i + 2) * (10 :: nat) ^ j \<le> 10 ^ Suc j" using that(2) by simp
      also have "\<dots> \<le> 10 ^ HISTOGRAM_SIZE_LOG" using that(1) by (intro power_increasing) simp_all
      finally show ?thesis using big pos(1) by (simp add: in_bucket_nat)
    qed
    then show thesis using that(1) d None by blast
  next
    case (Some ji)
    obtain j i where ji: "ji = (j, i)" by (cases ji)
    have b: "j < HISTOGRAM_SIZE_LOG" "i < 9" "(i + 1) * 10 ^ j \<le> ten_usecs dt" "ten_usecs dt < (i + 2) * 10 ^ j"
      using bucket_loop_spec [OF d0, of 0] Some n ji by simp_all
    have "in_bucket j' i' dt \<longleftrightarrow> j' = j \<and> i' = i" if "i' < 9" for j' i'
      unfolding in_bucket_nat [OF pos(1)] using decade_unique [OF b(3,4,2) _ _ that] b(3,4) by blast
    then show thesis using that(2) d Some ji b(1,2) by blast
  qed
qed

definition counts :: "rat list \<Rightarrow> CTimeHistogram \<Rightarrow> bool" where
  "counts xs h \<longleftrightarrow> h_min_delta h = 10 / 1000000 \<and> length (h_hcnt h) = HISTOGRAM_SIZE_LOG \<and>
     (\<forall>j<HISTOGRAM_SIZE_LOG. length (h_hcnt h ! j) = HISTOGRAM_SIZE) \<and>
     (\<forall>j<HISTOGRAM_SIZE_LOG. \<forall>i<HISTOGRAM_SIZE. h_hcnt h ! j ! i = of_nat (length (filter (in_bucket j i) xs))) \<and>
     h_cnt h = of_nat (length xs) \<and> h_high_cnt h = of_nat (length (filter (\<lambda>dt. 10 / 1000000 \<le> dt) xs))"

lemma counts_Create: "counts [] (hist_Create h)"
  by (simp add: counts_def hist_Create_def hist_Reset_def HISTOGRAM_SIZE_LOG_def HISTOGRAM_SIZE_def nth_replicate)

lemma counts_Add:
  assumes c: "counts xs h" and dt: "0 \<le> dt" "dt * 100000 < 2 ^ 32"
  shows "\<exists>b h'. hist_Add dt h = Some (b, h') \<and> counts (xs @ [dt]) h'"
proof (cases "dt < 10 / 1000000")
  case True
  have "\<not> in_bucket j i dt" for j i
  proof -
    have "ten_usecs dt = 0" using True dt(1) by (simp add: ten_usecs_def floor_less_iff)
    then show ?thesis using dt(1) by (simp add: in_bucket_nat)
  qed
  then show ?thesis using c True by (auto simp: hist_Add_def counts_def Let_def)
next
  case False
  then have ge: "10 / 1000000 \<le> dt" by simp
  have m: "h_min_delta h = 10 / 1000000" using c by (simp add: counts_def)
  show ?thesis
  proof (rule bucket_of_delay [OF ge dt(2)])
    fix d assume "to_u32 (dt * 100000) = Some d" "bucket_loop 0 d = None" "\<forall>j<HISTOGRAM_SIZE_LOG. \<forall>i<9. \<not> in_bucket j i dt"
    then show ?thesis using c False m by (auto simp: hist_Add_def counts_def Let_def HISTOGRAM_SIZE_def)
  next
    fix d j i assume b: "to_u32 (dt * 100000) = Some d" "bucket_loop 0 d = Some (j, i)" "j < HISTOGRAM_SIZE_LOG" "i < 9"
      "\<forall>j'<HISTOGRAM_SIZE_LOG. \<forall>i'<9. in_bucket j' i' dt \<longleftrightarrow> j' = j \<and> i' = i"
    then show ?thesis using c False m
      by (auto simp: hist_Add_def counts_def Let_def HISTOGRAM_SIZE_def inc_bucket_def nth_list_update)
  qed
qed

lemma counts_add_all:
  assumes "counts xs h" and "\<forall>dt\<in>set ys. 0 \<le> dt \<and> dt * 100000 < 2 ^ 32"
  shows "\<exists>h'. add_all ys h = Some h' \<and> counts (xs @ ys) h'"
  using assms
proof (induction ys arbitrary: xs h)
  case (Cons y ys)
  obtain b h1 where "hist_Add y h = Some (b, h1)" "counts (xs @ [y]) h1" using counts_Add [OF Cons.prems(1), of y] Cons.prems(2) by auto
  then show ?case using Cons.IH [of "xs @ [y]" h1] Cons.prems(2) by simp
qed simp

text \<open>
  C21. The histogram counts every delay where it belongs: after any sequence of samples each of the 45 buckets holds the
  number of samples in its range, modulo the width of the counter, and the two totals are the number of samples and of those
  of ten microseconds or more.
\<close>

theorem histogram_counts:
  assumes "\<forall>dt\<in>set dts. 0 \<le> dt \<and> dt * 100000 < 2 ^ 32"
  shows "\<exists>h'. add_all dts (hist_Create h) = Some h' \<and>
    (\<forall>j<HISTOGRAM_SIZE_LOG. \<forall>i<HISTOGRAM_SIZE. h_hcnt h' ! j ! i = of_nat (length (filter (in_bucket j i) dts))) \<and>
    h_cnt h' = of_nat (length dts) \<and> h_high_cnt h' = of_nat (length (filter (\<lambda>dt. 10 / 1000000 \<le> dt) dts))"
  using counts_add_all [OF counts_Create assms, of h] unfolding counts_def append.simps by blast

definition demo_hist :: CTimeHistogram where
  "demo_hist = \<lparr>h_min_delta = 0, h_cnt = 0, h_high_cnt = 0, h_max_dt = 0, h_max_win_dt = 0, h_max_win_last_dt = 0, h_average = 0,
     h_win_cnt = 0, h_max_ar = [], h_hcnt = [], h_hcnt_shadow = [], h_cnt_shadow = 0, h_high_cnt_shadow = 0\<rparr>"

theorem histogram_counts_witness:
  "\<exists>h'. add_all [1 / 100000, 25 / 1000000, 2] (hist_Create demo_hist) = Some h' \<and> h_cnt h' = 3 \<and> h_hcnt h' ! 0 ! 1 = 1"
proof -
  have b: "in_bucket 0 1 (25 / 1000000)" "\<not> in_bucket 0 1 (1 / 100000)" "\<not> in_bucket 0 1 2" by (simp_all add: in_bucket_def)
  have "\<forall>dt\<in>set [1 / 100000, 25 / 1000000, 2]. 0 \<le> dt \<and> dt * 100000 < (2 ^ 32 :: rat)" by simp
  from histogram_counts [OF this, of demo_hist] show ?thesis using b
    by (fastforce simp: HISTOGRAM_SIZE_LOG_def HISTOGRAM_SIZE_def)
qed

text \<open>
  The average takes every sample of a bucket for one and a half times the lower end: samples of 90 microseconds average to 135.
\<close>

lemma average_off:
  "map_option (\<lambda>h. fst (get_cur_average h)) (add_all (replicate 4 (90 / 1000000)) (hist_Create demo_hist)) = Some 135"
  by code_simp

end
