(* ===== verification/Bit_Man.thy ===== *)
theory Bit_Man
  imports Trex_Prelude
begin

text \<open>
  Bit fields (\<open>common/bitMan.h\<close>): reading and writing the bits \<open>startbit\<close> to \<open>stopbit\<close> of a word, counted from the most
  significant bit (\<open>BigE\<close>) or from the least significant one.  The masks of the source are computed in
  \<open>int\<close> and cut to the width of the field; for fields shorter than the word this is the mask below.
\<close>

definition btGetShift :: "'a::len word itself \<Rightarrow> nat \<Rightarrow> nat" where
  "btGetShift T stopbit = LENGTH('a) - stopbit - 1"

definition btGetMask :: "nat \<Rightarrow> nat \<Rightarrow> 'a::len word" where
  "btGetMask startbit stopbit = push_bit (btGetShift TYPE('a word) stopbit) (mask (stopbit - startbit + 1))"

definition btGetMaskBitBigE :: "'a::len word \<Rightarrow> nat \<Rightarrow> nat \<Rightarrow> 'a word" where
  "btGetMaskBitBigE a startbit stopbit =
     (if LENGTH('a) = stopbit - startbit + 1 then a
      else drop_bit (btGetShift TYPE('a word) stopbit) (a AND btGetMask startbit stopbit))"

definition btSetMaskBitBigE :: "'a::len word \<Rightarrow> nat \<Rightarrow> nat \<Rightarrow> 'a word \<Rightarrow> 'a word" where
  "btSetMaskBitBigE a startbit stopbit newval =
     (if LENGTH('a) = stopbit - startbit + 1 then newval
      else (a AND NOT (btGetMask startbit stopbit)) OR
        (push_bit (btGetShift TYPE('a word) stopbit) newval AND btGetMask startbit stopbit))"

definition btGetMaskBit :: "'a::len word \<Rightarrow> nat \<Rightarrow> nat \<Rightarrow> 'a word" where
  "btGetMaskBit a startbit stopbit = btGetMaskBitBigE a (LENGTH('a) - 1 - startbit) (LENGTH('a) - 1 - stopbit)"

definition btSetMaskBit :: "'a::len word \<Rightarrow> nat \<Rightarrow> nat \<Rightarrow> 'a word \<Rightarrow> 'a word" where
  "btSetMaskBit a startbit stopbit newval =
     btSetMaskBitBigE a (LENGTH('a) - 1 - startbit) (LENGTH('a) - 1 - stopbit) newval"

lemma bit_btGetMask:
  assumes "startbit \<le> stopbit" and "stopbit < LENGTH('a::len)"
  shows "bit (btGetMask startbit stopbit :: 'a word) n \<longleftrightarrow> LENGTH('a) - 1 - stopbit \<le> n \<and> n \<le> LENGTH('a) - 1 - startbit"
  using assms by (auto simp: btGetMask_def btGetShift_def bit_push_bit_iff bit_mask_iff)

text \<open>The bits of a field and of the rest of the word.\<close>

lemma bit_btGetMaskBitBigE:
  assumes "startbit \<le> stopbit" and "stopbit < LENGTH('a::len)"
  shows "bit (btGetMaskBitBigE (a :: 'a word) startbit stopbit) n \<longleftrightarrow> n < stopbit - startbit + 1 \<and> bit a (n + (LENGTH('a) - 1 - stopbit))"
proof (cases "LENGTH('a) = stopbit - startbit + 1")
  case True
  then have "startbit = 0" "LENGTH('a) - 1 - stopbit = 0" using assms by linarith+
  then show ?thesis using True bit_imp_le_length [of a n] by (auto simp: btGetMaskBitBigE_def)
next
  case False
  then show ?thesis using assms
    by (auto simp: btGetMaskBitBigE_def bit_drop_bit_eq bit_and_iff bit_btGetMask btGetShift_def add.commute)
qed

lemma bit_btSetMaskBitBigE:
  assumes "startbit \<le> stopbit" and "stopbit < LENGTH('a::len)" and "n < LENGTH('a)"
  shows "bit (btSetMaskBitBigE (a :: 'a word) startbit stopbit v) n \<longleftrightarrow>
    (if LENGTH('a) - 1 - stopbit \<le> n \<and> n \<le> LENGTH('a) - 1 - startbit then bit v (n - (LENGTH('a) - 1 - stopbit)) else bit a n)"
proof (cases "LENGTH('a) = stopbit - startbit + 1")
  case True
  then have "startbit = 0" "LENGTH('a) - 1 - stopbit = 0" using assms by linarith+
  then show ?thesis using True assms(3) by (simp add: btSetMaskBitBigE_def)
next
  case False
  then show ?thesis using assms
    by (auto simp: btSetMaskBitBigE_def bit_or_iff bit_and_iff bit_not_iff bit_btGetMask bit_push_bit_iff btGetShift_def)
qed

lemma btGet_Set_BigE_same:
  assumes "s \<le> e" and "e < LENGTH('a::len)"
  shows "btGetMaskBitBigE (btSetMaskBitBigE (a :: 'a word) s e v) s e = take_bit (e - s + 1) v"
proof (rule bit_word_eqI)
  fix n
  have "n + (LENGTH('a) - 1 - e) < LENGTH('a)" "n + (LENGTH('a) - 1 - e) \<le> LENGTH('a) - 1 - s" if "n < e - s + 1"
    using that assms by linarith+
  then show "bit (btGetMaskBitBigE (btSetMaskBitBigE a s e v) s e) n \<longleftrightarrow> bit (take_bit (e - s + 1) v) n"
    unfolding bit_btGetMaskBitBigE [OF assms] bit_take_bit_iff by (auto simp: bit_btSetMaskBitBigE [OF assms])
qed

lemma btGet_Set_BigE_other:
  assumes "s \<le> e" and "e < LENGTH('a::len)" and "s' \<le> e'" and "e' < LENGTH('a)" and "e < s' \<or> e' < s"
  shows "btGetMaskBitBigE (btSetMaskBitBigE (a :: 'a word) s e v) s' e' = btGetMaskBitBigE a s' e'"
proof (rule bit_word_eqI)
  fix n
  have "n + (LENGTH('a) - 1 - e') < LENGTH('a)"
    "\<not> (LENGTH('a) - 1 - e \<le> n + (LENGTH('a) - 1 - e') \<and> n + (LENGTH('a) - 1 - e') \<le> LENGTH('a) - 1 - s)" if "n < e' - s' + 1"
    using that assms by linarith+
  then show "bit (btGetMaskBitBigE (btSetMaskBitBigE a s e v) s' e') n \<longleftrightarrow> bit (btGetMaskBitBigE a s' e') n"
    unfolding bit_btGetMaskBitBigE [OF assms(3,4)] by (auto simp: bit_btSetMaskBitBigE [OF assms(1,2)])
qed

text \<open>The same for fields that are counted from the least significant bit.\<close>

lemma btGet_Set_same:
  assumes "s \<le> e" and "e < LENGTH('a::len)"
  shows "btGetMaskBit (btSetMaskBit (a :: 'a word) e s v) e s = take_bit (e - s + 1) v"
proof -
  let ?c = "\<lambda>i. LENGTH('a) - 1 - i"
  have c: "?c e \<le> ?c s" "?c s < LENGTH('a)" "?c s - ?c e = e - s" using assms by auto
  show ?thesis unfolding btGetMaskBit_def btSetMaskBit_def btGet_Set_BigE_same [OF c(1,2)] c(3) ..
qed

lemma btGet_Set_other:
  assumes "s \<le> e" and "e < LENGTH('a::len)" and "s' \<le> e'" and "e' < LENGTH('a)" and "e < s' \<or> e' < s"
  shows "btGetMaskBit (btSetMaskBit (a :: 'a word) e s v) e' s' = btGetMaskBit a e' s'"
proof -
  let ?c = "\<lambda>i. LENGTH('a) - 1 - i"
  have c: "?c e \<le> ?c s" "?c s < LENGTH('a)" "?c e' \<le> ?c s'" "?c s' < LENGTH('a)" "?c s < ?c e' \<or> ?c s' < ?c e" using assms by auto
  show ?thesis unfolding btGetMaskBit_def btSetMaskBit_def by (rule btGet_Set_BigE_other [OF c])
qed

text \<open>
  Writing a bit field and reading it gives the written value, cut to the width of the field, and a field that
  does not overlap it reads as before, counted from either end of the word.
\<close>

lemma bitfield_roundtrip:
  fixes a :: "'a::len word"
  assumes "s \<le> e" and "e < LENGTH('a)" and "s' \<le> e'" and "e' < LENGTH('a)" and "e < s' \<or> e' < s"
  shows "btGetMaskBitBigE (btSetMaskBitBigE a s e v) s e = take_bit (e - s + 1) v \<and>
    btGetMaskBitBigE (btSetMaskBitBigE a s e v) s' e' = btGetMaskBitBigE a s' e' \<and>
    btGetMaskBit (btSetMaskBit a e s v) e s = take_bit (e - s + 1) v \<and>
    btGetMaskBit (btSetMaskBit a e s v) e' s' = btGetMaskBit a e' s'"
  using btGet_Set_BigE_same [OF assms(1,2)] btGet_Set_BigE_other [OF assms] btGet_Set_same [OF assms(1,2)] btGet_Set_other [OF assms] by blast

end
