(* ===== verification/Rx_Check.thy ===== *)
theory Rx_Check
  imports Timer_Wheel Time_Histogram Bit_Man
begin

text \<open>
  The receive check (\<open>rx_check.h\<close>, \<open>rx_check.cpp\<close>, \<open>rx_check_header.h\<close>): every packet of a checked flow carries its
  number and the size of its flow; the manager keeps a table of open flows, counts what arrives out of order and closes a
  flow when all its packets were seen or when its timer expires.

  Flow objects have addresses: \<open>rm_flows\<close> is the heap and \<open>rm_map\<close> the table.  The address of a flow is the handle of its
  timer.  Access to a freed flow is the result \<open>None\<close>.  The manager is the state of the owner of the wheel; the time and the
  tick are inputs.  Printing and JSON are left out.
\<close>

section \<open>The header of a packet\<close>

definition RX_CHECK_LEN :: nat where "RX_CHECK_LEN = 24"

definition RX_CHECK_MAGIC :: u16 where
  "RX_CHECK_MAGIC = push_bit 8 (of_nat (RX_CHECK_LEN - 2) AND 0xff) OR 0x17"

record CRx_check_header =
  rx_option_type :: u8
  rx_option_len :: u8
  rx_magic :: u16
  rx_time_stamp :: u32
  rx_flow_id :: u64
  rx_pkt_id :: u16
  rx_flow_size :: u16
  rx_flags :: u8
  rx_template_id :: u8
  rx_aging_sec :: u16

definition is_fif_dir :: "CRx_check_header \<Rightarrow> bool" where
  "is_fif_dir h \<longleftrightarrow> rx_pkt_id h = 0"

definition is_eof_dir :: "CRx_check_header \<Rightarrow> bool" where
  "is_eof_dir h \<longleftrightarrow> uint (rx_pkt_id h) = uint (rx_flow_size h) - 1"

definition set_dir :: "int \<Rightarrow> CRx_check_header \<Rightarrow> CRx_check_header" where
  "set_dir dir h = h\<lparr>rx_flags := btSetMaskBit (rx_flags h) 0 0 (if dir \<noteq> 0 then 1 else 0)\<rparr>"

definition get_dir :: "CRx_check_header \<Rightarrow> nat" where
  "get_dir h = (if btGetMaskBit (rx_flags h) 0 0 \<noteq> 0 then 1 else 0)"

definition hdr_set_both_dir :: "int \<Rightarrow> CRx_check_header \<Rightarrow> CRx_check_header" where
  "hdr_set_both_dir both h = h\<lparr>rx_flags := btSetMaskBit (rx_flags h) 1 1 (if both \<noteq> 0 then 1 else 0)\<rparr>"

definition get_both_dir :: "CRx_check_header \<Rightarrow> bool" where
  "get_both_dir h \<longleftrightarrow> btGetMaskBit (rx_flags h) 1 1 \<noteq> 0"

section \<open>Flows\<close>

record CRxCheckFlowPerDir =
  d_flow_size :: u16
  d_pkts :: u16
  d_seq :: u16
  d_flags :: u16

definition CRxCheckFlowPerDir_new :: CRxCheckFlowPerDir where
  "CRxCheckFlowPerDir_new = \<lparr>d_flow_size = 0, d_pkts = 0, d_seq = 0, d_flags = 0\<rparr>"

definition set_fif_seen :: "u16 \<Rightarrow> CRxCheckFlowPerDir \<Rightarrow> CRxCheckFlowPerDir" where
  "set_fif_seen flow_per_dir d = d\<lparr>d_pkts := 1, d_seq := 1, d_flags := d_flags d OR 2, d_flow_size := flow_per_dir\<rparr>"

definition is_fif_seen :: "CRxCheckFlowPerDir \<Rightarrow> bool" where
  "is_fif_seen d \<longleftrightarrow> d_flags d AND 2 = 2"

definition set_init_not_from_first_packet :: "CRxCheckFlowPerDir \<Rightarrow> CRxCheckFlowPerDir" where
  "set_init_not_from_first_packet d = d\<lparr>d_flags := d_flags d OR 1\<rparr>"

definition is_init_not_from_first_pkt :: "CRxCheckFlowPerDir \<Rightarrow> bool" where
  "is_init_not_from_first_pkt d \<longleftrightarrow> d_flags d AND 2 = 2"

text \<open>The two directions are the fields \<open>m_dir[0]\<close> and \<open>m_dir[1]\<close>.\<close>

record CRxCheckFlow =
  f_flow_id :: u64
  f_dir :: "nat \<Rightarrow> CRxCheckFlowPerDir"
  f_oo_err :: u16
  f_flags :: u16

definition CRxCheckFlow_new :: CRxCheckFlow where
  "CRxCheckFlow_new = \<lparr>f_flow_id = 0, f_dir = (\<lambda>_. CRxCheckFlowPerDir_new), f_oo_err = 0, f_flags = 0\<rparr>"

definition get_total_pkt_seen :: "CRxCheckFlow \<Rightarrow> u16" where
  "get_total_pkt_seen f = d_pkts (f_dir f 0) + d_pkts (f_dir f 1)"

definition get_total_pkt_expected :: "CRxCheckFlow \<Rightarrow> u16" where
  "get_total_pkt_expected f = d_flow_size (f_dir f 0) + d_flow_size (f_dir f 1)"

definition flow_set_both_dir :: "CRxCheckFlow \<Rightarrow> CRxCheckFlow" where
  "flow_set_both_dir f = f\<lparr>f_flags := f_flags f OR 2\<rparr>"

definition is_both_dir :: "CRxCheckFlow \<Rightarrow> bool" where
  "is_both_dir f \<longleftrightarrow> f_flags f AND 2 = 2"

definition set_aged_correctly :: "CRxCheckFlow \<Rightarrow> CRxCheckFlow" where
  "set_aged_correctly f = f\<lparr>f_flags := f_flags f OR 4\<rparr>"

definition is_aged_correctly :: "CRxCheckFlow \<Rightarrow> bool" where
  "is_aged_correctly f \<longleftrightarrow> f_flags f AND 4 = 4"

definition is_all_pkts_seen :: "CRxCheckFlow \<Rightarrow> bool" where
  "is_all_pkts_seen f \<longleftrightarrow>
     (if \<exists>i\<in>{0, 1}. d_pkts (f_dir f i) \<noteq> d_flow_size (f_dir f i) then False
      else let c = length (filter (\<lambda>i. d_flow_size (f_dir f i) > 0) [0, 1]);
               expc = (if is_both_dir f then 2 else 1)
           in expc = c \<and> f_oo_err f = 0)"

definition put_dir :: "nat \<Rightarrow> CRxCheckFlowPerDir \<Rightarrow> CRxCheckFlow \<Rightarrow> CRxCheckFlow" where
  "put_dir i d f = f\<lparr>f_dir := (f_dir f)(i := d)\<rparr>"

definition inc_oo_err :: "CRxCheckFlow \<Rightarrow> CRxCheckFlow" where
  "inc_oo_err f = f\<lparr>f_oo_err := f_oo_err f + 1\<rparr>"

section \<open>The manager\<close>

record CRxCheckFlowTableStats =
  s_total_rx :: u64
  s_total_rx_bytes :: u64
  s_lookup :: u64
  s_found :: u64
  s_fif :: u64
  s_add :: u64
  s_remove :: u64
  s_active :: u64
  s_err_drop :: u64
  s_err_aged :: u64
  s_err_no_magic :: u64
  s_err_wrong_pkt_id :: u64
  s_err_fif_seen_twice :: u64
  s_err_open_with_no_fif_pkt :: u64
  s_err_oo_dup :: u64
  s_err_oo_early :: u64
  s_err_oo_late :: u64
  s_err_flow_length_changed :: u64

definition get_total_err :: "CRxCheckFlowTableStats \<Rightarrow> u64" where
  "get_total_err s = s_err_drop s + s_err_aged s + s_err_no_magic s + s_err_wrong_pkt_id s + s_err_fif_seen_twice s +
     s_err_open_with_no_fif_pkt s + s_err_oo_dup s + s_err_oo_early s + s_err_oo_late s + s_err_flow_length_changed s"

definition stats_Clear :: CRxCheckFlowTableStats where
  "stats_Clear = \<lparr>s_total_rx = 0, s_total_rx_bytes = 0, s_lookup = 0, s_found = 0, s_fif = 0, s_add = 0, s_remove = 0,
     s_active = 0, s_err_drop = 0, s_err_aged = 0, s_err_no_magic = 0, s_err_wrong_pkt_id = 0, s_err_fif_seen_twice = 0,
     s_err_open_with_no_fif_pkt = 0, s_err_oo_dup = 0, s_err_oo_early = 0, s_err_oo_late = 0, s_err_flow_length_changed = 0\<rparr>"

definition MAX_TEMPLATES_STATS :: nat where "MAX_TEMPLATES_STATS = 32"

text \<open>The packets a sending thread counts per template.\<close>

definition tx_template_Clear :: "u64 list" where
  "tx_template_Clear = replicate MAX_TEMPLATES_STATS 0"

definition tx_inc_template :: "u8 \<Rightarrow> u64 list \<Rightarrow> u64 list" where
  "tx_inc_template index ts = (let i = (if unat index < MAX_TEMPLATES_STATS then unat index else MAX_TEMPLATES_STATS - 1) in ts[i := ts ! i + 1])"

definition tx_template_Add :: "u64 list \<Rightarrow> u64 list \<Rightarrow> u64 list" where
  "tx_template_Add obj ts = map (\<lambda>i. ts ! i + obj ! i) [0..<MAX_TEMPLATES_STATS]"

record CPerTemplateInfo =
  ti_rx_pkts :: u64
  ti_jitter :: CJitter
  ti_errors :: u64

definition template_reset :: CPerTemplateInfo where
  "template_reset = \<lparr>ti_rx_pkts = 0, ti_jitter = jitter_reset, ti_errors = 0\<rparr>"

record RxCheckManager =
  rm_flows :: "nat \<rightharpoonup> CRxCheckFlow"
  rm_next :: nat
  rm_map :: "u64 \<rightharpoonup> nat"
  rm_stats :: CRxCheckFlowTableStats
  rm_hist :: CTimeHistogram
  rm_template_info :: "CPerTemplateInfo list"
  rm_on_drain :: bool
  rm_cur_time :: rat

text \<open>The table.\<close>

definition ft_lookup :: "u64 \<Rightarrow> RxCheckManager \<Rightarrow> nat option" where
  "ft_lookup key m = rm_map m key"

definition ft_remove :: "u64 \<Rightarrow> RxCheckManager \<Rightarrow> RxCheckManager" where
  "ft_remove key m = (case ft_lookup key m of
       None \<Rightarrow> m
     | Some a \<Rightarrow> m\<lparr>rm_flows := (rm_flows m)(a := None), rm_map := (rm_map m)(key := None)\<rparr>)"

definition ft_add :: "u64 \<Rightarrow> RxCheckManager \<Rightarrow> nat \<times> RxCheckManager" where
  "ft_add key m = (let a = rm_next m in
     (a, m\<lparr>rm_next := a + 1, rm_flows := (rm_flows m)(a \<mapsto> CRxCheckFlow_new),
            rm_map := (if rm_map m key = None then (rm_map m)(key \<mapsto> a) else rm_map m)\<rparr>))"

definition ft_count :: "RxCheckManager \<Rightarrow> nat" where
  "ft_count m = card (dom (rm_map m))"

definition ft_remove_all :: "RxCheckManager \<Rightarrow> RxCheckManager" where
  "ft_remove_all m = (if dom (rm_map m) = {} then m
     else m\<lparr>rm_flows := (\<lambda>a. if a \<in> ran (rm_map m) then None else rm_flows m a), rm_map := Map.empty\<rparr>)"

definition rx_Create :: "RxCheckManager \<Rightarrow> RxCheckManager" where
  "rx_Create m = m\<lparr>rm_stats := stats_Clear, rm_hist := hist_Create (rm_hist m), rm_cur_time := 1 / 100000000, rm_on_drain := False,
     rm_template_info := replicate MAX_TEMPLATES_STATS template_reset\<rparr>"

definition rx_Delete :: "RxCheckManager \<Rightarrow> RxCheckManager" where
  "rx_Delete m = ft_remove_all m"

definition template_index :: "u8 \<Rightarrow> nat" where
  "template_index index = (if unat index < MAX_TEMPLATES_STATS - 1 then unat index else MAX_TEMPLATES_STATS - 1)"

definition on_template :: "u8 \<Rightarrow> (CPerTemplateInfo \<Rightarrow> CPerTemplateInfo) \<Rightarrow> RxCheckManager \<Rightarrow> RxCheckManager" where
  "on_template index f m = (let i = template_index index in
     m\<lparr>rm_template_info := (rm_template_info m)[i := f (rm_template_info m ! i)]\<rparr>)"

definition update_template_err :: "u8 \<Rightarrow> RxCheckManager \<Rightarrow> RxCheckManager" where
  "update_template_err template_id m = on_template template_id (\<lambda>t. t\<lparr>ti_errors := ti_errors t + 1\<rparr>) m"

definition get_jitter_usec :: "CPerTemplateInfo \<Rightarrow> u32 option" where
  "get_jitter_usec t = get_usec (j_jitter (ti_jitter t))"

definition getTemplateMaxJitter :: "RxCheckManager \<Rightarrow> u32 option" where
  "getTemplateMaxJitter m = foldl (\<lambda>res i. case (res, get_jitter_usec (rm_template_info m ! template_index (of_nat i))) of
       (Some r, Some jitter) \<Rightarrow> Some (if jitter > r then jitter else r) | _ \<Rightarrow> None) (Some 0) [0..<MAX_TEMPLATES_STATS]"

definition on_stats :: "(CRxCheckFlowTableStats \<Rightarrow> CRxCheckFlowTableStats) \<Rightarrow> RxCheckManager \<Rightarrow> RxCheckManager" where
  "on_stats f m = m\<lparr>rm_stats := f (rm_stats m)\<rparr>"

definition on_flow_end :: "nat \<Rightarrow> RxCheckManager \<Rightarrow> RxCheckManager option" where
  "on_flow_end a m = (case rm_flows m a of
       None \<Rightarrow> None
     | Some lp \<Rightarrow>
         let m1 = on_stats (\<lambda>s. s\<lparr>s_remove := s_remove s + 1, s_active := s_active s - 1\<rparr>) m;
             ex = get_total_pkt_expected lp;
             seen = get_total_pkt_seen lp;
             m2 = (if \<not> rm_on_drain m1 then
                     on_stats (\<lambda>s. s\<lparr>s_err_drop := (if ex > seen then s_err_drop s + ucast (ex - seen) else s_err_drop s),
                                    s_err_aged := (if \<not> is_aged_correctly lp then s_err_aged s + 1 else s_err_aged s)\<rparr>) m1
                   else m1)
         in Some (ft_remove (f_flow_id lp) m2))"

definition flow_aging_callback :: "RxCheckManager callback" where
  "flow_aging_callback t wm = (case wm of (w, m) \<Rightarrow> map_option (\<lambda>m'. (w, m')) (on_flow_end t m))"

definition tw_handle :: "(nat list \<Rightarrow> nat) \<Rightarrow> CTimerWheel \<times> RxCheckManager \<Rightarrow> (CTimerWheel \<times> RxCheckManager) option" where
  "tw_handle pick wm = try_handle_events pick flow_aging_callback (rm_cur_time (snd wm)) wm"

definition tw_drain :: "(nat list \<Rightarrow> nat) \<Rightarrow> CTimerWheel \<times> RxCheckManager \<Rightarrow> (CTimerWheel \<times> RxCheckManager) option" where
  "tw_drain pick wm = (case wm of (w, m) \<Rightarrow>
     map_option (\<lambda>(w', m'). (w', m'\<lparr>rm_on_drain := False\<rparr>)) (drain_all pick flow_aging_callback (w, m\<lparr>rm_on_drain := True\<rparr>)))"

section \<open>A packet\<close>

text \<open>Each case gives the address of the flow, the manager and whether there was an error.\<close>

definition open_flow :: "CRx_check_header \<Rightarrow> RxCheckManager \<Rightarrow> nat \<times> RxCheckManager" where
  "open_flow h m = (let (a, m1) = ft_add (rx_flow_id h) m;
       lf = (if get_both_dir h then flow_set_both_dir else id) (CRxCheckFlow_new\<lparr>f_flow_id := rx_flow_id h\<rparr>);
       lpd = set_fif_seen (rx_flow_size h) (f_dir lf (get_dir h))
     in (a, m1\<lparr>rm_flows := (rm_flows m1)(a \<mapsto> put_dir (get_dir h) lpd lf)\<rparr>))"

definition fif_new :: "CRx_check_header \<Rightarrow> RxCheckManager \<Rightarrow> nat \<times> RxCheckManager \<times> bool" where
  "fif_new h m = (let (a, m1) = open_flow h m
     in (a, on_stats (\<lambda>s. s\<lparr>s_fif := s_fif s + 1, s_add := s_add s + 1, s_active := s_active s + 1\<rparr>) m1, False))"

definition non_fif_new :: "CRx_check_header \<Rightarrow> RxCheckManager \<Rightarrow> nat \<times> RxCheckManager \<times> bool" where
  "non_fif_new h m = (let (a, m1) = open_flow h m;
       m2 = on_stats (\<lambda>s. s\<lparr>s_add := s_add s + 1, s_active := s_active s + 1,
              s_err_open_with_no_fif_pkt := s_err_open_with_no_fif_pkt s + 1\<rparr>) m1
     in (a, m2\<lparr>rm_flows := (rm_flows m2)(a := map_option inc_oo_err (rm_flows m2 a))\<rparr>, True))"

definition fif_found :: "CRx_check_header \<Rightarrow> nat \<Rightarrow> CRxCheckFlow \<Rightarrow> RxCheckManager \<Rightarrow> RxCheckManager \<times> bool" where
  "fif_found h a lf m0 =
     (let m = on_stats (\<lambda>s. s\<lparr>s_found := s_found s + 1\<rparr>) m0;
          lpd = f_dir lf (get_dir h)
      in if is_fif_seen lpd then
           let changed = d_flow_size lpd \<noteq> rx_flow_size h;
               lf1 = (if changed then inc_oo_err else id) (inc_oo_err lf);
               lf2 = put_dir (get_dir h) (lpd\<lparr>d_pkts := d_pkts lpd + 1\<rparr>) lf1
           in (on_stats (\<lambda>s. s\<lparr>s_err_fif_seen_twice := s_err_fif_seen_twice s + 1,
                 s_err_flow_length_changed := (if changed then s_err_flow_length_changed s + 1 else s_err_flow_length_changed s)\<rparr>)
                 (m\<lparr>rm_flows := (rm_flows m)(a \<mapsto> lf2)\<rparr>), True)
         else (m\<lparr>rm_flows := (rm_flows m)(a \<mapsto> put_dir (get_dir h) (set_fif_seen (rx_flow_size h) lpd) lf)\<rparr>, False))"

definition count_out_of_order :: "u16 \<Rightarrow> u16 \<Rightarrow> CRxCheckFlowTableStats \<Rightarrow> CRxCheckFlowTableStats" where
  "count_out_of_order c_seq pkt_id s =
     (if uint c_seq - 1 = uint pkt_id then s\<lparr>s_err_oo_dup := s_err_oo_dup s + 1\<rparr>
      else if c_seq < pkt_id then s\<lparr>s_err_oo_late := s_err_oo_late s + 1\<rparr>
      else s\<lparr>s_err_oo_early := s_err_oo_early s + 1\<rparr>)"

definition non_fif_found :: "CRx_check_header \<Rightarrow> nat \<Rightarrow> CRxCheckFlow \<Rightarrow> RxCheckManager \<Rightarrow> RxCheckManager \<times> bool" where
  "non_fif_found h a lf m0 =
     (let m = on_stats (\<lambda>s. s\<lparr>s_found := s_found s + 1\<rparr>) m0;
          lpd = f_dir lf (get_dir h)
      in if \<not> is_fif_seen lpd
         then (m\<lparr>rm_flows := (rm_flows m)(a \<mapsto> put_dir (get_dir h) (set_fif_seen (rx_flow_size h) lpd) lf)\<rparr>, False)
         else
           let changed = d_flow_size lpd \<noteq> rx_flow_size h;
               lf1 = (if changed then inc_oo_err lf else lf);
               m1 = (if changed then on_stats (\<lambda>s. s\<lparr>s_err_flow_length_changed := s_err_flow_length_changed s + 1\<rparr>) m else m);
               c_seq = d_seq lpd;
               wrong = c_seq \<noteq> rx_pkt_id h;
               lf2 = (if wrong then inc_oo_err lf1 else lf1);
               m2 = (if wrong then on_stats (count_out_of_order c_seq (rx_pkt_id h)) m1 else m1);
               lf3 = put_dir (get_dir h) (lpd\<lparr>d_seq := rx_pkt_id h + 1, d_pkts := d_pkts lpd + 1\<rparr>) lf2
           in (m2\<lparr>rm_flows := (rm_flows m2)(a \<mapsto> lf3)\<rparr>, changed \<or> wrong))"

definition os_get_hr_freq :: nat where "os_get_hr_freq = 1000000000"

definition ptime_convert_hr_dsec :: "u64 \<Rightarrow> rat" where
  "ptime_convert_hr_dsec hrt = of_nat (unat hrt) / of_nat os_get_hr_freq"

definition count_latency :: "u32 \<Rightarrow> CRx_check_header \<Rightarrow> RxCheckManager \<Rightarrow> RxCheckManager option" where
  "count_latency tick h m =
     (let dt = ptime_convert_hr_dsec (ucast (tick - rx_time_stamp h)) in
      map_option (\<lambda>(b, hist). on_template (rx_template_id h)
          (\<lambda>t. t\<lparr>ti_jitter := jitter_calc dt (ti_jitter t), ti_rx_pkts := ti_rx_pkts t + 1\<rparr>) (m\<lparr>rm_hist := hist\<rparr>))
        (hist_Add dt (rm_hist m)))"

definition check_flow :: "CRx_check_header \<Rightarrow> RxCheckManager \<Rightarrow> (nat \<times> RxCheckManager \<times> bool) option" where
  "check_flow h m0 =
     (let m = on_stats (\<lambda>s. s\<lparr>s_lookup := s_lookup s + 1\<rparr>) m0 in
      case ft_lookup (rx_flow_id h) m0 of
        None \<Rightarrow> Some (if is_fif_dir h then fif_new h m else non_fif_new h m)
      | Some a \<Rightarrow> (case rm_flows m a of
          None \<Rightarrow> None
        | Some lf \<Rightarrow> Some (a, if is_fif_dir h then fif_found h a lf m else non_fif_found h a lf m)))"

definition close_flow :: "nat \<Rightarrow> CTimerWheel \<times> RxCheckManager \<Rightarrow> (CTimerWheel \<times> RxCheckManager) option" where
  "close_flow a wm = (case wm of (w, m) \<Rightarrow> (case rm_flows m a of
       None \<Rightarrow> None
     | Some lf \<Rightarrow>
         if is_all_pkts_seen lf then (case stop_timer a w of
             None \<Rightarrow> None
           | Some w' \<Rightarrow> map_option (\<lambda>m'. (w', m')) (on_flow_end a (m\<lparr>rm_flows := (rm_flows m)(a \<mapsto> set_aged_correctly lf)\<rparr>)))
         else Some (w, m)))"

definition handle_packet ::
  "(nat list \<Rightarrow> nat) \<Rightarrow> rat \<Rightarrow> u32 \<Rightarrow> CRx_check_header \<Rightarrow> CTimerWheel \<times> RxCheckManager \<Rightarrow> (CTimerWheel \<times> RxCheckManager) option" where
  "handle_packet pick now tick h wm = (case wm of (w, m0) \<Rightarrow>
     let m = on_stats (\<lambda>s. s\<lparr>s_total_rx := s_total_rx s + 1\<rparr>) m0 in
     if rx_magic h \<noteq> RX_CHECK_MAGIC then
       Some (w, update_template_err (rx_template_id h) (on_stats (\<lambda>s. s\<lparr>s_err_no_magic := s_err_no_magic s + 1\<rparr>) m))
     else if uint (rx_pkt_id h) + 1 > uint (rx_flow_size h) then
       Some (w, update_template_err (rx_template_id h) (on_stats (\<lambda>s. s\<lparr>s_err_wrong_pkt_id := s_err_wrong_pkt_id s + 1\<rparr>) m))
     else (case count_latency tick h (m\<lparr>rm_cur_time := now\<rparr>) of
         None \<Rightarrow> None
       | Some m1 \<Rightarrow> (case check_flow h m1 of
           None \<Rightarrow> None
         | Some (a, m2, any_err) \<Rightarrow>
             let m3 = (if any_err then update_template_err (rx_template_id h) m2 else m2) in
             (case restart_timer a (rm_cur_time m3 + of_nat (unat (max (rx_aging_sec h) 5))) w of
                None \<Rightarrow> None
              | Some w1 \<Rightarrow> (case close_flow a (w1, m3) of
                  None \<Rightarrow> None
                | Some (w2, m4) \<Rightarrow> if s_lookup (rm_stats m4) AND 0xff = 0 then tw_handle pick (w2, m4) else Some (w2, m4))))))"

section \<open>The table, the timers and the counters\<close>

text \<open>Every flow is in the table under its id and has a timer, and the counters account for the flows in the table.\<close>

definition ft_ok :: "(nat \<rightharpoonup> rat) \<Rightarrow> RxCheckManager \<Rightarrow> bool" where
  "ft_ok D m \<longleftrightarrow> (\<forall>k a. rm_map m k = Some a \<longleftrightarrow> (\<exists>f. rm_flows m a = Some f \<and> f_flow_id f = k)) \<and>
     dom D = dom (rm_flows m) \<and> finite (dom (rm_map m)) \<and> (\<forall>a\<in>dom (rm_flows m). a < rm_next m)"

definition rx_inv :: "(nat \<rightharpoonup> rat) \<Rightarrow> RxCheckManager \<Rightarrow> bool" where
  "rx_inv D m \<longleftrightarrow> ft_ok D m \<and> s_active (rm_stats m) = of_nat (card (dom (rm_map m))) \<and>
     s_add (rm_stats m) = s_remove (rm_stats m) + s_active (rm_stats m) \<and>
     length (rm_template_info m) = MAX_TEMPLATES_STATS \<and> (\<exists>xs. counts xs (rm_hist m))"

lemma rx_inv_cong:
  assumes "rm_flows m' = rm_flows m" "rm_map m' = rm_map m" "rm_next m' = rm_next m" "rm_hist m' = rm_hist m"
    "length (rm_template_info m') = length (rm_template_info m)" "s_active (rm_stats m') = s_active (rm_stats m)"
    "s_add (rm_stats m') = s_add (rm_stats m)" "s_remove (rm_stats m') = s_remove (rm_stats m)"
  shows "rx_inv D m' = rx_inv D m"
  unfolding rx_inv_def ft_ok_def assms ..

lemma ft_okI:
  assumes "\<And>k a. rm_map m k = Some a \<longleftrightarrow> (\<exists>f. rm_flows m a = Some f \<and> f_flow_id f = k)" and "dom D = dom (rm_flows m)"
    and "finite (dom (rm_map m))" and "\<And>a. a \<in> dom (rm_flows m) \<Longrightarrow> a < rm_next m"
  shows "ft_ok D m"
  using assms unfolding ft_ok_def by simp

lemma ft_okD:
  assumes "ft_ok D m"
  shows "rm_map m k = Some a \<longleftrightarrow> (\<exists>f. rm_flows m a = Some f \<and> f_flow_id f = k)" and "dom D = dom (rm_flows m)"
    and "finite (dom (rm_map m))" and "a \<in> dom (rm_flows m) \<Longrightarrow> a < rm_next m"
  using assms unfolding ft_ok_def by blast+

lemma rx_invD:
  assumes "rx_inv D m"
  shows "ft_ok D m" and "s_active (rm_stats m) = of_nat (card (dom (rm_map m)))"
    and "s_add (rm_stats m) = s_remove (rm_stats m) + s_active (rm_stats m)"
    and "length (rm_template_info m) = MAX_TEMPLATES_STATS" and "\<exists>xs. counts xs (rm_hist m)"
  using assms unfolding rx_inv_def by blast+

lemma ft_ok_flow:
  assumes ft: "ft_ok D m" and f: "rm_flows m a = Some f"
  shows "rm_map m (f_flow_id f) = Some a" and "rm_map m k = Some a \<longleftrightarrow> k = f_flow_id f" and "a \<in> dom D"
    and "rm_map m (f_flow_id f) = Some b \<longleftrightarrow> b = a"
proof -
  show m: "rm_map m (f_flow_id f) = Some a" using ft_okD(1) [OF ft] f by blast
  then show "rm_map m (f_flow_id f) = Some b \<longleftrightarrow> b = a" by auto
  show "rm_map m k = Some a \<longleftrightarrow> k = f_flow_id f" using ft_okD(1) [OF ft, of k a] f by auto
  show "a \<in> dom D" using ft_okD(2) [OF ft] f by auto
qed

text \<open>A flow object changes, but not its id.\<close>

lemma rx_inv_put_flow:
  assumes inv: "rx_inv D m" and a: "rm_flows m a = Some f" "f_flow_id f' = f_flow_id f"
  shows "rx_inv D (m\<lparr>rm_flows := (rm_flows m)(a \<mapsto> f')\<rparr>)" and "rx_inv (D(a \<mapsto> t)) (m\<lparr>rm_flows := (rm_flows m)(a \<mapsto> f')\<rparr>)"
proof -
  let ?m = "m\<lparr>rm_flows := (rm_flows m)(a \<mapsto> f')\<rparr>"
  note ft = rx_invD(1) [OF inv]
  have link: "rm_map ?m k = Some b \<longleftrightarrow> (\<exists>g. rm_flows ?m b = Some g \<and> f_flow_id g = k)" for k b
    using ft_okD(1) [OF ft, of k b] ft_ok_flow(2) [OF ft a(1), of k] a(2) by (cases "b = a") auto
  have D: "dom D = dom (rm_flows ?m)" "dom (D(a \<mapsto> t)) = dom (rm_flows ?m)" using ft_okD(2) [OF ft] a by auto
  have "b < rm_next ?m" if "b \<in> dom (rm_flows ?m)" for b using that a(1) ft_okD(4) [OF ft, of b] by auto
  then have "ft_ok D ?m" "ft_ok (D(a \<mapsto> t)) ?m"
    using ft_okI [OF link D(1)] ft_okI [OF link D(2)] ft_okD(3) [OF ft] by simp_all
  then show "rx_inv D ?m" "rx_inv (D(a \<mapsto> t)) ?m" using rx_invD(2-) [OF inv] by (simp_all add: rx_inv_def)
qed

lemma ft_remove_ok:
  assumes ft: "ft_ok D m" and a: "rm_flows m a = Some f"
  shows "ft_ok (D(a := None)) (ft_remove (f_flow_id f) m)"
    and "rm_flows (ft_remove (f_flow_id f) m) = (rm_flows m)(a := None)" and "rm_map (ft_remove (f_flow_id f) m) = (rm_map m)(f_flow_id f := None)"
proof -
  let ?m = "ft_remove (f_flow_id f) m"
  note own = ft_ok_flow [OF ft a]
  show f: "rm_flows ?m = (rm_flows m)(a := None)" and mp: "rm_map ?m = (rm_map m)(f_flow_id f := None)"
    using own(1) by (simp_all add: ft_remove_def ft_lookup_def)
  have n: "rm_next ?m = rm_next m" by (simp add: ft_remove_def split: option.splits)
  have "rm_map ?m k = Some b \<longleftrightarrow> (\<exists>g. rm_flows ?m b = Some g \<and> f_flow_id g = k)" for k b
    unfolding f mp using ft_okD(1) [OF ft, of k b] own(2) [of k] own(4) [of b] by (cases "b = a"; cases "k = f_flow_id f") auto
  moreover have "dom (D(a := None)) = dom (rm_flows ?m)" "finite (dom (rm_map ?m))" "b \<in> dom (rm_flows ?m) \<Longrightarrow> b < rm_next ?m" for b
    using ft_okD(2,3,4) [OF ft] by (simp_all add: f mp n)
  ultimately show "ft_ok (D(a := None)) ?m" by (rule ft_okI)
qed

lemma on_flow_end_ok:
  assumes inv: "rx_inv D m" and a: "rm_flows m a = Some f"
  shows "\<exists>m'. on_flow_end a m = Some m' \<and> rx_inv (D(a := None)) m' \<and> rm_on_drain m' = rm_on_drain m \<and>
    rm_flows m' = (rm_flows m)(a := None) \<and> rm_map m' = (rm_map m)(f_flow_id f := None) \<and> rm_cur_time m' = rm_cur_time m"
proof -
  define m2 where "m2 = (if rm_on_drain m then id else on_stats (\<lambda>s. s\<lparr>
       s_err_drop := (if get_total_pkt_expected f > get_total_pkt_seen f then s_err_drop s + ucast (get_total_pkt_expected f - get_total_pkt_seen f) else s_err_drop s),
       s_err_aged := (if \<not> is_aged_correctly f then s_err_aged s + 1 else s_err_aged s)\<rparr>))
     (on_stats (\<lambda>s. s\<lparr>s_remove := s_remove s + 1, s_active := s_active s - 1\<rparr>) m)"
  have e: "on_flow_end a m = Some (ft_remove (f_flow_id f) m2)" using a by (simp add: on_flow_end_def on_stats_def Let_def m2_def)
  have m2: "rm_flows m2 = rm_flows m" "rm_map m2 = rm_map m" "rm_next m2 = rm_next m" "rm_hist m2 = rm_hist m"
      "rm_template_info m2 = rm_template_info m" "s_active (rm_stats m2) = s_active (rm_stats m) - 1"
      "s_remove (rm_stats m2) = s_remove (rm_stats m) + 1" "s_add (rm_stats m2) = s_add (rm_stats m)"
      "rm_on_drain m2 = rm_on_drain m" "rm_cur_time m2 = rm_cur_time m"
    by (cases "rm_on_drain m"; simp add: m2_def on_stats_def)+
  have ft: "ft_ok D m" "ft_ok D m2" using inv m2 by (simp_all add: rx_inv_def ft_ok_def)
  note rem = ft_remove_ok [OF ft(2), of a f, unfolded m2, OF a]
  have fin: "finite (dom (rm_map m))" using ft(1) by (simp add: ft_ok_def)
  have "f_flow_id f \<in> dom (rm_map m)" using ft_ok_flow(1) [OF ft(1) a] by blast
  then have "card (dom (rm_map m)) = Suc (card (dom (rm_map m) - {f_flow_id f}))" by (rule card.remove [OF fin])
  then have "of_nat (card (dom ((rm_map m)(f_flow_id f := None)))) = (of_nat (card (dom (rm_map m))) - 1 :: u64)" by simp
  moreover have keep: "rm_stats (ft_remove k m2) = rm_stats m2" "rm_template_info (ft_remove k m2) = rm_template_info m2"
    "rm_hist (ft_remove k m2) = rm_hist m2" "rm_on_drain (ft_remove k m2) = rm_on_drain m2" "rm_cur_time (ft_remove k m2) = rm_cur_time m2" for k
    by (simp_all add: ft_remove_def split: option.splits)
  ultimately have "rx_inv (D(a := None)) (ft_remove (f_flow_id f) m2)"
    using inv rem by (simp add: rx_inv_def m2)
  then show ?thesis using e rem keep m2 by simp
qed

text \<open>The manager as the owner of the timers.\<close>

interpretation aging: wheel_client pick flow_aging_callback "\<lambda>D m. rx_inv D m \<and> rm_on_drain m = b" for pick b
proof
  fix D :: "nat \<rightharpoonup> rat" and s h d w
  assume inv: "rx_inv D s \<and> rm_on_drain s = b" and "D h = Some d"
  then obtain f where "rm_flows s h = Some f" using ft_okD(2) [OF rx_invD(1), of D s] by blast
  from on_flow_end_ok [OF _ this] inv show "\<exists>s'. flow_aging_callback h (w, s) = Some (w, s') \<and> (rx_inv (D(h := None)) s' \<and> rm_on_drain s' = b)"
    by (auto simp: flow_aging_callback_def)
qed

text \<open>A flow joins the table.\<close>

lemma rx_inv_add:
  assumes inv: "rx_inv D m" and new: "rm_map m k = None" "f_flow_id f = k"
    and m': "rm_flows m' = (rm_flows m)(rm_next m \<mapsto> f)" "rm_map m' = (rm_map m)(k \<mapsto> rm_next m)" "rm_next m' = rm_next m + 1"
      "rm_hist m' = rm_hist m" "length (rm_template_info m') = length (rm_template_info m)"
      "s_active (rm_stats m') = s_active (rm_stats m) + 1" "s_add (rm_stats m') = s_add (rm_stats m) + 1"
      "s_remove (rm_stats m') = s_remove (rm_stats m)"
  shows "rx_inv (D(rm_next m \<mapsto> t)) m'"
proof -
  note ft = rx_invD(1) [OF inv]
  have free: "rm_flows m (rm_next m) = None" using ft_okD(4) [OF ft, of "rm_next m"] by auto
  have "rm_map m' i = Some b \<longleftrightarrow> (\<exists>g. rm_flows m' b = Some g \<and> f_flow_id g = i)" for i b
    using ft_okD(1) [OF ft, of i b] new free m'(1,2) by auto
  moreover have "dom (D(rm_next m \<mapsto> t)) = dom (rm_flows m')" "finite (dom (rm_map m'))" using ft_okD(2,3) [OF ft] m'(1,2) by simp_all
  moreover have "b < rm_next m'" if "b \<in> dom (rm_flows m')" for b using that ft_okD(4) [OF ft, of b] m'(1,3) by (auto simp: domIff)
  ultimately have "ft_ok (D(rm_next m \<mapsto> t)) m'" by (rule ft_okI)
  moreover have "card (dom (rm_map m')) = card (dom (rm_map m)) + 1" using new(1) ft_okD(3) [OF ft] m'(2) by (simp add: card_insert_if domIff)
  ultimately show ?thesis using rx_invD(2-) [OF inv] m' by (simp add: rx_inv_def)
qed

lemmas rx_step_defs = fif_new_def non_fif_new_def open_flow_def ft_add_def fif_found_def non_fif_found_def on_stats_def Let_def
  inc_oo_err_def put_dir_def flow_set_both_dir_def

lemma count_out_of_order_keeps [simp]:
  "s_active (count_out_of_order c i s) = s_active s" "s_add (count_out_of_order c i s) = s_add s" "s_remove (count_out_of_order c i s) = s_remove s"
  by (simp_all add: count_out_of_order_def)

definition same_env :: "RxCheckManager \<Rightarrow> RxCheckManager \<Rightarrow> bool" where
  "same_env m m' \<longleftrightarrow> rm_on_drain m' = rm_on_drain m \<and> rm_cur_time m' = rm_cur_time m"

lemma found_ok:
  assumes inv: "rx_inv D m" and f: "rm_flows m a = Some lf" and r: "(m', e) = (if is_fif_dir h then fif_found h a lf m else non_fif_found h a lf m)"
  shows "\<exists>f'. rm_flows m' a = Some f' \<and> (\<forall>t. rx_inv (D(a \<mapsto> t)) m') \<and> same_env m m'"
proof -
  define f' where "f' = the (rm_flows m' a)"
  have f': "f_flow_id f' = f_flow_id lf" "rm_flows m' = (rm_flows m)(a \<mapsto> f')" "same_env m m'"
    "rm_map m' = rm_map m" "rm_next m' = rm_next m" "rm_hist m' = rm_hist m" "rm_template_info m' = rm_template_info m"
    "s_active (rm_stats m') = s_active (rm_stats m)" "s_add (rm_stats m') = s_add (rm_stats m)" "s_remove (rm_stats m') = s_remove (rm_stats m)"
    unfolding f'_def using r by (simp_all add: rx_step_defs same_env_def split: if_splits)
  then have "rx_inv (D(a \<mapsto> t)) m' = rx_inv (D(a \<mapsto> t)) (m\<lparr>rm_flows := (rm_flows m)(a \<mapsto> f')\<rparr>)" for t by (intro rx_inv_cong) simp_all
  then show ?thesis using rx_inv_put_flow(2) [OF inv f f'(1)] f' by simp
qed

lemma opened_ok:
  assumes inv: "rx_inv D m" and new: "rm_map m (rx_flow_id h) = None" and r: "(a, m', e) = (if is_fif_dir h then fif_new h m else non_fif_new h m)"
  shows "\<exists>f'. rm_flows m' a = Some f' \<and> (\<forall>t. rx_inv (D(a \<mapsto> t)) m') \<and> same_env m m'"
proof -
  define f' where "f' = the (rm_flows m' (rm_next m))"
  have f': "f_flow_id f' = rx_flow_id h" "rm_flows m' = (rm_flows m)(rm_next m \<mapsto> f')"
    unfolding f'_def using r by (simp_all add: rx_step_defs split: if_splits)
  have m': "a = rm_next m" "same_env m m'" "rm_map m' = (rm_map m)(rx_flow_id h \<mapsto> rm_next m)" "rm_next m' = rm_next m + 1"
      "rm_hist m' = rm_hist m" "length (rm_template_info m') = length (rm_template_info m)"
      "s_active (rm_stats m') = s_active (rm_stats m) + 1" "s_add (rm_stats m') = s_add (rm_stats m) + 1"
      "s_remove (rm_stats m') = s_remove (rm_stats m)"
    using r new by (simp_all add: rx_step_defs same_env_def split: if_splits)
  show ?thesis using rx_inv_add [OF inv new f' m'(3-)] m'(1,2) f'(2) by simp
qed

lemma check_flow_ok:
  assumes inv: "rx_inv D m"
  obtains a m' e f' where "check_flow h m = Some (a, m', e)" "rm_flows m' a = Some f'" "\<forall>t. rx_inv (D(a \<mapsto> t)) m'" "same_env m m'"
proof -
  let ?m = "on_stats (\<lambda>s. s\<lparr>s_lookup := s_lookup s + 1\<rparr>) m"
  have inv': "rx_inv D ?m" and env: "same_env m ?m" and keep: "rm_flows ?m = rm_flows m" "rm_map ?m = rm_map m"
    using inv rx_inv_cong [of ?m m D] by (simp_all add: on_stats_def same_env_def)
  show thesis
  proof (cases "rm_map m (rx_flow_id h)")
    case None
    obtain a m' e where r: "(if is_fif_dir h then fif_new h ?m else non_fif_new h ?m) = (a, m', e)" by (rule prod_cases3)
    then have "check_flow h m = Some (a, m', e)" using None by (simp only: check_flow_def ft_lookup_def Let_def option.case)
    then show thesis using opened_ok [OF inv' _ r [symmetric]] None keep env that [of a m' e] by (auto simp: same_env_def)
  next
    case (Some a)
    obtain lf where lf: "rm_flows ?m a = Some lf" using ft_okD(1) [OF rx_invD(1) [OF inv]] Some keep by auto
    obtain m' e where r: "(if is_fif_dir h then fif_found h a lf ?m else non_fif_found h a lf ?m) = (m', e)" by (rule prod.exhaust)
    then have "check_flow h m = Some (a, m', e)" using Some lf by (simp only: check_flow_def ft_lookup_def Let_def option.case)
    then show thesis using found_ok [OF inv' lf r [symmetric]] env that [of a m' e] by (auto simp: same_env_def)
  qed
qed

lemma on_template_ok [simp]:
  "rx_inv D (on_template i f m) = rx_inv D m" "same_env m (on_template i f m)" "rm_flows (on_template i f m) = rm_flows m"
  "rm_map (on_template i f m) = rm_map m" "rm_stats (on_template i f m) = rm_stats m"
  by (rule rx_inv_cong) (simp_all add: on_template_def Let_def same_env_def)

lemma update_template_err_ok [simp]:
  "rx_inv D (update_template_err i m) = rx_inv D m" "same_env m (update_template_err i m)" "rm_flows (update_template_err i m) = rm_flows m"
  "rm_map (update_template_err i m) = rm_map m" "rm_stats (update_template_err i m) = rm_stats m"
  by (simp_all add: update_template_err_def)

lemma count_latency_ok:
  assumes "rx_inv D m"
  shows "\<exists>m'. count_latency tick h m = Some m' \<and> rx_inv D m' \<and> same_env m m' \<and> rm_flows m' = rm_flows m \<and> rm_map m' = rm_map m \<and>
    rm_stats m' = rm_stats m"
proof -
  let ?dt = "ptime_convert_hr_dsec (ucast (tick - rx_time_stamp h))"
  define n where "n = unat (tick - rx_time_stamp h)"
  have n: "n < 2 ^ 32" using unsigned_less [of "tick - rx_time_stamp h"] by (simp add: n_def)
  then have "of_nat n < (2 ^ 32 :: rat)" by (metis of_nat_less_iff of_nat_numeral of_nat_power)
  moreover have "unat (ucast (tick - rx_time_stamp h) :: u64) = n" using n by (simp add: n_def unsigned_ucast_eq take_bit_nat_eq_self)
  ultimately have dt: "0 \<le> ?dt" "?dt * 100000 < 2 ^ 32" by (simp_all add: ptime_convert_hr_dsec_def os_get_hr_freq_def)
  obtain xs where "counts xs (rm_hist m)" using rx_invD(5) [OF assms] by blast
  from counts_Add [OF this dt] obtain b hist where r: "hist_Add ?dt (rm_hist m) = Some (b, hist)" "counts (xs @ [?dt]) hist" by blast
  then have "rx_inv D (m\<lparr>rm_hist := hist\<rparr>)" using assms by (auto simp: rx_inv_def ft_ok_def)
  then show ?thesis using r by (simp add: count_latency_def Let_def same_env_def on_template_def rx_inv_def ft_ok_def)
qed

lemma rx_inv_now [simp]: "rx_inv D (m\<lparr>rm_cur_time := t\<rparr>) = rx_inv D m" "rx_inv D (m\<lparr>rm_on_drain := b\<rparr>) = rx_inv D m"
  by (rule rx_inv_cong; simp)+

lemma close_flow_ok:
  assumes w: "tw_ok w" "deadline w = D" and inv: "rx_inv D m" and f: "rm_flows m a = Some f"
  shows "\<exists>w' m'. close_flow a (w, m) = Some (w', m') \<and> tw_ok w' \<and> rx_inv (deadline w') m' \<and> same_env m m'"
proof (cases "is_all_pkts_seen f")
  case True
  let ?m = "m\<lparr>rm_flows := (rm_flows m)(a \<mapsto> set_aged_correctly f)\<rparr>"
  have "rx_inv D ?m" by (rule rx_inv_put_flow(1) [OF inv f]) (simp add: set_aged_correctly_def)
  from on_flow_end_ok [OF this, of a "set_aged_correctly f"] obtain m' where m': "on_flow_end a ?m = Some m'" "rx_inv (D(a := None)) m'" "same_env m m'"
    using fun_upd_same by (fastforce simp: same_env_def)
  moreover obtain w' where "stop_timer a w = Some w'" "tw_ok w'" "deadline w' = D(a := None)" using stop_timer_ok [OF w(1), of a] w(2) by auto
  ultimately show ?thesis using f True by (simp add: close_flow_def)
next
  case False
  then show ?thesis using assms by (simp add: close_flow_def same_env_def)
qed

definition wm_inv :: "CTimerWheel \<times> RxCheckManager \<Rightarrow> bool" where
  "wm_inv wm \<longleftrightarrow> tw_ok (fst wm) \<and> rx_inv (deadline (fst wm)) (snd wm)"

lemma handle_packet_good:
  assumes "rx_magic h = RX_CHECK_MAGIC" and "\<not> uint (rx_pkt_id h) + 1 > uint (rx_flow_size h)"
    and "count_latency tick h ((on_stats (\<lambda>s. s\<lparr>s_total_rx := s_total_rx s + 1\<rparr>) m0)\<lparr>rm_cur_time := now\<rparr>) = Some m1"
    and "check_flow h m1 = Some (a, m2, e)" and "(if e then update_template_err (rx_template_id h) m2 else m2) = m3"
    and "restart_timer a (rm_cur_time m3 + of_nat (unat (max (rx_aging_sec h) 5))) w = Some w1" and "close_flow a (w1, m3) = Some (w2, m4)"
  shows "handle_packet pick now tick h (w, m0) = (if s_lookup (rm_stats m4) AND 0xff = 0 then tw_handle pick (w2, m4) else Some (w2, m4))"
  unfolding handle_packet_def Let_def prod.case assms(3) option.case assms(4) assms(5-7) using assms(1,2) by simp

lemma handle_packet_ok:
  assumes inv: "wm_inv wm" and now: "0 \<le> now"
  shows "\<exists>wm'. handle_packet pick now tick h wm = Some wm' \<and> wm_inv wm'"
proof -
  obtain w m0 where wm: "wm = (w, m0)" by fastforce
  let ?m = "on_stats (\<lambda>s. s\<lparr>s_total_rx := s_total_rx s + 1\<rparr>) m0"
  have w: "tw_ok w" and m: "rx_inv (deadline w) ?m"
    and bad: "wm_inv (w, update_template_err (rx_template_id h) (on_stats (\<lambda>s. s\<lparr>s_err_no_magic := s_err_no_magic s + 1\<rparr>) ?m))"
      "wm_inv (w, update_template_err (rx_template_id h) (on_stats (\<lambda>s. s\<lparr>s_err_wrong_pkt_id := s_err_wrong_pkt_id s + 1\<rparr>) ?m))"
    using inv by (simp_all add: wm wm_inv_def) (simp_all add: on_stats_def rx_inv_def ft_ok_def)
  from m have "rx_inv (deadline w) (?m\<lparr>rm_cur_time := now\<rparr>)" by simp
  from count_latency_ok [OF this, of tick h] obtain m1 where m1: "count_latency tick h (?m\<lparr>rm_cur_time := now\<rparr>) = Some m1"
    "rx_inv (deadline w) m1" "same_env (?m\<lparr>rm_cur_time := now\<rparr>) m1" by blast
  obtain a m2 e f where m2: "check_flow h m1 = Some (a, m2, e)" "rm_flows m2 a = Some f" "\<forall>t. rx_inv ((deadline w)(a \<mapsto> t)) m2" "same_env m1 m2"
    by (rule check_flow_ok [OF m1(2), of h])
  define m3 where "m3 = (if e then update_template_err (rx_template_id h) m2 else m2)"
  define t where "t = rm_cur_time m3 + of_nat (unat (max (rx_aging_sec h) 5))"
  have m3: "rm_flows m3 a = Some f" "\<And>t. rx_inv ((deadline w)(a \<mapsto> t)) m3" using m2 by (simp_all add: m3_def)
  have "same_env m2 m3" by (simp add: m3_def same_env_def update_template_err_def on_template_def Let_def)
  then have "0 \<le> t" using now m1(3) m2(4) by (simp add: t_def same_env_def del: of_nat_unat)
  from restart_timer_ok [OF w this, of a] obtain w1 where w1: "restart_timer a t w = Some w1" "tw_ok w1" "deadline w1 = (deadline w)(a \<mapsto> t)" by blast
  obtain w2 m4 where c: "close_flow a (w1, m3) = Some (w2, m4)" "tw_ok w2" "rx_inv (deadline w2) m4"
    using close_flow_ok [OF w1(2,3) m3(2,1)] by blast
  obtain w3 m5 where "tw_handle pick (w2, m4) = Some (w3, m5)" "tw_ok w3" "rx_inv (deadline w3) m5"
    using aging.try_handle_events_ok [OF c(2), of m4 "rm_on_drain m4"] c(3) unfolding tw_handle_def by fastforce
  then have "\<exists>wm'. (if s_lookup (rm_stats m4) AND 0xff = 0 then tw_handle pick (w2, m4) else Some (w2, m4)) = Some wm' \<and> wm_inv wm'"
    using c(2,3) by (simp add: wm_inv_def)
  then have "\<exists>wm'. handle_packet pick now tick h wm = Some wm' \<and> wm_inv wm'"
    if "rx_magic h = RX_CHECK_MAGIC" "\<not> uint (rx_pkt_id h) + 1 > uint (rx_flow_size h)"
    using handle_packet_good [OF that m1(1) m2(1) m3_def [symmetric] w1(1) [unfolded t_def] c(1)] by (simp add: wm)
  then show ?thesis using bad by (cases "rx_magic h = RX_CHECK_MAGIC"; cases "uint (rx_pkt_id h) + 1 > uint (rx_flow_size h)")
      (simp_all add: handle_packet_def wm Let_def)
qed

lemma tw_drain_ok:
  assumes "wm_inv wm"
  shows "\<exists>w m. tw_drain pick wm = Some (w, m) \<and> wm_inv (w, m) \<and> deadline w = Map.empty \<and> rm_map m = Map.empty"
proof -
  obtain w m where wm: "wm = (w, m)" "tw_ok w" "rx_inv (deadline w) m" using assms by (cases wm) (simp add: wm_inv_def)
  then obtain w' m' where r: "drain_all pick flow_aging_callback (w, m\<lparr>rm_on_drain := True\<rparr>) = Some (w', m')" "tw_ok w'"
    "rx_inv Map.empty m'" "deadline w' = Map.empty"
    using aging.drain_all_ok [OF wm(2), of "m\<lparr>rm_on_drain := True\<rparr>" True] by fastforce
  have "rm_map m' k = None" for k using ft_okD(1) [OF rx_invD(1) [OF r(3)], of k] ft_okD(2) [OF rx_invD(1) [OF r(3)]] by (cases "rm_map m' k") auto
  then show ?thesis using r by (auto simp: tw_drain_def wm(1) wm_inv_def)
qed

section \<open>Any traffic\<close>

datatype rx_event = RxPacket rat u32 CRx_check_header | RxDrain

fun rx_exec :: "(nat list \<Rightarrow> nat) \<Rightarrow> rx_event \<Rightarrow> CTimerWheel \<times> RxCheckManager \<Rightarrow> (CTimerWheel \<times> RxCheckManager) option" where
  "rx_exec pick (RxPacket now tick h) wm = handle_packet pick now tick h wm"
| "rx_exec pick RxDrain wm = tw_drain pick wm"

fun rx_run :: "(nat list \<Rightarrow> nat) \<Rightarrow> rx_event list \<Rightarrow> CTimerWheel \<times> RxCheckManager \<Rightarrow> (CTimerWheel \<times> RxCheckManager) option" where
  "rx_run pick [] wm = Some wm"
| "rx_run pick (e # es) wm = (case rx_exec pick e wm of None \<Rightarrow> None | Some wm' \<Rightarrow> rx_run pick es wm')"

lemma rx_run_append: "rx_run pick (es @ es') wm = (case rx_run pick es wm of None \<Rightarrow> None | Some wm' \<Rightarrow> rx_run pick es' wm')"
  by (induction es arbitrary: wm) (simp_all split: option.split)

fun rx_legal :: "rx_event \<Rightarrow> bool" where
  "rx_legal (RxPacket now tick h) \<longleftrightarrow> 0 \<le> now"
| "rx_legal RxDrain \<longleftrightarrow> True"

text \<open>A manager as it is constructed: the tables are empty.\<close>

definition fresh_manager :: "RxCheckManager \<Rightarrow> bool" where
  "fresh_manager m \<longleftrightarrow> rm_flows m = Map.empty \<and> rm_map m = Map.empty"

lemma wm_inv_Create: "fresh_manager m \<Longrightarrow> wm_inv (CTimerWheel_new, rx_Create m)"
  using new_wheel_ok counts_Create by (auto simp: wm_inv_def rx_inv_def ft_ok_def rx_Create_def fresh_manager_def stats_Clear_def)

lemma rx_exec_ok: "wm_inv wm \<Longrightarrow> rx_legal e \<Longrightarrow> \<exists>wm'. rx_exec pick e wm = Some wm' \<and> wm_inv wm'"
  using handle_packet_ok tw_drain_ok [of wm pick] by (cases e) auto

lemma rx_run_ok:
  assumes "wm_inv wm" and "list_all rx_legal es"
  shows "\<exists>wm'. rx_run pick es wm = Some wm' \<and> wm_inv wm'"
  using assms
proof (induction es arbitrary: wm)
  case (Cons e es)
  obtain wm1 where "rx_exec pick e wm = Some wm1" "wm_inv wm1" using rx_exec_ok [OF Cons.prems(1), of e pick] Cons.prems(2) by auto
  then show ?case using Cons.IH [of wm1] Cons.prems(2) by simp
qed simp

definition demo_manager :: RxCheckManager where
  "demo_manager = \<lparr>rm_flows = Map.empty, rm_next = 0, rm_map = Map.empty, rm_stats = stats_Clear, rm_hist = demo_hist,
     rm_template_info = [], rm_on_drain = False, rm_cur_time = 0\<rparr>"

definition demo_header :: "u64 \<Rightarrow> u16 \<Rightarrow> u16 \<Rightarrow> u8 \<Rightarrow> CRx_check_header" where
  "demo_header k i n flags = \<lparr>rx_option_type = 0, rx_option_len = 0, rx_magic = RX_CHECK_MAGIC, rx_time_stamp = 0, rx_flow_id = k,
     rx_pkt_id = i, rx_flow_size = n, rx_flags = flags, rx_template_id = 0, rx_aging_sec = 10\<rparr>"

text \<open>
  C15. The receive check survives any traffic: from a new manager, any packets, in any order and with any header, and drains at
  any time lead to a result; no freed flow is touched, every flow in the table has exactly one object, which has its id and a
  running timer, and there are no others, and the counters agree: the active flows are those in the table, and every flow that
  was opened is active or was closed.
\<close>

theorem rx_check_safe:
  assumes "fresh_manager m0" and "list_all rx_legal es"
  shows "\<exists>w m. rx_run pick es (CTimerWheel_new, rx_Create m0) = Some (w, m) \<and>
    (\<forall>k a. rm_map m k = Some a \<longleftrightarrow> (\<exists>f. rm_flows m a = Some f \<and> f_flow_id f = k)) \<and> dom (deadline w) = dom (rm_flows m) \<and>
    s_active (rm_stats m) = of_nat (card (dom (rm_map m))) \<and> s_add (rm_stats m) = s_remove (rm_stats m) + s_active (rm_stats m)"
proof -
  obtain wm where "rx_run pick es (CTimerWheel_new, rx_Create m0) = Some wm" "wm_inv wm"
    using rx_run_ok [OF wm_inv_Create [OF assms(1)] assms(2)] by blast
  then show ?thesis by (cases wm) (auto simp: wm_inv_def rx_inv_def ft_ok_def)
qed

theorem rx_check_safe_witness:
  "\<exists>w m. rx_run hd [RxPacket 1 0 (demo_header 7 1 3 0), RxPacket 2 0 (demo_header 8 0 1 0), RxDrain] (CTimerWheel_new, rx_Create demo_manager) = Some (w, m) \<and>
    dom (deadline w) = dom (rm_flows m) \<and> s_add (rm_stats m) = s_remove (rm_stats m) + s_active (rm_stats m)"
proof -
  have "list_all rx_legal [RxPacket 1 0 (demo_header 7 1 3 0), RxPacket 2 0 (demo_header 8 0 1 0), RxDrain]" by simp
  moreover have "fresh_manager demo_manager" by (simp add: fresh_manager_def demo_manager_def)
  ultimately show ?thesis using rx_check_safe [of demo_manager _ hd] by blast
qed

end
