(* ===== verification/Rx_Check_Clean.thy ===== *)
theory Rx_Check_Clean
  imports Rx_Check
begin

text \<open>
  The receive check raises no false alarm: traffic in which every flow arrives complete and in order, interleaved with
  the others in any way, leaves every error counter at zero and the table empty.
\<close>

section \<open>Clean traffic\<close>

definition along :: "u64 \<Rightarrow> nat \<Rightarrow> CRx_check_header list \<Rightarrow> CRx_check_header list" where
  "along k d hs = filter (\<lambda>h. rx_flow_id h = k \<and> get_dir h = d) hs"

definition clean_trace :: "CRx_check_header list \<Rightarrow> bool" where
  "clean_trace hs \<longleftrightarrow> (\<forall>h\<in>set hs. rx_magic h = RX_CHECK_MAGIC \<and>
     (let sub = along (rx_flow_id h) (get_dir h) hs in map (\<lambda>g. unat (rx_pkt_id g)) sub = [0..<length sub] \<and> unat (rx_flow_size h) = length sub) \<and>
     (get_both_dir h \<longleftrightarrow> along (rx_flow_id h) (1 - get_dir h) hs \<noteq> []))"

lemma get_dir_cases: "get_dir h = 0 \<or> get_dir h = 1"
  by (simp add: get_dir_def)

lemma along_append [simp]: "along k d (xs @ ys) = along k d xs @ along k d ys"
  by (simp add: along_def)

lemma along_Cons: "along k d (h # hs) = (if rx_flow_id h = k \<and> get_dir h = d then h # along k d hs else along k d hs)"
  by (simp add: along_def)

lemma along_Nil [simp]: "along k d [] = []"
  by (simp add: along_def)

text \<open>The next packet of a clean trace.\<close>

lemma clean_next:
  assumes "clean_trace hs" and hs: "hs = ps @ h # qs"
  shows "rx_magic h = RX_CHECK_MAGIC" and "unat (rx_pkt_id h) = length (along (rx_flow_id h) (get_dir h) ps)"
    and "unat (rx_flow_size h) = length (along (rx_flow_id h) (get_dir h) hs)"
    and "get_both_dir h \<longleftrightarrow> (\<forall>d\<in>{0, 1}. along (rx_flow_id h) d hs \<noteq> [])"
    and "length (along (rx_flow_id h) (get_dir h) ps) < length (along (rx_flow_id h) (get_dir h) hs)"
proof -
  let ?sub = "along (rx_flow_id h) (get_dir h)"
  have c: "rx_magic h = RX_CHECK_MAGIC" "map (\<lambda>g. unat (rx_pkt_id g)) (?sub hs) = [0..<length (?sub hs)]" "unat (rx_flow_size h) = length (?sub hs)"
    "get_both_dir h \<longleftrightarrow> along (rx_flow_id h) (1 - get_dir h) hs \<noteq> []"
    using assms unfolding clean_trace_def Let_def by auto
  have sub: "?sub hs = ?sub ps @ h # ?sub qs" by (simp add: hs along_Cons)
  then have "map (\<lambda>g. unat (rx_pkt_id g)) (?sub hs) ! length (?sub ps) = [0..<length (?sub hs)] ! length (?sub ps)" using c(2) by simp
  then show "unat (rx_pkt_id h) = length (?sub ps)" using sub by (simp add: nth_append)
  show "length (?sub ps) < length (?sub hs)" using sub by simp
  show "rx_magic h = RX_CHECK_MAGIC" "unat (rx_flow_size h) = length (?sub hs)" by fact+
  show "get_both_dir h \<longleftrightarrow> (\<forall>d\<in>{0, 1}. along (rx_flow_id h) d hs \<noteq> [])" using c(4) sub get_dir_cases [of h] by fastforce
qed

section \<open>How far a flow is\<close>

definition dir_ok :: "nat \<Rightarrow> nat \<Rightarrow> CRxCheckFlowPerDir \<Rightarrow> bool" where
  "dir_ok n i d \<longleftrightarrow> (if i = 0 then d = CRxCheckFlowPerDir_new
     else d_flow_size d = of_nat n \<and> d_pkts d = of_nat i \<and> d_seq d = of_nat i \<and> is_fif_seen d)"

definition progress :: "CRx_check_header list \<Rightarrow> CRx_check_header list \<Rightarrow> u64 \<Rightarrow> CRxCheckFlow \<Rightarrow> bool" where
  "progress hs ps k f \<longleftrightarrow> f_oo_err f = 0 \<and> (is_both_dir f \<longleftrightarrow> (\<forall>d\<in>{0, 1}. along k d hs \<noteq> [])) \<and>
     (\<forall>d\<in>{0, 1}. dir_ok (length (along k d hs)) (length (along k d ps)) (f_dir f d))"

definition finished :: "CRx_check_header list \<Rightarrow> CRx_check_header list \<Rightarrow> u64 \<Rightarrow> bool" where
  "finished hs ps k \<longleftrightarrow> (\<forall>d\<in>{0, 1}. length (along k d ps) = length (along k d hs))"

definition started :: "CRx_check_header list \<Rightarrow> u64 \<Rightarrow> bool" where
  "started ps k \<longleftrightarrow> k \<in> rx_flow_id ` set ps"

lemma started_along: "started ps k \<longleftrightarrow> along k 0 ps \<noteq> [] \<or> along k 1 ps \<noteq> []"
  using get_dir_cases by (auto simp: started_def along_def filter_empty_conv image_iff)

definition error_counters :: "CRxCheckFlowTableStats \<Rightarrow> u64 list" where
  "error_counters s = [s_err_drop s, s_err_aged s, s_err_no_magic s, s_err_wrong_pkt_id s, s_err_fif_seen_twice s,
     s_err_open_with_no_fif_pkt s, s_err_oo_dup s, s_err_oo_early s, s_err_oo_late s, s_err_flow_length_changed s]"

definition quiet :: "RxCheckManager \<Rightarrow> bool" where
  "quiet m \<longleftrightarrow> list_all (\<lambda>c. c = 0) (error_counters (rm_stats m)) \<and> list_all (\<lambda>t. ti_errors t = 0) (rm_template_info m)"

text \<open>A direction that has just seen a packet.\<close>

lemma flag_set [simp]: "(x OR y) AND y = (y :: u16)"
  by (rule bit_eqI) (auto simp: bit_simps)

lemma dir_ok_first: "dir_ok n (Suc 0) (set_fif_seen (of_nat n) d)"
  by (simp add: dir_ok_def set_fif_seen_def is_fif_seen_def)

lemma dir_ok_next:
  assumes "dir_ok n i d" and "0 < i"
  shows "dir_ok n (Suc i) (d\<lparr>d_seq := of_nat i + 1, d_pkts := d_pkts d + 1\<rparr>)" and "d_seq d = of_nat i" and "d_flow_size d = of_nat n" and "is_fif_seen d"
  using assms by (simp_all add: dir_ok_def is_fif_seen_def)

lemma dir_ok_new: "dir_ok n 0 d \<longleftrightarrow> d = CRxCheckFlowPerDir_new" "\<not> is_fif_seen CRxCheckFlowPerDir_new"
  by (simp_all add: dir_ok_def CRxCheckFlowPerDir_new_def is_fif_seen_def)

text \<open>All packets were seen exactly when both directions are at their ends.\<close>

lemma dir_ok_word:
  assumes "dir_ok n i d" and "i \<le> n" and "n < 2 ^ 16"
  shows "d_pkts d = d_flow_size d \<longleftrightarrow> i = 0 \<or> i = n" and "d_flow_size d > 0 \<longleftrightarrow> i > 0"
proof -
  have "(of_nat i :: u16) = of_nat n \<longleftrightarrow> i = n" "(of_nat n :: u16) > 0 \<longleftrightarrow> n > 0"
    using assms(2,3) by (auto simp: word_of_nat_eq_iff word_greater_zero_iff take_bit_nat_eq_self word_of_nat_eq_0_iff dest: nat_dvd_not_less intro: gr0I)
  then show "d_pkts d = d_flow_size d \<longleftrightarrow> i = 0 \<or> i = n" "d_flow_size d > 0 \<longleftrightarrow> i > 0"
    using assms by (cases "i = 0"; simp add: dir_ok_def CRxCheckFlowPerDir_new_def)+
qed

lemma all_seen_iff:
  assumes p: "progress hs ps k f" and "started ps k" and "\<And>d. length (along k d ps) \<le> length (along k d hs)" and "\<And>d. length (along k d hs) < 2 ^ 16"
  shows "is_all_pkts_seen f \<longleftrightarrow> finished hs ps k" and "finished hs ps k \<Longrightarrow> \<forall>d\<in>{0, 1}. d_pkts (f_dir f d) = d_flow_size (f_dir f d)"
proof -
  let ?i = "\<lambda>d. length (along k d ps)" and ?n = "\<lambda>d. length (along k d hs)"
  have w: "d_pkts (f_dir f d) = d_flow_size (f_dir f d) \<longleftrightarrow> ?i d = 0 \<or> ?i d = ?n d" "d_flow_size (f_dir f d) > 0 \<longleftrightarrow> ?i d > 0" if "d \<in> {0, 1}" for d
    using dir_ok_word [OF _ assms(3,4), where d = "f_dir f d"] p that unfolding progress_def by blast+
  have both: "is_both_dir f \<longleftrightarrow> ?n 0 > 0 \<and> ?n 1 > 0" and oo: "f_oo_err f = 0" using p by (simp_all add: progress_def)
  have le: "?i 0 \<le> ?n 0" "?i 1 \<le> ?n 1" using assms(3) by blast+
  have st: "?i 0 > 0 \<or> ?i 1 > 0" using assms(2) by (simp add: started_along)
  show "is_all_pkts_seen f \<longleftrightarrow> finished hs ps k"
    unfolding is_all_pkts_seen_def Let_def finished_def using w [of 0] w [of 1] both oo le st by auto
  show "\<forall>d\<in>{0, 1}. d_pkts (f_dir f d) = d_flow_size (f_dir f d)" if "finished hs ps k" using that w by (auto simp: finished_def)
qed

section \<open>The state after a part of the trace\<close>

definition table_clean :: "CRx_check_header list \<Rightarrow> CRx_check_header list \<Rightarrow> RxCheckManager \<Rightarrow> bool" where
  "table_clean hs ps m \<longleftrightarrow> (\<forall>k. case rm_map m k of
       None \<Rightarrow> \<not> started ps k \<or> finished hs ps k
     | Some a \<Rightarrow> started ps k \<and> \<not> finished hs ps k \<and> (\<exists>f. rm_flows m a = Some f \<and> progress hs ps k f))"

definition counts_clean :: "CRx_check_header list \<Rightarrow> RxCheckManager \<Rightarrow> bool" where
  "counts_clean ps m \<longleftrightarrow> quiet m \<and> \<not> rm_on_drain m \<and> s_add (rm_stats m) = of_nat (card (rx_flow_id ` set ps))"

lemma clean_bound:
  assumes "clean_trace hs"
  shows "length (along k d hs) < 2 ^ 16"
proof (cases "along k d hs")
  case (Cons h t)
  then have "h \<in> set (along k d hs)" by simp
  then have h: "h \<in> set hs" "rx_flow_id h = k" "get_dir h = d" by (simp_all add: along_def)
  then have "unat (rx_flow_size h) = length (along k d hs)" using assms unfolding clean_trace_def Let_def by blast
  then show ?thesis using unat_less [of "rx_flow_size h"] by simp
qed simp

lemma progress_other: "rx_flow_id h \<noteq> k \<Longrightarrow> progress hs (ps @ [h]) k f = progress hs ps k f"
  "rx_flow_id h \<noteq> k \<Longrightarrow> finished hs (ps @ [h]) k = finished hs ps k" "started (ps @ [h]) k \<longleftrightarrow> started ps k \<or> k = rx_flow_id h"
  by (auto simp: progress_def finished_def started_def along_Cons)

text \<open>The flow of the next packet.\<close>

lemma progress_step:
  assumes p: "progress hs ps k f" and k: "k = rx_flow_id h" and f': "f_oo_err f' = f_oo_err f" "is_both_dir f' = is_both_dir f" "f_dir f' = (f_dir f)(get_dir h := d')"
    and d': "dir_ok (length (along k (get_dir h) hs)) (Suc (length (along k (get_dir h) ps))) d'"
  shows "progress hs (ps @ [h]) k f'"
proof -
  have "dir_ok (length (along k d hs)) (length (along k d (ps @ [h]))) (f_dir f' d)" if "d \<in> {0, 1}" for d
    using that p d' unfolding progress_def by (cases "d = get_dir h") (auto simp: f' k along_Cons)
  then show ?thesis using p f' by (simp add: progress_def)
qed

lemma progress_new:
  assumes c: "clean_trace hs" "hs = ps @ h # qs" and new: "\<not> started ps (rx_flow_id h)"
  shows "progress hs (ps @ [h]) (rx_flow_id h) (put_dir (get_dir h) (set_fif_seen (rx_flow_size h) CRxCheckFlowPerDir_new)
    ((if get_both_dir h then flow_set_both_dir else id) (CRxCheckFlow_new\<lparr>f_flow_id := rx_flow_id h\<rparr>)))"
proof -
  let ?f = "(if get_both_dir h then flow_set_both_dir else id) (CRxCheckFlow_new\<lparr>f_flow_id := rx_flow_id h\<rparr>)"
  note nx = clean_next [OF c]
  have none: "along (rx_flow_id h) d ps = []" for d using new unfolding started_def along_def filter_empty_conv by (metis image_eqI)
  have size: "rx_flow_size h = of_nat (length (along (rx_flow_id h) (get_dir h) hs))" by (simp flip: nx(3))
  have "is_both_dir ?f \<longleftrightarrow> get_both_dir h" by (simp add: is_both_dir_def flow_set_both_dir_def CRxCheckFlow_new_def)
  then have "progress hs ps (rx_flow_id h) ?f"
    using nx(4) none by (simp add: progress_def dir_ok_new CRxCheckFlow_new_def flow_set_both_dir_def)
  then show ?thesis
    by (rule progress_step [where d' = "set_fif_seen (rx_flow_size h) CRxCheckFlowPerDir_new"])
      (simp_all add: put_dir_def is_both_dir_def none size dir_ok_first)
qed

text \<open>What a packet does to the table.\<close>

lemma f_dir_both [simp]: "f_dir (flow_set_both_dir f) = f_dir f"
  by (simp add: flow_set_both_dir_def)

lemma check_flow_clean:
  assumes c: "clean_trace hs" "hs = ps @ h # qs" and t: "table_clean hs ps m"
  shows "\<exists>a f m'. check_flow h m = Some (a, m', False) \<and> rm_flows m' = (rm_flows m)(a \<mapsto> f) \<and> rm_map m' = (rm_map m)(rx_flow_id h \<mapsto> a) \<and>
    progress hs (ps @ [h]) (rx_flow_id h) f \<and> error_counters (rm_stats m') = error_counters (rm_stats m) \<and>
    rm_template_info m' = rm_template_info m \<and> s_add (rm_stats m') = s_add (rm_stats m) + (if started ps (rx_flow_id h) then 0 else 1)"
proof -
  let ?k = "rx_flow_id h"
  let ?i = "length (along ?k (get_dir h) ps)" and ?n = "length (along ?k (get_dir h) hs)"
  note nx = clean_next [OF c]
  have size: "rx_flow_size h = of_nat ?n" and id: "rx_pkt_id h = of_nat ?i" by (simp_all flip: nx(2,3))
  have first: "is_fif_dir h \<longleftrightarrow> ?i = 0" unfolding is_fif_dir_def nx(2) [symmetric] by (simp add: unat_eq_0)
  have open_end: "\<not> finished hs ps ?k" using nx(5) get_dir_cases [of h] by (auto simp: finished_def)
  show ?thesis
  proof (cases "rm_map m ?k")
    case None
    then have new: "\<not> started ps ?k" using t open_end unfolding table_clean_def by (auto split: option.splits dest: spec [of _ ?k])
    then have "?i = 0" using get_dir_cases [of h] by (auto simp: started_along)
    then show ?thesis using progress_new [OF c new] None first new
      by (auto simp: check_flow_def ft_lookup_def rx_step_defs(1,3,4,7,8) error_counters_def CRxCheckFlow_new_def)
  next
    case (Some a)
    obtain f where f: "rm_flows m a = Some f" "progress hs ps ?k f" and st: "started ps ?k"
      using t [unfolded table_clean_def, rule_format, of ?k] Some by auto
    have upd: "(rm_map m)(?k \<mapsto> a) = rm_map m" using Some by (rule fun_upd_idem)
    let ?d = "f_dir f (get_dir h)"
    have d: "dir_ok ?n ?i ?d" using f(2) get_dir_cases [of h] by (auto simp: progress_def)
    show ?thesis
    proof (cases "?i = 0")
      case True
      have "progress hs (ps @ [h]) ?k (put_dir (get_dir h) (set_fif_seen (rx_flow_size h) ?d) f)"
        by (rule progress_step [OF f(2) refl]) (use True dir_ok_first [of ?n ?d] in \<open>simp_all add: put_dir_def is_both_dir_def size\<close>)
      moreover have "\<not> is_fif_seen ?d" using d True dir_ok_new by simp
      ultimately show ?thesis using True Some f st first upd
        by (auto simp: check_flow_def ft_lookup_def fif_found_def on_stats_def Let_def error_counters_def)
    next
      case False
      then have d': "dir_ok ?n (Suc ?i) (?d\<lparr>d_seq := rx_pkt_id h + 1, d_pkts := d_pkts ?d + 1\<rparr>)"
        "d_seq ?d = rx_pkt_id h" "d_flow_size ?d = rx_flow_size h" "is_fif_seen ?d" using dir_ok_next [OF d] by (simp_all add: id size)
      have "progress hs (ps @ [h]) ?k (put_dir (get_dir h) (?d\<lparr>d_seq := rx_pkt_id h + 1, d_pkts := d_pkts ?d + 1\<rparr>) f)"
        by (rule progress_step [OF f(2) refl]) (use d'(1) in \<open>simp_all add: put_dir_def is_both_dir_def\<close>)
      then show ?thesis using False Some f st first d'(2-) upd
        by (auto simp: check_flow_def ft_lookup_def non_fif_found_def on_stats_def Let_def error_counters_def)
    qed
  qed
qed

text \<open>A flow whose packets were all seen leaves without an error.\<close>

lemma on_flow_end_clean:
  assumes "on_flow_end a m = Some m'" and "rm_flows m a = Some f" and "is_aged_correctly f"
    and "\<forall>d\<in>{0, 1}. d_pkts (f_dir f d) = d_flow_size (f_dir f d)"
  shows "error_counters (rm_stats m') = error_counters (rm_stats m)" and "rm_template_info m' = rm_template_info m"
    and "s_add (rm_stats m') = s_add (rm_stats m)"
  using assms by (auto simp: on_flow_end_def ft_remove_def on_stats_def error_counters_def Let_def get_total_pkt_expected_def get_total_pkt_seen_def
      split: option.splits)

lemma table_clean_step:
  assumes t: "table_clean hs ps m"
    and m': "\<forall>k. k \<noteq> rx_flow_id h \<longrightarrow> rm_map m' k = rm_map m k" "\<forall>b. b \<noteq> a \<longrightarrow> rm_flows m' b = rm_flows m b"
    and a: "\<forall>k. k \<noteq> rx_flow_id h \<longrightarrow> rm_map m k \<noteq> Some a"
    and k: "finished hs (ps @ [h]) (rx_flow_id h) \<Longrightarrow> rm_map m' (rx_flow_id h) = None"
      "\<not> finished hs (ps @ [h]) (rx_flow_id h) \<Longrightarrow> rm_map m' (rx_flow_id h) = Some a \<and> (\<exists>f. rm_flows m' a = Some f \<and> progress hs (ps @ [h]) (rx_flow_id h) f)"
  shows "table_clean hs (ps @ [h]) m'"
  unfolding table_clean_def
proof
  fix k
  show "case rm_map m' k of None \<Rightarrow> \<not> started (ps @ [h]) k \<or> finished hs (ps @ [h]) k
     | Some a \<Rightarrow> started (ps @ [h]) k \<and> \<not> finished hs (ps @ [h]) k \<and> (\<exists>f. rm_flows m' a = Some f \<and> progress hs (ps @ [h]) k f)"
  proof (cases "k = rx_flow_id h")
    case True
    then show ?thesis using k by (cases "finished hs (ps @ [h]) k") (auto simp: progress_other(3))
  next
    case False
    then have "rm_flows m' b = rm_flows m b" if "rm_map m k = Some b" for b using a m'(2) that by metis
    then show ?thesis using t [unfolded table_clean_def, rule_format, of k] m'(1) False progress_other(1,2) [where h = h and k = k] progress_other(3) [of ps h k]
      by (auto split: option.splits)
  qed
qed

lemma list_all_update: "list_all P xs \<Longrightarrow> (i < length xs \<Longrightarrow> P y) \<Longrightarrow> list_all P (xs[i := y])"
  by (cases "i < length xs") (auto simp: list_all_length nth_list_update)

lemma on_template_clean:
  assumes q: "quiet m" and g: "\<And>t. ti_errors (g t) = ti_errors t"
  shows "quiet (on_template i g m)"
proof -
  have "list_all (\<lambda>t. ti_errors t = 0) ((rm_template_info m)[template_index i := g (rm_template_info m ! template_index i)])"
    by (rule list_all_update) (use q in \<open>auto simp: g quiet_def list_all_length\<close>)
  then show ?thesis using q by (simp add: quiet_def on_template_def Let_def)
qed

lemma count_latency_clean:
  assumes r: "count_latency tick h m = Some m'" and q: "quiet m"
  shows "quiet m'"
proof -
  have "quiet (m\<lparr>rm_hist := hist\<rparr>)" for hist using q by (simp add: quiet_def)
  then show ?thesis using r unfolding count_latency_def Let_def by (auto intro: on_template_clean)
qed

lemma close_flow_clean:
  assumes c: "clean_trace hs" and w: "tw_ok w" "deadline w = D" and inv: "rx_inv D m" and f: "rm_flows m a = Some f"
    and k: "rm_map m k = Some a" "progress hs ps k f" "started ps k" and le: "\<And>d. length (along k d ps) \<le> length (along k d hs)"
  shows "\<exists>w' m'. close_flow a (w, m) = Some (w', m') \<and> (deadline w' = D \<or> deadline w' = D(a := None)) \<and>
    rm_flows m' = (if finished hs ps k then (rm_flows m)(a := None) else rm_flows m) \<and>
    rm_map m' = (if finished hs ps k then (rm_map m)(k := None) else rm_map m) \<and>
    error_counters (rm_stats m') = error_counters (rm_stats m) \<and> rm_template_info m' = rm_template_info m \<and> s_add (rm_stats m') = s_add (rm_stats m)"
proof -
  note seen = all_seen_iff [OF k(2,3) le clean_bound [OF c]]
  show ?thesis
  proof (cases "finished hs ps k")
    case True
    let ?f = "set_aged_correctly f"
    let ?m = "m\<lparr>rm_flows := (rm_flows m)(a \<mapsto> ?f)\<rparr>"
    have id: "f_flow_id ?f = k" using ft_ok_flow(2) [OF rx_invD(1) [OF inv] f] k(1) by (simp add: set_aged_correctly_def)
    have "rx_inv D ?m" by (rule rx_inv_put_flow(1) [OF inv f]) (simp add: set_aged_correctly_def)
    then obtain m' where m': "on_flow_end a ?m = Some m'" "rm_flows m' = (rm_flows m)(a := None)" "rm_map m' = (rm_map m)(k := None)"
      using on_flow_end_ok [of D ?m a ?f] id by auto
    have "is_aged_correctly ?f" "\<forall>d\<in>{0, 1}. d_pkts (f_dir ?f d) = d_flow_size (f_dir ?f d)"
      using seen(2) True by (simp_all add: set_aged_correctly_def is_aged_correctly_def)
    note quiet = on_flow_end_clean [OF m'(1) _ this]
    obtain w' where "stop_timer a w = Some w'" "deadline w' = D(a := None)" using stop_timer_ok [OF w(1), of a] w(2) by auto
    then show ?thesis using True seen(1) f m' quiet by (simp add: close_flow_def)
  next
    case False
    then show ?thesis using seen(1) f w by (simp add: close_flow_def)
  qed
qed

lemma packet_accepted:
  assumes c: "clean_trace hs" "hs = ps @ h # qs" and inv: "rx_inv D m" "table_clean hs ps m" "counts_clean ps m"
  obtains m1 a f m2 where "count_latency tick h ((on_stats (\<lambda>s. s\<lparr>s_total_rx := s_total_rx s + 1\<rparr>) m)\<lparr>rm_cur_time := now\<rparr>) = Some m1"
    "check_flow h m1 = Some (a, m2, False)" "rm_flows m2 = (rm_flows m)(a \<mapsto> f)" "rm_map m2 = (rm_map m)(rx_flow_id h \<mapsto> a)"
    "progress hs (ps @ [h]) (rx_flow_id h) f" "counts_clean (ps @ [h]) m2" "rm_cur_time m2 = now" "\<forall>t. rx_inv (D(a \<mapsto> t)) m2"
proof -
  let ?k = "rx_flow_id h" and ?ps = "ps @ [h]"
  let ?m = "(on_stats (\<lambda>s. s\<lparr>s_total_rx := s_total_rx s + 1\<rparr>) m)\<lparr>rm_cur_time := now\<rparr>"
  have m: "rx_inv D ?m" using inv(1) by (simp add: on_stats_def rx_inv_def ft_ok_def)
  have same: "quiet ?m" "rm_on_drain ?m = rm_on_drain m" "s_add (rm_stats ?m) = s_add (rm_stats m)" "rm_flows ?m = rm_flows m" "rm_map ?m = rm_map m" "rm_cur_time ?m = now"
    using inv(3) by (simp_all add: on_stats_def quiet_def error_counters_def counts_clean_def)
  obtain m1 where m1: "count_latency tick h ?m = Some m1" "rx_inv D m1" "same_env ?m m1" "rm_flows m1 = rm_flows m" "rm_map m1 = rm_map m"
    "rm_stats m1 = rm_stats ?m" using count_latency_ok [OF m, of tick h] same(4,5) by auto
  have q1: "quiet m1" by (rule count_latency_clean [OF m1(1) same(1)])
  have t1: "table_clean hs ps m1" using inv(2) unfolding table_clean_def m1(4,5) .
  obtain a f m2 where m2: "check_flow h m1 = Some (a, m2, False)" "rm_flows m2 = (rm_flows m1)(a \<mapsto> f)" "rm_map m2 = (rm_map m1)(?k \<mapsto> a)"
    "progress hs ?ps ?k f" "error_counters (rm_stats m2) = error_counters (rm_stats m1)" "rm_template_info m2 = rm_template_info m1"
    "s_add (rm_stats m2) = s_add (rm_stats m1) + (if started ps ?k then 0 else 1)" using check_flow_clean [OF c t1] by blast
  have m2': "\<forall>t. rx_inv (D(a \<mapsto> t)) m2" "same_env m1 m2" using check_flow_ok [OF m1(2), of h] m2(1) by (metis option.inject prod.inject)+
  have "rx_flow_id ` set ?ps = insert ?k (rx_flow_id ` set ps)" by simp
  then have "of_nat (card (rx_flow_id ` set ?ps)) = of_nat (card (rx_flow_id ` set ps)) + (if started ps ?k then 0 else 1 :: u64)"
    by (simp add: started_def insert_absorb)
  moreover have "quiet m2" using q1 m2(5,6) by (simp add: quiet_def)
  moreover have "rm_on_drain m2 = rm_on_drain m" "rm_cur_time m2 = now" using m2'(2) m1(3) same(2,6) by (simp_all add: same_env_def)
  ultimately show thesis using that [OF m1(1) m2(1) _ _ m2(4)] inv(3) m2(2,3,7) m1(4-6) m2'(1) same(3) by (simp add: counts_clean_def)
qed

lemma packet_clean:
  assumes c: "clean_trace hs" "hs = ps @ h # qs" and inv: "wm_inv (w, m)" "table_clean hs ps m" "counts_clean ps m"
    and times: "0 \<le> t0" "t0 \<le> now" "now \<le> t0 + 5" "\<forall>g d. deadline w g = Some d \<longrightarrow> t0 + 5 \<le> d"
  shows "\<exists>w' m'. handle_packet pick now tick h (w, m) = Some (w', m') \<and> wm_inv (w', m') \<and> table_clean hs (ps @ [h]) m' \<and>
    counts_clean (ps @ [h]) m' \<and> (\<forall>g d. deadline w' g = Some d \<longrightarrow> t0 + 5 \<le> d)"
proof -
  let ?k = "rx_flow_id h" and ?ps = "ps @ [h]"
  note nx = clean_next [OF c]
  have w: "tw_ok w" and m: "rx_inv (deadline w) m" using inv(1) by (simp_all add: wm_inv_def)
  obtain m1 a f m2 where m1: "count_latency tick h ((on_stats (\<lambda>s. s\<lparr>s_total_rx := s_total_rx s + 1\<rparr>) m)\<lparr>rm_cur_time := now\<rparr>) = Some m1"
    and m2: "check_flow h m1 = Some (a, m2, False)" "rm_flows m2 = (rm_flows m)(a \<mapsto> f)" "rm_map m2 = (rm_map m)(?k \<mapsto> a)"
      "progress hs ?ps ?k f" "counts_clean ?ps m2" "rm_cur_time m2 = now" "\<forall>t. rx_inv ((deadline w)(a \<mapsto> t)) m2"
    by (rule packet_accepted [OF c m inv(2,3), of tick now])
  define t where "t = rm_cur_time m2 + of_nat (unat (max (rx_aging_sec h) 5))"
  have "unat (max (rx_aging_sec h) 5) \<ge> 5" using max.cobounded2 [of 5 "rx_aging_sec h"] by (simp add: word_le_nat_alt)
  then have "(5 :: rat) \<le> of_nat (unat (max (rx_aging_sec h) 5))" by (metis of_nat_le_iff of_nat_numeral)
  then have t: "t0 + 5 \<le> t" using times m2(6) by (simp add: t_def)
  then obtain w1 where w1: "restart_timer a t w = Some w1" "tw_ok w1" "deadline w1 = (deadline w)(a \<mapsto> t)"
    using restart_timer_ok [OF w, of t a] times(1) by auto
  have le: "length (along ?k d ?ps) \<le> length (along ?k d hs)" for d by (simp add: c(2) along_Cons)
  obtain w2 m4 where cl: "close_flow a (w1, m2) = Some (w2, m4)" "deadline w2 = deadline w1 \<or> deadline w2 = (deadline w1)(a := None)"
    "rm_flows m4 = (if finished hs ?ps ?k then (rm_flows m2)(a := None) else rm_flows m2)"
    "rm_map m4 = (if finished hs ?ps ?k then (rm_map m2)(?k := None) else rm_map m2)"
    "error_counters (rm_stats m4) = error_counters (rm_stats m2)" "rm_template_info m4 = rm_template_info m2" "s_add (rm_stats m4) = s_add (rm_stats m2)"
    using close_flow_clean [OF c(1) w1(2,3) m2(7) [rule_format] _ _ m2(4) _ le] m2(2,3) progress_other(3) [of ps h ?k] w1(3) by auto
  have i4: "tw_ok w2" "rx_inv (deadline w2) m4" "same_env m2 m4" using close_flow_ok [OF w1(2,3) m2(7) [rule_format], of a f] m2(2) cl(1) by auto
  have D2: "\<forall>g d. deadline w2 g = Some d \<longrightarrow> t0 + 5 \<le> d" using cl(2) w1(3) times t by (auto split: if_splits)
  then have idle: "\<forall>g d. deadline w2 g = Some d \<longrightarrow> now \<le> d" using times(3) order_trans by blast
  obtain w3 where w3: "tw_handle pick (w2, m4) = Some (w3, m4)" "tw_ok w3" "deadline w3 = deadline w2"
    using try_handle_events_idle [OF i4(1), of now pick flow_aging_callback m4] idle i4(3) m2(6) by (auto simp: tw_handle_def same_env_def)
  have "table_clean hs ?ps m4"
  proof (rule table_clean_step [OF inv(2)])
    have "rm_map m2 k = Some a \<Longrightarrow> k = ?k" for k using ft_ok_flow(2) [OF rx_invD(1) [OF m2(7) [rule_format]], of a f] m2(2,3) by (metis fun_upd_same)
    then show "\<forall>k. k \<noteq> ?k \<longrightarrow> rm_map m k \<noteq> Some a" using m2(3) by (metis fun_upd_other)
  qed (use cl(3,4) m2(2-4) in \<open>simp_all split: if_splits\<close>)
  moreover have "counts_clean ?ps m4" using m2(5) cl(5-7) i4(3) by (simp add: counts_clean_def quiet_def same_env_def)
  moreover have "\<not> uint (rx_pkt_id h) + 1 > uint (rx_flow_size h)" using nx(2,3,5) by (simp add: uint_nat)
  then have "\<exists>w'. handle_packet pick now tick h (w, m) = Some (w', m4) \<and> tw_ok w' \<and> deadline w' = deadline w2"
    using handle_packet_good [OF nx(1) _ m1 m2(1) _ w1(1) [unfolded t_def] cl(1), of pick] w3 i4(1) by simp
  ultimately show ?thesis using i4(2) D2 by (auto simp: wm_inv_def)
qed

section \<open>No false alarm\<close>

definition packets :: "(rat \<times> u32 \<times> CRx_check_header) list \<Rightarrow> rx_event list" where
  "packets tr = map (\<lambda>(now, tick, h). RxPacket now tick h) tr"

lemma packets_clean:
  assumes "clean_trace hs" "hs = ps @ map (\<lambda>(now, tick, h). h) tr" "wm_inv (w, m)" "table_clean hs ps m" "counts_clean ps m"
    "0 \<le> t0" "\<forall>(now, tick, h)\<in>set tr. t0 \<le> now \<and> now \<le> t0 + 5" "\<forall>g d. deadline w g = Some d \<longrightarrow> t0 + 5 \<le> d"
  shows "\<exists>w' m'. rx_run pick (packets tr) (w, m) = Some (w', m') \<and> wm_inv (w', m') \<and> table_clean hs hs m' \<and> counts_clean hs m'"
  using assms
proof (induction tr arbitrary: ps w m)
  case Nil
  then show ?case by (simp add: packets_def)
next
  case (Cons x tr)
  obtain now tick h where x: "x = (now, tick, h)" by (rule prod_cases3)
  have hs: "hs = ps @ h # map (\<lambda>(now, tick, h). h) tr" "hs = (ps @ [h]) @ map (\<lambda>(now, tick, h). h) tr" using Cons.prems(2) by (simp_all add: x)
  obtain w1 m1 where s: "handle_packet pick now tick h (w, m) = Some (w1, m1)" "wm_inv (w1, m1)" "table_clean hs (ps @ [h]) m1" "counts_clean (ps @ [h]) m1"
    "\<forall>g d. deadline w1 g = Some d \<longrightarrow> t0 + 5 \<le> d"
    using packet_clean [OF Cons.prems(1) hs(1) Cons.prems(3-6), of now pick tick] Cons.prems(7,8) x by auto
  show ?case using Cons.IH [OF Cons.prems(1) hs(2) s(2-4) Cons.prems(6) _ s(5)] Cons.prems(7) s(1) by (simp add: packets_def x)
qed

lemma table_clean_end: "table_clean hs hs m \<Longrightarrow> rm_map m = Map.empty"
  by (auto simp: table_clean_def finished_def fun_eq_iff split: option.splits)

lemma rx_clean_run:
  assumes "fresh_manager m0" and "clean_trace (map (\<lambda>(now, tick, h). h) tr)" and "0 \<le> t0"
    and "\<forall>(now, tick, h)\<in>set tr. t0 \<le> now \<and> now \<le> t0 + 5"
  shows "\<exists>w m. rx_run pick (packets tr) (CTimerWheel_new, rx_Create m0) = Some (w, m) \<and> list_all (\<lambda>c. c = 0) (error_counters (rm_stats m)) \<and>
    list_all (\<lambda>t. ti_errors t = 0) (rm_template_info m) \<and> rm_map m = Map.empty \<and> deadline w = Map.empty \<and>
    s_add (rm_stats m) = of_nat (card (set (map (\<lambda>(now, tick, h). rx_flow_id h) tr))) \<and> s_remove (rm_stats m) = s_add (rm_stats m)"
proof -
  let ?hs = "map (\<lambda>(now, tick, h). h) tr" and ?m = "rx_Create m0"
  have none: "rm_map ?m = Map.empty" using assms(1) by (simp add: fresh_manager_def rx_Create_def)
  have "table_clean ?hs [] ?m" by (simp add: table_clean_def none started_def)
  moreover have "counts_clean [] ?m"
    by (simp add: counts_clean_def quiet_def rx_Create_def stats_Clear_def error_counters_def template_reset_def list_all_iff)
  ultimately obtain w m where r: "rx_run pick (packets tr) (CTimerWheel_new, ?m) = Some (w, m)" "wm_inv (w, m)" "table_clean ?hs ?hs m" "counts_clean ?hs m"
    using packets_clean [OF assms(2) _ wm_inv_Create [OF assms(1)] _ _ assms(3,4), of "[]" pick] new_wheel_ok(2) by auto
  note inv = rx_invD [OF r(2) [unfolded wm_inv_def fst_conv snd_conv, THEN conjunct2]]
  have empty: "rm_map m = Map.empty" by (rule table_clean_end [OF r(3)])
  have "deadline w = Map.empty" using ft_okD(1,2) [OF inv(1)] empty by (metis dom_eq_empty_conv domIff ex_in_conv option.distinct(1) option.exhaust)
  moreover have "rx_flow_id ` set ?hs = set (map (\<lambda>(now, tick, h). rx_flow_id h) tr)" by force
  ultimately show ?thesis using r(1,4) inv(2,3) empty by (simp add: counts_clean_def quiet_def)
qed

text \<open>
  C14. The receive check raises no false alarm: any interleaving of flows that arrive within five seconds, each complete, in order
  in either direction and with the right sizes and flags, is accepted from a new manager without an error: every error counter
  and the error count of every template stay zero, all flows have left the table and their timers are stopped, and as many
  flows were opened and closed as there are flow ids.
\<close>

theorem rx_clean_trace:
  assumes "fresh_manager m0" and "clean_trace (map (\<lambda>(now, tick, h). h) tr)" and "0 \<le> t0"
    and "\<forall>(now, tick, h)\<in>set tr. t0 \<le> now \<and> now \<le> t0 + 5"
  shows "\<exists>w m. rx_run pick (packets tr) (CTimerWheel_new, rx_Create m0) = Some (w, m) \<and> list_all (\<lambda>c. c = 0) (error_counters (rm_stats m)) \<and>
    list_all (\<lambda>t. ti_errors t = 0) (rm_template_info m) \<and> rm_map m = Map.empty \<and> deadline w = Map.empty \<and>
    s_add (rm_stats m) = of_nat (card (set (map (\<lambda>(now, tick, h). rx_flow_id h) tr))) \<and> s_remove (rm_stats m) = s_add (rm_stats m)"
  by (rule rx_clean_run [OF assms])

theorem rx_clean_trace_witness:
  "\<exists>w m. rx_run hd (packets [(1, 0, demo_header 7 0 2 2), (2, 0, demo_header 8 0 1 0), (3, 0, demo_header 7 0 1 3), (4, 0, demo_header 7 1 2 2)])
     (CTimerWheel_new, rx_Create demo_manager) = Some (w, m) \<and> list_all (\<lambda>c. c = 0) (error_counters (rm_stats m)) \<and> rm_map m = Map.empty"
proof -
  let ?tr = "[(1, 0, demo_header 7 0 2 2), (2, 0, demo_header 8 0 1 0), (3, 0, demo_header 7 0 1 3), (4, 0, demo_header 7 1 2 2)]"
  have "fresh_manager demo_manager" by (simp add: fresh_manager_def demo_manager_def)
  moreover have "clean_trace (map (\<lambda>(now, tick, h). h) ?tr)" by code_simp
  moreover have "\<forall>(now, tick, h)\<in>set ?tr. 1 \<le> now \<and> now \<le> 1 + (5 :: rat)" by simp
  ultimately show ?thesis using rx_clean_trace [of demo_manager ?tr 1 hd] by auto
qed

text \<open>
  A lost first packet is counted twice: the flow is opened as if its first packet had been seen, so that the packet after the
  one that opened it counts as out of order although it is the next one.
\<close>

lemma first_packet_lost_twice:
  "map_option (\<lambda>(w, m). (s_err_open_with_no_fif_pkt (rm_stats m), s_err_oo_late (rm_stats m)))
     (rx_run hd (packets [(1, 0, demo_header 7 1 4 0), (2, 0, demo_header 7 2 4 0), (3, 0, demo_header 7 3 4 0)]) (CTimerWheel_new, rx_Create demo_manager)) = Some (1, 1)"
  by code_simp

end
