(* ===== verification/Nat_Check.thy ===== *)
theory Nat_Check
  imports Trex_Prelude Inet_Checksum Complex_Main
begin

text \<open>
  Learning of address translation (\<open>CNatOption\<close> of \<open>rx_check_header.h\<close>, \<open>nat_check.h\<close>, \<open>nat_check.cpp\<close>): the first packet of a
  flow carries an IP option with the flow id and the id of the sending thread; the receiver tells that thread the
  translated addresses, several flows to a message.

  Packets are byte lists with bounds-checked access.  The ring of a thread is the list of messages put into it.  Each attempt to
  put a message into a ring may fail: the environment says which attempts of a flush do.  Giving up ends the
  process, which is the fault \<open>NatExit\<close>.
\<close>

section \<open>The IP option\<close>

definition noIPV4_OPTION :: u8 where "noIPV4_OPTION = 0x10"
definition noOPTION_LEN :: u8 where "noOPTION_LEN = 8"
definition noIPV4_MAGIC :: u8 where "noIPV4_MAGIC = 0xEE"
definition noIPV4_MAGIC_RX :: u8 where "noIPV4_MAGIC_RX = 0xED"
definition noIPV6_OPTION_LEN :: u8 where "noIPV6_OPTION_LEN = noOPTION_LEN div 8 - 1"

definition set_option_type :: "mem \<Rightarrow> nat \<Rightarrow> u8 \<Rightarrow> mem option" where
  "set_option_type m p typ = mem_wr m p typ"

definition get_option_type :: "mem \<Rightarrow> nat \<Rightarrow> u8 option" where
  "get_option_type m p = mem_rd m p"

definition set_option_len :: "mem \<Rightarrow> nat \<Rightarrow> u8 \<Rightarrow> mem option" where
  "set_option_len m p len = mem_wr m (p + 1) len"

definition get_option_len :: "mem \<Rightarrow> nat \<Rightarrow> u8 option" where
  "get_option_len m p = mem_rd m (p + 1)"

definition set_thread_id :: "mem \<Rightarrow> nat \<Rightarrow> u8 \<Rightarrow> mem option" where
  "set_thread_id m p thread_id = mem_wr m (p + 3) thread_id"

definition get_thread_id :: "mem \<Rightarrow> nat \<Rightarrow> u8 option" where
  "get_thread_id m p = mem_rd m (p + 3)"

definition set_magic :: "mem \<Rightarrow> nat \<Rightarrow> u8 \<Rightarrow> mem option" where
  "set_magic m p magic = mem_wr m (p + 2) magic"

definition get_magic :: "mem \<Rightarrow> nat \<Rightarrow> u8 option" where
  "get_magic m p = mem_rd m (p + 2)"

definition set_rx_check :: "mem \<Rightarrow> nat \<Rightarrow> bool \<Rightarrow> mem option" where
  "set_rx_check m p enable = set_magic m p (if enable then noIPV4_MAGIC_RX else noIPV4_MAGIC)"

definition is_rx_check :: "mem \<Rightarrow> nat \<Rightarrow> bool option" where
  "is_rx_check m p = map_option (\<lambda>g. g = noIPV4_MAGIC_RX) (get_magic m p)"

definition set_fid :: "mem \<Rightarrow> nat \<Rightarrow> u32 \<Rightarrow> mem option" where
  "set_fid m p fid = mem_wr m (p + 4) fid"

definition get_fid :: "mem \<Rightarrow> nat \<Rightarrow> u32 option" where
  "get_fid m p = mem_rd m (p + 4)"

definition option_word :: "u8 \<Rightarrow> u8 \<Rightarrow> u8 \<Rightarrow> u32" where
  "option_word typ len magic = push_bit 24 (ucast typ) + push_bit 16 (ucast len) + push_bit 8 (ucast magic)"

definition is_valid_ipv4_magic_op0 :: "mem \<Rightarrow> nat \<Rightarrow> bool option" where
  "is_valid_ipv4_magic_op0 m p =
     map_option (\<lambda>w. PKT_NTOHL w AND 0xFFFFFF00 = option_word noIPV4_OPTION noOPTION_LEN noIPV4_MAGIC) (mem_rd m p)"

definition is_valid_ipv4_magic_op1 :: "mem \<Rightarrow> nat \<Rightarrow> bool option" where
  "is_valid_ipv4_magic_op1 m p =
     map_option (\<lambda>w. PKT_NTOHL w AND 0xFFFFFF00 = option_word noIPV4_OPTION noOPTION_LEN noIPV4_MAGIC_RX) (mem_rd m p)"

definition is_valid_ipv4_magic :: "mem \<Rightarrow> nat \<Rightarrow> bool option" where
  "is_valid_ipv4_magic m p = (case is_valid_ipv4_magic_op0 m p of
       None \<Rightarrow> None | Some True \<Rightarrow> Some True | Some False \<Rightarrow> is_valid_ipv4_magic_op1 m p)"

definition is_valid_ipv6_magic :: "mem \<Rightarrow> nat \<Rightarrow> bool option" where
  "is_valid_ipv6_magic m p =
     map_option (\<lambda>w. PKT_NTOHL w AND 0x00FFFF00 = push_bit 16 (ucast noIPV6_OPTION_LEN) + push_bit 8 (ucast noIPV4_MAGIC)) (mem_rd m p)"

definition set_init_ipv4_header :: "mem \<Rightarrow> nat \<Rightarrow> mem option" where
  "set_init_ipv4_header m p = (case set_option_type m p noIPV4_OPTION of
       None \<Rightarrow> None
     | Some m1 \<Rightarrow> (case set_option_len m1 p noOPTION_LEN of None \<Rightarrow> None | Some m2 \<Rightarrow> set_magic m2 p noIPV4_MAGIC))"

definition set_init_ipv6_header :: "mem \<Rightarrow> nat \<Rightarrow> mem option" where
  "set_init_ipv6_header m p = (case set_option_len m p noIPV6_OPTION_LEN of None \<Rightarrow> None | Some m1 \<Rightarrow> set_magic m1 p noIPV4_MAGIC)"

section \<open>Messages to the threads\<close>

record CNatFlowInfo =
  nf_external_ip :: u32
  nf_external_ip_server :: u32
  nf_fid :: u32
  nf_external_port :: u16
  nf_pad :: u16

definition MAX_NAT_FLOW_INFO :: nat where "MAX_NAT_FLOW_INFO = 7"

definition NAT_FIRST :: u8 where "NAT_FIRST = 7"

record CGenNodeNatInfo =
  nn_msg_type :: u8
  nn_pad :: u8
  nn_cnt :: u16
  nn_data :: "CNatFlowInfo list"

definition nat_init :: "CGenNodeNatInfo \<Rightarrow> CGenNodeNatInfo" where
  "nat_init n = n\<lparr>nn_msg_type := NAT_FIRST, nn_pad := 0, nn_cnt := 0\<rparr>"

text \<open>\<open>get_next_msg\<close> gives the address of a slot, which the caller fills: a slot outside the array is \<open>None\<close>.\<close>

definition get_next_msg :: "CNatFlowInfo \<Rightarrow> CGenNodeNatInfo \<Rightarrow> CGenNodeNatInfo option" where
  "get_next_msg info n = (if unat (nn_cnt n) < length (nn_data n)
     then Some (n\<lparr>nn_data := (nn_data n)[unat (nn_cnt n) := info], nn_cnt := nn_cnt n + 1\<rparr>) else None)"

definition is_full :: "CGenNodeNatInfo \<Rightarrow> bool" where
  "is_full n \<longleftrightarrow> unat (nn_cnt n) = MAX_NAT_FLOW_INFO"

record CNatPerThreadInfo =
  nt_last_time :: rat
  nt_cur_nat_msg :: "CGenNodeNatInfo option"
  nt_ring :: "CGenNodeNatInfo list"

definition CNatPerThreadInfo_new :: CNatPerThreadInfo where
  "CNatPerThreadInfo_new = \<lparr>nt_last_time = 0, nt_cur_nat_msg = None, nt_ring = []\<rparr>"

record CNatStats =
  ns_total_rx :: u64
  ns_total_msg :: u64
  ns_err_no_valid_thread_id :: u64
  ns_err_no_valid_proto :: u64
  ns_err_queue_full :: u64

definition nat_stats_reset :: CNatStats where
  "nat_stats_reset = \<lparr>ns_total_rx = 0, ns_total_msg = 0, ns_err_no_valid_thread_id = 0, ns_err_no_valid_proto = 0, ns_err_queue_full = 0\<rparr>"

definition get_errs :: "CNatStats \<Rightarrow> u64" where
  "get_errs s = ns_err_no_valid_thread_id s + ns_err_no_valid_proto s + ns_err_queue_full s"

record CNatRxManager =
  nm_max_threads :: u8
  nm_per_thread :: "CNatPerThreadInfo list"
  nm_stats :: CNatStats

datatype nat_fault = NatExit | NatAssert | NatSlot | NatRead

text \<open>The counters are not set by \<open>Create\<close>: they keep what they were.\<close>

definition nat_Create :: "u8 \<Rightarrow> CNatRxManager \<Rightarrow> CNatRxManager" where
  "nat_Create num_threads m = m\<lparr>nm_max_threads := num_threads, nm_per_thread := replicate (unat num_threads) CNatPerThreadInfo_new\<rparr>"

definition nat_on_stats :: "(CNatStats \<Rightarrow> CNatStats) \<Rightarrow> CNatRxManager \<Rightarrow> CNatRxManager" where
  "nat_on_stats f m = m\<lparr>nm_stats := f (nm_stats m)\<rparr>"

definition get_thread_info :: "u8 \<Rightarrow> CNatRxManager \<Rightarrow> nat option \<times> CNatRxManager" where
  "get_thread_info thread_id m =
     (if thread_id < nm_max_threads m then (Some (unat thread_id), m)
      else (None, nat_on_stats (\<lambda>s. s\<lparr>ns_err_no_valid_thread_id := ns_err_no_valid_thread_id s + 1\<rparr>) m))"

text \<open>\<open>full k\<close> says that attempt \<open>k\<close> finds the ring full.  The result is the number of failed attempts.\<close>

function flush_loop :: "(nat \<Rightarrow> bool) \<Rightarrow> nat \<Rightarrow> nat option" where
  "flush_loop full cnt = (if \<not> full cnt then Some cnt else if cnt + 1 > 10 then None else flush_loop full (cnt + 1))"
  by pat_completeness auto
termination
  by (relation "measure (\<lambda>(full, cnt). 11 - cnt)") auto

declare flush_loop.simps [simp del]

definition flush_node :: "(nat \<Rightarrow> bool) \<Rightarrow> nat \<Rightarrow> CNatRxManager \<Rightarrow> nat_fault + CNatRxManager" where
  "flush_node full t m = (case flush_loop full 0 of
       None \<Rightarrow> Inl NatExit
     | Some k \<Rightarrow> (case nt_cur_nat_msg (nm_per_thread m ! t) of
         None \<Rightarrow> Inl NatAssert
       | Some node \<Rightarrow> Inr ((nat_on_stats (\<lambda>s. s\<lparr>ns_err_queue_full := ns_err_queue_full s + of_nat k\<rparr>) m)
           \<lparr>nm_per_thread := (nm_per_thread m)[t := (nm_per_thread m ! t)\<lparr>nt_ring := nt_ring (nm_per_thread m ! t) @ [node], nt_cur_nat_msg := None\<rparr>]\<rparr>)))"

definition MAX_TIME_MSG_IN_QUEUE_SEC :: rat where "MAX_TIME_MSG_IN_QUEUE_SEC = 2 / 1000"

definition aging_step :: "(nat \<Rightarrow> nat \<Rightarrow> bool) \<Rightarrow> rat \<Rightarrow> CNatRxManager \<Rightarrow> nat \<Rightarrow> nat_fault + CNatRxManager" where
  "aging_step full now m i = (case get_thread_info (of_nat i) m of
       (None, _) \<Rightarrow> Inl NatAssert
     | (Some t, m1) \<Rightarrow>
         if nt_cur_nat_msg (nm_per_thread m1 ! t) \<noteq> None \<and> now - nt_last_time (nm_per_thread m1 ! t) > MAX_TIME_MSG_IN_QUEUE_SEC
         then flush_node (full i) t m1 else Inr m1)"

definition handle_aging :: "(nat \<Rightarrow> nat \<Rightarrow> bool) \<Rightarrow> rat \<Rightarrow> CNatRxManager \<Rightarrow> nat_fault + CNatRxManager" where
  "handle_aging full now m = foldE (aging_step full now) m [0..<unat (nm_max_threads m)]"

section \<open>A packet\<close>

definition getSourceIp :: "mem \<Rightarrow> nat \<Rightarrow> u32 option" where
  "getSourceIp m ip = map_option PKT_NTOHL (mem_rd m (ip + 12))"

definition getProtocol :: "mem \<Rightarrow> nat \<Rightarrow> u8 option" where
  "getProtocol m ip = mem_rd m (ip + 9)"

definition udp_getSourcePort :: "mem \<Rightarrow> nat \<Rightarrow> u16 option" where
  "udp_getSourcePort m udp = map_option PKT_NTOHS (mem_rd m udp)"

text \<open>The info is put into the open message of the thread; without one a node is allocated.\<close>

definition nat_add_info :: "(nat \<Rightarrow> bool) \<Rightarrow> CGenNodeNatInfo option \<Rightarrow> rat \<Rightarrow> nat \<Rightarrow> CNatFlowInfo \<Rightarrow> CNatRxManager \<Rightarrow> nat_fault + CNatRxManager" where
  "nat_add_info full create_node now t info m =
     bindE (case nt_cur_nat_msg (nm_per_thread m ! t) of
              Some node \<Rightarrow> Inr (node, nt_last_time (nm_per_thread m ! t))
            | None \<Rightarrow> bindE (liftE NatAssert create_node) (\<lambda>node. Inr (nat_init node, now))) (\<lambda>(node, last).
     bindE (liftE NatSlot (get_next_msg info node)) (\<lambda>node'.
       let m1 = m\<lparr>nm_per_thread := (nm_per_thread m)[t := (nm_per_thread m ! t)\<lparr>nt_cur_nat_msg := Some node', nt_last_time := last\<rparr>]\<rparr>
       in if is_full node' then flush_node full t m1 else Inr m1))"

definition handle_packet_ipv4 ::
  "(nat \<Rightarrow> bool) \<Rightarrow> CGenNodeNatInfo option \<Rightarrow> rat \<Rightarrow> mem \<Rightarrow> nat \<Rightarrow> nat \<Rightarrow> CNatRxManager \<Rightarrow> nat_fault + CNatRxManager" where
  "handle_packet_ipv4 full create_node now pkt opt ip m =
     bindE (liftE NatRead (get_thread_id pkt opt)) (\<lambda>thread_id.
       case get_thread_info thread_id m of
         (None, m1) \<Rightarrow> Inr m1
       | (Some t, m1) \<Rightarrow>
           bindE (liftE NatRead (getSourceIp pkt ip)) (\<lambda>ext_ip.
           bindE (liftE NatRead (getDestIp pkt ip)) (\<lambda>ext_ip_server.
           bindE (liftE NatRead (getProtocol pkt ip)) (\<lambda>proto.
             if \<not> (proto = 6 \<or> proto = 17)
             then Inr (nat_on_stats (\<lambda>s. s\<lparr>ns_err_no_valid_proto := ns_err_no_valid_proto s + 1\<rparr>) m1)
             else
               bindE (liftE NatRead (getHeaderLength pkt ip)) (\<lambda>len.
               bindE (liftE NatRead (udp_getSourcePort pkt (ip + unat len))) (\<lambda>ext_port.
               bindE (liftE NatRead (get_fid pkt opt)) (\<lambda>fid.
                 nat_add_info full create_node now t
                   \<lparr>nf_external_ip = ext_ip, nf_external_ip_server = ext_ip_server, nf_fid = fid, nf_external_port = ext_port, nf_pad = 0xee\<rparr> m1)))))))"

section \<open>What the threads learn\<close>

text \<open>The infos a thread was told or will be told, in order.\<close>

definition node_infos :: "CGenNodeNatInfo \<Rightarrow> CNatFlowInfo list" where
  "node_infos n = take (unat (nn_cnt n)) (nn_data n)"

definition told :: "CNatPerThreadInfo \<Rightarrow> CNatFlowInfo list" where
  "told t = concat (map node_infos (nt_ring t)) @ (case nt_cur_nat_msg t of None \<Rightarrow> [] | Some n \<Rightarrow> node_infos n)"

text \<open>Messages in the ring carry one to seven infos; the open message has room for another.\<close>

definition thread_ok :: "CNatPerThreadInfo \<Rightarrow> bool" where
  "thread_ok t \<longleftrightarrow> list_all (\<lambda>n. nn_msg_type n = NAT_FIRST \<and> 1 \<le> length (node_infos n) \<and> length (node_infos n) \<le> MAX_NAT_FLOW_INFO) (nt_ring t) \<and>
     (case nt_cur_nat_msg t of None \<Rightarrow> True
      | Some n \<Rightarrow> nn_msg_type n = NAT_FIRST \<and> length (nn_data n) = MAX_NAT_FLOW_INFO \<and> 0 < unat (nn_cnt n) \<and> unat (nn_cnt n) < MAX_NAT_FLOW_INFO)"

definition nat_ok :: "CNatRxManager \<Rightarrow> bool" where
  "nat_ok m \<longleftrightarrow> length (nm_per_thread m) = unat (nm_max_threads m) \<and> list_all thread_ok (nm_per_thread m)"

lemma flush_loop_some:
  assumes "cnt \<le> 10" and "\<exists>k. cnt \<le> k \<and> k \<le> 10 \<and> \<not> full k"
  shows "\<exists>k. flush_loop full cnt = Some k \<and> k \<le> 10"
  using assms
proof (induction full cnt rule: flush_loop.induct)
  case (1 full cnt)
  show ?case
  proof (cases "full cnt")
    case True
    then obtain k where "cnt + 1 \<le> k" "k \<le> 10" "\<not> full k" using 1(3) by (metis Suc_eq_plus1 le_antisym not_less_eq_eq)
    then show ?thesis using 1(1) True by (subst flush_loop.simps) auto
  next
    case False
    then show ?thesis using 1(2) by (simp add: flush_loop.simps)
  qed
qed

definition ring_accepts :: "(nat \<Rightarrow> bool) \<Rightarrow> bool" where
  "ring_accepts full \<longleftrightarrow> (\<exists>k\<le>10. \<not> full k)"

text \<open>A change of one thread.\<close>

definition thread_step :: "nat \<Rightarrow> CNatFlowInfo list \<Rightarrow> CNatRxManager \<Rightarrow> CNatRxManager \<Rightarrow> bool" where
  "thread_step t infos m m' \<longleftrightarrow> nat_ok m' \<and> nm_max_threads m' = nm_max_threads m \<and>
     (\<forall>i<unat (nm_max_threads m). told (nm_per_thread m' ! i) = told (nm_per_thread m ! i) @ (if i = t then infos else []))"

lemma thread_stepI:
  assumes ok: "length (nm_per_thread m) = unat (nm_max_threads m)" "\<And>i. i < unat (nm_max_threads m) \<Longrightarrow> i \<noteq> t \<Longrightarrow> thread_ok (nm_per_thread m ! i)"
    and t: "t < unat (nm_max_threads m)" and m': "nm_per_thread m' = (nm_per_thread m)[t := th]" "nm_max_threads m' = nm_max_threads m"
    and th: "thread_ok th" "told th = told (nm_per_thread m ! t) @ infos"
  shows "thread_step t infos m m'"
  using assms by (auto simp: thread_step_def nat_ok_def list_all_length nth_list_update)

lemma flush_node_ok:
  assumes len: "length (nm_per_thread m) = unat (nm_max_threads m)" and others: "\<And>i. i < unat (nm_max_threads m) \<Longrightarrow> i \<noteq> t \<Longrightarrow> thread_ok (nm_per_thread m ! i)"
    and t: "t < unat (nm_max_threads m)" and full: "ring_accepts full"
    and cur: "nt_cur_nat_msg (nm_per_thread m ! t) = Some n" "nn_msg_type n = NAT_FIRST" "1 \<le> length (node_infos n)" "length (node_infos n) \<le> MAX_NAT_FLOW_INFO"
    and ring: "list_all (\<lambda>n. nn_msg_type n = NAT_FIRST \<and> 1 \<le> length (node_infos n) \<and> length (node_infos n) \<le> MAX_NAT_FLOW_INFO) (nt_ring (nm_per_thread m ! t))"
  shows "\<exists>m'. flush_node full t m = Inr m' \<and> thread_step t [] m m' \<and> nt_cur_nat_msg (nm_per_thread m' ! t) = None \<and>
    (\<forall>i. i \<noteq> t \<longrightarrow> nm_per_thread m' ! i = nm_per_thread m ! i)"
proof -
  obtain k where k: "flush_loop full 0 = Some k" using flush_loop_some [of 0 full] full unfolding ring_accepts_def by auto
  let ?th = "(nm_per_thread m ! t)\<lparr>nt_ring := nt_ring (nm_per_thread m ! t) @ [n], nt_cur_nat_msg := None\<rparr>"
  let ?m = "(nat_on_stats (\<lambda>s. s\<lparr>ns_err_queue_full := ns_err_queue_full s + of_nat k\<rparr>) m)\<lparr>nm_per_thread := (nm_per_thread m)[t := ?th]\<rparr>"
  have r: "flush_node full t m = Inr ?m" using k cur(1) by (simp add: flush_node_def)
  have "thread_step t [] m ?m"
    by (rule thread_stepI [where th = ?th, OF len others t]) (use cur ring in \<open>simp_all add: nat_on_stats_def thread_ok_def told_def\<close>)
  then show ?thesis using r t len by (simp add: nat_on_stats_def)
qed

lemma node_infos_next:
  assumes "get_next_msg info n = Some n'" and "length (nn_data n) = MAX_NAT_FLOW_INFO"
  shows "node_infos n' = node_infos n @ [info]" and "unat (nn_cnt n') = unat (nn_cnt n) + 1" and "length (nn_data n') = MAX_NAT_FLOW_INFO"
    and "nn_msg_type n' = nn_msg_type n"
proof -
  let ?k = "unat (nn_cnt n)"
  have k: "?k < length (nn_data n)" and n': "n' = n\<lparr>nn_data := (nn_data n)[?k := info], nn_cnt := nn_cnt n + 1\<rparr>"
    using assms(1) by (auto simp: get_next_msg_def split: if_splits)
  have c: "unat (nn_cnt n + 1) = ?k + 1" using k assms(2) by (intro unat_suc_word) (simp add: MAX_NAT_FLOW_INFO_def)
  then show "unat (nn_cnt n') = ?k + 1" by (simp add: n')
  show "node_infos n' = node_infos n @ [info]" using k c by (simp add: node_infos_def n' take_Suc_conv_app_nth)
  show "length (nn_data n') = MAX_NAT_FLOW_INFO" "nn_msg_type n' = nn_msg_type n" using assms(2) by (simp_all add: n')
qed

lemma nat_okD:
  assumes "nat_ok m"
  shows "length (nm_per_thread m) = unat (nm_max_threads m)" and "i < unat (nm_max_threads m) \<Longrightarrow> thread_ok (nm_per_thread m ! i)"
  using assms by (simp_all add: nat_ok_def list_all_length)

text \<open>The node that takes the next info: the open one or a new one.\<close>

lemma nat_add_info_ok:
  assumes ok: "nat_ok m" and t: "t < unat (nm_max_threads m)" and full: "ring_accepts full" and cn: "create_node = Some n0" "length (nn_data n0) = MAX_NAT_FLOW_INFO"
  shows "\<exists>m'. nat_add_info full create_node now t info m = Inr m' \<and> thread_step t [info] m m'"
proof -
  let ?th = "nm_per_thread m ! t"
  obtain n last where sel: "(case nt_cur_nat_msg ?th of Some node \<Rightarrow> Inr (node, nt_last_time ?th)
      | None \<Rightarrow> bindE (liftE NatAssert create_node) (\<lambda>node. Inr (nat_init node, now))) = (Inr (n, last) :: nat_fault + CGenNodeNatInfo \<times> rat)"
    and n: "nn_msg_type n = NAT_FIRST" "length (nn_data n) = MAX_NAT_FLOW_INFO" "unat (nn_cnt n) < MAX_NAT_FLOW_INFO"
      "(case nt_cur_nat_msg ?th of None \<Rightarrow> [] | Some n \<Rightarrow> node_infos n) = node_infos n"
    using nat_okD(2) [OF ok t] cn by (cases "nt_cur_nat_msg ?th") (auto simp: thread_ok_def nat_init_def node_infos_def MAX_NAT_FLOW_INFO_def)
  have "unat (nn_cnt n) < length (nn_data n)" using n(2,3) by simp
  then obtain n' where n': "get_next_msg info n = Some n'" by (simp add: get_next_msg_def)
  note nx = node_infos_next [OF n' n(2)]
  define m1 where "m1 = m\<lparr>nm_per_thread := (nm_per_thread m)[t := ?th\<lparr>nt_cur_nat_msg := Some n', nt_last_time := last\<rparr>]\<rparr>"
  have m1: "nm_per_thread m1 = (nm_per_thread m)[t := ?th\<lparr>nt_cur_nat_msg := Some n', nt_last_time := last\<rparr>]" "nm_max_threads m1 = nm_max_threads m"
    by (simp_all add: m1_def)
  have ring: "list_all (\<lambda>n. nn_msg_type n = NAT_FIRST \<and> 1 \<le> length (node_infos n) \<and> length (node_infos n) \<le> MAX_NAT_FLOW_INFO) (nt_ring ?th)"
    using nat_okD(2) [OF ok t] by (simp add: thread_ok_def)
  have told': "told (?th\<lparr>nt_cur_nat_msg := Some n', nt_last_time := last\<rparr>) = told ?th @ [info]" using nx(1) n(4) by (simp add: told_def)
  have run: "nat_add_info full create_node now t info m = (if is_full n' then flush_node full t m1 else Inr m1)"
    unfolding nat_add_info_def sel by (simp add: n' Let_def m1_def)
  show ?thesis
  proof (cases "is_full n'")
    case True
    have th: "nm_per_thread m1 ! t = ?th\<lparr>nt_cur_nat_msg := Some n', nt_last_time := last\<rparr>" using nat_okD(1) [OF ok] t by (simp add: m1)
    have others: "thread_ok (nm_per_thread m1 ! i)" if "i < unat (nm_max_threads m1)" "i \<noteq> t" for i using nat_okD(2) [OF ok, of i] that by (simp add: m1)
    have len: "length (nm_per_thread m1) = unat (nm_max_threads m1)" "t < unat (nm_max_threads m1)" using nat_okD(1) [OF ok] t by (simp_all add: m1)
    have "length (node_infos n') = unat (nn_cnt n')" using nx(2,3) n(3) by (simp add: node_infos_def)
    then have "1 \<le> length (node_infos n')" "length (node_infos n') \<le> MAX_NAT_FLOW_INFO" using nx(2) n(3) by simp_all
    then have "\<exists>m'. flush_node full t m1 = Inr m' \<and> thread_step t [] m1 m'"
      using flush_node_ok [of m1 t full n', OF len(1) others len(2) full] nx(4) n(1) ring th by simp blast
    then show ?thesis using run True told' th nat_okD(1) [OF ok] by (auto simp: thread_step_def m1 nth_list_update)
  next
    case False
    have "thread_step t [info] m m1"
      by (rule thread_stepI [where th = "?th\<lparr>nt_cur_nat_msg := Some n', nt_last_time := last\<rparr>", OF nat_okD(1) [OF ok] nat_okD(2) [OF ok] t m1])
        (use False n nx ring told' in \<open>simp_all add: thread_ok_def is_full_def\<close>)
    then show ?thesis using run False by simp
  qed
qed

text \<open>What a packet says, and to whom.\<close>

definition nat_thread :: "mem \<Rightarrow> nat \<Rightarrow> nat option" where
  "nat_thread pkt opt = map_option unat (get_thread_id pkt opt)"

definition nat_info :: "mem \<Rightarrow> nat \<Rightarrow> nat \<Rightarrow> CNatFlowInfo option" where
  "nat_info pkt opt ip = (case (getSourceIp pkt ip, getDestIp pkt ip, getProtocol pkt ip, getHeaderLength pkt ip, get_fid pkt opt) of
       (Some src, Some dst, Some proto, Some len, Some fid) \<Rightarrow>
         if proto = 6 \<or> proto = 17
         then map_option (\<lambda>port. \<lparr>nf_external_ip = src, nf_external_ip_server = dst, nf_fid = fid, nf_external_port = port, nf_pad = 0xee\<rparr>)
           (udp_getSourcePort pkt (ip + unat len))
         else None
     | _ \<Rightarrow> None)"

text \<open>A packet long enough for its headers: IP with options, eight octets of the option, and the ports behind the IP header.\<close>

definition nat_readable :: "mem \<Rightarrow> nat \<Rightarrow> nat \<Rightarrow> bool" where
  "nat_readable pkt opt ip \<longleftrightarrow> opt + 8 \<le> length pkt \<and> ip + 20 \<le> length pkt \<and>
     (case getHeaderLength pkt ip of None \<Rightarrow> False | Some len \<Rightarrow> ip + unat len + 2 \<le> length pkt)"

datatype nat_event = NatPacket "nat \<Rightarrow> bool" "CGenNodeNatInfo option" rat mem nat nat | NatAging "nat \<Rightarrow> nat \<Rightarrow> bool" rat

fun nat_exec :: "nat_event \<Rightarrow> CNatRxManager \<Rightarrow> nat_fault + CNatRxManager" where
  "nat_exec (NatPacket full create_node now pkt opt ip) m = handle_packet_ipv4 full create_node now pkt opt ip m"
| "nat_exec (NatAging full now) m = handle_aging full now m"

definition nat_run :: "nat_event list \<Rightarrow> CNatRxManager \<Rightarrow> nat_fault + CNatRxManager" where
  "nat_run es m = foldE (\<lambda>m e. nat_exec e m) m es"

text \<open>The events the surroundings allow: nodes can be allocated, packets are long enough and a ring is not full for eleven attempts in a row.\<close>

fun nat_legal :: "nat_event \<Rightarrow> bool" where
  "nat_legal (NatPacket full create_node now pkt opt ip) \<longleftrightarrow> ring_accepts full \<and> nat_readable pkt opt ip \<and>
     (case create_node of None \<Rightarrow> False | Some n \<Rightarrow> length (nn_data n) = MAX_NAT_FLOW_INFO)"
| "nat_legal (NatAging full now) \<longleftrightarrow> (\<forall>i. ring_accepts (full i))"

fun nat_expected :: "nat \<Rightarrow> nat_event \<Rightarrow> CNatFlowInfo list" where
  "nat_expected t (NatPacket full create_node now pkt opt ip) =
     (if nat_thread pkt opt = Some t then (case nat_info pkt opt ip of None \<Rightarrow> [] | Some info \<Rightarrow> [info]) else [])"
| "nat_expected t (NatAging full now) = []"

lemma thread_step_refl: "nat_ok m \<Longrightarrow> thread_step t [] m m" "nat_ok m \<Longrightarrow> thread_step t [] m (nat_on_stats f m)"
  by (simp_all add: thread_step_def nat_on_stats_def nat_ok_def)

lemma handle_packet_ipv4_ok:
  assumes ok: "nat_ok m" and legal: "nat_legal (NatPacket full create_node now pkt opt ip)"
  shows "\<exists>m' t infos. handle_packet_ipv4 full create_node now pkt opt ip m = Inr m' \<and> thread_step t infos m m' \<and>
    (\<forall>i<unat (nm_max_threads m). nat_expected i (NatPacket full create_node now pkt opt ip) = (if i = t then infos else []))"
proof -
  obtain tid src dst proto len port fid where rd: "get_thread_id pkt opt = Some tid" "getSourceIp pkt ip = Some src" "getDestIp pkt ip = Some dst"
    "getProtocol pkt ip = Some proto" "getHeaderLength pkt ip = Some len" "udp_getSourcePort pkt (ip + unat len) = Some port" "get_fid pkt opt = Some fid"
    using legal by (auto simp: nat_readable_def get_thread_id_def getSourceIp_def getDestIp_def getProtocol_def udp_getSourcePort_def get_fid_def mem_rd_def
        split: option.splits if_splits)
  let ?info = "\<lparr>nf_external_ip = src, nf_external_ip_server = dst, nf_fid = fid, nf_external_port = port, nf_pad = 0xee\<rparr>"
  let ?t = "unat tid"
  have exp: "nat_expected i (NatPacket full create_node now pkt opt ip) = (if i = ?t \<and> (proto = 6 \<or> proto = 17) then [?info] else [])" for i
    by (simp add: nat_thread_def nat_info_def rd)
  show ?thesis
  proof (cases "tid < nm_max_threads m")
    case tid: True
    then have t: "?t < unat (nm_max_threads m)" by (simp add: word_less_nat_alt)
    obtain n0 where n0: "create_node = Some n0" "length (nn_data n0) = MAX_NAT_FLOW_INFO" and full: "ring_accepts full" using legal by (auto split: option.splits)
    obtain m' where m': "nat_add_info full create_node now ?t ?info m = Inr m'" "thread_step ?t [?info] m m'"
      using nat_add_info_ok [OF ok t full n0] by blast
    have run: "handle_packet_ipv4 full create_node now pkt opt ip m =
        (if proto = 6 \<or> proto = 17 then Inr m' else Inr (nat_on_stats (\<lambda>s. s\<lparr>ns_err_no_valid_proto := ns_err_no_valid_proto s + 1\<rparr>) m))"
      using tid m'(1) by (simp add: handle_packet_ipv4_def rd get_thread_info_def)
    show ?thesis
    proof (cases "proto = 6 \<or> proto = 17")
      case True
      then show ?thesis unfolding run exp using m'(2) by auto
    next
      case False
      then show ?thesis unfolding run exp using thread_step_refl(2) [OF ok] by auto
    qed
  next
    case False
    then have "\<not> (\<exists>i<unat (nm_max_threads m). i = ?t)" by (simp add: word_less_nat_alt)
    moreover let ?m = "nat_on_stats (\<lambda>s. s\<lparr>ns_err_no_valid_thread_id := ns_err_no_valid_thread_id s + 1\<rparr>) m"
    have "handle_packet_ipv4 full create_node now pkt opt ip m = Inr ?m"
      using False by (simp add: handle_packet_ipv4_def rd get_thread_info_def)
    ultimately show ?thesis unfolding exp using thread_step_refl(2) [OF ok] by (intro exI [of _ ?m] exI [of _ ?t] exI [of _ "[]"]) auto
  qed
qed

text \<open>Aging sends what waits for too long and keeps the rest.\<close>

definition same_told :: "CNatRxManager \<Rightarrow> CNatRxManager \<Rightarrow> bool" where
  "same_told m m' \<longleftrightarrow> nat_ok m' \<and> nm_max_threads m' = nm_max_threads m \<and> (\<forall>i<unat (nm_max_threads m). told (nm_per_thread m' ! i) = told (nm_per_thread m ! i))"

definition not_waiting :: "rat \<Rightarrow> CNatPerThreadInfo \<Rightarrow> bool" where
  "not_waiting now th \<longleftrightarrow> nt_cur_nat_msg th = None \<or> now - nt_last_time th \<le> MAX_TIME_MSG_IN_QUEUE_SEC"

lemma aging_step_ok:
  assumes ok: "nat_ok m" and i: "i < unat (nm_max_threads m)" and full: "ring_accepts (full i)"
  shows "\<exists>m'. aging_step full now m i = Inr m' \<and> same_told m m' \<and> not_waiting now (nm_per_thread m' ! i) \<and>
    (\<forall>j. j \<noteq> i \<longrightarrow> nm_per_thread m' ! j = nm_per_thread m ! j)"
proof -
  let ?th = "nm_per_thread m ! i"
  have "i < 256" by (rule order.strict_trans [OF i unat_u8_less])
  then have g: "get_thread_info (of_nat i) m = (Some i, m)" using i by (simp add: get_thread_info_def word_less_nat_alt unat_of_nat)
  show ?thesis
  proof (cases "nt_cur_nat_msg ?th \<noteq> None \<and> now - nt_last_time ?th > MAX_TIME_MSG_IN_QUEUE_SEC")
    case True
    then obtain n where n: "nt_cur_nat_msg ?th = Some n" by blast
    have th: "nn_msg_type n = NAT_FIRST" "1 \<le> length (node_infos n)" "length (node_infos n) \<le> MAX_NAT_FLOW_INFO"
      "list_all (\<lambda>n. nn_msg_type n = NAT_FIRST \<and> 1 \<le> length (node_infos n) \<and> length (node_infos n) \<le> MAX_NAT_FLOW_INFO) (nt_ring ?th)"
      using nat_okD(2) [OF ok i] n by (auto simp: thread_ok_def node_infos_def MAX_NAT_FLOW_INFO_def)
    show ?thesis using flush_node_ok [OF nat_okD(1) [OF ok] nat_okD(2) [OF ok] i full n th] True g
      by (auto simp: aging_step_def thread_step_def same_told_def not_waiting_def)
  next
    case False
    then show ?thesis using g ok by (auto simp: aging_step_def same_told_def not_waiting_def)
  qed
qed

lemma handle_aging_ok:
  assumes ok: "nat_ok m" and full: "\<forall>i. ring_accepts (full i)"
  shows "\<exists>m'. handle_aging full now m = Inr m' \<and> same_told m m' \<and> list_all (not_waiting now) (nm_per_thread m')"
proof -
  have "\<exists>m'. foldE (aging_step full now) m [0..<k] = Inr m' \<and> same_told m m' \<and> (\<forall>i<k. not_waiting now (nm_per_thread m' ! i))"
    if "k \<le> unat (nm_max_threads m)" for k
    using that
  proof (induction k)
    case 0
    then show ?case using ok by (simp add: same_told_def)
  next
    case (Suc k)
    then obtain m1 where m1: "foldE (aging_step full now) m [0..<k] = Inr m1" "same_told m m1" "\<forall>i<k. not_waiting now (nm_per_thread m1 ! i)" by auto
    then obtain m2 where "aging_step full now m1 k = Inr m2" "same_told m1 m2" "not_waiting now (nm_per_thread m2 ! k)"
      "\<forall>j. j \<noteq> k \<longrightarrow> nm_per_thread m2 ! j = nm_per_thread m1 ! j"
      using aging_step_ok [of m1 k full now] full Suc.prems by (auto simp: same_told_def)
    then show ?case using m1 by (auto simp: foldE_append same_told_def less_Suc_eq)
  qed
  from this [of "unat (nm_max_threads m)"] show ?thesis by (auto simp: handle_aging_def same_told_def nat_ok_def list_all_length)
qed

lemma nat_exec_ok:
  assumes "nat_ok m" and "nat_legal e"
  shows "\<exists>m'. nat_exec e m = Inr m' \<and> nat_ok m' \<and> nm_max_threads m' = nm_max_threads m \<and>
    (\<forall>i<unat (nm_max_threads m). told (nm_per_thread m' ! i) = told (nm_per_thread m ! i) @ nat_expected i e)"
proof (cases e)
  case (NatPacket full create_node now pkt opt ip)
  then show ?thesis using handle_packet_ipv4_ok [of m full create_node now pkt opt ip] assms by (auto simp: thread_step_def simp del: nat_legal.simps nat_expected.simps)
next
  case (NatAging full now)
  then show ?thesis using handle_aging_ok [OF assms(1), of full now] assms(2) by (auto simp: same_told_def)
qed

lemma nat_run_ok:
  assumes "nat_ok m" and "list_all nat_legal es"
  shows "\<exists>m'. nat_run es m = Inr m' \<and> nat_ok m' \<and> nm_max_threads m' = nm_max_threads m \<and>
    (\<forall>i<unat (nm_max_threads m). told (nm_per_thread m' ! i) = told (nm_per_thread m ! i) @ concat (map (nat_expected i) es))"
  using assms
proof (induction es arbitrary: m)
  case Nil
  then show ?case by (simp add: nat_run_def)
next
  case (Cons e es)
  obtain m1 where m1: "nat_exec e m = Inr m1" "nat_ok m1" "nm_max_threads m1 = nm_max_threads m"
    "\<forall>i<unat (nm_max_threads m). told (nm_per_thread m1 ! i) = told (nm_per_thread m ! i) @ nat_expected i e"
    using nat_exec_ok [OF Cons.prems(1), of e] Cons.prems(2) by auto
  then show ?case using Cons.IH [of m1] Cons.prems(2) by (simp add: nat_run_def)
qed

lemma nat_Create_ok: "nat_ok (nat_Create n m)" "nm_max_threads (nat_Create n m) = n" "i < unat n \<Longrightarrow> told (nm_per_thread (nat_Create n m) ! i) = []"
  by (simp_all add: nat_ok_def nat_Create_def list_all_length thread_ok_def CNatPerThreadInfo_new_def told_def)


definition demo_nat_packet :: "u8 \<Rightarrow> u8 \<Rightarrow> mem" where
  "demo_nat_packet thread port = [0x47, 0, 0, 32, 0, 0, 0, 0, 64, 6, 0, 0, 10, 0, 0, 1, 20, 0, 0, 1, 0x10, 8, 0xEE, thread, 5, 0, 0, 0, 4, port, 0, 80]"

definition demo_nat_node :: CGenNodeNatInfo where
  "demo_nat_node = \<lparr>nn_msg_type = 0, nn_pad = 0, nn_cnt = 0,
     nn_data = replicate 7 \<lparr>nf_external_ip = 0, nf_external_ip_server = 0, nf_fid = 0, nf_external_port = 0, nf_pad = 0\<rparr>\<rparr>"

definition demo_nat_manager :: CNatRxManager where
  "demo_nat_manager = \<lparr>nm_max_threads = 0, nm_per_thread = [], nm_stats = nat_stats_reset\<rparr>"


text \<open>An option that was initialised is recognised, and its fields read back.\<close>

lemma mem_wr_ex: "i + LENGTH('a) div 8 \<le> length m \<Longrightarrow> \<exists>m'. mem_wr m i (w :: 'a::len word) = Some m' \<and> length m' = length m"
  by (simp add: mem_wr_def)

lemma nat_option_roundtrip:
  assumes "p + 8 \<le> length m"
  shows "\<exists>m1 m2 m3. set_init_ipv4_header m p = Some m1 \<and> set_thread_id m1 p t = Some m2 \<and> set_fid m2 p fid = Some m3 \<and>
    get_thread_id m3 p = Some t \<and> get_fid m3 p = Some fid \<and> get_option_type m3 p = Some noIPV4_OPTION \<and>
    get_option_len m3 p = Some noOPTION_LEN \<and> get_magic m3 p = Some noIPV4_MAGIC \<and> is_rx_check m3 p = Some False"
proof -
  obtain a where a: "mem_wr m p noIPV4_OPTION = Some a" "length a = length m" using mem_wr_ex [of p m noIPV4_OPTION] assms by auto
  obtain b where b: "mem_wr a (p + 1) noOPTION_LEN = Some b" "length b = length m" using mem_wr_ex [of "p + 1" a noOPTION_LEN] assms a(2) by auto
  obtain c where c: "mem_wr b (p + 2) noIPV4_MAGIC = Some c" "length c = length m" using mem_wr_ex [of "p + 2" b noIPV4_MAGIC] assms b(2) by auto
  obtain d where d: "mem_wr c (p + 3) t = Some d" "length d = length m" using mem_wr_ex [of "p + 3" c t] assms c(2) by auto
  obtain e where e: "mem_wr d (p + 4) fid = Some e" "length e = length m" using mem_wr_ex [of "p + 4" d fid] assms d(2) by auto
  have fid: "mem_rd e (p + 4) = Some fid" by (rule mem_rd_wr_same [OF _ e(1)]) simp
  have below: "(mem_rd e j :: u8 option) = mem_rd d j" if "j < p + 4" for j using that by (intro mem_rd_wr_disjoint [OF e(1)]) simp
  have thread: "mem_rd d (p + 3) = Some t" by (rule mem_rd_wr_same [OF _ d(1)]) simp
  have below3: "(mem_rd d j :: u8 option) = mem_rd c j" if "j < p + 3" for j using that by (intro mem_rd_wr_disjoint [OF d(1)]) simp
  have magic: "mem_rd c (p + 2) = Some noIPV4_MAGIC" by (rule mem_rd_wr_same [OF _ c(1)]) simp
  have below2: "(mem_rd c j :: u8 option) = mem_rd b j" if "j < p + 2" for j using that by (intro mem_rd_wr_disjoint [OF c(1)]) simp
  have len: "mem_rd b (p + 1) = Some noOPTION_LEN" by (rule mem_rd_wr_same [OF _ b(1)]) simp
  have type: "(mem_rd b p :: u8 option) = mem_rd a p" by (rule mem_rd_wr_disjoint [OF b(1)]) simp
  have "mem_rd a p = Some noIPV4_OPTION" by (rule mem_rd_wr_same [OF _ a(1)]) simp
  then show ?thesis
    using a(1) b(1) c(1) d(1) e(1) fid thread magic len type below [of "p + 3"] below [of "p + 2"] below [of "p + 1"] below [of p]
      below3 [of "p + 2"] below3 [of "p + 1"] below3 [of p] below2 [of "p + 1"] below2 [of p]
    by (simp add: set_init_ipv4_header_def set_option_type_def set_option_len_def set_magic_def set_thread_id_def set_fid_def
        get_thread_id_def get_fid_def get_option_type_def get_option_len_def get_magic_def is_rx_check_def noIPV4_MAGIC_def noIPV4_MAGIC_RX_def)
qed

end
