(* ===== verification/Latency.thy ===== *)
theory Latency
  imports Rx_Check_Clean Nat_Check
begin

text \<open>
  The latency thread (\<open>latency.h\<close>, \<open>latency.cpp\<close>, and the packet parser of \<open>bp_sim.cpp\<close>): it sends a numbered and time-stamped packet
  on every port at a fixed rate, checks what comes in, and passes on what belongs to the receive check and to the learning
  of address translation.

  Packets are byte lists; an access outside the packet is the fault \<open>LatRead\<close>.  Clock values, the packet that is
  generated and the fate of a transmitted packet are inputs.  Printing and JSON are left out.
\<close>

datatype lat_fault = LatRead | LatHist | LatNat nat_fault | LatRxCheck | LatAssert | LatRate

section \<open>Parsing\<close>

definition EtherIP :: u16 where "EtherIP = 0x0800"
definition EtherVLAN :: u16 where "EtherVLAN = 0x8100"
definition EtherIPv6 :: u16 where "EtherIPv6 = 0x86DD"

definition getNextProtocol :: "mem \<Rightarrow> u16 option" where
  "getNextProtocol m = map_option PKT_NTOHS (mem_rd m 12)"

definition getVlanProtocol :: "mem \<Rightarrow> u16 option" where
  "getVlanProtocol m = map_option PKT_NTOHS (mem_rd m 16)"

definition getTotalLength :: "mem \<Rightarrow> nat \<Rightarrow> u16 option" where
  "getTotalLength m ip = map_option PKT_NTOHS (mem_rd m (ip + 2))"

definition getTimeToLive :: "mem \<Rightarrow> nat \<Rightarrow> u8 option" where
  "getTimeToLive m ip = mem_rd m (ip + 8)"

definition getOptionLen :: "mem \<Rightarrow> nat \<Rightarrow> u8 option" where
  "getOptionLen m ip = map_option (\<lambda>len. len - 20) (getHeaderLength m ip)"

definition IPV6_HDR_LEN :: nat where "IPV6_HDR_LEN = 40"

definition ipv6_getPayloadLen :: "mem \<Rightarrow> nat \<Rightarrow> u16 option" where
  "ipv6_getPayloadLen m ip = map_option PKT_NTOHS (mem_rd m (ip + 4))"

definition ipv6_getNextHdr :: "mem \<Rightarrow> nat \<Rightarrow> u8 option" where
  "ipv6_getNextHdr m ip = mem_rd m (ip + 6)"

definition ipv6_getHopLimit :: "mem \<Rightarrow> nat \<Rightarrow> u8 option" where
  "ipv6_getHopLimit m ip = mem_rd m (ip + 7)"

record CSimplePacketParser =
  ps_ipv4 :: "nat option"
  ps_ipv6 :: "nat option"
  ps_protocol :: u8
  ps_vlan_offset :: u16
  ps_option_offset :: u16
  ps_l4 :: nat

definition parse_l3 :: "mem \<Rightarrow> u16 \<Rightarrow> nat \<Rightarrow> u16 \<Rightarrow> lat_fault + CSimplePacketParser" where
  "parse_l3 m proto off vlan =
     (if proto = EtherIP then
        bindE (liftE LatRead (getHeaderLength m off)) (\<lambda>len.
        bindE (liftE LatRead (getProtocol m off)) (\<lambda>protocol.
          Inr \<lparr>ps_ipv4 = Some off, ps_ipv6 = None, ps_protocol = protocol, ps_vlan_offset = vlan, ps_option_offset = of_nat off + 20, ps_l4 = off + unat len\<rparr>))
      else if proto = EtherIPv6 then
        bindE (liftE LatRead (ipv6_getNextHdr m off)) (\<lambda>protocol.
          Inr \<lparr>ps_ipv4 = None, ps_ipv6 = Some off, ps_protocol = protocol, ps_vlan_offset = vlan, ps_option_offset = of_nat off + 40, ps_l4 = off + IPV6_HDR_LEN\<rparr>)
      else Inr \<lparr>ps_ipv4 = None, ps_ipv6 = None, ps_protocol = 0, ps_vlan_offset = vlan, ps_option_offset = 0, ps_l4 = 0\<rparr>)"

definition Parse :: "mem \<Rightarrow> lat_fault + bool \<times> CSimplePacketParser" where
  "Parse m =
     bindE (liftE LatRead (getNextProtocol m)) (\<lambda>proto.
     bindE (if proto = EtherVLAN then bindE (liftE LatRead (getVlanProtocol m)) (\<lambda>vproto. parse_l3 m vproto 18 4)
            else parse_l3 m proto 14 0) (\<lambda>parser.
       Inr (ps_protocol parser \<noteq> 0, parser)))"

definition getPktSize :: "mem \<Rightarrow> CSimplePacketParser \<Rightarrow> lat_fault + u16" where
  "getPktSize m ps =
     bindE (case ps_ipv6 ps of
              Some ip \<Rightarrow> bindE (liftE LatRead (ipv6_getPayloadLen m ip)) (\<lambda>len. Inr (40 + len))
            | None \<Rightarrow> (case ps_ipv4 ps of
                Some ip \<Rightarrow> liftE LatRead (getTotalLength m ip)
              | None \<Rightarrow> Inr 0)) (\<lambda>ip_len.
       Inr (ip_len + ps_vlan_offset ps + 14))"

definition getTTl :: "mem \<Rightarrow> CSimplePacketParser \<Rightarrow> lat_fault + u8" where
  "getTTl m ps = (case ps_ipv4 ps of
       Some ip \<Rightarrow> liftE LatRead (getTimeToLive m ip)
     | None \<Rightarrow> (case ps_ipv6 ps of Some ip \<Rightarrow> liftE LatRead (ipv6_getHopLimit m ip) | None \<Rightarrow> Inr 0))"

section \<open>Latency packets\<close>

definition LATENCY_MAGIC :: u32 where "LATENCY_MAGIC = 0x12345600"

text \<open>The header: time stamp, magic and sequence number.\<close>

definition lh_time_stamp :: "mem \<Rightarrow> nat \<Rightarrow> u64 option" where "lh_time_stamp m h = mem_rd m h"
definition lh_magic :: "mem \<Rightarrow> nat \<Rightarrow> u32 option" where "lh_magic m h = mem_rd m (h + 8)"
definition lh_seq :: "mem \<Rightarrow> nat \<Rightarrow> u32 option" where "lh_seq m h = mem_rd m (h + 12)"

definition IsLatencyPkt :: "mem \<Rightarrow> nat \<Rightarrow> lat_fault + bool" where
  "IsLatencyPkt m h = bindE (liftE LatRead (lh_magic m h)) (\<lambda>magic. Inr (magic AND 0xffffff00 = LATENCY_MAGIC))"

text \<open>The options that matter; the kind of packet is chosen by \<open>m_l_pkt_mode\<close>.\<close>

record lat_cfg =
  lc_l_pkt_mode :: u8
  lc_learn_mode :: bool
  lc_rx_check_mode :: bool

datatype CLatencyPktMode = ModeSCTP | ModeICMP

definition L_PKT_SUBMODE_REPLY :: u8 where "L_PKT_SUBMODE_REPLY = 2"
definition L_PKT_SUBMODE_0_SEQ :: u8 where "L_PKT_SUBMODE_0_SEQ = 3"

definition l_pkt_mode :: "lat_cfg \<Rightarrow> CLatencyPktMode" where
  "l_pkt_mode c = (if lc_l_pkt_mode c \<in> {1, 2, 3} then ModeICMP else ModeSCTP)"

definition mode_protocol :: "CLatencyPktMode \<Rightarrow> u8" where
  "mode_protocol md = (case md of ModeSCTP \<Rightarrow> 0x84 | ModeICMP \<Rightarrow> 1)"

text \<open>The packets the program starts from.\<close>

definition sctp_pkt :: mem where
  "sctp_pkt = [0x00,0x04,0x96,0x08,0xe0,0x40, 0x00,0x0e,0x2e,0x24,0x37,0x5f, 0x08,0x00,
     0x45,0x02,0x00,0x30, 0x00,0x00,0x40,0x00, 0xff,0x84,0xbd,0x04, 0x9b,0xe6,0x18,0x9b, 0xcb,0xff,0xfc,0xc2,
     0x80,0x44, 0x00,0x50, 0x00,0x00,0x00,0x00, 0x11,0x22,0x33,0x44, 0x00,0x00,0x00,0x00, 0x00,0x00,0x00,0x00, 0x00,0x01,0xa0,0x00, 0x00,0x00,0x00,0x00]"

definition icmp_pkt :: mem where
  "icmp_pkt = [0x00,0x04,0x96,0x08,0xe0,0x40, 0x00,0x0e,0x2e,0x24,0x37,0x5f, 0x08,0x00,
     0x45,0x02,0x00,0x30, 0x00,0x00,0x40,0x00, 0xff,0x01,0xbd,0x04, 0x9b,0xe6,0x18,0x9b, 0xcb,0xff,0xfc,0xc2,
     0x08,0x00, 0x01,0x02, 0xaa,0xbb, 0x00,0x00, 0x11,0x22,0x33,0x44, 0x00,0x00,0x00,0x00, 0x00,0x00,0x00,0x00, 0x00,0x01,0xa0,0x00, 0x00,0x00,0x00,0x00]"

definition getPacketData :: "CLatencyPktMode \<Rightarrow> mem" where
  "getPacketData md = (case md of ModeSCTP \<Rightarrow> sctp_pkt | ModeICMP \<Rightarrow> icmp_pkt)"

definition getPacketLen :: "CLatencyPktMode \<Rightarrow> u8" where
  "getPacketLen md = of_nat (length (getPacketData md))"

definition mode_IsLatencyPkt :: "CLatencyPktMode \<Rightarrow> mem \<Rightarrow> nat option \<Rightarrow> lat_fault + bool" where
  "mode_IsLatencyPkt md m ipv4 = (case ipv4 of
       None \<Rightarrow> Inr False
     | Some ip \<Rightarrow> bindE (liftE LatRead (getProtocol m ip)) (\<lambda>p. Inr (p = mode_protocol md)))"

definition icmp_getSeqNum :: "mem \<Rightarrow> nat \<Rightarrow> u16 option" where
  "icmp_getSeqNum m p = map_option PKT_NTOHS (mem_rd m (p + 6))"

definition icmp_setSeqNum :: "mem \<Rightarrow> nat \<Rightarrow> u16 \<Rightarrow> mem option" where
  "icmp_setSeqNum m p s = mem_wr m (p + 6) (PKT_NTOHS s)"

definition icmp_setType :: "mem \<Rightarrow> nat \<Rightarrow> u8 \<Rightarrow> mem option" where
  "icmp_setType m p t = mem_wr m p t"

definition icmp_updateCheckSum :: "mem \<Rightarrow> nat \<Rightarrow> u16 \<Rightarrow> lat_fault + mem" where
  "icmp_updateCheckSum m p len =
     bindE (liftE LatRead (mem_wr m (p + 2) (PKT_NTOHS 0))) (\<lambda>m1.
     bindE (liftE LatRead (pkt_InetChecksum m1 p (unat len))) (\<lambda>cs.
       liftE LatRead (mem_wr m1 (p + 2) cs)))"

definition mode_update_pkt :: "lat_cfg \<Rightarrow> mem \<Rightarrow> nat \<Rightarrow> bool \<Rightarrow> u16 \<Rightarrow> u16 \<Rightarrow> lat_fault + mem \<times> u16" where
  "mode_update_pkt c m p is_client_to_server l4_len tx_seq = (case l_pkt_mode c of
       ModeSCTP \<Rightarrow> Inr (m, tx_seq)
     | ModeICMP \<Rightarrow>
         let zero = lc_l_pkt_mode c = L_PKT_SUBMODE_0_SEQ in
         bindE (liftE LatRead (icmp_setSeqNum m p (if zero then 0 else tx_seq))) (\<lambda>m1.
         bindE (liftE LatRead (icmp_setType m1 p (if \<not> is_client_to_server \<and> lc_l_pkt_mode c = L_PKT_SUBMODE_REPLY then 0 else 8))) (\<lambda>m2.
         bindE (icmp_updateCheckSum m2 p l4_len) (\<lambda>m3.
           Inr (m3, if zero then tx_seq else tx_seq + 1)))))"

definition mode_update_recv :: "lat_cfg \<Rightarrow> mem \<Rightarrow> nat \<Rightarrow> u16 \<times> u16 \<Rightarrow> lat_fault + u16 \<times> u16" where
  "mode_update_recv c m p rt = (case l_pkt_mode c of
       ModeSCTP \<Rightarrow> Inr rt
     | ModeICMP \<Rightarrow> bindE (liftE LatRead (icmp_getSeqNum m p)) (\<lambda>r. Inr (r, if r = 0 then 0 else snd rt)))"

section \<open>Ports\<close>

record CCPortLatency =
  cl_nat_learn :: bool
  cl_nat_can_send :: bool
  cl_nat_external_ip :: u32
  cl_tx_seq :: u32
  cl_rx_seq :: u32
  cl_id :: u8
  cl_payload_offset :: u16
  cl_l4_offset :: u16
  cl_pkt_size :: u16
  cl_icmp_tx_seq :: u16
  cl_icmp_rx_seq :: u16
  cl_tx_pkt_ok :: u64
  cl_tx_pkt_err :: u64
  cl_pkt_ok :: u64
  cl_unsup_prot :: u64
  cl_no_magic :: u64
  cl_no_id :: u64
  cl_seq_error :: u64
  cl_rx_check :: u64
  cl_no_ipv4_option :: u64
  cl_length_error :: u64
  cl_hist :: CTimeHistogram
  cl_jitter :: CJitter

definition lat_reset :: "CCPortLatency \<Rightarrow> CCPortLatency" where
  "lat_reset p = p\<lparr>cl_rx_seq := cl_tx_seq p, cl_tx_pkt_err := 0, cl_tx_pkt_ok := 0, cl_pkt_ok := 0, cl_rx_check := 0, cl_no_magic := 0,
     cl_unsup_prot := 0, cl_no_id := 0, cl_seq_error := 0, cl_length_error := 0, cl_no_ipv4_option := 0, cl_hist := hist_Reset (cl_hist p)\<rparr>"

definition nat_is_port_can_send :: "u8 \<Rightarrow> bool" where
  "nat_is_port_can_send port_id \<longleftrightarrow> port_id mod 2 = 0"

definition lat_Create :: "u8 \<Rightarrow> u16 \<Rightarrow> u16 \<Rightarrow> u16 \<Rightarrow> CCPortLatency \<Rightarrow> CCPortLatency" where
  "lat_Create port_id payload_offset l4_offset pkt_size p =
     lat_reset (p\<lparr>cl_id := port_id, cl_tx_seq := 0x12345678, cl_icmp_tx_seq := 1, cl_icmp_rx_seq := 0, cl_l4_offset := l4_offset,
       cl_payload_offset := payload_offset, cl_pkt_size := pkt_size, cl_nat_can_send := nat_is_port_can_send port_id,
       cl_nat_learn := nat_is_port_can_send port_id, cl_nat_external_ip := 0, cl_hist := hist_Create (cl_hist p)\<rparr>)"

definition can_send_packet :: "lat_cfg \<Rightarrow> nat \<Rightarrow> CCPortLatency \<Rightarrow> bool" where
  "can_send_packet c direction p =
     (if lc_l_pkt_mode c = L_PKT_SUBMODE_REPLY \<and> direction = 1 then cl_icmp_tx_seq p \<le> cl_icmp_rx_seq p
      else if \<not> lc_learn_mode c then True else cl_nat_can_send p)"

definition do_learn :: "u32 \<Rightarrow> CCPortLatency \<Rightarrow> CCPortLatency" where
  "do_learn external_ip p = p\<lparr>cl_nat_learn := True, cl_nat_can_send := True, cl_nat_external_ip := external_ip\<rparr>"

text \<open>\<open>macs\<close> are the twelve octets of the two addresses, \<open>tick\<close> the clock.\<close>

definition mem_cpy :: "mem \<Rightarrow> nat \<Rightarrow> mem \<Rightarrow> mem option" where
  "mem_cpy m i bs = (if i + length bs \<le> length m then Some (take i m @ bs @ drop (i + length bs) m) else None)"

definition update_packet :: "lat_cfg \<Rightarrow> mem \<Rightarrow> u64 \<Rightarrow> nat \<Rightarrow> mem \<Rightarrow> CCPortLatency \<Rightarrow> lat_fault + mem \<times> CCPortLatency" where
  "update_packet c macs tick port_id m p =
     (let h = unat (cl_payload_offset p) in
      bindE (liftE LatRead (mem_cpy m 0 macs)) (\<lambda>m0.
      bindE (liftE LatRead (mem_wr m0 (h + 8) (LATENCY_MAGIC OR ucast (cl_id p)))) (\<lambda>m1.
      bindE (liftE LatRead (mem_wr m1 h tick)) (\<lambda>m2.
      bindE (liftE LatRead (mem_wr m2 (h + 12) (cl_tx_seq p))) (\<lambda>m3.
      bindE (mode_update_pkt c m3 (unat (cl_l4_offset p)) (port_id mod 2 = 0) (cl_pkt_size p - cl_l4_offset p) (cl_icmp_tx_seq p)) (\<lambda>(m4, icmp_tx_seq).
        Inr (m4, p\<lparr>cl_tx_seq := cl_tx_seq p + 1, cl_icmp_tx_seq := icmp_tx_seq\<rparr>)))))))"

definition is_any_err :: "CCPortLatency \<Rightarrow> CCPortLatency \<Rightarrow> bool" where
  "is_any_err rx_port p \<longleftrightarrow> \<not> (cl_tx_pkt_ok p = cl_pkt_ok rx_port \<and>
     cl_unsup_prot p + cl_no_magic p + cl_no_id p + cl_seq_error p + cl_length_error p + cl_no_ipv4_option p + cl_tx_pkt_err p = 0)"

section \<open>A received packet\<close>

text \<open>What \<open>check_packet\<close> changes: the port, the learning of translations and the pointer to the header of the receive check.\<close>

record lat_rx =
  lr_port :: CCPortLatency
  lr_nat :: CNatRxManager
  lr_rx_p :: "nat option"

definition on_lat_port :: "(CCPortLatency \<Rightarrow> CCPortLatency) \<Rightarrow> lat_rx \<Rightarrow> lat_rx" where
  "on_lat_port f s = s\<lparr>lr_port := f (lr_port s)\<rparr>"

definition seq_err :: "lat_rx \<Rightarrow> lat_rx" where
  "seq_err s = on_lat_port (\<lambda>p. p\<lparr>cl_seq_error := cl_seq_error p + 1\<rparr>) s"

definition RX_CHECK_V4_OPT_TYPE :: u8 where "RX_CHECK_V4_OPT_TYPE = 0x57"
definition RX_CHECK_V6_OPT_TYPE :: u8 where "RX_CHECK_V6_OPT_TYPE = 0x3c"

text \<open>The surroundings of the learning of translations: which attempts find a ring full, the node that is allocated and the time.\<close>

type_synonym nat_env = "(nat \<Rightarrow> bool) \<times> CGenNodeNatInfo option \<times> rat"

function ipv4_options :: "lat_cfg \<Rightarrow> (nat \<Rightarrow> nat_env) \<Rightarrow> mem \<Rightarrow> nat \<Rightarrow> u8 \<Rightarrow> nat \<Rightarrow> lat_rx \<Rightarrow> lat_fault + bool \<times> lat_rx" where
  "ipv4_options c env m ip opt_len opt_ptr s =
     (if opt_len = 0 then Inr (True, s)
      else bindE (liftE LatRead (mem_rd m opt_ptr)) (\<lambda>typ.
        if typ = RX_CHECK_V4_OPT_TYPE then
          if \<not> lc_rx_check_mode c \<or> unat opt_len < RX_CHECK_LEN then Inr (False, seq_err s)
          else ipv4_options c env m ip (opt_len - 24) (opt_ptr + RX_CHECK_LEN)
                 ((on_lat_port (\<lambda>p. p\<lparr>cl_rx_check := cl_rx_check p + 1\<rparr>) s)\<lparr>lr_rx_p := Some opt_ptr\<rparr>)
        else if typ = noIPV4_OPTION then
          if \<not> lc_learn_mode c \<or> opt_len < noOPTION_LEN then Inr (False, seq_err s)
          else bindE (liftE LatRead (is_valid_ipv4_magic m opt_ptr)) (\<lambda>valid.
            if \<not> valid then Inr (False, on_lat_port (\<lambda>p. p\<lparr>cl_no_ipv4_option := cl_no_ipv4_option p + 1\<rparr>) s)
            else (case env opt_ptr of (full, create_node, now) \<Rightarrow>
              (case handle_packet_ipv4 full create_node now m opt_ptr ip (lr_nat s) of
                 Inl e \<Rightarrow> Inl (LatNat e)
               | Inr nat' \<Rightarrow> ipv4_options c env m ip (opt_len - 8) (opt_ptr + 8) (s\<lparr>lr_nat := nat'\<rparr>))))
        else Inr (False, seq_err s)))"
  by pat_completeness auto
termination
proof (relation "measure (\<lambda>(c, env, m, ip, opt_len, opt_ptr, s). unat opt_len)", goal_cases)
  case 1
  show ?case by simp
next
  case (2 c env m ip opt_len opt_ptr s x)
  then show ?case by (simp add: unat_sub word_le_nat_alt RX_CHECK_LEN_def)
next
  case (3 c env m ip opt_len opt_ptr s)
  then show ?case by (simp add: unat_sub word_le_nat_alt word_less_nat_alt noOPTION_LEN_def)
qed

declare ipv4_options.simps [simp del]

text \<open>A packet that is not a latency packet.\<close>

definition check_other :: "lat_cfg \<Rightarrow> (nat \<Rightarrow> nat_env) \<Rightarrow> mem \<Rightarrow> CSimplePacketParser \<Rightarrow> lat_rx \<Rightarrow> lat_fault + bool \<times> lat_rx" where
  "check_other c env m ps s = (case ps_ipv6 ps of
       Some ip \<Rightarrow>
         if ps_protocol ps = RX_CHECK_V6_OPT_TYPE \<and> lc_rx_check_mode c
         then Inr (True, (on_lat_port (\<lambda>p. p\<lparr>cl_rx_check := cl_rx_check p + 1\<rparr>) s)\<lparr>lr_rx_p := Some (ip + IPV6_HDR_LEN)\<rparr>)
         else Inr (False, seq_err s)
     | None \<Rightarrow> (case ps_ipv4 ps of
         None \<Rightarrow> Inl LatRead
       | Some ip \<Rightarrow> bindE (liftE LatRead (getOptionLen m ip)) (\<lambda>opt_len. ipv4_options c env m ip opt_len (ip + 20) s)))"

definition check_seq :: "u64 \<Rightarrow> u32 \<Rightarrow> u64 \<Rightarrow> CCPortLatency \<Rightarrow> lat_fault + bool \<times> CCPortLatency" where
  "check_seq tick seq time_stamp p =
     (if seq \<noteq> cl_rx_seq p then Inr (False, p\<lparr>cl_seq_error := cl_seq_error p + 1, cl_rx_seq := seq + 1\<rparr>)
      else let ctime = ptime_convert_hr_dsec (tick - time_stamp) in
        bindE (liftE LatHist (hist_Add ctime (cl_hist p))) (\<lambda>(b, hist).
          Inr (True, p\<lparr>cl_rx_seq := cl_rx_seq p + 1, cl_pkt_ok := cl_pkt_ok p + 1, cl_hist := hist, cl_jitter := jitter_calc ctime (cl_jitter p)\<rparr>)))"

definition check_latency :: "lat_cfg \<Rightarrow> u64 \<Rightarrow> mem \<Rightarrow> CSimplePacketParser \<Rightarrow> u16 \<Rightarrow> CCPortLatency \<Rightarrow> lat_fault + bool \<times> CCPortLatency" where
  "check_latency c tick m ps pkt_size p0 =
     bindE (if lc_learn_mode c \<and> \<not> cl_nat_learn p0
            then (case ps_ipv4 ps of None \<Rightarrow> Inl LatRead | Some ip \<Rightarrow> bindE (liftE LatRead (getSourceIp m ip)) (\<lambda>src. Inr (do_learn src p0)))
            else Inr p0) (\<lambda>p.
       if uint pkt_size - uint (ps_vlan_offset ps) \<noteq> uint (cl_pkt_size p) then Inr (False, p\<lparr>cl_length_error := cl_length_error p + 1\<rparr>)
       else
         let vlan = unat (ps_vlan_offset ps); h = unat (cl_payload_offset p) + vlan in
         bindE (mode_update_recv c m (unat (cl_l4_offset p) + vlan) (cl_icmp_rx_seq p, cl_icmp_tx_seq p)) (\<lambda>(rx, tx).
         bindE (liftE LatRead (lh_seq m h)) (\<lambda>seq.
         bindE (liftE LatRead (lh_time_stamp m h)) (\<lambda>time_stamp.
           check_seq tick seq time_stamp (p\<lparr>cl_icmp_rx_seq := rx, cl_icmp_tx_seq := tx\<rparr>)))))"

text \<open>A received packet is a buffer and the length the driver reports; the two are independent.\<close>

definition check_packet :: "lat_cfg \<Rightarrow> (nat \<Rightarrow> nat_env) \<Rightarrow> u64 \<Rightarrow> nat \<Rightarrow> mem \<Rightarrow> CCPortLatency \<Rightarrow> CNatRxManager \<Rightarrow> lat_fault + bool \<times> lat_rx" where
  "check_packet c env tick pkt_len m p n =
     (let s = \<lparr>lr_port = p, lr_nat = n, lr_rx_p = None\<rparr> in
      bindE (Parse m) (\<lambda>(ok, ps).
        if \<not> ok then Inr (False, on_lat_port (\<lambda>p. p\<lparr>cl_unsup_prot := cl_unsup_prot p + 1\<rparr>) s)
        else
          let pkt_size0 = (of_nat pkt_len :: u16) in
          bindE (getPktSize m ps) (\<lambda>size.
          let pkt_size = (if uint size = uint pkt_size0 - 4 then pkt_size0 - 4 else pkt_size0) in
          bindE (mode_IsLatencyPkt (l_pkt_mode c) m (ps_ipv4 ps)) (\<lambda>b1.
          bindE (IsLatencyPkt m (ps_l4 ps + 8)) (\<lambda>b2.
            if \<not> (b1 \<and> b2) then check_other c env m ps s
            else bindE (check_latency c tick m ps pkt_size p) (\<lambda>(r, p'). Inr (r, s\<lparr>lr_port := p'\<rparr>)))))))"

section \<open>The manager\<close>

text \<open>The two numbers \<open>m_d_time\<close> and the pointers to the ports' devices are left out; nothing reads the first, and what a device does is an input.\<close>

record CLatencyManagerCfg =
  cg_max_ports :: nat
  cg_cps :: rat
  cg_client_ip :: u32
  cg_server_ip :: u32
  cg_dual_port_mask :: u32

definition CLatencyManagerCfg_new :: CLatencyManagerCfg where
  "CLatencyManagerCfg_new = \<lparr>cg_max_ports = 0, cg_cps = 0, cg_client_ip = 0x10000000, cg_server_ip = 0x20000000, cg_dual_port_mask = 0x01000000\<rparr>"

record CLatencyManager =
  lm_is_active :: bool
  lm_do_stop :: bool
  lm_ports :: "CCPortLatency list"
  lm_cps :: rat
  lm_delta_sec :: rat
  lm_start_time :: u64
  lm_port_mask :: u32
  lm_max_ports :: nat
  lm_rx_check :: "CTimerWheel \<times> RxCheckManager"
  lm_nat :: CNatRxManager
  lm_cpu_dp :: CCpuUtlDp
  lm_cpu_cp :: CCpuUtlCp
  lm_client_ip :: u32
  lm_server_ip :: u32
  lm_dual_port_mask :: u32
  lm_pkt_size :: u16

definition swap_port :: "u8 \<Rightarrow> u8" where
  "swap_port port_id = (let offset = push_bit 1 (drop_bit 1 port_id); client_index = port_id mod 2 in offset + (client_index XOR 1))"

text \<open>A packet as it arrives: the length the driver reports, the buffer, the clocks and what the learning of translations meets.\<close>

record rx_pkt =
  rp_len :: nat
  rp_data :: mem
  rp_tick :: u64
  rp_now :: rat
  rp_tick32 :: u32
  rp_env :: "nat \<Rightarrow> nat_env"

text \<open>The header of the receive check in a packet.\<close>

definition dec_rx_header :: "mem \<Rightarrow> nat \<Rightarrow> CRx_check_header option" where
  "dec_rx_header m p = (if p + RX_CHECK_LEN \<le> length m then
     (case (mem_rd m p, mem_rd m (p + 1), mem_rd m (p + 2), mem_rd m (p + 4), mem_rd m (p + 8)) of
        (Some typ, Some len, Some magic, Some ts, Some fid) \<Rightarrow>
          (case (mem_rd m (p + 16), mem_rd m (p + 18), mem_rd m (p + 20), mem_rd m (p + 21), mem_rd m (p + 22)) of
             (Some pid, Some fsize, Some flags, Some tid, Some aging) \<Rightarrow>
               Some \<lparr>rx_option_type = typ, rx_option_len = len, rx_magic = magic, rx_time_stamp = ts, rx_flow_id = fid, rx_pkt_id = pid,
                 rx_flow_size = fsize, rx_flags = flags, rx_template_id = tid, rx_aging_sec = aging\<rparr>
           | _ \<Rightarrow> None)
      | _ \<Rightarrow> None) else None)"

definition handle_rx_pkt ::
  "(nat list \<Rightarrow> nat) \<Rightarrow> lat_cfg \<Rightarrow> nat \<Rightarrow> rx_pkt \<Rightarrow> CLatencyManager \<Rightarrow> lat_fault + CLatencyManager" where
  "handle_rx_pkt pick c i pk lm =
     bindE (check_packet c (rp_env pk) (rp_tick pk) (rp_len pk) (rp_data pk) (lm_ports lm ! i) (lm_nat lm)) (\<lambda>(ok, s).
       let lm1 = lm\<lparr>lm_ports := (lm_ports lm)[i := lr_port s], lm_nat := lr_nat s\<rparr> in
       (case lr_rx_p s of
          None \<Rightarrow> Inr lm1
        | Some rxc \<Rightarrow>
            bindE (liftE LatRead (dec_rx_header (rp_data pk) rxc)) (\<lambda>h.
            bindE (liftE LatRxCheck (handle_packet pick (rp_now pk) (rp_tick32 pk) h (lm_rx_check lm1))) (\<lambda>rx'.
              Inr (lm1\<lparr>lm_rx_check := rx'\<rparr>)))))"

text \<open>A message of a core: its type, direction, offset and packet.\<close>

record CGenNodeLatencyPktInfo =
  ln_msg_type :: u8
  ln_dir :: u8
  ln_latency_offset :: u16
  ln_pkt :: rx_pkt

definition LATENCY_PKT :: u8 where "LATENCY_PKT = 8"

definition handle_latency_pkt_msg ::
  "(nat list \<Rightarrow> nat) \<Rightarrow> lat_cfg \<Rightarrow> u8 \<Rightarrow> CGenNodeLatencyPktInfo \<Rightarrow> CLatencyManager \<Rightarrow> lat_fault + CLatencyManager" where
  "handle_latency_pkt_msg pick c thread_id msg lm =
     (let rx_port_index = push_bit 1 thread_id + (ln_dir msg AND 1) in
      if ln_latency_offset msg \<noteq> 0xdead \<or> \<not> unat rx_port_index < lm_max_ports lm then Inl LatAssert
      else handle_rx_pkt pick c (unat rx_port_index) (ln_pkt msg) lm)"

definition run_rx_queue_msgs ::
  "(nat list \<Rightarrow> nat) \<Rightarrow> lat_cfg \<Rightarrow> u8 \<Rightarrow> CGenNodeLatencyPktInfo list \<Rightarrow> CLatencyManager \<Rightarrow> lat_fault + CLatencyManager" where
  "run_rx_queue_msgs pick c thread_id ring lm =
     foldE (\<lambda>lm msg. if ln_msg_type msg = LATENCY_PKT then handle_latency_pkt_msg pick c thread_id msg lm else Inl LatAssert) lm ring"

definition try_rx_queues ::
  "(nat list \<Rightarrow> nat) \<Rightarrow> lat_cfg \<Rightarrow> u8 \<Rightarrow> (nat \<Rightarrow> CGenNodeLatencyPktInfo list) \<Rightarrow> CLatencyManager \<Rightarrow> lat_fault + CLatencyManager" where
  "try_rx_queues pick c threads rings lm =
     foldE (\<lambda>lm ti. if rings ti \<noteq> [] then run_rx_queue_msgs pick c (of_nat ti) (rings ti) lm else Inr lm) lm [0..<unat threads]"

text \<open>\<open>burst\<close> are the packets the device of a port has (it hands out 64 at most), \<open>ticks\<close> the clock before and after them.\<close>

definition try_rx_port ::
  "(nat list \<Rightarrow> nat) \<Rightarrow> lat_cfg \<Rightarrow> (nat \<Rightarrow> rx_pkt list) \<Rightarrow> (nat \<Rightarrow> u64 \<times> u64) \<Rightarrow> CLatencyManager \<Rightarrow> nat \<Rightarrow> lat_fault + CLatencyManager" where
  "try_rx_port pick c burst ticks lm i =
     (let lm1 = lm\<lparr>lm_cpu_dp := start_work (fst (ticks i)) (lm_cpu_dp lm)\<rparr>; pks = take 64 (burst i) in
      if pks = [] then Inr lm1
      else bindE (foldE (\<lambda>lm pk. handle_rx_pkt pick c i pk lm) lm1 pks) (\<lambda>lm2.
        Inr (lm2\<lparr>lm_cpu_dp := commit (snd (ticks i)) (lm_cpu_dp lm2)\<rparr>)))"

definition try_rx ::
  "(nat list \<Rightarrow> nat) \<Rightarrow> lat_cfg \<Rightarrow> (nat \<Rightarrow> rx_pkt list) \<Rightarrow> (nat \<Rightarrow> u64 \<times> u64) \<Rightarrow> CLatencyManager \<Rightarrow> lat_fault + CLatencyManager" where
  "try_rx pick c burst ticks lm = foldE (try_rx_port pick c burst ticks) lm [0..<lm_max_ports lm]"

definition latency_ips :: "nat \<Rightarrow> u32 \<Rightarrow> CLatencyManager \<Rightarrow> u32 \<times> u32" where
  "latency_ips port_id extern_ip lm =
     (let c0 = (if extern_ip \<noteq> 0 then extern_ip else lm_client_ip lm);
          s0 = lm_server_ip lm;
          (c, s) = (if port_id mod 2 = 0 then (c0, s0) else (s0, c0));
          mask = of_nat (port_id div 2) * lm_dual_port_mask lm
      in (if extern_ip = 0 then c + mask else c, s + mask))"

definition send_pkt ::
  "lat_cfg \<Rightarrow> (u32 \<times> u32 \<Rightarrow> mem) \<Rightarrow> (nat \<Rightarrow> mem) \<Rightarrow> u64 \<Rightarrow> (nat \<Rightarrow> bool) \<Rightarrow> CLatencyManager \<times> (nat \<times> mem) list \<Rightarrow> nat \<Rightarrow> lat_fault + CLatencyManager \<times> (nat \<times> mem) list" where
  "send_pkt c gen macs tick tx_ok st i = (case st of (lm, out) \<Rightarrow>
     (let p = lm_ports lm ! i in
      if bit (lm_port_mask lm) i \<and> can_send_packet c (i mod 2) p then
        bindE (update_packet c (macs i) tick i (gen (latency_ips i (cl_nat_external_ip p) lm)) p) (\<lambda>(m, p1).
          let p2 = (if tx_ok i then p1\<lparr>cl_tx_pkt_ok := cl_tx_pkt_ok p1 + 1\<rparr> else p1\<lparr>cl_tx_pkt_err := cl_tx_pkt_err p1 + 1\<rparr>)
          in Inr (lm\<lparr>lm_ports := (lm_ports lm)[i := p2]\<rparr>, if tx_ok i then out @ [(i, m)] else out))
      else Inr (lm, out)))"

definition send_pkt_all_ports ::
  "lat_cfg \<Rightarrow> (u32 \<times> u32 \<Rightarrow> mem) \<Rightarrow> (nat \<Rightarrow> mem) \<Rightarrow> u64 \<Rightarrow> (nat \<Rightarrow> bool) \<Rightarrow> CLatencyManager \<Rightarrow> lat_fault + CLatencyManager \<times> (nat \<times> mem) list" where
  "send_pkt_all_ports c gen macs tick tx_ok lm =
     foldE (send_pkt c gen macs tick tx_ok) (lm\<lparr>lm_start_time := tick\<rparr>, []) [0..<lm_max_ports lm]"

definition manager_reset :: "CLatencyManager \<Rightarrow> CLatencyManager" where
  "manager_reset lm = lm\<lparr>lm_ports := map lat_reset (lm_ports lm)\<rparr>"

definition set_mask :: "u32 \<Rightarrow> CLatencyManager \<Rightarrow> CLatencyManager" where
  "set_mask msk lm = lm\<lparr>lm_port_mask := msk\<rparr>"

definition set_ip :: "u32 \<Rightarrow> u32 \<Rightarrow> u32 \<Rightarrow> CLatencyManager \<Rightarrow> CLatencyManager" where
  "set_ip src dst dual lm = lm\<lparr>lm_client_ip := src, lm_server_ip := dst, lm_dual_port_mask := dual\<rparr>"

definition get_total_pkt :: "CLatencyManager \<Rightarrow> u64" where
  "get_total_pkt lm = foldl (\<lambda>t p. t + cl_tx_pkt_ok p) 0 (lm_ports lm)"

definition get_total_bytes :: "CLatencyManager \<Rightarrow> u64" where
  "get_total_bytes lm = foldl (\<lambda>t p. t + cl_tx_pkt_ok p * (ucast (lm_pkt_size lm) + 4)) 0 (lm_ports lm)"

definition is_any_error :: "CLatencyManager \<Rightarrow> bool" where
  "is_any_error lm = list_ex (\<lambda>i. is_any_err (lm_ports lm ! unat (swap_port (of_nat i))) (lm_ports lm ! i)) [0..<lm_max_ports lm]"

definition lat_update :: "u64 \<Rightarrow> CLatencyManager \<Rightarrow> CLatencyManager option" where
  "lat_update tick lm = map_option (\<lambda>cp. lm\<lparr>lm_cpu_cp := cp, lm_ports := map (\<lambda>p. p\<lparr>cl_hist := hist_update (cl_hist p)\<rparr>) (lm_ports lm)\<rparr>)
     (cpu_Update tick (lm_cpu_dp lm) (lm_cpu_cp lm))"

definition lat_stop :: "CLatencyManager \<Rightarrow> CLatencyManager" where
  "lat_stop lm = lm\<lparr>lm_do_stop := True\<rparr>"

definition get_payload_offset :: u16 where "get_payload_offset = 34 + 8"
definition get_l4_offset :: u16 where "get_l4_offset = 34"
definition get_pkt_size :: "lat_cfg \<Rightarrow> u16" where "get_pkt_size c = ucast (getPacketLen (l_pkt_mode c))"

text \<open>With a rate of zero the period is infinite and its conversion to ticks undefined.\<close>

definition manager_Create :: "lat_cfg \<Rightarrow> rat \<Rightarrow> u64 \<Rightarrow> u8 \<Rightarrow> CLatencyManagerCfg \<Rightarrow> CLatencyManager \<Rightarrow> lat_fault + CLatencyManager" where
  "manager_Create c now tick num_threads cfg lm =
     (if \<not> (cg_max_ports cfg \<le> 12 \<and> cg_max_ports cfg mod 2 = 0) then Inl LatAssert
      else if cg_cps cfg = 0 then Inl LatRate
      else
        let lm1 = lm\<lparr>lm_max_ports := cg_max_ports cfg, lm_port_mask := 0xffffffff, lm_do_stop := False, lm_is_active := False, lm_pkt_size := get_pkt_size c,
              lm_ports := map (\<lambda>i. lat_Create (of_nat i) get_payload_offset get_l4_offset (get_pkt_size c) (lm_ports lm ! i)) [0..<cg_max_ports cfg],
              lm_cps := cg_cps cfg, lm_delta_sec := 1 / cg_cps cfg\<rparr>;
            lm2 = (if lc_rx_check_mode c then lm1\<lparr>lm_rx_check := (fst (lm_rx_check lm1), (rx_Create (snd (lm_rx_check lm1)))\<lparr>rm_cur_time := now\<rparr>)\<rparr> else lm1);
            lm3 = set_ip (cg_client_ip cfg) (cg_server_ip cfg) (cg_dual_port_mask cfg) lm2;
            lm4 = lm3\<lparr>lm_cpu_cp := cpu_Create tick (lm_cpu_dp lm3)\<rparr>
        in Inr (if lc_learn_mode c then lm4\<lparr>lm_nat := nat_Create num_threads (lm_nat lm4)\<rparr> else lm4))"

section \<open>A latency packet on its way\<close>

text \<open>The packet a port starts from: Ethernet, IPv4 without options, the protocol of the mode, the header of the latency packet at octet 42.\<close>

definition lat_template :: "lat_cfg \<Rightarrow> mem \<Rightarrow> CCPortLatency \<Rightarrow> bool" where
  "lat_template c m p \<longleftrightarrow> length m = unat (cl_pkt_size p) \<and> cl_payload_offset p = 42 \<and> cl_l4_offset p = 34 \<and> 58 \<le> length m \<and> even (length m) \<and>
     getNextProtocol m = Some EtherIP \<and> getHeaderLength m 14 = Some 20 \<and> getProtocol m 14 = Some (mode_protocol (l_pkt_mode c)) \<and>
     getTotalLength m 14 = Some (of_nat (length m - 14))"

text \<open>What the receiver sees of it.\<close>

definition lat_packet :: "lat_cfg \<Rightarrow> mem \<Rightarrow> CCPortLatency \<Rightarrow> u32 \<Rightarrow> u64 \<Rightarrow> bool" where
  "lat_packet c m p seq tick \<longleftrightarrow> lat_template c m p \<and> lh_seq m 42 = Some seq \<and> lh_time_stamp m 42 = Some tick \<and>
     (\<exists>magic. lh_magic m 42 = Some magic \<and> magic AND 0xffffff00 = LATENCY_MAGIC)"

lemma latency_magic: "(LATENCY_MAGIC OR ucast (x :: u8)) AND 0xffffff00 = LATENCY_MAGIC"
proof -
  have e: "(ucast x :: u32) AND mask 8 = ucast x"
    unfolding take_bit_eq_mask [symmetric] by (rule bit_eqI) (auto simp: bit_simps dest: bit_imp_le_length)
  have "(ucast x :: u32) AND 0xffffff00 = (ucast x AND mask 8) AND 0xffffff00" by (simp only: e)
  also have "\<dots> = ucast x AND (mask 8 AND 0xffffff00)" by (simp only: and.assoc)
  also have "mask 8 AND 0xffffff00 = (0 :: u32)" by (simp add: mask_numeral)
  finally show ?thesis by (simp add: LATENCY_MAGIC_def bit.conj_disj_distrib2)
qed

text \<open>Octets that two packets of the same length share.\<close>

definition same_on :: "nat set \<Rightarrow> mem \<Rightarrow> mem \<Rightarrow> bool" where
  "same_on A m m' \<longleftrightarrow> length m' = length m \<and> (\<forall>k\<in>A. m' ! k = m ! k)"

lemma same_on_trans: "same_on A m1 m2 \<Longrightarrow> same_on B m2 m3 \<Longrightarrow> C \<subseteq> A \<inter> B \<Longrightarrow> same_on C m1 m3"
  unfolding same_on_def by (metis Int_iff subsetD)

lemma same_on_wr:
  assumes "mem_wr m i (w :: 'a::len word) = Some m'" and "A \<inter> {i..<i + LENGTH('a) div 8} = {}"
  shows "same_on A m m'"
proof -
  have "m' ! k = m ! k" if "k \<in> A" for k using mem_wr_frame [OF assms(1), of k] assms(2) that by (meson atLeastLessThan_iff disjoint_iff not_le)
  then show ?thesis using mem_wr_length [OF assms(1)] by (simp add: same_on_def)
qed

lemma same_on_cpy:
  assumes "mem_cpy m 0 bs = Some m'" and "A \<inter> {..<length bs} = {}"
  shows "same_on A m m'"
  using assms by (auto simp: same_on_def mem_cpy_def nth_append disjoint_iff split: if_splits)

lemma same_on_rd:
  assumes "same_on A m m'" and "{i..<i + LENGTH('a) div 8} \<subseteq> A"
  shows "(mem_rd m' i :: 'a::len word option) = mem_rd m i"
  using assms by (intro mem_rd_cong) (auto simp: same_on_def)

lemma same_on_template:
  assumes "same_on {12..<34} m m'"
  shows "lat_template c m' p = lat_template c m p"
  using assms same_on_rd [OF assms, where 'a = 16, of 12] same_on_rd [OF assms, where 'a = 8, of 14] same_on_rd [OF assms, where 'a = 8, of 23]
    same_on_rd [OF assms, where 'a = 16, of 16]
  by (simp add: lat_template_def same_on_def getNextProtocol_def getHeaderLength_def getProtocol_def getTotalLength_def)

lemma icmp_checksum_ok:
  assumes "36 + 2 \<le> length m" and "34 + unat len \<le> length m" and "even (unat len)"
  shows "\<exists>m'. icmp_updateCheckSum m 34 len = Inr m' \<and> same_on (- {34..<42}) m m'"
proof -
  obtain m1 where m1: "mem_wr m 36 (PKT_NTOHS 0) = Some m1" "length m1 = length m" using mem_wr_ex [of 36 m "PKT_NTOHS 0"] assms(1) by auto
  obtain cs where cs: "pkt_InetChecksum m1 34 (unat len) = Some cs" using pkt_InetChecksum_eq [OF assms(3), of 34 m1] assms(2) m1(2) by simp
  obtain m2 where m2: "mem_wr m1 36 cs = Some m2" using mem_wr_ex [of 36 m1 cs] assms(1) m1(2) by auto
  have "same_on (- {34..<42}) m m1" "same_on (- {34..<42}) m1 m2" by (auto intro!: same_on_wr [OF m1(1)] same_on_wr [OF m2])
  then have "same_on (- {34..<42}) m m2" by (rule same_on_trans) simp
  then show ?thesis using m1(1) cs m2 by (simp add: icmp_updateCheckSum_def)
qed

lemma mode_update_pkt_ok:
  assumes t: "lat_template c m p" and len: "length m = unat (cl_pkt_size p)"
  shows "\<exists>m' tx. mode_update_pkt c m 34 to_server (cl_pkt_size p - 34) icmp = Inr (m', tx) \<and> same_on (- {34..<42}) m m'"
proof (cases "l_pkt_mode c")
  case ModeSCTP
  then show ?thesis by (simp add: mode_update_pkt_def same_on_def)
next
  case ModeICMP
  let ?s = "if lc_l_pkt_mode c = L_PKT_SUBMODE_0_SEQ then 0 else icmp"
  let ?t = "if \<not> to_server \<and> lc_l_pkt_mode c = L_PKT_SUBMODE_REPLY then 0 else 8 :: u8"
  have n: "58 \<le> length m" "even (length m)" using t unfolding lat_template_def by blast+
  have l4: "unat (cl_pkt_size p - 34) = length m - 34" using n len by (simp add: unat_sub word_le_nat_alt)
  obtain m1 where m1: "icmp_setSeqNum m 34 ?s = Some m1" "length m1 = length m"
    using mem_wr_ex [of 40 m "PKT_NTOHS ?s"] n(1) by (auto simp: icmp_setSeqNum_def)
  obtain m2 where m2: "icmp_setType m1 34 ?t = Some m2" "length m2 = length m"
    using mem_wr_ex [of 34 m1 ?t] n(1) m1(2) by (auto simp: icmp_setType_def)
  obtain m3 where m3: "icmp_updateCheckSum m2 34 (cl_pkt_size p - 34) = Inr m3" "same_on (- {34..<42}) m2 m3"
    using icmp_checksum_ok [of m2 "cl_pkt_size p - 34"] n l4 m2(2) by auto
  have "same_on (- {34..<42}) m m1" using m1(1) by (auto simp: icmp_setSeqNum_def intro!: same_on_wr [of m 40 "PKT_NTOHS ?s"])
  moreover have "same_on (- {34..<42}) m1 m2" using m2(1) by (auto simp: icmp_setType_def intro!: same_on_wr [of m1 34 ?t])
  ultimately have "same_on (- {34..<42}) m m3" using m3(2) by (auto simp: same_on_def)
  then show ?thesis using ModeICMP m1(1) m2(1) m3(1) by (simp add: mode_update_pkt_def Let_def)
qed

lemma update_packet_ok:
  assumes t: "lat_template c m p" and macs: "length macs = 12"
  shows "\<exists>m' tx. update_packet c macs tick i m p = Inr (m', p\<lparr>cl_tx_seq := cl_tx_seq p + 1, cl_icmp_tx_seq := tx\<rparr>) \<and> lat_packet c m' p (cl_tx_seq p) tick"
proof -
  let ?magic = "LATENCY_MAGIC OR ucast (cl_id p)"
  have n: "58 \<le> length m" "length m = unat (cl_pkt_size p)" "cl_payload_offset p = 42" "cl_l4_offset p = 34" using t by (simp_all add: lat_template_def)
  obtain m0 where m0: "mem_cpy m 0 macs = Some m0" "length m0 = length m" using n macs by (simp add: mem_cpy_def)
  obtain m1 where m1: "mem_wr m0 50 ?magic = Some m1" "length m1 = length m" using mem_wr_ex [of 50 m0 ?magic] n(1) m0(2) by auto
  obtain m2 where m2: "mem_wr m1 42 tick = Some m2" "length m2 = length m" using mem_wr_ex [of 42 m1 tick] n(1) m1(2) by auto
  obtain m3 where m3: "mem_wr m2 54 (cl_tx_seq p) = Some m3" "length m3 = length m" using mem_wr_ex [of 54 m2 "cl_tx_seq p"] n(1) m2(2) by auto
  have a0: "same_on {12..<34} m m0" by (rule same_on_cpy [OF m0(1)]) (auto simp: macs)
  have a1: "same_on {12..<34} m0 m1" by (rule same_on_wr [OF m1(1)]) auto
  have a2: "same_on {12..<34} m1 m2" "same_on {50..<54} m1 m2" by (auto intro!: same_on_wr [OF m2(1)])
  have a3: "same_on {12..<34} m2 m3" "same_on {42..<54} m2 m3" by (auto intro!: same_on_wr [OF m3(1)])
  have "same_on {12..<34} m m3" using a0 a1 a2 a3 by (simp add: same_on_def)
  then have t3: "lat_template c m3 p" using same_on_template t by blast
  then obtain m4 tx where m4: "mode_update_pkt c m3 34 (i mod 2 = 0) (cl_pkt_size p - 34) (cl_icmp_tx_seq p) = Inr (m4, tx)" "same_on (- {34..<42}) m3 m4"
    using mode_update_pkt_ok n(2) m3(2) by fastforce
  have t4: "lat_template c m4 p" using same_on_template [of m3 m4] t3 m4(2) by (auto simp: same_on_def)
  have a4: "same_on {42..<58} m3 m4" using m4(2) by (auto simp: same_on_def)
  have "lh_seq m4 42 = Some (cl_tx_seq p)"
    using same_on_rd [OF a4, of 54, where 'a = 32] mem_rd_wr_same [OF _ m3(1)] by (auto simp: lh_seq_def)
  moreover have "lh_time_stamp m4 42 = Some tick"
    using same_on_rd [OF a4, of 42, where 'a = 64] same_on_rd [OF a3(2), of 42, where 'a = 64] mem_rd_wr_same [OF _ m2(1)] by (auto simp: lh_time_stamp_def)
  moreover have "lh_magic m4 42 = Some ?magic"
    using same_on_rd [OF a4, of 50, where 'a = 32] same_on_rd [OF a3(2), of 50, where 'a = 32] same_on_rd [OF a2(2), of 50, where 'a = 32] mem_rd_wr_same [OF _ m1(1)]
    by (auto simp: lh_magic_def)
  ultimately have "lat_packet c m4 p (cl_tx_seq p) tick" using t4 latency_magic by (auto simp: lat_packet_def)
  moreover have "update_packet c macs tick i m p = Inr (m4, p\<lparr>cl_tx_seq := cl_tx_seq p + 1, cl_icmp_tx_seq := tx\<rparr>)"
    using m0(1) m1(1) m2(1) m3(1) m4(1) n(3,4) by (simp add: update_packet_def Let_def)
  ultimately show ?thesis by blast
qed

text \<open>The receiver: what changes beside the check of the sequence number.\<close>

definition lat_learned :: "lat_cfg \<Rightarrow> mem \<Rightarrow> CCPortLatency \<Rightarrow> CCPortLatency" where
  "lat_learned c m p =
     (let p1 = (if lc_learn_mode c \<and> \<not> cl_nat_learn p then do_learn (the (getSourceIp m 14)) p else p);
          r = the (icmp_getSeqNum m 34)
      in if l_pkt_mode c = ModeICMP then p1\<lparr>cl_icmp_rx_seq := r, cl_icmp_tx_seq := (if r = 0 then 0 else cl_icmp_tx_seq p1)\<rparr> else p1)"

lemma check_packet_latency:
  assumes pk: "lat_packet c m p seq time_stamp"
  shows "check_packet c env tick (length m) m p n = bindE (check_seq tick seq time_stamp (lat_learned c m p)) (\<lambda>(r, p'). Inr (r, \<lparr>lr_port = p', lr_nat = n, lr_rx_p = None\<rparr>))"
proof -
  have t: "length m = unat (cl_pkt_size p)" "cl_payload_offset p = 42" "cl_l4_offset p = 34" "58 \<le> length m"
    "getNextProtocol m = Some EtherIP" "getHeaderLength m 14 = Some 20" "getProtocol m 14 = Some (mode_protocol (l_pkt_mode c))"
    "getTotalLength m 14 = Some (of_nat (length m - 14))" using pk unfolding lat_packet_def lat_template_def by blast+
  obtain magic where h: "lh_seq m 42 = Some seq" "lh_time_stamp m 42 = Some time_stamp" "lh_magic m 42 = Some magic" "magic AND 0xffffff00 = LATENCY_MAGIC"
    using pk by (auto simp: lat_packet_def)
  have prot: "mode_protocol (l_pkt_mode c) \<noteq> 0" by (simp add: mode_protocol_def split: CLatencyPktMode.split)
  let ?ps = "\<lparr>ps_ipv4 = Some 14, ps_ipv6 = None, ps_protocol = mode_protocol (l_pkt_mode c), ps_vlan_offset = 0, ps_option_offset = 34, ps_l4 = 34\<rparr>"
  have parse: "Parse m = Inr (True, ?ps)" using t(5-7) prot by (simp add: Parse_def parse_l3_def EtherIP_def EtherVLAN_def)
  have word: "of_nat (length m) = cl_pkt_size p" using t(1) by simp
  have "(of_nat (length m - 14) :: u16) + 14 = of_nat (length m - 14 + 14)" by (simp only: of_nat_add of_nat_numeral)
  then have size: "getPktSize m ?ps = Inr (cl_pkt_size p)" using t(1,4,8) by (simp add: getPktSize_def)
  obtain src where src: "getSourceIp m 14 = Some src" using t(4) by (simp add: getSourceIp_def mem_rd_def)
  obtain r where icmp: "icmp_getSeqNum m 34 = Some r" using t(4) by (simp add: icmp_getSeqNum_def mem_rd_def)
  have lat: "check_latency c tick m ?ps (cl_pkt_size p) p = check_seq tick seq time_stamp (lat_learned c m p)"
    using h(1,2) t(2,3) src icmp by (cases "l_pkt_mode c") (simp_all add: check_latency_def lat_learned_def mode_update_recv_def Let_def do_learn_def)
  show ?thesis
    unfolding check_packet_def parse
    using size lat t(7) h(3,4) prot word by (simp add: Let_def mode_IsLatencyPkt_def IsLatencyPkt_def)
qed

section \<open>Two ports and a network\<close>

fun send_run :: "lat_cfg \<Rightarrow> mem \<Rightarrow> nat \<Rightarrow> (u64 \<times> mem) list \<Rightarrow> CCPortLatency \<Rightarrow> lat_fault + mem list \<times> CCPortLatency" where
  "send_run c macs i [] p = Inr ([], p)"
| "send_run c macs i ((tick, m) # xs) p =
     bindE (update_packet c macs tick i m p) (\<lambda>(pk, p1). bindE (send_run c macs i xs p1) (\<lambda>(pks, p2). Inr (pk # pks, p2)))"

fun receive_run :: "lat_cfg \<Rightarrow> (nat \<Rightarrow> nat_env) \<Rightarrow> (u64 \<times> mem) list \<Rightarrow> CCPortLatency \<times> CNatRxManager \<Rightarrow> lat_fault + CCPortLatency \<times> CNatRxManager" where
  "receive_run c env [] pn = Inr pn"
| "receive_run c env ((tick, m) # xs) (p, n) = bindE (check_packet c env tick (length m) m p n) (\<lambda>(r, s). receive_run c env xs (lr_port s, lr_nat s))"

text \<open>The packets among \<open>js\<close> that are not the one after their predecessor.\<close>

fun gaps :: "nat \<Rightarrow> nat list \<Rightarrow> nat" where
  "gaps e [] = 0"
| "gaps e (j # js) = (if j = e then 0 else 1) + gaps (j + 1) js"

lemma gaps_le: "gaps e js \<le> length js"
proof (induction js arbitrary: e)
  case (Cons j js)
  from Cons [of "j + 1"] show ?case by auto
qed simp

lemma gaps_none [simp]: "gaps e [e..<e + n] = 0"
proof (induction n arbitrary: e)
  case (Suc n)
  have "[e..<e + Suc n] = e # [Suc e..<Suc e + n]" by (simp add: upt_conv_Cons del: upt_Suc)
  then show ?case using Suc.IH [of "Suc e"] by (simp only: gaps.simps Suc_eq_plus1 simp_thms if_True)
qed simp

definition same_shape :: "CCPortLatency \<Rightarrow> CCPortLatency \<Rightarrow> bool" where
  "same_shape p q \<longleftrightarrow> cl_pkt_size q = cl_pkt_size p \<and> cl_payload_offset q = cl_payload_offset p \<and> cl_l4_offset q = cl_l4_offset p"

lemma same_shape_packet: "same_shape p q \<Longrightarrow> lat_template c m q = lat_template c m p" "same_shape p q \<Longrightarrow> lat_packet c m q seq t = lat_packet c m p seq t"
  by (simp_all add: same_shape_def lat_template_def lat_packet_def)

lemma send_run_ok:
  assumes "list_all (\<lambda>(t, m). lat_template c m p) sends" and macs: "length macs = 12"
  shows "\<exists>pkts p'. send_run c macs i sends p = Inr (pkts, p') \<and> length pkts = length sends \<and> cl_tx_seq p' = cl_tx_seq p + of_nat (length sends) \<and>
    (\<forall>j<length sends. lat_packet c (pkts ! j) p (cl_tx_seq p + of_nat j) (fst (sends ! j)))"
  using assms(1)
proof (induction sends arbitrary: p)
  case (Cons x sends)
  obtain t m where x: "x = (t, m)" by fastforce
  obtain m' tx where u: "update_packet c macs t i m p = Inr (m', p\<lparr>cl_tx_seq := cl_tx_seq p + 1, cl_icmp_tx_seq := tx\<rparr>)" "lat_packet c m' p (cl_tx_seq p) t"
    using update_packet_ok [OF _ macs, of c m p t i] Cons.prems by (auto simp: x)
  let ?p = "p\<lparr>cl_tx_seq := cl_tx_seq p + 1, cl_icmp_tx_seq := tx\<rparr>"
  have shape: "same_shape p ?p" by (simp add: same_shape_def)
  have "list_all (\<lambda>(t, m). lat_template c m ?p) sends" using Cons.prems same_shape_packet(1) [OF shape] by simp
  from Cons.IH [OF this] obtain pkts p' where r: "send_run c macs i sends ?p = Inr (pkts, p')" "length pkts = length sends"
    "cl_tx_seq p' = cl_tx_seq ?p + of_nat (length sends)" "\<forall>j<length sends. lat_packet c (pkts ! j) ?p (cl_tx_seq ?p + of_nat j) (fst (sends ! j))" by blast
  have "lat_packet c ((m' # pkts) ! j) p (cl_tx_seq p + of_nat j) (fst ((x # sends) ! j))" if "j < Suc (length sends)" for j
    using that u(2) r(4) same_shape_packet(2) [OF shape] by (cases j) (simp_all add: x add.assoc)
  then show ?case using u(1) r(1-3) by (simp add: x add.assoc)
qed simp

text \<open>What the receiver keeps.\<close>

definition lat_rx_ok :: "CCPortLatency \<Rightarrow> CCPortLatency \<Rightarrow> bool" where
  "lat_rx_ok p q \<longleftrightarrow> same_shape p q \<and> (\<exists>xs. counts xs (cl_hist q))"

definition other_errors :: "CCPortLatency \<Rightarrow> u64 list" where
  "other_errors p = [cl_unsup_prot p, cl_no_magic p, cl_no_id p, cl_length_error p, cl_no_ipv4_option p, cl_tx_pkt_err p]"

lemma lat_learned_keeps [simp]:
  "cl_hist (lat_learned c m p) = cl_hist p" "cl_rx_seq (lat_learned c m p) = cl_rx_seq p" "cl_pkt_ok (lat_learned c m p) = cl_pkt_ok p"
  "cl_seq_error (lat_learned c m p) = cl_seq_error p" "other_errors (lat_learned c m p) = other_errors p" "same_shape q (lat_learned c m p) = same_shape q p"
  by (simp_all add: lat_learned_def do_learn_def Let_def other_errors_def same_shape_def)

lemma check_seq_ok:
  assumes h: "counts xs (cl_hist p)" and d: "unat (tick - ts) \<le> 40000000000000"
  shows "\<exists>r p' ys. check_seq tick seq ts p = Inr (r, p') \<and> counts ys (cl_hist p') \<and> same_shape p p' \<and> other_errors p' = other_errors p \<and>
    cl_rx_seq p' = seq + 1 \<and> cl_seq_error p' = cl_seq_error p + (if seq = cl_rx_seq p then 0 else 1) \<and>
    cl_pkt_ok p' = cl_pkt_ok p + (if seq = cl_rx_seq p then 1 else 0)"
proof (cases "seq = cl_rx_seq p")
  case True
  define n where "n = unat (tick - ts)"
  have "of_nat n \<le> (40000000000000 :: rat)" using d unfolding n_def by (metis of_nat_le_iff of_nat_numeral)
  then have dt: "0 \<le> ptime_convert_hr_dsec (tick - ts)" "ptime_convert_hr_dsec (tick - ts) * 100000 < 2 ^ 32"
    by (simp_all add: ptime_convert_hr_dsec_def os_get_hr_freq_def flip: n_def)
  from counts_Add [OF h dt] obtain b hist where "hist_Add (ptime_convert_hr_dsec (tick - ts)) (cl_hist p) = Some (b, hist)"
    "counts (xs @ [ptime_convert_hr_dsec (tick - ts)]) hist" by blast
  then show ?thesis using True by (auto simp: check_seq_def Let_def same_shape_def other_errors_def)
next
  case False
  then show ?thesis using h by (auto simp: check_seq_def same_shape_def other_errors_def)
qed

lemma receive_run_ok:
  assumes "\<forall>j\<in>set js. j < N \<and> lat_packet c (pkts ! j) a (seq0 + of_nat j) (ts j)" and "N < 2 ^ 32" and "e < 2 ^ 32"
    and "length ticks = length js" and "\<forall>k<length js. unat (ticks ! k - ts (js ! k)) \<le> 40000000000000"
    and "same_shape a p" and "counts xs (cl_hist p)" and "cl_rx_seq p = seq0 + of_nat e"
  shows "\<exists>p'. receive_run c env (zip ticks (map ((!) pkts) js)) (p, n) = Inr (p', n) \<and> cl_seq_error p' = cl_seq_error p + of_nat (gaps e js) \<and>
    cl_pkt_ok p' + of_nat (gaps e js) = cl_pkt_ok p + of_nat (length js) \<and> other_errors p' = other_errors p"
  using assms
proof (induction js arbitrary: e ticks p xs)
  case (Cons j js)
  obtain t ticks' where ticks: "ticks = t # ticks'" using Cons.prems(4) by (cases ticks) auto
  have j: "j < N" "lat_packet c (pkts ! j) p (seq0 + of_nat j) (ts j)" using Cons.prems(1) same_shape_packet(2) [OF Cons.prems(6)] by auto
  have d: "unat (t - ts j) \<le> 40000000000000" using Cons.prems(5) by (force simp: ticks)
  let ?p = "lat_learned c (pkts ! j) p"
  have "counts xs (cl_hist ?p)" using Cons.prems(7) by simp
  from check_seq_ok [OF this d, of "seq0 + of_nat j"] obtain r p1 ys where s: "check_seq t (seq0 + of_nat j) (ts j) ?p = Inr (r, p1)"
    "counts ys (cl_hist p1)" "same_shape ?p p1" "other_errors p1 = other_errors p" "cl_rx_seq p1 = seq0 + of_nat j + 1"
    "cl_seq_error p1 = cl_seq_error p + (if seq0 + of_nat j = cl_rx_seq p then 0 else 1)"
    "cl_pkt_ok p1 = cl_pkt_ok p + (if seq0 + of_nat j = cl_rx_seq p then 1 else 0)" by auto
  have eq: "seq0 + of_nat j = cl_rx_seq p \<longleftrightarrow> j = e"
    using Cons.prems(2,3,8) j(1) by (simp add: word_of_nat_eq_iff take_bit_nat_eq_self)
  have shape: "same_shape a p1" using s(3) Cons.prems(6) by (simp add: same_shape_def lat_learned_def do_learn_def Let_def split: if_splits)
  have "\<exists>p'. receive_run c env (zip ticks' (map ((!) pkts) js)) (p1, n) = Inr (p', n) \<and> cl_seq_error p' = cl_seq_error p1 + of_nat (gaps (j + 1) js) \<and>
    cl_pkt_ok p' + of_nat (gaps (j + 1) js) = cl_pkt_ok p1 + of_nat (length js) \<and> other_errors p' = other_errors p1"
    by (rule Cons.IH [OF _ Cons.prems(2) _ _ _ shape s(2)]) (use Cons.prems j(1) s(5) ticks in \<open>auto simp: nth_Cons_Suc\<close>)
  then show ?case using s eq check_packet_latency [OF j(2), of env t n] by (auto simp: ticks)
qed simp

lemma lat_Create_ok:
  "same_shape (lat_Create i po l4 sz p) (lat_Create k po l4 sz q)" "counts [] (cl_hist (lat_Create k po l4 sz q))"
  "cl_rx_seq (lat_Create k po l4 sz q) = cl_tx_seq (lat_Create i po l4 sz p)" "cl_seq_error (lat_Create k po l4 sz q) = 0"
  "cl_pkt_ok (lat_Create k po l4 sz q) = 0" "other_errors (lat_Create k po l4 sz q) = replicate 6 0"
  using counts_Create [of "cl_hist q"]
  by (simp_all add: lat_Create_def lat_reset_def same_shape_def other_errors_def counts_def hist_Create_def hist_Reset_def numeral_eq_Suc)

text \<open>
  C17. Every gap is counted once: of the packets one port sends, whatever part the network delivers to the other, in whatever order and
  however often, the receiver counts exactly those as sequence errors that do not follow the packet before them, and all others as
  good; no other error counter moves.  (A delay is less than eleven hours.)
\<close>

theorem latency_gaps_counted:
  assumes "a = lat_Create i 42 34 sz p" and "b = lat_Create k 42 34 sz q" and "list_all (\<lambda>(t, m). lat_template c m a) sends"
    and "length macs = 12" and "length sends < 2 ^ 32" and "\<forall>j\<in>set js. j < length sends" and "length ticks = length js"
    and "\<forall>x<length js. unat (ticks ! x - fst (sends ! (js ! x))) \<le> 40000000000000"
  shows "\<exists>pkts a' b'. send_run c macs port sends a = Inr (pkts, a') \<and> receive_run c env (zip ticks (map ((!) pkts) js)) (b, n) = Inr (b', n) \<and>
    cl_seq_error b' = of_nat (gaps 0 js) \<and> cl_pkt_ok b' + of_nat (gaps 0 js) = of_nat (length js) \<and> other_errors b' = replicate 6 0"
proof -
  obtain pkts a' where s: "send_run c macs port sends a = Inr (pkts, a')"
    "\<forall>j<length sends. lat_packet c (pkts ! j) a (cl_tx_seq a + of_nat j) (fst (sends ! j))"
    using send_run_ok [OF assms(3,4)] by blast
  have pk: "\<forall>j\<in>set js. j < length sends \<and> lat_packet c (pkts ! j) a (cl_tx_seq a + of_nat j) (fst (sends ! j))" using s(2) assms(6) by blast
  have b: "same_shape a b" "counts [] (cl_hist b)" "cl_rx_seq b = cl_tx_seq a + of_nat 0" "cl_seq_error b = 0" "cl_pkt_ok b = 0" "other_errors b = replicate 6 0"
    unfolding assms(1,2) by (simp_all only: lat_Create_ok) (simp add: lat_Create_def lat_reset_def)
  from receive_run_ok [OF pk assms(5) _ assms(7,8) b(1-3), of env n] show ?thesis using s(1) b(4-6) by simp
qed

definition demo_port :: CCPortLatency where
  "demo_port = \<lparr>cl_nat_learn = False, cl_nat_can_send = False, cl_nat_external_ip = 0, cl_tx_seq = 0, cl_rx_seq = 0, cl_id = 0, cl_payload_offset = 0,
     cl_l4_offset = 0, cl_pkt_size = 0, cl_icmp_tx_seq = 0, cl_icmp_rx_seq = 0, cl_tx_pkt_ok = 0, cl_tx_pkt_err = 0, cl_pkt_ok = 0, cl_unsup_prot = 0,
     cl_no_magic = 0, cl_no_id = 0, cl_seq_error = 0, cl_rx_check = 0, cl_no_ipv4_option = 0, cl_length_error = 0, cl_hist = demo_hist, cl_jitter = jitter_reset\<rparr>"

definition demo_cfg :: "u8 \<Rightarrow> lat_cfg" where
  "demo_cfg md = \<lparr>lc_l_pkt_mode = md, lc_learn_mode = True, lc_rx_check_mode = True\<rparr>"

lemma templates_ok:
  "lat_template (demo_cfg 0) sctp_pkt (lat_Create i 42 34 62 p)" "lat_template (demo_cfg 1) icmp_pkt (lat_Create i 42 34 62 p)"
proof -
  have "lat_template (demo_cfg 0) sctp_pkt (lat_Create 0 42 34 62 demo_port)" "lat_template (demo_cfg 1) icmp_pkt (lat_Create 0 42 34 62 demo_port)" by code_simp+
  then show "lat_template (demo_cfg 0) sctp_pkt (lat_Create i 42 34 62 p)" "lat_template (demo_cfg 1) icmp_pkt (lat_Create i 42 34 62 p)"
    using same_shape_packet(1) [OF lat_Create_ok(1)] by blast+
qed

theorem latency_gaps_counted_witness:
  "\<exists>pkts a' b'. send_run (demo_cfg 1) (replicate 12 0) 0 [(100, icmp_pkt), (200, icmp_pkt), (300, icmp_pkt)] (lat_Create 0 42 34 62 demo_port) = Inr (pkts, a') \<and>
     receive_run (demo_cfg 1) (\<lambda>_. (\<lambda>_. False, None, 0)) (zip [1000, 2000] (map ((!) pkts) [0, 2])) (lat_Create 1 42 34 62 demo_port, demo_nat_manager) = Inr (b', demo_nat_manager) \<and>
     cl_seq_error b' = 1 \<and> cl_pkt_ok b' + 1 = 2"
proof -
  let ?sends = "[(100 :: u64, icmp_pkt), (200, icmp_pkt), (300, icmp_pkt)]"
  have "list_all (\<lambda>(t, m). lat_template (demo_cfg 1) m (lat_Create 0 42 34 62 demo_port)) ?sends" using templates_ok(2) by simp
  from latency_gaps_counted [OF refl refl this, where js = "[0, 2]" and ticks = "[1000, 2000]" and macs = "replicate 12 0" and port = 0 and
      env = "\<lambda>_. (\<lambda>_. False, None, 0)" and n = demo_nat_manager and k = 1 and q = demo_port]
  obtain pkts a' b' where r: "send_run (demo_cfg 1) (replicate 12 0) 0 ?sends (lat_Create 0 42 34 62 demo_port) = Inr (pkts, a')"
    "receive_run (demo_cfg 1) (\<lambda>_. (\<lambda>_. False, None, 0)) (zip [1000, 2000] (map ((!) pkts) [0, 2])) (lat_Create 1 42 34 62 demo_port, demo_nat_manager) = Inr (b', demo_nat_manager)"
    "cl_seq_error b' = of_nat (gaps 0 [0, 2])" "cl_pkt_ok b' + of_nat (gaps 0 [0, 2]) = of_nat (length [0 :: nat, 2])"
    by (force simp del: send_run.simps receive_run.simps list.map zip_Cons_Cons simp: less_Suc_eq all_conj_distrib)
  from r(3,4) have "cl_seq_error b' = 1" "cl_pkt_ok b' + 1 = 2" by simp_all
  with r(1,2) show ?thesis by blast
qed

end
