(* ===== verification/Latency_Safe.thy ===== *)
theory Latency_Safe
  imports Latency
begin

text \<open>
  The latency thread as a whole: whatever is received, sent and aged, the ports, the receive check and the learning of
  translations keep their invariants, provided that a packet is in a buffer that is long enough for the longest IP header.
\<close>

section \<open>Reading a packet\<close>

definition BUF_LEN :: nat where "BUF_LEN = 300"

lemma mem_rd_ex: "i + LENGTH('a) div 8 \<le> length m \<Longrightarrow> \<exists>w. mem_rd m i = Some (w :: 'a::len word)"
  by (simp add: mem_rd_def)

lemma header_length_le:
  assumes "getHeaderLength m ip = Some len"
  shows "unat len \<le> 60"
proof -
  obtain b :: u8 where b: "len = push_bit 2 (b AND 0x0f)" using assms by (auto simp: getHeaderLength_def simp del: push_bit_and)
  have "b AND 0x0f = take_bit 4 b" by (simp add: take_bit_eq_mask mask_numeral)
  then have "unat (b AND 0x0f) < 2 ^ 4" using take_bit_nat_less_exp [of 4 "unat b"] by (simp add: unsigned_take_bit_eq)
  then have "unat (b AND 0x0f) * 4 < 2 ^ 8" by simp
  moreover have "unat len = unat (b AND 0x0f) * 4 mod 2 ^ 8" by (simp add: b push_bit_eq_mult unat_word_ariths mult.commute del: push_bit_and)
  ultimately show ?thesis using \<open>unat (b AND 0x0f) < 2 ^ 4\<close> by simp
qed

lemma l3_reads:
  assumes "BUF_LEN \<le> length m" and "ip \<le> 18"
  shows "\<exists>len. getHeaderLength m ip = Some len" "\<exists>x. getProtocol m ip = Some x" "\<exists>x. ipv6_getNextHdr m ip = Some x"
    "\<exists>x. getTotalLength m ip = Some x" "\<exists>x. ipv6_getPayloadLen m ip = Some x" "\<exists>x. getSourceIp m ip = Some x"
  using assms by (simp_all add: BUF_LEN_def getHeaderLength_def getProtocol_def ipv6_getNextHdr_def getTotalLength_def ipv6_getPayloadLen_def getSourceIp_def mem_rd_def)

definition parser_ok :: "CSimplePacketParser \<Rightarrow> bool" where
  "parser_ok ps \<longleftrightarrow> (\<forall>ip. ps_ipv4 ps = Some ip \<longrightarrow> ip \<le> 18) \<and> (\<forall>ip. ps_ipv6 ps = Some ip \<longrightarrow> ip \<le> 18) \<and> ps_l4 ps \<le> 78 \<and> unat (ps_vlan_offset ps) \<le> 4 \<and>
     (ps_protocol ps \<noteq> 0 \<longrightarrow> ps_ipv4 ps \<noteq> None \<or> ps_ipv6 ps \<noteq> None)"

lemma parse_l3_ok:
  assumes m: "BUF_LEN \<le> length m" and off: "off \<le> 18" and v: "unat vlan \<le> 4"
  shows "\<exists>ps. parse_l3 m proto off vlan = Inr ps \<and> parser_ok ps"
proof -
  obtain len pr nx where r: "getHeaderLength m off = Some len" "getProtocol m off = Some pr" "ipv6_getNextHdr m off = Some nx" using l3_reads [OF m off] by blast
  show ?thesis using r header_length_le [OF r(1)] off v by (auto simp: parse_l3_def parser_ok_def IPV6_HDR_LEN_def)
qed

lemma Parse_ok:
  assumes m: "BUF_LEN \<le> length m"
  shows "\<exists>ok ps. Parse m = Inr (ok, ps) \<and> parser_ok ps \<and> (ok \<longrightarrow> ps_ipv4 ps \<noteq> None \<or> ps_ipv6 ps \<noteq> None)"
proof -
  obtain e v where r: "getNextProtocol m = Some e" "getVlanProtocol m = Some v" using m by (simp add: BUF_LEN_def getNextProtocol_def getVlanProtocol_def mem_rd_def)
  obtain ps where ps: "(if e = EtherVLAN then parse_l3 m v 18 4 else parse_l3 m e 14 0) = Inr ps" "parser_ok ps"
    using parse_l3_ok [OF m, of 18 4 v] parse_l3_ok [OF m, of 14 0 e] by (cases "e = EtherVLAN") auto
  then show ?thesis using r by (auto simp: Parse_def parser_ok_def split: if_splits)
qed

lemma getPktSize_ok: "BUF_LEN \<le> length m \<Longrightarrow> parser_ok ps \<Longrightarrow> \<exists>x. getPktSize m ps = Inr x"
  using l3_reads(4,5) [of m] by (fastforce simp: getPktSize_def parser_ok_def split: option.splits)

section \<open>Options\<close>

definition env_ok :: "(nat \<Rightarrow> nat_env) \<Rightarrow> bool" where
  "env_ok env \<longleftrightarrow> (\<forall>o'. case env o' of (full, create_node, now) \<Rightarrow>
     ring_accepts full \<and> (case create_node of None \<Rightarrow> False | Some n \<Rightarrow> length (nn_data n) = MAX_NAT_FLOW_INFO))"

definition lat_port_ok :: "u16 \<Rightarrow> CCPortLatency \<Rightarrow> bool" where
  "lat_port_ok sz p \<longleftrightarrow> cl_payload_offset p = 42 \<and> cl_l4_offset p = 34 \<and> cl_pkt_size p = sz \<and> (\<exists>xs. counts xs (cl_hist p))"

definition rx_ok :: "lat_cfg \<Rightarrow> mem \<Rightarrow> u16 \<Rightarrow> lat_rx \<Rightarrow> bool" where
  "rx_ok c m sz s \<longleftrightarrow> lat_port_ok sz (lr_port s) \<and> (lc_learn_mode c \<longrightarrow> nat_ok (lr_nat s)) \<and>
     (\<forall>q. lr_rx_p s = Some q \<longrightarrow> lc_rx_check_mode c \<and> q + RX_CHECK_LEN \<le> length m)"

lemma rx_ok_counters [simp]:
  "rx_ok c m sz (seq_err s) = rx_ok c m sz s" "rx_ok c m sz (on_lat_port (\<lambda>p. p\<lparr>cl_no_ipv4_option := cl_no_ipv4_option p + 1\<rparr>) s) = rx_ok c m sz s"
  "rx_ok c m sz (on_lat_port (\<lambda>p. p\<lparr>cl_unsup_prot := cl_unsup_prot p + 1\<rparr>) s) = rx_ok c m sz s"
  "rx_ok c m sz ((on_lat_port (\<lambda>p. p\<lparr>cl_rx_check := cl_rx_check p + 1\<rparr>) s)\<lparr>lr_rx_p := Some q\<rparr>) \<longleftrightarrow>
     lat_port_ok sz (lr_port s) \<and> (lc_learn_mode c \<longrightarrow> nat_ok (lr_nat s)) \<and> lc_rx_check_mode c \<and> q + RX_CHECK_LEN \<le> length m"
  by (simp_all add: rx_ok_def lat_port_ok_def seq_err_def on_lat_port_def)

lemma nat_step_ok:
  assumes "BUF_LEN \<le> length m" and "ip \<le> 18" and "opt_ptr + 8 \<le> length m" and "env_ok env" and "env opt_ptr = (full, create_node, now)" and "nat_ok n"
  shows "\<exists>n'. handle_packet_ipv4 full create_node now m opt_ptr ip n = Inr n' \<and> nat_ok n'"
proof -
  obtain len where len: "getHeaderLength m ip = Some len" using l3_reads [OF assms(1,2)] by blast
  have "nat_legal (NatPacket full create_node now m opt_ptr ip)"
    using assms header_length_le [OF len] len spec [OF assms(4) [unfolded env_ok_def], of opt_ptr] by (auto simp: nat_readable_def BUF_LEN_def)
  from handle_packet_ipv4_ok [OF assms(6) this] show ?thesis by (auto simp: thread_step_def)
qed

lemma is_valid_ipv4_magic_ex: "p + 4 \<le> length m \<Longrightarrow> \<exists>v. is_valid_ipv4_magic m p = Some v"
  by (auto simp: is_valid_ipv4_magic_def is_valid_ipv4_magic_op0_def is_valid_ipv4_magic_op1_def mem_rd_def split: bool.split)

lemma ipv4_options_ok:
  assumes "BUF_LEN \<le> length m" and "ip \<le> 18" and "env_ok env" and "opt_ptr + unat opt_len \<le> length m" and "rx_ok c m sz s"
  shows "\<exists>r s'. ipv4_options c env m ip opt_len opt_ptr s = Inr (r, s') \<and> rx_ok c m sz s'"
  using assms
proof (induction c env m ip opt_len opt_ptr s rule: ipv4_options.induct)
  case (1 c env m ip opt_len opt_ptr s)
  show ?case
  proof (cases "opt_len = 0")
    case True
    then show ?thesis using 1 by (auto simp: ipv4_options.simps)
  next
    case False
    then have "0 < unat opt_len" by (simp add: unat_gt_0)
    then obtain ty :: u8 where ty: "mem_rd m opt_ptr = Some ty" using 1 mem_rd_ex [of opt_ptr m, where 'a = 8] by auto
    then have rd: "liftE LatRead (mem_rd m opt_ptr) = Inr ty" by simp
    note prems = "1.prems"
    consider (rx) "ty = RX_CHECK_V4_OPT_TYPE" | (nat) "ty = noIPV4_OPTION" | (other) "ty \<noteq> RX_CHECK_V4_OPT_TYPE" "ty \<noteq> noIPV4_OPTION" by blast
    then show ?thesis
    proof cases
      case rx
      show ?thesis
      proof (cases "\<not> lc_rx_check_mode c \<or> unat opt_len < RX_CHECK_LEN")
        case True
        then show ?thesis using rx ty False prems(5) by (auto simp: ipv4_options.simps [of c env m ip opt_len])
      next
        case go: False
        then have "unat (opt_len - 24) = unat opt_len - 24" by (simp add: unat_sub word_le_nat_alt RX_CHECK_LEN_def)
        then have "\<exists>r s'. ipv4_options c env m ip (opt_len - 24) (opt_ptr + RX_CHECK_LEN)
            ((on_lat_port (\<lambda>p. p\<lparr>cl_rx_check := cl_rx_check p + 1\<rparr>) s)\<lparr>lr_rx_p := Some opt_ptr\<rparr>) = Inr (r, s') \<and> rx_ok c m sz s'"
          using 1(1) [OF False rd rx go] prems go by (auto simp: RX_CHECK_LEN_def rx_ok_def [of _ _ _ s])
        then show ?thesis using rx ty False go by (simp add: ipv4_options.simps [of c env m ip opt_len])
      qed
    next
      case nat
      have ne: "noIPV4_OPTION \<noteq> RX_CHECK_V4_OPT_TYPE" by (simp add: noIPV4_OPTION_def RX_CHECK_V4_OPT_TYPE_def)
      show ?thesis
      proof (cases "\<not> lc_learn_mode c \<or> opt_len < noOPTION_LEN")
        case True
        then show ?thesis using nat ne ty False prems(5) by (auto simp: ipv4_options.simps [of c env m ip opt_len])
      next
        case go: False
        then have len: "8 \<le> unat opt_len" by (simp add: word_less_nat_alt noOPTION_LEN_def)
        obtain full create_node now where env: "env opt_ptr = (full, create_node, now)" by (rule prod_cases3)
        obtain n' where n': "handle_packet_ipv4 full create_node now m opt_ptr ip (lr_nat s) = Inr n'" "nat_ok n'"
          using nat_step_ok [OF prems(1,2) _ prems(3) env, of "lr_nat s"] prems(4,5) len go by (auto simp: rx_ok_def)
        obtain valid where valid: "is_valid_ipv4_magic m opt_ptr = Some valid"
          using is_valid_ipv4_magic_ex [of opt_ptr m] prems(4) len by auto
        have "unat (opt_len - 8) = unat opt_len - 8" using len by (simp add: unat_sub word_le_nat_alt)
        then have "\<exists>r s'. ipv4_options c env m ip (opt_len - 8) (opt_ptr + 8) (s\<lparr>lr_nat := n'\<rparr>) = Inr (r, s') \<and> rx_ok c m sz s'" if valid
          using 1(2) [OF False rd _ nat go _ _ env [symmetric] refl n'(1)] prems nat ne len n'(2) that valid by (auto simp: rx_ok_def)
        then show ?thesis using nat ne ty False go valid env n'(1) prems(5) by (cases valid) (auto simp: ipv4_options.simps [of c env m ip opt_len])
      qed
    next
      case other
      then show ?thesis using ty False prems(5) by (auto simp: ipv4_options.simps [of c env m ip opt_len])
    qed
  qed
qed

section \<open>A received packet\<close>

lemma check_other_ok:
  assumes m: "BUF_LEN \<le> length m" and ps: "parser_ok ps" "ps_ipv4 ps \<noteq> None \<or> ps_ipv6 ps \<noteq> None" and env: "env_ok env" and s: "rx_ok c m sz s"
  shows "\<exists>r s'. check_other c env m ps s = Inr (r, s') \<and> rx_ok c m sz s'"
proof (cases "ps_ipv6 ps")
  case None
  then obtain ip where ip: "ps_ipv4 ps = Some ip" "ip \<le> 18" using ps by (auto simp: parser_ok_def)
  obtain len where len: "getHeaderLength m ip = Some len" using l3_reads [OF m ip(2)] by blast
  have "ip + 20 + unat (len - 20) \<le> length m" using ip(2) m unat_u8_less [of "len - 20"] unfolding BUF_LEN_def by linarith
  from ipv4_options_ok [OF m ip(2) env this s] show ?thesis using None ip(1) len by (simp add: check_other_def getOptionLen_def)
next
  case (Some ip)
  then have "ip + IPV6_HDR_LEN + RX_CHECK_LEN \<le> length m" using ps(1) m by (auto simp: parser_ok_def BUF_LEN_def IPV6_HDR_LEN_def RX_CHECK_LEN_def)
  then show ?thesis using Some s by (auto simp: check_other_def rx_ok_def [of _ _ _ s])
qed

lemma check_seq_cases:
  assumes "lat_port_ok sz p"
  shows "check_seq tick seq ts p = Inl LatHist \<or> (\<exists>r p'. check_seq tick seq ts p = Inr (r, p') \<and> lat_port_ok sz p')"
proof (cases "seq = cl_rx_seq p")
  case True
  obtain xs where xs: "counts xs (cl_hist p)" using assms by (auto simp: lat_port_ok_def)
  let ?dt = "ptime_convert_hr_dsec (tick - ts)"
  have "0 \<le> ?dt" by (simp add: ptime_convert_hr_dsec_def del: of_nat_unat)
  show ?thesis
  proof (cases "?dt * 100000 < 2 ^ 32")
    case lt: True
    obtain b hist where "hist_Add ?dt (cl_hist p) = Some (b, hist)" "counts (xs @ [?dt]) hist" using counts_Add [OF xs \<open>0 \<le> ?dt\<close> lt] by blast
    then show ?thesis using True assms by (auto simp: check_seq_def Let_def lat_port_ok_def)
  next
    case False
    then have "h_min_delta (cl_hist p) \<le> ?dt" "to_u32 (?dt * 100000) = None" using xs by (simp_all add: counts_def to_u32_def)
    then show ?thesis using True by (simp add: check_seq_def Let_def hist_Add_def liftE_def)
  qed
next
  case False
  then show ?thesis using assms by (auto simp: check_seq_def lat_port_ok_def)
qed

lemma check_latency_cases:
  assumes m: "BUF_LEN \<le> length m" and ps: "parser_ok ps" "ps_ipv4 ps \<noteq> None" and p: "lat_port_ok sz p"
  shows "check_latency c tick m ps pkt_size p = Inl LatHist \<or> (\<exists>r p'. check_latency c tick m ps pkt_size p = Inr (r, p') \<and> lat_port_ok sz p')"
proof -
  obtain ip where ip4: "ps_ipv4 ps = Some ip" "ip \<le> 18" using ps by (auto simp: parser_ok_def)
  then obtain src where ip: "ps_ipv4 ps = Some ip" "getSourceIp m ip = Some src" using l3_reads(6) [OF m ip4(2)] by blast
  let ?p = "if lc_learn_mode c \<and> \<not> cl_nat_learn p then do_learn src p else p"
  have p1: "lat_port_ok sz ?p" using p by (simp add: lat_port_ok_def do_learn_def)
  have v: "unat (ps_vlan_offset ps) \<le> 4" using ps(1) by (simp add: parser_ok_def)
  let ?v = "unat (ps_vlan_offset ps)"
  have off: "unat (cl_payload_offset ?p) = 42" "unat (cl_l4_offset ?p) = 34" using p1 by (simp_all add: lat_port_ok_def)
  obtain r seq ts where rd: "icmp_getSeqNum m (34 + ?v) = Some r" "lh_seq m (42 + ?v) = Some seq" "lh_time_stamp m (42 + ?v) = Some ts"
    using m v by (auto simp: BUF_LEN_def icmp_getSeqNum_def lh_seq_def lh_time_stamp_def mem_rd_def)
  obtain rx tx where recv: "mode_update_recv c m (34 + ?v) (cl_icmp_rx_seq ?p, cl_icmp_tx_seq ?p) = Inr (rx, tx)"
    using rd(1) by (cases "l_pkt_mode c") (auto simp: mode_update_recv_def)
  have learn: "(if lc_learn_mode c \<and> \<not> cl_nat_learn p
            then (case ps_ipv4 ps of None \<Rightarrow> Inl LatRead | Some ip \<Rightarrow> bindE (liftE LatRead (getSourceIp m ip)) (\<lambda>src. Inr (do_learn src p)))
            else Inr p) = Inr ?p" using ip by simp
  let ?q = "?p\<lparr>cl_icmp_rx_seq := rx, cl_icmp_tx_seq := tx\<rparr>"
  have "lat_port_ok sz ?q" "lat_port_ok sz (?p\<lparr>cl_length_error := cl_length_error ?p + 1\<rparr>)" using p1 by (simp_all add: lat_port_ok_def)
  moreover have "check_latency c tick m ps pkt_size p = (if uint pkt_size - uint (ps_vlan_offset ps) \<noteq> uint (cl_pkt_size ?p)
      then Inr (False, ?p\<lparr>cl_length_error := cl_length_error ?p + 1\<rparr>) else check_seq tick seq ts ?q)"
    unfolding check_latency_def learn using rd(2,3) recv by (simp add: Let_def off)
  ultimately show ?thesis using check_seq_cases [of sz ?q tick seq ts] by auto
qed

lemma check_packet_cases:
  assumes m: "BUF_LEN \<le> length m" and env: "env_ok env" and p: "lat_port_ok sz p" and n: "lc_learn_mode c \<longrightarrow> nat_ok n"
  shows "check_packet c env tick len m p n = Inl LatHist \<or> (\<exists>r s. check_packet c env tick len m p n = Inr (r, s) \<and> rx_ok c m sz s)"
proof -
  let ?s = "\<lparr>lr_port = p, lr_nat = n, lr_rx_p = None\<rparr>"
  have s: "rx_ok c m sz ?s" using p n by (simp add: rx_ok_def)
  obtain ok ps where ps: "Parse m = Inr (ok, ps)" "parser_ok ps" "ok \<longrightarrow> ps_ipv4 ps \<noteq> None \<or> ps_ipv6 ps \<noteq> None" using Parse_ok [OF m] by blast
  obtain sz' where size: "getPktSize m ps = Inr sz'" using getPktSize_ok [OF m ps(2)] by blast
  obtain b1 where b1: "mode_IsLatencyPkt (l_pkt_mode c) m (ps_ipv4 ps) = Inr b1" "b1 \<longrightarrow> ps_ipv4 ps \<noteq> None"
  proof (cases "ps_ipv4 ps")
    case None
    then show thesis using that [of False] by (simp add: mode_IsLatencyPkt_def)
  next
    case (Some ip)
    then obtain x where "getProtocol m ip = Some x" using l3_reads(2) [OF m] ps(2) by (auto simp: parser_ok_def)
    then show thesis using that Some by (simp add: mode_IsLatencyPkt_def)
  qed
  have "ps_l4 ps \<le> 78" using ps(2) by (simp add: parser_ok_def)
  then obtain b2 where b2: "IsLatencyPkt m (ps_l4 ps + 8) = Inr b2" using m by (auto simp: IsLatencyPkt_def lh_magic_def mem_rd_def BUF_LEN_def)
  let ?size = "if uint sz' = uint (of_nat len :: u16) - 4 then of_nat len - 4 else (of_nat len :: u16)"
  have run: "check_packet c env tick len m p n =
      (if \<not> ok then Inr (False, on_lat_port (\<lambda>p. p\<lparr>cl_unsup_prot := cl_unsup_prot p + 1\<rparr>) ?s)
       else if \<not> (b1 \<and> b2) then check_other c env m ps ?s
       else bindE (check_latency c tick m ps ?size p) (\<lambda>(r, p'). Inr (r, ?s\<lparr>lr_port := p'\<rparr>)))"
    unfolding check_packet_def ps(1) using size b1(1) b2 by (simp add: Let_def)
  show ?thesis
  proof (cases "ok \<and> b1 \<and> b2")
    case True
    then have "check_latency c tick m ps ?size p = Inl LatHist \<or> (\<exists>r p'. check_latency c tick m ps ?size p = Inr (r, p') \<and> lat_port_ok sz p')"
      using check_latency_cases [OF m ps(2) _ p] b1(2) by blast
    then show ?thesis unfolding run using True n by (auto simp: rx_ok_def)
  next
    case False
    then show ?thesis unfolding run using check_other_ok [OF m ps(2) _ env s] ps(3) s by auto
  qed
qed

section \<open>The thread\<close>

text \<open>The receive check and the learning of translations exist only in the modes that need them.\<close>

definition lat_inv :: "lat_cfg \<Rightarrow> u16 \<Rightarrow> CLatencyManager \<Rightarrow> bool" where
  "lat_inv c sz lm \<longleftrightarrow> length (lm_ports lm) = lm_max_ports lm \<and> list_all (lat_port_ok sz) (lm_ports lm) \<and>
     (lc_learn_mode c \<longrightarrow> nat_ok (lm_nat lm)) \<and> (lc_rx_check_mode c \<longrightarrow> wm_inv (lm_rx_check lm))"

definition keeps :: "lat_cfg \<Rightarrow> u16 \<Rightarrow> CLatencyManager \<Rightarrow> CLatencyManager \<Rightarrow> bool" where
  "keeps c sz lm lm' \<longleftrightarrow> lat_inv c sz lm' \<and> lm_max_ports lm' = lm_max_ports lm \<and> lm_delta_sec lm' = lm_delta_sec lm"

text \<open>A step of the thread that can fail only by an undefined conversion of a delay.\<close>

definition safe_step :: "lat_cfg \<Rightarrow> u16 \<Rightarrow> CLatencyManager \<Rightarrow> lat_fault + CLatencyManager \<Rightarrow> bool" where
  "safe_step c sz lm r \<longleftrightarrow> r = Inl LatHist \<or> (\<exists>lm'. r = Inr lm' \<and> keeps c sz lm lm')"

lemma safe_stepI [intro]: "keeps c sz lm lm' \<Longrightarrow> safe_step c sz lm (Inr lm')"
  by (simp add: safe_step_def)

lemma safe_step_bind:
  assumes "safe_step c sz lm r" and "\<forall>lm1. keeps c sz lm lm1 \<longrightarrow> safe_step c sz lm1 (f lm1)"
  shows "safe_step c sz lm (bindE r f)"
  using assms by (auto simp: safe_step_def keeps_def)

lemma keeps_refl: "lat_inv c sz lm \<Longrightarrow> keeps c sz lm lm"
  by (simp add: keeps_def)

lemma safe_step_fold:
  assumes "lat_inv c sz lm" and "\<forall>x lm1. x \<in> set xs \<longrightarrow> keeps c sz lm lm1 \<longrightarrow> safe_step c sz lm1 (f lm1 x)"
  shows "safe_step c sz lm (foldE f lm xs)"
  using assms
proof (induction xs arbitrary: lm)
  case (Cons x xs)
  have "safe_step c sz lm (f lm x)" using Cons.prems keeps_refl by simp
  moreover have "safe_step c sz lm1 (foldE f lm1 xs)" if "keeps c sz lm lm1" for lm1
    using that Cons.prems by (intro Cons.IH) (auto simp: keeps_def)
  ultimately show ?case by (simp add: safe_step_bind)
qed (simp add: safe_step_def keeps_refl)

lemma dec_rx_header_ex: "p + RX_CHECK_LEN \<le> length m \<Longrightarrow> \<exists>h. dec_rx_header m p = Some h"
  by (simp add: dec_rx_header_def RX_CHECK_LEN_def mem_rd_def)

lemma list_all_put: "list_all P xs \<Longrightarrow> P y \<Longrightarrow> list_all P (xs[i := y])"
  by (rule list_all_update)

definition pkt_ok :: "rx_pkt \<Rightarrow> bool" where
  "pkt_ok pk \<longleftrightarrow> BUF_LEN \<le> length (rp_data pk) \<and> env_ok (rp_env pk) \<and> 0 \<le> rp_now pk"

lemma handle_rx_pkt_safe:
  assumes inv: "lat_inv c sz lm" and i: "i < lm_max_ports lm" and pk: "pkt_ok pk"
  shows "safe_step c sz lm (handle_rx_pkt pick c i pk lm)"
proof -
  let ?check = "check_packet c (rp_env pk) (rp_tick pk) (rp_len pk) (rp_data pk) (lm_ports lm ! i) (lm_nat lm)"
  have p: "lat_port_ok sz (lm_ports lm ! i)" and n: "lc_learn_mode c \<longrightarrow> nat_ok (lm_nat lm)" using inv i by (simp_all add: lat_inv_def list_all_length)
  show ?thesis
  proof (cases "?check = Inl LatHist")
    case True
    then show ?thesis by (simp add: handle_rx_pkt_def safe_step_def)
  next
    case False
    then obtain r s where s: "?check = Inr (r, s)" "rx_ok c (rp_data pk) sz s"
      using check_packet_cases [OF _ _ p n, of "rp_data pk" "rp_env pk" "rp_tick pk" "rp_len pk"] pk unfolding pkt_ok_def by blast
    let ?lm = "lm\<lparr>lm_ports := (lm_ports lm)[i := lr_port s], lm_nat := lr_nat s\<rparr>"
    have lm: "keeps c sz lm ?lm" using inv s(2) by (simp add: keeps_def lat_inv_def rx_ok_def list_all_put)
    show ?thesis
    proof (cases "lr_rx_p s")
      case None
      then show ?thesis using s(1) lm by (auto simp: handle_rx_pkt_def Let_def)
    next
      case (Some q)
      then have mode: "lc_rx_check_mode c" and q: "q + RX_CHECK_LEN \<le> length (rp_data pk)" using s(2) by (auto simp: rx_ok_def)
      obtain h where h: "dec_rx_header (rp_data pk) q = Some h" using dec_rx_header_ex [OF q] by blast
      have "wm_inv (lm_rx_check lm)" using inv mode by (simp add: lat_inv_def)
      from handle_packet_ok [OF this, of "rp_now pk" pick "rp_tick32 pk" h] pk
      obtain rx' where "handle_packet pick (rp_now pk) (rp_tick32 pk) h (lm_rx_check lm) = Some rx'" "wm_inv rx'" by (auto simp: pkt_ok_def)
      then show ?thesis using s(1) lm Some h by (auto simp: handle_rx_pkt_def Let_def lat_inv_def keeps_def)
    qed
  qed
qed

definition msg_ok :: "nat \<Rightarrow> nat \<Rightarrow> CGenNodeLatencyPktInfo \<Rightarrow> bool" where
  "msg_ok ports ti msg \<longleftrightarrow> ln_msg_type msg = LATENCY_PKT \<and> ln_latency_offset msg = 0xdead \<and> 2 * ti + 2 \<le> ports \<and> pkt_ok (ln_pkt msg)"

lemma rx_port_index_less:
  assumes "2 * ti + 2 \<le> ports" and "ports \<le> 12"
  shows "unat (push_bit 1 (of_nat ti :: u8) + (d AND 1)) < ports"
proof -
  have "unat (push_bit 1 (of_nat ti :: u8)) = 2 * ti" using assms by (simp add: push_bit_eq_mult unat_word_ariths unat_of_nat)
  moreover have "unat (d AND 1) \<le> 1" by (simp add: and_one_eq unat_mod)
  ultimately have "unat (push_bit 1 (of_nat ti :: u8)) + unat (d AND 1) \<le> 2 * ti + 1" by simp
  moreover have "unat (push_bit 1 (of_nat ti :: u8) + (d AND 1)) \<le> unat (push_bit 1 (of_nat ti :: u8)) + unat (d AND 1)" by (simp add: unat_word_ariths)
  ultimately show ?thesis using assms(1) by linarith
qed

lemma handle_latency_pkt_msg_safe:
  assumes "lat_inv c sz lm" and "msg_ok (lm_max_ports lm) ti msg" and "lm_max_ports lm \<le> 12"
  shows "safe_step c sz lm (handle_latency_pkt_msg pick c (of_nat ti) msg lm)"
  using assms handle_rx_pkt_safe rx_port_index_less by (simp add: handle_latency_pkt_msg_def msg_ok_def Let_def)

definition rings_ok :: "nat \<Rightarrow> (nat \<Rightarrow> CGenNodeLatencyPktInfo list) \<Rightarrow> bool" where
  "rings_ok ports rings \<longleftrightarrow> (\<forall>ti. list_all (msg_ok ports ti) (rings ti))"

lemma try_rx_queues_safe:
  assumes "lat_inv c sz lm" and "rings_ok (lm_max_ports lm) rings" and "lm_max_ports lm \<le> 12"
  shows "safe_step c sz lm (try_rx_queues pick c threads rings lm)"
proof -
  have "safe_step c sz lm1 (run_rx_queue_msgs pick c (of_nat ti) (rings ti) lm1)" if "keeps c sz lm lm1" for ti lm1
    unfolding run_rx_queue_msgs_def using that assms(2,3)
    by (intro safe_step_fold) (auto simp: rings_ok_def list_all_iff keeps_def msg_ok_def intro!: handle_latency_pkt_msg_safe)
  then show ?thesis unfolding try_rx_queues_def using assms(1) by (intro safe_step_fold) (auto intro: safe_stepI keeps_refl simp: keeps_def)
qed

lemma lat_inv_clocks [simp]:
  "lat_inv c sz (lm\<lparr>lm_cpu_dp := d\<rparr>) = lat_inv c sz lm" "lat_inv c sz (lm\<lparr>lm_start_time := t\<rparr>) = lat_inv c sz lm"
  "lat_inv c sz (lm\<lparr>lm_do_stop := b\<rparr>) = lat_inv c sz lm" "lat_inv c sz (lm\<lparr>lm_is_active := b\<rparr>) = lat_inv c sz lm"
  by (simp_all add: lat_inv_def)

lemma safe_step_pre:
  assumes "safe_step c sz lm1 r" and "lm_max_ports lm1 = lm_max_ports lm" and "lm_delta_sec lm1 = lm_delta_sec lm"
  shows "safe_step c sz lm r"
  using assms by (auto simp: safe_step_def keeps_def)

lemma try_rx_safe:
  assumes inv: "lat_inv c sz lm" and b: "\<forall>i<lm_max_ports lm. list_all pkt_ok (burst i)"
  shows "safe_step c sz lm (try_rx pick c burst ticks lm)"
proof -
  have "safe_step c sz lm1 (try_rx_port pick c burst ticks lm1 i)" if "i < lm_max_ports lm" "keeps c sz lm lm1" for i lm1
  proof -
    let ?lm = "lm1\<lparr>lm_cpu_dp := start_work (fst (ticks i)) (lm_cpu_dp lm1)\<rparr>"
    have inv1: "lat_inv c sz ?lm" "lm_max_ports ?lm = lm_max_ports lm" using that(2) by (simp_all add: keeps_def)
    have "pkt_ok pk" if "pk \<in> set (take 64 (burst i))" for pk
      using that b \<open>i < lm_max_ports lm\<close> by (auto simp: list_all_iff dest: in_set_takeD)
    then have "safe_step c sz ?lm (foldE (\<lambda>lm pk. handle_rx_pkt pick c i pk lm) ?lm (take 64 (burst i)))"
      using inv1 that(1) by (intro safe_step_fold) (auto simp: keeps_def intro!: handle_rx_pkt_safe)
    then have "safe_step c sz ?lm (bindE (foldE (\<lambda>lm pk. handle_rx_pkt pick c i pk lm) ?lm (take 64 (burst i))) (\<lambda>lm2.
        Inr (lm2\<lparr>lm_cpu_dp := commit (snd (ticks i)) (lm_cpu_dp lm2)\<rparr>)))"
      by (rule safe_step_bind) (auto simp: keeps_def intro!: safe_stepI)
    moreover have "keeps c sz lm1 ?lm" using that(2) by (simp add: keeps_def)
    ultimately show ?thesis by (auto simp: try_rx_port_def Let_def intro: safe_step_pre)
  qed
  then show ?thesis unfolding try_rx_def using inv by (intro safe_step_fold) auto
qed

text \<open>Packets to send come from a template of the right shape.\<close>

definition gen_ok :: "lat_cfg \<Rightarrow> u16 \<Rightarrow> (u32 \<times> u32 \<Rightarrow> mem) \<Rightarrow> (nat \<Rightarrow> mem) \<Rightarrow> bool" where
  "gen_ok c sz gen macs \<longleftrightarrow> (\<forall>ips p. lat_port_ok sz p \<longrightarrow> lat_template c (gen ips) p) \<and> (\<forall>i. length (macs i) = 12)"

lemma send_pkt_ok:
  assumes inv: "lat_inv c sz lm" and i: "i < lm_max_ports lm" and gen: "gen_ok c sz gen macs"
  shows "\<exists>lm' out'. send_pkt c gen macs tick tx_ok (lm, out) i = Inr (lm', out') \<and> keeps c sz lm lm'"
proof -
  let ?p = "lm_ports lm ! i"
  have p: "lat_port_ok sz ?p" using inv i by (simp add: lat_inv_def list_all_length)
  obtain m' tx where u: "update_packet c (macs i) tick i (gen (latency_ips i (cl_nat_external_ip ?p) lm)) ?p =
      Inr (m', ?p\<lparr>cl_tx_seq := cl_tx_seq ?p + 1, cl_icmp_tx_seq := tx\<rparr>)"
    using update_packet_ok gen p unfolding gen_ok_def by blast
  have "lat_port_ok sz (?p\<lparr>cl_tx_seq := cl_tx_seq ?p + 1, cl_icmp_tx_seq := tx, cl_tx_pkt_ok := cl_tx_pkt_ok ?p + 1\<rparr>)"
    "lat_port_ok sz (?p\<lparr>cl_tx_seq := cl_tx_seq ?p + 1, cl_icmp_tx_seq := tx, cl_tx_pkt_err := cl_tx_pkt_err ?p + 1\<rparr>)" using p by (simp_all add: lat_port_ok_def)
  then show ?thesis using u inv by (auto simp: send_pkt_def Let_def lat_inv_def keeps_def list_all_put)
qed

lemma send_pkt_all_ports_ok:
  assumes inv: "lat_inv c sz lm" and gen: "gen_ok c sz gen macs"
  shows "\<exists>lm' out. send_pkt_all_ports c gen macs tick tx_ok lm = Inr (lm', out) \<and> keeps c sz lm lm'"
proof -
  let ?lm = "lm\<lparr>lm_start_time := tick\<rparr>"
  have "\<exists>lm' out. foldE (send_pkt c gen macs tick tx_ok) (?lm, []) [0..<k] = Inr (lm', out) \<and> keeps c sz lm lm'" if "k \<le> lm_max_ports lm" for k
    using that
  proof (induction k)
    case (Suc k)
    then obtain lm1 out1 where r: "foldE (send_pkt c gen macs tick tx_ok) (?lm, []) [0..<k] = Inr (lm1, out1)" "keeps c sz lm lm1" by auto
    have "lat_inv c sz lm1" "k < lm_max_ports lm1" using r(2) Suc.prems by (simp_all add: keeps_def)
    from send_pkt_ok [OF this gen, of tick tx_ok out1] r show ?case by (auto simp: foldE_append keeps_def)
  qed (use inv in \<open>simp add: keeps_def\<close>)
  then show ?thesis by (simp add: send_pkt_all_ports_def)
qed

lemma counts_Reset: "counts xs h \<Longrightarrow> counts [] (hist_Reset h)"
  using counts_Create [of h] by (simp add: counts_def hist_Create_def hist_Reset_def)

lemma handle_aging_safe:
  assumes inv: "lat_inv c sz lm" and "lc_learn_mode c" and "\<forall>i. ring_accepts (full i)"
  shows "\<exists>n. handle_aging full now (lm_nat lm) = Inr n \<and> keeps c sz lm (lm\<lparr>lm_nat := n\<rparr>)"
proof -
  have n: "nat_ok (lm_nat lm)" using assms(1,2) by (simp add: lat_inv_def)
  show ?thesis using handle_aging_ok [OF n, of full now] assms by (auto simp: lat_inv_def same_told_def keeps_def)
qed

lemma manager_reset_keeps:
  assumes "lat_inv c sz lm"
  shows "keeps c sz lm (manager_reset lm)"
proof -
  have "lat_port_ok sz (lat_reset p)" if "lat_port_ok sz p" for p
    using that by (auto simp: lat_port_ok_def lat_reset_def intro: counts_Reset)
  then show ?thesis using assms by (auto simp: manager_reset_def lat_inv_def keeps_def list_all_length)
qed

definition fresh_lat :: "CLatencyManager \<Rightarrow> bool" where
  "fresh_lat lm \<longleftrightarrow> fst (lm_rx_check lm) = CTimerWheel_new \<and> fresh_manager (snd (lm_rx_check lm))"

lemma manager_Create_ok:
  assumes c: "manager_Create c now tick threads cfg lm = Inr lm'" and fresh: "fresh_lat lm"
  shows "lat_inv c (get_pkt_size c) lm'" and "lm_max_ports lm' = cg_max_ports cfg" and "lm_max_ports lm' \<le> 12" and "lm_delta_sec lm' = 1 / cg_cps cfg"
proof -
  have "lat_port_ok (get_pkt_size c) (lat_Create i get_payload_offset get_l4_offset (get_pkt_size c) p)" for i p
    using lat_Create_ok(2) [of i get_payload_offset get_l4_offset "get_pkt_size c" p]
    by (auto simp: lat_port_ok_def lat_Create_def lat_reset_def get_payload_offset_def get_l4_offset_def)
  moreover have "wm_inv (CTimerWheel_new, (rx_Create (snd (lm_rx_check lm)))\<lparr>rm_cur_time := now\<rparr>)"
    using wm_inv_Create fresh by (auto simp: fresh_lat_def wm_inv_def)
  ultimately show "lat_inv c (get_pkt_size c) lm'" "lm_max_ports lm' = cg_max_ports cfg" "lm_max_ports lm' \<le> 12" "lm_delta_sec lm' = 1 / cg_cps cfg"
    using c fresh nat_Create_ok(1) by (auto simp: manager_Create_def Let_def lat_inv_def list_all_length set_ip_def fresh_lat_def split: if_splits)
qed

text \<open>
  A frame whose IP header claims to be longer than the frame is read beyond its end: \<open>check_packet\<close> compares nothing with the length of
  the packet.
\<close>

lemma short_packet_overread:
  "check_packet (demo_cfg 0) (\<lambda>_. (\<lambda>_. False, None, 0)) 0 52 (take 12 sctp_pkt @ [8, 0, 0x4f] @ replicate 8 0 @ [6] @ replicate 36 0) (lat_Create 0 42 34 62 demo_port) demo_nat_manager = Inl LatRead"
  by code_simp

text \<open>
  \<open>reset\<close> takes the next number of the port itself for the one it expects.  When the two ports of a link have sent different numbers of
  packets, the first packet after a reset counts as an error.
\<close>

lemma reset_loses_sequence:
  "(case update_packet (demo_cfg 0) (replicate 12 0) 5 0 sctp_pkt (lat_Create 0 42 34 62 demo_port) of
      Inl e \<Rightarrow> None
    | Inr (pk1, a) \<Rightarrow> (case update_packet (demo_cfg 0) (replicate 12 0) 6 0 sctp_pkt (lat_reset a) of
        Inl e \<Rightarrow> None
      | Inr (pk2, a') \<Rightarrow> (case check_packet (demo_cfg 0) (\<lambda>_. (\<lambda>_. False, None, 0)) 9 62 pk2 (lat_reset (lat_Create 1 42 34 62 demo_port)) demo_nat_manager of
          Inl e \<Rightarrow> None | Inr (r, s) \<Rightarrow> Some (cl_seq_error (lr_port s))))) = Some 1"
  by code_simp

end
