(* ===== verification/Latency_Loop.thy ===== *)
theory Latency_Loop
  imports Latency_Safe
begin

text \<open>
  The main loop of the latency thread (\<open>CLatencyManager::start\<close>): a queue of two nodes, one for the millisecond tick and one for
  the packets to send.  While the loop waits for the time of the first node it polls the rings and the ports.

  Every reading of the clock, everything that is polled, the fate of what is sent and the moment of \<open>stop\<close> are inputs, one
  \<open>lat_turn\<close> per turn of the loop; the model stops where the inputs end.  Which of two nodes with the same time is on
  top is chosen by \<open>tie\<close>.
\<close>

section \<open>The loop\<close>

datatype lat_node_type = FLOW_SYNC | FLOW_PKT

record lat_node =
  nd_type :: lat_node_type
  nd_time :: rat

text \<open>One pass of the waiting loop: the clock, and what is polled.\<close>

record lat_poll =
  lp_now :: rat
  lp_threads :: u8
  lp_rings :: "nat \<Rightarrow> CGenNodeLatencyPktInfo list"
  lp_burst :: "nat \<Rightarrow> rx_pkt list"
  lp_ticks :: "nat \<Rightarrow> u64 \<times> u64"

record lat_turn =
  lt_polls :: "lat_poll list"
  lt_full :: "nat \<Rightarrow> nat \<Rightarrow> bool"
  lt_age_now :: rat
  lt_gen :: "u32 \<times> u32 \<Rightarrow> mem"
  lt_macs :: "nat \<Rightarrow> mem"
  lt_tick :: u64
  lt_tx_ok :: "nat \<Rightarrow> bool"
  lt_work :: "u64 \<times> u64"
  lt_stop :: bool

definition SYNC_TIME_OUT :: rat where "SYNC_TIME_OUT = 1 / 1000"

definition lat_top :: "(lat_node list \<Rightarrow> lat_node) \<Rightarrow> lat_node list \<Rightarrow> lat_node" where
  "lat_top tie q = (let xs = filter (\<lambda>n. list_all (\<lambda>k. nd_time n \<le> nd_time k) q) q in if tie xs \<in> set xs then tie xs else hd xs)"

text \<open>Waiting: \<open>None\<close> when the inputs end first, otherwise the reading of the clock that ended it.\<close>

fun lat_wait :: "(nat list \<Rightarrow> nat) \<Rightarrow> lat_cfg \<Rightarrow> bool \<Rightarrow> rat \<Rightarrow> lat_poll list \<Rightarrow> CLatencyManager \<Rightarrow> lat_fault + rat option \<times> CLatencyManager" where
  "lat_wait pick c do_try_rx_queue n_time [] lm = Inr (None, lm)"
| "lat_wait pick c do_try_rx_queue n_time (p # ps) lm =
     (if lp_now p - n_time > 0 then Inr (Some (lp_now p), lm)
      else bindE (if do_try_rx_queue then try_rx_queues pick c (lp_threads p) (lp_rings p) lm else Inr lm) (\<lambda>lm1.
           bindE (try_rx pick c (lp_burst p) (lp_ticks p) lm1) (\<lambda>lm2.
             lat_wait pick c do_try_rx_queue n_time ps lm2)))"

text \<open>What a node does, and its next time.\<close>

definition lat_act :: "lat_cfg \<Rightarrow> lat_turn \<Rightarrow> lat_node_type \<Rightarrow> CLatencyManager \<Rightarrow> lat_fault + CLatencyManager" where
  "lat_act c t ty lm = (case ty of
       FLOW_SYNC \<Rightarrow>
         if lc_learn_mode c then (case handle_aging (lt_full t) (lt_age_now t) (lm_nat lm) of Inl e \<Rightarrow> Inl (LatNat e) | Inr n \<Rightarrow> Inr (lm\<lparr>lm_nat := n\<rparr>))
         else Inr lm
     | FLOW_PKT \<Rightarrow>
         bindE (send_pkt_all_ports c (lt_gen t) (lt_macs t) (lt_tick t) (lt_tx_ok t) (lm\<lparr>lm_cpu_dp := start_work (fst (lt_work t)) (lm_cpu_dp lm)\<rparr>)) (\<lambda>(lm1, out).
           Inr (lm1\<lparr>lm_cpu_dp := commit (snd (lt_work t)) (lm_cpu_dp lm1)\<rparr>)))"

definition lat_requeue :: "CLatencyManager \<Rightarrow> lat_node \<Rightarrow> lat_node list \<Rightarrow> lat_node list" where
  "lat_requeue lm n q = remove1 n q @ [n\<lparr>nd_time := nd_time n + (case nd_type n of FLOW_SYNC \<Rightarrow> SYNC_TIME_OUT | FLOW_PKT \<Rightarrow> lm_delta_sec lm)\<rparr>]"

record lat_state =
  ls_queue :: "lat_node list"
  ls_cnt :: nat
  ls_lm :: CLatencyManager
  ls_log :: "(lat_node_type \<times> rat) list"

text \<open>
  The loop returns whether it has ended.  \<open>ls_log\<close> records the type of every node handled and the reading of the clock that released it.
\<close>

fun lat_loop :: "(nat list \<Rightarrow> nat) \<Rightarrow> (lat_node list \<Rightarrow> lat_node) \<Rightarrow> lat_cfg \<Rightarrow> bool \<Rightarrow> nat \<Rightarrow> lat_turn list \<Rightarrow> lat_state \<Rightarrow> lat_fault + bool \<times> lat_state" where
  "lat_loop pick tie c do_try_rx_queue iter [] s = Inr (False, s)"
| "lat_loop pick tie c do_try_rx_queue iter (t # ts) s =
     (let node = lat_top tie (ls_queue s) in
      bindE (lat_wait pick c do_try_rx_queue (nd_time node) (lt_polls t) (ls_lm s)) (\<lambda>(r, lm1).
        case r of
          None \<Rightarrow> Inr (False, s\<lparr>ls_lm := lm1\<rparr>)
        | Some now \<Rightarrow>
            bindE (lat_act c t (nd_type node) lm1) (\<lambda>lm2.
              let lm3 = (if lt_stop t then lat_stop lm2 else lm2);
                  s1 = s\<lparr>ls_queue := lat_requeue lm2 node (ls_queue s), ls_lm := lm3, ls_log := ls_log s @ [(nd_type node, now)]\<rparr>
              in if lm_do_stop lm3 then Inr (True, s1)
                 else if iter > 0 \<and> ls_cnt s > iter then Inr (True, s1)
                 else lat_loop pick tie c do_try_rx_queue iter ts (s1\<lparr>ls_cnt := ls_cnt s + 1\<rparr>))))"

definition lat_start_state :: "rat \<Rightarrow> rat \<Rightarrow> CLatencyManager \<Rightarrow> lat_state" where
  "lat_start_state now0 now1 lm =
     \<lparr>ls_queue = [\<lparr>nd_type = FLOW_SYNC, nd_time = now0 + 7 / 1000\<rparr>, \<lparr>nd_type = FLOW_PKT, nd_time = now1\<rparr>], ls_cnt = 0,
      ls_lm = lm\<lparr>lm_do_stop := False, lm_is_active := False\<rparr>, ls_log = []\<rparr>"

definition lat_start :: "(nat list \<Rightarrow> nat) \<Rightarrow> (lat_node list \<Rightarrow> lat_node) \<Rightarrow> lat_cfg \<Rightarrow> bool \<Rightarrow> nat \<Rightarrow> rat \<Rightarrow> rat \<Rightarrow> lat_turn list \<Rightarrow> CLatencyManager \<Rightarrow> lat_fault + bool \<times> lat_state" where
  "lat_start pick tie c do_try_rx_queue iter now0 now1 ts lm =
     bindE (lat_loop pick tie c do_try_rx_queue iter ts (lat_start_state now0 now1 lm)) (\<lambda>(ended, s).
       if \<not> ended then Inr (False, s)
       else bindE (if lc_rx_check_mode c then bindE (liftE LatRxCheck (tw_drain pick (lm_rx_check (ls_lm s)))) (\<lambda>rx. Inr ((ls_lm s)\<lparr>lm_rx_check := rx\<rparr>)) else Inr (ls_lm s)) (\<lambda>lm.
         Inr (True, s\<lparr>ls_queue := [], ls_lm := lm\<rparr>)))"

section \<open>Safety\<close>

definition poll_ok :: "nat \<Rightarrow> lat_poll \<Rightarrow> bool" where
  "poll_ok ports p \<longleftrightarrow> rings_ok ports (lp_rings p) \<and> (\<forall>i<ports. list_all pkt_ok (lp_burst p i))"

definition turn_ok :: "lat_cfg \<Rightarrow> nat \<Rightarrow> lat_turn \<Rightarrow> bool" where
  "turn_ok c ports t \<longleftrightarrow> list_all (poll_ok ports) (lt_polls t) \<and> (\<forall>i. ring_accepts (lt_full t i)) \<and> gen_ok c (get_pkt_size c) (lt_gen t) (lt_macs t)"

lemma lat_wait_safe:
  assumes "lat_inv c sz lm" and "lm_max_ports lm \<le> 12" and "list_all (poll_ok (lm_max_ports lm)) ps"
  shows "lat_wait pick c oneq n_time ps lm = Inl LatHist \<or> (\<exists>r lm'. lat_wait pick c oneq n_time ps lm = Inr (r, lm') \<and> keeps c sz lm lm' \<and> (\<forall>now. r = Some now \<longrightarrow> n_time < now))"
  using assms
proof (induction ps arbitrary: lm)
  case (Cons p ps)
  show ?case
  proof (cases "lp_now p - n_time > 0")
    case True
    then show ?thesis using Cons.prems keeps_refl by simp
  next
    case False
    let ?poll = "bindE (if oneq then try_rx_queues pick c (lp_threads p) (lp_rings p) lm else Inr lm) (try_rx pick c (lp_burst p) (lp_ticks p))"
    have "safe_step c sz lm (if oneq then try_rx_queues pick c (lp_threads p) (lp_rings p) lm else Inr lm)"
      using Cons.prems try_rx_queues_safe keeps_refl by (auto simp: poll_ok_def)
    then have "safe_step c sz lm ?poll"
      by (rule safe_step_bind) (use Cons.prems in \<open>auto simp: poll_ok_def keeps_def intro!: try_rx_safe\<close>)
    moreover have run: "lat_wait pick c oneq n_time (p # ps) lm = bindE ?poll (lat_wait pick c oneq n_time ps)" using False by (simp add: bindE_assoc)
    ultimately consider "?poll = Inl LatHist" | lm1 where "?poll = Inr lm1" "keeps c sz lm lm1" by (auto simp: safe_step_def)
    then show ?thesis
    proof cases
      case 1
      then show ?thesis unfolding run by simp
    next
      case 2
      with Cons.IH [of lm1] Cons.prems show ?thesis unfolding run by (auto simp: keeps_def)
    qed
  qed
qed (simp add: keeps_refl)

lemma lat_act_safe:
  assumes "lat_inv c (get_pkt_size c) lm" and "turn_ok c (lm_max_ports lm) t"
  shows "\<exists>lm'. lat_act c t ty lm = Inr lm' \<and> keeps c (get_pkt_size c) lm lm'"
proof (cases ty)
  case FLOW_SYNC
  show ?thesis
  proof (cases "lc_learn_mode c")
    case True
    obtain n where "handle_aging (lt_full t) (lt_age_now t) (lm_nat lm) = Inr n" "keeps c (get_pkt_size c) lm (lm\<lparr>lm_nat := n\<rparr>)"
      using handle_aging_safe [OF assms(1) True, of "lt_full t" "lt_age_now t"] assms(2) by (auto simp: turn_ok_def)
    then show ?thesis using FLOW_SYNC True by (simp add: lat_act_def)
  next
    case False
    then show ?thesis using FLOW_SYNC keeps_refl [OF assms(1)] by (simp add: lat_act_def)
  qed
next
  case FLOW_PKT
  let ?lm = "lm\<lparr>lm_cpu_dp := start_work (fst (lt_work t)) (lm_cpu_dp lm)\<rparr>"
  have "lat_inv c (get_pkt_size c) ?lm" "gen_ok c (get_pkt_size c) (lt_gen t) (lt_macs t)" using assms by (simp_all add: turn_ok_def)
  from send_pkt_all_ports_ok [OF this, of "lt_tick t" "lt_tx_ok t"] show ?thesis using FLOW_PKT by (auto simp: lat_act_def keeps_def)
qed

section \<open>Pace\<close>

text \<open>The times of the two nodes are determined by the turns they have had.\<close>

definition turns_of :: "lat_node_type \<Rightarrow> (lat_node_type \<times> rat) list \<Rightarrow> rat list" where
  "turns_of ty xs = map snd (filter (\<lambda>x. fst x = ty) xs)"

definition due :: "rat \<Rightarrow> rat \<Rightarrow> rat \<Rightarrow> lat_node_type \<Rightarrow> nat \<Rightarrow> rat" where
  "due now0 now1 delta ty k = (case ty of FLOW_SYNC \<Rightarrow> now0 + 7 / 1000 + of_nat k * SYNC_TIME_OUT | FLOW_PKT \<Rightarrow> now1 + of_nat k * delta)"

definition paced :: "rat \<Rightarrow> rat \<Rightarrow> rat \<Rightarrow> lat_state \<Rightarrow> bool" where
  "paced now0 now1 delta s \<longleftrightarrow>
     set (ls_queue s) = (\<lambda>ty. \<lparr>nd_type = ty, nd_time = due now0 now1 delta ty (length (turns_of ty (ls_log s)))\<rparr>) ` UNIV \<and> distinct (ls_queue s) \<and>
     (\<forall>ty k. k < length (turns_of ty (ls_log s)) \<longrightarrow> due now0 now1 delta ty k < turns_of ty (ls_log s) ! k) \<and>
     (\<forall>ty k ty'. k < length (turns_of ty (ls_log s)) \<longrightarrow> due now0 now1 delta ty k \<le> due now0 now1 delta ty' (length (turns_of ty' (ls_log s))))"

lemma turns_of_snoc: "turns_of ty (xs @ [(ty', now)]) = (if ty' = ty then turns_of ty xs @ [now] else turns_of ty xs)"
  by (simp add: turns_of_def)

lemma due_mono: "0 \<le> delta \<Longrightarrow> k \<le> n \<Longrightarrow> due now0 now1 delta ty k \<le> due now0 now1 delta ty n"
  by (cases ty) (simp_all add: due_def SYNC_TIME_OUT_def mult_right_mono)

lemma lat_top_least:
  assumes "q \<noteq> []"
  shows "lat_top tie q \<in> set q" and "n \<in> set q \<Longrightarrow> nd_time (lat_top tie q) \<le> nd_time n"
proof -
  let ?xs = "filter (\<lambda>n. list_all (\<lambda>k. nd_time n \<le> nd_time k) q) q"
  obtain m where "m \<in> set q" "\<forall>k\<in>set q. nd_time m \<le> nd_time k"
    using assms ex_min_if_finite [of "nd_time ` set q"] by (metis (no_types, lifting) List.finite_set arg_min_if_finite(1) arg_min_least set_empty)
  then have "?xs \<noteq> []" by (auto simp: filter_empty_conv list_all_iff)
  then have "lat_top tie q \<in> set ?xs" unfolding lat_top_def Let_def using hd_in_set by metis
  then show "lat_top tie q \<in> set q" "n \<in> set q \<Longrightarrow> nd_time (lat_top tie q) \<le> nd_time n" by (auto simp: list_all_iff)
qed

lemma paced_turn:
  assumes p: "paced now0 now1 delta s" and delta: "0 \<le> delta" "lm_delta_sec lm = delta" and now: "nd_time (lat_top tie (ls_queue s)) < now"
  shows "paced now0 now1 delta (s\<lparr>ls_queue := lat_requeue lm (lat_top tie (ls_queue s)) (ls_queue s), ls_lm := lm', ls_log := ls_log s @ [(nd_type (lat_top tie (ls_queue s)), now)]\<rparr>)"
proof -
  let ?n = "\<lambda>ty. length (turns_of ty (ls_log s))" and ?due = "due now0 now1 delta"
  let ?node = "\<lambda>ty. \<lparr>nd_type = ty, nd_time = ?due ty (?n ty)\<rparr>"
  have q: "set (ls_queue s) = ?node ` UNIV" "distinct (ls_queue s)" using p by (simp_all add: paced_def)
  then have ne: "ls_queue s \<noteq> []" by auto
  obtain ty where top: "lat_top tie (ls_queue s) = ?node ty" using lat_top_least(1) [OF ne, of tie] q(1) by auto
  have least: "?due ty (?n ty) \<le> ?due ty' (?n ty')" for ty' using lat_top_least(2) [OF ne, of "?node ty'" tie] q(1) top by simp
  let ?log = "ls_log s @ [(ty, now)]"
  let ?new = "\<lparr>nd_type = ty, nd_time = ?due ty (Suc (?n ty))\<rparr>"
  have req: "lat_requeue lm (?node ty) (ls_queue s) = remove1 (?node ty) (ls_queue s) @ [?new]"
    using delta(2) by (cases ty) (simp_all add: lat_requeue_def due_def algebra_simps)
  have n': "length (turns_of ty' ?log) = (if ty' = ty then Suc (?n ty) else ?n ty')" for ty' by (simp add: turns_of_snoc)
  have others: "x \<noteq> ?node ty \<longleftrightarrow> nd_type x \<noteq> ty" if "x \<in> set (ls_queue s)" for x using that q(1) by auto
  have "set (remove1 (?node ty) (ls_queue s)) = {x \<in> set (ls_queue s). nd_type x \<noteq> ty}" using others q(2) by auto
  then have set: "set (remove1 (?node ty) (ls_queue s) @ [?new]) = (\<lambda>ty'. \<lparr>nd_type = ty', nd_time = ?due ty' (length (turns_of ty' ?log))\<rparr>) ` UNIV"
    unfolding n' q(1) by force
  have "?new \<notin> set (remove1 (?node ty) (ls_queue s))" using \<open>set (remove1 (?node ty) (ls_queue s)) = _\<close> by simp
  then have dist: "distinct (remove1 (?node ty) (ls_queue s) @ [?new])" using q(2) by (simp add: distinct_remove1)
  have fired: "?due ty' k < turns_of ty' ?log ! k" if "k < length (turns_of ty' ?log)" for ty' k
    using that p now top by (auto simp: paced_def turns_of_snoc nth_append less_Suc_eq split: if_splits)
  have grow: "?due ty' (?n ty') \<le> ?due ty' (length (turns_of ty' ?log))" for ty' unfolding n' using due_mono [OF delta(1)] by simp
  have order: "?due ty' k \<le> ?due ty'' (length (turns_of ty'' ?log))" if "k < length (turns_of ty' ?log)" for ty' ty'' k
  proof (cases "k < ?n ty'")
    case True
    then show ?thesis using p grow [of ty''] unfolding paced_def by (meson order_trans)
  next
    case False
    then have "ty' = ty" "k = ?n ty" using that unfolding n' by (auto split: if_splits)
    then show ?thesis using least [of ty''] grow [of ty''] by simp
  qed
  show ?thesis unfolding top using set dist fired order by (simp add: paced_def req)
qed

lemma lat_loop_ok:
  assumes "lat_inv c (get_pkt_size c) (ls_lm s)" and "lm_max_ports (ls_lm s) = ports" and "ports \<le> 12" and "list_all (turn_ok c ports) ts"
    and "paced now0 now1 delta s" and "lm_delta_sec (ls_lm s) = delta" and "0 \<le> delta"
    and "ls_cnt s = length (ls_log s)" and "0 < iter \<longrightarrow> ls_cnt s \<le> iter + 1"
  shows "lat_loop pick tie c oneq iter ts s = Inl LatHist \<or> (\<exists>ended s'. lat_loop pick tie c oneq iter ts s = Inr (ended, s') \<and>
    lat_inv c (get_pkt_size c) (ls_lm s') \<and> paced now0 now1 delta s' \<and> (0 < iter \<longrightarrow> length (ls_log s') \<le> iter + 2))"
  using assms
proof (induction ts arbitrary: s)
  case (Cons t ts)
  let ?node = "lat_top tie (ls_queue s)"
  have t: "turn_ok c ports t" using Cons.prems(4) by simp
  consider (hist) "lat_wait pick c oneq (nd_time ?node) (lt_polls t) (ls_lm s) = Inl LatHist"
    | (none) lm1 where "lat_wait pick c oneq (nd_time ?node) (lt_polls t) (ls_lm s) = Inr (None, lm1)" "keeps c (get_pkt_size c) (ls_lm s) lm1"
    | (turn) now lm1 where "lat_wait pick c oneq (nd_time ?node) (lt_polls t) (ls_lm s) = Inr (Some now, lm1)" "keeps c (get_pkt_size c) (ls_lm s) lm1" "nd_time ?node < now"
    using lat_wait_safe [OF Cons.prems(1), of "lt_polls t" pick oneq "nd_time ?node"] Cons.prems(2,3) t by (auto simp: turn_ok_def) (metis option.exhaust)
  then show ?case
  proof cases
    case hist
    then show ?thesis by (simp add: Let_def)
  next
    case none
    then show ?thesis using Cons.prems by (auto simp: Let_def keeps_def paced_def)
  next
    case turn
    have lm1: "lat_inv c (get_pkt_size c) lm1" "turn_ok c (lm_max_ports lm1) t" using turn(2) t Cons.prems(2) by (simp_all add: keeps_def)
    obtain lm2 where lm2: "lat_act c t (nd_type ?node) lm1 = Inr lm2" "keeps c (get_pkt_size c) lm1 lm2" using lat_act_safe [OF lm1] by blast
    let ?lm3 = "if lt_stop t then lat_stop lm2 else lm2"
    let ?s = "s\<lparr>ls_queue := lat_requeue lm2 ?node (ls_queue s), ls_lm := ?lm3, ls_log := ls_log s @ [(nd_type ?node, now)]\<rparr>"
    have d2: "lm_delta_sec lm2 = delta" using lm2(2) turn(2) Cons.prems(6) by (simp add: keeps_def)
    have s1: "paced now0 now1 delta ?s" by (rule paced_turn [OF Cons.prems(5,7) d2 turn(3)])
    then have s2: "paced now0 now1 delta (?s\<lparr>ls_cnt := ls_cnt s + 1\<rparr>)" by (simp add: paced_def)
    have lm3: "lat_inv c (get_pkt_size c) ?lm3" "lm_max_ports ?lm3 = ports" "lm_delta_sec ?lm3 = delta"
      using lm2(2) turn(2) Cons.prems(2,6) by (simp_all add: keeps_def lat_stop_def)
    have run: "lat_loop pick tie c oneq iter (t # ts) s =
        (if lm_do_stop ?lm3 \<or> iter > 0 \<and> ls_cnt s > iter then Inr (True, ?s) else lat_loop pick tie c oneq iter ts (?s\<lparr>ls_cnt := ls_cnt s + 1\<rparr>))"
      using turn(1) lm2(1) by (simp add: Let_def)
    show ?thesis
    proof (cases "lm_do_stop ?lm3 \<or> iter > 0 \<and> ls_cnt s > iter")
      case True
      then have "lat_loop pick tie c oneq iter (t # ts) s = Inr (True, ?s)" unfolding run by (rule if_P)
      then show ?thesis using s1 lm3(1) Cons.prems(8,9) by (intro disjI2 exI [of _ True] exI [of _ ?s]) simp
    next
      case False
      then have "lat_loop pick tie c oneq iter (t # ts) s = lat_loop pick tie c oneq iter ts (?s\<lparr>ls_cnt := ls_cnt s + 1\<rparr>)" unfolding run by (rule if_not_P)
      moreover have "0 < iter \<longrightarrow> ls_cnt s + 1 \<le> iter + 1" using False by auto
      ultimately show ?thesis
        using Cons.IH [of "?s\<lparr>ls_cnt := ls_cnt s + 1\<rparr>"] s2 lm3 Cons.prems(3,4,7,8) by (simp del: lat_loop.simps)
    qed
  qed
qed (auto simp: keeps_refl)

lemma paced_start: "paced now0 now1 delta (lat_start_state now0 now1 lm)"
proof -
  have u: "(UNIV :: lat_node_type set) = {FLOW_SYNC, FLOW_PKT}" using lat_node_type.exhaust by auto
  show ?thesis unfolding paced_def u by (simp add: lat_start_state_def turns_of_def due_def)
qed


definition demo_lat_manager :: CLatencyManager where
  "demo_lat_manager = \<lparr>lm_is_active = False, lm_do_stop = False, lm_ports = [demo_port, demo_port], lm_cps = 0, lm_delta_sec = 0, lm_start_time = 0, lm_port_mask = 0,
     lm_max_ports = 0, lm_rx_check = (CTimerWheel_new, demo_manager), lm_nat = demo_nat_manager, lm_cpu_dp = \<lparr>u_total_cycles = 0, u_data = 0\<rparr>,
     lm_cpu_cp = \<lparr>u_cpu_util = 0, u_last_total_cycles = 0, u_last_work_cycles = 0\<rparr>, lm_client_ip = 0, lm_server_ip = 0, lm_dual_port_mask = 0, lm_pkt_size = 0\<rparr>"

definition demo_turn :: "rat \<Rightarrow> lat_turn" where
  "demo_turn t = \<lparr>lt_polls = [\<lparr>lp_now = 0, lp_threads = 1, lp_rings = \<lambda>_. [],
       lp_burst = \<lambda>_. [\<lparr>rp_len = 62, rp_data = sctp_pkt @ replicate 300 0, rp_tick = 9, rp_now = 1, rp_tick32 = 9, rp_env = \<lambda>_. (\<lambda>_. False, Some demo_nat_node, 1)\<rparr>],
       lp_ticks = \<lambda>_. (1, 2)\<rparr>, \<lparr>lp_now = t, lp_threads = 1, lp_rings = \<lambda>_. [], lp_burst = \<lambda>_. [], lp_ticks = \<lambda>_. (1, 2)\<rparr>],
     lt_full = \<lambda>_ _. False, lt_age_now = t, lt_gen = \<lambda>_. sctp_pkt, lt_macs = \<lambda>_. replicate 12 0, lt_tick = 5, lt_tx_ok = \<lambda>_. True, lt_work = (3, 4), lt_stop = False\<rparr>"

definition demo_lat_cfg :: CLatencyManagerCfg where
  "demo_lat_cfg = CLatencyManagerCfg_new\<lparr>cg_max_ports := 2, cg_cps := 10\<rparr>"


end
