(* ===== verification/Pkt_Desc.thy ===== *)
theory Pkt_Desc
  imports Bit_Man Complex_Main
begin

text \<open>
  The descriptor of a template packet (\<open>CPacketDescriptor\<close> and \<open>CPacketDescriptorPerDir\<close> in \<open>bp_sim.h\<close>): what is known about a packet of a
  recorded flow, most of it packed in the bits of one word.
\<close>

section \<open>Per direction\<close>

record CPacketDescriptorPerDir =
  dd_pkt_num :: u16
  dd_max_flow_pkts :: u16

definition CPacketDescriptorPerDir_new :: CPacketDescriptorPerDir where
  "CPacketDescriptorPerDir_new = \<lparr>dd_pkt_num = 0, dd_max_flow_pkts = 0\<rparr>"

text \<open>A failing \<open>assert\<close> is \<open>None\<close>.\<close>

definition SetMaxPkts :: "u32 \<Rightarrow> CPacketDescriptorPerDir \<Rightarrow> CPacketDescriptorPerDir option" where
  "SetMaxPkts val d = (if val < 65000 then Some (d\<lparr>dd_max_flow_pkts := ucast val\<rparr>) else None)"

definition SetPktNum :: "u32 \<Rightarrow> CPacketDescriptorPerDir \<Rightarrow> CPacketDescriptorPerDir option" where
  "SetPktNum pkt_id d = (if pkt_id < 65000 then Some (d\<lparr>dd_pkt_num := ucast pkt_id\<rparr>) else None)"

section \<open>The descriptor\<close>

datatype pkt_dir_t = CLIENT_SIDE | SERVER_SIDE

record CPacketDescriptor =
  ds_flags :: u32
  ds_flow_pkt_num :: u16
  ds_plugin_id :: u8
  ds_max_flow_pkts :: u16
  ds_max_flow_aging :: u16
  ds_per_dir :: "pkt_dir_t \<Rightarrow> CPacketDescriptorPerDir"

definition desc_Clear :: "CPacketDescriptor \<Rightarrow> CPacketDescriptor" where
  "desc_Clear d = d\<lparr>ds_flags := 0, ds_flow_pkt_num := 0, ds_plugin_id := 0, ds_max_flow_pkts := 0, ds_max_flow_aging := 0\<rparr>"

definition SetPluginId :: "u8 \<Rightarrow> CPacketDescriptor \<Rightarrow> CPacketDescriptor" where
  "SetPluginId plugin_id d = d\<lparr>ds_plugin_id := plugin_id\<rparr>"

text \<open>Reading and writing one field of the word of flags.\<close>

definition desc_get :: "nat \<Rightarrow> nat \<Rightarrow> CPacketDescriptor \<Rightarrow> u32" where
  "desc_get hi lo d = btGetMaskBit (ds_flags d) hi lo"

definition desc_set :: "nat \<Rightarrow> nat \<Rightarrow> u32 \<Rightarrow> CPacketDescriptor \<Rightarrow> CPacketDescriptor" where
  "desc_set hi lo v d = d\<lparr>ds_flags := btSetMaskBit (ds_flags d) hi lo v\<rparr>"

definition IsSwapTuple :: "CPacketDescriptor \<Rightarrow> bool" where "IsSwapTuple d \<longleftrightarrow> desc_get 0 0 d \<noteq> 0"
definition SetSwapTuple :: "bool \<Rightarrow> CPacketDescriptor \<Rightarrow> CPacketDescriptor" where "SetSwapTuple b d = desc_set 0 0 (if b then 1 else 0) d"
definition IsValidPkt :: "CPacketDescriptor \<Rightarrow> bool" where "IsValidPkt d \<longleftrightarrow> desc_get 1 1 d \<noteq> 0"
definition SetIsValidPkt :: "bool \<Rightarrow> CPacketDescriptor \<Rightarrow> CPacketDescriptor" where "SetIsValidPkt b d = desc_set 1 1 (if b then 1 else 0) d"
definition IsInitSide :: "CPacketDescriptor \<Rightarrow> bool" where "IsInitSide d \<longleftrightarrow> desc_get 4 4 d \<noteq> 0"
definition SetInitSide :: "bool \<Rightarrow> CPacketDescriptor \<Rightarrow> CPacketDescriptor" where "SetInitSide b d = desc_set 4 4 (if b then 1 else 0) d"
definition IsLastPkt :: "CPacketDescriptor \<Rightarrow> bool" where "IsLastPkt d \<longleftrightarrow> desc_get 5 5 d \<noteq> 0"
definition SetIsLastPkt :: "bool \<Rightarrow> CPacketDescriptor \<Rightarrow> CPacketDescriptor" where "SetIsLastPkt b d = desc_set 5 5 (if b then 1 else 0) d"
definition IsRtt :: "CPacketDescriptor \<Rightarrow> bool" where "IsRtt d \<longleftrightarrow> desc_get 6 6 d \<noteq> 0"
definition SetRtt :: "bool \<Rightarrow> CPacketDescriptor \<Rightarrow> CPacketDescriptor" where "SetRtt b d = desc_set 6 6 (if b then 1 else 0) d"
definition IsPcapTiming :: "CPacketDescriptor \<Rightarrow> bool" where "IsPcapTiming d \<longleftrightarrow> desc_get 7 7 d \<noteq> 0"
definition SetPcapTiming :: "bool \<Rightarrow> CPacketDescriptor \<Rightarrow> CPacketDescriptor" where "SetPcapTiming b d = desc_set 7 7 (if b then 1 else 0) d"
definition IsPluginEnable :: "CPacketDescriptor \<Rightarrow> bool" where "IsPluginEnable d \<longleftrightarrow> desc_get 13 13 d \<noteq> 0"
definition SetPluginEnable :: "bool \<Rightarrow> CPacketDescriptor \<Rightarrow> CPacketDescriptor" where "SetPluginEnable b d = desc_set 13 13 (if b then 1 else 0) d"
definition IsBiDirectionalFlow :: "CPacketDescriptor \<Rightarrow> bool" where "IsBiDirectionalFlow d \<longleftrightarrow> desc_get 14 14 d \<noteq> 0"
definition SetBiPluginEnable :: "bool \<Rightarrow> CPacketDescriptor \<Rightarrow> CPacketDescriptor" where "SetBiPluginEnable b d = desc_set 14 14 (if b then 1 else 0) d"
definition IsLearn :: "CPacketDescriptor \<Rightarrow> bool" where "IsLearn d \<longleftrightarrow> desc_get 15 15 d \<noteq> 0"
definition SetLearn :: "bool \<Rightarrow> CPacketDescriptor \<Rightarrow> CPacketDescriptor" where "SetLearn b d = desc_set 15 15 (if b then 1 else 0) d"

text \<open>The protocol has two bits.\<close>

definition IsTcp :: "CPacketDescriptor \<Rightarrow> bool" where "IsTcp d \<longleftrightarrow> desc_get 3 2 d = 1"
definition SetIsTcp :: "bool \<Rightarrow> CPacketDescriptor \<Rightarrow> CPacketDescriptor" where "SetIsTcp b d = desc_set 3 2 (if b then 1 else 0) d"
definition IsUdp :: "CPacketDescriptor \<Rightarrow> bool" where "IsUdp d \<longleftrightarrow> desc_get 3 2 d = 2"
definition SetIsUdp :: "bool \<Rightarrow> CPacketDescriptor \<Rightarrow> CPacketDescriptor" where "SetIsUdp b d = desc_set 3 2 (if b then 2 else 0) d"
definition IsIcmp :: "CPacketDescriptor \<Rightarrow> bool" where "IsIcmp d \<longleftrightarrow> desc_get 3 2 d = 3"
definition SetIsIcmp :: "bool \<Rightarrow> CPacketDescriptor \<Rightarrow> CPacketDescriptor" where "SetIsIcmp b d = desc_set 3 2 (if b then 3 else 0) d"

definition getFlowId :: "CPacketDescriptor \<Rightarrow> u16" where "getFlowId d = ucast (desc_get 12 8 d)"
definition SetFlowId :: "u16 \<Rightarrow> CPacketDescriptor \<Rightarrow> CPacketDescriptor" where "SetFlowId flow_id d = desc_set 12 8 (ucast flow_id) d"
definition getId :: "CPacketDescriptor \<Rightarrow> u16" where "getId d = ucast (desc_get 31 16 d)"
definition SetId :: "u16 \<Rightarrow> CPacketDescriptor \<Rightarrow> CPacketDescriptor" where "SetId i d = desc_set 31 16 (ucast i) d"

definition SetFlowPktNum :: "u32 \<Rightarrow> CPacketDescriptor \<Rightarrow> CPacketDescriptor" where
  "SetFlowPktNum pkt_id d = d\<lparr>ds_flow_pkt_num := ucast pkt_id\<rparr>"

definition getFlowPktNum :: "CPacketDescriptor \<Rightarrow> u32" where
  "getFlowPktNum d = ucast (ds_flow_pkt_num d)"

definition SetMaxPktsPerFlow :: "u32 \<Rightarrow> CPacketDescriptor \<Rightarrow> CPacketDescriptor option" where
  "SetMaxPktsPerFlow pkts d = (if pkts < 65000 then Some (d\<lparr>ds_max_flow_pkts := ucast pkts\<rparr>) else None)"

text \<open>The conversion of a negative number of seconds is undefined.\<close>

definition SetMaxFlowTimeout :: "rat \<Rightarrow> CPacketDescriptor \<Rightarrow> CPacketDescriptor option" where
  "SetMaxFlowTimeout sec d =
     (let sec1 = sec * 2 + 5; sec2 = (if sec1 > 65000 then 65000 else sec1) in
      if sec2 \<le> - 1 then None else Some (d\<lparr>ds_max_flow_aging := word_of_int (if sec2 < 0 then 0 else \<lfloor>sec2\<rfloor>)\<rparr>))"

definition GetDirInfo :: "CPacketDescriptor \<Rightarrow> CPacketDescriptorPerDir" where
  "GetDirInfo d = ds_per_dir d (if IsInitSide d then CLIENT_SIDE else SERVER_SIDE)"

definition IsOneDirectionalFlow :: "CPacketDescriptor \<Rightarrow> bool" where
  "IsOneDirectionalFlow d \<longleftrightarrow> dd_max_flow_pkts (ds_per_dir d CLIENT_SIDE) = ds_max_flow_pkts d \<or> dd_max_flow_pkts (ds_per_dir d SERVER_SIDE) = ds_max_flow_pkts d"

section \<open>Fields do not interfere\<close>

lemma desc_get_set_same: "lo \<le> hi \<Longrightarrow> hi < 32 \<Longrightarrow> desc_get hi lo (desc_set hi lo v d) = take_bit (hi - lo + 1) v"
  by (simp add: desc_get_def desc_set_def btGet_Set_same)

lemma desc_get_set_other: "lo \<le> hi \<Longrightarrow> hi < 32 \<Longrightarrow> lo' \<le> hi' \<Longrightarrow> hi' < 32 \<Longrightarrow> hi < lo' \<or> hi' < lo \<Longrightarrow> desc_get hi' lo' (desc_set hi lo v d) = desc_get hi' lo' d"
  by (simp add: desc_get_def desc_set_def btGet_Set_other)

text \<open>What a descriptor says, field by field.\<close>

datatype l4_proto = L4Other | L4Tcp | L4Udp | L4Icmp

record desc_view =
  dv_swap :: bool
  dv_valid :: bool
  dv_proto :: l4_proto
  dv_init :: bool
  dv_last :: bool
  dv_rtt :: bool
  dv_pcap :: bool
  dv_flow_id :: u16
  dv_plugin :: bool
  dv_both :: bool
  dv_learn :: bool
  dv_id :: u16

definition view :: "CPacketDescriptor \<Rightarrow> desc_view" where
  "view d = \<lparr>dv_swap = IsSwapTuple d, dv_valid = IsValidPkt d,
     dv_proto = (if IsTcp d then L4Tcp else if IsUdp d then L4Udp else if IsIcmp d then L4Icmp else L4Other),
     dv_init = IsInitSide d, dv_last = IsLastPkt d, dv_rtt = IsRtt d, dv_pcap = IsPcapTiming d, dv_flow_id = getFlowId d,
     dv_plugin = IsPluginEnable d, dv_both = IsBiDirectionalFlow d, dv_learn = IsLearn d, dv_id = getId d\<rparr>"

lemmas desc_getters = IsSwapTuple_def IsValidPkt_def IsInitSide_def IsLastPkt_def IsRtt_def IsPcapTiming_def IsPluginEnable_def
  IsBiDirectionalFlow_def IsLearn_def IsTcp_def IsUdp_def IsIcmp_def getFlowId_def getId_def

lemmas desc_setters = SetSwapTuple_def SetIsValidPkt_def SetInitSide_def SetIsLastPkt_def SetRtt_def SetPcapTiming_def SetPluginEnable_def
  SetBiPluginEnable_def SetLearn_def SetIsTcp_def SetIsUdp_def SetIsIcmp_def SetFlowId_def SetId_def

lemma ucast_take_bit: "ucast (take_bit n (ucast (w :: u16) :: u32)) = take_bit n w"
  by (rule bit_word_eqI) (auto simp: bit_ucast_iff bit_take_bit_iff)

lemma desc_get_set_bit: "i < 32 \<Longrightarrow> desc_get i i (desc_set i i (if b then 1 else 0) d) \<noteq> 0 \<longleftrightarrow> b"
  by (simp add: desc_get_set_same)

lemma desc_get_set_proto: "desc_get 3 2 (desc_set 3 2 0 d) = 0" "desc_get 3 2 (desc_set 3 2 1 d) = 1" "desc_get 3 2 (desc_set 3 2 2 d) = 2" "desc_get 3 2 (desc_set 3 2 3 d) = 3"
  by (simp_all add: desc_get_set_same take_bit_eq_mod)

lemma desc_get_set_ids:
  "ucast (desc_get 12 8 (desc_set 12 8 (ucast (i :: u16)) d)) = take_bit 5 i" "ucast (desc_get 31 16 (desc_set 31 16 (ucast (i :: u16)) d)) = i"
  by (simp_all add: desc_get_set_same ucast_take_bit take_bit_word_eq_self)

text \<open>Each setter changes its own field of the view and nothing else.\<close>

lemma view_of_setters:
  "view (SetSwapTuple b d) = (view d)\<lparr>dv_swap := b\<rparr>"
  "view (SetIsValidPkt b d) = (view d)\<lparr>dv_valid := b\<rparr>"
  "view (SetIsTcp b d) = (view d)\<lparr>dv_proto := (if b then L4Tcp else L4Other)\<rparr>"
  "view (SetIsUdp b d) = (view d)\<lparr>dv_proto := (if b then L4Udp else L4Other)\<rparr>"
  "view (SetIsIcmp b d) = (view d)\<lparr>dv_proto := (if b then L4Icmp else L4Other)\<rparr>"
  "view (SetInitSide b d) = (view d)\<lparr>dv_init := b\<rparr>"
  "view (SetIsLastPkt b d) = (view d)\<lparr>dv_last := b\<rparr>"
  "view (SetRtt b d) = (view d)\<lparr>dv_rtt := b\<rparr>"
  "view (SetPcapTiming b d) = (view d)\<lparr>dv_pcap := b\<rparr>"
  "view (SetFlowId i d) = (view d)\<lparr>dv_flow_id := take_bit 5 i\<rparr>"
  "view (SetPluginEnable b d) = (view d)\<lparr>dv_plugin := b\<rparr>"
  "view (SetBiPluginEnable b d) = (view d)\<lparr>dv_both := b\<rparr>"
  "view (SetLearn b d) = (view d)\<lparr>dv_learn := b\<rparr>"
  "view (SetId i d) = (view d)\<lparr>dv_id := i\<rparr>"
  by (simp_all only: view_def desc_getters desc_setters)
    (auto simp: desc_get_set_bit desc_get_set_proto desc_get_set_ids desc_get_set_other)

end
