(* ===== verification/Pkt_Parse.thy ===== *)
theory Pkt_Parse
  imports Pkt_Desc Latency_Safe
begin

text \<open>
  Parsing of the packets of a recorded flow (\<open>CPacketIndication\<close>, \<open>CPacketParser\<close>, \<open>CFlowKey\<close> and \<open>CFlowTableMap\<close> in \<open>bp_sim.h\<close> and
  \<open>bp_sim.cpp\<close>): layers, offsets, the key of the flow and the descriptor.

  A packet is a buffer and the length read from the file; pointers are offsets in the buffer.  An access outside the buffer
  is \<open>PpRead\<close>, \<open>exit\<close> is \<open>PpExit\<close>, a failing assertion \<open>PpAssert\<close>.
\<close>

datatype pp_fault = PpRead | PpExit | PpAssert

section \<open>Keys\<close>

record CFlowKey =
  fk_ipaddr1 :: u32
  fk_ipaddr2 :: u32
  fk_port1 :: u16
  fk_port2 :: u16
  fk_ip_proto :: u8
  fk_l2_proto :: u8
  fk_vrfid :: u16

definition key_Clean :: CFlowKey where
  "key_Clean = \<lparr>fk_ipaddr1 = 0, fk_ipaddr2 = 0, fk_port1 = 0, fk_port2 = 0, fk_ip_proto = 0, fk_l2_proto = 0, fk_vrfid = 0\<rparr>"

section \<open>Counters\<close>

text \<open>The fields of \<open>CCPacketParserCounters\<close> by name.\<close>

datatype pp_counter = m_pkt | m_ipv4 | m_ipv6 | m_non_ip | m_vlan | m_arp | m_mpls | m_non_valid_ipv4_ver | m_non_valid_ipv6_ver |
  m_ip_checksum_error | m_ip_length_error | m_ipv6_length_error | m_ip_not_first_fragment_error | m_ip_ttl_is_zero_error |
  m_ip_multicast_error | m_ip_header_options | m_non_tcp_udp | m_non_tcp_udp_ah | m_non_tcp_udp_esp | m_non_tcp_udp_icmp |
  m_non_tcp_udp_gre | m_non_tcp_udp_ip | m_tcp_header_options | m_tcp_udp_pkt_length_error | m_tcp | m_udp | m_valid_udp_tcp

type_synonym CCPacketParserCounters = "pp_counter \<Rightarrow> u64"

definition bump :: "pp_counter \<Rightarrow> CCPacketParserCounters \<Rightarrow> CCPacketParserCounters" where
  "bump f c = c(f := c f + 1)"

definition getTotalErrors :: "CCPacketParserCounters \<Rightarrow> u64" where
  "getTotalErrors c = sum_list (map c [m_non_ip, m_arp, m_mpls, m_non_valid_ipv4_ver, m_ip_checksum_error, m_ip_length_error,
     m_ip_not_first_fragment_error, m_ip_ttl_is_zero_error, m_ip_multicast_error, m_non_tcp_udp_ah, m_non_tcp_udp_esp,
     m_non_tcp_udp_icmp, m_non_tcp_udp_gre, m_non_tcp_udp_ip, m_tcp_udp_pkt_length_error])"

text \<open>\<open>Clear\<close> leaves four of the counters alone.\<close>

definition counters_Clear :: "CCPacketParserCounters \<Rightarrow> CCPacketParserCounters" where
  "counters_Clear c = (\<lambda>f. if f \<in> {m_ipv4, m_ipv6, m_non_valid_ipv6_ver, m_ipv6_length_error} then c f else 0)"

section \<open>Header fields\<close>

definition getVersion :: "mem \<Rightarrow> nat \<Rightarrow> u8 option" where
  "getVersion m ip = map_option (\<lambda>b. btGetMaskBitBigE b 0 3) (mem_rd m ip)"

definition getFragmentOffset :: "mem \<Rightarrow> nat \<Rightarrow> u16 option" where
  "getFragmentOffset m ip = map_option (\<lambda>w. push_bit 3 (PKT_NTOHS w AND 0x1fff)) (mem_rd m (ip + 6))"

definition isMoreFragments :: "mem \<Rightarrow> nat \<Rightarrow> bool option" where
  "isMoreFragments m ip = map_option (\<lambda>w. PKT_NTOHS w AND 0x2000 \<noteq> 0) (mem_rd m (ip + 6))"

definition isFirstFragment :: "mem \<Rightarrow> nat \<Rightarrow> bool option" where
  "isFirstFragment m ip = (case (getFragmentOffset m ip, isMoreFragments m ip) of (Some off, Some mf) \<Rightarrow> Some (off = 0 \<and> mf) | _ \<Rightarrow> None)"

definition isFragmented :: "mem \<Rightarrow> nat \<Rightarrow> bool option" where
  "isFragmented m ip = (case (getFragmentOffset m ip, isMoreFragments m ip) of (Some off, Some mf) \<Rightarrow> Some (off \<noteq> 0 \<or> mf) | _ \<Rightarrow> None)"

definition isNotFirstFragment :: "mem \<Rightarrow> nat \<Rightarrow> bool option" where
  "isNotFirstFragment m ip = (case (isFragmented m ip, isFirstFragment m ip) of (Some frag, Some first) \<Rightarrow> Some (frag \<and> \<not> first) | _ \<Rightarrow> None)"

definition tcp_getHeaderLength :: "mem \<Rightarrow> nat \<Rightarrow> u8 option" where
  "tcp_getHeaderLength m p = map_option (\<lambda>b. push_bit 2 (btGetMaskBitBigE b 0 3)) (mem_rd m (p + 12))"

definition udp_getDestPort :: "mem \<Rightarrow> nat \<Rightarrow> u16 option" where
  "udp_getDestPort m p = map_option PKT_NTOHS (mem_rd m (p + 2))"

definition ipv6_getVersion :: "mem \<Rightarrow> nat \<Rightarrow> u8 option" where
  "ipv6_getVersion m ip = map_option (\<lambda>w. ucast (btGetMaskBitBigE (PKT_NTOHL w) 0 3)) (mem_rd m ip)"

definition ipv6_setVersion :: "mem \<Rightarrow> nat \<Rightarrow> u8 \<Rightarrow> mem option" where
  "ipv6_setVersion m ip v = (case mem_rd m ip of None \<Rightarrow> None | Some w \<Rightarrow> mem_wr m ip (PKT_NTOHL (btSetMaskBitBigE (PKT_NTOHL w) 0 3 (ucast v))))"

definition ipv6_setPayloadLen :: "mem \<Rightarrow> nat \<Rightarrow> u16 \<Rightarrow> mem option" where
  "ipv6_setPayloadLen m ip len = mem_wr m (ip + 4) (PKT_NTOHS len)"

definition ipv6_setNextHdr :: "mem \<Rightarrow> nat \<Rightarrow> u8 \<Rightarrow> mem option" where
  "ipv6_setNextHdr m ip h = mem_wr m (ip + 6) h"

definition ipv6_setHopLimit :: "mem \<Rightarrow> nat \<Rightarrow> u8 \<Rightarrow> mem option" where
  "ipv6_setHopLimit m ip h = mem_wr m (ip + 7) h"

definition updateLSBIpv6Src :: "mem \<Rightarrow> nat \<Rightarrow> u32 \<Rightarrow> mem option" where
  "updateLSBIpv6Src m ip a = mem_wr m (ip + 20) (PKT_NTOHL a)"

definition updateLSBIpv6Dst :: "mem \<Rightarrow> nat \<Rightarrow> u32 \<Rightarrow> mem option" where
  "updateLSBIpv6Dst m ip a = mem_wr m (ip + 36) (PKT_NTOHL a)"

text \<open>The six upper groups of an address that starts at \<open>a\<close>, and the lower 32 bits of it.\<close>

definition updateMSBIpv6 :: "nat \<Rightarrow> u16 list \<Rightarrow> mem \<Rightarrow> pp_fault + mem" where
  "updateMSBIpv6 a gs m = foldE (\<lambda>m i. liftE PpRead (mem_wr m (a + 2 * i) (PKT_NTOHS (gs ! i)))) m [0..<6]"

definition ipv6_lsb :: "mem \<Rightarrow> nat \<Rightarrow> u32 option" where
  "ipv6_lsb m a = (case (mem_rd m (a + 12), mem_rd m (a + 14)) of
       (Some h, Some l) \<Rightarrow> Some (push_bit 16 (ucast (PKT_NTOHS h)) OR ucast (PKT_NTOHS l)) | _ \<Rightarrow> None)"

section \<open>The packet\<close>

record CPacketIndication =
  pi_cap_ipg :: rat
  pi_raw :: mem
  pi_pkt_len :: u16
  pi_pkt_cnt :: u64
  pi_ether :: nat
  pi_l3 :: nat
  pi_is_ipv6 :: bool
  pi_l4 :: nat
  pi_payload :: "nat option"
  pi_payload_len :: u16
  pi_packet_padding :: u16
  pi_flow_key :: CFlowKey
  pi_desc :: CPacketDescriptor
  pi_ether_offset :: u8
  pi_ip_offset :: u8
  pi_udp_tcp_offset :: u8
  pi_payload_offset :: u8

definition ind_Clean :: "CPacketIndication \<Rightarrow> CPacketIndication" where
  "ind_Clean pk = pk\<lparr>pi_desc := desc_Clear (pi_desc pk), pi_ether := 0, pi_l3 := 0, pi_l4 := 0, pi_payload := None, pi_payload_len := 0\<rparr>"

definition getPayloadOffset :: "CPacketIndication \<Rightarrow> nat" where
  "getPayloadOffset pk = (case pi_payload pk of None \<Rightarrow> 0 | Some p \<Rightarrow> p)"

definition UpdateOffsets :: "CPacketIndication \<Rightarrow> CPacketIndication" where
  "UpdateOffsets pk = pk\<lparr>pi_ether_offset := of_nat (pi_ether pk), pi_ip_offset := of_nat (pi_l3 pk), pi_udp_tcp_offset := of_nat (pi_l4 pk),
     pi_payload_offset := of_nat (getPayloadOffset pk)\<rparr>"

definition UpdatePacketPadding :: "CPacketIndication \<Rightarrow> pp_fault + CPacketIndication" where
  "UpdatePacketPadding pk = bindE (liftE PpRead (getTotalLength (pi_raw pk) (pi_l3 pk))) (\<lambda>len.
     Inr (pk\<lparr>pi_packet_padding := pi_pkt_len pk - (len + of_nat (pi_l3 pk))\<rparr>))"

definition RefreshPointers :: "CPacketIndication \<Rightarrow> CPacketIndication" where
  "RefreshPointers pk = pk\<lparr>pi_ether := unat (pi_ether_offset pk), pi_l3 := unat (pi_ip_offset pk), pi_l4 := unat (pi_udp_tcp_offset pk),
     pi_payload := (if pi_payload_offset pk \<noteq> 0 then Some (unat (pi_payload_offset pk)) else None)\<rparr>"

text \<open>The key does not depend on the direction, except when the two addresses are equal.\<close>

definition make_key :: "u8 \<Rightarrow> u32 \<Rightarrow> u32 \<Rightarrow> u16 \<Rightarrow> u16 \<Rightarrow> CFlowKey" where
  "make_key proto ip_src ip_dst src_port dst_port =
     (if ip_src > ip_dst
      then \<lparr>fk_ipaddr1 = ip_dst, fk_ipaddr2 = ip_src, fk_port1 = dst_port, fk_port2 = src_port, fk_ip_proto = proto, fk_l2_proto = 0, fk_vrfid = 0\<rparr>
      else \<lparr>fk_ipaddr1 = ip_src, fk_ipaddr2 = ip_dst, fk_port1 = src_port, fk_port2 = dst_port, fk_ip_proto = proto, fk_l2_proto = 0, fk_vrfid = 0\<rparr>)"

definition pkt_addrs :: "CPacketIndication \<Rightarrow> pp_fault + (u32 \<times> u32 \<times> u8)" where
  "pkt_addrs pk = (let m = pi_raw pk; ip = pi_l3 pk in
     if pi_is_ipv6 pk
     then bindE (liftE PpRead (ipv6_lsb m (ip + 8))) (\<lambda>src. bindE (liftE PpRead (ipv6_lsb m (ip + 24))) (\<lambda>dst.
       bindE (liftE PpRead (ipv6_getNextHdr m ip)) (\<lambda>proto. Inr (src, dst, proto))))
     else bindE (liftE PpRead (getSourceIp m ip)) (\<lambda>src. bindE (liftE PpRead (getDestIp m ip)) (\<lambda>dst.
       bindE (liftE PpRead (getProtocol m ip)) (\<lambda>proto. Inr (src, dst, proto)))))"

definition SetKey :: "CPacketIndication \<Rightarrow> pp_fault + CPacketIndication" where
  "SetKey pk =
     bindE (pkt_addrs pk) (\<lambda>(src, dst, proto).
     bindE (liftE PpRead (udp_getSourcePort (pi_raw pk) (pi_l4 pk))) (\<lambda>sport.
     bindE (liftE PpRead (udp_getDestPort (pi_raw pk) (pi_l4 pk))) (\<lambda>dport.
       let d = SetIsValidPkt True (pi_desc pk) in
       Inr (pk\<lparr>pi_desc := (if src > dst then d else SetSwapTuple True d), pi_flow_key := make_key proto src dst sport dport\<rparr>))))"

text \<open>TCP, UDP and the rest; the flag says that the packet is given up.\<close>

definition ProcessIpPacketProtocol :: "u8 \<Rightarrow> nat \<Rightarrow> CPacketIndication \<times> CCPacketParserCounters \<Rightarrow> pp_fault + bool \<times> nat \<times> CPacketIndication \<times> CCPacketParserCounters" where
  "ProcessIpPacketProtocol protocol offset s = (case s of (pk, cnt) \<Rightarrow>
     let reject = (\<lambda>f. Inr (True, offset, pk, bump f cnt));
         fin = (\<lambda>offset pk cnt. if offset > unat (pi_pkt_len pk) then Inr (True, offset, pk, bump m_tcp_udp_pkt_length_error cnt) else Inr (False, offset, pk, cnt)) in
     if protocol = 0x06 then
       bindE (liftE PpRead (tcp_getHeaderLength (pi_raw pk) offset)) (\<lambda>len.
         fin (offset + unat len) (pk\<lparr>pi_desc := SetIsTcp True (pi_desc pk), pi_l4 := offset\<rparr>)
           (bump m_tcp (if len > 20 then bump m_tcp_header_options cnt else cnt)))
     else if protocol = 0x11 then fin (offset + 8) (pk\<lparr>pi_desc := SetIsUdp True (pi_desc pk), pi_l4 := offset\<rparr>) (bump m_udp cnt)
     else if protocol = 0x33 then reject m_non_tcp_udp_ah
     else if protocol = 0x32 then reject m_non_tcp_udp_esp
     else if protocol = 0x01 \<or> protocol = 0x3a then reject m_non_tcp_udp_icmp
     else if protocol = 0x2f then reject m_non_tcp_udp_gre
     else if protocol = 0x04 then reject m_non_ip
     else reject m_non_tcp_udp)"

definition MAX_BUF_SIZE :: nat where "MAX_BUF_SIZE = 2048"
definition FIRST_PKT_SIZE :: nat where "FIRST_PKT_SIZE = 64"

text \<open>The packet is cut to the length of the IP packet, but not below 60 octets.\<close>

definition cut_len :: "u16 \<Rightarrow> u16" where
  "cut_len len = (if len < 60 then 60 else len)"

text \<open>The checks of the IP header: the counters of a packet that is given up, or its lengths.\<close>

definition ipv4_checks :: "nat \<Rightarrow> CPacketIndication \<Rightarrow> CCPacketParserCounters \<Rightarrow> pp_fault + CCPacketParserCounters + u16 \<times> u8 \<times> CCPacketParserCounters" where
  "ipv4_checks offset pk cnt0 =
     (let m = pi_raw pk; ip = pi_l3 pk; cnt1 = bump m_pkt cnt0 in
     bindE (liftE PpRead (getVersion m ip)) (\<lambda>ver.
     if ver \<noteq> 4 then Inr (Inl (bump m_non_valid_ipv4_ver cnt1))
     else let cnt2 = bump m_ipv4 cnt1 in
     bindE (liftE PpRead (getTotalLength m ip)) (\<lambda>tot.
     if unat tot + offset > unat (pi_pkt_len pk) then Inr (Inl (bump m_ip_length_error cnt2))
     else bindE (liftE PpRead (getHeaderLength m ip)) (\<lambda>hlen.
     let cnt3 = (if hlen > 20 then bump m_ip_header_options cnt2 else cnt2) in
     if unat hlen + offset > unat (pi_pkt_len pk) then Inr (Inl (bump m_ip_length_error cnt3))
     else bindE (liftE PpRead (getTimeToLive m ip)) (\<lambda>ttl.
     if ttl = 0 then Inr (Inl (bump m_ip_ttl_is_zero_error cnt3))
     else bindE (liftE PpRead (isNotFirstFragment m ip)) (\<lambda>frag.
     if frag then Inr (Inl (bump m_ip_not_first_fragment_error cnt3))
     else Inr (Inr (tot, hlen, cnt3))))))))"

definition ProcessIpPacket :: "nat \<Rightarrow> CPacketIndication \<times> CCPacketParserCounters \<Rightarrow> pp_fault + CPacketIndication \<times> CCPacketParserCounters" where
  "ProcessIpPacket offset s = (case s of (pk, cnt0) \<Rightarrow>
     bindE (ipv4_checks offset pk cnt0) (\<lambda>r. case r of
       Inl cnt \<Rightarrow> Inr (pk, cnt)
     | Inr (tot, hlen, cnt3) \<Rightarrow>
         bindE (liftE PpRead (getProtocol (pi_raw pk) (pi_l3 pk))) (\<lambda>protocol.
         bindE (ProcessIpPacketProtocol protocol (offset + unat hlen) (pk, cnt3)) (\<lambda>(err, off, pk1, cnt4).
         if err then Inr (pk1, cnt4)
         else let payload_offset_from_ip = off - offset in
         if payload_offset_from_ip > unat tot then Inr (pk1, bump m_tcp_udp_pkt_length_error cnt4)
         else if unat (pi_pkt_len pk1) > MAX_BUF_SIZE - FIRST_PKT_SIZE then Inr (pk1, bump m_tcp_udp_pkt_length_error cnt4)
         else
           let pk2 = pk1\<lparr>pi_pkt_len := cut_len (tot + of_nat (pi_l3 pk)), pi_payload_len := tot - of_nat payload_offset_from_ip, pi_payload := Some off\<rparr> in
           bindE (UpdatePacketPadding pk2) (\<lambda>pk3.
           bindE (SetKey pk3) (\<lambda>pk4. Inr (pk4, bump m_valid_udp_tcp cnt4)))))))"

record ipv6_cfg =
  i6_enable :: bool
  i6_src :: "u16 list"
  i6_dst :: "u16 list"

definition ipv6_checks :: "nat \<Rightarrow> CPacketIndication \<Rightarrow> CCPacketParserCounters \<Rightarrow> pp_fault + CCPacketParserCounters + u16 \<times> CCPacketParserCounters" where
  "ipv6_checks offset pk cnt0 =
     (let m = pi_raw pk; ip = pi_l3 pk; cnt1 = bump m_pkt cnt0 in
     bindE (liftE PpRead (ipv6_getVersion m ip)) (\<lambda>ver.
     if ver \<noteq> 6 then Inr (Inl (bump m_non_valid_ipv6_ver cnt1))
     else let cnt2 = bump m_ipv6 cnt1 in
     bindE (liftE PpRead (ipv6_getPayloadLen m ip)) (\<lambda>plen.
     if unat plen + offset + 40 > unat (pi_pkt_len pk) then Inr (Inl (bump m_ipv6_length_error cnt2))
     else Inr (Inr (plen, cnt2)))))"

definition ProcessIpv6Packet :: "ipv6_cfg \<Rightarrow> nat \<Rightarrow> CPacketIndication \<times> CCPacketParserCounters \<Rightarrow> pp_fault + CPacketIndication \<times> CCPacketParserCounters" where
  "ProcessIpv6Packet cfg offset s = (case s of (pk, cnt0) \<Rightarrow>
     bindE (ipv6_checks offset pk cnt0) (\<lambda>r. case r of
       Inl cnt \<Rightarrow> Inr (pk, cnt)
     | Inr (plen, cnt2) \<Rightarrow>
         bindE (updateMSBIpv6 (pi_l3 pk + 8) (i6_src cfg) (pi_raw pk)) (\<lambda>m1.
         bindE (updateMSBIpv6 (pi_l3 pk + 24) (i6_dst cfg) m1) (\<lambda>m2.
         bindE (liftE PpRead (ipv6_getNextHdr m2 (pi_l3 pk))) (\<lambda>protocol.
         bindE (ProcessIpPacketProtocol protocol (offset + 40) (pk\<lparr>pi_raw := m2\<rparr>, cnt2)) (\<lambda>(err, off, pk1, cnt3).
         if err then Inr (pk1, cnt3)
         else
           let real_pkt_size = plen + of_nat (pi_l3 pk) + 40;
               pk2 = pk1\<lparr>pi_pkt_len := cut_len real_pkt_size, pi_payload_len := plen, pi_payload := Some off,
                 pi_packet_padding := cut_len real_pkt_size - real_pkt_size\<rparr> in
           bindE (SetKey pk2) (\<lambda>pk3. Inr (pk3, bump m_valid_udp_tcp cnt3))))))))"

text \<open>
  Converting an IPv4 packet: the result is built in a static buffer of 2048 octets and copied back.  The lengths come from the IP header and are
  not compared with the packet.
\<close>

definition MAX_PKT_SIZE :: nat where "MAX_PKT_SIZE = 2048"

definition ipv6_header :: "mem \<Rightarrow> nat \<Rightarrow> u16 \<Rightarrow> pp_fault + mem" where
  "ipv6_header m ip p_len =
     bindE (liftE PpRead (ipv6_setVersion (replicate 40 0) 0 6)) (\<lambda>h1.
     bindE (liftE PpRead (ipv6_setPayloadLen h1 0 p_len)) (\<lambda>h2.
     bindE (liftE PpRead (getProtocol m ip)) (\<lambda>proto.
     bindE (liftE PpRead (ipv6_setNextHdr h2 0 proto)) (\<lambda>h3.
     bindE (liftE PpRead (ipv6_setHopLimit h3 0 64)) (\<lambda>h4.
     bindE (liftE PpRead (getSourceIp m ip)) (\<lambda>src.
     bindE (liftE PpRead (updateLSBIpv6Src h4 0 src)) (\<lambda>h5.
     bindE (liftE PpRead (getDestIp m ip)) (\<lambda>dst.
       liftE PpRead (updateLSBIpv6Dst h5 0 dst)))))))))"

definition ConvertPacketToIpv6InPlace :: "nat \<Rightarrow> CPacketIndication \<Rightarrow> pp_fault + bool \<times> CPacketIndication" where
  "ConvertPacketToIpv6InPlace offset pk = (let m = pi_raw pk in
     bindE (liftE PpRead (mem_wr (take offset m) 12 (PKT_NTOHS EtherIPv6))) (\<lambda>l2.
     bindE (liftE PpRead (getTotalLength m offset)) (\<lambda>tot.
     bindE (liftE PpRead (getHeaderLength m offset)) (\<lambda>hlen.
     if unat tot < unat hlen then Inr (False, pk)
     else
       let p_len = tot - ucast hlen; new_len = offset + 40 + unat p_len; from_ip = offset + unat hlen in
       bindE (ipv6_header m offset p_len) (\<lambda>h.
       if new_len > MAX_PKT_SIZE \<or> new_len > length m \<or> from_ip + unat p_len > length m then Inl PpRead
       else Inr (True, pk\<lparr>pi_raw := l2 @ h @ take (unat p_len) (drop from_ip m) @ drop new_len m, pi_pkt_len := of_nat new_len, pi_is_ipv6 := True\<rparr>))))))"

text \<open>The Ethernet type: the offset of the IP header and whether it is IPv6, or the counters of a packet that is given up.\<close>

definition ether_layer :: "mem \<Rightarrow> CCPacketParserCounters \<Rightarrow> pp_fault + CCPacketParserCounters + nat \<times> bool \<times> CCPacketParserCounters" where
  "ether_layer m cnt =
     bindE (liftE PpRead (getNextProtocol m)) (\<lambda>proto.
     if proto = EtherIP then Inr (Inr (14, False, cnt))
     else if proto = EtherIPv6 then Inr (Inr (14, True, cnt))
     else if proto = EtherVLAN then
       let cnt1 = bump m_vlan cnt in
       bindE (liftE PpRead (getVlanProtocol m)) (\<lambda>vproto.
       if vproto = EtherIP then Inr (Inr (18, False, cnt1))
       else if vproto = EtherIPv6 then Inr (Inr (18, True, cnt1))
       else if vproto = 0x8848 \<or> vproto = 0x8847 then Inr (Inl (bump m_mpls cnt1))
       else if vproto = 0x0806 then Inr (Inl (bump m_arp cnt1))
       else Inr (Inl (bump m_non_ip cnt1)))
     else if proto = 0x0806 then Inr (Inl (bump m_arp cnt))
     else if proto = 0x8848 \<or> proto = 0x8847 then Inr (Inl (bump m_mpls cnt))
     else Inr (Inl (bump m_non_ip cnt)))"

text \<open>The IP layer at \<open>offset\<close>, converted first when IPv6 is enabled.\<close>

definition ip_layer :: "ipv6_cfg \<Rightarrow> nat \<Rightarrow> bool \<Rightarrow> CPacketIndication \<Rightarrow> CCPacketParserCounters \<Rightarrow> pp_fault + CPacketIndication \<times> CCPacketParserCounters" where
  "ip_layer cfg offset v6 pk cnt =
     (if \<not> v6 \<and> 14 + 20 > unat (pi_pkt_len pk) then Inr (pk, bump m_ip_length_error cnt)
      else if v6 \<and> \<not> i6_enable cfg then Inl PpExit
      else if i6_enable cfg \<and> \<not> v6 then
        bindE (ConvertPacketToIpv6InPlace offset pk) (\<lambda>(ok, pk2).
          if \<not> ok then Inr (pk2, cnt) else ProcessIpv6Packet cfg offset (pk2, cnt))
      else if v6 then ProcessIpv6Packet cfg offset (pk, cnt)
      else ProcessIpPacket offset (pk, cnt))"

definition ProcessPacket1 :: "ipv6_cfg \<Rightarrow> CPacketIndication \<Rightarrow> CCPacketParserCounters \<Rightarrow> pp_fault + CPacketIndication \<times> CCPacketParserCounters" where
  "ProcessPacket1 cfg pk0 cnt =
     (let pk = (ind_Clean pk0)\<lparr>pi_ether := 0, pi_is_ipv6 := False\<rparr> in
      bindE (ether_layer (pi_raw pk) cnt) (\<lambda>r. case r of
        Inl cnt1 \<Rightarrow> Inr (pk, cnt1)
      | Inr (offset, v6, cnt1) \<Rightarrow> ip_layer cfg offset v6 (pk\<lparr>pi_l3 := offset, pi_is_ipv6 := v6\<rparr>) cnt1))"

definition ProcessPacket :: "ipv6_cfg \<Rightarrow> CPacketIndication \<Rightarrow> CCPacketParserCounters \<Rightarrow> pp_fault + CPacketIndication \<times> CCPacketParserCounters" where
  "ProcessPacket cfg pk cnt =
     bindE (ProcessPacket1 cfg pk cnt) (\<lambda>(pk1, cnt1). Inr (if IsValidPkt (pi_desc pk1) then UpdateOffsets pk1 else pk1, cnt1))"

section \<open>The flow table\<close>

record CFlow =
  fl_is_fif_swap :: u8
  fl_pkt_id :: u32
  fl_flow_id :: u32

record CFlowTableStats =
  fs_lookup :: u64
  fs_found :: u64
  fs_fif :: u64
  fs_add :: u64
  fs_remove :: u64
  fs_fif_err :: u64
  fs_active :: u64

definition flow_stats_Clear :: CFlowTableStats where
  "flow_stats_Clear = \<lparr>fs_lookup = 0, fs_found = 0, fs_fif = 0, fs_add = 0, fs_remove = 0, fs_fif_err = 0, fs_active = 0\<rparr>"

record CFlowTableMap =
  fm_map :: "CFlowKey \<rightharpoonup> CFlow"
  fm_stats :: CFlowTableStats

definition flow_table_Create :: "CFlowTableMap \<Rightarrow> CFlowTableMap" where
  "flow_table_Create t = t\<lparr>fm_stats := flow_stats_Clear\<rparr>"

text \<open>A new flow has an undefined id, which the caller sets.\<close>

definition flow_process :: "u32 \<Rightarrow> CFlowKey \<Rightarrow> CFlowTableMap \<Rightarrow> CFlow \<times> bool \<times> CFlowTableMap" where
  "flow_process junk key t =
     (let s = (fm_stats t)\<lparr>fs_lookup := fs_lookup (fm_stats t) + 1\<rparr> in
      case fm_map t key of
        Some f \<Rightarrow> (f, False, t\<lparr>fm_stats := s\<lparr>fs_found := fs_found s + 1\<rparr>\<rparr>)
      | None \<Rightarrow> let f = \<lparr>fl_is_fif_swap = 0, fl_pkt_id = 0, fl_flow_id = junk\<rparr> in
          (f, True, t\<lparr>fm_map := (fm_map t)(key \<mapsto> f), fm_stats := s\<lparr>fs_fif := fs_fif s + 1, fs_active := fs_active s + 1, fs_add := fs_add s + 1\<rparr>\<rparr>))"

definition flow_remove :: "CFlowKey \<Rightarrow> CFlowTableMap \<Rightarrow> CFlowTableMap option" where
  "flow_remove key t = (case fm_map t key of
       None \<Rightarrow> None
     | Some f \<Rightarrow> Some (t\<lparr>fm_map := (fm_map t)(key := None),
         fm_stats := (fm_stats t)\<lparr>fs_remove := fs_remove (fm_stats t) + 1, fs_active := fs_active (fm_stats t) - 1\<rparr>\<rparr>))"

definition flow_remove_all :: "CFlowTableMap \<Rightarrow> CFlowTableMap" where
  "flow_remove_all t = t\<lparr>fm_map := Map.empty\<rparr>"

section \<open>What a parsed packet looks like\<close>

definition l4_header_len :: "CPacketIndication \<Rightarrow> nat option" where
  "l4_header_len pk = (if IsTcp (pi_desc pk) then map_option unat (tcp_getHeaderLength (pi_raw pk) (pi_l4 pk)) else Some 8)"

definition laid_out :: "CPacketIndication \<Rightarrow> bool" where
  "laid_out pk \<longleftrightarrow> pi_l3 pk \<in> {14, 18} \<and> dv_proto (view (pi_desc pk)) \<in> {L4Tcp, L4Udp} \<and>
     (if pi_is_ipv6 pk then pi_l4 pk = pi_l3 pk + 40
      else map_option (\<lambda>h. pi_l3 pk + unat h) (getHeaderLength (pi_raw pk) (pi_l3 pk)) = Some (pi_l4 pk)) \<and>
     map_option (\<lambda>h. pi_l4 pk + h) (l4_header_len pk) = pi_payload pk"

definition offsets_ok :: "CPacketIndication \<Rightarrow> bool" where
  "offsets_ok pk \<longleftrightarrow> pi_ether_offset pk = 0 \<and> unat (pi_ip_offset pk) = pi_l3 pk \<and> unat (pi_udp_tcp_offset pk) = pi_l4 pk \<and>
     pi_payload pk = Some (unat (pi_payload_offset pk))"

lemma tcp_header_le:
  assumes "tcp_getHeaderLength m p = Some len"
  shows "unat len \<le> 60"
proof -
  obtain b :: u8 where b: "len = push_bit 2 (btGetMaskBitBigE b 0 3)" using assms by (auto simp: tcp_getHeaderLength_def)
  have "bit (btGetMaskBitBigE b 0 3) n \<longrightarrow> n < 4" for n by (simp add: bit_btGetMaskBitBigE)
  then have "take_bit 4 (btGetMaskBitBigE b 0 3) = btGetMaskBitBigE b 0 3" by (intro bit_word_eqI) (auto simp: bit_take_bit_iff)
  then have "unat (btGetMaskBitBigE b 0 3) < 2 ^ 4"
    by (metis take_bit_nat_less_exp unsigned_take_bit_eq)
  then show ?thesis by (simp add: b push_bit_eq_mult unat_word_ariths)
qed

lemma protocol_cases:
  assumes "ProcessIpPacketProtocol protocol off (pk, cnt) = Inr (err, off', pk1, cnt1)"
  shows "\<exists>d. pk1 = pk\<lparr>pi_desc := d, pi_l4 := pi_l4 pk1\<rparr> \<and> dv_valid (view d) = dv_valid (view (pi_desc pk)) \<and> dv_swap (view d) = dv_swap (view (pi_desc pk)) \<and> dv_both (view d) = dv_both (view (pi_desc pk)) \<and>
    (\<not> err \<longrightarrow> pi_l4 pk1 = off \<and> dv_proto (view d) \<in> {L4Tcp, L4Udp} \<and> map_option (\<lambda>h. off + h) (l4_header_len pk1) = Some off' \<and> off' \<le> off + 60 \<and> off' \<le> unat (pi_pkt_len pk))"
proof -
  have tcp: "IsTcp (SetIsTcp True d)" "\<not> IsTcp (SetIsUdp True d)" for d
    using view_of_setters(3) [of True d] view_of_setters(4) [of True d] by (auto simp: view_def split: if_splits)
  show ?thesis
  proof (cases "protocol = 0x06")
    case True
    then obtain len where len: "tcp_getHeaderLength (pi_raw pk) off = Some len" and r: "pk1 = pk\<lparr>pi_desc := SetIsTcp True (pi_desc pk), pi_l4 := off\<rparr>"
      "off' = off + unat len" "\<not> err \<longrightarrow> off' \<le> unat (pi_pkt_len pk)"
      using assms by (auto simp: ProcessIpPacketProtocol_def Let_def bindE_simps split: if_splits)
    then show ?thesis using tcp_header_le [OF len] tcp by (auto simp: view_of_setters l4_header_len_def)
  next
    case False
    show ?thesis
    proof (cases "protocol = 0x11")
      case True
      then have r: "pk1 = pk\<lparr>pi_desc := SetIsUdp True (pi_desc pk), pi_l4 := off\<rparr>" "off' = off + 8" "\<not> err \<longrightarrow> off' \<le> unat (pi_pkt_len pk)"
        using assms by (auto simp: ProcessIpPacketProtocol_def Let_def split: if_splits)
      then show ?thesis using tcp by (intro exI [of _ "SetIsUdp True (pi_desc pk)"]) (simp add: view_of_setters l4_header_len_def)
    next
      case other: False
      have "err \<and> pk1 = pk" using assms False other by (simp add: ProcessIpPacketProtocol_def Let_def split: if_splits)
      then show ?thesis by (intro exI [of _ "pi_desc pk"]) simp
    qed
  qed
qed

text \<open>The outcome of parsing: a packet that is given up, or one with a layout and the key of its tuple.\<close>

definition keyed :: "CPacketIndication \<Rightarrow> bool" where
  "keyed pk \<longleftrightarrow> (\<exists>src dst proto sport dport. pkt_addrs pk = Inr (src, dst, proto) \<and> udp_getSourcePort (pi_raw pk) (pi_l4 pk) = Some sport \<and>
     udp_getDestPort (pi_raw pk) (pi_l4 pk) = Some dport \<and> pi_flow_key pk = make_key proto src dst sport dport \<and> (dv_swap (view (pi_desc pk)) \<longleftrightarrow> \<not> src > dst))"

lemma pkt_addrs_fields: "pkt_addrs (pk\<lparr>pi_desc := d, pi_flow_key := k\<rparr>) = pkt_addrs pk"
  by (simp add: pkt_addrs_def Let_def)

lemma SetKey_fields:
  assumes "SetKey pk = Inr pk'" and swap: "\<not> dv_swap (view (pi_desc pk))"
  shows "keyed pk'" and "pk' = pk\<lparr>pi_desc := pi_desc pk', pi_flow_key := pi_flow_key pk'\<rparr>" and "dv_proto (view (pi_desc pk')) = dv_proto (view (pi_desc pk))"
    and "dv_both (view (pi_desc pk')) = dv_both (view (pi_desc pk))"
proof -
  let ?d = "\<lambda>src dst. if dst < src then SetIsValidPkt True (pi_desc pk) else SetSwapTuple True (SetIsValidPkt True (pi_desc pk))"
  obtain src dst proto sport dport where t: "pkt_addrs pk = Inr (src, dst, proto)" "udp_getSourcePort (pi_raw pk) (pi_l4 pk) = Some sport"
      "udp_getDestPort (pi_raw pk) (pi_l4 pk) = Some dport"
    and pk': "pk' = pk\<lparr>pi_desc := ?d src dst, pi_flow_key := make_key proto src dst sport dport\<rparr>"
    using assms(1) by (auto simp: SetKey_def Let_def bindE_simps)
  show "keyed pk'" unfolding keyed_def pk' pkt_addrs_fields using t swap by (simp add: view_of_setters)
  show "pk' = pk\<lparr>pi_desc := pi_desc pk', pi_flow_key := pi_flow_key pk'\<rparr>" "dv_proto (view (pi_desc pk')) = dv_proto (view (pi_desc pk))"
    "dv_both (view (pi_desc pk')) = dv_both (view (pi_desc pk))"
    by (simp_all add: pk' view_of_setters)
qed

lemma IsTcp_view: "IsTcp d \<longleftrightarrow> dv_proto (view d) = L4Tcp"
  by (simp add: view_def)

lemma IsValidPkt_view: "IsValidPkt d = dv_valid (view d)"
  by (simp add: view_def)

text \<open>How the lengths of a valid packet fit together.\<close>

definition sized :: "CPacketIndication \<Rightarrow> bool" where
  "sized pk \<longleftrightarrow> (\<exists>len off. (if pi_is_ipv6 pk then map_option (\<lambda>l. unat l + 40) (ipv6_getPayloadLen (pi_raw pk) (pi_l3 pk)) else map_option unat (getTotalLength (pi_raw pk) (pi_l3 pk))) = Some len \<and>
     unat (pi_pkt_len pk) = max 60 (pi_l3 pk + len) \<and> pi_payload pk = Some off \<and> off \<le> 138 \<and>
     (\<not> pi_is_ipv6 pk \<longrightarrow> off \<le> pi_l3 pk + len \<and> unat (pi_payload_len pk) = pi_l3 pk + len - off))"

lemma unat_cut_len: "unat len + k < 65536 \<Longrightarrow> unat (cut_len (len + of_nat k)) = max 60 (unat len + k)"
  by (simp add: cut_len_def word_less_nat_alt unat_word_ariths unat_of_nat)

definition good :: "CPacketIndication \<Rightarrow> bool" where
  "good pk \<longleftrightarrow> pi_ether pk = 0 \<and> \<not> dv_both (view (pi_desc pk)) \<and> laid_out pk \<and> keyed pk \<and> sized pk"

text \<open>The end of both branches: a packet whose layer 4 was found and whose lengths and key are set.\<close>

lemma key_set:
  assumes pr: "ProcessIpPacketProtocol protocol l4 (pk, cnt) = Inr (False, off, pk1, cnt1)"
    and key: "SetKey (pk1\<lparr>pi_pkt_len := n, pi_payload_len := l, pi_payload := Some off, pi_packet_padding := pad\<rparr>) = Inr pk'"
    and swap: "\<not> dv_swap (view (pi_desc pk))"
  shows "keyed pk'" and "pi_raw pk' = pi_raw pk" and "pi_ether pk' = pi_ether pk" and "pi_l3 pk' = pi_l3 pk" and "pi_is_ipv6 pk' = pi_is_ipv6 pk"
    and "pi_pkt_len pk' = n" and "pi_payload_len pk' = l" and "pi_payload pk' = Some off" and "pi_l4 pk' = l4" and "dv_proto (view (pi_desc pk')) \<in> {L4Tcp, L4Udp}"
    and "map_option (\<lambda>h. l4 + h) (l4_header_len pk') = Some off" and "off \<le> l4 + 60" and "l4 \<le> off"
    and "dv_both (view (pi_desc pk')) = dv_both (view (pi_desc pk))"
proof -
  obtain d where pk1: "pk1 = pk\<lparr>pi_desc := d, pi_l4 := l4\<rparr>" and d: "dv_swap (view d) = dv_swap (view (pi_desc pk))" "dv_proto (view d) \<in> {L4Tcp, L4Udp}" "dv_both (view d) = dv_both (view (pi_desc pk))"
    and l4: "map_option (\<lambda>h. l4 + h) (l4_header_len pk1) = Some off" "off \<le> l4 + 60"
    using protocol_cases [OF pr] by auto
  have sw: "\<not> dv_swap (view (pi_desc (pk1\<lparr>pi_pkt_len := n, pi_payload_len := l, pi_payload := Some off, pi_packet_padding := pad\<rparr>)))"
    using d(1) swap by (simp add: pk1)
  note k = SetKey_fields [OF key sw]
  show "keyed pk'" by (rule k(1))
  show "dv_both (view (pi_desc pk')) = dv_both (view (pi_desc pk))" using k(4) d(3) by (simp add: pk1)
  show f: "pi_raw pk' = pi_raw pk" "pi_ether pk' = pi_ether pk" "pi_l3 pk' = pi_l3 pk" "pi_is_ipv6 pk' = pi_is_ipv6 pk" "pi_pkt_len pk' = n"
    "pi_payload_len pk' = l" "pi_payload pk' = Some off" "pi_l4 pk' = l4" by (subst k(2); simp add: pk1)+
  have p: "dv_proto (view (pi_desc pk')) = dv_proto (view d)" using k(3) by (simp add: pk1)
  then show "dv_proto (view (pi_desc pk')) \<in> {L4Tcp, L4Udp}" using d(2) by simp
  have "l4_header_len pk' = l4_header_len pk1" unfolding l4_header_len_def IsTcp_view p f(1,8) by (simp add: pk1)
  then show "map_option (\<lambda>h. l4 + h) (l4_header_len pk') = Some off" "off \<le> l4 + 60" "l4 \<le> off" using l4 by auto
qed

lemma protocol_not_valid:
  assumes "ProcessIpPacketProtocol protocol l4 (pk, cnt) = Inr (err, off, pk1, cnt1)"
  shows "dv_valid (view (pi_desc pk1)) = dv_valid (view (pi_desc pk))"
proof -
  obtain d where "pk1 = pk\<lparr>pi_desc := d, pi_l4 := pi_l4 pk1\<rparr>" and d: "dv_valid (view d) = dv_valid (view (pi_desc pk))"
    using protocol_cases [OF assms] by blast
  then have "pi_desc pk1 = d" by (metis CPacketIndication.select_convs(13) CPacketIndication.surjective CPacketIndication.update_convs(8,13))
  then show ?thesis using d by simp
qed

lemma ipv4_checks_ok:
  assumes "ipv4_checks off pk cnt = Inr (Inr (tot, hlen, cnt3))"
  shows "getTotalLength (pi_raw pk) (pi_l3 pk) = Some tot" and "unat tot + off \<le> unat (pi_pkt_len pk)" and "getHeaderLength (pi_raw pk) (pi_l3 pk) = Some hlen"
  using assms by (auto simp: ipv4_checks_def Let_def bindE_simps split: if_splits)

lemma ipv4_cases:
  assumes run: "ProcessIpPacket off (pk, cnt) = Inr (pk', cnt')" and l3: "pi_l3 pk = off" "off \<in> {14, 18}" "pi_ether pk = 0" and v4: "\<not> pi_is_ipv6 pk"
    and d: "\<not> dv_valid (view (pi_desc pk))" "\<not> dv_swap (view (pi_desc pk))" "\<not> dv_both (view (pi_desc pk))" and valid: "dv_valid (view (pi_desc pk'))"
  shows "good pk'"
proof -
  obtain tot hlen cnt3 where ck: "ipv4_checks off pk cnt = Inr (Inr (tot, hlen, cnt3))"
  proof -
    obtain r where r: "ipv4_checks off pk cnt = Inr r" using run by (auto simp: ProcessIpPacket_def bindE_eq_Inr)
    then show thesis using run valid d(1) that by (cases r) (auto simp: ProcessIpPacket_def)
  qed
  note h = ipv4_checks_ok [OF ck, unfolded l3(1)]
  obtain protocol err off1 pk1 cnt4 where pr: "ProcessIpPacketProtocol protocol (off + unat hlen) (pk, cnt3) = Inr (err, off1, pk1, cnt4)"
    and rest: "(if err then Inr (pk1, cnt4)
     else let payload_offset_from_ip = off1 - off in
     if payload_offset_from_ip > unat tot then Inr (pk1, bump m_tcp_udp_pkt_length_error cnt4)
     else if unat (pi_pkt_len pk1) > MAX_BUF_SIZE - FIRST_PKT_SIZE then Inr (pk1, bump m_tcp_udp_pkt_length_error cnt4)
     else
       let pk2 = pk1\<lparr>pi_pkt_len := cut_len (tot + of_nat off), pi_payload_len := tot - of_nat payload_offset_from_ip, pi_payload := Some off1\<rparr> in
       bindE (UpdatePacketPadding pk2) (\<lambda>pk3. bindE (SetKey pk3) (\<lambda>pk4. Inr (pk4, bump m_valid_udp_tcp cnt4)))) = Inr (pk', cnt')"
    using run unfolding ProcessIpPacket_def prod.case ck bindE_Inr sum.case l3(1) by (auto simp only: bindE_eq_Inr prod.case split_paired_Ex)
  have nv: "\<not> dv_valid (view (pi_desc pk1))" using protocol_not_valid [OF pr] d(1) by simp
  then have ok: "\<not> err" "off1 - off \<le> unat tot" using rest valid by (auto simp: Let_def split: if_splits)
  obtain pad where key: "SetKey (pk1\<lparr>pi_pkt_len := cut_len (tot + of_nat off), pi_payload_len := tot - of_nat (off1 - off), pi_payload := Some off1, pi_packet_padding := pad\<rparr>) = Inr pk'"
    using rest ok nv valid by (auto simp: Let_def bindE_simps UpdatePacketPadding_def split: if_splits)
  from pr ok(1) have "ProcessIpPacketProtocol protocol (off + unat hlen) (pk, cnt3) = Inr (False, off1, pk1, cnt4)" by simp
  note k = key_set [OF this key d(2)]
  have off1: "off1 \<le> 138" "off \<le> off1" "off1 \<le> off + unat tot" using k(12,13) ok(2) header_length_le [OF h(3)] l3(2) by auto
  have "laid_out pk'" unfolding laid_out_def using k l3 v4 h(3) by simp
  moreover have "unat (cut_len (tot + of_nat off)) = max 60 (unat tot + off)" using h(2) by (intro unat_cut_len) (rule le_less_trans, auto)
  moreover have "unat (tot - of_nat (off1 - off)) = off + unat tot - off1"
    using off1 by (simp add: unat_sub word_le_nat_alt unat_of_nat)
  ultimately show "good pk'" unfolding good_def sized_def using k l3 v4 h(1) off1 d(3) by (auto simp: add.commute)
qed

lemma updateMSBIpv6_keeps:
  assumes "updateMSBIpv6 a gs m = Inr m'" and "i + LENGTH('a) div 8 \<le> a"
  shows "(mem_rd m' i :: 'a::len word option) = mem_rd m i"
  using assms(1) unfolding updateMSBIpv6_def
proof (rule foldE_invariant [where P = "\<lambda>m'. (mem_rd m' i :: 'a word option) = mem_rd m i"])
  fix m1 m2 :: mem and k :: nat
  assume m1: "(mem_rd m1 i :: 'a word option) = mem_rd m i" and "liftE PpRead (mem_wr m1 (a + 2 * k) (PKT_NTOHS (gs ! k))) = Inr m2"
  then have "mem_wr m1 (a + 2 * k) (PKT_NTOHS (gs ! k)) = Some m2" by (simp add: bindE_simps)
  from mem_rd_wr_disjoint [OF this, where 'b = 'a and j = i] show "(mem_rd m2 i :: 'a word option) = mem_rd m i" using assms(2) m1 by simp
qed simp

lemma ipv6_cases:
  assumes run: "ProcessIpv6Packet cfg off (pk, cnt) = Inr (pk', cnt')" and l3: "pi_l3 pk = off" "off \<in> {14, 18}" "pi_ether pk = 0" and v6: "pi_is_ipv6 pk"
    and d: "\<not> dv_valid (view (pi_desc pk))" "\<not> dv_swap (view (pi_desc pk))" "\<not> dv_both (view (pi_desc pk))" and valid: "dv_valid (view (pi_desc pk'))"
  shows "good pk'"
proof -
  obtain plen cnt2 where ck: "ipv6_checks off pk cnt = Inr (Inr (plen, cnt2))"
  proof -
    obtain r where r: "ipv6_checks off pk cnt = Inr r" using run by (auto simp: ProcessIpv6Packet_def bindE_eq_Inr)
    then show thesis using run valid d(1) that by (cases r) (auto simp: ProcessIpv6Packet_def)
  qed
  then have plen: "ipv6_getPayloadLen (pi_raw pk) off = Some plen" "unat plen + off + 40 \<le> unat (pi_pkt_len pk)"
    by (auto simp: ipv6_checks_def l3(1) Let_def bindE_simps split: if_splits)
  obtain m1 m2 protocol err off1 pk1 cnt3 where
    m: "updateMSBIpv6 (off + 8) (i6_src cfg) (pi_raw pk) = Inr m1" "updateMSBIpv6 (off + 24) (i6_dst cfg) m1 = Inr m2"
    and pr: "ProcessIpPacketProtocol protocol (off + 40) (pk\<lparr>pi_raw := m2\<rparr>, cnt2) = Inr (err, off1, pk1, cnt3)"
    and rest: "(if err then Inr (pk1, cnt3)
       else let real_pkt_size = plen + of_nat off + 40;
           pk2 = pk1\<lparr>pi_pkt_len := cut_len real_pkt_size, pi_payload_len := plen, pi_payload := Some off1,
             pi_packet_padding := cut_len real_pkt_size - real_pkt_size\<rparr> in
       bindE (SetKey pk2) (\<lambda>pk3. Inr (pk3, bump m_valid_udp_tcp cnt3))) = Inr (pk', cnt')"
    using run unfolding ProcessIpv6Packet_def prod.case ck bindE_Inr sum.case l3(1) by (auto simp only: bindE_eq_Inr prod.case split_paired_Ex)
  have nv: "\<not> dv_valid (view (pi_desc pk1))" using protocol_not_valid [OF pr] d(1) by simp
  then have ok: "\<not> err" using rest valid by auto
  have key: "SetKey (pk1\<lparr>pi_pkt_len := cut_len (plen + of_nat off + 40), pi_payload_len := plen, pi_payload := Some off1,
      pi_packet_padding := cut_len (plen + of_nat off + 40) - (plen + of_nat off + 40)\<rparr>) = Inr pk'"
    using rest ok by (simp add: Let_def bindE_eq_Inr)
  from pr ok have "ProcessIpPacketProtocol protocol (off + 40) (pk\<lparr>pi_raw := m2\<rparr>, cnt2) = Inr (False, off1, pk1, cnt3)" by simp
  note k = key_set [OF this key, simplified, OF d(2)]
  have "ipv6_getPayloadLen m2 off = Some plen"
    using plen(1) updateMSBIpv6_keeps [OF m(1), of "off + 4", where 'a = 16] updateMSBIpv6_keeps [OF m(2), of "off + 4", where 'a = 16]
    by (simp add: ipv6_getPayloadLen_def)
  moreover have lt: "unat (pi_pkt_len pk) < 65536" using unsigned_less [of "pi_pkt_len pk"] by simp
  moreover have "unat (cut_len (plen + of_nat (off + 40))) = max 60 (unat plen + (off + 40))"
    by (intro unat_cut_len) (use plen(2) lt in linarith)
  moreover have "laid_out pk'" unfolding laid_out_def using k l3 v6 by simp
  ultimately show "good pk'" unfolding good_def sized_def using k l3 v6 d(3) by (auto simp: ac_simps)
qed

lemma ether_layer_offset: "ether_layer m cnt = Inr (Inr (off, v6, cnt1)) \<Longrightarrow> off \<in> {14, 18}"
  by (auto simp: ether_layer_def Let_def bindE_simps split: if_splits)

lemma desc_Clear_view: "\<not> dv_valid (view (desc_Clear d))" "\<not> dv_swap (view (desc_Clear d))" "\<not> dv_both (view (desc_Clear d))"
  by (simp_all add: view_def desc_getters desc_Clear_def desc_get_def btGetMaskBit_def btGetMaskBitBigE_def)

text \<open>The stages after the Ethernet layer, for the packet as they find it.\<close>

lemma ip_layer_stages:
  assumes run: "ip_layer cfg off v6 pk cnt = Inr (pk', cnt')" and pk: "pi_l3 pk = off" "pi_ether pk = 0" "pi_is_ipv6 pk = v6"
  obtains (dropped) "pi_desc pk' = pi_desc pk"
  | (ipv4) "ProcessIpPacket off (pk, cnt) = Inr (pk', cnt')" "\<not> v6"
  | (ipv6) pk1 where "ProcessIpv6Packet cfg off (pk1, cnt) = Inr (pk', cnt')" "pi_l3 pk1 = off" "pi_ether pk1 = 0" "pi_is_ipv6 pk1" "pi_desc pk1 = pi_desc pk"
proof (cases "i6_enable cfg \<and> \<not> v6 \<and> \<not> 34 > unat (pi_pkt_len pk)")
  case True
  then obtain ok pk2 where c: "ConvertPacketToIpv6InPlace off pk = Inr (ok, pk2)" and n: "(if \<not> ok then Inr (pk2, cnt) else ProcessIpv6Packet cfg off (pk2, cnt)) = Inr (pk', cnt')"
    using run by (auto simp: ip_layer_def bindE_eq_Inr)
  from c have "pi_l3 pk2 = off" "pi_ether pk2 = 0" "pi_desc pk2 = pi_desc pk" "ok \<longrightarrow> pi_is_ipv6 pk2" using pk
    by (auto simp: ConvertPacketToIpv6InPlace_def Let_def bindE_simps split: if_splits)
  then show thesis using n dropped ipv6 [of pk2] by (cases ok) auto
next
  case False
  then show thesis using run pk dropped ipv4 ipv6 [of pk] by (cases v6) (auto simp: ip_layer_def split: if_splits)
qed

lemma parsed_good:
  assumes "ProcessPacket1 cfg pk0 cnt = Inr (pk', cnt')" and valid: "dv_valid (view (pi_desc pk'))"
  shows "good pk'"
proof -
  obtain r where r: "ether_layer (pi_raw pk0) cnt = Inr r" using assms by (auto simp: ProcessPacket1_def Let_def bindE_eq_Inr ind_Clean_def)
  show ?thesis
  proof (cases r)
    case (Inl c)
    then have "pi_desc pk' = desc_Clear (pi_desc pk0)" using assms(1) r by (auto simp: ProcessPacket1_def Let_def ind_Clean_def)
    then show ?thesis using valid desc_Clear_view by simp
  next
    case (Inr x)
    then obtain off v6 cnt1 where x: "r = Inr (off, v6, cnt1)" by (cases x) simp
    let ?pk = "(ind_Clean pk0)\<lparr>pi_ether := 0, pi_l3 := off, pi_is_ipv6 := v6\<rparr>"
    have off: "off \<in> {14, 18}" using ether_layer_offset r x by blast
    have f: "pi_l3 ?pk = off" "pi_ether ?pk = 0" "pi_is_ipv6 ?pk = v6" "pi_desc ?pk = desc_Clear (pi_desc pk0)" by (simp_all add: ind_Clean_def)
    have "ip_layer cfg off v6 ?pk cnt1 = Inr (pk', cnt')" using assms(1) r x by (simp add: ProcessPacket1_def Let_def ind_Clean_def)
    then show ?thesis using f(1-3)
    proof (cases rule: ip_layer_stages)
      case dropped
      then show ?thesis using valid f(4) desc_Clear_view by metis
    next
      case ipv4
      show ?thesis by (rule ipv4_cases [OF ipv4(1) f(1) off f(2)]) (use f desc_Clear_view valid ipv4(2) in simp_all)
    next
      case (ipv6 pk1)
      show ?thesis by (rule ipv6_cases [OF ipv6(1,2) off ipv6(3,4)]) (use f ipv6(5) desc_Clear_view valid in simp_all)
    qed
  qed
qed

lemma UpdateOffsets_keeps: "laid_out (UpdateOffsets pk) = laid_out pk" "keyed (UpdateOffsets pk) = keyed pk" "sized (UpdateOffsets pk) = sized pk"
  unfolding laid_out_def keyed_def sized_def l4_header_len_def pkt_addrs_def UpdateOffsets_def by simp_all

lemma parsed_packet:
  assumes "ProcessPacket cfg pk cnt = Inr (pk', cnt')" and "IsValidPkt (pi_desc pk')"
  shows "laid_out pk' \<and> offsets_ok pk' \<and> keyed pk' \<and> sized pk'"
proof -
  obtain pk1 where run: "ProcessPacket1 cfg pk cnt = Inr (pk1, cnt')" and pk': "pk' = (if IsValidPkt (pi_desc pk1) then UpdateOffsets pk1 else pk1)"
    using assms(1) by (auto simp: ProcessPacket_def bindE_simps)
  have "IsValidPkt (pi_desc pk1)" using pk' assms(2) by (metis (full_types))
  then have valid: "dv_valid (view (pi_desc pk1))" and eq: "pk' = UpdateOffsets pk1" using pk' by (simp_all add: IsValidPkt_view)
  have good: "good pk1" by (rule parsed_good [OF run valid])
  then obtain off where off: "pi_payload pk1 = Some off" "off \<le> 138" by (auto simp: good_def sized_def)
  have "pi_l3 pk1 \<le> 18" "pi_l4 pk1 \<le> off" "pi_ether pk1 = 0" using good off(1) by (auto simp: good_def laid_out_def split: if_splits)
  then have "offsets_ok pk'" using off by (simp add: eq offsets_ok_def UpdateOffsets_def unat_of_nat getPayloadOffset_def)
  moreover have "laid_out pk'" "keyed pk'" "sized pk'"
    using good by (simp_all add: eq good_def UpdateOffsets_keeps)
  ultimately show ?thesis by simp
qed

lemma parsed_not_both:
  assumes "ProcessPacket cfg pk cnt = Inr (pk', cnt')" and "IsValidPkt (pi_desc pk')"
  shows "\<not> IsBiDirectionalFlow (pi_desc pk')"
proof -
  obtain pk1 where run: "ProcessPacket1 cfg pk cnt = Inr (pk1, cnt')" and pk': "pk' = (if IsValidPkt (pi_desc pk1) then UpdateOffsets pk1 else pk1)"
    using assms(1) by (auto simp: ProcessPacket_def bindE_simps)
  have d: "pi_desc pk' = pi_desc pk1" using pk' by (simp add: UpdateOffsets_def)
  have "good pk1" by (rule parsed_good [OF run]) (use assms(2) d in \<open>simp add: IsValidPkt_view\<close>)
  then show ?thesis by (simp add: d good_def view_def)
qed

section \<open>Accounting\<close>

text \<open>The counters of which each packet raises one, and their total.\<close>

definition outcomes :: "pp_counter list" where
  "outcomes = [m_valid_udp_tcp, m_non_ip, m_arp, m_mpls, m_non_valid_ipv4_ver, m_non_valid_ipv6_ver, m_ip_length_error, m_ipv6_length_error,
     m_ip_not_first_fragment_error, m_ip_ttl_is_zero_error, m_non_tcp_udp, m_non_tcp_udp_ah, m_non_tcp_udp_esp, m_non_tcp_udp_icmp, m_non_tcp_udp_gre,
     m_tcp_udp_pkt_length_error, m_ip_checksum_error, m_ip_multicast_error, m_non_tcp_udp_ip]"

definition tally :: "CCPacketParserCounters \<Rightarrow> u64" where
  "tally c = sum_list (map c outcomes)"

lemma tally_bump: "tally (bump f c) = tally c + (if f \<in> set outcomes then 1 else 0)"
  by (cases f) (simp_all add: tally_def outcomes_def bump_def)

lemma getTotalErrors_bump: "f \<notin> set outcomes - {m_valid_udp_tcp} \<Longrightarrow> getTotalErrors (bump f c) = getTotalErrors c"
  by (cases f) (simp_all add: getTotalErrors_def outcomes_def bump_def)

text \<open>A stage raised \<open>n\<close> outcomes, and accepted packets were \<open>v\<close> of them; if all were, there is no new error.\<close>

definition raised :: "u64 \<Rightarrow> u64 \<Rightarrow> CCPacketParserCounters \<Rightarrow> CCPacketParserCounters \<Rightarrow> bool" where
  "raised n v c c' \<longleftrightarrow> tally c' = tally c + n \<and> c' m_valid_udp_tcp = c m_valid_udp_tcp + v \<and> (n = v \<longrightarrow> getTotalErrors c' = getTotalErrors c)"

lemma raised_bump: "f \<notin> set outcomes \<Longrightarrow> raised n v c (bump f c') = raised n v c c'"
    "f \<in> set outcomes - {m_valid_udp_tcp} \<Longrightarrow> raised 0 0 c c' \<Longrightarrow> raised 1 0 c (bump f c')"
    "raised 0 0 c c' \<Longrightarrow> raised 1 1 c (bump m_valid_udp_tcp c')"
    "raised 0 0 c c"
  by (auto simp: raised_def tally_bump getTotalErrors_bump) (auto simp: bump_def outcomes_def)

lemma raised_trans: "raised 0 0 c c1 \<Longrightarrow> raised n v c1 c2 \<Longrightarrow> raised n v c c2"
  by (simp add: raised_def)

lemma raised_reject: "f \<in> set outcomes - {m_valid_udp_tcp} \<Longrightarrow> raised 1 0 c (bump f c)"
  by (intro raised_bump)

lemma raised_ether:
  assumes "ether_layer m c = Inr r"
  shows "case r of Inl c' \<Rightarrow> raised 1 0 c c' | Inr (_, _, c') \<Rightarrow> raised 0 0 c c'"
  using assms by (auto simp: ether_layer_def Let_def bindE_simps raised_bump outcomes_def split: if_splits)

lemma raised_ipv4_checks:
  assumes "ipv4_checks off pk c = Inr r"
  shows "case r of Inl c' \<Rightarrow> raised 1 0 c c' | Inr (_, _, c') \<Rightarrow> raised 0 0 c c'"
  using assms by (auto simp: ipv4_checks_def Let_def bindE_simps raised_bump outcomes_def split: if_splits)

lemma raised_ipv6_checks:
  assumes "ipv6_checks off pk c = Inr r"
  shows "case r of Inl c' \<Rightarrow> raised 1 0 c c' | Inr (_, c') \<Rightarrow> raised 0 0 c c'"
  using assms by (auto simp: ipv6_checks_def Let_def bindE_simps raised_bump outcomes_def split: if_splits)

lemma raised_protocol:
  assumes "ProcessIpPacketProtocol protocol l4 (pk, c) = Inr (err, off, pk1, c')"
  shows "if err then raised 1 0 c c' else raised 0 0 c c'"
  using assms by (auto simp: ProcessIpPacketProtocol_def Let_def bindE_simps raised_bump outcomes_def split: if_splits)

lemma SetKey_valid: "SetKey pk = Inr pk' \<Longrightarrow> dv_valid (view (pi_desc pk'))"
  by (auto simp: SetKey_def Let_def bindE_simps view_of_setters)

text \<open>An IP packet raises one outcome, and is valid exactly when it is counted as such.\<close>

lemma raised_ipv4:
  assumes run: "ProcessIpPacket off (pk, c) = Inr (pk', c')" and d: "\<not> dv_valid (view (pi_desc pk))"
  shows "raised 1 (of_bool (dv_valid (view (pi_desc pk')))) c c'"
proof -
  obtain r where r: "ipv4_checks off pk c = Inr r" using run by (auto simp: ProcessIpPacket_def bindE_eq_Inr)
  show ?thesis
  proof (cases r)
    case (Inl c1)
    then show ?thesis using run r d raised_ipv4_checks [OF r] by (simp add: ProcessIpPacket_def)
  next
    case (Inr x)
    then obtain tot hlen c1 where x: "r = Inr (tot, hlen, c1)" by (cases x) simp
    then have c1: "raised 0 0 c c1" using raised_ipv4_checks [OF r] by simp
    obtain protocol err off1 pk1 c2 where pr: "ProcessIpPacketProtocol protocol (off + unat hlen) (pk, c1) = Inr (err, off1, pk1, c2)"
      and rest: "(if err then Inr (pk1, c2) else let payload_offset_from_ip = off1 - off in
         if payload_offset_from_ip > unat tot then Inr (pk1, bump m_tcp_udp_pkt_length_error c2)
         else if unat (pi_pkt_len pk1) > MAX_BUF_SIZE - FIRST_PKT_SIZE then Inr (pk1, bump m_tcp_udp_pkt_length_error c2)
         else let pk2 = pk1\<lparr>pi_pkt_len := cut_len (tot + of_nat (pi_l3 pk)), pi_payload_len := tot - of_nat payload_offset_from_ip, pi_payload := Some off1\<rparr> in
           bindE (UpdatePacketPadding pk2) (\<lambda>pk3. bindE (SetKey pk3) (\<lambda>pk4. Inr (pk4, bump m_valid_udp_tcp c2)))) = Inr (pk', c')"
      using run unfolding ProcessIpPacket_def prod.case r x bindE_Inr sum.case by (auto simp only: bindE_eq_Inr prod.case split_paired_Ex)
    have nv: "\<not> dv_valid (view (pi_desc pk1))" using protocol_not_valid [OF pr] d by simp
    have "raised 1 (of_bool (dv_valid (view (pi_desc pk')))) c1 c'"
      using rest raised_protocol [OF pr] nv by (auto simp: Let_def bindE_simps raised_bump outcomes_def SetKey_valid split: if_splits)
    then show ?thesis by (rule raised_trans [OF c1])
  qed
qed

lemma raised_ipv6:
  assumes run: "ProcessIpv6Packet cfg off (pk, c) = Inr (pk', c')" and d: "\<not> dv_valid (view (pi_desc pk))"
  shows "raised 1 (of_bool (dv_valid (view (pi_desc pk')))) c c'"
proof -
  obtain r where r: "ipv6_checks off pk c = Inr r" using run by (auto simp: ProcessIpv6Packet_def bindE_eq_Inr)
  show ?thesis
  proof (cases r)
    case (Inl c1)
    then show ?thesis using run r d raised_ipv6_checks [OF r] by (simp add: ProcessIpv6Packet_def)
  next
    case (Inr x)
    then obtain plen c1 where x: "r = Inr (plen, c1)" by (cases x) simp
    then have c1: "raised 0 0 c c1" using raised_ipv6_checks [OF r] by simp
    obtain m2 protocol err off1 pk1 c2 where pr: "ProcessIpPacketProtocol protocol (off + 40) (pk\<lparr>pi_raw := m2\<rparr>, c1) = Inr (err, off1, pk1, c2)"
      and rest: "(if err then Inr (pk1, c2) else let real_pkt_size = plen + of_nat (pi_l3 pk) + 40;
           pk2 = pk1\<lparr>pi_pkt_len := cut_len real_pkt_size, pi_payload_len := plen, pi_payload := Some off1, pi_packet_padding := cut_len real_pkt_size - real_pkt_size\<rparr> in
         bindE (SetKey pk2) (\<lambda>pk3. Inr (pk3, bump m_valid_udp_tcp c2))) = Inr (pk', c')"
      using run unfolding ProcessIpv6Packet_def prod.case r x bindE_Inr sum.case by (auto simp only: bindE_eq_Inr prod.case split_paired_Ex)
    have nv: "\<not> dv_valid (view (pi_desc pk1))" using protocol_not_valid [OF pr] d by simp
    have "raised 1 (of_bool (dv_valid (view (pi_desc pk')))) c1 c'"
      using rest raised_protocol [OF pr] nv by (auto simp: Let_def bindE_simps raised_bump outcomes_def SetKey_valid split: if_splits)
    then show ?thesis by (rule raised_trans [OF c1])
  qed
qed

lemma raised_ip_layer:
  assumes run: "ip_layer cfg off v6 pk c = Inr (pk', c')" and d: "\<not> dv_valid (view (pi_desc pk))"
  shows "raised 1 (of_bool (dv_valid (view (pi_desc pk')))) c c' \<or> (i6_enable cfg \<and> \<not> v6 \<and> ConvertPacketToIpv6InPlace off pk = Inr (False, pk') \<and> pk' = pk \<and> c' = c)"
proof (cases "i6_enable cfg \<and> \<not> v6 \<and> \<not> 34 > unat (pi_pkt_len pk)")
  case True
  then obtain ok pk2 where conv: "ConvertPacketToIpv6InPlace off pk = Inr (ok, pk2)" and n: "(if \<not> ok then Inr (pk2, c) else ProcessIpv6Packet cfg off (pk2, c)) = Inr (pk', c')"
    using run by (auto simp: ip_layer_def bindE_eq_Inr)
  from conv have "pi_desc pk2 = pi_desc pk" "\<not> ok \<longrightarrow> pk2 = pk" by (auto simp: ConvertPacketToIpv6InPlace_def Let_def bindE_simps split: if_splits)
  then show ?thesis using n conv True d raised_ipv6 [of cfg off pk2 c] by (cases ok) auto
next
  case False
  then show ?thesis using run d raised_ipv4 [of off pk c] raised_ipv6 [of cfg off pk c]
    by (auto simp: ip_layer_def raised_bump outcomes_def split: if_splits)
qed

lemma packet_outcome:
  assumes "ProcessPacket cfg pk cnt = Inr (pk', cnt')"
  shows "(IsValidPkt (pi_desc pk') \<longrightarrow> getTotalErrors cnt' = getTotalErrors cnt) \<and> cnt' m_valid_udp_tcp = cnt m_valid_udp_tcp + of_bool (IsValidPkt (pi_desc pk')) \<and>
    (tally cnt' = tally cnt + 1 \<or> tally cnt' = tally cnt \<and> \<not> IsValidPkt (pi_desc pk') \<and> i6_enable cfg \<and> ConvertPacketToIpv6InPlace (pi_l3 pk') pk' = Inr (False, pk'))"
proof -
  obtain pk1 where run: "ProcessPacket1 cfg pk cnt = Inr (pk1, cnt')" and pk': "pk' = (if IsValidPkt (pi_desc pk1) then UpdateOffsets pk1 else pk1)"
    using assms by (auto simp: ProcessPacket_def bindE_simps)
  have v: "IsValidPkt (pi_desc pk') = dv_valid (view (pi_desc pk1))" using pk' by (simp add: IsValidPkt_view UpdateOffsets_def)
  obtain r where r: "ether_layer (pi_raw pk) cnt = Inr r" using run by (auto simp: ProcessPacket1_def Let_def bindE_eq_Inr ind_Clean_def)
  show ?thesis
  proof (cases r)
    case (Inl c)
    then have "pi_desc pk1 = desc_Clear (pi_desc pk)" "c = cnt'" using run r by (auto simp: ProcessPacket1_def Let_def ind_Clean_def)
    then show ?thesis using raised_ether [OF r] Inl v desc_Clear_view by (simp add: raised_def)
  next
    case (Inr x)
    then obtain off v6 c1 where x: "r = Inr (off, v6, c1)" by (cases x) simp
    let ?pk = "(ind_Clean pk)\<lparr>pi_ether := 0, pi_l3 := off, pi_is_ipv6 := v6\<rparr>"
    have c1: "raised 0 0 cnt c1" using raised_ether [OF r] x by simp
    have "ip_layer cfg off v6 ?pk c1 = Inr (pk1, cnt')" using run r x by (simp add: ProcessPacket1_def Let_def ind_Clean_def)
    moreover have nv: "\<not> dv_valid (view (pi_desc ?pk))" by (simp add: ind_Clean_def desc_Clear_view)
    ultimately consider "raised 1 (of_bool (dv_valid (view (pi_desc pk1)))) c1 cnt'"
      | "i6_enable cfg" "ConvertPacketToIpv6InPlace off ?pk = Inr (False, pk1)" "pk1 = ?pk" "cnt' = c1"
      using raised_ip_layer by blast
    then show ?thesis
    proof cases
      case 1
      then show ?thesis using raised_trans [OF c1 1] v by (simp add: raised_def)
    next
      case 2
      have "pi_l3 pk1 = off" using 2(3) by simp
      moreover have "pk' = pk1" using pk' v nv 2(3) by (simp add: IsValidPkt_view)
      ultimately show ?thesis using 2 c1 v nv by (simp add: raised_def)
    qed
  qed
qed

section \<open>Properties\<close>

definition demo_udp :: "u8 \<Rightarrow> u8 \<Rightarrow> u8 \<Rightarrow> u8 \<Rightarrow> CPacketIndication" where
  "demo_udp src dst sport dport = \<lparr>pi_cap_ipg = 0,
     pi_raw = replicate 12 0 @ [8, 0] @ [0x45, 0, 0, 28, 0, 0, 0, 0, 64, 17, 0, 0, 16, 0, 0, src, 16, 0, 0, dst, 0, sport, 0, dport, 0, 8, 0, 0] @ replicate 20 0,
     pi_pkt_len = 62, pi_pkt_cnt = 0, pi_ether = 0, pi_l3 = 0, pi_is_ipv6 = False, pi_l4 = 0, pi_payload = None, pi_payload_len = 0, pi_packet_padding = 0,
     pi_flow_key = key_Clean,
     pi_desc = \<lparr>ds_flags = 0, ds_flow_pkt_num = 0, ds_plugin_id = 0, ds_max_flow_pkts = 0, ds_max_flow_aging = 0, ds_per_dir = (\<lambda>_. CPacketDescriptorPerDir_new)\<rparr>,
     pi_ether_offset = 0, pi_ip_offset = 0, pi_udp_tcp_offset = 0, pi_payload_offset = 0\<rparr>"

definition demo_ipv6_cfg :: ipv6_cfg where
  "demo_ipv6_cfg = \<lparr>i6_enable = False, i6_src = [1, 2, 3, 4, 5, 6], i6_dst = [6, 5, 4, 3, 2, 1]\<rparr>"

text \<open>An IPv4 packet with a UDP header and nothing unusual, and how it is parsed.\<close>

definition udp_reads :: "mem \<Rightarrow> u32 \<Rightarrow> u32 \<Rightarrow> u16 \<Rightarrow> u16 \<Rightarrow> bool" where
  "udp_reads m src dst sport dport \<longleftrightarrow> getNextProtocol m = Some EtherIP \<and> getVersion m 14 = Some 4 \<and> getTotalLength m 14 = Some 28 \<and> getHeaderLength m 14 = Some 20 \<and>
     getTimeToLive m 14 = Some 64 \<and> isNotFirstFragment m 14 = Some False \<and> getProtocol m 14 = Some 17 \<and> getSourceIp m 14 = Some src \<and> getDestIp m 14 = Some dst \<and>
     udp_getSourcePort m 34 = Some sport \<and> udp_getDestPort m 34 = Some dport"

lemma udp_parsed:
  assumes "udp_reads (pi_raw pk) src dst sport dport" and "pi_pkt_len pk = 62" and "\<not> i6_enable cfg"
  obtains pk' cnt' where "ProcessPacket cfg pk cnt = Inr (pk', cnt')" and "IsValidPkt (pi_desc pk')" and "pkt_addrs pk' = Inr (src, dst, 17)"
    and "udp_getSourcePort (pi_raw pk') (pi_l4 pk') = Some sport" and "udp_getDestPort (pi_raw pk') (pi_l4 pk') = Some dport"
    and "pi_raw pk' = pi_raw pk" and "pi_l3 pk' = 14" and "\<not> pi_is_ipv6 pk'" and "pi_pkt_len pk' = 60"
proof -
  let ?pk = "(ind_Clean pk)\<lparr>pi_ether := 0, pi_l3 := 14, pi_is_ipv6 := False\<rparr>"
  let ?pk1 = "?pk\<lparr>pi_desc := SetIsUdp True (pi_desc ?pk), pi_l4 := 34\<rparr>"
  have raw: "pi_raw ?pk = pi_raw pk" "pi_pkt_len ?pk = 62" "pi_l3 ?pk = 14" using assms(2) by (simp_all add: ind_Clean_def)
  have e: "ether_layer (pi_raw pk) cnt = Inr (Inr (14, False, cnt))" using assms(1) by (simp add: udp_reads_def ether_layer_def)
  obtain cnt3 where ck: "ipv4_checks 14 ?pk cnt = Inr (Inr (28, 20, cnt3))"
    using assms(1) unfolding ipv4_checks_def raw by (simp add: udp_reads_def Let_def)
  have pr: "ProcessIpPacketProtocol 17 34 (?pk, cnt3) = Inr (False, 42, ?pk1, bump m_udp cnt3)"
    by (simp add: ProcessIpPacketProtocol_def Let_def raw(2))
  obtain pad where pad: "UpdatePacketPadding (?pk1\<lparr>pi_pkt_len := 60, pi_payload_len := 0, pi_payload := Some 42\<rparr>) =
      Inr (?pk1\<lparr>pi_pkt_len := 60, pi_payload_len := 0, pi_payload := Some 42, pi_packet_padding := pad\<rparr>)"
    using assms(1) by (simp add: UpdatePacketPadding_def udp_reads_def ind_Clean_def)
  let ?pk3 = "?pk1\<lparr>pi_pkt_len := 60, pi_payload_len := 0, pi_payload := Some 42, pi_packet_padding := pad\<rparr>"
  have addrs: "pkt_addrs ?pk3 = Inr (src, dst, 17)" using assms(1) by (simp add: pkt_addrs_def udp_reads_def ind_Clean_def)
  obtain pk4 where key: "SetKey ?pk3 = Inr pk4" and pk4: "pk4 = ?pk3\<lparr>pi_desc := pi_desc pk4, pi_flow_key := pi_flow_key pk4\<rparr>"
    using assms(1) unfolding SetKey_def addrs by (simp add: udp_reads_def ind_Clean_def Let_def)
  have g: "getProtocol (pi_raw pk) 14 = Some 17" using assms(1) by (simp add: udp_reads_def)
  have cut: "cut_len (28 + of_nat 14) = 60" by (simp add: cut_len_def)
  have "ProcessIpPacket 14 (?pk, cnt) = Inr (pk4, bump m_valid_udp_tcp (bump m_udp cnt3))"
    unfolding ProcessIpPacket_def prod.case ck bindE_Inr sum.case raw g liftE_Some
    using pr pad key raw cut by (simp add: Let_def MAX_BUF_SIZE_def FIRST_PKT_SIZE_def)
  then have "ProcessPacket1 cfg pk cnt = Inr (pk4, bump m_valid_udp_tcp (bump m_udp cnt3))"
    using assms(2,3) e by (simp add: ProcessPacket1_def Let_def ip_layer_def ind_Clean_def)
  moreover have "IsValidPkt (pi_desc pk4)" using SetKey_valid [OF key] by (simp add: IsValidPkt_view)
  moreover have "pi_raw pk4 = pi_raw pk" "pi_l4 pk4 = 34" "pi_l3 pk4 = 14" "\<not> pi_is_ipv6 pk4" "pi_pkt_len pk4 = 60" by (subst pk4, simp add: ind_Clean_def)+
  moreover have "pkt_addrs pk4 = Inr (src, dst, 17)" using addrs pkt_addrs_fields [where pk = ?pk3 and d = "pi_desc pk4" and k = "pi_flow_key pk4"] unfolding pk4 [symmetric] by simp
  ultimately show thesis
    using that [of "UpdateOffsets pk4"] assms(1) by (simp add: ProcessPacket_def UpdateOffsets_def udp_reads_def pkt_addrs_def)
qed

lemma demo_reads:
  "udp_reads (pi_raw (demo_udp 1 2 5 7)) 0x10000001 0x10000002 5 7" "pi_pkt_len (demo_udp 1 2 5 7) = 62"
  "udp_reads (pi_raw (demo_udp 2 1 7 5)) 0x10000002 0x10000001 7 5" "pi_pkt_len (demo_udp 2 1 7 5) = 62" "\<not> i6_enable demo_ipv6_cfg"
  by code_simp+

lemmas demo_parsed = udp_parsed [OF demo_reads(1,2,5)] udp_parsed [OF demo_reads(3,4,5)]



text \<open>
  C37.  Parsing is accounted for: \<open>m_valid_udp_tcp\<close> counts the accepted packets, which add nothing to the errors, and each packet raises exactly one counter of an outcome, except one that
  cannot be converted to IPv6, which raises none.
\<close>

theorem packet_outcome_counted:
  assumes "ProcessPacket cfg pk cnt = Inr (pk', cnt')"
  shows "(IsValidPkt (pi_desc pk') \<longrightarrow> getTotalErrors cnt' = getTotalErrors cnt) \<and> cnt' m_valid_udp_tcp = cnt m_valid_udp_tcp + of_bool (IsValidPkt (pi_desc pk')) \<and>
    (tally cnt' = tally cnt + 1 \<or> tally cnt' = tally cnt \<and> \<not> IsValidPkt (pi_desc pk') \<and> i6_enable cfg \<and> ConvertPacketToIpv6InPlace (pi_l3 pk') pk' = Inr (False, pk'))"
  by (rule packet_outcome [OF assms])

theorem packet_outcome_counted_witness:
  "\<exists>pk' cnt'. ProcessPacket demo_ipv6_cfg (demo_udp 1 2 5 7) (\<lambda>_. 0) = Inr (pk', cnt') \<and> cnt' m_valid_udp_tcp = 1"
proof -
  obtain pk' cnt' where run: "ProcessPacket demo_ipv6_cfg (demo_udp 1 2 5 7) (\<lambda>_. 0) = Inr (pk', cnt')" "IsValidPkt (pi_desc pk')"
    by (rule demo_parsed(1))
  from packet_outcome_counted [OF run(1)] run show ?thesis by auto
qed

text \<open>
  C38.  The two directions of a connection are one flow: a packet whose tuple is that of another, reversed, finds the flow that the other has created,
  with the swap flag inverted -- except between equal addresses, where the directions are told apart by their ports and counted as two flows.
\<close>

theorem reply_joins_flow:
  assumes "ProcessPacket cfg pk01 cnt1 = Inr (pk1, cnt2)" and "IsValidPkt (pi_desc pk1)" and "ProcessPacket cfg pk02 cnt3 = Inr (pk2, cnt4)" and "IsValidPkt (pi_desc pk2)"
    and "pkt_addrs pk1 = Inr (a, b, proto)" and "pkt_addrs pk2 = Inr (b, a, proto)"
    and "udp_getSourcePort (pi_raw pk1) (pi_l4 pk1) = Some p" and "udp_getDestPort (pi_raw pk1) (pi_l4 pk1) = Some q"
    and "udp_getSourcePort (pi_raw pk2) (pi_l4 pk2) = Some q" and "udp_getDestPort (pi_raw pk2) (pi_l4 pk2) = Some p"
    and "fm_map t (pi_flow_key pk2) = None" and "flow_process junk1 (pi_flow_key pk1) t = (f, new, t1)"
  shows "(case flow_process junk2 (pi_flow_key pk2) t1 of (f', new', t2) \<Rightarrow>
      if a \<noteq> b \<or> p = q then f' = f \<and> \<not> new' \<and> fm_map t2 = fm_map t1 else new') \<and>
    (a \<noteq> b \<longrightarrow> IsSwapTuple (pi_desc pk1) \<noteq> IsSwapTuple (pi_desc pk2))"
proof -
  have "keyed pk1" "keyed pk2" using parsed_packet assms(1-4) by blast+
  then have k: "pi_flow_key pk1 = make_key proto a b p q" "pi_flow_key pk2 = make_key proto b a q p"
    and s: "IsSwapTuple (pi_desc pk1) \<longleftrightarrow> \<not> b < a" "IsSwapTuple (pi_desc pk2) \<longleftrightarrow> \<not> a < b" using assms(5-10) by (auto simp: keyed_def view_def)
  have eq: "pi_flow_key pk1 = pi_flow_key pk2 \<longleftrightarrow> a \<noteq> b \<or> p = q" unfolding k by (auto simp: make_key_def)
  have t1: "fm_map t1 (pi_flow_key pk1) = Some f" "k \<noteq> pi_flow_key pk1 \<Longrightarrow> fm_map t1 k = fm_map t k" for k
    using assms(12) by (auto simp: flow_process_def Let_def split: option.splits)
  show ?thesis
  proof (cases "a \<noteq> b \<or> p = q")
    case True
    then show ?thesis using eq t1(1) s by (auto simp: flow_process_def Let_def)
  next
    case False
    then show ?thesis using eq t1(2) assms(11) by (auto simp: flow_process_def Let_def)
  qed
qed

theorem reply_joins_flow_witness:
  "\<exists>pk1 pk2 cnt1 cnt2. ProcessPacket demo_ipv6_cfg (demo_udp 1 2 5 7) (\<lambda>_. 0) = Inr (pk1, cnt1) \<and>
     ProcessPacket demo_ipv6_cfg (demo_udp 2 1 7 5) (\<lambda>_. 0) = Inr (pk2, cnt2) \<and> IsSwapTuple (pi_desc pk1) \<noteq> IsSwapTuple (pi_desc pk2)"
proof -
  let ?t = "\<lparr>fm_map = Map.empty, fm_stats = flow_stats_Clear\<rparr>"
  obtain pk1 cnt1 where 1: "ProcessPacket demo_ipv6_cfg (demo_udp 1 2 5 7) (\<lambda>_. 0) = Inr (pk1, cnt1)" "IsValidPkt (pi_desc pk1)" "pkt_addrs pk1 = Inr (0x10000001, 0x10000002, 17)"
    "udp_getSourcePort (pi_raw pk1) (pi_l4 pk1) = Some 5" "udp_getDestPort (pi_raw pk1) (pi_l4 pk1) = Some 7"
    by (rule demo_parsed(1))
  obtain pk2 cnt2 where 2: "ProcessPacket demo_ipv6_cfg (demo_udp 2 1 7 5) (\<lambda>_. 0) = Inr (pk2, cnt2)" "IsValidPkt (pi_desc pk2)" "pkt_addrs pk2 = Inr (0x10000002, 0x10000001, 17)"
    "udp_getSourcePort (pi_raw pk2) (pi_l4 pk2) = Some 7" "udp_getDestPort (pi_raw pk2) (pi_l4 pk2) = Some 5"
    by (rule demo_parsed(2))
  obtain f new t1 where fp: "flow_process 0 (pi_flow_key pk1) ?t = (f, new, t1)" by (metis prod_cases3)
  have "fm_map ?t (pi_flow_key pk2) = None" by simp
  from reply_joins_flow [OF 1(1,2) 2(1,2) 1(3) 2(3) 1(4,5) 2(4,5) this fp] 1(1) 2(1) show ?thesis by auto
qed

end
