(* ===== verification/Flow_File.thy ===== *)
theory Flow_File
  imports Pkt_Parse
begin

text \<open>
  A recorded flow as a template (\<open>CCapFileFlowInfo\<close> and \<open>CFlowPktInfo\<close> in \<open>bp_sim.cpp\<close>): loading the packets of a file, the numbering of the packets of each
  flow and direction, the option for learning, and the receive-check header that is filled in from the descriptor.

  The file is the list of its packets: time, buffer, length.  \<open>m_packet\<close> is part of the packet indication; the buffers of the data path that
  \<open>alloc_const_mbuf\<close> makes of a packet are left out.
\<close>

section \<open>Changing a packet\<close>

definition ip_setTotalLength :: "mem \<Rightarrow> nat \<Rightarrow> u16 \<Rightarrow> mem option" where
  "ip_setTotalLength m ip len = mem_wr m (ip + 2) (PKT_NTOHS len)"

definition ip_setHeaderLength :: "mem \<Rightarrow> nat \<Rightarrow> u8 \<Rightarrow> mem option" where
  "ip_setHeaderLength m ip len = (case mem_rd m ip of None \<Rightarrow> None | Some b \<Rightarrow> mem_wr m ip (btSetMaskBitBigE (b :: u8) 4 7 (drop_bit 2 len)))"

definition ip_setTimeToLive :: "mem \<Rightarrow> nat \<Rightarrow> u8 \<Rightarrow> mem option" where
  "ip_setTimeToLive m ip ttl = mem_wr m (ip + 8) ttl"

definition getTTL :: "CPacketIndication \<Rightarrow> pp_fault + u8" where
  "getTTL pk = liftE PpRead (if pi_is_ipv6 pk then ipv6_getHopLimit (pi_raw pk) (pi_l3 pk) else getTimeToLive (pi_raw pk) (pi_l3 pk))"

definition setTTL :: "u8 \<Rightarrow> CPacketIndication \<Rightarrow> pp_fault + CPacketIndication" where
  "setTTL ttl pk =
     (if pi_is_ipv6 pk then bindE (liftE PpRead (ipv6_setHopLimit (pi_raw pk) (pi_l3 pk) ttl)) (\<lambda>m. Inr (pk\<lparr>pi_raw := m\<rparr>))
      else bindE (liftE PpRead (ip_setTimeToLive (pi_raw pk) (pi_l3 pk) ttl)) (\<lambda>m.
        bindE (liftE PpRead (updateCheckSum m (pi_l3 pk))) (\<lambda>m1. Inr (pk\<lparr>pi_raw := m1\<rparr>))))"

definition TTL_RESERVE_DUPLICATE :: u8 where "TTL_RESERVE_DUPLICATE = 0xff"

definition free_ttl :: "CPacketIndication \<Rightarrow> pp_fault + CPacketIndication" where
  "free_ttl pk = bindE (getTTL pk) (\<lambda>ttl.
     if ttl = TTL_RESERVE_DUPLICATE \<or> ttl = TTL_RESERVE_DUPLICATE - 1 then setTTL (TTL_RESERVE_DUPLICATE - 4) pk else Inr pk)"

text \<open>
  Making room for an option behind the first octets of the IP header.  The octets that \<open>append\<close> adds are not initialised; the ones that stay are the last of the
  moved part.
\<close>

definition open_gap :: "nat \<Rightarrow> u8 \<Rightarrow> CPacketIndication \<Rightarrow> pp_fault + CPacketIndication" where
  "open_gap pos bytes pk = (let n = unat bytes; m = take (unat (pi_pkt_len pk)) (pi_raw pk) @ replicate n 0 in
     if unat (pi_pkt_len pk) > length (pi_raw pk) \<or> pos > unat (pi_pkt_len pk) then Inl PpRead
     else Inr (RefreshPointers (pk\<lparr>
       pi_raw := take (pos + n) m @ drop pos (take (unat (pi_pkt_len pk)) (pi_raw pk)),
       pi_pkt_len := pi_pkt_len pk + ucast bytes,
       pi_udp_tcp_offset := (if pi_udp_tcp_offset pk \<noteq> 0 then pi_udp_tcp_offset pk + bytes else 0),
       pi_payload_offset := (if pi_payload_offset pk \<noteq> 0 then pi_payload_offset pk + bytes else 0)\<rparr>)))"

definition push_ipv4_option_offline :: "u8 \<Rightarrow> CPacketIndication \<Rightarrow> pp_fault + nat option \<times> CPacketIndication" where
  "push_ipv4_option_offline bytes pk =
     (if bytes mod 4 \<noteq> 0 \<or> pi_is_ipv6 pk then Inl PpAssert
      else bindE (liftE PpRead (getHeaderLength (pi_raw pk) (pi_l3 pk))) (\<lambda>hlen.
      if unat hlen + unat bytes > 60 then Inr (None, pk)
      else
        let p = unat (pi_ip_offset pk + 20) in
        bindE (open_gap p bytes pk) (\<lambda>pk1. let ip = pi_l3 pk1 in
        bindE (liftE PpRead (getTotalLength (pi_raw pk1) ip)) (\<lambda>tot.
        bindE (liftE PpRead (ip_setTotalLength (pi_raw pk1) ip (tot + ucast bytes))) (\<lambda>m1.
        bindE (liftE PpRead (getHeaderLength m1 ip)) (\<lambda>hlen1.
        bindE (liftE PpRead (ip_setHeaderLength m1 ip (hlen1 + bytes))) (\<lambda>m2.
        bindE (UpdatePacketPadding (pk1\<lparr>pi_raw := m2\<rparr>)) (\<lambda>pk2. Inr (Some p, pk2)))))))))"

definition noIPV6_OPTION :: u8 where "noIPV6_OPTION = 0x3C"

text \<open>\<open>UpdatePacketPadding\<close> reads the IPv4 length also when the header is an IPv6 header.\<close>

definition push_ipv6_option_offline :: "u8 \<Rightarrow> CPacketIndication \<Rightarrow> pp_fault + nat \<times> CPacketIndication" where
  "push_ipv6_option_offline bytes pk =
     (if bytes mod 8 \<noteq> 0 \<or> \<not> pi_is_ipv6 pk then Inl PpAssert
      else
        let p = unat (pi_ip_offset pk + 40) in
        bindE (open_gap p bytes pk) (\<lambda>pk1. let ip = pi_l3 pk1 in
        bindE (liftE PpRead (ipv6_getPayloadLen (pi_raw pk1) ip)) (\<lambda>len.
        bindE (liftE PpRead (ipv6_setPayloadLen (pi_raw pk1) ip (len + ucast bytes))) (\<lambda>m1.
        bindE (liftE PpRead (ipv6_getNextHdr m1 ip)) (\<lambda>save_header.
        bindE (liftE PpRead (mem_wr m1 p save_header)) (\<lambda>m2.
        bindE (liftE PpRead (ipv6_setNextHdr m2 ip noIPV6_OPTION)) (\<lambda>m3.
        bindE (UpdatePacketPadding (pk1\<lparr>pi_raw := m3\<rparr>)) (\<lambda>pk2. Inr (p, pk2)))))))))"

definition init_option :: "(mem \<Rightarrow> nat \<Rightarrow> mem option) \<Rightarrow> nat \<Rightarrow> mem \<Rightarrow> pp_fault + mem" where
  "init_option init p m =
     bindE (liftE PpRead (init m p)) (\<lambda>m1. bindE (liftE PpRead (set_fid m1 p 0)) (\<lambda>m2. liftE PpRead (set_thread_id m2 p 0)))"

text \<open>The option is too long when the header has options already: the null pointer that comes back is used.\<close>

definition mask_as_learn :: "CPacketIndication \<Rightarrow> pp_fault + CPacketIndication" where
  "mask_as_learn pk =
     bindE (if pi_is_ipv6 pk
       then bindE (push_ipv6_option_offline noOPTION_LEN pk) (\<lambda>(p, pk1).
         bindE (init_option set_init_ipv6_header p (pi_raw pk1)) (\<lambda>m. Inr (pk1\<lparr>pi_raw := m\<rparr>)))
       else bindE (push_ipv4_option_offline noOPTION_LEN pk) (\<lambda>(p, pk1).
         bindE (liftE PpRead p) (\<lambda>p.
         bindE (init_option set_init_ipv4_header p (pi_raw pk1)) (\<lambda>m.
         bindE (liftE PpRead (updateCheckSum m (pi_l3 pk1))) (\<lambda>m1. Inr (pk1\<lparr>pi_raw := m1\<rparr>))))))
     (\<lambda>pk2. Inr (pk2\<lparr>pi_desc := SetLearn True (pi_desc pk2)\<rparr>))"

section \<open>Loading a file\<close>

text \<open>
  The flow that \<open>first_flow\<close> points to is known by its key.  One packet indication is used for all packets, so what \<open>Clean\<close> leaves of the previous
  packet stays.
\<close>

record load_state =
  ls_table :: CFlowTableMap
  ls_counters :: CCPacketParserCounters
  ls_pk :: CPacketIndication
  ls_pkts :: "CPacketIndication list"
  ls_total_bytes :: u64
  ls_total_flows :: u64
  ls_total_errors :: u64
  ls_first_flow :: "CFlowKey option"
  ls_first_swap :: bool
  ls_last_time :: "rat option"

record load_cfg =
  lc_ipv6 :: ipv6_cfg
  lc_id :: u16
  lc_plugin_id :: u8

definition multi_flow :: "load_cfg \<Rightarrow> bool" where
  "multi_flow cfg \<longleftrightarrow> lc_plugin_id cfg \<noteq> 0"

definition check_time :: "rat \<Rightarrow> load_state \<Rightarrow> pp_fault + load_state" where
  "check_time t s = (case ls_last_time s of
       Some last_time \<Rightarrow> if t < last_time then Inl PpExit else Inr (s\<lparr>ls_last_time := Some t\<rparr>)
     | None \<Rightarrow> Inr (s\<lparr>ls_last_time := Some t\<rparr>))"

text \<open>A copy of the packet, with its own buffer.\<close>

definition flow_pkt_Create :: "CPacketIndication \<Rightarrow> pp_fault + CPacketIndication" where
  "flow_pkt_Create pk =
     (if \<not> (0 < pi_pkt_len pk \<and> unat (pi_pkt_len pk) < MAX_PKT_SIZE) then Inl PpAssert
      else if unat (pi_pkt_len pk) > length (pi_raw pk) then Inl PpRead
      else Inr (pk\<lparr>pi_raw := take (unat (pi_pkt_len pk)) (pi_raw pk)\<rparr>))"

definition file_Append :: "CPacketIndication \<Rightarrow> load_state \<Rightarrow> pp_fault + load_state" where
  "file_Append pk s = bindE (flow_pkt_Create pk) (\<lambda>p. Inr (s\<lparr>ls_pkts := ls_pkts s @ [p]\<rparr>))"

definition put_flow :: "CFlowKey \<Rightarrow> CFlow \<Rightarrow> load_state \<Rightarrow> load_state" where
  "put_flow key f s = s\<lparr>ls_table := (ls_table s)\<lparr>fm_map := (fm_map (ls_table s))(key \<mapsto> f)\<rparr>\<rparr>"

definition on_desc :: "(CPacketDescriptor \<Rightarrow> CPacketDescriptor) \<Rightarrow> CPacketIndication \<Rightarrow> CPacketIndication" where
  "on_desc g pk = pk\<lparr>pi_desc := g (pi_desc pk)\<rparr>"

text \<open>The first packet of a flow, and the later ones.\<close>

definition load_fif :: "load_cfg \<Rightarrow> CFlow \<Rightarrow> CPacketIndication \<Rightarrow> load_state \<Rightarrow> pp_fault + load_state" where
  "load_fif cfg f0 pk0 s =
     (let f = f0\<lparr>fl_flow_id := ucast (ls_total_flows s)\<rparr>; key = pi_flow_key pk0; pk = on_desc (SetFlowId (ucast (fl_flow_id f))) pk0;
          swap = IsSwapTuple (pi_desc pk); fs = f\<lparr>fl_is_fif_swap := of_bool swap\<rparr> in
      if ls_total_flows s = 0 then
        file_Append (on_desc (SetInitSide True) pk)
          (put_flow key fs (s\<lparr>ls_first_flow := Some key, ls_first_swap := swap, ls_total_flows := ls_total_flows s + 1\<rparr>))
      else if multi_flow cfg then
        file_Append (on_desc (SetInitSide (of_bool (ls_first_swap s) = fl_is_fif_swap fs)) pk) (put_flow key fs (s\<lparr>ls_total_flows := ls_total_flows s + 1\<rparr>))
      else Inr (put_flow key f (s\<lparr>ls_total_errors := ls_total_errors s + 1\<rparr>)))"

definition load_next :: "load_cfg \<Rightarrow> CFlow \<Rightarrow> CPacketIndication \<Rightarrow> load_state \<Rightarrow> pp_fault + load_state" where
  "load_next cfg f pk0 s =
     (let key = pi_flow_key pk0; pk = on_desc (SetFlowId (ucast (fl_flow_id f))) pk0; swap = IsSwapTuple (pi_desc pk); s1 = put_flow key f s in
      if \<not> multi_flow cfg then
        if ls_first_flow s = Some key then file_Append (on_desc (SetInitSide ((fl_is_fif_swap f \<noteq> 0) = swap)) pk) s1
        else Inr (s1\<lparr>ls_total_errors := ls_total_errors s + 1\<rparr>)
      else file_Append (on_desc (SetInitSide (ls_first_swap s = swap)) pk) s1)"

definition load_parsed :: "load_cfg \<Rightarrow> u32 \<Rightarrow> rat \<Rightarrow> CPacketIndication \<Rightarrow> load_state \<Rightarrow> pp_fault + load_state" where
  "load_parsed cfg junk t pk s = (case flow_process junk (pi_flow_key pk) (ls_table s) of (f, is_fif, table) \<Rightarrow>
     let pk1 = on_desc (SetFlowPktNum (fl_pkt_id f) \<circ> SetId (lc_id cfg) \<circ> SetPluginId (lc_plugin_id cfg) \<circ> SetPluginEnable (multi_flow cfg)) (pk\<lparr>pi_cap_ipg := t\<rparr>);
         f1 = f\<lparr>fl_pkt_id := fl_pkt_id f + 1\<rparr>;
         s1 = s\<lparr>ls_table := table, ls_total_bytes := ls_total_bytes s + ucast (pi_pkt_len pk)\<rparr> in
     bindE (free_ttl pk1) (\<lambda>pk2. (if is_fif then load_fif else load_next) cfg f1 pk2 (s1\<lparr>ls_pk := pk2\<rparr>)))"

definition load_packet :: "load_cfg \<Rightarrow> u32 \<Rightarrow> rat \<times> mem \<times> u16 \<Rightarrow> load_state \<Rightarrow> pp_fault + load_state" where
  "load_packet cfg junk x s0 = (case x of (t, raw, len) \<Rightarrow>
     bindE (check_time t s0) (\<lambda>s.
     bindE (ProcessPacket (lc_ipv6 cfg) ((ls_pk s)\<lparr>pi_raw := raw, pi_pkt_len := len\<rparr>) (ls_counters s)) (\<lambda>(pk, cnt).
     if \<not> IsValidPkt (pi_desc pk) then Inl PpExit else load_parsed cfg junk t pk (s\<lparr>ls_counters := cnt\<rparr>))))"

definition load_start :: "CPacketIndication \<Rightarrow> CCPacketParserCounters \<Rightarrow> load_state" where
  "load_start pk cnt = \<lparr>ls_table = \<lparr>fm_map = Map.empty, fm_stats = flow_stats_Clear\<rparr>, ls_counters = counters_Clear cnt, ls_pk = pk, ls_pkts = [], ls_total_bytes = 0,
     ls_total_flows = 0, ls_total_errors = 0, ls_first_flow = None, ls_first_swap = False, ls_last_time = None\<rparr>"

text \<open>At the end the times become gaps, and a packet that is followed by one of the other direction is marked.\<close>

fun set_gaps :: "CPacketIndication list \<Rightarrow> CPacketIndication list" where
  "set_gaps [] = []"
| "set_gaps [p] = [p\<lparr>pi_cap_ipg := 0\<rparr>]"
| "set_gaps (p # q # ps) =
     (if IsInitSide (pi_desc q) \<noteq> IsInitSide (pi_desc p) then on_desc (SetRtt True) else (\<lambda>p. p)) (p\<lparr>pi_cap_ipg := pi_cap_ipg q - pi_cap_ipg p\<rparr>) # set_gaps (q # ps)"

record CCapFileFlowInfo =
  cf_pkts :: "CPacketIndication list"
  cf_total_bytes :: u64
  cf_total_flows :: u64
  cf_total_errors :: u64

definition load_end :: "load_state \<Rightarrow> pp_fault + CCapFileFlowInfo" where
  "load_end s = (case rev (ls_pkts s) of
       [] \<Rightarrow> Inl PpAssert
     | final # before \<Rightarrow> Inr \<lparr>cf_pkts = set_gaps (rev before @ [on_desc (SetIsLastPkt True) final]), cf_total_bytes = ls_total_bytes s, cf_total_flows = ls_total_flows s,
         cf_total_errors = ls_total_errors s + getTotalErrors (ls_counters s)\<rparr>)"

definition load_cap_file :: "load_cfg \<Rightarrow> u32 \<Rightarrow> CPacketIndication \<Rightarrow> CCPacketParserCounters \<Rightarrow> (rat \<times> mem \<times> u16) list \<Rightarrow> pp_fault + bool \<times> CCapFileFlowInfo" where
  "load_cap_file cfg junk pk cnt file =
     bindE (foldE (\<lambda>s x. load_packet cfg junk x s) (load_start pk cnt) file) (\<lambda>s.
     bindE (load_end s) (\<lambda>f. Inr (\<not> cf_total_errors f > 0, f)))"

section \<open>Numbering the packets\<close>

text \<open>What is learned of one flow of the template: the packets so far, in each direction, the last time and the longest gap.\<close>

record CTmpFlowInfo =
  tf_max_pkts :: u32
  tf_max_aging_sec :: rat
  tf_last_pkt :: rat
  tf_per_dir :: "pkt_dir_t \<Rightarrow> u16"

definition CTmpFlowInfo_new :: CTmpFlowInfo where
  "CTmpFlowInfo_new = \<lparr>tf_max_pkts = 0, tf_max_aging_sec = 0, tf_last_pkt = 0, tf_per_dir = (\<lambda>_. 0)\<rparr>"

definition pkt_dir :: "CPacketDescriptor \<Rightarrow> pkt_dir_t" where
  "pkt_dir d = (if IsInitSide d then CLIENT_SIDE else SERVER_SIDE)"

text \<open>A change of what \<open>GetDirInfo\<close> points to.\<close>

definition on_dir_info :: "(CPacketDescriptorPerDir \<Rightarrow> CPacketDescriptorPerDir option) \<Rightarrow> CPacketDescriptor \<Rightarrow> pp_fault + CPacketDescriptor" where
  "on_dir_info g d = bindE (liftE PpAssert (g (GetDirInfo d))) (\<lambda>x. Inr (d\<lparr>ds_per_dir := (ds_per_dir d)(pkt_dir d := x)\<rparr>))"

definition learn_pkt :: "CPacketIndication \<Rightarrow> rat \<times> (u16 \<rightharpoonup> CTmpFlowInfo) \<Rightarrow> pp_fault + CPacketIndication \<times> rat \<times> (u16 \<rightharpoonup> CTmpFlowInfo)" where
  "learn_pkt pk acc = (case acc of (ctime, ft) \<Rightarrow>
     let desc = pi_desc pk; flow_id = getFlowId desc; dir = pkt_dir desc;
         flow = (case ft flow_id of Some f \<Rightarrow> f | None \<Rightarrow> CTmpFlowInfo_new);
         delta = ctime - tf_last_pkt flow;
         flow1 = flow\<lparr>tf_max_pkts := tf_max_pkts flow + 1, tf_per_dir := (tf_per_dir flow)(dir := tf_per_dir flow dir + 1), tf_last_pkt := ctime,
           tf_max_aging_sec := (if delta > tf_max_aging_sec flow then delta else tf_max_aging_sec flow)\<rparr> in
     bindE (on_dir_info (SetPktNum (ucast (tf_per_dir flow dir))) desc) (\<lambda>desc1.
       Inr (pk\<lparr>pi_desc := desc1\<rparr>, ctime + pi_cap_ipg pk, ft(flow_id \<mapsto> flow1))))"

fun learn_pkts :: "CPacketIndication list \<Rightarrow> rat \<times> (u16 \<rightharpoonup> CTmpFlowInfo) \<Rightarrow> pp_fault + CPacketIndication list \<times> (u16 \<rightharpoonup> CTmpFlowInfo)" where
  "learn_pkts [] acc = Inr ([], snd acc)"
| "learn_pkts (p # ps) acc = bindE (learn_pkt p acc) (\<lambda>(p1, acc1). bindE (learn_pkts ps acc1) (\<lambda>(ps1, ft). Inr (p1 # ps1, ft)))"

definition set_pkt :: "(u16 \<rightharpoonup> CTmpFlowInfo) \<Rightarrow> CPacketIndication \<Rightarrow> pp_fault + CPacketIndication" where
  "set_pkt ft pk =
     (let desc = pi_desc pk; dir = pkt_dir desc in
     bindE (liftE PpAssert (ft (getFlowId desc))) (\<lambda>flow.
     let desc1 = (if tf_per_dir flow CLIENT_SIDE > 0 \<and> tf_per_dir flow SERVER_SIDE > 0 then SetBiPluginEnable True desc else desc) in
     bindE (on_dir_info (SetMaxPkts (ucast (tf_per_dir flow dir))) desc1) (\<lambda>desc2.
     bindE (liftE PpAssert (SetMaxPktsPerFlow (tf_max_pkts flow) desc2)) (\<lambda>desc3.
     bindE (liftE PpAssert (SetMaxFlowTimeout (tf_max_aging_sec flow) desc3)) (\<lambda>desc4. Inr (pk\<lparr>pi_desc := desc4\<rparr>))))))"

fun set_pkts :: "(u16 \<rightharpoonup> CTmpFlowInfo) \<Rightarrow> CPacketIndication list \<Rightarrow> pp_fault + CPacketIndication list" where
  "set_pkts ft [] = Inr []"
| "set_pkts ft (p # ps) = bindE (set_pkt ft p) (\<lambda>p1. bindE (set_pkts ft ps) (\<lambda>ps1. Inr (p1 # ps1)))"

text \<open>In learn mode the first packet of a template with two directions carries the option.\<close>

definition learn_first :: "bool \<Rightarrow> CPacketIndication list \<Rightarrow> pp_fault + CPacketIndication list" where
  "learn_first learn ps =
     (if \<not> learn then Inr ps
      else (case ps of
        [] \<Rightarrow> Inl PpAssert
      | p # ps1 \<Rightarrow> if IsBiDirectionalFlow (pi_desc p) then bindE (mask_as_learn p) (\<lambda>p1. Inr (p1 # ps1)) else Inr ps))"

definition update_info :: "bool \<Rightarrow> CCapFileFlowInfo \<Rightarrow> pp_fault + CCapFileFlowInfo" where
  "update_info learn f =
     bindE (learn_pkts (cf_pkts f) (0, Map.empty)) (\<lambda>(ps, ft).
     bindE (set_pkts ft ps) (\<lambda>ps1.
     bindE (learn_first learn ps1) (\<lambda>ps2. Inr (f\<lparr>cf_pkts := ps2\<rparr>))))"

section \<open>Other operations on a template\<close>

datatype template_error = EtherOffset | IpOffset | Ipv6Offset | Ipv4Offset | PluginLearn

fun template_offsets :: "CPacketIndication list \<Rightarrow> template_error option" where
  "template_offsets [] = None"
| "template_offsets (p # ps) =
     (if pi_ether p \<noteq> 0 then Some EtherOffset
      else if pi_l3 p \<noteq> 14 then Some IpOffset
      else if pi_is_ipv6 p then (if pi_l4 p \<noteq> 14 + 40 then Some Ipv6Offset else template_offsets ps)
      else if pi_l4 p \<noteq> 14 + 20 then Some Ipv4Offset else template_offsets ps)"

definition is_valid_template_load_time :: "bool \<Rightarrow> CCapFileFlowInfo \<Rightarrow> pp_fault + template_error option" where
  "is_valid_template_load_time learn f = (case template_offsets (cf_pkts f) of
       Some e \<Rightarrow> Inr (Some e)
     | None \<Rightarrow> if \<not> learn then Inr None
         else (case cf_pkts f of [] \<Rightarrow> Inl PpAssert | p # _ \<Rightarrow> Inr (if IsPluginEnable (pi_desc p) then Some PluginLearn else None)))"

definition update_pcap_mode :: "CCapFileFlowInfo \<Rightarrow> CCapFileFlowInfo" where
  "update_pcap_mode f = f\<lparr>cf_pkts := map (on_desc (SetPcapTiming True)) (cf_pkts f)\<rparr>"

definition get_cap_file_length_sec :: "CCapFileFlowInfo \<Rightarrow> rat" where
  "get_cap_file_length_sec f = sum_list (map pi_cap_ipg (cf_pkts f))"

definition min_ipg_pkt :: "rat \<Rightarrow> rat \<Rightarrow> CPacketIndication \<Rightarrow> CPacketIndication" where
  "min_ipg_pkt min_ipg override_ipg p =
     (let p1 = (if pi_cap_ipg p < min_ipg then p\<lparr>pi_cap_ipg := override_ipg\<rparr> else p) in
      if pi_cap_ipg p1 < override_ipg then p1\<lparr>pi_cap_ipg := override_ipg\<rparr> else p1)"

definition update_min_ipg :: "rat \<Rightarrow> rat \<Rightarrow> CCapFileFlowInfo \<Rightarrow> CCapFileFlowInfo" where
  "update_min_ipg min_ipg override_ipg f = f\<lparr>cf_pkts := map (min_ipg_pkt min_ipg override_ipg) (cf_pkts f)\<rparr>"

definition file_RemoveAll :: "CCapFileFlowInfo \<Rightarrow> CCapFileFlowInfo" where
  "file_RemoveAll f = \<lparr>cf_pkts = [], cf_total_bytes = 0, cf_total_flows = 0, cf_total_errors = 0\<rparr>"

section \<open>The header for the receive check\<close>


text \<open>What \<open>do_generate_new_mbuf_rxcheck\<close> writes behind the IP header, for the flow \<open>node_flow_id\<close> of the node.\<close>

definition rxcheck_header :: "bool \<Rightarrow> u64 \<Rightarrow> u32 \<Rightarrow> u8 \<Rightarrow> CPacketIndication \<Rightarrow> CRx_check_header" where
  "rxcheck_header single_port node_flow_id tick next_hdr pk =
     (let desc = pi_desc pk;
          h = \<lparr>rx_option_type = (if pi_is_ipv6 pk then next_hdr else RX_CHECK_V4_OPT_TYPE),
            rx_option_len = (if pi_is_ipv6 pk then of_nat ((RX_CHECK_LEN - 8) div 8) else of_nat RX_CHECK_LEN),
            rx_magic = RX_CHECK_MAGIC, rx_time_stamp = tick, rx_flow_id = node_flow_id OR push_bit 52 (ucast (getFlowId desc AND 0xf)),
            rx_pkt_id = ucast (getFlowPktNum desc), rx_flow_size = ds_max_flow_pkts desc, rx_flags = 0, rx_template_id = ucast (getId desc),
            rx_aging_sec = ds_max_flow_aging desc\<rparr> in
      if single_port then h
      else hdr_set_both_dir (if IsBiDirectionalFlow desc then 1 else 0) (set_dir (if IsInitSide desc then 1 else 0)
        (h\<lparr>rx_pkt_id := dd_pkt_num (GetDirInfo desc), rx_flow_size := dd_max_flow_pkts (GetDirInfo desc)\<rparr>)))"

text \<open>The id of the flow in a node: a counter of the thread and the thread.\<close>

definition make_flow_id :: "u64 \<Rightarrow> u32 \<Rightarrow> u64" where
  "make_flow_id flow_id thread_id = (flow_id AND 0x000fffffffffffff) OR push_bit 56 (ucast (thread_id AND 0xff))"

section \<open>Packets of one flow and direction\<close>

abbreviation fid :: "CPacketIndication \<Rightarrow> u16" where
  "fid p \<equiv> getFlowId (pi_desc p)"

abbreviation dir_of :: "CPacketIndication \<Rightarrow> pkt_dir_t" where
  "dir_of p \<equiv> pkt_dir (pi_desc p)"

abbreviation pkt_num :: "CPacketIndication \<Rightarrow> nat" where
  "pkt_num p \<equiv> unat (dd_pkt_num (GetDirInfo (pi_desc p)))"

definition sub :: "u16 \<Rightarrow> pkt_dir_t \<Rightarrow> CPacketIndication list \<Rightarrow> CPacketIndication list" where
  "sub k d ps = filter (\<lambda>p. fid p = k \<and> dir_of p = d) ps"

lemma sub_simps [simp]: "sub k d [] = []" "sub k d (ps @ qs) = sub k d ps @ sub k d qs"
    "sub k d (p # ps) = (if fid p = k \<and> dir_of p = d then p # sub k d ps else sub k d ps)"
  by (simp_all add: sub_def)

lemma length_by_dir: "length (filter (\<lambda>p. fid p = k) ps) = length (sub k CLIENT_SIDE ps) + length (sub k SERVER_SIDE ps)"
  by (induction ps) (auto simp: pkt_dir_def)

text \<open>The numbers of a template: each flow and direction counts from zero, and each packet knows the totals.\<close>

definition template_numbered :: "CPacketIndication list \<Rightarrow> bool" where
  "template_numbered ps \<longleftrightarrow> (\<forall>p\<in>set ps. map pkt_num (sub (fid p) (dir_of p) ps) = [0..<length (sub (fid p) (dir_of p) ps)] \<and>
     unat (dd_max_flow_pkts (GetDirInfo (pi_desc p))) = length (sub (fid p) (dir_of p) ps) \<and>
     unat (ds_max_flow_pkts (pi_desc p)) = length (filter (\<lambda>q. fid q = fid p) ps) \<and>
     (IsBiDirectionalFlow (pi_desc p) \<longleftrightarrow> (\<forall>d. sub (fid p) d ps \<noteq> [])))"

lemma view_flags: "ds_flags d = ds_flags d' \<Longrightarrow> view d = view d'"
  by (simp add: view_def desc_getters desc_get_def)

lemma view_fields: "getFlowId d = dv_flow_id (view d)" "IsInitSide d = dv_init (view d)" "IsBiDirectionalFlow d = dv_both (view d)" "IsSwapTuple d = dv_swap (view d)"
    "pkt_dir d = (if dv_init (view d) then CLIENT_SIDE else SERVER_SIDE)" "getId d = dv_id (view d)"
  by (simp_all add: view_def pkt_dir_def)

text \<open>What numbering does not change.\<close>

definition shape :: "CPacketIndication \<Rightarrow> desc_view \<times> u16 \<times> CFlowKey" where
  "shape p = ((view (pi_desc p))\<lparr>dv_both := False, dv_learn := False\<rparr>, ds_flow_pkt_num (pi_desc p), pi_flow_key p)"

lemma shape_eq: "shape p = shape q \<Longrightarrow> fid p = fid q \<and> dir_of p = dir_of q \<and> IsInitSide (pi_desc p) = IsInitSide (pi_desc q) \<and> getFlowPktNum (pi_desc p) = getFlowPktNum (pi_desc q) \<and> pi_flow_key p = pi_flow_key q"
  unfolding shape_def view_fields getFlowPktNum_def by (cases "view (pi_desc p)"; cases "view (pi_desc q)") simp

definition flow_of :: "(u16 \<rightharpoonup> CTmpFlowInfo) \<Rightarrow> u16 \<Rightarrow> CTmpFlowInfo" where
  "flow_of ft k = (case ft k of Some f \<Rightarrow> f | None \<Rightarrow> CTmpFlowInfo_new)"

definition counted :: "CPacketIndication list \<Rightarrow> (u16 \<rightharpoonup> CTmpFlowInfo) \<Rightarrow> bool" where
  "counted ps ft \<longleftrightarrow> (\<forall>k. (\<forall>d. unat (tf_per_dir (flow_of ft k) d) = length (sub k d ps)) \<and>
     unat (tf_max_pkts (flow_of ft k)) = length (sub k CLIENT_SIDE ps) + length (sub k SERVER_SIDE ps))"

lemma on_dir_info_ok:
  assumes "on_dir_info g d = Inr d1"
  shows "\<exists>x. g (GetDirInfo d) = Some x \<and> d1 = d\<lparr>ds_per_dir := (ds_per_dir d)(pkt_dir d := x)\<rparr> \<and> view d1 = view d \<and> GetDirInfo d1 = x"
proof -
  obtain x where x: "g (GetDirInfo d) = Some x" "d1 = d\<lparr>ds_per_dir := (ds_per_dir d)(pkt_dir d := x)\<rparr>"
    using assms by (auto simp: on_dir_info_def bindE_simps)
  moreover have v: "view d1 = view d" by (rule view_flags) (simp add: x(2))
  moreover have "GetDirInfo d1 = x" unfolding GetDirInfo_def view_fields v by (simp add: x(2) view_fields)
  ultimately show ?thesis by blast
qed

lemma u16_less: "unat (w :: u16) < 65536"
proof -
  have "unat w < 2 ^ LENGTH(16)" by (rule unsigned_less)
  then show ?thesis by simp
qed

lemma ucast_u16: "ucast (ucast (w :: u16) :: u32) = w" "unat (ucast (w :: u16) :: u32) = unat w"
proof -
  show "ucast (ucast (w :: u16) :: u32) = w" by (rule bit_word_eqI) (auto simp: bit_ucast_iff)
  have "unat w < 2 ^ LENGTH(32)" using u16_less [of w] by (rule less_trans) simp
  then show "unat (ucast (w :: u16) :: u32) = unat w" by (metis take_bit_nat_eq_self unsigned_ucast_eq)
qed

lemma learn_step:
  assumes run: "learn_pkt p (ct, ft) = Inr (p1, ct1, ft1)" and c: "counted ps ft"
  shows "counted (ps @ [p]) ft1" and "shape p1 = shape p" and "view (pi_desc p1) = view (pi_desc p)" and "pkt_num p1 = length (sub (fid p) (dir_of p) ps)"
proof -
  let ?f = "flow_of ft (fid p)" and ?d = "dir_of p"
  obtain desc1 where d1: "on_dir_info (SetPktNum (ucast (tf_per_dir ?f ?d))) (pi_desc p) = Inr desc1" and p1: "p1 = p\<lparr>pi_desc := desc1\<rparr>"
    and ft1: "tf_per_dir (flow_of ft1 k) = (if k = fid p then (tf_per_dir ?f)(?d := tf_per_dir ?f ?d + 1) else tf_per_dir (flow_of ft k))"
      "tf_max_pkts (flow_of ft1 k) = (if k = fid p then tf_max_pkts ?f + 1 else tf_max_pkts (flow_of ft k))" for k
    using run by (auto simp: learn_pkt_def Let_def bindE_simps flow_of_def)
  obtain x where x: "SetPktNum (ucast (tf_per_dir ?f ?d)) (GetDirInfo (pi_desc p)) = Some x" "desc1 = (pi_desc p)\<lparr>ds_per_dir := (ds_per_dir (pi_desc p))(?d := x)\<rparr>"
    "view desc1 = view (pi_desc p)" "GetDirInfo desc1 = x" using on_dir_info_ok [OF d1] by blast
  have lt: "unat (tf_per_dir ?f ?d) < 65000" and num: "dd_pkt_num x = tf_per_dir ?f ?d"
    using x(1) by (auto simp: SetPktNum_def word_less_nat_alt ucast_u16 split: if_splits)
  have cs: "unat (tf_per_dir (flow_of ft k) d) = length (sub k d ps)" "unat (tf_max_pkts (flow_of ft k)) = length (sub k CLIENT_SIDE ps) + length (sub k SERVER_SIDE ps)" for k d
    using c by (simp_all add: counted_def)
  have "unat (tf_per_dir ?f ?d + 1) = Suc (unat (tf_per_dir ?f ?d))" using lt by (simp add: unat_word_ariths)
  moreover have "unat (tf_max_pkts ?f) \<le> 131072" using cs [of "fid p"] u16_less [of "tf_per_dir ?f CLIENT_SIDE"] u16_less [of "tf_per_dir ?f SERVER_SIDE"] by simp
  then have "unat (tf_max_pkts ?f + 1) = Suc (unat (tf_max_pkts ?f))" by (simp add: unat_word_ariths)
  ultimately show "counted (ps @ [p]) ft1"
    unfolding counted_def ft1 using cs by (cases ?d) (auto split: pkt_dir_t.split)
  show "shape p1 = shape p" "view (pi_desc p1) = view (pi_desc p)" using x(2,3) by (simp_all add: p1 shape_def)
  show "pkt_num p1 = length (sub (fid p) (dir_of p) ps)" using cs(1) num by (simp add: p1 x(4))
qed

lemma learn_all:
  assumes "learn_pkts qs (ct, ft) = Inr (qs1, ft1)" and "counted ps ft"
  shows "counted (ps @ qs) ft1 \<and> map shape qs1 = map shape qs \<and> map (view \<circ> pi_desc) qs1 = map (view \<circ> pi_desc) qs \<and>
    (\<forall>k d. map pkt_num (sub k d qs1) = [length (sub k d ps)..<length (sub k d (ps @ qs))])"
  using assms
proof (induction qs arbitrary: ct ft ps qs1)
  case Nil
  then show ?case by simp
next
  case (Cons q qs)
  obtain q1 ct' ft' qs2 where s: "learn_pkt q (ct, ft) = Inr (q1, ct', ft')" and r: "learn_pkts qs (ct', ft') = Inr (qs2, ft1)" and qs1: "qs1 = q1 # qs2"
    using Cons.prems(1) by (auto simp: bindE_simps)
  note st = learn_step [OF s Cons.prems(2)]
  have k: "fid q1 = fid q" "dir_of q1 = dir_of q" using st(3) by (simp_all add: view_fields)
  note IH = Cons.IH [OF r st(1)]
  have "map pkt_num (sub n d qs1) = [length (sub n d ps)..<length (sub n d (ps @ q # qs))]" for n d
  proof -
    have n: "map pkt_num (sub n d qs2) = [length (sub n d (ps @ [q]))..<length (sub n d ((ps @ [q]) @ qs))]" using IH by blast
    show ?thesis
    proof (cases "fid q = n \<and> dir_of q = d")
      case True
      moreover have "pkt_num q1 = length (sub n d ps)" using True st(4) by simp
      ultimately show ?thesis using n k by (simp add: qs1 upt_conv_Cons [of "length (sub n d ps)"] del: upt_Suc)
    next
      case False
      then show ?thesis using n k by (auto simp: qs1 simp del: upt_Suc)
    qed
  qed
  then show ?case using IH st by (simp add: qs1)
qed

lemma all_dirs: "(\<forall>d. P d) \<longleftrightarrow> P CLIENT_SIDE \<and> P SERVER_SIDE"
  by (metis pkt_dir_t.exhaust)

lemma unat_ucast_small: "unat (w :: u32) < 65000 \<Longrightarrow> unat (ucast w :: u16) = unat w"
  by (simp add: unsigned_ucast_eq take_bit_nat_eq_self)

text \<open>Two lists whose packets agree in what a flow and a direction are.\<close>

lemma sub_pointwise:
  assumes "list_all2 R ps qs" and "\<And>p q. R p q \<Longrightarrow> shape q = shape p" and "\<And>p q. R p q \<Longrightarrow> g q = g p"
  shows "map g (sub k d qs) = map g (sub k d ps)"
  using assms(1)
proof (induction rule: list_all2_induct)
  case (Cons p ps q qs)
  moreover have "fid q = fid p" "dir_of q = dir_of p" "g q = g p" using shape_eq assms(2,3) Cons.hyps by blast+
  ultimately show ?case by simp
qed simp

lemma list_all2_right: "list_all2 R xs ys \<Longrightarrow> y \<in> set ys \<Longrightarrow> \<exists>x\<in>set xs. R x y"
  by (induction rule: list_all2_induct) auto

lemma set_step:
  assumes run: "set_pkt ft p = Inr p1"
  shows "shape p1 = shape p \<and> pkt_num p1 = pkt_num p \<and> dd_max_flow_pkts (GetDirInfo (pi_desc p1)) = tf_per_dir (flow_of ft (fid p)) (dir_of p) \<and>
    unat (ds_max_flow_pkts (pi_desc p1)) = unat (tf_max_pkts (flow_of ft (fid p))) \<and>
    (IsBiDirectionalFlow (pi_desc p1) \<longleftrightarrow> IsBiDirectionalFlow (pi_desc p) \<or> (\<forall>d. tf_per_dir (flow_of ft (fid p)) d > 0))"
proof -
  let ?b = "\<lambda>f. if tf_per_dir f CLIENT_SIDE > 0 \<and> tf_per_dir f SERVER_SIDE > 0 then SetBiPluginEnable True (pi_desc p) else pi_desc p"
  obtain f d2 d3 d4 where f: "ft (fid p) = Some f" and d2: "on_dir_info (SetMaxPkts (ucast (tf_per_dir f (dir_of p)))) (?b f) = Inr d2"
    and d3: "SetMaxPktsPerFlow (tf_max_pkts f) d2 = Some d3" and d4: "SetMaxFlowTimeout (tf_max_aging_sec f) d3 = Some d4" and p1: "p1 = p\<lparr>pi_desc := d4\<rparr>"
    using run by (auto simp: set_pkt_def Let_def bindE_simps)
  have fo: "flow_of ft (fid p) = f" using f by (simp add: flow_of_def)
  obtain x where x: "SetMaxPkts (ucast (tf_per_dir f (dir_of p))) (GetDirInfo (?b f)) = Some x" "d2 = (?b f)\<lparr>ds_per_dir := (ds_per_dir (?b f))(pkt_dir (?b f) := x)\<rparr>"
    "view d2 = view (?b f)" "GetDirInfo d2 = x" using on_dir_info_ok [OF d2] by blast
  have vb: "view (?b f) = (view (pi_desc p))\<lparr>dv_both := dv_both (view (pi_desc p)) \<or> (\<forall>d. tf_per_dir f d > 0)\<rparr>"
    by (auto simp: view_of_setters all_dirs)
  have keep: "ds_per_dir (?b f) = ds_per_dir (pi_desc p)" "ds_flow_pkt_num (?b f) = ds_flow_pkt_num (pi_desc p)" by (simp_all add: SetBiPluginEnable_def desc_set_def)
  have d4': "view d4 = view d2" "ds_per_dir d4 = ds_per_dir d2" "ds_flow_pkt_num d4 = ds_flow_pkt_num d2" "unat (ds_max_flow_pkts d4) = unat (tf_max_pkts f)"
    using d3 d4 by (auto simp: SetMaxPktsPerFlow_def SetMaxFlowTimeout_def Let_def word_less_nat_alt unat_ucast_small intro!: view_flags split: if_splits)
  have g: "GetDirInfo d4 = x" using x(4) unfolding GetDirInfo_def view_fields d4'(1,2) .
  have "GetDirInfo (?b f) = GetDirInfo (pi_desc p)" unfolding GetDirInfo_def keep(1) view_fields vb by simp
  then have xn: "dd_pkt_num x = dd_pkt_num (GetDirInfo (pi_desc p))" "dd_max_flow_pkts x = tf_per_dir f (dir_of p)"
    using x(1) by (auto simp: SetMaxPkts_def ucast_u16 split: if_splits)
  show ?thesis unfolding fo p1 shape_def using g xn d4' x(2,3) vb keep(2) by (simp add: view_fields)
qed

lemma set_all: "set_pkts ft ps = Inr ps1 \<Longrightarrow> list_all2 (\<lambda>p p1. set_pkt ft p = Inr p1) ps ps1"
  by (induction ps arbitrary: ps1) (auto simp: bindE_simps)

lemma mask_as_learn_desc:
  assumes "mask_as_learn p = Inr p1"
  shows "pi_desc p1 = SetLearn True (pi_desc p)" and "pi_flow_key p1 = pi_flow_key p" and "pi_is_ipv6 p1 = pi_is_ipv6 p"
proof -
  have gap: "pi_desc q1 = pi_desc q \<and> pi_flow_key q1 = pi_flow_key q \<and> pi_is_ipv6 q1 = pi_is_ipv6 q" if "open_gap pos n q = Inr q1" for pos n q q1
    using that by (auto simp: open_gap_def Let_def RefreshPointers_def split: if_splits)
  have pad: "pi_desc q1 = pi_desc q \<and> pi_flow_key q1 = pi_flow_key q \<and> pi_is_ipv6 q1 = pi_is_ipv6 q" if "UpdatePacketPadding q = Inr q1" for q q1
    using that by (auto simp: UpdatePacketPadding_def bindE_simps)
  have v6: "pi_desc q1 = pi_desc q \<and> pi_flow_key q1 = pi_flow_key q \<and> pi_is_ipv6 q1 = pi_is_ipv6 q" if "push_ipv6_option_offline n q = Inr (o1, q1)" for n q o1 q1
    using that by (auto simp: push_ipv6_option_offline_def Let_def bindE_simps split: if_splits dest!: gap pad)
  have v4: "pi_desc q1 = pi_desc q \<and> pi_flow_key q1 = pi_flow_key q \<and> pi_is_ipv6 q1 = pi_is_ipv6 q" if "push_ipv4_option_offline n q = Inr (o1, q1)" for n q o1 q1
    using that by (auto simp: push_ipv4_option_offline_def Let_def bindE_simps split: if_splits dest!: gap pad)
  show "pi_desc p1 = SetLearn True (pi_desc p)" "pi_flow_key p1 = pi_flow_key p" "pi_is_ipv6 p1 = pi_is_ipv6 p"
    using assms by (auto simp: mask_as_learn_def bindE_simps split: if_splits dest!: v4 v6)
qed

text \<open>What the receive check reads of a packet.\<close>

definition numbers :: "CPacketIndication \<Rightarrow> nat \<times> CPacketDescriptorPerDir \<times> u16 \<times> bool" where
  "numbers p = (pkt_num p, GetDirInfo (pi_desc p), ds_max_flow_pkts (pi_desc p), IsBiDirectionalFlow (pi_desc p))"

lemma learn_first_keeps:
  assumes "learn_first learn ps = Inr ps1"
  shows "list_all2 (\<lambda>p p1. shape p1 = shape p \<and> numbers p1 = numbers p) ps ps1"
proof (cases ps)
  case Nil
  then show ?thesis using assms by (auto simp: learn_first_def split: if_splits)
next
  case (Cons p qs)
  have learn: "shape p1 = shape p \<and> numbers p1 = numbers p" if "mask_as_learn p = Inr p1" for p1
  proof -
    note d = mask_as_learn_desc [OF that]
    have k: "ds_per_dir (pi_desc p1) = ds_per_dir (pi_desc p)" "ds_flow_pkt_num (pi_desc p1) = ds_flow_pkt_num (pi_desc p)" "ds_max_flow_pkts (pi_desc p1) = ds_max_flow_pkts (pi_desc p)"
      by (simp_all add: d(1) SetLearn_def desc_set_def)
    have v: "view (pi_desc p1) = (view (pi_desc p))\<lparr>dv_learn := True\<rparr>" by (simp add: d(1) view_of_setters)
    show ?thesis unfolding shape_def numbers_def GetDirInfo_def k v view_fields d(2) by simp
  qed
  have refl: "list_all2 (\<lambda>p p1. shape p1 = shape p \<and> numbers p1 = numbers p) xs xs" for xs by (simp add: list_all2_refl)
  show ?thesis using assms learn refl by (auto simp: learn_first_def Cons bindE_simps split: if_splits)
qed

lemma numbered_cong:
  assumes "list_all2 (\<lambda>p p1. shape p1 = shape p \<and> numbers p1 = numbers p) ps ps1" and "template_numbered ps"
  shows "template_numbered ps1"
  unfolding template_numbered_def
proof
  fix q
  assume "q \<in> set ps1"
  then obtain p where p: "p \<in> set ps" "shape q = shape p" "numbers q = numbers p"
    using list_all2_right [OF assms(1)] by blast
  have sub: "map g (sub k d ps1) = map g (sub k d ps)" if "\<And>p q. shape q = shape p \<Longrightarrow> numbers q = numbers p \<Longrightarrow> g q = g p" for g :: "_ \<Rightarrow> nat" and k d
    using sub_pointwise [OF assms(1), of g k d] that by blast
  have len: "length (sub k d ps1) = length (sub k d ps)" for k d using sub [of "\<lambda>_. 0" k d] by (metis length_map)
  have num: "map pkt_num (sub k d ps1) = map pkt_num (sub k d ps)" for k d using sub [of pkt_num k d] by (simp add: numbers_def)
  have e: "sub k d ps1 = [] \<longleftrightarrow> sub k d ps = []" for k d using len [of k d] by auto
  have key: "fid q = fid p" "dir_of q = dir_of p" using shape_eq [OF p(2)] by blast+
  have n: "GetDirInfo (pi_desc q) = GetDirInfo (pi_desc p)" "ds_max_flow_pkts (pi_desc q) = ds_max_flow_pkts (pi_desc p)" "IsBiDirectionalFlow (pi_desc q) = IsBiDirectionalFlow (pi_desc p)"
    using p(3) by (simp_all add: numbers_def)
  have t: "map pkt_num (sub (fid p) (dir_of p) ps) = [0..<length (sub (fid p) (dir_of p) ps)] \<and>
     unat (dd_max_flow_pkts (GetDirInfo (pi_desc p))) = length (sub (fid p) (dir_of p) ps) \<and>
     unat (ds_max_flow_pkts (pi_desc p)) = length (filter (\<lambda>q'. fid q' = fid p) ps) \<and> (IsBiDirectionalFlow (pi_desc p) \<longleftrightarrow> (\<forall>d. sub (fid p) d ps \<noteq> []))"
    using assms(2) p(1) unfolding template_numbered_def by (rule bspec)
  show "map pkt_num (sub (fid q) (dir_of q) ps1) = [0..<length (sub (fid q) (dir_of q) ps1)] \<and>
     unat (dd_max_flow_pkts (GetDirInfo (pi_desc q))) = length (sub (fid q) (dir_of q) ps1) \<and>
     unat (ds_max_flow_pkts (pi_desc q)) = length (filter (\<lambda>q'. fid q' = fid q) ps1) \<and> (IsBiDirectionalFlow (pi_desc q) \<longleftrightarrow> (\<forall>d. sub (fid q) d ps1 \<noteq> []))"
    using t unfolding length_by_dir len num key n e .
qed

lemma set_numbered:
  assumes c: "counted ps ft" and num: "\<And>k d. map pkt_num (sub k d ps1) = [0..<length (sub k d ps)]" and sh: "map shape ps1 = map shape ps"
    and set: "set_pkts ft ps1 = Inr ps2" and nb: "\<forall>p\<in>set ps1. \<not> IsBiDirectionalFlow (pi_desc p)"
  shows "template_numbered ps2"
  unfolding template_numbered_def
proof
  fix q
  assume "q \<in> set ps2"
  note l2 = set_all [OF set]
  obtain p where p: "p \<in> set ps1" "set_pkt ft p = Inr q" using list_all2_right [OF l2 \<open>q \<in> set ps2\<close>] by blast
  note st = set_step [OF p(2)]
  have key: "fid q = fid p" "dir_of q = dir_of p" using shape_eq st by blast+
  have sub1: "map g (sub k d ps2) = map g (sub k d ps1)" if "\<And>p q. set_pkt ft p = Inr q \<Longrightarrow> g q = g p" for g :: "_ \<Rightarrow> nat" and k d
    using sub_pointwise [OF l2, of g k d] set_step that by blast
  have num2: "map pkt_num (sub k d ps2) = [0..<length (sub k d ps)]" for k d using sub1 [of pkt_num k d] set_step num by metis
  then have len: "length (sub k d ps2) = length (sub k d ps)" for k d by (metis length_map length_upt minus_nat.diff_0)
  have cs: "unat (tf_per_dir (flow_of ft k) d) = length (sub k d ps)" "unat (tf_max_pkts (flow_of ft k)) = length (sub k CLIENT_SIDE ps) + length (sub k SERVER_SIDE ps)" for k d
    using c by (simp_all add: counted_def)
  have pos: "0 < tf_per_dir (flow_of ft k) d \<longleftrightarrow> sub k d ps2 \<noteq> []" for k d using cs(1) [of k d] len [of k d] by (auto simp: word_greater_zero_iff unat_eq_0)
  show "map pkt_num (sub (fid q) (dir_of q) ps2) = [0..<length (sub (fid q) (dir_of q) ps2)] \<and>
     unat (dd_max_flow_pkts (GetDirInfo (pi_desc q))) = length (sub (fid q) (dir_of q) ps2) \<and>
     unat (ds_max_flow_pkts (pi_desc q)) = length (filter (\<lambda>q'. fid q' = fid q) ps2) \<and> (IsBiDirectionalFlow (pi_desc q) \<longleftrightarrow> (\<forall>d. sub (fid q) d ps2 \<noteq> []))"
  proof (intro conjI)
    show "map pkt_num (sub (fid q) (dir_of q) ps2) = [0..<length (sub (fid q) (dir_of q) ps2)]" unfolding num2 len ..
    show "unat (dd_max_flow_pkts (GetDirInfo (pi_desc q))) = length (sub (fid q) (dir_of q) ps2)" unfolding len key using st cs(1) by metis
    show "unat (ds_max_flow_pkts (pi_desc q)) = length (filter (\<lambda>q'. fid q' = fid q) ps2)" unfolding length_by_dir len key using st cs(2) by metis
    show "IsBiDirectionalFlow (pi_desc q) \<longleftrightarrow> (\<forall>d. sub (fid q) d ps2 \<noteq> [])" unfolding key pos [symmetric] using st nb p(1) by metis
  qed
qed

text \<open>Numbering as a whole.\<close>

lemma update_info_numbered:
  assumes "update_info learn f = Inr f'" and "\<forall>p\<in>set (cf_pkts f). \<not> IsBiDirectionalFlow (pi_desc p)"
  shows "template_numbered (cf_pkts f')" and "map shape (cf_pkts f') = map shape (cf_pkts f)"
proof -
  obtain ps1 ft ps2 where l: "learn_pkts (cf_pkts f) (0, Map.empty) = Inr (ps1, ft)" and s: "set_pkts ft ps1 = Inr ps2"
    and g: "learn_first learn ps2 = Inr (cf_pkts f')"
    using assms(1) by (auto simp: update_info_def bindE_simps)
  have "counted [] Map.empty" by (simp add: counted_def flow_of_def CTmpFlowInfo_new_def)
  note la = learn_all [OF l this, simplified]
  have v: "map (view \<circ> pi_desc) ps1 = map (view \<circ> pi_desc) (cf_pkts f)" using la by (simp add: comp_def)
  have "(view \<circ> pi_desc) ` set ps1 = (view \<circ> pi_desc) ` set (cf_pkts f)" using arg_cong [OF v, of set] by simp
  then have nb: "\<forall>p\<in>set ps1. \<not> IsBiDirectionalFlow (pi_desc p)" using assms(2) unfolding view_fields by (metis (no_types, lifting) comp_apply image_iff)
  have "template_numbered ps2" by (rule set_numbered [OF _ _ _ s nb, of "cf_pkts f"]) (use la in auto)
  then show "template_numbered (cf_pkts f')" by (rule numbered_cong [OF learn_first_keeps [OF g]])
  have "map shape ps2 = map shape ps1" using set_all [OF s] set_step by (auto simp: list_all2_conv_all_nth intro!: nth_equalityI)
  moreover have "map shape (cf_pkts f') = map shape ps2" using learn_first_keeps [OF g] by (auto simp: list_all2_conv_all_nth intro!: nth_equalityI)
  ultimately show "map shape (cf_pkts f') = map shape (cf_pkts f)" using la by simp
qed

section \<open>What loading leaves\<close>

text \<open>The first packet of a flow that is not yet in the table has number 0 and gets the next flow id.\<close>

abbreviation flows :: "load_state \<Rightarrow> CFlowKey \<rightharpoonup> CFlow" where
  "flows s \<equiv> fm_map (ls_table s)"

definition next_num :: "load_state \<Rightarrow> CFlowKey \<Rightarrow> u32" where
  "next_num s k = (case flows s k of None \<Rightarrow> 0 | Some f \<Rightarrow> fl_pkt_id f)"

definition id_of :: "load_state \<Rightarrow> CFlowKey \<Rightarrow> u32" where
  "id_of s k = (case flows s k of None \<Rightarrow> ucast (ls_total_flows s) | Some f \<Rightarrow> fl_flow_id f)"

text \<open>One packet is added to its flow.\<close>

definition appended :: "CPacketIndication \<Rightarrow> load_state \<Rightarrow> load_state \<Rightarrow> bool" where
  "appended p s s' \<longleftrightarrow> (let k = pi_flow_key p in
     ls_pkts s' = ls_pkts s @ [p] \<and> ls_total_errors s' = ls_total_errors s \<and>
     ls_total_flows s' = ls_total_flows s + (if flows s k = None then 1 else 0) \<and>
     (\<exists>f. flows s' = (flows s)(k \<mapsto> f) \<and> fl_pkt_id f = next_num s k + 1 \<and> fl_flow_id f = id_of s k) \<and>
     ds_flow_pkt_num (pi_desc p) = ucast (next_num s k) \<and> fid p = take_bit 5 (ucast (id_of s k)) \<and> \<not> IsBiDirectionalFlow (pi_desc p))"

lemma free_ttl_desc: "free_ttl pk = Inr pk1 \<Longrightarrow> pi_desc pk1 = pi_desc pk \<and> pi_flow_key pk1 = pi_flow_key pk \<and> pi_cap_ipg pk1 = pi_cap_ipg pk"
  by (auto simp: free_ttl_def setTTL_def bindE_simps split: if_splits)

lemma flow_pkt_Create_desc: "flow_pkt_Create pk = Inr pk1 \<Longrightarrow> pi_desc pk1 = pi_desc pk \<and> pi_flow_key pk1 = pi_flow_key pk \<and> pi_cap_ipg pk1 = pi_cap_ipg pk"
  by (auto simp: flow_pkt_Create_def split: if_splits)

lemma put_pkts: "ls_pkts (put_flow k f s) = ls_pkts s"
  by (simp add: put_flow_def)

lemma append_effect:
  assumes run: "file_Append (on_desc (SetInitSide b) (on_desc (SetFlowId (ucast (id_of s0 k))) pk)) (put_flow k h s1) = Inr s'" and k: "pi_flow_key pk = k"
    and h: "fl_pkt_id h = next_num s0 k + 1" "fl_flow_id h = id_of s0 k"
    and s1: "ls_pkts s1 = ls_pkts s0" "ls_total_errors s1 = ls_total_errors s0" "ls_total_flows s1 = ls_total_flows s0 + (if flows s0 k = None then 1 else 0)"
      "(flows s1)(k \<mapsto> h) = (flows s0)(k \<mapsto> h)"
    and nb: "\<not> dv_both (view (pi_desc pk))" and num: "ds_flow_pkt_num (pi_desc pk) = ucast (next_num s0 k)"
  shows "\<exists>p. appended p s0 s' \<and> pi_cap_ipg p = pi_cap_ipg pk"
proof -
  obtain p where p: "flow_pkt_Create (on_desc (SetInitSide b) (on_desc (SetFlowId (ucast (id_of s0 k))) pk)) = Inr p"
    and s': "s' = (put_flow k h s1)\<lparr>ls_pkts := ls_pkts s0 @ [p]\<rparr>"
    using run unfolding file_Append_def bindE_eq_Inr by (auto simp: put_pkts s1)
  have d: "pi_desc p = SetInitSide b (SetFlowId (ucast (id_of s0 k)) (pi_desc pk))" "pi_flow_key p = k"
    using flow_pkt_Create_desc [OF p] k by (simp_all add: on_desc_def)
  have "ds_flow_pkt_num (pi_desc p) = ucast (next_num s0 k)" using num by (simp add: d SetInitSide_def SetFlowId_def desc_set_def)
  moreover have "fid p = take_bit 5 (ucast (id_of s0 k))" "\<not> IsBiDirectionalFlow (pi_desc p)" using nb by (simp_all add: d view_fields view_of_setters)
  moreover have "flows s' = (flows s0)(k \<mapsto> h)" "ls_total_flows s' = ls_total_flows s1" "ls_total_errors s' = ls_total_errors s1" "ls_pkts s' = ls_pkts s0 @ [p]"
    using s1(4) by (simp_all add: s' put_flow_def)
  ultimately have "appended p s0 s'" unfolding appended_def Let_def d(2) using h s1 by (auto intro: exI [of _ h])
  moreover have "pi_cap_ipg p = pi_cap_ipg pk" using flow_pkt_Create_desc [OF p] by (simp add: on_desc_def)
  ultimately show ?thesis by blast
qed

lemma load_fif_effect:
  assumes run: "load_fif cfg f pk s = Inr s'" and f: "fl_pkt_id f = 1" and nb: "\<not> dv_both (view (pi_desc pk))" and num: "ds_flow_pkt_num (pi_desc pk) = 0"
    and new: "flows s0 (pi_flow_key pk) = None" and tbl: "flows s = (flows s0)(pi_flow_key pk \<mapsto> g)"
    and s0: "ls_pkts s = ls_pkts s0" "ls_total_errors s = ls_total_errors s0" "ls_total_flows s = ls_total_flows s0"
  shows "(\<exists>p. appended p s0 s' \<and> pi_cap_ipg p = pi_cap_ipg pk) \<or> ls_total_errors s' = ls_total_errors s0 + 1"
proof -
  have new': "next_num s0 (pi_flow_key pk) = 0" "id_of s0 (pi_flow_key pk) = ucast (ls_total_flows s0)" using new by (simp_all add: next_num_def id_of_def)
  let ?k = "pi_flow_key pk" and ?pk = "on_desc (SetFlowId (ucast (id_of s0 (pi_flow_key pk)))) pk" and ?f = "f\<lparr>fl_flow_id := ucast (ls_total_flows s0)\<rparr>"
  let ?h = "?f\<lparr>fl_is_fif_swap := of_bool (IsSwapTuple (pi_desc ?pk))\<rparr>"
  consider "ls_total_flows s = 0" | "ls_total_flows s \<noteq> 0" "multi_flow cfg" | "ls_total_flows s \<noteq> 0" "\<not> multi_flow cfg" by blast
  then show ?thesis
  proof cases
    case 1
    then have "file_Append (on_desc (SetInitSide True) ?pk)
        (put_flow ?k ?h (s\<lparr>ls_first_flow := Some ?k, ls_first_swap := IsSwapTuple (pi_desc ?pk), ls_total_flows := ls_total_flows s + 1\<rparr>)) = Inr s'"
      using run s0 by (simp add: load_fif_def Let_def new')
    then show ?thesis by (rule append_effect [THEN disjI1]) (use new' new f tbl s0 nb num in simp_all)
  next
    case 2
    then have "file_Append (on_desc (SetInitSide (of_bool (ls_first_swap s) = fl_is_fif_swap ?h)) ?pk) (put_flow ?k ?h (s\<lparr>ls_total_flows := ls_total_flows s + 1\<rparr>)) = Inr s'"
      using run s0 by (simp add: load_fif_def Let_def new')
    then show ?thesis by (rule append_effect [THEN disjI1]) (use new' new f tbl s0 nb num in simp_all)
  next
    case 3
    then show ?thesis using run s0 by (auto simp: load_fif_def Let_def put_flow_def)
  qed
qed

lemma load_next_effect:
  assumes run: "load_next cfg f pk s = Inr s'" and old: "flows s0 (pi_flow_key pk) = Some f0" "f = f0\<lparr>fl_pkt_id := fl_pkt_id f0 + 1\<rparr>"
    and nb: "\<not> dv_both (view (pi_desc pk))" and num: "ds_flow_pkt_num (pi_desc pk) = ucast (fl_pkt_id f0)"
    and s0: "flows s = flows s0" "ls_pkts s = ls_pkts s0" "ls_total_errors s = ls_total_errors s0" "ls_total_flows s = ls_total_flows s0"
  shows "(\<exists>p. appended p s0 s' \<and> pi_cap_ipg p = pi_cap_ipg pk) \<or> ls_total_errors s' = ls_total_errors s0 + 1"
proof (cases "\<not> multi_flow cfg \<and> ls_first_flow s \<noteq> Some (pi_flow_key pk)")
  case True
  then show ?thesis using run s0 by (auto simp: load_next_def Let_def put_flow_def)
next
  case False
  let ?k = "pi_flow_key pk" and ?pk = "on_desc (SetFlowId (ucast (id_of s0 (pi_flow_key pk)))) pk"
  have old': "next_num s0 ?k = fl_pkt_id f0" "id_of s0 ?k = fl_flow_id f0" using old by (simp_all add: next_num_def id_of_def)
  obtain b where "file_Append (on_desc (SetInitSide b) ?pk) (put_flow ?k f s) = Inr s'"
    using run False old by (auto simp: load_next_def Let_def old' split: if_splits)
  then show ?thesis by (rule append_effect [THEN disjI1]) (use old' old s0 nb num in simp_all)
qed

lemma load_counters: "load_fif cfg f pk s = Inr s' \<Longrightarrow> ls_counters s' = ls_counters s" "load_next cfg f pk s = Inr s' \<Longrightarrow> ls_counters s' = ls_counters s"
  by (auto simp: load_fif_def load_next_def Let_def file_Append_def bindE_simps put_flow_def split: if_splits)

lemma load_packet_effect:
  assumes run: "load_packet cfg junk x s = Inr s'"
  shows "getTotalErrors (ls_counters s') = getTotalErrors (ls_counters s) \<and> ((\<exists>p. appended p s s' \<and> pi_cap_ipg p = fst x) \<or> ls_total_errors s' = ls_total_errors s + 1)"
proof -
  obtain t raw len where x: "x = (t, raw, len)" by (cases x)
  obtain s0 pk cnt where s0: "check_time t s = Inr s0" and pr: "ProcessPacket (lc_ipv6 cfg) ((ls_pk s0)\<lparr>pi_raw := raw, pi_pkt_len := len\<rparr>) (ls_counters s0) = Inr (pk, cnt)"
    and valid: "IsValidPkt (pi_desc pk)" and ld: "load_parsed cfg junk t pk (s0\<lparr>ls_counters := cnt\<rparr>) = Inr s'"
    using run unfolding x load_packet_def prod.case bindE_eq_Inr by (auto split: if_splits)
  have same: "ls_table s0 = ls_table s" "ls_pkts s0 = ls_pkts s" "ls_total_errors s0 = ls_total_errors s" "ls_total_flows s0 = ls_total_flows s" "ls_counters s0 = ls_counters s"
    using s0 by (auto simp: check_time_def split: option.splits if_splits)
  have nb: "\<not> dv_both (view (pi_desc pk))" using parsed_not_both [OF pr valid] by (simp add: view_fields)
  have cnt: "getTotalErrors cnt = getTotalErrors (ls_counters s)" using packet_outcome [OF pr] valid same by simp
  let ?d = "\<lambda>n. (SetFlowPktNum n \<circ> SetId (lc_id cfg) \<circ> SetPluginId (lc_plugin_id cfg) \<circ> SetPluginEnable (multi_flow cfg)) (pi_desc pk)"
  obtain f fif table where fp: "flow_process junk (pi_flow_key pk) (ls_table s) = (f, fif, table)" by (metis prod_cases3)
  obtain pk2 s2 where pk2: "pi_desc pk2 = ?d (fl_pkt_id f)" "pi_flow_key pk2 = pi_flow_key pk" "pi_cap_ipg pk2 = t" and go: "(if fif then load_fif else load_next) cfg (f\<lparr>fl_pkt_id := fl_pkt_id f + 1\<rparr>) pk2 s2 = Inr s'"
    and s2: "ls_table s2 = table" "ls_pkts s2 = ls_pkts s" "ls_total_errors s2 = ls_total_errors s" "ls_total_flows s2 = ls_total_flows s" "ls_counters s2 = cnt"
  proof -
    obtain pk2 where f: "free_ttl (on_desc (\<lambda>_. ?d (fl_pkt_id f)) (pk\<lparr>pi_cap_ipg := t\<rparr>)) = Inr pk2"
      and go: "(if fif then load_fif else load_next) cfg (f\<lparr>fl_pkt_id := fl_pkt_id f + 1\<rparr>) pk2
        ((s0\<lparr>ls_counters := cnt\<rparr>)\<lparr>ls_table := table, ls_total_bytes := ls_total_bytes s0 + ucast (pi_pkt_len pk), ls_pk := pk2\<rparr>) = Inr s'"
      using ld fp same(1) by (auto simp: load_parsed_def Let_def bindE_eq_Inr on_desc_def)
    show thesis by (rule that [OF _ _ _ go]) (use free_ttl_desc [OF f] same in \<open>simp_all add: on_desc_def\<close>)
  qed
  have d: "\<not> dv_both (view (pi_desc pk2))" "ds_flow_pkt_num (pi_desc pk2) = ucast (fl_pkt_id f)"
  proof -
    have v: "view (SetFlowPktNum n d) = view d" "view (SetPluginId i d) = view d" for n i d by (rule view_flags, simp add: SetFlowPktNum_def SetPluginId_def)+
    show "\<not> dv_both (view (pi_desc pk2))" using nb by (simp add: pk2(1) v view_of_setters)
    show "ds_flow_pkt_num (pi_desc pk2) = ucast (fl_pkt_id f)" by (simp add: pk2(1) SetFlowPktNum_def)
  qed
  have "ls_counters s' = cnt" using go s2(5) load_counters by (cases fif) auto
  moreover have "(\<exists>p. appended p s s' \<and> pi_cap_ipg p = pi_cap_ipg pk2) \<or> ls_total_errors s' = ls_total_errors s + 1"
  proof (cases "flows s (pi_flow_key pk)")
    case None
    then have f: "fif" "fl_pkt_id f = 0" "fm_map table = (flows s)(pi_flow_key pk \<mapsto> f)" using fp by (auto simp: flow_process_def Let_def)
    show ?thesis by (rule load_fif_effect [OF go [unfolded if_P [OF f(1)]]]) (use f d s2 pk2 None in simp_all)
  next
    case (Some f0)
    then have f: "\<not> fif" "f = f0" "fm_map table = flows s" using fp by (auto simp: flow_process_def Let_def)
    show ?thesis by (rule load_next_effect [OF go [unfolded if_not_P [OF f(1)]]]) (use f d s2 pk2 Some in simp_all)
  qed
  ultimately show ?thesis using cnt pk2(3) by (simp add: x)
qed

text \<open>The state of a load without errors: flows have distinct ids, and the packets of each flow are numbered from zero.\<close>

definition flow_nums :: "CFlowKey \<Rightarrow> CPacketIndication list \<Rightarrow> nat list" where
  "flow_nums k ps = map (\<lambda>p. unat (ds_flow_pkt_num (pi_desc p))) (filter (\<lambda>p. pi_flow_key p = k) ps)"

definition loaded :: "load_state \<Rightarrow> bool" where
  "loaded s \<longleftrightarrow> (\<forall>k f. flows s k = Some f \<longrightarrow> unat (fl_flow_id f) < unat (ls_total_flows s)) \<and>
     (\<forall>k k' f f'. flows s k = Some f \<longrightarrow> flows s k' = Some f' \<longrightarrow> fl_flow_id f = fl_flow_id f' \<longrightarrow> k = k') \<and>
     (\<forall>p\<in>set (ls_pkts s). flows s (pi_flow_key p) \<noteq> None \<and> fid p = take_bit 5 (ucast (id_of s (pi_flow_key p))) \<and> \<not> IsBiDirectionalFlow (pi_desc p)) \<and>
     (\<forall>k. flow_nums k (ls_pkts s) = [0..<unat (next_num s k)])"

lemma loadedD:
  assumes "loaded s"
  shows "flows s k = Some f \<Longrightarrow> unat (fl_flow_id f) < unat (ls_total_flows s)"
    and "flows s k = Some f \<Longrightarrow> flows s k' = Some f' \<Longrightarrow> fl_flow_id f = fl_flow_id f' \<Longrightarrow> k = k'"
    and "p \<in> set (ls_pkts s) \<Longrightarrow> flows s (pi_flow_key p) \<noteq> None \<and> fid p = take_bit 5 (ucast (id_of s (pi_flow_key p))) \<and> \<not> IsBiDirectionalFlow (pi_desc p)"
    and "flow_nums k (ls_pkts s) = [0..<unat (next_num s k)]"
  using assms unfolding loaded_def by blast+

lemma unat_small: "unat (x :: u32) \<le> n \<Longrightarrow> n < 65535 \<Longrightarrow> unat (x + 1) = Suc (unat x)" "unat (y :: u64) \<le> n \<Longrightarrow> n < 65535 \<Longrightarrow> unat (y + 1) = Suc (unat y)"
    "unat (y :: u64) \<le> n \<Longrightarrow> n < 65535 \<Longrightarrow> unat (ucast y :: u32) = unat y" "unat (x :: u32) \<le> n \<Longrightarrow> n < 65535 \<Longrightarrow> unat (ucast x :: u16) = unat x"
  by (simp_all add: unat_word_ariths unsigned_ucast_eq take_bit_nat_eq_self)

lemma loaded_step:
  assumes l: "loaded s" and a: "appended p s s'" and small: "unat (ls_total_flows s) \<le> n" "\<forall>k. unat (next_num s k) \<le> n" "n < 65535"
  shows "loaded s' \<and> unat (ls_total_flows s') \<le> Suc n \<and> (\<forall>k. unat (next_num s' k) \<le> Suc n)"
proof -
  let ?k = "pi_flow_key p"
  obtain f where s': "ls_pkts s' = ls_pkts s @ [p]" "ls_total_flows s' = ls_total_flows s + (if flows s ?k = None then 1 else 0)" "flows s' = (flows s)(?k \<mapsto> f)"
    and f: "fl_pkt_id f = next_num s ?k + 1" "fl_flow_id f = id_of s ?k" and p: "ds_flow_pkt_num (pi_desc p) = ucast (next_num s ?k)" "fid p = take_bit 5 (ucast (id_of s ?k))" "\<not> IsBiDirectionalFlow (pi_desc p)"
    using a by (auto simp: appended_def Let_def)
  have id: "id_of s' k = id_of s k" if "flows s k \<noteq> None \<or> k = ?k" for k using that f by (auto simp: id_of_def s'(3))
  have nn: "next_num s' k = (if k = ?k then next_num s ?k + 1 else next_num s k)" for k using f by (simp add: next_num_def s'(3))
  have un: "unat (next_num s ?k + 1) = Suc (unat (next_num s ?k))" "unat (ucast (next_num s ?k) :: u16) = unat (next_num s ?k)" using small unat_small by blast+
  have tf: "unat (ls_total_flows s') = unat (ls_total_flows s) + (if flows s ?k = None then 1 else 0)" using small unat_small(2) by (simp add: s'(2))
  have fresh: "unat (id_of s ?k) = unat (ls_total_flows s)" if "flows s ?k = None" using that small unat_small(3) by (simp add: id_of_def)
  have lt: "unat (fl_flow_id g) < unat (ls_total_flows s')" if "flows s' k = Some g" for k g
  proof (cases "k = ?k")
    case True
    then have "fl_flow_id g = id_of s ?k" using that f by (simp add: s'(3))
    then show ?thesis using fresh tf loadedD(1) [OF l, of ?k] by (cases "flows s ?k") (auto simp: id_of_def)
  next
    case False
    then show ?thesis using that loadedD(1) [OF l] tf by (fastforce simp: s'(3))
  qed
  have ne: "id_of s ?k \<noteq> fl_flow_id g" if "flows s k = Some g" "k \<noteq> ?k" for k g
    using that loadedD(1) [OF l that(1)] loadedD(2) [OF l that(1), of ?k] fresh by (cases "flows s ?k") (auto simp: id_of_def)
  have inj: "k = k'" if "flows s' k = Some g" "flows s' k' = Some g'" "fl_flow_id g = fl_flow_id g'" for k k' g g'
    using that f ne loadedD(2) [OF l] by (auto simp: s'(3) split: if_splits) metis+
  have pk: "flows s' (pi_flow_key q) \<noteq> None \<and> fid q = take_bit 5 (ucast (id_of s' (pi_flow_key q))) \<and> \<not> IsBiDirectionalFlow (pi_desc q)" if "q \<in> set (ls_pkts s')" for q
    using that loadedD(3) [OF l, of q] p id [of "pi_flow_key q"] by (auto simp: s'(1,3))
  have num: "flow_nums k (ls_pkts s') = [0..<unat (next_num s' k)]" for k
    using loadedD(4) [OF l] p(1) un by (auto simp: flow_nums_def s'(1) nn)
  have "loaded s'" unfolding loaded_def using lt inj pk num by blast
  moreover have "unat (ls_total_flows s') \<le> Suc n" "\<forall>k. unat (next_num s' k) \<le> Suc n" using tf small(1,2) un(1) by (auto simp: nn intro: le_SucI)
  ultimately show ?thesis by blast
qed

text \<open>The state after the packets \<open>don\<close> of the file.\<close>

definition load_ok :: "(rat \<times> mem \<times> u16) list \<Rightarrow> load_state \<Rightarrow> bool" where
  "load_ok don s \<longleftrightarrow> getTotalErrors (ls_counters s) = 0 \<and> unat (ls_total_errors s) \<le> length don \<and>
     (ls_total_errors s = 0 \<longrightarrow> loaded s \<and> map pi_cap_ipg (ls_pkts s) = map fst don \<and>
       unat (ls_total_flows s) \<le> length don \<and> (\<forall>k. unat (next_num s k) \<le> length don))"

lemma load_ok_step:
  assumes ok: "load_ok don s" and run: "load_packet cfg junk x s = Inr s'" and n: "length don < 65535"
  shows "load_ok (don @ [x]) s'"
proof -
  have e: "unat (ls_total_errors s) \<le> length don" and g: "getTotalErrors (ls_counters s') = 0" using ok load_packet_effect [OF run] by (auto simp: load_ok_def)
  consider p where "appended p s s'" "pi_cap_ipg p = fst x" | "ls_total_errors s' = ls_total_errors s + 1" using load_packet_effect [OF run] by blast
  then show ?thesis
  proof cases
    case 1
    then have "ls_total_errors s' = ls_total_errors s" "ls_pkts s' = ls_pkts s @ [p]" by (simp_all add: appended_def Let_def)
    then show ?thesis using ok loaded_step [OF _ 1(1) _ _ n] g e 1(2) by (auto simp: load_ok_def)
  next
    case 2
    then have "unat (ls_total_errors s') = Suc (unat (ls_total_errors s))" using unat_small(2) [OF e n] by simp
    then show ?thesis using g e by (auto simp: load_ok_def)
  qed
qed

lemma load_ok_fold:
  assumes "foldE (\<lambda>s x. load_packet cfg junk x s) (load_start pk cnt) file = Inr s" and "length file < 65536"
  shows "load_ok file s"
proof -
  have "length file < 65536 \<longrightarrow> load_ok file s"
  proof (rule foldE_prefix_in [OF assms(1), where P = "\<lambda>don s. length don < 65536 \<longrightarrow> load_ok don s"])
    show "length [] < 65536 \<longrightarrow> load_ok [] (load_start pk cnt)"
      by (simp add: load_ok_def load_start_def loaded_def flow_nums_def next_num_def getTotalErrors_def counters_Clear_def)
  next
    fix don x s1 s2
    assume "length don < 65536 \<longrightarrow> load_ok don s1" and run: "load_packet cfg junk x s1 = Inr s2"
    then show "length (don @ [x]) < 65536 \<longrightarrow> load_ok (don @ [x]) s2" using load_ok_step [OF _ run, of don] by simp
  qed
  then show ?thesis using assms(2) by simp
qed

text \<open>The times of the file do not decrease.\<close>

lemma load_sorted:
  assumes "foldE (\<lambda>s x. load_packet cfg junk x s) (load_start pk cnt) file = Inr s"
  shows "sorted (map fst file)"
proof -
  have keep: "ls_last_time s2 = Some (fst x) \<and> (\<forall>t. ls_last_time s1 = Some t \<longrightarrow> t \<le> fst x)" if l: "load_packet cfg junk x s1 = Inr s2" for x s1 s2
  proof -
    obtain t raw len where x: "x = (t, raw, len)" by (cases x)
    obtain s0 pk cnt where s0: "check_time t s1 = Inr s0" and ld: "load_parsed cfg junk t pk (s0\<lparr>ls_counters := cnt\<rparr>) = Inr s2"
      using l unfolding x load_packet_def prod.case bindE_eq_Inr by (auto split: if_splits)
    have t: "ls_last_time s' = ls_last_time s" if "load_fif cfg f pk s = Inr s' \<or> load_next cfg f pk s = Inr s'" for f pk s s'
      using that by (auto simp: load_fif_def load_next_def Let_def file_Append_def bindE_simps put_flow_def split: if_splits)
    have "ls_last_time s2 = ls_last_time s0" using ld t by (fastforce simp: load_parsed_def Let_def bindE_simps split: if_splits prod.splits)
    then show ?thesis using s0 by (auto simp: x check_time_def split: option.splits if_splits)
  qed
  have "sorted (map fst file) \<and> (file \<noteq> [] \<longrightarrow> ls_last_time s = Some (fst (last file)))"
  proof (rule foldE_prefix_in [OF assms, where P = "\<lambda>don s. sorted (map fst don) \<and> (don \<noteq> [] \<longrightarrow> ls_last_time s = Some (fst (last don)))"])
    fix don :: "(rat \<times> mem \<times> u16) list" and x s1 s2
    assume "sorted (map fst don) \<and> (don \<noteq> [] \<longrightarrow> ls_last_time s1 = Some (fst (last don)))" and run: "load_packet cfg junk x s1 = Inr s2"
    then show "sorted (map fst (don @ [x])) \<and> (don @ [x] \<noteq> [] \<longrightarrow> ls_last_time s2 = Some (fst (last (don @ [x]))))"
      using keep [OF run] by (cases don rule: rev_cases) (auto simp: sorted_append)
  qed simp
  then show ?thesis by simp
qed

text \<open>Setting the gaps and marking the last packet change nothing that numbering looks at.\<close>

definition kern :: "CPacketIndication \<Rightarrow> u16 \<times> pkt_dir_t \<times> bool \<times> u16 \<times> CFlowKey" where
  "kern p = (fid p, dir_of p, IsBiDirectionalFlow (pi_desc p), ds_flow_pkt_num (pi_desc p), pi_flow_key p)"

lemma kern_simps: "kern (p\<lparr>pi_cap_ipg := g\<rparr>) = kern p" "kern (on_desc (SetRtt b) p) = kern p" "kern (on_desc (SetIsLastPkt b) p) = kern p"
proof -
  have n: "ds_flow_pkt_num (SetRtt b d) = ds_flow_pkt_num d" "ds_flow_pkt_num (SetIsLastPkt b d) = ds_flow_pkt_num d" for d
    by (simp_all add: SetRtt_def SetIsLastPkt_def desc_set_def)
  show "kern (p\<lparr>pi_cap_ipg := g\<rparr>) = kern p" "kern (on_desc (SetRtt b) p) = kern p" "kern (on_desc (SetIsLastPkt b) p) = kern p"
    by (simp_all add: kern_def on_desc_def n view_fields view_of_setters)
qed

lemma kern_set_gaps: "map kern (set_gaps ps) = map kern ps"
  by (induction ps rule: set_gaps.induct) (auto simp: kern_simps)

lemma length_set_gaps: "length (set_gaps ps) = length ps"
  using arg_cong [OF kern_set_gaps, of length ps] by simp

text \<open>The gaps add up to the time between the first and the last packet.\<close>

lemma gaps_sum:
  assumes "ps \<noteq> []"
  shows "sum_list (map pi_cap_ipg (set_gaps ps)) = pi_cap_ipg (last ps) - pi_cap_ipg (hd ps)"
  using assms by (induction ps rule: set_gaps.induct) (auto simp: on_desc_def)

lemma gaps_nonneg: "sorted (map pi_cap_ipg ps) \<Longrightarrow> p \<in> set (set_gaps ps) \<Longrightarrow> 0 \<le> pi_cap_ipg p"
  by (induction ps rule: set_gaps.induct) (auto simp: on_desc_def)

text \<open>A packet asks for the round-trip time exactly when the next one goes the other way.\<close>

lemma gaps_rtt:
  assumes "\<forall>p\<in>set ps. \<not> IsRtt (pi_desc p)" and "i < length ps"
  shows "IsRtt (pi_desc (set_gaps ps ! i)) \<longleftrightarrow> Suc i < length ps \<and> dir_of (ps ! i) \<noteq> dir_of (ps ! Suc i)"
  using assms
proof (induction ps arbitrary: i rule: set_gaps.induct)
  case (3 p q ps)
  have "IsRtt (SetRtt True d)" for d using view_of_setters(8) [of True d] by (simp add: view_def)
  then show ?case using 3 by (cases i) (auto simp: on_desc_def pkt_dir_def)
qed auto

lemma load_cap_file_state:
  assumes "load_cap_file cfg junk pk cnt file = Inr (True, f)" and "length file < 65536"
  obtains s ps where "load_ok file s" and "sorted (map fst file)" and "ls_total_errors s = 0" and "cf_pkts f = set_gaps ps" and "map kern ps = map kern (ls_pkts s)"
    and "map pi_cap_ipg ps = map fst file" and "ps \<noteq> []" and "cf_total_flows f = ls_total_flows s"
proof -
  obtain s where s: "foldE (\<lambda>s x. load_packet cfg junk x s) (load_start pk cnt) file = Inr s" and e: "load_end s = Inr f" and ok: "cf_total_errors f = 0"
    using assms(1) by (auto simp: load_cap_file_def bindE_simps word_greater_zero_iff)
  have l: "load_ok file s" by (rule load_ok_fold [OF s assms(2)])
  obtain final before where r: "rev (ls_pkts s) = final # before" using e by (auto simp: load_end_def split: list.splits)
  have pk: "ls_pkts s = rev before @ [final]" using arg_cong [OF r, of rev] by simp
  let ?ps = "rev before @ [on_desc (SetIsLastPkt True) final]"
  have f: "cf_pkts f = set_gaps ?ps" "cf_total_flows f = ls_total_flows s" "cf_total_errors f = ls_total_errors s + getTotalErrors (ls_counters s)"
    using e r by (auto simp: load_end_def)
  have err: "ls_total_errors s = 0" using l ok f(3) by (simp add: load_ok_def)
  then have "map pi_cap_ipg (ls_pkts s) = map fst file" using l by (simp add: load_ok_def)
  then have "map pi_cap_ipg ?ps = map fst file" by (simp add: pk on_desc_def)
  moreover have "map kern ?ps = map kern (ls_pkts s)" by (simp add: pk kern_simps)
  ultimately show thesis using that [OF l load_sorted [OF s] err f(1) _ _ _ f(2)] by simp
qed

section \<open>From the template to the receive check\<close>

definition rx_key :: "u64 \<Rightarrow> u16 \<Rightarrow> u64" where
  "rx_key node_flow_id k = node_flow_id OR push_bit 52 (ucast (k AND 0xf))"

lemma ucast_u16_u64: "ucast (ucast (w :: u16) :: u64) = w"
  by (rule bit_word_eqI) (auto simp: bit_ucast_iff)

lemma low_nibble: "(k :: u16) AND 0xf = take_bit 4 k"
  by (simp add: take_bit_eq_mask mask_eq_exp_minus_1)

lemma rx_key_read:
  assumes "take_bit 4 (drop_bit 52 node_flow_id) = 0" and "unat k < 16"
  shows "ucast (take_bit 4 (drop_bit 52 (rx_key node_flow_id k))) = k"
proof -
  have z: "\<not> bit node_flow_id (52 + i)" if "i < 4" for i
    using arg_cong [OF assms(1), of "\<lambda>w. bit w i"] that by (simp add: bit_take_bit_iff bit_drop_bit_eq)
  have "take_bit 4 (drop_bit 52 (rx_key node_flow_id k)) = ucast (take_bit 4 k)"
    by (rule bit_word_eqI) (auto simp: rx_key_def low_nibble bit_take_bit_iff bit_drop_bit_eq bit_or_iff bit_push_bit_iff bit_ucast_iff z)
  moreover have "take_bit 4 k = k" using assms(2) by (simp add: word_unat_eq_iff unsigned_take_bit_eq take_bit_nat_eq_self)
  ultimately show ?thesis by (simp add: ucast_u16_u64)
qed

lemma make_flow_id_room: "take_bit 4 (drop_bit 52 (make_flow_id flow_id thread_id)) = 0"
proof (rule bit_word_eqI)
  fix i
  have "(0x000fffffffffffff :: u64) = mask 52" by (simp add: mask_eq_exp_minus_1)
  then show "bit (take_bit 4 (drop_bit 52 (make_flow_id flow_id thread_id))) i = bit (0 :: u64) i"
    by (simp add: make_flow_id_def bit_take_bit_iff bit_drop_bit_eq bit_or_iff bit_and_iff bit_push_bit_iff bit_mask_iff)
qed

lemma rx_key_inj:
  assumes "take_bit 4 (drop_bit 52 node_flow_id) = 0" and "unat k < 16" and "unat k' < 16"
  shows "rx_key node_flow_id k = rx_key node_flow_id k' \<longleftrightarrow> k = k'"
  using rx_key_read [OF assms(1)] assms(2,3) by metis

lemma dual_header:
  "rx_magic (rxcheck_header False n t nh p) = RX_CHECK_MAGIC" "rx_flow_id (rxcheck_header False n t nh p) = rx_key n (fid p)"
  "rx_pkt_id (rxcheck_header False n t nh p) = dd_pkt_num (GetDirInfo (pi_desc p))" "rx_flow_size (rxcheck_header False n t nh p) = dd_max_flow_pkts (GetDirInfo (pi_desc p))"
  "get_dir (rxcheck_header False n t nh p) = (case dir_of p of CLIENT_SIDE \<Rightarrow> 1 | SERVER_SIDE \<Rightarrow> 0)" "get_both_dir (rxcheck_header False n t nh p) \<longleftrightarrow> IsBiDirectionalFlow (pi_desc p)"
  by (simp_all add: rxcheck_header_def Let_def hdr_set_both_dir_def set_dir_def rx_key_def get_dir_def get_both_dir_def pkt_dir_def btGet_Set_same btGet_Set_other)

lemma single_header:
  "rx_magic (rxcheck_header True n t nh p) = RX_CHECK_MAGIC" "rx_flow_id (rxcheck_header True n t nh p) = rx_key n (fid p)"
  "rx_pkt_id (rxcheck_header True n t nh p) = ds_flow_pkt_num (pi_desc p)" "rx_flow_size (rxcheck_header True n t nh p) = ds_max_flow_pkts (pi_desc p)"
  "get_dir (rxcheck_header True n t nh p) = 0" "\<not> get_both_dir (rxcheck_header True n t nh p)"
  by (simp_all add: rxcheck_header_def Let_def rx_key_def get_dir_def get_both_dir_def getFlowPktNum_def ucast_u16 btGetMaskBit_def btGetMaskBitBigE_def)

lemma filter_pointwise:
  assumes "list_all2 R ps hs" and "\<And>p h. p \<in> set ps \<Longrightarrow> R p h \<Longrightarrow> Q h \<longleftrightarrow> P p" and "\<And>p h. R p h \<Longrightarrow> g h = f p"
  shows "map g (filter Q hs) = map f (filter P ps)"
  using assms by (induction rule: list_all2_induct) auto

definition header_of :: "bool \<Rightarrow> u64 \<Rightarrow> CPacketIndication \<Rightarrow> CRx_check_header \<Rightarrow> bool" where
  "header_of single_port node_flow_id p h \<longleftrightarrow> (\<exists>tick next_hdr. h = rxcheck_header single_port node_flow_id tick next_hdr p)"

definition rx_dir :: "pkt_dir_t \<Rightarrow> nat" where
  "rx_dir d = (case d of CLIENT_SIDE \<Rightarrow> 1 | SERVER_SIDE \<Rightarrow> 0)"

lemma rx_dir_inj: "rx_dir d = rx_dir d' \<longleftrightarrow> d = d'"
  by (cases d; cases d') (simp_all add: rx_dir_def)

lemma dual_clean:
  assumes num: "template_numbered ps" and hs: "list_all2 (header_of False n) ps hs" and key: "take_bit 4 (drop_bit 52 n) = 0" and small: "\<forall>p\<in>set ps. unat (fid p) < 16"
  shows "clean_trace hs"
  unfolding clean_trace_def Let_def
proof
  fix h
  assume "h \<in> set hs"
  then obtain p where p: "p \<in> set ps" "header_of False n p h" using list_all2_right [OF hs] by blast
  have along: "map (\<lambda>g. unat (rx_pkt_id g)) (along (rx_key n k) (rx_dir d) hs) = map pkt_num (sub k d ps)" if k: "unat k < 16" for k d
    unfolding along_def sub_def
  proof (rule filter_pointwise [OF hs])
    fix q g
    assume q: "q \<in> set ps" "header_of False n q g"
    then show "rx_flow_id g = rx_key n k \<and> get_dir g = rx_dir d \<longleftrightarrow> fid q = k \<and> dir_of q = d"
      using rx_key_inj [OF key _ k] small rx_dir_inj by (auto simp: header_of_def dual_header simp flip: rx_dir_def)
  qed (auto simp: header_of_def dual_header)
  have len: "length (along (rx_key n k) (rx_dir d) hs) = length (sub k d ps)" if "unat k < 16" for k d using along [OF that] by (metis length_map)
  have k: "unat (fid p) < 16" using small p(1) by blast
  have f: "rx_magic h = RX_CHECK_MAGIC" "rx_flow_id h = rx_key n (fid p)" "get_dir h = rx_dir (dir_of p)" "rx_flow_size h = dd_max_flow_pkts (GetDirInfo (pi_desc p))"
    "get_both_dir h \<longleftrightarrow> IsBiDirectionalFlow (pi_desc p)" using p(2) by (auto simp: header_of_def dual_header rx_dir_def)
  have t: "map pkt_num (sub (fid p) (dir_of p) ps) = [0..<length (sub (fid p) (dir_of p) ps)]" "unat (dd_max_flow_pkts (GetDirInfo (pi_desc p))) = length (sub (fid p) (dir_of p) ps)"
    "IsBiDirectionalFlow (pi_desc p) \<longleftrightarrow> (\<forall>d. sub (fid p) d ps \<noteq> [])" using num p(1) unfolding template_numbered_def by blast+
  have self: "sub (fid p) (dir_of p) ps \<noteq> []" using p(1) by (auto simp: sub_def filter_empty_conv)
  have "along (rx_key n (fid p)) (1 - rx_dir (dir_of p)) hs \<noteq> [] \<longleftrightarrow> (\<forall>d. sub (fid p) d ps \<noteq> [])"
  proof (cases "dir_of p")
    case CLIENT_SIDE
    then show ?thesis using len [OF k, of SERVER_SIDE] self by (auto simp: all_dirs rx_dir_def)
  next
    case SERVER_SIDE
    then show ?thesis using len [OF k, of CLIENT_SIDE] self by (auto simp: all_dirs rx_dir_def)
  qed
  then show "rx_magic h = RX_CHECK_MAGIC \<and>
      (map (\<lambda>g. unat (rx_pkt_id g)) (along (rx_flow_id h) (get_dir h) hs) = [0..<length (along (rx_flow_id h) (get_dir h) hs)] \<and>
       unat (rx_flow_size h) = length (along (rx_flow_id h) (get_dir h) hs)) \<and> (get_both_dir h \<longleftrightarrow> along (rx_flow_id h) (1 - get_dir h) hs \<noteq> [])"
    unfolding f using along [OF k] len [OF k] t by simp
qed

lemma single_clean:
  assumes num: "template_numbered ps" and hs: "list_all2 (header_of True n) ps hs" and key: "take_bit 4 (drop_bit 52 n) = 0" and small: "\<forall>p\<in>set ps. unat (fid p) < 16"
    and ids: "\<forall>p\<in>set ps. \<forall>q\<in>set ps. fid p = fid q \<longleftrightarrow> pi_flow_key p = pi_flow_key q" and nums: "\<And>k. flow_nums k ps = [0..<length (filter (\<lambda>p. pi_flow_key p = k) ps)]"
  shows "clean_trace hs"
  unfolding clean_trace_def Let_def
proof
  fix h
  assume "h \<in> set hs"
  then obtain p where p: "p \<in> set ps" "header_of True n p h" using list_all2_right [OF hs] by blast
  have k: "unat (fid p) < 16" using small p(1) by blast
  have f: "rx_magic h = RX_CHECK_MAGIC" "rx_flow_id h = rx_key n (fid p)" "get_dir h = 0" "rx_flow_size h = ds_max_flow_pkts (pi_desc p)" "\<not> get_both_dir h"
    using p(2) by (auto simp: header_of_def single_header)
  have "map (\<lambda>g. unat (rx_pkt_id g)) (along (rx_key n (fid p)) 0 hs) = map (\<lambda>q. unat (ds_flow_pkt_num (pi_desc q))) (filter (\<lambda>q. pi_flow_key q = pi_flow_key p) ps)"
    unfolding along_def
  proof (rule filter_pointwise [OF hs])
    fix q g
    assume q: "q \<in> set ps" "header_of True n q g"
    then show "rx_flow_id g = rx_key n (fid p) \<and> get_dir g = 0 \<longleftrightarrow> pi_flow_key q = pi_flow_key p"
      using rx_key_inj [OF key _ k] small ids p(1) by (auto simp: header_of_def single_header)
  qed (auto simp: header_of_def single_header)
  then have along: "map (\<lambda>g. unat (rx_pkt_id g)) (along (rx_key n (fid p)) 0 hs) = [0..<length (filter (\<lambda>q. pi_flow_key q = pi_flow_key p) ps)]"
    using nums by (simp add: flow_nums_def)
  then have len: "length (along (rx_key n (fid p)) 0 hs) = length (filter (\<lambda>q. pi_flow_key q = pi_flow_key p) ps)" by (metis length_map length_upt minus_nat.diff_0)
  have "filter (\<lambda>q. pi_flow_key q = pi_flow_key p) ps = filter (\<lambda>q. fid q = fid p) ps" using ids p(1) by (auto intro: filter_cong)
  then have size: "unat (ds_max_flow_pkts (pi_desc p)) = length (filter (\<lambda>q. pi_flow_key q = pi_flow_key p) ps)" using num p(1) unfolding template_numbered_def by simp
  have "get_dir g = 0" if "g \<in> set hs" for g using list_all2_right [OF hs that] by (auto simp: header_of_def single_header)
  then have "along (rx_key n (fid p)) 1 hs = []" by (auto simp: along_def filter_empty_conv)
  then show "rx_magic h = RX_CHECK_MAGIC \<and>
      (map (\<lambda>g. unat (rx_pkt_id g)) (along (rx_flow_id h) (get_dir h) hs) = [0..<length (along (rx_flow_id h) (get_dir h) hs)] \<and>
       unat (rx_flow_size h) = length (along (rx_flow_id h) (get_dir h) hs)) \<and> (get_both_dir h \<longleftrightarrow> along (rx_flow_id h) (1 - get_dir h) hs \<noteq> [])"
    unfolding f using along len size f(5) by simp
qed

text \<open>What a loaded and numbered template keeps of the state of the loader.\<close>

definition tag :: "CPacketIndication \<Rightarrow> u16 \<times> u16 \<times> CFlowKey" where
  "tag p = (fid p, ds_flow_pkt_num (pi_desc p), pi_flow_key p)"

lemma flow_nums_tag: "flow_nums k ps = map (\<lambda>(_, n, _). unat n) (filter (\<lambda>(_, _, k'). k' = k) (map tag ps))"
  by (induction ps) (auto simp: flow_nums_def tag_def)

lemma map_tag_shape: "map shape ps = map shape qs \<Longrightarrow> map tag ps = map tag qs"
proof (induction ps qs rule: list_induct2')
  case (4 p ps q qs)
  then have "shape p = shape q" "map tag ps = map tag qs" by simp_all
  moreover from this(1) have "fid p = fid q" "ds_flow_pkt_num (pi_desc p) = ds_flow_pkt_num (pi_desc q)" "pi_flow_key p = pi_flow_key q"
    using shape_eq unfolding shape_def prod.inject by blast+
  ultimately show ?case by (simp add: tag_def [of p] tag_def [of q])
qed simp_all

lemma map_tag_kern: "map kern ps = map kern qs \<Longrightarrow> map tag ps = map tag qs"
  by (induction ps qs rule: list_induct2') (auto simp: kern_def tag_def)

lemma loaded_ids:
  assumes l: "loaded s" and fl: "unat (ls_total_flows s) \<le> 16" and p: "p \<in> set (ls_pkts s)"
  shows "unat (fid p) < 16 \<and> (\<forall>q\<in>set (ls_pkts s). fid p = fid q \<longleftrightarrow> pi_flow_key p = pi_flow_key q)"
proof -
  have id: "\<exists>f. flows s (pi_flow_key q) = Some f \<and> unat (fl_flow_id f) < 16 \<and> unat (fid q) = unat (fl_flow_id f)" if q: "q \<in> set (ls_pkts s)" for q
  proof -
    obtain f where f: "flows s (pi_flow_key q) = Some f" "fid q = take_bit 5 (ucast (fl_flow_id f))" using loadedD(3) [OF l q] by (auto simp: id_of_def)
    have lt: "unat (fl_flow_id f) < 16" using loadedD(1) [OF l f(1)] fl by simp
    then have "unat (fid q) = unat (fl_flow_id f)" by (simp add: f(2) unsigned_take_bit_eq unsigned_ucast_eq take_bit_nat_eq_self)
    then show ?thesis using f(1) lt by blast
  qed
  obtain f where f: "flows s (pi_flow_key p) = Some f" "unat (fl_flow_id f) < 16" "unat (fid p) = unat (fl_flow_id f)" using id [OF p] by blast
  have "fid p = fid q \<longleftrightarrow> pi_flow_key p = pi_flow_key q" if q: "q \<in> set (ls_pkts s)" for q
  proof -
    obtain g where g: "flows s (pi_flow_key q) = Some g" "unat (fid q) = unat (fl_flow_id g)" using id [OF q] by blast
    show ?thesis
    proof
      assume "fid p = fid q"
      then have "fl_flow_id f = fl_flow_id g" using f(3) g(2) by (simp add: word_unat_eq_iff)
      then show "pi_flow_key p = pi_flow_key q" by (rule loadedD(2) [OF l f(1) g(1)])
    next
      assume "pi_flow_key p = pi_flow_key q"
      then show "fid p = fid q" using f g by (simp add: word_unat_eq_iff)
    qed
  qed
  then show ?thesis using f by simp
qed

lemma loaded_numbered:
  assumes load: "load_cap_file cfg junk pk cnt file = Inr (ok, f)" "ok" "length file < 65536" and upd: "update_info learn f = Inr f'"
  obtains s where "loaded s" and "cf_total_flows f = ls_total_flows s" and "template_numbered (cf_pkts f')" and "map tag (cf_pkts f') = map tag (ls_pkts s)"
    and "map shape (cf_pkts f') = map shape (cf_pkts f)"
proof -
  obtain s ps where l: "load_ok file s" "ls_total_errors s = 0" and ps: "cf_pkts f = set_gaps ps" "map kern ps = map kern (ls_pkts s)" "cf_total_flows f = ls_total_flows s"
    using load_cap_file_state [OF _ load(3)] load(1,2) by metis
  have lo: "loaded s" using l by (simp add: load_ok_def)
  have kern: "map kern (cf_pkts f) = map kern (ls_pkts s)" using ps kern_set_gaps by simp
  have nb: "\<not> IsBiDirectionalFlow (pi_desc p)" if "p \<in> set (cf_pkts f)" for p
  proof -
    have "kern p \<in> kern ` set (ls_pkts s)" using arg_cong [OF kern, of set] that by auto
    then obtain q where "q \<in> set (ls_pkts s)" "kern p = kern q" by blast
    then show ?thesis using loadedD(3) [OF lo] by (auto simp: kern_def)
  qed
  note u = update_info_numbered [OF upd, OF ballI, OF nb]
  have "map tag (cf_pkts f') = map tag (ls_pkts s)" using map_tag_shape [OF u(2)] map_tag_kern [OF kern] by simp
  then show thesis using that [OF lo ps(3) u(1) _ u(2)] by simp
qed

lemma template_clean:
  assumes load: "load_cap_file cfg junk pk cnt file = Inr (ok, f)" "ok" "length file < 65536" and fl: "cf_total_flows f \<le> 16"
    and upd: "update_info learn f = Inr f'" and key: "take_bit 4 (drop_bit 52 n) = 0" and hs: "list_all2 (header_of single_port n) (cf_pkts f') hs"
  shows "clean_trace hs"
proof -
  obtain s where lo: "loaded s" and tf: "cf_total_flows f = ls_total_flows s" and num: "template_numbered (cf_pkts f')" and tag: "map tag (cf_pkts f') = map tag (ls_pkts s)"
    by (rule loaded_numbered [OF load upd])
  have mem: "\<exists>q\<in>set (ls_pkts s). tag p = tag q" if "p \<in> set (cf_pkts f')" for p
    using arg_cong [OF tag, of set] that by auto
  have fl': "unat (ls_total_flows s) \<le> 16" using fl by (simp add: tf word_le_nat_alt)
  have small: "\<forall>p\<in>set (cf_pkts f'). unat (fid p) < 16" using mem loaded_ids [OF lo fl'] by (force simp: tag_def)
  have ids: "\<forall>p\<in>set (cf_pkts f'). \<forall>q\<in>set (cf_pkts f'). fid p = fid q \<longleftrightarrow> pi_flow_key p = pi_flow_key q"
    using mem loaded_ids [OF lo fl'] unfolding tag_def by (metis prod.inject)
  have nums: "flow_nums k (cf_pkts f') = [0..<length (filter (\<lambda>p. pi_flow_key p = k) (cf_pkts f'))]" for k
  proof -
    have "flow_nums k (cf_pkts f') = [0..<unat (next_num s k)]" using loadedD(4) [OF lo, of k] unfolding flow_nums_tag tag .
    moreover have "length (flow_nums k (cf_pkts f')) = length (filter (\<lambda>p. pi_flow_key p = k) (cf_pkts f'))" by (simp add: flow_nums_def)
    ultimately show ?thesis by simp
  qed
  show ?thesis using single_clean [OF num _ key small ids nums] dual_clean [OF num _ key small] hs by (cases single_port) simp_all
qed

section \<open>Numbering never fails\<close>

definition ages :: "(u16 \<rightharpoonup> CTmpFlowInfo) \<Rightarrow> bool" where
  "ages ft \<longleftrightarrow> (\<forall>k f. ft k = Some f \<longrightarrow> 0 \<le> tf_max_aging_sec f)"

lemma length_sub_le: "length (sub k d ps) \<le> length ps"
  by (simp add: sub_def)

lemma learn_pkt_total:
  assumes c: "counted ps ft" and len: "length ps < 65000" and "ages ft"
  shows "\<exists>p1 ct1 ft1. learn_pkt p (ct, ft) = Inr (p1, ct1, ft1) \<and> ages ft1 \<and> dom ft1 = insert (fid p) (dom ft)"
proof -
  let ?f = "flow_of ft (fid p)"
  have "unat (tf_per_dir ?f (dir_of p)) < 65000" using c len length_sub_le [of "fid p" "dir_of p" ps] by (simp add: counted_def)
  then have "\<exists>x. SetPktNum (ucast (tf_per_dir ?f (dir_of p))) (GetDirInfo (pi_desc p)) = Some x" by (simp add: SetPktNum_def word_less_nat_alt ucast_u16)
  moreover have "0 \<le> tf_max_aging_sec ?f" using assms(3) by (auto simp: ages_def flow_of_def CTmpFlowInfo_new_def split: option.splits)
  ultimately show ?thesis
    using assms(3) by (auto simp: learn_pkt_def Let_def on_dir_info_def flow_of_def [symmetric] ages_def)
qed

lemma learn_total:
  assumes "counted ps ft" and "length ps + length qs < 65001" and "ages ft"
  shows "\<exists>qs1 ft1. learn_pkts qs (ct, ft) = Inr (qs1, ft1) \<and> ages ft1 \<and> fid ` set qs \<subseteq> dom ft1 \<and> dom ft \<subseteq> dom ft1"
  using assms
proof (induction qs arbitrary: ps ct ft)
  case (Cons q qs)
  obtain q1 ct1 ft1 where q: "learn_pkt q (ct, ft) = Inr (q1, ct1, ft1)" "ages ft1" "dom ft1 = insert (fid q) (dom ft)"
    using learn_pkt_total [OF Cons.prems(1) _ Cons.prems(3), of q ct] Cons.prems(2) by auto
  obtain qs1 ft2 where r: "learn_pkts qs (ct1, ft1) = Inr (qs1, ft2)" "ages ft2" "fid ` set qs \<subseteq> dom ft2" "dom ft1 \<subseteq> dom ft2"
    using Cons.IH [OF learn_step(1) [OF q(1) Cons.prems(1)] _ q(2), of ct1] Cons.prems(2) by auto
  show ?case using q(1,3) r by auto
qed simp

lemma set_pkt_total:
  assumes "ft (fid p) = Some f" and "unat (tf_per_dir f (dir_of p)) < 65000" and "unat (tf_max_pkts f) < 65000" and "0 \<le> tf_max_aging_sec f"
  shows "\<exists>p1. set_pkt ft p = Inr p1"
proof -
  have "\<exists>x. SetMaxPkts (ucast (tf_per_dir f (dir_of p))) y = Some x" for y using assms(2) by (simp add: SetMaxPkts_def word_less_nat_alt ucast_u16)
  then have "\<exists>d1. on_dir_info (SetMaxPkts (ucast (tf_per_dir f (dir_of p)))) d = Inr d1" for d by (metis bindE_Inr liftE_Some on_dir_info_def)
  moreover have "\<exists>d1. SetMaxPktsPerFlow (tf_max_pkts f) d = Some d1" for d using assms(3) by (simp add: SetMaxPktsPerFlow_def word_less_nat_alt)
  moreover have "\<exists>d1. SetMaxFlowTimeout (tf_max_aging_sec f) d = Some d1" for d using assms(4) by (simp add: SetMaxFlowTimeout_def Let_def)
  ultimately show ?thesis unfolding set_pkt_def Let_def assms(1) liftE_Some bindE_Inr by (metis (no_types, lifting) bindE_Inr liftE_Some)
qed

lemma set_total: "(\<And>p. p \<in> set ps \<Longrightarrow> \<exists>p1. set_pkt ft p = Inr p1) \<Longrightarrow> \<exists>ps1. set_pkts ft ps = Inr ps1"
  by (induction ps) (fastforce simp: bindE_eq_Inr)+

lemma update_info_total:
  assumes "length (cf_pkts f) < 65000"
  shows "\<exists>f'. update_info False f = Inr f'"
proof -
  have c: "counted [] Map.empty" by (simp add: counted_def flow_of_def CTmpFlowInfo_new_def)
  obtain ps1 ft where l: "learn_pkts (cf_pkts f) (0, Map.empty) = Inr (ps1, ft)" "ages ft" "fid ` set (cf_pkts f) \<subseteq> dom ft"
    using learn_total [OF c, of "cf_pkts f" 0] assms by (auto simp: ages_def)
  note la = learn_all [OF l(1) c]
  have "\<exists>p1. set_pkt ft p = Inr p1" if p: "p \<in> set ps1" for p
  proof -
    have "shape ` set ps1 = shape ` set (cf_pkts f)" using la by (metis list.set_map)
    then have "shape p \<in> shape ` set (cf_pkts f)" using p by blast
    then have "fid p \<in> fid ` set (cf_pkts f)" using shape_eq by blast
    then obtain g where g: "ft (fid p) = Some g" using l(3) by blast
    then have fo: "flow_of ft (fid p) = g" by (simp add: flow_of_def)
    have n: "unat (tf_per_dir g d) = length (sub (fid p) d (cf_pkts f))" "unat (tf_max_pkts g) = length (filter (\<lambda>q. fid q = fid p) (cf_pkts f))" for d
      using la unfolding counted_def length_by_dir by (auto simp flip: fo)
    have "length (sub (fid p) (dir_of p) (cf_pkts f)) < 65000" "length (filter (\<lambda>q. fid q = fid p) (cf_pkts f)) < 65000"
      using assms length_sub_le le_less_trans length_filter_le by blast+
    then show ?thesis using set_pkt_total [of ft p g] n l(2) g by (simp add: ages_def)
  qed
  then obtain ps2 where "set_pkts ft ps1 = Inr ps2" using set_total by blast
  then show ?thesis using l(1) by (simp add: update_info_def learn_first_def)
qed

section \<open>A file that loads\<close>

lemma load_udp:
  assumes reads: "udp_reads raw src dst sport dport" and len: "60 \<le> length raw" and v4: "\<not> i6_enable (lc_ipv6 cfg)" and multi: "multi_flow cfg"
    and t: "\<forall>t0. ls_last_time s = Some t0 \<longrightarrow> t0 \<le> t"
  shows "\<exists>s'. load_packet cfg junk (t, raw, 62) s = Inr s' \<and> ls_total_errors s' = ls_total_errors s \<and> ls_last_time s' = Some t"
proof -
  let ?s = "s\<lparr>ls_last_time := Some t\<rparr>"
  have s0: "check_time t s = Inr ?s" using t by (auto simp: check_time_def split: option.splits)
  obtain pk cnt where pr: "ProcessPacket (lc_ipv6 cfg) ((ls_pk ?s)\<lparr>pi_raw := raw, pi_pkt_len := 62\<rparr>) (ls_counters ?s) = Inr (pk, cnt)" and valid: "IsValidPkt (pi_desc pk)"
    and pk: "pi_raw pk = raw" "pi_l3 pk = 14" "\<not> pi_is_ipv6 pk" "pi_pkt_len pk = 60"
    by (rule udp_parsed [of "(ls_pk ?s)\<lparr>pi_raw := raw, pi_pkt_len := 62\<rparr>" src dst sport dport "lc_ipv6 cfg"]) (use reads v4 in simp_all)
  have ttl: "free_ttl q = Inr q" if "pi_raw q = raw" "pi_l3 q = 14" "\<not> pi_is_ipv6 q" for q
    using that reads by (simp add: free_ttl_def getTTL_def udp_reads_def TTL_RESERVE_DUPLICATE_def)
  have mk: "flow_pkt_Create q = Inr (q\<lparr>pi_raw := take 60 raw\<rparr>)" if "pi_raw q = raw" "pi_pkt_len q = 60" for q using that len by (simp add: flow_pkt_Create_def MAX_PKT_SIZE_def)
  have load: "\<exists>z'. (if b then load_fif else load_next) cfg g q z = Inr z' \<and> ls_total_errors z' = ls_total_errors z \<and> ls_last_time z' = ls_last_time z"
    if q: "pi_raw q = raw" "pi_pkt_len q = 60" for q g z b
    using multi by (auto simp: load_fif_def load_next_def Let_def file_Append_def on_desc_def put_flow_def mk q)
  obtain f fif table where fp: "flow_process junk (pi_flow_key pk) (ls_table s) = (f, fif, table)" by (metis prod_cases3)
  let ?pk = "on_desc (SetFlowPktNum (fl_pkt_id f) \<circ> SetId (lc_id cfg) \<circ> SetPluginId (lc_plugin_id cfg) \<circ> SetPluginEnable (multi_flow cfg)) (pk\<lparr>pi_cap_ipg := t\<rparr>)"
  have q: "pi_raw ?pk = raw" "pi_l3 ?pk = 14" "\<not> pi_is_ipv6 ?pk" "pi_pkt_len ?pk = 60" using pk by (simp_all add: on_desc_def)
  show ?thesis
    using load [OF q(1,4), of fif "f\<lparr>fl_pkt_id := fl_pkt_id f + 1\<rparr>" "?s\<lparr>ls_counters := cnt, ls_table := table, ls_total_bytes := ls_total_bytes s + ucast (pi_pkt_len pk), ls_pk := ?pk\<rparr>"] s0 pr valid fp ttl [OF q(1-3)]
    by (simp add: load_packet_def load_parsed_def Let_def)
qed

definition demo_load_cfg :: load_cfg where
  "demo_load_cfg = \<lparr>lc_ipv6 = demo_ipv6_cfg, lc_id = 3, lc_plugin_id = 1\<rparr>"

definition demo_file :: "(rat \<times> mem \<times> u16) list" where
  "demo_file = [(0, pi_raw (demo_udp 1 2 5 7), 62), (1 / 2, pi_raw (demo_udp 2 1 7 5), 62)]"

lemma demo_loads:
  obtains f where "load_cap_file demo_load_cfg 0 (demo_udp 1 2 5 7) (\<lambda>_. 0) demo_file = Inr (True, f)" and "cf_total_flows f \<le> 16" and "length (cf_pkts f) = 2"
proof -
  let ?s = "load_start (demo_udp 1 2 5 7) (\<lambda>_. 0)" and ?l = "load_packet demo_load_cfg 0"
  have cfg: "\<not> i6_enable (lc_ipv6 demo_load_cfg)" "multi_flow demo_load_cfg" by (simp_all add: demo_load_cfg_def multi_flow_def demo_ipv6_cfg_def)
  have len: "60 \<le> length (pi_raw (demo_udp a b c d))" for a b c d by (simp add: demo_udp_def)
  obtain s1 where s1: "?l (0, pi_raw (demo_udp 1 2 5 7), 62) ?s = Inr s1" "ls_total_errors s1 = 0" "ls_last_time s1 = Some 0"
    using load_udp [OF demo_reads(1) len cfg, of ?s 0 0] by (auto simp: load_start_def)
  obtain s2 where s2: "?l (1 / 2, pi_raw (demo_udp 2 1 7 5), 62) s1 = Inr s2" "ls_total_errors s2 = 0"
    using load_udp [OF demo_reads(3) len cfg, of s1 "1 / 2" 0] s1 by auto
  have fold: "foldE (\<lambda>s x. ?l x s) ?s demo_file = Inr s2" using s1 s2 by (simp add: demo_file_def)
  then have ok: "load_ok demo_file s2" by (rule load_ok_fold) (simp add: demo_file_def)
  then have "length (ls_pkts s2) = 2" and fl: "unat (ls_total_flows s2) \<le> 2" using s2(2) by (auto simp: load_ok_def demo_file_def dest: arg_cong [of _ _ length])
  then obtain a b where ab: "ls_pkts s2 = [a, b]" by (auto simp: numeral_2_eq_2 length_Suc_conv)
  obtain f where f: "load_end s2 = Inr f" "cf_total_errors f = 0" "cf_total_flows f = ls_total_flows s2" "length (cf_pkts f) = 2"
    using s2(2) ok by (simp add: load_end_def load_ok_def length_set_gaps ab del: set_gaps.simps)
  have "load_cap_file demo_load_cfg 0 (demo_udp 1 2 5 7) (\<lambda>_. 0) demo_file = Inr (True, f)" using fold f by (simp add: load_cap_file_def)
  then show thesis using that f(3,4) fl by (simp add: word_le_nat_alt)
qed

section \<open>Properties\<close>



text \<open>
  C40.  The template keeps the timing of the file: a file that loads has packets in the order of time, the template has one packet for each, no gap between two packets is
  negative, and the gaps add up to the time between the first and the last packet.
\<close>

theorem template_timing:
  assumes "load_cap_file cfg junk pk cnt file = Inr (ok, f)" and "ok" and "length file < 65536"
  shows "file \<noteq> [] \<and> sorted (map fst file) \<and> length (cf_pkts f) = length file \<and> (\<forall>p\<in>set (cf_pkts f). 0 \<le> pi_cap_ipg p) \<and>
    get_cap_file_length_sec f = fst (last file) - fst (hd file)"
proof -
  obtain ps where ps: "sorted (map fst file)" "cf_pkts f = set_gaps ps" "map pi_cap_ipg ps = map fst file" "ps \<noteq> []"
    using load_cap_file_state [OF _ assms(3)] assms(1,2) by metis
  have "file \<noteq> []" and len: "length ps = length file" using ps(3,4) by (auto dest: arg_cong [of _ _ length])
  moreover have "get_cap_file_length_sec f = last (map pi_cap_ipg ps) - hd (map pi_cap_ipg ps)"
    using gaps_sum [OF ps(4)] ps(4) by (simp add: get_cap_file_length_sec_def ps(2) last_map hd_map)
  ultimately show ?thesis using ps gaps_nonneg [of ps] by (simp add: length_set_gaps last_map hd_map)
qed

theorem template_timing_witness:
  "\<exists>f. load_cap_file demo_load_cfg 0 (demo_udp 1 2 5 7) (\<lambda>_. 0) demo_file = Inr (True, f) \<and> get_cap_file_length_sec f = 1 / 2"
proof -
  obtain f where f: "load_cap_file demo_load_cfg 0 (demo_udp 1 2 5 7) (\<lambda>_. 0) demo_file = Inr (True, f)" by (rule demo_loads)
  have "length demo_file < 65536" by (simp add: demo_file_def)
  from template_timing [OF f TrueI this] f show ?thesis by (auto simp: demo_file_def)
qed

text \<open>
  C13.  What the generator sends, the receive check accepts: when a template with at most 16 flows is loaded and numbered and its packets are sent once, with the headers filled
  in from their descriptors, for one port or for two, then a new receive check that gets them in order within five seconds counts no error and ends with
  an empty table.
\<close>

theorem template_replay_accepted:
  assumes "load_cap_file cfg junk pk cnt file = Inr (ok, f)" and "ok" and "length file < 65536" and "cf_total_flows f \<le> 16"
    and "update_info learn f = Inr f'" and "list_all2 (header_of single_port (make_flow_id flow_id thread_id)) (cf_pkts f') (map (\<lambda>(now, tick, h). h) tr)"
    and "fresh_manager m0" and "0 \<le> t0" and "\<forall>(now, tick, h)\<in>set tr. t0 \<le> now \<and> now \<le> t0 + 5"
  shows "\<exists>w m. rx_run pick (packets tr) (CTimerWheel_new, rx_Create m0) = Some (w, m) \<and> list_all (\<lambda>c. c = 0) (error_counters (rm_stats m)) \<and>
    list_all (\<lambda>t. ti_errors t = 0) (rm_template_info m) \<and> rm_map m = Map.empty"
  using rx_clean_run [OF assms(7) template_clean [OF assms(1-5) make_flow_id_room assms(6)] assms(8,9), of pick] by blast

theorem template_replay_accepted_witness:
  "\<exists>f f' tr w m. load_cap_file demo_load_cfg 0 (demo_udp 1 2 5 7) (\<lambda>_. 0) demo_file = Inr (True, f) \<and> update_info False f = Inr f' \<and> length tr = 2 \<and>
     list_all2 (header_of False (make_flow_id 9 1)) (cf_pkts f') (map (\<lambda>(now, tick, h). h) tr) \<and>
     rx_run hd (packets tr) (CTimerWheel_new, rx_Create demo_manager) = Some (w, m) \<and> list_all (\<lambda>c. c = 0) (error_counters (rm_stats m))"
proof -
  obtain f where f: "load_cap_file demo_load_cfg 0 (demo_udp 1 2 5 7) (\<lambda>_. 0) demo_file = Inr (True, f)" "cf_total_flows f \<le> 16" "length (cf_pkts f) = 2" by (rule demo_loads)
  obtain f' where u: "update_info False f = Inr f'" using update_info_total [of f] f(3) by auto
  have len: "length demo_file < 65536" by (simp add: demo_file_def)
  have l2: "length (cf_pkts f') = 2" by (rule loaded_numbered [OF f(1) TrueI len u]) (use f(3) in \<open>metis length_map\<close>)
  let ?tr = "map (\<lambda>p. (1 :: rat, 0 :: u32, rxcheck_header False (make_flow_id 9 1) 0 0 p)) (cf_pkts f')"
  have hs: "list_all2 (header_of False (make_flow_id 9 1)) (cf_pkts f') (map (\<lambda>(now, tick, h). h) ?tr)" by (auto simp: list_all2_conv_all_nth header_of_def)
  have m0: "fresh_manager demo_manager" by (simp add: fresh_manager_def demo_manager_def)
  have ts: "\<forall>(now, tick, h)\<in>set ?tr. 1 \<le> now \<and> now \<le> 1 + 5" by auto
  obtain w m where "rx_run hd (packets ?tr) (CTimerWheel_new, rx_Create demo_manager) = Some (w, m)" "list_all (\<lambda>c. c = 0) (error_counters (rm_stats m))"
    using template_replay_accepted [OF f(1) TrueI len f(2) u hs m0 _ ts, of hd] by auto
  then show ?thesis using f(1) u hs l2 by (intro exI [of _ f] exI [of _ f'] exI [of _ ?tr] exI [of _ w] exI [of _ m]) simp
qed

end
