(* ===== verification/Spec2Isabelle.thy ===== *)
theory Spec2Isabelle
  imports Inet_Checksum Stream_Vm_Semantics Stream_Vm_Fields Vm_Splitter Ip_Info Tuple_Pool
    Stateless_System_Inv Latency_Loop Flow_File
begin

text \<open>
  A verification of the core of the TRex traffic generator.

  The program has a \<^emph>\<open>stateless\<close> mode, in which a user describes packet streams, and a \<^emph>\<open>stateful\<close> mode, which replays recorded
  flows.  In both, a control plane distributes work over data-path cores, and a receive thread measures what comes back.  The theories
  below follow the sources under \<open>src/src\<close> function by function and keep their names; records are the classes, machine
  integers are words of their width, errors and undefined behaviour are values.

  \<^bold>\<open>Foundations.\<close>  \<open>Trex_Prelude\<close>: integers, the error monad \<open>bindE\<close>, byte memories with bounds-checked access (\<open>mem_rd\<close>, \<open>mem_wr\<close>) and
  the locale \<open>checked_machine\<close> for machines whose allowed steps never fail.  \<open>Inet_Checksum\<close>
  (\<open>common/Network/Packet/CPktCmn.cpp\<close>, \<open>IPHeader.inl\<close>): the Internet checksum, its incremental update and the header operations that maintain it.
  \<open>Bit_Man\<close> (\<open>common/bitMan.h\<close>): bit fields.

  \<^bold>\<open>Field engine\<close> (\<open>stateless/cp/trex_stream_vm.h\<close>, \<open>.cpp\<close>).  \<open>Stream_Vm_Compile\<close> is the compiler from the user's instructions to the packed
  program, \<open>Stream_Vm_Dp\<close> the packed instructions (locale \<open>packed_struct\<close>, one instance per instruction) and the interpreter that runs them on each packet.
  \<open>Stream_Vm_Semantics\<close> shows that a compiled program stays inside its variables and the packet and computes the values that were asked for;
  \<open>Stream_Vm_Fields\<close> treats client pools and random variables; \<open>Vm_Splitter\<close> (\<open>trex_vm_splitter.cpp\<close>) the division of a program between cores.

  \<^bold>\<open>Streams\<close> (\<open>stateless/cp/trex_stream.*\<close>, \<open>trex_streams_compiler.*\<close>).  \<open>Trex_Stream\<close>: streams and the stream table.  \<open>Streams_Compiler\<close>: the graph checks and
  the compilation for each core; accepted graphs are characterised exactly, and load is conserved.  \<open>Streams_Graph\<close>: the rate graph,
  whose sweep is compared with the peak of the rate as a function of time.

  \<^bold>\<open>Stateless data path and control plane.\<close>  \<open>Stateless_Dp\<close> (\<open>stateless/dp/trex_stateless_dp_core.*\<close>, \<open>trex_stream_node.h\<close>): nodes, ports and the stream branch of the scheduler.
  \<open>Stateless_Dp_Inv\<close>, \<open>_Machine\<close>, \<open>_Start\<close> and \<open>_Frame\<close>: the invariant of a core, a core as a machine, what \<open>start_traffic\<close> builds, and what one step changes.
  \<open>Stateless_Port\<close> (\<open>stateless/cp/trex_stateless_port.*\<close>, \<open>trex_dp_port_events.*\<close>): the port of the control plane.
  \<open>Stateless_System\<close> (\<open>stateless/messaging\<close>, \<open>msg_manager.*\<close>): a port and its cores, joined by FIFO rings, with every interleaving; \<open>Stateless_System_Inv\<close> shows that no
  handler fails, that the two sides agree when all messages are taken, that each message refines an abstract
  step, and that the end of a run is reported.  This theory adds what spans compiler and cores: streams that compile can be started, and a burst sends the packets it should.

  \<^bold>\<open>Stateful mode.\<close>  \<open>Ip_Info\<close> and \<open>Tuple_Pool\<close> (\<open>tuple_gen.*\<close>): ports of one address (locales \<open>ip_info\<close>, \<open>tracking_ip_info\<close>), pools, generators and their division between threads.
  \<open>Pkt_Desc\<close> and \<open>Pkt_Parse\<close> (\<open>bp_sim.*\<close>): the descriptor of a recorded packet, the parser with its counters, conversion to IPv6, keys of flows and the flow table.
  \<open>Flow_File\<close> (\<open>bp_sim.cpp\<close>, \<open>CCapFileFlowInfo\<close>): loading and numbering a recorded template and the headers made from it, which the receive check accepts.

  \<^bold>\<open>Receive side.\<close>  \<open>Timer_Wheel\<close> (\<open>timer_wheel_pq.*\<close>): the lazy timer queue as a map from handles to deadlines; the locale \<open>wheel_client\<close> carries the
  invariant of a client through its callbacks.  \<open>Time_Histogram\<close> (\<open>time_histogram.*\<close>, \<open>utl_jitter.h\<close>, \<open>utl_cpuu.*\<close>): statistics.  \<open>Rx_Check\<close>, \<open>Rx_Check_Clean\<close> (\<open>rx_check.*\<close>, \<open>rx_check_header.h\<close>): the check of received flows is
  memory safe for any packets and silent for clean traffic.  \<open>Nat_Check\<close> (\<open>nat_check.*\<close>): learning of translated addresses.  \<open>Latency\<close>, \<open>Latency_Safe\<close>,
  \<open>Latency_Loop\<close> (\<open>latency.*\<close>): latency packets and ports, safety for arbitrary input, and the main loop with its pace.

  \<^bold>\<open>Inputs and choices.\<close>  What the program does not determine is a parameter: \<open>rand\<close> for the C library's generator, \<open>pick\<close> and \<open>tie\<close> for the order of equal keys in a
  priority queue, clock readings, the result of allocating a node or sending to a full ring, the bytes that arrive.  Loops are structural or have a
  termination proof; \<open>try_handle_events\<close> and \<open>drain_all\<close> of the timer wheel, which call back into their client, are partial functions, and that they return is proved.  No
  fuel is used.  Times, rates and averages are rationals where the code has \<open>double\<close>: rounding is not modelled, but the conversions to integers that C++
  leaves undefined are failures.

  \<^bold>\<open>Not modelled.\<close>  The rest of the stateful simulator and its scheduler in \<open>bp_sim.*\<close>: packet buffers, the rewriting of packets and the generation of flows from templates; of the scheduler only the
  branch for stream nodes is here.  Reading and writing of YAML, JSON and capture files and all printing; the RPC server, which maps JSON requests to the commands of the
  port; the drivers and the port layer in \<open>main_dpdk.cpp\<close>; third-party code.
\<close>

section \<open>From the compiler to the cores\<close>


lemma demo_streams_src:
  "\<forall>s\<in>set (filter s_enabled demo_streams). s_type s \<noteq> stNONE \<and> s_port_id s = 0 \<and> s_next_stream_id s < 2 ^ 31"
  "length demo_streams < 2 ^ 32"
  by (simp_all add: demo_streams_def TrexStream_new_def)

lemma demo_core_idle: "port_in demo_core 0 {ppSTATE_IDLE}" by (simp add: demo_simps Let_def)


section \<open>Packets of a burst over all cores\<close>

lemma compiled_burst_node:
  assumes comp: "compile_internal rand pid streams n factor = Inr (objs, w)"
    and src: "\<forall>s\<in>set (filter s_enabled streams). s_type s \<noteq> stNONE \<and> s_port_id s = pid \<and> s_next_stream_id s < 2 ^ 31"
    and len: "length streams < 2 ^ 32" and c: "c < unat n"
    and core: "dp_reachable core" and idle: "port_in core pid {ppSTATE_IDLE}"
    and k: "k < length (filter s_enabled streams)" and s: "s = filter s_enabled streams ! k"
    and burst: "s_type s \<noteq> stCONTINUOUS" and start: "s_self_start s"
  obtains core' i nd where "start_traffic pid (co_objs (objs ! c)) duration e core = Some core'" and "dp_reachable core'"
    and "c_sent core' = c_sent core" and "c_nodes core' i = Some nd" and "i \<in> set (c_queue core')"
    and "n_state nd = ss_ACTIVE" and "n_stream_type nd = stMULTI_BURST"
    and "n_single_burst nd = s_burst_total_pkts (co_objs (objs ! c) ! k)" and "n_single_burst_refill nd = n_single_burst nd"
    and "n_multi_bursts nd = (if s_type s = stMULTI_BURST then s_num_bursts s else 1)"
proof -
  note ok = compiled_streams_ok [OF comp src len c]
  let ?ds = "co_objs (objs ! c)"
  have nx: "\<forall>s\<in>set (filter s_enabled streams). s_next_stream_id s < 2 ^ 31" using src by blast
  obtain nn vm dp where d: "?ds ! k = (core_stream s factor n (int k) nn c)\<lparr>s_vm := vm, s_vm_dp := dp\<rparr>"
    using compiled_stream_at [OF comp nx c k] unfolding s by blast
  then have kept: "s_type (?ds ! k) = s_type s" "s_self_start (?ds ! k)" "s_num_bursts (?ds ! k) = s_num_bursts s"
    using start by (simp_all add: core_stream_def fix_dp_stream_id_def Let_def)
  have type: "s_type s \<noteq> stNONE" using src k unfolding s by (metis nth_mem)
  obtain q where db: "get_port_db core pid = Some q" using idle by (auto simp: port_in_def split: option.splits)
  obtain core' where st: "start_traffic pid ?ds duration e core = Some core'" "dp_reachable core'"
    using dp.never_fails [OF core, of "EvStart pid ?ds duration e"] idle ok(1) by auto
  note nodes = start_traffic_nodes [OF st(1) db]
  have kd: "k < length ?ds" using k ok(2) by simp
  show thesis
    by (rule that [OF st nodes(2) _ nodes(5) [OF kd kept(2)],
          where nd = "relink (c_next_node core) (?ds ! k) (the (new_stream_node core (?ds ! k)))"])
      (use nodes(4) [OF kd] kept type burst in
        \<open>cases "s_type s"; simp add: new_stream_node_def node_bursts_def relink_def\<close>)+
qed


definition demo_burst :: "u32 \<Rightarrow> TrexStream list" where
  "demo_burst pkts = [(TrexStream_new stMULTI_BURST 0 4)
     \<lparr>s_enabled := True, s_self_start := True, s_pps := 1, s_burst_total_pkts := pkts, s_num_bursts := 3\<rparr>]"

lemma demo_burst_ok:
  obtains objs w where "compile_internal (\<lambda>_ _. 0) 0 (demo_burst pkts) 2 1 = Inr (objs, w)"
proof -
  have "\<exists>r. compile_internal (\<lambda>_ _. 0) 0 (demo_burst pkts) 2 1 = Inr r"
    by (simp add: demo_burst_def demo_compile_simps Let_def)
  then show thesis using that by fastforce
qed

lemma demo_burst_src:
  "filter s_enabled (demo_burst pkts) = demo_burst pkts"
  "\<forall>s\<in>set (filter s_enabled (demo_burst pkts)). s_type s \<noteq> stNONE \<and> s_port_id s = 0 \<and> s_next_stream_id s < 2 ^ 31"
  "length (demo_burst pkts) < 2 ^ 32"
  by (simp_all add: demo_burst_def TrexStream_new_def)


text \<open>
  C26. A burst with fewer packets than cores floods the port: on every core but the first the burst is
  compiled to zero packets, the core accepts it, and its counter wraps, so that the stream is sent
  in each of its next \<open>2^32 - 1\<close> turns where it should send nothing.
\<close>

theorem small_burst_floods:
  assumes comp: "compile_internal rand pid streams n factor = Inr (objs, w)"
    and src: "\<forall>s\<in>set (filter s_enabled streams). s_type s \<noteq> stNONE \<and> s_port_id s = pid \<and> s_next_stream_id s < 2 ^ 31"
    and len: "length streams < 2 ^ 32" and c: "0 < c" "c < unat n"
    and core: "dp_reachable core" and idle: "port_in core pid {ppSTATE_IDLE}"
    and k: "k < length (filter s_enabled streams)" and s: "s = filter s_enabled streams ! k"
    and burst: "s_type s \<noteq> stCONTINUOUS" and start: "s_self_start s"
    and small: "unat (s_burst_total_pkts s) < unat n" and m: "m < 2 ^ 32"
  shows "\<exists>core' core'' i. dp_step (EvStart pid (co_objs (objs ! c)) duration e) core = Some core' \<and>
    sched_times m i core' = Some core'' \<and> c_sent core'' = replicate m i @ c_sent core"
proof -
  obtain core' i nd where st: "start_traffic pid (co_objs (objs ! c)) duration e core = Some core'"
    and sent: "c_sent core' = c_sent core" and nd: "c_nodes core' i = Some nd" "i \<in> set (c_queue core')"
    "n_state nd = ss_ACTIVE" "n_stream_type nd = stMULTI_BURST"
    "n_single_burst nd = s_burst_total_pkts (co_objs (objs ! c) ! k)"
    by (rule compiled_burst_node [OF comp src len c(2) core idle k s burst start])
  have "n_single_burst nd = 0"
    using compiled_load_at(2) [OF comp c(2) k] small c(1) nd(5) unfolding s by (simp add: unat_eq_0)
  moreover have "unat (- 1 :: u32) = 2 ^ 32 - 1" by (simp add: unsigned_minus_1_eq_mask mask_eq_exp_minus_1)
  ultimately have "m \<le> unat (n_single_burst nd - 1)" using m by simp
  from burst_turns [OF nd(1-4) this] show ?thesis using st sent by fastforce
qed

theorem small_burst_floods_witness:
  "\<exists>objs w a b i. compile_internal (\<lambda>_ _. 0) 0 (demo_burst 1) 2 1 = Inr (objs, w) \<and>
     dp_step (EvStart 0 (co_objs (objs ! 1)) 10 7) demo_core = Some a \<and> sched_times 1000000 i a = Some b \<and>
     c_sent b = replicate 1000000 i"
proof -
  obtain objs w where comp: "compile_internal (\<lambda>_ _. 0) 0 (demo_burst 1) 2 1 = Inr (objs, w)" by (rule demo_burst_ok)
  have s: "s_type (demo_burst 1 ! 0) \<noteq> stCONTINUOUS" "s_self_start (demo_burst 1 ! 0)" "s_burst_total_pkts (demo_burst 1 ! 0) = 1"
    "0 < length (demo_burst 1)"
    by (simp_all add: demo_burst_def TrexStream_new_def)
  have "c_sent demo_core = []" by (simp add: demo_simps)
  with small_burst_floods [OF comp demo_burst_src(2,3) _ _ demo_core_init demo_core_idle, of 1 0 "demo_burst 1 ! 0" 1000000 10 7]
    comp s show ?thesis unfolding demo_burst_src(1) by auto
qed

end
